(* ===== verification/Prelude.thy ===== *)
theory Prelude
  imports "HOL-Library.Word" "HOL-Library.List_Lexorder"
begin

text \<open>
  The vocabulary every component shares: machine integers of the widths the Go code uses, byte
  strings, the outcome of a fallible Go call (a value, an \<open>error\<close>, or a panic), little- and
  big-endian encodings as \<open>encoding/binary\<close> computes them, and the generic lemmas on lists and
  words that the component theories rely on.
\<close>

unbundle bit_operations_syntax

type_synonym byte = "8 word"
type_synonym bytes = "byte list"
type_synonym u8 = "8 word"
type_synonym u16 = "16 word"
type_synonym u32 = "32 word"
type_synonym u64 = "64 word"
type_synonym err = string

named_theorems res_simps \<open>unfolding equations of the outcome type\<close>

text \<open>
  The outcome of a Go call with result type \<open>(T, error)\<close>: \<open>Ok v\<close> is a nil error, \<open>Err e\<close> a
  non-nil one, \<open>Panic\<close> a run-time panic (an index out of range, an explicit \<open>panic\<close>), \<open>Diverge\<close>
  a call that does not return.
\<close>

datatype 'a res = Ok 'a | Err err | Panic | Diverge

primrec bind_res :: "'a res \<Rightarrow> ('a \<Rightarrow> 'b res) \<Rightarrow> 'b res" where
  "bind_res (Ok x) f = f x"
| "bind_res (Err e) f = Err e"
| "bind_res Panic f = Panic"
| "bind_res Diverge f = Diverge"

definition guard_res :: "bool \<Rightarrow> err \<Rightarrow> unit res" where
  "guard_res b e = (if b then Ok () else Err e)"

definition panic_unless :: "bool \<Rightarrow> 'a res \<Rightarrow> 'a res" where
  "panic_unless b r = (if b then r else Panic)"

definition ErrUnexpectedEOF :: err where
  "ErrUnexpectedEOF = ''unexpected EOF''"

text \<open>
  A Go \<open>int\<close> has 64 bits; no slice is longer than \<open>maxInt\<close>.
\<close>

definition maxInt :: nat where
  "maxInt = 2 ^ 63 - 1"

text \<open>
  \<open>binary.LittleEndian\<close> and \<open>binary.BigEndian\<close> of the standard library, for any width.
\<close>

definition put_le :: "nat \<Rightarrow> 'a::len word \<Rightarrow> bytes" where
  "put_le n w = map (\<lambda>i. ucast (drop_bit (8 * i) w)) [0..<n]"

fun get_le :: "bytes \<Rightarrow> 'a::len word" where
  "get_le [] = 0"
| "get_le (b # bs) = ucast b OR push_bit 8 (get_le bs)"

definition put_be :: "nat \<Rightarrow> 'a::len word \<Rightarrow> bytes" where
  "put_be n w = rev (put_le n w)"

definition get_be :: "bytes \<Rightarrow> 'a::len word" where
  "get_be bs = get_le (rev bs)"

text \<open>
  \<open>copy(dst, src)\<close> on two slices: the common prefix is overwritten.
\<close>

definition copy_slice :: "'a list \<Rightarrow> 'a list \<Rightarrow> 'a list" where
  "copy_slice dst src = take (length dst) src @ drop (length src) dst"

text \<open>
  The index and slice expressions of Go, with the panics of its run time. \<open>xs[i]\<close> and the assignment \<open>xs[i] = v\<close> need
  an index below the length. \<open>xs[lo:hi]\<close> needs \<open>0 \<le> lo \<le> hi\<close>, and an upper bound that Go compares with the capacity; the
  model has no capacities and panics already above the length, so code that is free of panics here is so in Go.
  \<open>le_res n\<close> is \<open>binary.LittleEndian.Uint16\<close> and its like, which panic on a slice of fewer than \<open>n\<close> bytes.
\<close>

definition at_res :: "'a list \<Rightarrow> int \<Rightarrow> 'a res" where
  "at_res xs i = panic_unless (0 \<le> i \<and> i < int (length xs)) (Ok (xs ! nat i))"

definition upd_res :: "'a list \<Rightarrow> int \<Rightarrow> 'a \<Rightarrow> 'a list res" where
  "upd_res xs i v = panic_unless (0 \<le> i \<and> i < int (length xs)) (Ok (xs[nat i := v]))"

definition slice_res :: "'a list \<Rightarrow> int \<Rightarrow> int \<Rightarrow> 'a list res" where
  "slice_res xs lo hi =
     panic_unless (0 \<le> lo \<and> lo \<le> hi \<and> hi \<le> int (length xs)) (Ok (take (nat (hi - lo)) (drop (nat lo) xs)))"

definition le_res :: "nat \<Rightarrow> bytes \<Rightarrow> 'a::len word res" where
  "le_res n bs = panic_unless (n \<le> length bs) (Ok (get_le (take n bs)))"

subsection \<open>The outcome type\<close>

lemma bind_res_cong [fundef_cong]:
  "m = m' \<Longrightarrow> (\<And>x. m' = Ok x \<Longrightarrow> f x = f' x) \<Longrightarrow> bind_res m f = bind_res m' f'"
  by (cases m') auto

lemma bind_res_Ok_iff: "bind_res m f = Ok y \<longleftrightarrow> (\<exists>x. m = Ok x \<and> f x = Ok y)"
  by (cases m) auto

lemma bind_res_Panic_iff: "bind_res m f = Panic \<longleftrightarrow> m = Panic \<or> (\<exists>x. m = Ok x \<and> f x = Panic)"
  by (cases m) auto

lemma bind_res_Err_iff:
  "bind_res m f = Err e \<longleftrightarrow> m = Err e \<or> (\<exists>x. m = Ok x \<and> f x = Err e)"
  by (cases m) auto

lemma bind_res_assoc: "bind_res (bind_res m f) g = bind_res m (\<lambda>x. bind_res (f x) g)"
  by (cases m) auto

lemma guard_res_iff [simp]:
  "guard_res b e = Ok u \<longleftrightarrow> b"
  "guard_res b e \<noteq> Panic"
  "guard_res b e = Err e' \<longleftrightarrow> \<not> b \<and> e' = e"
  by (auto simp: guard_res_def)

lemma bind_guard [simp]: "bind_res (guard_res b e) f = (if b then f () else Err e)"
  by (simp add: guard_res_def)

lemma panic_unless_Ok_iff [simp]: "panic_unless b r = Ok x \<longleftrightarrow> b \<and> r = Ok x"
  by (simp add: panic_unless_def)

lemma panic_unless_True [simp]: "panic_unless True r = r"
  by (simp add: panic_unless_def)

lemma at_res_in [simp]: "0 \<le> i \<Longrightarrow> i < int (length xs) \<Longrightarrow> at_res xs i = Ok (xs ! nat i)"
  by (simp add: at_res_def)

lemma upd_res_in [simp]: "0 \<le> i \<Longrightarrow> i < int (length xs) \<Longrightarrow> upd_res xs i v = Ok (xs[nat i := v])"
  by (simp add: upd_res_def)

lemma slice_res_in [simp]:
  "0 \<le> lo \<Longrightarrow> lo \<le> hi \<Longrightarrow> hi \<le> int (length xs) \<Longrightarrow> slice_res xs lo hi = Ok (take (nat (hi - lo)) (drop (nat lo) xs))"
  by (simp add: slice_res_def)

lemma at_res_word [simp]: "unat i < length xs \<Longrightarrow> at_res xs (uint i) = Ok (xs ! unat i)"
  by (simp add: at_res_def unat_eq_nat_uint nat_less_iff del: nat_uint_eq)

lemma slice_res_words [simp]:
  "unat lo \<le> unat hi \<Longrightarrow> unat hi \<le> length xs
   \<Longrightarrow> slice_res xs (uint lo) (uint hi) = Ok (take (unat hi - unat lo) (drop (unat lo) xs))"
  by (simp add: slice_res_def unat_eq_nat_uint nat_le_eq_zle nat_le_iff nat_diff_distrib del: nat_uint_eq)

lemma le_res_in [simp]: "length bs = n \<Longrightarrow> le_res n bs = Ok (get_le bs)"
  by (simp add: le_res_def)

lemmas [res_simps] = bind_res_Ok_iff bind_res_Panic_iff bind_res_Err_iff panic_unless_def

subsection \<open>Byte order\<close>

lemma length_put_le [simp]: "length (put_le n w) = n"
  by (simp add: put_le_def)

lemma put_le_0 [simp]: "put_le 0 w = []"
  by (simp add: put_le_def)

lemma put_le_Suc: "put_le (Suc n) w = ucast w # put_le n (drop_bit 8 w)"
proof -
  have "map (\<lambda>i. ucast (drop_bit (8 * i) w)) [0..<Suc n]
      = ucast w # map (\<lambda>i. ucast (drop_bit (8 * Suc i) w) :: byte) [0..<n]"
    by (simp add: upt_conv_Cons map_Suc_upt [symmetric] comp_def del: upt_Suc)
  then show ?thesis
    by (simp add: put_le_def add.commute)
qed

lemma bit_get_le:
  "bit (get_le bs :: 'a::len word) i
     \<longleftrightarrow> i < LENGTH('a) \<and> i div 8 < length bs \<and> bit (bs ! (i div 8)) (i mod 8)"
proof (induction bs arbitrary: i)
  case Nil
  then show ?case by simp
next
  case (Cons b bs)
  show ?case
  proof (cases "i < 8")
    case True
    then show ?thesis
      by (auto simp: bit_or_iff bit_push_bit_iff bit_ucast_iff dest: bit_imp_le_length)
  next
    case False
    then obtain j where i: "i = j + 8"
      using le_Suc_ex [of 8 i] by (auto simp: add.commute)
    have "\<not> bit b i"
      using False bit_imp_le_length [of b i] by auto
    moreover have "(j + 8) div 8 = Suc (j div 8)"
      by simp
    ultimately show ?thesis
      using Cons.IH [of j] by (auto simp: i bit_or_iff bit_push_bit_iff bit_ucast_iff)
  qed
qed

lemma get_put_le [simp]:
  assumes "LENGTH('a) \<le> 8 * n"
  shows "get_le (put_le n (w :: 'a::len word)) = w"
proof (rule bit_word_eqI)
  fix i assume "i < LENGTH('a)"
  then have "i div 8 < n"
    using assms by (simp add: div_less_iff_less_mult)
  then show "bit (get_le (put_le n w) :: 'a word) i = bit w i"
    using \<open>i < LENGTH('a)\<close>
    by (simp add: bit_get_le put_le_def bit_ucast_iff bit_drop_bit_eq)
qed

lemma put_get_le:
  assumes "8 * length bs \<le> LENGTH('a)"
  shows "put_le (length bs) (get_le bs :: 'a::len word) = bs"
proof (rule nth_equalityI)
  fix i assume "i < length (put_le (length bs) (get_le bs :: 'a word))"
  then have i: "i < length bs" by simp
  show "put_le (length bs) (get_le bs :: 'a word) ! i = bs ! i"
  proof (rule bit_word_eqI)
    fix j assume j: "j < LENGTH(8)"
    have "8 * i + j < LENGTH('a)"
      using assms i j by simp
    then show "bit (put_le (length bs) (get_le bs :: 'a word) ! i) j = bit (bs ! i) j"
      using i j by (simp add: put_le_def bit_ucast_iff bit_drop_bit_eq bit_get_le)
  qed
qed simp

lemma length_put_be [simp]: "length (put_be n w) = n"
  by (simp add: put_be_def)

lemma get_put_be [simp]:
  "LENGTH('a) \<le> 8 * n \<Longrightarrow> get_be (put_be n (w :: 'a::len word)) = w"
  by (simp add: get_be_def put_be_def)

subsection \<open>Slices\<close>

lemma length_copy_slice [simp]: "length (copy_slice dst src) = length dst"
  by (simp add: copy_slice_def)

lemma copy_slice_same: "length src = length dst \<Longrightarrow> copy_slice dst src = src"
  by (simp add: copy_slice_def)

lemma copy_slice_prefix: "length src \<le> length dst \<Longrightarrow> copy_slice dst src = src @ drop (length src) dst"
  by (simp add: copy_slice_def)

subsection \<open>Words\<close>

lemma of_nat_less_u64 [simplified]: "n < 2 ^ 64 \<Longrightarrow> unat (of_nat n :: u64) = n"
  by (simp add: unat_of_nat)

lemma unat_u64_less [simplified, simp]: "unat (w :: u64) < 2 ^ 64"
  using unsigned_less [of w] by simp

lemma unat_byte_less: "unat (b :: byte) < 256"
  using unsigned_less [of b, where ?'a = nat] by simp

lemma unat_byte_le: "unat (b :: byte) \<le> 255"
  using unat_byte_less [of b] by simp

end
