(* ===== verification/MerkleBits.thy ===== *)
theory MerkleBits
  imports Prelude "HOL-Library.Log_Nat"
begin

text \<open>
  The bit counting of \<open>src/merkle/util.go\<close> on 32-bit words, and what it means for the natural
  number the word stands for: \<open>countBit\<close> is the number of binary digits, \<open>highBit\<close> their length, and
  \<open>1 << (highBit(n-1) - 1)\<close> the largest power of two below \<open>n\<close>, where RFC 6962 splits a list of
  \<open>n\<close> leaves.
\<close>

section \<open>util.go\<close>

function countBit :: "u32 \<Rightarrow> nat" where
  "countBit num = (if num = 0 then 0 else Suc (countBit (num AND (num - 1))))"
  by auto

lemma unat_pred: "w \<noteq> 0 \<Longrightarrow> unat (w - 1) = unat w - 1" for w :: "'a::len word"
  by (subst unat_sub) (simp_all add: word_le_nat_alt Suc_le_eq unat_gt_0)

lemma unat_clear_low: "w \<noteq> 0 \<Longrightarrow> unat (w AND (w - 1)) = (unat w AND (unat w - 1))" for w :: u32
  by (simp add: unsigned_and_eq unat_pred)

lemma and_le_nat: "(m AND n) \<le> (n :: nat)"
  by (simp add: and_nat_def nat_le_iff AND_upper2)

termination countBit
proof (relation "measure unat", goal_cases)
  case (2 num)
  then have "(unat num AND (unat num - 1)) < unat num"
    using and_le_nat [of "unat num" "unat num - 1"] unat_gt_0 [of num] by linarith
  then show ?case
    using 2 by (simp add: unat_clear_low)
qed simp

declare countBit.simps [simp del]

definition isPower2 :: "u32 \<Rightarrow> bool" where
  "isPower2 num \<longleftrightarrow> countBit num = 1"

lemma unat_half: "unat (drop_bit (Suc 0) w) = unat w div 2" for w :: u32
  by (simp add: drop_bit_Suc unat_div)

function highBit :: "u32 \<Rightarrow> nat" where
  "highBit num = (if num = 0 then 0 else Suc (highBit (drop_bit 1 num)))"
  by auto
termination
  by (relation "measure unat") (simp_all add: unat_half unat_gt_0)

declare highBit.simps [simp del]

definition lowBit :: "u32 \<Rightarrow> nat" where
  "lowBit num = highBit (num AND (- num))"

text \<open>
  \<open>uint32(1 << (highBit(w) - 1))\<close>: with no bit set the unsigned subtraction wraps and the shift
  clears the word.
\<close>

definition highPow :: "u32 \<Rightarrow> u32" where
  "highPow w = (if highBit w = 0 then 0 else push_bit (highBit w - 1) 1)"

section \<open>Binary digits\<close>

text \<open>The positions of the binary digits, highest first.\<close>

fun nbits :: "nat \<Rightarrow> nat list" where
  "nbits n = (if n = 0 then [] else map Suc (nbits (n div 2)) @ (if odd n then [0] else []))"

declare nbits.simps [simp del]

lemma nbits_0 [simp]: "nbits 0 = []"
  by (simp add: nbits.simps)

lemma nbits_double: "nbits (2 * n) = map Suc (nbits n)" "nbits (Suc (2 * n)) = map Suc (nbits n) @ [0]"
  by (simp_all add: nbits.simps [of "2 * n"] nbits.simps [of "Suc (2 * n)"])

lemma nbits_pow_add: "r < 2 ^ j \<Longrightarrow> nbits (2 ^ j + r) = j # nbits r"
proof (induction j arbitrary: r)
  case 0
  then show ?case by (simp add: nbits.simps [of "Suc 0"])
next
  case (Suc j)
  define q where "q = r div 2"
  have q: "q < 2 ^ j"
    using Suc.prems by (simp add: q_def less_mult_imp_div_less mult.commute)
  consider "r = 2 * q" | "r = Suc (2 * q)"
    unfolding q_def by (metis dvd_mult_div_cancel odd_two_times_div_two_succ Suc_eq_plus1)
  then show ?case
    using Suc.IH [OF q] nbits_double [of "2 ^ j + q"] nbits_double [of q]
    by cases (simp_all add: algebra_simps)
qed

lemma nbits_pow [simp]: "nbits (2 ^ j) = [j]"
  using nbits_pow_add [of 0 j] by simp

lemma nbits_less: "n < 2 ^ k \<Longrightarrow> b \<in> set (nbits n) \<Longrightarrow> b < k"
proof (induction n arbitrary: k b rule: nbits.induct)
  case (1 n)
  have n: "n \<noteq> 0"
    using 1(3) by (cases "n = 0") simp_all
  then obtain k' where k: "k = Suc k'"
    using 1(2) by (cases k) auto
  then have "n div 2 < 2 ^ k'"
    using 1(2) by (simp add: less_mult_imp_div_less mult.commute)
  then have "c < k'" if "c \<in> set (nbits (n div 2))" for c
    using 1(1) [OF n _ that] by blast
  moreover have "set (nbits n) \<subseteq> insert 0 (Suc ` set (nbits (n div 2)))"
    using n by (subst nbits.simps) auto
  ultimately show ?case
    using 1(3) k by auto
qed

lemma length_nbits_le: "n < 2 ^ k \<Longrightarrow> length (nbits n) \<le> k"
proof (induction n arbitrary: k rule: nbits.induct)
  case (1 n)
  show ?case
  proof (cases "n = 0")
    case False
    then obtain k' where k: "k = Suc k'"
      using 1(2) by (cases k) auto
    then have "n div 2 < 2 ^ k'"
      using 1(2) by (simp add: less_mult_imp_div_less mult.commute)
    then show ?thesis
      using 1(1) [OF False, of k'] k False by (auto simp: nbits.simps [of n])
  qed simp
qed

lemma sum_nbits: "sum_list (map ((^) 2) (nbits n)) = n"
proof (induction n rule: nbits.induct)
  case (1 n)
  have "sum_list (map (\<lambda>b. 2 * 2 ^ b) bs) = (2 * sum_list (map ((^) 2) bs) :: nat)" for bs :: "nat list"
    by (induction bs) auto
  then show ?case
    using 1 by (cases "n = 0") (auto simp: nbits.simps [of n] o_def)
qed

lemma clear_low_nat:
  "(2 * n AND (2 * n - 1)) = 2 * (n AND (n - 1))" "(Suc (2 * n) AND (2 * n)) = 2 * n" for n :: nat
proof -
  have "(2 * n AND (2 * n - 1)) = 2 * (n AND ((2 * n - 1) div 2))"
    by (subst and_rec) simp
  then show "(2 * n AND (2 * n - 1)) = 2 * (n AND (n - 1))"
    by (cases n) simp_all
  show "(Suc (2 * n) AND (2 * n)) = 2 * n"
    by (subst and_rec) simp
qed

lemma length_nbits_clear: "n \<noteq> 0 \<Longrightarrow> length (nbits n) = Suc (length (nbits (n AND (n - 1))))"
proof (induction n rule: less_induct)
  case (less n)
  define q where "q = n div 2"
  consider "n = 2 * q" "q \<noteq> 0" | "n = Suc (2 * q)"
    using less.prems unfolding q_def by (cases "even n") auto
  then show ?case
  proof cases
    case 1
    then show ?thesis
      using less.IH [of q] clear_low_nat(1) [of q] by (simp add: nbits_double)
  next
    case 2
    then show ?thesis
      using clear_low_nat(2) [of q] by (simp add: nbits_double)
  qed
qed

lemma countBit_nbits: "countBit w = length (nbits (unat w))"
proof (induction w rule: countBit.induct)
  case (1 w)
  then show ?case
    by (cases "w = 0")
      (simp_all add: countBit.simps [of w] unat_clear_low length_nbits_clear unat_eq_zero countBit.simps [of 0])
qed

section \<open>The split point\<close>

lemma highBit_bounds: "w \<noteq> 0 \<Longrightarrow> 0 < highBit w \<and> 2 ^ (highBit w - 1) \<le> unat w \<and> unat w < 2 ^ highBit w"
proof (induction w rule: highBit.induct)
  case (1 w)
  define v where "v = drop_bit 1 w"
  have v: "unat v = unat w div 2"
    by (simp add: v_def unat_half)
  have h: "highBit w = Suc (highBit v)"
    using 1(2) by (simp add: highBit.simps [of w] v_def)
  show ?case
  proof (cases "v = 0")
    case True
    then have "unat w = 1"
      using v 1(2) unat_gt_0 [of w] by simp
    then show ?thesis
      using h True by (simp add: highBit.simps [of 0])
  next
    case False
    with 1 v_def have "0 < highBit v" "2 ^ (highBit v - 1) \<le> unat v" "unat v < 2 ^ highBit v"
      by simp_all
    then show ?thesis
      using h v by (cases "highBit v") auto
  qed
qed

text \<open>The largest power of two below \<open>n\<close>, for \<open>n \<ge> 2\<close>.\<close>

definition ksplit :: "nat \<Rightarrow> nat" where
  "ksplit n = 2 ^ (floorlog 2 (n - 1) - 1)"

lemma pow2_between_unique:
  fixes n :: nat
  assumes "2 ^ i < n" "n \<le> 2 ^ Suc i" "2 ^ j < n" "n \<le> 2 ^ Suc j"
  shows "i = j"
proof -
  have "(2::nat) ^ i < 2 ^ Suc j"
    using assms by linarith
  moreover have "(2::nat) ^ j < 2 ^ Suc i"
    using assms by linarith
  ultimately have "i < Suc j" "j < Suc i"
    by (meson power_less_imp_less_exp one_less_numeral_iff semiring_norm(76))+
  then show ?thesis by simp
qed

lemma ksplit_pow:
  assumes "2 \<le> n"
  shows "\<exists>j. ksplit n = 2 ^ j \<and> 2 ^ j < n \<and> n \<le> 2 ^ Suc j"
proof -
  let ?j = "floorlog 2 (n - 1) - 1"
  have "2 ^ ?j \<le> n - 1" "n - 1 < 2 ^ floorlog 2 (n - 1)" "floorlog 2 (n - 1) > 0"
    using floorlog_bounds [of "n - 1" 2] assms by (auto simp: floorlog_def)
  then show ?thesis
    using assms by (intro exI [of _ ?j]) (cases "floorlog 2 (n - 1)"; auto simp: ksplit_def)
qed

lemma ksplit_eq:
  assumes "2 ^ i < n" "n \<le> 2 ^ Suc i"
  shows "ksplit n = 2 ^ i"
proof -
  have "2 \<le> n"
    using assms(1) by (metis Suc_leI less_one linorder_not_le numeral_2_eq_2 order_less_le_trans
        One_nat_def power_eq_0_iff neq0_conv zero_neq_numeral Suc_le_eq le_less_trans not_less_eq_eq)
  then show ?thesis
    using ksplit_pow [of n] pow2_between_unique [OF assms] by auto
qed

lemma ksplit_bounds [simp]:
  assumes "2 \<le> n"
  shows "0 < ksplit n" "ksplit n < n" "n \<le> 2 * ksplit n"
  using ksplit_pow [OF assms] by auto

lemma unat_highPow:
  assumes "w \<noteq> 0"
  shows "highPow w = 2 ^ (highBit w - 1)" "unat (highPow w) = 2 ^ (highBit w - 1)"
proof -
  have "(2::nat) ^ (highBit w - 1) < 2 ^ 32"
    using highBit_bounds [OF assms] unsigned_less [of w, where 'a = nat] by simp
  then have "unat ((2 :: u32) ^ (highBit w - 1)) = 2 ^ (highBit w - 1)"
    using unat_of_nat [of "2 ^ (highBit w - 1)", where 'a = 32] by simp
  then show "unat (highPow w) = 2 ^ (highBit w - 1)"
    using highBit_bounds [OF assms] by (simp add: highPow_def push_bit_eq_mult)
  show "highPow w = 2 ^ (highBit w - 1)"
    using highBit_bounds [OF assms] by (simp add: highPow_def push_bit_eq_mult)
qed

text \<open>The code's split is the reference's.\<close>

lemma highPow_ksplit:
  assumes "2 \<le> unat n"
  shows "unat (highPow (n - 1)) = ksplit (unat n)"
proof -
  have n: "n \<noteq> 0" "unat (n - 1) = unat n - 1" "n - 1 \<noteq> 0"
    using assms by (auto simp: unat_pred word_unat_eq_iff)
  then have "2 ^ (highBit (n - 1) - 1) < unat n" "unat n \<le> 2 ^ Suc (highBit (n - 1) - 1)"
    using highBit_bounds [OF n(3)] assms by auto
  then show ?thesis
    using ksplit_eq unat_highPow [OF n(3)] by simp
qed

end
