(* ===== verification/MerkleRef.thy ===== *)
theory MerkleRef
  imports MerkleBits Sha256
begin

text \<open>
  The hasher of \<open>src/merkle/merkle_hasher.go\<close> and, as the specification of the whole package, the
  Merkle tree hash of RFC 6962 over a list of leaf hashes (\<open>mth\<close>), the roots of its maximal full
  subtrees from left to right (\<open>peaks\<close>) and the order in which the hashes of full subtrees are
  persisted (\<open>layout\<close>). The three recurse by splitting a list at the largest power of two below its
  length; \<open>pairup\<close> hashes a list level by level from the leaves. That both views agree is what the
  appending and verifying code relies on.
\<close>

section \<open>TreeHasher\<close>

definition hash_empty :: bytes where
  "hash_empty = sha256 []"

definition hash_leaf :: "bytes \<Rightarrow> bytes" where
  "hash_leaf data = sha256 (0 # data)"

definition hash_children :: "bytes \<Rightarrow> bytes \<Rightarrow> bytes" where
  "hash_children left right = sha256 (1 # left @ right)"

lemma length_hash [simp]:
  "length hash_empty = 32" "length (hash_leaf d) = 32" "length (hash_children l r) = 32"
  by (simp_all add: hash_empty_def hash_leaf_def hash_children_def)

section \<open>The specification\<close>

function mth :: "bytes list \<Rightarrow> bytes" where
  "mth xs =
     (if xs = [] then hash_empty
      else if length xs = 1 then hd xs
      else hash_children (mth (take (ksplit (length xs)) xs)) (mth (drop (ksplit (length xs)) xs)))"
  by auto

lemma two_le_length: "xs \<noteq> [] \<Longrightarrow> length xs \<noteq> 1 \<Longrightarrow> 2 \<le> length xs"
  by (cases xs) (auto simp: Suc_le_eq)

lemma split_shorter:
  assumes "2 \<le> length xs"
  shows "length (take (ksplit (length xs)) xs) < length xs" "length (drop (ksplit (length xs)) xs) < length xs"
  using ksplit_bounds [OF assms] by auto

termination mth
  by (relation "measure length") 
    (simp_all only: in_measure wf_measure split_shorter [OF two_le_length] not_False_eq_True)

declare mth.simps [simp del]

lemma mth_Nil [simp]: "mth [] = hash_empty"
  by (simp add: mth.simps)

lemma mth_single [simp]: "mth [x] = x"
  by (simp add: mth.simps)

lemma mth_split: "2 \<le> length xs \<Longrightarrow>
  mth xs = hash_children (mth (take (ksplit (length xs)) xs)) (mth (drop (ksplit (length xs)) xs))"
  by (subst mth.simps) auto

text \<open>The induction all three share: a list of hashes is cut after a power of two.\<close>

lemma tree_induct [case_names Nil Single Split]:
  fixes P :: "bytes list \<Rightarrow> bool"
  assumes "P []" and "\<And>x. P [x]"
    and split: "\<And>j a b. length a = 2 ^ j \<Longrightarrow> b \<noteq> [] \<Longrightarrow> length b \<le> 2 ^ j \<Longrightarrow> P a \<Longrightarrow> P b \<Longrightarrow> P (a @ b)"
  shows "P xs"
proof (induction xs rule: length_induct)
  case (1 xs)
  show ?case
  proof (cases "2 \<le> length xs")
    case True
    let ?k = "ksplit (length xs)"
    obtain j where "?k = 2 ^ j" "2 ^ j < length xs" "length xs \<le> 2 ^ Suc j"
      using ksplit_pow [OF True] by blast
    then show ?thesis
      using split [of "take ?k xs" j "drop ?k xs"] 1 split_shorter [OF True] by simp
  next
    case False
    then consider "xs = []" | x where "xs = [x]"
      by (cases xs rule: remdups_adj.cases) auto
    then show ?thesis
      using assms by cases auto
  qed
qed

lemma ksplit_append:
  "length a = 2 ^ j \<Longrightarrow> b \<noteq> [] \<Longrightarrow> length b \<le> 2 ^ j \<Longrightarrow> ksplit (length (a @ b)) = 2 ^ j"
  by (rule ksplit_eq) auto

lemma length_append_2: "length a = 2 ^ j \<Longrightarrow> b \<noteq> [] \<Longrightarrow> 2 \<le> length (a @ b)"
proof -
  assume "length a = 2 ^ j" "b \<noteq> []"
  then show ?thesis
    by (cases b) (auto simp: Suc_le_eq)
qed

lemma mth_append:
  "length a = 2 ^ j \<Longrightarrow> b \<noteq> [] \<Longrightarrow> length b \<le> 2 ^ j \<Longrightarrow> mth (a @ b) = hash_children (mth a) (mth b)"
  using ksplit_append [of a j b] length_append_2 [of a j b] by (simp add: mth_split)

function peaks :: "bytes list \<Rightarrow> bytes list" where
  "peaks xs =
     (if length xs \<le> 1 then xs
      else if length xs = 2 * ksplit (length xs) then [mth xs]
      else mth (take (ksplit (length xs)) xs) # peaks (drop (ksplit (length xs)) xs))"
  by auto
termination
  by (relation "measure length") (simp_all only: split_shorter in_measure wf_measure not_le Suc_le_eq
      one_add_one [symmetric] flip: Suc_eq_plus1)

function layout :: "bytes list \<Rightarrow> bytes list" where
  "layout xs =
     (if length xs \<le> 1 then xs
      else layout (take (ksplit (length xs)) xs) @ layout (drop (ksplit (length xs)) xs)
        @ (if length xs = 2 * ksplit (length xs) then [mth xs] else []))"
  by auto
termination
  by (relation "measure length") (simp_all only: split_shorter in_measure wf_measure not_le Suc_le_eq
      one_add_one [symmetric] flip: Suc_eq_plus1)

declare peaks.simps [simp del] layout.simps [simp del]

fun pairup :: "bytes list \<Rightarrow> bytes list" where
  "pairup (a # b # xs) = hash_children a b # pairup xs"
| "pairup xs = xs"

section \<open>Lemmas on the specification\<close>

lemma peaks_short [simp]: "peaks [] = []" "peaks [x] = [x]" "layout [] = []" "layout [x] = [x]"
  by (simp_all add: peaks.simps layout.simps)

lemma peaks_append:
  assumes "length a = 2 ^ j" "b \<noteq> []" "length b \<le> 2 ^ j"
  shows "peaks (a @ b) = (if length b = 2 ^ j then [mth (a @ b)] else mth a # peaks b)"
    and "layout (a @ b) = layout a @ layout b @ (if length b = 2 ^ j then [mth (a @ b)] else [])"
  using assms ksplit_append [OF assms] length_append_2 [OF assms(1,2)]
  by (simp_all add: peaks.simps [of "a @ b"] layout.simps [of "a @ b"])

lemma split_full:
  assumes "length xs = 2 ^ Suc j"
  obtains a b where "xs = a @ b" "length a = 2 ^ j" "length b = 2 ^ j" "b \<noteq> []"
proof
  show "xs = take (2 ^ j) xs @ drop (2 ^ j) xs" by simp
qed (use assms in auto)

lemma peaks_full: "length xs = 2 ^ j \<Longrightarrow> peaks xs = [mth xs]"
proof (cases j)
  case 0
  assume "length xs = 2 ^ j"
  with 0 show ?thesis by (cases xs) auto
next
  case (Suc i)
  assume "length xs = 2 ^ j"
  then obtain a b where "xs = a @ b" "length a = 2 ^ i" "length b = 2 ^ i" "b \<noteq> []"
    using split_full [of xs i] Suc by blast
  then show ?thesis by (simp add: peaks_append)
qed

text \<open>The number of hashes of a full subtree with \<open>2^j\<close> leaves.\<close>

definition full_len :: "nat \<Rightarrow> nat" where
  "full_len j = 2 ^ Suc j - 1"

lemma full_len_simps [simp]: "0 < full_len j" "full_len 0 = 1" "full_len (Suc j) = full_len j + full_len j + 1"
proof -
  have "(1 :: nat) \<le> 2 ^ j" by simp
  then show "0 < full_len j"
    unfolding full_len_def power_Suc by linarith
  show "full_len (Suc j) = full_len j + full_len j + 1"
    using \<open>1 \<le> 2 ^ j\<close> unfolding full_len_def power_Suc by linarith
qed (simp add: full_len_def)

lemma layout_full: "length xs = 2 ^ j \<Longrightarrow> length (layout xs) = full_len j \<and> last (layout xs) = mth xs"
proof (induction j arbitrary: xs)
  case 0
  then show ?case by (cases xs) auto
next
  case (Suc j)
  then obtain a b where "xs = a @ b" "length a = 2 ^ j" "length b = 2 ^ j" "b \<noteq> []"
    using split_full by blast
  with Suc.IH [of a] Suc.IH [of b] show ?case
    by (simp add: peaks_append)
qed

lemma mth_32: "\<forall>x\<in>set xs. length x = 32 \<Longrightarrow> length (mth xs) = 32"
  by (induction xs rule: tree_induct) (auto simp: mth_append)

lemma layout_32: "\<forall>x\<in>set xs. length x = 32 \<Longrightarrow> \<forall>h\<in>set (layout xs). length h = 32"
  by (induction xs rule: tree_induct) (auto simp: peaks_append(2) mth_32)

lemma peaks_32: "\<forall>x\<in>set xs. length x = 32 \<Longrightarrow> \<forall>h\<in>set (peaks xs). length h = 32"
  by (induction xs rule: tree_induct) (auto simp: peaks_append(1) mth_32)

text \<open>Folding the peaks from the right gives the root.\<close>

fun foldr1 :: "('a \<Rightarrow> 'a \<Rightarrow> 'a) \<Rightarrow> 'a list \<Rightarrow> 'a" where
  "foldr1 f [x] = x"
| "foldr1 f (x # y # xs) = f x (foldr1 f (y # xs))"
| "foldr1 f [] = undefined"

lemma foldr1_Cons: "xs \<noteq> [] \<Longrightarrow> foldr1 f (x # xs) = f x (foldr1 f xs)"
  by (cases xs) auto

lemma peaks_not_Nil: "xs \<noteq> [] \<Longrightarrow> peaks xs \<noteq> []"
  by (subst peaks.simps) auto

lemma foldr1_peaks: "xs \<noteq> [] \<Longrightarrow> foldr1 hash_children (peaks xs) = mth xs"
proof (induction xs rule: tree_induct)
  case (Split j a b)
  note ab = Split(1-3)
  then show ?case
    using Split(5) mth_append [OF ab] by (auto simp: peaks_append(1) [OF ab] foldr1_Cons peaks_not_Nil)
qed simp_all

lemma length_peaks: "length (peaks xs) = length (nbits (length xs))"
proof (induction xs rule: tree_induct)
  case (Split j a b)
  note ab = Split(1-3)
  show ?case
  proof (cases "length b = 2 ^ j")
    case True
    then show ?thesis
      using ab nbits_pow [of "Suc j"] by (simp add: peaks_append(1) [OF ab] flip: mult_2)
  next
    case False
    then have "nbits (length (a @ b)) = j # nbits (length b)"
      using ab nbits_pow_add [of "length b" j] by simp
    then show ?thesis
      using Split(5) False by (simp add: peaks_append(1) [OF ab])
  qed
qed (simp_all add: nbits.simps [of "Suc 0"])

section \<open>Level by level\<close>

lemma pairup_append: "even (length a) \<Longrightarrow> pairup (a @ b) = pairup a @ pairup b"
  by (induction a rule: pairup.induct) auto

lemma length_pairup: "length (pairup xs) = (length xs + 1) div 2"
  by (induction xs rule: pairup.induct) auto

lemma pairup_not_Nil [simp]: "pairup xs = [] \<longleftrightarrow> xs = []"
  by (induction xs rule: pairup.induct) auto

lemma nth_pairup:
  "i < length xs \<Longrightarrow> pairup xs ! (i div 2)
    = (if odd i then hash_children (xs ! (i - 1)) (xs ! i)
       else if Suc i < length xs then hash_children (xs ! i) (xs ! Suc i) else xs ! i)"
proof (induction xs arbitrary: i rule: pairup.induct)
  case (1 a b xs)
  consider "i = 0" | "i = 1" | k where "i = Suc (Suc k)"
    by (metis One_nat_def not0_implies_Suc)
  then show ?case
  proof cases
    case 3
    then show ?thesis
      using 1(1) [of k] 1(2) by (cases k) auto
  qed auto
qed auto

lemma pairup_32: "\<forall>x\<in>set xs. length x = 32 \<Longrightarrow> \<forall>x\<in>set (pairup xs). length x = 32"
  by (induction xs rule: pairup.induct) auto

lemma mth_pairup: "mth (pairup xs) = mth xs"
proof (induction xs rule: tree_induct)
  case (Split j a b)
  note ab = Split(1-3)
  show ?case
  proof (cases j)
    case 0
    then obtain x y where "a = [x]" "b = [y]"
      using ab by (cases a; cases b) (auto simp: Suc_le_eq)
    moreover have "mth [x, y] = hash_children x y"
      using mth_append [of "[x]" 0 "[y]"] by simp
    ultimately show ?thesis by simp
  next
    case (Suc i)
    then have "length (pairup a) = 2 ^ i" "length (pairup b) \<le> 2 ^ i" "pairup b \<noteq> []"
      using ab by (simp_all add: length_pairup)
    then show ?thesis
      using Split(4,5) ab Suc mth_append [of "pairup a" i "pairup b"] mth_append [OF ab]
      by (simp add: pairup_append)
  qed
qed simp_all

text \<open>The peaks by the lowest digit of the length.\<close>

lemma peaks_pairup: "even (length xs) \<Longrightarrow> peaks (pairup xs) = peaks xs"
proof (induction xs rule: tree_induct)
  case (Split j a b)
  note ab = Split(1-3)
  show ?case
  proof (cases j)
    case 0
    then obtain x y where "a = [x]" "b = [y]"
      using ab by (cases a; cases b) (auto simp: Suc_le_eq)
    then show ?thesis
      using peaks_full [of "[x, y]" 1] mth_pairup [of "[x, y]"] by simp
  next
    case (Suc i)
    then have "length (pairup a) = 2 ^ i" "length (pairup b) \<le> 2 ^ i" "pairup b \<noteq> []"
      "length (pairup b) = 2 ^ i \<longleftrightarrow> length b = 2 ^ j" "even (length b)" "even (length a)"
      using ab Split.prems by (auto simp: length_pairup)
    then show ?thesis
      using peaks_append(1) [of "pairup a" i "pairup b"] peaks_append(1) [OF ab] Split.IH(2)
        mth_pairup [of "a @ b"] mth_pairup [of a]
      by (simp add: pairup_append)
  qed
qed simp_all

lemma peaks_snoc_even: "even (length xs) \<Longrightarrow> peaks (xs @ [x]) = peaks xs @ [x]"
proof (induction xs rule: tree_induct)
  case (Split j a b)
  note ab = Split(1-3)
  show ?case
  proof (cases "length b = 2 ^ j")
    case True
    then show ?thesis
      using peaks_append(1) [of "a @ b" "Suc j" "[x]"] peaks_append(1) [OF ab] ab(1) by simp
  next
    case False
    then have lt: "length b < 2 ^ j" and "0 < length b"
      using ab by auto
    then have "j \<noteq> 0"
      by (cases j) auto
    then have e: "even (length a)" "even ((2 :: nat) ^ j)"
      using ab(1) by simp_all
    then have b: "even (length b)"
      using Split.prems by simp
    have "Suc (length b) \<noteq> 2 ^ j"
      using b e(2) even_Suc by metis
    then have "length (b @ [x]) < 2 ^ j"
      using lt by simp
    then show ?thesis
      using peaks_append(1) [of a j "b @ [x]"] peaks_append(1) [OF ab] False ab(1) Split.IH(2) b by simp
  qed
qed simp_all

lemma peaks_snoc_odd:
  assumes "even (length xs)"
  shows "peaks (xs @ [x, y]) = peaks (pairup xs @ [hash_children x y])"
proof -
  have "pairup (xs @ [x, y]) = pairup xs @ [hash_children x y]"
    using assms by (simp add: pairup_append)
  then show ?thesis
    using peaks_pairup [of "xs @ [x, y]"] assms by simp
qed

section \<open>Appending a leaf\<close>

text \<open>
  The hashes an append completes, from the leaf upwards: while the length is odd, the last peak and
  the hash so far are the two halves of a full subtree.
\<close>

function carry :: "bytes list \<Rightarrow> bytes \<Rightarrow> bytes list" where
  "carry xs l =
     (if even (length xs) then [l]
      else l # carry (pairup (butlast xs)) (hash_children (last xs) l))"
  by auto
termination
  by (relation "measure (\<lambda>(xs, _). length xs)") (auto simp: length_pairup elim: oddE)

declare carry.simps [simp del]

lemma carry_even: "even (length xs) \<Longrightarrow> carry xs l = [l]"
  by (simp add: carry.simps)

lemma carry_odd: "even (length xs) \<Longrightarrow> carry (xs @ [x]) l = l # carry (pairup xs) (hash_children x l)"
  by (simp add: carry.simps [of "xs @ [x]"])

lemma odd_snoc: "odd (length xs) \<Longrightarrow> \<exists>ys y. xs = ys @ [y] \<and> even (length ys)"
  by (cases xs rule: rev_cases) auto

text \<open>The hash that ends up as the last peak completes the whole list when its length is \<open>2^j\<close>.\<close>

lemma carry_append:
  assumes "length a = 2 ^ j" "length b < 2 ^ j"
  shows "carry (a @ b) l
    = carry b l @ (if Suc (length b) = 2 ^ j then [mth (a @ b @ [l])] else [])"
  using assms
proof (induction j arbitrary: a b l)
  case 0
  then obtain x where "a = [x]" "b = []"
    by (cases a) auto
  then show ?case
    using carry_odd [of "[]" x l] mth_append [of "[x]" 0 "[l]"] by (simp add: carry_even)
next
  case (Suc j)
  show ?case
  proof (cases "even (length b)")
    case True
    then show ?thesis
      using Suc.prems by (auto simp: carry_even dest: arg_cong [of _ _ even])
  next
    case False
    then obtain c x where b: "b = c @ [x]" and c: "even (length c)"
      using odd_snoc by blast
    have ac: "even (length (a @ c))"
      using Suc.prems c by simp
    have "length (pairup a) = 2 ^ j" "length (pairup c) < 2 ^ j"
      "Suc (length (pairup c)) = 2 ^ j \<longleftrightarrow> Suc (length b) = 2 ^ Suc j"
      using Suc.prems b c by (auto simp: length_pairup elim!: evenE)
    moreover have "mth (pairup a @ pairup c @ [hash_children x l]) = mth (a @ b @ [l])"
      using mth_pairup [of "a @ c @ [x, l]"] Suc.prems c b by (simp add: pairup_append)
    ultimately show ?thesis
      using Suc.IH [of "pairup a" "pairup c" "hash_children x l"] carry_odd [OF ac, of x l]
        carry_odd [OF c, of x l] b Suc.prems by (simp add: pairup_append)
  qed
qed

lemma layout_snoc: "layout (xs @ [l]) = layout xs @ carry xs l"
proof (induction xs rule: tree_induct)
  case (Single x)
  show ?case
    using carry_append [of "[x]" 0 "[]" l] peaks_append(2) [of "[x]" 0 "[l]"] by (simp add: carry_even)
next
  case (Split j a b)
  note ab = Split(1-3)
  show ?case
  proof (cases "length b = 2 ^ j")
    case True
    then have "length (a @ b) = 2 ^ Suc j"
      using ab by simp
    then show ?thesis
      using carry_append [of "a @ b" "Suc j" "[]" l] peaks_append(2) [of "a @ b" "Suc j" "[l]"]
      by (simp add: carry_even)
  next
    case False
    then have "length b < 2 ^ j"
      using ab by simp
    then show ?thesis
      using carry_append [of a j b l] peaks_append(2) [OF ab] peaks_append(2) [of a j "b @ [l]"] False
        ab(1) Split.IH(2) by simp
  qed
qed (simp add: carry_even)

section \<open>Where the peaks are stored\<close>

text \<open>
  One-based positions of the roots of the full subtrees in the layout, for a list whose length has
  the given binary digits: a full subtree of \<open>2^b\<close> leaves takes \<open>2^(b+1) - 1\<close> places, its root last.
\<close>

fun peak_pos :: "nat \<Rightarrow> nat list \<Rightarrow> nat list" where
  "peak_pos off [] = []"
| "peak_pos off (b # bs) = (off + full_len b) # peak_pos (off + full_len b) bs"

lemma length_peak_pos [simp]: "length (peak_pos off bs) = length bs"
  by (induction bs arbitrary: off) auto

lemma peak_pos_shift: "peak_pos (c + off) bs = map ((+) c) (peak_pos off bs)"
  by (induction bs arbitrary: off) (auto simp: add.assoc)

lemma peaks_in_layout_full:
  assumes "length xs = 2 ^ j"
  shows "map (\<lambda>p. (pre @ layout xs @ suf) ! (p - 1)) (peak_pos (length pre) (nbits (length xs))) = peaks xs"
proof -
  have l: "length (layout xs) = full_len j" "last (layout xs) = mth xs"
    using layout_full [OF assms] by simp_all
  moreover have "layout xs ! (length (layout xs) - 1) = last (layout xs)"
    using l(1) by (intro last_conv_nth [symmetric]) (metis full_len_simps(1) length_greater_0_conv)
  ultimately have "(pre @ layout xs @ suf) ! (length pre + full_len j - 1) = mth xs"
    using nth_append_length_plus [of pre "layout xs @ suf" "full_len j - 1"] full_len_simps(1) [of j]
    by (simp add: nth_append del: full_len_simps(1))
  then show ?thesis
    using assms by (simp add: peaks_full)
qed

lemma peaks_in_layout:
  "map (\<lambda>p. (pre @ layout xs @ suf) ! (p - 1)) (peak_pos (length pre) (nbits (length xs))) = peaks xs"
proof (induction xs arbitrary: pre suf rule: tree_induct)
  case (Single x)
  show ?case by (rule peaks_in_layout_full [where j = 0]) simp
next
  case (Split j a b)
  note ab = Split(1-3)
  show ?case
  proof (cases "length b = 2 ^ j")
    case True
    then show ?thesis
      using ab by (intro peaks_in_layout_full [where j = "Suc j"]) simp
  next
    case False
    then have "nbits (length (a @ b)) = j # nbits (length b)"
      using ab nbits_pow_add [of "length b" j] by simp
    moreover have "length (layout a) = full_len j"
      using layout_full [OF ab(1)] by simp
    ultimately show ?thesis
      using Split.IH(2) [of "pre @ layout a" suf] peaks_in_layout_full [OF ab(1), of pre "layout b @ suf"]
        peaks_append [OF ab] False peaks_full [OF ab(1)] ab(1) by simp
  qed
qed simp

lemma length_layout: "length (layout xs) + length (nbits (length xs)) = 2 * length xs"
proof (induction xs rule: tree_induct)
  case (Split j a b)
  note ab = Split(1-3)
  show ?case
  proof (cases "length b = 2 ^ j")
    case True
    then show ?thesis
      using Split.IH peaks_append(2) [OF ab] ab(1) nbits_pow [of "Suc j"] by (simp flip: mult_2)
  next
    case False
    then show ?thesis
      using Split.IH peaks_append(2) [OF ab] ab nbits_pow_add [of "length b" j] by simp
  qed
qed (simp_all add: nbits.simps [of "Suc 0"])

lemma sum_full_len: "sum_list (map full_len (nbits (length xs))) = length (layout xs)"
proof -
  have "sum_list (map full_len bs) + length bs = 2 * sum_list (map ((^) 2) bs)" for bs
  proof (induction bs)
    case (Cons b bs)
    have "full_len b + 1 = 2 * 2 ^ b"
      using one_le_power [of "2 :: nat" b] by (simp add: full_len_def)
    then show ?case using Cons by simp
  qed simp
  from this [of "nbits (length xs)"] show ?thesis
    using length_layout [of xs] by (simp add: sum_nbits)
qed

lemma peak_pos_bounds:
  "p \<in> set (peak_pos off (nbits (length xs))) \<Longrightarrow> off < p \<and> p \<le> off + length (layout xs)"
proof (induction xs arbitrary: off rule: tree_induct)
  case (Single x)
  then show ?case by (simp add: nbits.simps [of "Suc 0"])
next
  case (Split j a b)
  note ab = Split(1-3)
  show ?case
  proof (cases "length b = 2 ^ j")
    case True
    then have "length (a @ b) = 2 ^ Suc j"
      using ab(1) by simp
    then show ?thesis
      using Split.prems layout_full [of "a @ b" "Suc j"] full_len_simps(1) [of "Suc j"]
      by (simp del: length_append power_Suc full_len_simps)
  next
    case False
    then have n: "nbits (length (a @ b)) = j # nbits (length b)"
      using ab nbits_pow_add [of "length b" j] by simp
    have l: "length (layout a) = full_len j"
      using layout_full [OF ab(1)] by simp
    from Split.prems consider "p = off + full_len j"
      | "p \<in> set (peak_pos (off + full_len j) (nbits (length b)))"
      unfolding n by auto
    then show ?thesis
    proof cases
      case 1
      then show ?thesis
        using l peaks_append(2) [OF ab] by simp
    next
      case 2
      then show ?thesis
        using Split.IH(2) [OF 2] l peaks_append(2) [OF ab] False by simp
    qed
  qed
qed simp

section \<open>Audit paths\<close>

text \<open>The audit path of leaf \<open>m\<close>, from the leaf to the root (RFC 6962, section 2.1.1).\<close>

function audit_path :: "nat \<Rightarrow> bytes list \<Rightarrow> bytes list" where
  "audit_path m xs =
     (if length xs \<le> 1 then []
      else if m < ksplit (length xs)
      then audit_path m (take (ksplit (length xs)) xs) @ [mth (drop (ksplit (length xs)) xs)]
      else audit_path (m - ksplit (length xs)) (drop (ksplit (length xs)) xs)
        @ [mth (take (ksplit (length xs)) xs)])"
  by auto
termination
  by (relation "measure (\<lambda>(_, xs). length xs)") (simp_all only: split_shorter in_measure wf_measure
      not_le Suc_le_eq one_add_one [symmetric] prod.case flip: Suc_eq_plus1)

declare audit_path.simps [simp del]

lemma audit_path_single [simp]: "audit_path m [x] = []"
  by (simp add: audit_path.simps)

lemma audit_path_append:
  assumes "length a = 2 ^ j" "b \<noteq> []" "length b \<le> 2 ^ j"
  shows "audit_path m (a @ b)
    = (if m < 2 ^ j then audit_path m a @ [mth b] else audit_path (m - 2 ^ j) b @ [mth a])"
  using assms ksplit_append [OF assms] length_append_2 [OF assms(1,2)]
  by (simp add: audit_path.simps [of m "a @ b"])

text \<open>The same path level by level, the sibling of the leaf first.\<close>

definition sibling :: "nat \<Rightarrow> bytes list \<Rightarrow> bytes list" where
  "sibling m xs = (if odd m then [xs ! (m - 1)] else if Suc m < length xs then [xs ! Suc m] else [])"

lemma audit_path_pairup:
  assumes "2 \<le> length xs" "m < length xs"
  shows "audit_path m xs = sibling m xs @ audit_path (m div 2) (pairup xs)"
  using assms
proof (induction xs arbitrary: m rule: tree_induct)
  case (Split j a b)
  note ab = Split(1-3)
  show ?case
  proof (cases j)
    case 0
    then obtain x y where "a = [x]" "b = [y]"
      using ab by (cases a; cases b) (auto simp: Suc_le_eq)
    then show ?thesis
      using audit_path_append [OF ab, of m] Split.prems 0
      by (cases m) (auto simp: sibling_def)
  next
    case (Suc i)
    have pab: "length (pairup a) = 2 ^ i" "pairup b \<noteq> []" "length (pairup b) \<le> 2 ^ i"
      using ab Suc by (auto simp: length_pairup)
    have pair: "pairup (a @ b) = pairup a @ pairup b"
      using ab Suc by (simp add: pairup_append)
    have a2: "2 \<le> length a"
      using ab(1) Suc by simp
    show ?thesis
    proof (cases "m < 2 ^ j")
      case True
      then have "m div 2 < 2 ^ i" "sibling m (a @ b) = sibling m a"
        using Suc ab(1) by (auto simp: sibling_def nth_append elim!: evenE)
      then show ?thesis
        using Split.IH(1) [OF a2, of m] True ab(1)
        by (simp add: pair audit_path_append [OF ab] audit_path_append [OF pab] mth_pairup)
    next
      case False
      define r where "r = m - 2 ^ j"
      have m: "m = 2 * 2 ^ i + r" "r < length b" "m div 2 = 2 ^ i + r div 2"
        using False Split.prems(2) ab(1) Suc by (auto simp: r_def)
      have "sibling m (a @ b) = sibling r b"
        using m(2) ab(1) Suc by (auto simp: sibling_def m(1) nth_append elim!: oddE)
      moreover have "audit_path r b = sibling r b @ audit_path (r div 2) (pairup b)"
      proof (cases "2 \<le> length b")
        case True
        then show ?thesis
          using Split.IH(2) [OF True m(2)] by blast
      next
        case False
        then obtain y where "b = [y]"
          using ab(2) by (cases b) (auto simp: Suc_le_eq)
        then show ?thesis
          using m(2) by (simp add: sibling_def)
      qed
      ultimately show ?thesis
        using m Suc by (simp add: pair audit_path_append [OF ab] audit_path_append [OF pab] mth_pairup)
    qed
  qed
qed simp_all

section \<open>Consistency proofs\<close>

text \<open>
  \<open>SUBPROOF(m, D[n], b)\<close> of RFC 6962, section 2.1.2, in the order in which it is verified.
\<close>

function subproof_spec :: "nat \<Rightarrow> bytes list \<Rightarrow> bool \<Rightarrow> bytes list" where
  "subproof_spec m xs b =
     (if length xs \<le> m \<or> length xs \<le> 1 then (if b then [] else [mth xs])
      else if m \<le> ksplit (length xs)
      then subproof_spec m (take (ksplit (length xs)) xs) b @ [mth (drop (ksplit (length xs)) xs)]
      else subproof_spec (m - ksplit (length xs)) (drop (ksplit (length xs)) xs) False
        @ [mth (take (ksplit (length xs)) xs)])"
  by auto
termination
  by (relation "measure (\<lambda>(_, xs, _). length xs)") (simp_all only: split_shorter in_measure wf_measure
      not_le Suc_le_eq one_add_one [symmetric] prod.case de_Morgan_disj flip: Suc_eq_plus1)

declare subproof_spec.simps [simp del]

lemma subproof_done: "length xs \<le> m \<Longrightarrow> subproof_spec m xs b = (if b then [] else [mth xs])"
  by (simp add: subproof_spec.simps)

lemma subproof_append:
  assumes "length a = 2 ^ j" "b \<noteq> []" "length b \<le> 2 ^ j" and "m < length (a @ b)"
  shows "subproof_spec m (a @ b) c
    = (if m \<le> 2 ^ j then subproof_spec m a c @ [mth b] else subproof_spec (m - 2 ^ j) b False @ [mth a])"
  using assms(4) ksplit_append [OF assms(1-3)] length_append_2 [OF assms(1,2)] assms(1)
  by (simp add: subproof_spec.simps [of m "a @ b"])

text \<open>An odd size: the proof is the leaf at the boundary, when it is needed, and its audit path.\<close>

lemma subproof_odd:
  assumes "odd m" "m \<le> length xs" "m < length xs \<or> (\<exists>j. length xs = 2 ^ j)"
  shows "subproof_spec m xs c = (if c \<and> m = 1 then [] else [xs ! (m - 1)]) @ audit_path (m - 1) xs"
  using assms
proof (induction xs arbitrary: m c rule: tree_induct)
  case (Single x)
  then have "m = 1" by (cases m) auto
  then show ?case by (simp add: subproof_done)
next
  case (Split j a b)
  note ab = Split(1-3)
  have lt: "m < length (a @ b)"
  proof (rule ccontr)
    assume "\<not> m < length (a @ b)"
    then obtain i where i: "m = 2 ^ i" "length (a @ b) = 2 ^ i"
      using Split.prems(2,3) by auto
    then have "i = 0"
      using Split.prems(1) by (cases i) auto
    then show False
      using i ab length_append_2 [OF ab(1,2)] by simp
  qed
  show ?case
  proof (cases "m \<le> 2 ^ j")
    case True
    moreover have "m - Suc 0 < 2 ^ j"
      using True Split.prems(1) by (cases m) auto
    ultimately show ?thesis
      using Split.IH(1) [of m c] Split.prems(1) ab(1)
      by (auto simp: subproof_append [OF ab lt] audit_path_append [OF ab] nth_append)
  next
    case False
    then obtain i where i: "j = Suc i"
      using lt ab by (cases j) auto
    have "odd (m - 2 ^ j)" "m - 2 ^ j < length b" "m - Suc 0 - 2 ^ j = m - 2 ^ j - Suc 0"
      using False Split.prems(1) lt ab(1) i by auto
    moreover have "1 < m"
      using False one_le_power [of "2 :: nat" j] by linarith
    ultimately show ?thesis
      using Split.IH(2) [of "m - 2 ^ j" False] False ab(1)
      by (auto simp: subproof_append [OF ab lt] audit_path_append [OF ab] nth_append)
  qed
qed simp

text \<open>An even size: the same proof one level up.\<close>

lemma subproof_even:
  assumes "even m" "0 < m" "m \<le> length xs" "m < length xs \<or> (\<exists>j. length xs = 2 ^ j)"
  shows "subproof_spec m xs c = subproof_spec (m div 2) (pairup xs) c"
  using assms
proof (induction xs arbitrary: m c rule: tree_induct)
  case (Split j a b)
  note ab = Split(1-3)
  show ?case
  proof (cases "m < length (a @ b)")
    case True
    then obtain i where i: "j = Suc i"
      using Split.prems(1,2) ab by (cases j) auto
    have pab: "length (pairup a) = 2 ^ i" "pairup b \<noteq> []" "length (pairup b) \<le> 2 ^ i"
      using ab i by (auto simp: length_pairup)
    have pair: "pairup (a @ b) = pairup a @ pairup b"
      using ab i by (simp add: pairup_append)
    have lt: "m div 2 < length (pairup a @ pairup b)"
      using True Split.prems(1) ab(1) i by (auto simp: length_pairup elim!: evenE)
    have le: "m div 2 \<le> 2 ^ i \<longleftrightarrow> m \<le> 2 ^ j" "m div 2 - 2 ^ i = (m - 2 ^ j) div 2"
      using Split.prems(1) i by (auto elim!: evenE)
    show ?thesis
    proof (cases "m \<le> 2 ^ j")
      case m: True
      then show ?thesis
        using Split.IH(1) [of m c] Split.prems(1,2) ab(1) le
        by (auto simp: pair subproof_append [OF ab True] subproof_append [OF pab lt] mth_pairup)
    next
      case False
      then have "even (m - 2 ^ j)" "0 < m - 2 ^ j" "m - 2 ^ j < length b"
        using Split.prems(1) True ab(1) i by auto
      then show ?thesis
        using Split.IH(2) [of "m - 2 ^ j" False] le False
        by (auto simp: pair subproof_append [OF ab True] subproof_append [OF pab lt] mth_pairup)
    qed
  next
    case False
    then have "length (a @ b) \<le> m" "length (pairup (a @ b)) \<le> m div 2"
      using Split.prems(1,3) by (auto simp: length_pairup elim!: evenE)
    then show ?thesis
      by (simp add: subproof_done mth_pairup)
  qed
qed auto

end
