(* ===== verification/ByteSource.thy ===== *)
theory ByteSource
  imports Prelude
begin

text \<open>
  The reader over a byte slice, \<open>src/common/zero_copy_source.go\<close>, with the checked arithmetic of
  \<open>src/common/safeMath.go\<close> it uses. A method \<open>(self *ZeroCopySource) NextX() (d, eof)\<close> is a function
  from the source to \<open>((d, eof), source')\<close>; a slice expression whose bounds Go rejects is \<open>Panic\<close>.
  The contract of a reader is the locale \<open>reader\<close>: on a well-formed source it neither panics nor
  leaves the well-formed states, never changes the bytes and never moves backwards. Every read
  operation of the file is an interpretation of it.
\<close>

section \<open>Checked arithmetic\<close>

definition MAX_UINT64 :: u64 where
  "MAX_UINT64 = -1"

definition SafeSub :: "u64 \<Rightarrow> u64 \<Rightarrow> u64 \<times> bool" where
  "SafeSub x y = (x - y, x < y)"

definition SafeAdd :: "u64 \<Rightarrow> u64 \<Rightarrow> u64 \<times> bool" where
  "SafeAdd x y = (x + y, y > MAX_UINT64 - x)"

definition SafeMul :: "u64 \<Rightarrow> u64 \<Rightarrow> u64 \<times> bool" where
  "SafeMul x y = (if x = 0 \<or> y = 0 then (0, False) else (x * y, y > MAX_UINT64 div x))"

section \<open>The source\<close>

record ZeroCopySource =
  src_s :: bytes
  src_off :: u64

definition NewZeroCopySource :: "bytes \<Rightarrow> ZeroCopySource" where
  "NewZeroCopySource b = \<lparr>src_s = b, src_off = 0\<rparr>"

definition src_Size :: "ZeroCopySource \<Rightarrow> u64" where
  "src_Size s = of_nat (length (src_s s))"

definition src_Len :: "ZeroCopySource \<Rightarrow> u64" where
  "src_Len s = (if src_off s \<ge> src_Size s then 0 else src_Size s - src_off s)"

definition src_Pos :: "ZeroCopySource \<Rightarrow> u64" where
  "src_Pos s = src_off s"

type_synonym 'a rd = "ZeroCopySource \<Rightarrow> ('a \<times> ZeroCopySource) res"

definition NextBytes :: "u64 \<Rightarrow> (bytes \<times> bool) rd" where
  "NextBytes n s =
     (let m = src_Size s; (e, overflow) = SafeAdd (src_off s) n; eof = (overflow \<or> e > m);
          e' = (if eof then m else e)
      in bind_res (slice_res (src_s s) (uint (src_off s)) (uint e')) (\<lambda>data.
           Ok ((data, eof), s\<lparr>src_off := e'\<rparr>)))"

definition src_Skip :: "u64 \<Rightarrow> bool rd" where
  "src_Skip n s =
     (let m = src_Size s; (e, overflow) = SafeAdd (src_off s) n; eof = (overflow \<or> e > m);
          e' = (if eof then m else e)
      in Ok (eof, s\<lparr>src_off := e'\<rparr>))"

definition NextByte :: "(byte \<times> bool) rd" where
  "NextByte s =
     (if src_off s \<ge> src_Size s then Ok ((0, True), s)
      else bind_res (at_res (src_s s) (uint (src_off s))) (\<lambda>b.
        Ok ((b, False), s\<lparr>src_off := src_off s + 1\<rparr>)))"

definition NextUint8 :: "(u8 \<times> bool) rd" where
  "NextUint8 s = NextByte s"

definition NextBool :: "(bool \<times> bool \<times> bool) rd" where
  "NextBool s =
     bind_res (NextByte s) (\<lambda>((val, eof), s').
       Ok ((if val = 0 then (False, False, eof)
            else if val = 1 then (True, False, eof) else (True, True, eof)), s'))"

definition src_BackUp :: "u64 \<Rightarrow> ZeroCopySource \<Rightarrow> ZeroCopySource" where
  "src_BackUp n s = s\<lparr>src_off := src_off s - n\<rparr>"

definition NextUint16 :: "(u16 \<times> bool) rd" where
  "NextUint16 s =
     bind_res (NextBytes 2 s) (\<lambda>((buf, eof), s').
       if eof then Ok ((0, eof), s')
       else bind_res (le_res 2 buf) (\<lambda>data. Ok ((data, eof), s')))"

definition NextUint32 :: "(u32 \<times> bool) rd" where
  "NextUint32 s =
     bind_res (NextBytes 4 s) (\<lambda>((buf, eof), s').
       if eof then Ok ((0, eof), s')
       else bind_res (le_res 4 buf) (\<lambda>data. Ok ((data, eof), s')))"

definition NextUint64 :: "(u64 \<times> bool) rd" where
  "NextUint64 s =
     bind_res (NextBytes 8 s) (\<lambda>((buf, eof), s').
       if eof then Ok ((0, eof), s')
       else bind_res (le_res 8 buf) (\<lambda>data. Ok ((data, eof), s')))"

text \<open>
  A signed Go integer is the word it is converted from; \<open>sint\<close> reads it as two's complement.
\<close>

definition NextInt32 :: "(u32 \<times> bool) rd" where
  "NextInt32 s = NextUint32 s"

definition NextInt64 :: "(u64 \<times> bool) rd" where
  "NextInt64 s = NextUint64 s"

definition NextInt16 :: "(u16 \<times> bool) rd" where
  "NextInt16 s = NextUint16 s"

definition getVarUintSize :: "u64 \<Rightarrow> u64" where
  "getVarUintSize v =
     (if v < 0xfd then 1 else if v \<le> 0xffff then 3 else if v \<le> 0xFFFFFFFF then 5 else 9)"

text \<open>The results are \<open>(data, size, irregular, eof)\<close>.\<close>

definition NextVarUint :: "(u64 \<times> u64 \<times> bool \<times> bool) rd" where
  "NextVarUint s =
     bind_res (NextByte s) (\<lambda>((fb, eof), s1).
       if eof then Ok ((0, 0, False, eof), s1)
       else if fb = 0xFD then
         bind_res (NextUint16 s1) (\<lambda>((val, e), s2).
           if e then Ok ((0, 0, False, e), s2)
           else Ok ((ucast val, 3, 3 \<noteq> getVarUintSize (ucast val), False), s2))
       else if fb = 0xFE then
         bind_res (NextUint32 s1) (\<lambda>((val, e), s2).
           if e then Ok ((0, 0, False, e), s2)
           else Ok ((ucast val, 5, 5 \<noteq> getVarUintSize (ucast val), False), s2))
       else if fb = 0xFF then
         bind_res (NextUint64 s1) (\<lambda>((val, e), s2).
           if e then Ok ((0, 0, False, e), s2)
           else Ok ((val, 9, 9 \<noteq> getVarUintSize val, False), s2))
       else Ok ((ucast fb, 1, 1 \<noteq> getVarUintSize (ucast fb), False), s1))"

definition NextVarBytes :: "(bytes \<times> u64 \<times> bool \<times> bool) rd" where
  "NextVarBytes s =
     bind_res (NextVarUint s) (\<lambda>((count, size, irregular, eof), s1).
       if count > 0 then
         bind_res (NextBytes count s1) (\<lambda>((data, eof'), s2).
           Ok ((data, size + count, irregular, eof'), s2))
       else Ok (([], size + count, irregular, eof), s1))"

definition NextString :: "(bytes \<times> u64 \<times> bool \<times> bool) rd" where
  "NextString s = NextVarBytes s"

text \<open>
  Fixed-size arrays: \<open>copy(data[:], buf)\<close> into a zeroed array of the given size.
\<close>

definition NextFixed :: "nat \<Rightarrow> (bytes \<times> bool) rd" where
  "NextFixed k s =
     bind_res (NextBytes (of_nat k) s) (\<lambda>((buf, eof), s').
       if eof then Ok ((replicate k 0, eof), s')
       else Ok ((copy_slice (replicate k 0) buf, eof), s'))"

definition NextAddress :: "(bytes \<times> bool) rd" where
  "NextAddress s = NextFixed 20 s"

definition NextI128 :: "(bytes \<times> bool) rd" where
  "NextI128 s = NextFixed 16 s"

definition NextHash :: "(bytes \<times> bool) rd" where
  "NextHash s = NextFixed 32 s"

section \<open>Well-formed sources\<close>

text \<open>
  A source is well-formed when its offset lies within the slice, whose length fits a Go \<open>int\<close>.
\<close>

definition wf_src :: "ZeroCopySource \<Rightarrow> bool" where
  "wf_src s \<longleftrightarrow> unat (src_off s) \<le> length (src_s s) \<and> length (src_s s) \<le> maxInt"

definition rest :: "ZeroCopySource \<Rightarrow> bytes" where
  "rest s = drop (unat (src_off s)) (src_s s)"

definition advance :: "nat \<Rightarrow> ZeroCopySource \<Rightarrow> ZeroCopySource" where
  "advance k s = s\<lparr>src_off := src_off s + of_nat k\<rparr>"

lemma SafeAdd_exact: "snd (SafeAdd x y) \<longleftrightarrow> unat x + unat y \<ge> 2 ^ 64"
proof -
  have "x \<le> MAX_UINT64" and m: "unat MAX_UINT64 = 2 ^ 64 - 1"
    by (simp_all add: MAX_UINT64_def unat_eq_nat_uint uint_word_ariths)
  then have "unat (MAX_UINT64 - x) = 2 ^ 64 - 1 - unat x"
    by (simp add: unat_sub)
  then have "snd (SafeAdd x y) \<longleftrightarrow> 2 ^ 64 - 1 - unat x < unat y"
    by (simp add: SafeAdd_def word_less_nat_alt)
  then show ?thesis
    using unat_u64_less [of x] by (simp del: unat_u64_less) linarith
qed

lemma wf_src_len [simplified]: "wf_src s \<Longrightarrow> length (src_s s) < 2 ^ 64"
  by (simp add: wf_src_def maxInt_def)

lemma unat_src_Size: "wf_src s \<Longrightarrow> unat (src_Size s) = length (src_s s)"
  by (simp add: src_Size_def wf_src_len of_nat_less_u64)

lemma length_rest: "length (rest s) = length (src_s s) - unat (src_off s)"
  by (simp add: rest_def)

lemma wf_NewZeroCopySource [simp]: "length b \<le> maxInt \<Longrightarrow> wf_src (NewZeroCopySource b)"
  by (simp add: wf_src_def NewZeroCopySource_def)

lemma rest_NewZeroCopySource [simp]: "rest (NewZeroCopySource b) = b"
  by (simp add: rest_def NewZeroCopySource_def)

lemma advance_wf:
  assumes "wf_src s" and "k \<le> length (rest s)"
  shows "unat (src_off (advance k s)) = unat (src_off s) + k"
    and "wf_src (advance k s)" and "rest (advance k s) = drop k (rest s)"
    and "src_s (advance k s) = src_s s"
proof -
  have lt: "unat (src_off s) + k < 2 ^ 64" and le: "unat (src_off s) + k \<le> length (src_s s)"
    using assms wf_src_len [of s] by (auto simp: wf_src_def length_rest)
  then show *: "unat (src_off (advance k s)) = unat (src_off s) + k"
    by (simp add: advance_def unat_word_ariths of_nat_less_u64)
  show "wf_src (advance k s)"
    using * le assms by (simp add: wf_src_def) (simp add: advance_def)
  show "rest (advance k s) = drop k (rest s)"
    using * by (simp add: rest_def add.commute) (simp add: advance_def)
  show "src_s (advance k s) = src_s s"
    by (simp add: advance_def)
qed

lemma NextBytes_within:
  assumes "wf_src s" and "unat n \<le> length (rest s)"
  shows "NextBytes n s = Ok ((take (unat n) (rest s), False), advance (unat n) s)"
proof -
  have "\<not> snd (SafeAdd (src_off s) n)"
    using assms wf_src_len [of s] by (auto simp: SafeAdd_exact wf_src_def length_rest)
  moreover have e: "unat (src_off s + n) = unat (src_off s) + unat n"
    using advance_wf(1) [OF assms] by (simp add: advance_def)
  moreover have "\<not> src_off s + n > src_Size s"
    using assms e
    by (simp add: word_less_nat_alt unat_src_Size) (auto simp: wf_src_def length_rest)
  moreover have "unat (src_off s + n) \<le> length (src_s s)"
    using assms e by (auto simp: wf_src_def length_rest)
  ultimately show ?thesis
    by (simp add: NextBytes_def SafeAdd_def Let_def rest_def advance_def)
qed

lemma NextBytes_short:
  assumes "wf_src s" and "length (rest s) < unat n"
  shows "NextBytes n s = Ok ((rest s, True), advance (length (rest s)) s)"
proof -
  have eof: "snd (SafeAdd (src_off s) n) \<or> src_off s + n > src_Size s"
  proof (cases "snd (SafeAdd (src_off s) n)")
    case False
    then have "unat (src_off s + n) = unat (src_off s) + unat n"
      by (simp add: SafeAdd_exact unat_word_ariths)
    then show ?thesis
      using assms by (auto simp: word_less_nat_alt unat_src_Size length_rest)
  qed simp
  have "src_off s + of_nat (length (rest s)) = src_Size s"
    using advance_wf(1) [OF assms(1) order_refl] assms
    by (simp add: advance_def word_unat_eq_iff unat_src_Size wf_src_def length_rest)
  moreover have "src_off s \<le> src_Size s"
    using assms by (simp add: word_le_nat_alt unat_src_Size wf_src_def)
  ultimately show ?thesis
    using eof assms(1)
    by (auto simp: NextBytes_def SafeAdd_def Let_def advance_def unat_src_Size rest_def word_le_nat_alt)
qed

lemma NextByte_within:
  assumes "wf_src s" and "rest s = b # bs"
  shows "NextByte s = Ok ((b, False), advance 1 s)"
proof -
  have lt: "unat (src_off s) < length (src_s s)"
    using assms(2) by (metis length_greater_0_conv length_rest list.discI zero_less_diff)
  have "src_s s ! unat (src_off s) = b"
    using assms(2) lt by (simp add: rest_def) (metis hd_drop_conv_nth list.sel(1))
  then show ?thesis
    using lt assms(1) by (simp add: NextByte_def advance_def word_le_nat_alt unat_src_Size)
qed

lemma NextByte_short: "wf_src s \<Longrightarrow> rest s = [] \<Longrightarrow> NextByte s = Ok ((0, True), s)"
  by (simp add: NextByte_def rest_def word_le_nat_alt unat_src_Size)

section \<open>The contract of a reader\<close>

text \<open>A read returns, leaves a well-formed source over the same bytes, and does not move backwards.\<close>

definition reads_safely :: "'a rd \<Rightarrow> ZeroCopySource \<Rightarrow> bool" where
  "reads_safely rd s \<longleftrightarrow> (\<exists>v s'. rd s = Ok (v, s') \<and> wf_src s' \<and> src_s s' = src_s s \<and> src_off s \<le> src_off s')"

locale reader =
  fixes rd :: "'a rd"
  assumes total: "wf_src s \<Longrightarrow> \<exists>v k. k \<le> length (rest s) \<and> rd s = Ok (v, advance k s)"
begin

lemma safe:
  assumes "wf_src s"
  shows "reads_safely rd s"
proof -
  obtain v k where k: "k \<le> length (rest s)" "rd s = Ok (v, advance k s)"
    using total [OF assms] by blast
  then show ?thesis
    using advance_wf [OF assms k(1)] by (simp add: reads_safely_def word_le_nat_alt)
qed

lemma not_panic: "wf_src s \<Longrightarrow> rd s \<noteq> Panic"
  using total by fastforce

lemma not_err: "wf_src s \<Longrightarrow> rd s \<noteq> Err e"
  using total by fastforce

lemma keeps_wf: "wf_src s \<Longrightarrow> rd s = Ok (v, s') \<Longrightarrow> wf_src s'"
  using total [of s] advance_wf(2) [of s] by fastforce

lemma keeps_bytes: "wf_src s \<Longrightarrow> rd s = Ok (v, s') \<Longrightarrow> src_s s' = src_s s"
  using total [of s] advance_wf(4) [of s] by fastforce

lemma never_back: "wf_src s \<Longrightarrow> rd s = Ok (v, s') \<Longrightarrow> src_off s \<le> src_off s'"
  using total [of s] advance_wf(1) [of s] by (fastforce simp: word_le_nat_alt)

end

lemma advance_0 [simp]: "advance 0 s = s"
  by (simp add: advance_def)

lemma advance_advance: "advance j (advance k s) = advance (k + j) s"
  by (simp add: advance_def add.assoc)

lemma reader_return: "reader (\<lambda>s. Ok (v, s))"
proof
  fix s
  show "\<exists>v' k. k \<le> length (rest s) \<and> Ok (v, s) = Ok (v', advance k s)"
    by (rule exI [of _ v], rule exI [of _ 0]) simp
qed

lemma reader_bind:
  assumes "reader r" and f: "\<And>v. reader (f v)"
  shows "reader (\<lambda>s. bind_res (r s) (\<lambda>(v, s'). f v s'))"
proof
  fix s assume wf: "wf_src s"
  then obtain v k where k: "k \<le> length (rest s)" "r s = Ok (v, advance k s)"
    using reader.total [OF assms(1)] by blast
  have "wf_src (advance k s)"
    using advance_wf(2) [OF wf k(1)] .
  then obtain v' j where "j \<le> length (rest (advance k s))" "f v (advance k s) = Ok (v', advance j (advance k s))"
    using reader.total [OF f] by blast
  then show "\<exists>v' j. j \<le> length (rest s) \<and> bind_res (r s) (\<lambda>(v, s'). f v s') = Ok (v', advance j s)"
    using k advance_wf(3) [OF wf k(1)]
    by (intro exI [of _ v'] exI [of _ "k + j"]) (simp add: advance_advance)
qed

lemma reader_if: "reader f \<Longrightarrow> reader g \<Longrightarrow> reader (\<lambda>s. if b then f s else g s)"
  by (cases b) auto

lemma reader_NextBytes: "reader (NextBytes n)"
proof
  fix s assume "wf_src s"
  then show "\<exists>v k. k \<le> length (rest s) \<and> NextBytes n s = Ok (v, advance k s)"
    using NextBytes_within [of s n] NextBytes_short [of s n]
    by (cases "unat n \<le> length (rest s)") auto
qed

lemma reader_NextByte: "reader NextByte"
proof
  fix s assume wf: "wf_src s"
  show "\<exists>v k. k \<le> length (rest s) \<and> NextByte s = Ok (v, advance k s)"
  proof (cases "rest s")
    case Nil
    then show ?thesis
      using NextByte_short [OF wf] by (intro exI [of _ "(0, True)"] exI [of _ 0]) simp
  next
    case (Cons b bs)
    then show ?thesis
      using NextByte_within [OF wf] by (intro exI [of _ "(b, False)"] exI [of _ 1]) simp
  qed
qed

text \<open>\<open>Skip\<close> moves as \<open>NextBytes\<close> does.\<close>

lemma src_Skip_NextBytes: "NextBytes n s = Ok ((data, eof), s') \<Longrightarrow> src_Skip n s = Ok (eof, s')"
  by (auto simp: NextBytes_def src_Skip_def Let_def bind_res_Ok_iff split: prod.splits)

lemma reader_src_Skip: "reader (src_Skip n)"
proof
  fix s assume "wf_src s"
  then show "\<exists>v k. k \<le> length (rest s) \<and> src_Skip n s = Ok (v, advance k s)"
    using reader.total [OF reader_NextBytes, of s n] by (metis src_Skip_NextBytes surj_pair)
qed

lemmas reader_intros = reader_return reader_bind reader_if reader_NextBytes reader_NextByte

lemma reader_fixed_width:
  "reader (\<lambda>s. bind_res (NextBytes n s) (\<lambda>((buf, eof), s').
     if eof then Ok ((z, eof), s') else Ok ((g buf, eof), s')))"
  by (intro reader_bind reader_NextBytes) (auto intro!: reader_intros split: prod.split)

lemma reader_le:
  assumes "unat n = k"
  shows "reader (\<lambda>s. bind_res (NextBytes n s) (\<lambda>((buf, eof), s').
     if eof then Ok ((0, eof), s') else bind_res (le_res k buf) (\<lambda>data. Ok ((data, eof), s'))))"
proof
  fix s assume wf: "wf_src s"
  show "\<exists>v j. j \<le> length (rest s) \<and> bind_res (NextBytes n s) (\<lambda>((buf, eof), s').
     if eof then Ok ((0, eof), s') else bind_res (le_res k buf) (\<lambda>data. Ok ((data, eof), s'))) = Ok (v, advance j s)"
  proof (cases "k \<le> length (rest s)")
    case True
    then show ?thesis
      using NextBytes_within [OF wf, of n] assms by auto
  next
    case False
    then show ?thesis
      using NextBytes_short [OF wf, of n] assms by auto
  qed
qed

lemma reader_NextUint16: "reader NextUint16"
  unfolding NextUint16_def [abs_def] by (rule reader_le) simp

lemma reader_NextUint32: "reader NextUint32"
  unfolding NextUint32_def [abs_def] by (rule reader_le) simp

lemma reader_NextUint64: "reader NextUint64"
  unfolding NextUint64_def [abs_def] by (rule reader_le) simp

lemma reader_NextFixed: "reader (NextFixed k)"
  unfolding NextFixed_def [abs_def] by (rule reader_fixed_width)

lemma reader_NextBool: "reader NextBool"
  unfolding NextBool_def [abs_def]
  by (intro reader_bind reader_NextByte) (auto intro!: reader_intros split: prod.split)

lemma reader_NextVarUint: "reader NextVarUint"
  unfolding NextVarUint_def [abs_def]
  by (intro reader_bind reader_NextByte)
    (auto intro!: reader_intros reader_NextUint16 reader_NextUint32 reader_NextUint64
      split: prod.split)

lemma reader_NextVarBytes: "reader NextVarBytes"
  unfolding NextVarBytes_def [abs_def]
  by (intro reader_bind reader_NextVarUint) (auto intro!: reader_intros split: prod.split)

interpretation rd_bytes: reader "NextBytes n"
  by (rule reader_NextBytes)

interpretation rd_skip: reader "src_Skip n"
  by (rule reader_src_Skip)

interpretation rd_byte: reader NextByte
  by (rule reader_NextByte)

interpretation rd_bool: reader NextBool
  by (rule reader_NextBool)

interpretation rd_u16: reader NextUint16
  by (rule reader_NextUint16)

interpretation rd_u32: reader NextUint32
  by (rule reader_NextUint32)

interpretation rd_u64: reader NextUint64
  by (rule reader_NextUint64)

interpretation rd_fixed: reader "NextFixed k"
  by (rule reader_NextFixed)

interpretation rd_varuint: reader NextVarUint
  by (rule reader_NextVarUint)

interpretation rd_varbytes: reader NextVarBytes
  by (rule reader_NextVarBytes)

section \<open>What the readers return\<close>

text \<open>The encoding the readers invert: little-endian words, and the variable-length integer.\<close>

definition varuint_enc :: "u64 \<Rightarrow> bytes" where
  "varuint_enc v =
     (if v < 0xFD then [ucast v]
      else if v \<le> 0xFFFF then 0xFD # put_le 2 (ucast v :: u16)
      else if v \<le> 0xFFFFFFFF then 0xFE # put_le 4 (ucast v :: u32)
      else 0xFF # put_le 8 v)"

definition varbytes_enc :: "bytes \<Rightarrow> bytes" where
  "varbytes_enc b = varuint_enc (of_nat (length b)) @ b"

lemma NextBytes_prefix:
  assumes "wf_src s" and "rest s = b @ r" and "n = of_nat (length b)"
  shows "NextBytes n s = Ok ((b, False), advance (length b) s)"
proof -
  have "length b < 2 ^ 64"
    using assms wf_src_len [of s] by (simp add: rest_def) (metis append_take_drop_id length_append
        add_lessD1 length_drop less_imp_diff_less assms(2) rest_def)
  then have "unat n = length b"
    using assms(3) of_nat_less_u64 by simp
  then show ?thesis
    using NextBytes_within [of s n] assms by simp
qed

lemma NextUint_prefix:
  assumes "wf_src s"
  shows "rest s = put_le 2 v @ r \<Longrightarrow> NextUint16 s = Ok ((v, False), advance 2 s)"
    and "rest s = put_le 4 w @ r \<Longrightarrow> NextUint32 s = Ok ((w, False), advance 4 s)"
    and "rest s = put_le 8 x @ r \<Longrightarrow> NextUint64 s = Ok ((x, False), advance 8 s)"
  using NextBytes_prefix [OF assms, of "put_le 2 v" r 2]
    NextBytes_prefix [OF assms, of "put_le 4 w" r 4]
    NextBytes_prefix [OF assms, of "put_le 8 x" r 8]
  by (simp_all add: NextUint16_def NextUint32_def NextUint64_def)

lemma NextFixed_prefix:
  assumes "wf_src s" and "rest s = b @ r" and "length b = k"
  shows "NextFixed k s = Ok ((b, False), advance k s)"
  using NextBytes_prefix [OF assms(1,2)] assms(3) by (simp add: NextFixed_def copy_slice_same)

lemma advance_prefix:
  assumes "wf_src s" and "rest s = b @ r"
  shows "wf_src (advance (length b) s)" and "rest (advance (length b) s) = r"
  using advance_wf(2,3) [OF assms(1), of "length b"] assms(2) by simp_all

lemma length_varuint_enc: "length (varuint_enc v) = unat (getVarUintSize v)"
  by (simp add: varuint_enc_def getVarUintSize_def)

lemma ucast_small:
  "v < 0xFD \<Longrightarrow> ucast (ucast v :: byte) = (v :: u64)"
  "v \<le> 0xFFFF \<Longrightarrow> ucast (ucast v :: u16) = v"
  "v \<le> 0xFFFFFFFF \<Longrightarrow> ucast (ucast v :: u32) = v"
  by (simp_all add: word_unat_eq_iff unsigned_ucast_eq word_less_nat_alt word_le_nat_alt
      unsigned_take_bit_eq take_bit_nat_eq_self)

lemma varuint_tag:
  "v < 0xFD \<Longrightarrow> ucast v \<noteq> (0xFD :: byte) \<and> ucast v \<noteq> (0xFE :: byte) \<and> ucast v \<noteq> (0xFF :: byte)"
  for v :: u64
  using ucast_small(1) [of v] by (auto simp: word_less_nat_alt)

lemma NextVarUint_prefix:
  assumes wf: "wf_src s" and s: "rest s = varuint_enc v @ r"
  shows "NextVarUint s
    = Ok ((v, getVarUintSize v, False, False), advance (length (varuint_enc v)) s)"
proof -
  obtain t tl where t: "varuint_enc v = t # tl"
    using length_varuint_enc [of v] by (cases "varuint_enc v") (auto simp: getVarUintSize_def split: if_splits)
  have b: "NextByte s = Ok ((t, False), advance 1 s)"
    using NextByte_within [OF wf] s t by simp
  have wf1: "wf_src (advance 1 s)" and s1: "rest (advance 1 s) = tl @ r"
    using advance_prefix [OF wf, of "[t]"] s t by simp_all
  note num = NextUint_prefix [OF wf1] and defs = NextVarUint_def getVarUintSize_def advance_advance
  consider "v < 0xFD" | "\<not> v < 0xFD" "v \<le> 0xFFFF"
    | "\<not> v < 0xFD" "\<not> v \<le> 0xFFFF" "v \<le> 0xFFFFFFFF"
    | "\<not> v < 0xFD" "\<not> v \<le> 0xFFFF" "\<not> v \<le> 0xFFFFFFFF" by blast
  then show ?thesis
  proof cases
    case 1
    then have "t = ucast v" "tl = []" using t by (simp_all add: varuint_enc_def)
    then show ?thesis
      using b t varuint_tag [OF 1] 1 by (simp add: defs ucast_small)
  next
    case 2
    then have "t = 0xFD" "tl = put_le 2 (ucast v :: u16)" using t by (simp_all add: varuint_enc_def)
    then show ?thesis
      using b t s1 num(1) [of "ucast v" r] 2 by (simp add: defs ucast_small numeral_3_eq_3)
  next
    case 3
    then have "t = 0xFE" "tl = put_le 4 (ucast v :: u32)" using t by (simp_all add: varuint_enc_def)
    then show ?thesis
      using b t s1 num(2) [of "ucast v" r] 3 by (simp add: defs ucast_small)
  next
    case 4
    then have "t = 0xFF" "tl = put_le 8 v" using t by (simp_all add: varuint_enc_def)
    then show ?thesis
      using b t s1 num(3) [of v r] 4 by (simp add: defs)
  qed
qed

lemma NextVarBytes_prefix:
  assumes wf: "wf_src s" and s: "rest s = varbytes_enc b @ r"
  shows "NextVarBytes s
    = Ok ((b, getVarUintSize (of_nat (length b)) + of_nat (length b), False, False),
          advance (length (varbytes_enc b)) s)"
proof -
  let ?n = "of_nat (length b) :: u64"
  have b64: "length b < 2 ^ 64"
    using wf_src_len [OF wf] arg_cong [OF s, of length] by (simp add: length_rest varbytes_enc_def)
  have v: "NextVarUint s = Ok ((?n, getVarUintSize ?n, False, False), advance (length (varuint_enc ?n)) s)"
    using NextVarUint_prefix [OF wf, of ?n "b @ r"] s by (simp add: varbytes_enc_def)
  have "wf_src (advance (length (varuint_enc ?n)) s)"
    and "rest (advance (length (varuint_enc ?n)) s) = b @ r"
    using advance_prefix [OF wf, of "varuint_enc ?n"] s by (simp_all add: varbytes_enc_def)
  from NextBytes_prefix [OF this refl] show ?thesis
    using v b64 by (cases "b = []")
      (simp_all add: NextVarBytes_def varbytes_enc_def advance_advance word_less_nat_alt
        of_nat_less_u64)
qed

text \<open>
  Conversely, bytes read without the irregular flag are the canonical ones: the reader accepts one
  encoding per value.
\<close>

lemma NextBytes_inv:
  assumes "wf_src s" and "NextBytes n s = Ok ((b, False), s')"
  shows "rest s = b @ rest s' \<and> length b = unat n \<and> wf_src s'"
proof (cases "unat n \<le> length (rest s)")
  case True
  then show ?thesis
    using assms NextBytes_within [OF assms(1) True] advance_wf(2,3) [OF assms(1) True] by auto
next
  case False
  then show ?thesis
    using assms NextBytes_short [OF assms(1), of n] by simp
qed

lemma NextByte_inv:
  assumes "wf_src s" and "NextByte s = Ok ((b, False), s')"
  shows "rest s = b # rest s' \<and> wf_src s'"
proof (cases "rest s")
  case Nil
  then show ?thesis
    using assms NextByte_short by simp
next
  case (Cons c cs)
  then show ?thesis
    using assms NextByte_within [OF assms(1) Cons] advance_wf(2,3) [OF assms(1), of 1] by auto
qed

lemma put_get_width:
  "length b = 2 \<Longrightarrow> put_le 2 (get_le b :: u16) = b" "length b = 4 \<Longrightarrow> put_le 4 (get_le b :: u32) = b"
  "length b = 8 \<Longrightarrow> put_le 8 (get_le b :: u64) = b"
  using put_get_le [of b, where 'a = 16] put_get_le [of b, where 'a = 32]
    put_get_le [of b, where 'a = 64] by auto

lemma NextUint_inv:
  assumes "wf_src s"
  shows "NextUint16 s = Ok ((v, False), s') \<Longrightarrow> rest s = put_le 2 v @ rest s' \<and> wf_src s'"
    and "NextUint32 s = Ok ((w, False), s') \<Longrightarrow> rest s = put_le 4 w @ rest s' \<and> wf_src s'"
    and "NextUint64 s = Ok ((x, False), s') \<Longrightarrow> rest s = put_le 8 x @ rest s' \<and> wf_src s'"
  using NextBytes_inv [OF assms]
  by (auto simp: NextUint16_def NextUint32_def NextUint64_def bind_res_Ok_iff put_get_width
      split: if_splits)

lemma ucast_up_down:
  "ucast (ucast (a :: byte) :: u64) = a" "ucast (ucast (b :: u16) :: u64) = b"
  "ucast (ucast (c :: u32) :: u64) = c"
  by (rule bit_word_eqI, simp add: bit_simps)+

lemma NextVarUint_inv:
  assumes wf: "wf_src s" and r: "NextVarUint s = Ok ((v, n, False, False), s')"
  shows "rest s = varuint_enc v @ rest s' \<and> n = getVarUintSize v \<and> wf_src s'"
proof -
  obtain t s1 where t: "NextByte s = Ok ((t, False), s1)"
    using r by (auto simp: NextVarUint_def bind_res_Ok_iff split: if_splits)
  have s1: "rest s = t # rest s1" "wf_src s1"
    using NextByte_inv [OF wf t] by simp_all
  consider "t = 0xFD" | "t = 0xFE" | "t = 0xFF" | "t \<noteq> 0xFD" "t \<noteq> 0xFE" "t \<noteq> 0xFF"
    by blast
  then show ?thesis
    using NextUint_inv [OF s1(2)] s1 r t
    by cases (auto simp: NextVarUint_def bind_res_Ok_iff getVarUintSize_def varuint_enc_def
        ucast_up_down split: if_splits)
qed

section \<open>Properties\<close>

lemma src_BackUp_wf: "wf_src s \<Longrightarrow> n \<le> src_off s \<Longrightarrow> wf_src (src_BackUp n s) \<and> src_s (src_BackUp n s) = src_s s"
  by (auto simp: wf_src_def src_BackUp_def unat_sub word_le_nat_alt)

text \<open>
  C21. Reading never fails badly. On every well-formed source each reader of \<open>ZeroCopySource\<close> (\<open>NextBytes\<close> and \<open>Skip\<close>
  for every requested length, the byte, boolean, fixed-width, address, hash and 128-bit readers, the variable-length
  integer, bytes and string readers) returns, whatever the bytes: no slice or index expression and no fixed-width
  decoding panics. The source it leaves is well-formed, has the same bytes and an offset that is no smaller.
  \<open>BackUp\<close> by at most the offset leaves a well-formed source over the same bytes.
\<close>

theorem readers_are_safe:
  assumes "wf_src s"
  shows "reads_safely (NextBytes n) s \<and> reads_safely (src_Skip n) s \<and> reads_safely NextByte s \<and> reads_safely NextUint8 s
    \<and> reads_safely NextBool s \<and> reads_safely NextUint16 s \<and> reads_safely NextUint32 s \<and> reads_safely NextUint64 s
    \<and> reads_safely NextInt16 s \<and> reads_safely NextInt32 s \<and> reads_safely NextInt64 s
    \<and> reads_safely NextVarUint s \<and> reads_safely NextVarBytes s \<and> reads_safely NextString s
    \<and> reads_safely NextAddress s \<and> reads_safely NextI128 s \<and> reads_safely NextHash s
    \<and> (n \<le> src_off s \<longrightarrow> wf_src (src_BackUp n s) \<and> src_s (src_BackUp n s) = src_s s)"
  unfolding NextUint8_def [abs_def] NextInt16_def [abs_def] NextInt32_def [abs_def] NextInt64_def [abs_def]
    NextString_def [abs_def] NextAddress_def [abs_def] NextI128_def [abs_def] NextHash_def [abs_def]
  using assms src_BackUp_wf
  by (intro conjI impI rd_bytes.safe rd_skip.safe rd_byte.safe rd_bool.safe rd_u16.safe rd_u32.safe rd_u64.safe
      rd_varuint.safe rd_varbytes.safe rd_fixed.safe) blast+

theorem readers_are_safe_witness:
  "wf_src (NewZeroCopySource [0xFD, 7]) \<and> wf_src (advance 1 (NewZeroCopySource [0xFD, 7]))
   \<and> reads_safely NextVarBytes (NewZeroCopySource [0xFD, 7])
   \<and> reads_safely NextUint64 (advance 1 (NewZeroCopySource [0xFD, 7]))
   \<and> wf_src (src_BackUp 1 (advance 1 (NewZeroCopySource [0xFD, 7])))"
proof -
  have 0: "wf_src (NewZeroCopySource [0xFD, 7])" and 1: "wf_src (advance 1 (NewZeroCopySource [0xFD, 7]))"
    by (simp_all add: wf_src_def advance_def NewZeroCopySource_def maxInt_def)
  have "1 \<le> src_off (advance 1 (NewZeroCopySource [0xFD, 7]))"
    by (simp add: advance_def NewZeroCopySource_def)
  with readers_are_safe [OF 0, of 0] readers_are_safe [OF 1, of 1] 0 1 show ?thesis
    by blast
qed

text \<open>
  C22. Variable-length integers have one encoding. On a well-formed source, \<open>NextVarUint\<close> returns
  \<open>v\<close> regular and without end of input exactly when the unread bytes start with the encoding of
  \<open>v\<close>; it then reports the encoding's size and consumes exactly it.
\<close>

theorem varuint_canonical:
  assumes "wf_src s"
  shows "(\<exists>n. NextVarUint s = Ok ((v, n, False, False), s'))
    \<longleftrightarrow> rest s = varuint_enc v @ rest s' \<and> s' = advance (length (varuint_enc v)) s"
    (is "?L \<longleftrightarrow> ?R")
proof
  assume ?L
  then obtain n where n: "NextVarUint s = Ok ((v, n, False, False), s')" ..
  have r: "rest s = varuint_enc v @ rest s'"
    using NextVarUint_inv [OF assms n] by blast
  from NextVarUint_prefix [OF assms r] n have "s' = advance (length (varuint_enc v)) s"
    by simp
  with r show ?R
    by blast
next
  assume ?R
  then show ?L
    using NextVarUint_prefix [OF assms, of v "rest s'"] by blast
qed

theorem varuint_canonical_witness:
  "(\<exists>n. NextVarUint (NewZeroCopySource [0xFD, 0xFD, 0, 5])
      = Ok ((0xFD, n, False, False), advance 3 (NewZeroCopySource [0xFD, 0xFD, 0, 5])))
   \<and> \<not> (\<exists>n. NextVarUint (NewZeroCopySource [0xFD, 7, 0])
      = Ok ((7, n, False, False), advance 3 (NewZeroCopySource [0xFD, 7, 0])))"
proof -
  have wf: "wf_src (NewZeroCopySource [0xFD, 0xFD, 0, 5])" "wf_src (NewZeroCopySource [0xFD, 7, 0])"
    by (simp_all add: maxInt_def)
  show ?thesis
    unfolding varuint_canonical [OF wf(1)] varuint_canonical [OF wf(2)]
    by (simp add: varuint_enc_def) (simp add: rest_def advance_def NewZeroCopySource_def put_le_def upt_rec)
qed

end
