(* ===== verification/ByteSink.thy ===== *)
theory ByteSink
  imports ByteSource
begin

text \<open>
  The writer, \<open>src/common/zero_copy_sink.go\<close>. The Go slice \<open>buf\<close> is its visible bytes together with
  the rest of its backing array (\<open>spare\<close>), so that \<open>cap(buf) = len(buf) + length spare\<close>: a reslice
  exposes stale bytes of \<open>spare\<close>, growing reallocates, and \<open>BackUp\<close> gives bytes back. The writers
  overwrite what \<open>NextBytes\<close> exposed. The locale \<open>writer\<close> is the contract the clients use: a write
  operation appends exactly its encoding and keeps the capacity invariant \<open>sink_ok\<close>, under which
  \<open>grow\<close> cannot panic while the output stays below \<open>sink_max\<close> bytes.
\<close>

section \<open>The sink\<close>

record ZeroCopySink =
  snk_buf :: bytes
  snk_spare :: bytes

definition snk_cap :: "ZeroCopySink \<Rightarrow> nat" where
  "snk_cap s = length (snk_buf s) + length (snk_spare s)"

definition NewZeroCopySink :: ZeroCopySink where
  "NewZeroCopySink = \<lparr>snk_buf = [], snk_spare = replicate 512 0\<rparr>"

text \<open>
  \<open>NewZeroCopySink(b)\<close>: a nil slice stands for a fresh one of capacity 512, any other is used as it
  is. \<open>EmptySink\<close> is the literal \<open>ZeroCopySink{}\<close>, whose slice is nil.
\<close>

definition NewZeroCopySink_on :: "ZeroCopySink option \<Rightarrow> ZeroCopySink" where
  "NewZeroCopySink_on b = (case b of None \<Rightarrow> NewZeroCopySink | Some s \<Rightarrow> s)"

definition EmptySink :: ZeroCopySink where
  "EmptySink = \<lparr>snk_buf = [], snk_spare = []\<rparr>"

definition tryGrowByReslice :: "nat \<Rightarrow> ZeroCopySink \<Rightarrow> (nat \<times> bool) \<times> ZeroCopySink" where
  "tryGrowByReslice n s =
     (let l = length (snk_buf s) in
      if n \<le> snk_cap s - l
      then ((l, True), s\<lparr>snk_buf := snk_buf s @ take n (snk_spare s), snk_spare := drop n (snk_spare s)\<rparr>)
      else ((0, False), s))"

definition makeSlice :: "nat \<Rightarrow> bytes" where
  "makeSlice n = replicate n 0"

definition grow :: "nat \<Rightarrow> ZeroCopySink \<Rightarrow> (nat \<times> ZeroCopySink) res" where
  "grow n s =
     (let ((i, ok), s') = tryGrowByReslice n s in
      if ok then Ok (i, s')
      else
        let l = length (snk_buf s); c = snk_cap s in
        if int c > int maxInt - int c - int n then Panic
        else
          let buf = copy_slice (makeSlice (2 * c + n)) (snk_buf s)
          in Ok (l, s\<lparr>snk_buf := take (l + n) buf, snk_spare := drop (l + n) buf\<rparr>))"

text \<open>
  \<open>NextBytes\<close> returns the index at which the exposed slice starts; \<open>store_at\<close> is a write through
  that slice.
\<close>

definition snk_NextBytes :: "nat \<Rightarrow> ZeroCopySink \<Rightarrow> (nat \<times> ZeroCopySink) res" where
  "snk_NextBytes n s =
     (let ((m, ok), s') = tryGrowByReslice n s in if ok then Ok (m, s') else grow n s)"

definition store_at :: "nat \<Rightarrow> bytes \<Rightarrow> ZeroCopySink \<Rightarrow> ZeroCopySink" where
  "store_at m p s = s\<lparr>snk_buf := take m (snk_buf s) @ copy_slice (drop m (snk_buf s)) p\<rparr>"

definition snk_BackUp :: "nat \<Rightarrow> ZeroCopySink \<Rightarrow> ZeroCopySink res" where
  "snk_BackUp n s =
     (if n \<le> length (snk_buf s)
      then let l = length (snk_buf s) - n
           in Ok (s\<lparr>snk_buf := take l (snk_buf s), snk_spare := drop l (snk_buf s) @ snk_spare s\<rparr>)
      else Panic)"

definition snk_Size :: "ZeroCopySink \<Rightarrow> u64" where
  "snk_Size s = of_nat (length (snk_buf s))"

definition snk_Bytes :: "ZeroCopySink \<Rightarrow> bytes" where
  "snk_Bytes s = snk_buf s"

definition snk_Reset :: "ZeroCopySink \<Rightarrow> ZeroCopySink" where
  "snk_Reset s = s\<lparr>snk_buf := [], snk_spare := snk_buf s @ snk_spare s\<rparr>"

type_synonym wr = "ZeroCopySink \<Rightarrow> ZeroCopySink res"

definition WriteBytes :: "bytes \<Rightarrow> wr" where
  "WriteBytes p s = bind_res (snk_NextBytes (length p) s) (\<lambda>(m, s'). Ok (store_at m p s'))"

definition WriteUint8 :: "u8 \<Rightarrow> wr" where
  "WriteUint8 d s = bind_res (snk_NextBytes 1 s) (\<lambda>(m, s'). Ok (store_at m [d] s'))"

definition WriteByte :: "byte \<Rightarrow> wr" where
  "WriteByte c s = WriteUint8 c s"

definition WriteBool :: "bool \<Rightarrow> wr" where
  "WriteBool d s = (if d then WriteByte 1 s else WriteByte 0 s)"

definition WriteUint16 :: "u16 \<Rightarrow> wr" where
  "WriteUint16 d s = bind_res (snk_NextBytes 2 s) (\<lambda>(m, s'). Ok (store_at m (put_le 2 d) s'))"

definition WriteUint32 :: "u32 \<Rightarrow> wr" where
  "WriteUint32 d s = bind_res (snk_NextBytes 4 s) (\<lambda>(m, s'). Ok (store_at m (put_le 4 d) s'))"

definition WriteUint64 :: "u64 \<Rightarrow> wr" where
  "WriteUint64 d s = bind_res (snk_NextBytes 8 s) (\<lambda>(m, s'). Ok (store_at m (put_le 8 d) s'))"

definition WriteInt64 :: "u64 \<Rightarrow> wr" where
  "WriteInt64 d s = WriteUint64 d s"

definition WriteInt32 :: "u32 \<Rightarrow> wr" where
  "WriteInt32 d s = WriteUint32 d s"

definition WriteInt16 :: "u16 \<Rightarrow> wr" where
  "WriteInt16 d s = WriteUint16 d s"

text \<open>
  \<open>WriteVarUint\<close> exposes nine bytes, fills the ones it needs and backs up over the others. The
  returned size comes first.
\<close>

definition WriteVarUint :: "u64 \<Rightarrow> ZeroCopySink \<Rightarrow> (u64 \<times> ZeroCopySink) res" where
  "WriteVarUint data s =
     bind_res (snk_NextBytes 9 s) (\<lambda>(m, s1).
       let (s2, size) =
         (if data < 0xFD then (store_at m [ucast data] s1, 1 :: u64)
          else if data \<le> 0xFFFF then
            (store_at (m + 1) (put_le 2 (ucast data :: u16)) (store_at m [0xFD] s1), 3)
          else if data \<le> 0xFFFFFFFF then
            (store_at (m + 1) (put_le 4 (ucast data :: u32)) (store_at m [0xFE] s1), 5)
          else (store_at (m + 1) (put_le 8 data) (store_at m [0xFF] s1), 9))
       in bind_res (snk_BackUp (unat (9 - size)) s2) (\<lambda>s3. Ok (size, s3)))"

definition WriteVarBytes :: "bytes \<Rightarrow> ZeroCopySink \<Rightarrow> (u64 \<times> ZeroCopySink) res" where
  "WriteVarBytes data s =
     (let l = of_nat (length data) :: u64 in
      bind_res (WriteVarUint l s) (\<lambda>(n, s1).
      bind_res (WriteBytes data s1) (\<lambda>s2. Ok (n + l, s2))))"

definition WriteString :: "bytes \<Rightarrow> ZeroCopySink \<Rightarrow> (u64 \<times> ZeroCopySink) res" where
  "WriteString data s = WriteVarBytes data s"

definition WriteAddress :: "bytes \<Rightarrow> wr" where
  "WriteAddress addr s = WriteBytes addr s"

definition WriteHash :: "bytes \<Rightarrow> wr" where
  "WriteHash hash s = WriteBytes hash s"

definition WriteU128 :: "bytes \<Rightarrow> wr" where
  "WriteU128 u s = WriteBytes u s"

definition WriteI128 :: "bytes \<Rightarrow> wr" where
  "WriteI128 i s = WriteBytes i s"

section \<open>The capacity invariant\<close>

definition sink_max :: nat where
  "sink_max = 2 ^ 60"

definition sink_ok :: "ZeroCopySink \<Rightarrow> bool" where
  "sink_ok s \<longleftrightarrow> snk_cap s \<le> 3 * length (snk_buf s) + 2000000"

lemma sink_ok_new [simp]: "sink_ok NewZeroCopySink" "sink_ok EmptySink"
  "snk_buf NewZeroCopySink = []" "snk_buf EmptySink = []"
  by (simp_all add: sink_ok_def snk_cap_def NewZeroCopySink_def EmptySink_def)

text \<open>
  The exposed region: \<open>NextBytes\<close> adds \<open>n\<close> bytes after the old ones, whatever they hold, and the
  capacity grows to at most \<open>2 * len + 3 * n\<close> beyond what the invariant allowed before.
\<close>

lemma snk_NextBytes_ok:
  assumes ok: "sink_ok s" and small: "length (snk_buf s) + n \<le> sink_max"
  shows "\<exists>g sp. length g = n
    \<and> snk_NextBytes n s = Ok (length (snk_buf s), \<lparr>snk_buf = snk_buf s @ g, snk_spare = sp\<rparr>)
    \<and> length (snk_buf s) + n + length sp
        \<le> max (3 * length (snk_buf s) + 2000000) (2 * length (snk_buf s) + 3 * n)"
proof (cases "n \<le> length (snk_spare s)")
  case True
  then show ?thesis
    using ok
    by (intro exI [of _ "take n (snk_spare s)"] exI [of _ "drop n (snk_spare s)"])
      (cases s, simp add: snk_NextBytes_def tryGrowByReslice_def snk_cap_def sink_ok_def)
next
  case False
  let ?l = "length (snk_buf s)" and ?c = "snk_cap s"
  have c: "?c < ?l + n"
    using False by (simp add: snk_cap_def)
  have "\<not> int ?c > int maxInt - int ?c - int n"
    using c small by (simp add: maxInt_def sink_max_def)
  moreover have "copy_slice (replicate (2 * ?c + n) 0) (snk_buf s) = snk_buf s @ replicate (2 * ?c + n - ?l) 0"
    using c by (simp add: copy_slice_def snk_cap_def)
  moreover have "min n (2 * ?c + n - ?l) = n"
    by (simp add: snk_cap_def)
  ultimately show ?thesis
    using False c
    by (intro exI [of _ "replicate n 0"] exI [of _ "replicate (2 * ?c - ?l) 0"])
      (cases s, simp add: snk_NextBytes_def tryGrowByReslice_def grow_def Let_def snk_cap_def makeSlice_def)
qed

text \<open>A region of \<open>n\<close> fresh bytes overwritten by \<open>p\<close> and cut after it: the net effect is \<open>buf @ p\<close>.\<close>

lemma store_at_end:
  "length p = length g \<Longrightarrow> length b = m \<Longrightarrow>
   store_at m p \<lparr>snk_buf = b @ g, snk_spare = sp\<rparr> = \<lparr>snk_buf = b @ p, snk_spare = sp\<rparr>"
  by (simp add: store_at_def copy_slice_same)

lemma store_at_part:
  "length p \<le> length g \<Longrightarrow> length b = m \<Longrightarrow>
   store_at m p \<lparr>snk_buf = b @ g, snk_spare = sp\<rparr>
     = \<lparr>snk_buf = b @ p @ drop (length p) g, snk_spare = sp\<rparr>"
  by (simp add: store_at_def copy_slice_prefix)

section \<open>The contract of a writer\<close>

locale writer =
  fixes wr :: wr and enc :: bytes
  assumes appends: "sink_ok s \<Longrightarrow> length (snk_buf s) + length enc + 8 \<le> sink_max \<Longrightarrow>
     \<exists>s'. wr s = Ok s' \<and> snk_buf s' = snk_buf s @ enc \<and> sink_ok s'"
begin

lemma to_fresh_sink:
  "length enc + 8 \<le> sink_max \<Longrightarrow> \<exists>s'. wr NewZeroCopySink = Ok s' \<and> snk_Bytes s' = enc"
  using appends [of NewZeroCopySink] by (auto simp: snk_Bytes_def)

end

lemma writer_bind:
  assumes "writer f a" and "writer g b"
  shows "writer (\<lambda>s. bind_res (f s) g) (a @ b)"
proof
  fix s assume s: "sink_ok s" "length (snk_buf s) + length (a @ b) + 8 \<le> sink_max"
  then obtain s1 where s1: "f s = Ok s1" "snk_buf s1 = snk_buf s @ a" "sink_ok s1"
    using writer.appends [OF assms(1), of s] by auto
  then show "\<exists>s'. bind_res (f s) g = Ok s' \<and> snk_buf s' = snk_buf s @ a @ b \<and> sink_ok s'"
    using writer.appends [OF assms(2), of s1] s by auto
qed

lemma writer_return: "writer Ok []"
  by unfold_locales simp

lemma writer_fixed:
  assumes "length p = n"
  shows "writer (\<lambda>s. bind_res (snk_NextBytes n s) (\<lambda>(m, s'). Ok (store_at m p s'))) p"
proof
  fix s assume s: "sink_ok s" "length (snk_buf s) + length p + 8 \<le> sink_max"
  then obtain g sp where g: "length g = n"
    "snk_NextBytes n s = Ok (length (snk_buf s), \<lparr>snk_buf = snk_buf s @ g, snk_spare = sp\<rparr>)"
    "length (snk_buf s) + n + length sp \<le> max (3 * length (snk_buf s) + 2000000) (2 * length (snk_buf s) + 3 * n)"
    using assms snk_NextBytes_ok [of s n] by auto
  then show "\<exists>s'. bind_res (snk_NextBytes n s) (\<lambda>(m, s'). Ok (store_at m p s')) = Ok s'
      \<and> snk_buf s' = snk_buf s @ p \<and> sink_ok s'"
    using assms by (simp add: store_at_end sink_ok_def snk_cap_def)
qed

lemma writer_WriteBytes: "writer (WriteBytes p) p"
  unfolding WriteBytes_def [abs_def] by (rule writer_fixed) simp

lemma writer_WriteUint:
  "writer (WriteUint8 a) [a]" "writer (WriteUint16 b) (put_le 2 b)"
  "writer (WriteUint32 c) (put_le 4 c)" "writer (WriteUint64 d) (put_le 8 d)"
  unfolding WriteUint8_def [abs_def] WriteUint16_def [abs_def] WriteUint32_def [abs_def]
    WriteUint64_def [abs_def]
  by (auto intro!: writer_fixed)

text \<open>
  \<open>WriteVarUint\<close> appends the variable-length encoding and returns its size, although it works on
  nine exposed bytes.
\<close>

lemma WriteVarUint_appends:
  assumes s: "sink_ok s" "length (snk_buf s) + 9 \<le> sink_max"
  shows "\<exists>s'. WriteVarUint v s = Ok (getVarUintSize v, s') \<and> snk_buf s' = snk_buf s @ varuint_enc v
    \<and> sink_ok s'"
proof -
  obtain g sp where g: "length g = 9"
    "snk_NextBytes 9 s = Ok (length (snk_buf s), \<lparr>snk_buf = snk_buf s @ g, snk_spare = sp\<rparr>)"
    "length (snk_buf s) + 9 + length sp \<le> max (3 * length (snk_buf s) + 2000000) (2 * length (snk_buf s) + 27)"
    using s snk_NextBytes_ok [of s 9] by auto
  have shift: "store_at (Suc (length b)) p \<lparr>snk_buf = b @ t # h, snk_spare = sp\<rparr>
      = \<lparr>snk_buf = b @ t # p @ drop (length p) h, snk_spare = sp\<rparr>" if "length p \<le> length h" for b p t h
    using store_at_part [of p h "b @ [t]" "Suc (length b)" sp] that by simp
  show ?thesis
    using g
    by (auto simp: WriteVarUint_def store_at_part shift snk_BackUp_def varuint_enc_def
        getVarUintSize_def sink_ok_def snk_cap_def Let_def)
qed

lemma WriteVarBytes_appends:
  assumes s: "sink_ok s" "length (snk_buf s) + length (varbytes_enc p) + 8 \<le> sink_max"
  shows "\<exists>s'. WriteVarBytes p s = Ok (getVarUintSize (of_nat (length p)) + of_nat (length p), s')
    \<and> snk_buf s' = snk_buf s @ varbytes_enc p \<and> sink_ok s'"
proof -
  let ?v = "of_nat (length p) :: u64"
  have "1 \<le> length (varuint_enc ?v)"
    by (simp add: varuint_enc_def)
  then obtain s1 where s1: "WriteVarUint ?v s = Ok (getVarUintSize ?v, s1)"
    "snk_buf s1 = snk_buf s @ varuint_enc ?v" "sink_ok s1"
    using WriteVarUint_appends [OF s(1), of ?v] s(2) by (auto simp: varbytes_enc_def)
  then show ?thesis
    using writer.appends [OF writer_WriteBytes, of s1 p] s(2)
    by (auto simp: WriteVarBytes_def Let_def varbytes_enc_def)
qed

interpretation wr_bytes: writer "WriteBytes p" p for p
  by (rule writer_WriteBytes)

interpretation wr_u32: writer "WriteUint32 c" "put_le 4 c" for c
  by (rule writer_WriteUint)

interpretation wr_u64: writer "WriteUint64 d" "put_le 8 d" for d
  by (rule writer_WriteUint)

section \<open>Properties\<close>

text \<open>
  Writing appends: on a sink within its capacity invariant, \<open>WriteVarBytes\<close> does not panic, adds
  exactly the length-prefixed bytes after what the sink held (although \<open>WriteVarUint\<close> exposes nine
  bytes of a possibly reused buffer and gives some back), returns their number and keeps the
  invariant.
\<close>

theorem sink_appends:
  assumes "sink_ok s" and "length (snk_buf s) + length (varbytes_enc p) + 8 \<le> sink_max"
  shows "\<exists>n s'. WriteVarBytes p s = Ok (n, s') \<and> snk_Bytes s' = snk_Bytes s @ varbytes_enc p
    \<and> n = of_nat (length (varbytes_enc p)) \<and> sink_ok s'"
proof -
  have "of_nat (length (varuint_enc v)) = getVarUintSize v" for v
    by (simp add: length_varuint_enc)
  then show ?thesis
    using WriteVarBytes_appends [OF assms]
    by (auto simp: snk_Bytes_def varbytes_enc_def)
qed

theorem sink_appends_witness:
  "sink_ok NewZeroCopySink \<and> (\<exists>n s'. WriteVarBytes [1, 2] NewZeroCopySink = Ok (n, s')
     \<and> snk_Bytes s' = snk_Bytes NewZeroCopySink @ varbytes_enc [1, 2] \<and> n = 3 \<and> sink_ok s')"
  using sink_appends [of NewZeroCopySink "[1, 2]"]
  by (simp add: varbytes_enc_def varuint_enc_def sink_max_def)

end
