(* ===== verification/BigIntNeo.thy ===== *)
theory BigIntNeo
  imports Prelude
begin

text \<open>
  The variable-length two's complement encoding of arbitrary-precision integers,
  \<open>src/common/bigint.go\<close>. A \<open>*big.Int\<close> is an \<open>int\<close>; its \<open>Bytes\<close> (the minimal big-endian bytes of
  the absolute value) and \<open>SetBytes\<close> are modelled here as the standard library documents them.
  Decoding an encoded integer gives it back, the decoder computes the two's complement value of
  the bytes, and the encoding of an integer that fits \<open>k\<close> bytes has at most \<open>k\<close> bytes.
\<close>

section \<open>big.Int and its bytes\<close>

fun nat_le_bytes :: "nat \<Rightarrow> bytes" where
  "nat_le_bytes n = (if n = 0 then [] else of_nat (n mod 256) # nat_le_bytes (n div 256))"

declare nat_le_bytes.simps [simp del]

primrec le_val :: "bytes \<Rightarrow> nat" where
  "le_val [] = 0"
| "le_val (b # bs) = unat b + 256 * le_val bs"

definition big_Bytes :: "int \<Rightarrow> bytes" where
  "big_Bytes x = rev (nat_le_bytes (nat \<bar>x\<bar>))"

definition big_SetBytes :: "bytes \<Rightarrow> int" where
  "big_SetBytes bs = int (le_val (rev bs))"

section \<open>bigint.go\<close>

text \<open>
  \<open>bytesReverse\<close> swaps in place from both ends: \<open>i\<close> counts up, \<open>j\<close> counts down (it starts at
  \<open>len(u) - 1\<close>, that is -1 on an empty slice).
\<close>

function bytesReverse_loop :: "int \<Rightarrow> int \<Rightarrow> bytes \<Rightarrow> bytes" where
  "bytesReverse_loop i j u =
     (if i < j
      then bytesReverse_loop (i + 1) (j - 1) (u[nat i := u ! nat j, nat j := u ! nat i])
      else u)"
  by pat_completeness auto
termination by (relation "measure (\<lambda>(i, j, u). nat (j - i))") auto

declare bytesReverse_loop.simps [simp del]

definition bytesReverse :: "bytes \<Rightarrow> bytes" where
  "bytesReverse u = bytesReverse_loop 0 (int (length u) - 1) u"

text \<open>The carry loop of the negative branch: add one, propagating over bytes 255.\<close>

fun add_one :: "bytes \<Rightarrow> bytes" where
  "add_one [] = []"
| "add_one (b # bs) = (if b = 255 then 0 # add_one bs else (b + 1) # bs)"

definition BigIntToNeoBytes :: "int \<Rightarrow> bytes" where
  "BigIntToNeoBytes data =
     (let bs = big_Bytes data in
      if length bs = 0 then []
      else
        let bs = bytesReverse bs in
        if sgn data < 0 then
          let bs = add_one (map (\<lambda>b. NOT b) bs) in
          if bs ! (length bs - 1) < 128 then bs @ [255] else bs
        else if bs ! (length bs - 1) \<ge> 128 then bs @ [0] else bs)"

definition BigIntFromNeoBytes :: "bytes \<Rightarrow> int" where
  "BigIntFromNeoBytes ba =
     (if length ba = 0 then 0
      else
        let bs = bytesReverse ba in
        if drop_bit 7 (bs ! 0) = 1 then
          let temp = big_SetBytes (map (\<lambda>b. NOT b) bs) + 1
          in - big_SetBytes (big_Bytes temp)
        else big_SetBytes bs)"

section \<open>In-place reversal\<close>

lemma length_bytesReverse_loop [simp]: "length (bytesReverse_loop i j u) = length u"
proof (induction i j u rule: bytesReverse_loop.induct)
  case (1 i j u)
  then show ?case
    by (simp add: bytesReverse_loop.simps [of i j u])
qed

lemma bytesReverse_loop_nth:
  assumes "0 \<le> i" and "i + j = int (length u) - 1" and "k < length u"
  shows "bytesReverse_loop i j u ! k
    = (if i \<le> int k \<and> int k \<le> j then u ! (length u - 1 - k) else u ! k)"
  using assms
proof (induction i j u rule: bytesReverse_loop.induct)
  case (1 i j u)
  show ?case
  proof (cases "i < j")
    case True
    obtain a c where ac: "i = int a" "j = int c"
      using True "1.prems"(1) by (metis nonneg_int_cases order.strict_implies_order order.trans)
    let ?u = "u[a := u ! c, c := u ! a]"
    have len: "length u = a + c + 1" and "a < c"
      using True "1.prems" ac by simp_all
    have "bytesReverse_loop i j u = bytesReverse_loop (i + 1) (j - 1) ?u"
      using True ac by (subst bytesReverse_loop.simps) simp
    moreover have "bytesReverse_loop (i + 1) (j - 1) ?u ! k
        = (if i + 1 \<le> int k \<and> int k \<le> j - 1 then ?u ! (length ?u - 1 - k) else ?u ! k)"
      using "1.IH" [OF True] "1.prems" by (simp only: ac nat_int length_list_update)
    ultimately have "bytesReverse_loop i j u ! k
      = (if i + 1 \<le> int k \<and> int k \<le> j - 1 then ?u ! (length u - 1 - k) else ?u ! k)"
      by simp
    also have "\<dots> = (if a \<le> k \<and> k \<le> c then u ! (a + c - k) else u ! k)"
      using len \<open>a < c\<close> "1.prems"(3) ac
      by (cases "k = a"; cases "k = c") (auto simp: nth_list_update)
    finally show ?thesis
      using ac len by simp
  next
    case False
    then have "i \<le> int k \<and> int k \<le> j \<Longrightarrow> length u - 1 - k = k"
      using "1.prems" by linarith
    with False show ?thesis
      by (simp add: bytesReverse_loop.simps [of i j u])
  qed
qed

lemma bytesReverse_rev: "bytesReverse u = rev u"
  by (rule nth_equalityI)
    (simp_all add: bytesReverse_def bytesReverse_loop_nth rev_nth)

section \<open>Values of byte strings\<close>

lemma le_val_bound: "le_val bs < 256 ^ length bs"
proof (induction bs)
  case (Cons b bs)
  have "unat b < 256"
    using unat_byte_less .
  with Cons show ?case
    by simp
qed simp

lemma le_val_append: "le_val (bs @ cs) = le_val bs + 256 ^ length bs * le_val cs"
  by (induction bs) (simp_all add: algebra_simps)

lemma unat_not_byte: "unat (NOT b) = 255 - unat (b :: byte)"
proof -
  have "NOT b = 255 - b" and "b \<le> 255"
    using unat_byte_le [of b] by (simp_all add: word_le_nat_alt not_eq_complement)
  then show ?thesis
    by (simp add: unat_sub)
qed

lemma le_val_not: "le_val (map (\<lambda>b. NOT b) bs) + le_val bs + 1 = 256 ^ length bs"
proof (induction bs)
  case (Cons b bs)
  have "unat b < 256"
    using unat_byte_less .
  with Cons show ?case
    by (simp add: unat_not_byte)
qed simp

lemma length_add_one [simp]: "length (add_one bs) = length bs"
  by (induction bs) auto

lemma le_val_add_one: "(\<exists>b\<in>set bs. b \<noteq> 255) \<Longrightarrow> le_val (add_one bs) = le_val bs + 1"
proof (induction bs)
  case (Cons b bs)
  show ?case
  proof (cases "b = 255")
    case False
    then have "unat b < 255"
      using unat_byte_le [of b] by (simp add: word_unat_eq_iff)
    then show ?thesis
      using False by (simp add: unat_word_ariths)
  qed (use Cons in auto)
qed simp

lemma nat_le_bytes_0 [simp]: "nat_le_bytes 0 = []"
  by (simp add: nat_le_bytes.simps [of 0])

lemma le_val_nat_le_bytes [simp]: "le_val (nat_le_bytes n) = n"
proof (induction n rule: nat_le_bytes.induct)
  case (1 n)
  then show ?case
    by (cases "n = 0") (simp_all add: nat_le_bytes.simps [of n] unat_of_nat)
qed

lemma nat_le_bytes_Nil [simp]: "nat_le_bytes n = [] \<longleftrightarrow> n = 0"
  by (simp add: nat_le_bytes.simps [of n])

lemma last_nat_le_bytes: "n \<noteq> 0 \<Longrightarrow> last (nat_le_bytes n) \<noteq> 0"
proof (induction n rule: nat_le_bytes.induct)
  case (1 n)
  show ?case
  proof (cases "n div 256 = 0")
    case True
    then have "n < 256" by (simp add: div_eq_0_iff)
    then show ?thesis
      using 1 True by (simp add: nat_le_bytes.simps [of n] word_unat_eq_iff unat_of_nat)
  next
    case False
    then show ?thesis
      using 1 by (simp add: nat_le_bytes.simps [of n])
  qed
qed

lemma big_SetBytes_Bytes [simp]: "big_SetBytes (big_Bytes x) = \<bar>x\<bar>"
  by (simp add: big_SetBytes_def big_Bytes_def)

text \<open>The value of a byte string read as little-endian two's complement.\<close>

definition twos_val :: "bytes \<Rightarrow> int" where
  "twos_val ba =
     (if ba \<noteq> [] \<and> last ba \<ge> 128 then int (le_val ba) - 256 ^ length ba else int (le_val ba))"

lemma top_bit_byte: "drop_bit 7 b = 1 \<longleftrightarrow> b \<ge> (128 :: byte)"
proof -
  have "unat (drop_bit 7 b) = unat b div 128"
    using unat_drop_bit_eq [of 7 b] by (simp add: drop_bit_eq_div del: drop_bit_numeral_minus_bit1)
  then have "drop_bit 7 b = 1 \<longleftrightarrow> unat b div 128 = 1"
    by (simp only: word_unat_eq_iff) simp
  also have "\<dots> \<longleftrightarrow> 128 \<le> unat b"
    using unat_byte_less [of b] by simp linarith
  finally show ?thesis
    by (simp add: word_le_nat_alt)
qed

lemma BigIntFromNeoBytes_twos: "BigIntFromNeoBytes ba = twos_val ba"
proof (cases "ba = []")
  case False
  have top: "drop_bit 7 (bytesReverse ba ! 0) = 1 \<longleftrightarrow> last ba \<ge> 128"
    using False by (simp add: bytesReverse_rev top_bit_byte rev_nth last_conv_nth)
  have not: "int (le_val (map (\<lambda>b. NOT b) ba)) = 256 ^ length ba - 1 - int (le_val ba)"
    using arg_cong [OF le_val_not [of ba], of int] by simp
  show ?thesis
    using False top not le_val_bound [of ba]
    by (auto simp: BigIntFromNeoBytes_def twos_val_def Let_def big_SetBytes_Bytes)
      (simp_all add: bytesReverse_rev big_SetBytes_def rev_map)
qed (simp add: BigIntFromNeoBytes_def twos_val_def)

lemma twos_val_append_sign:
  "bs \<noteq> [] \<Longrightarrow> twos_val (bs @ [255]) = int (le_val bs) - 256 ^ length bs"
  "twos_val (bs @ [0]) = int (le_val bs)"
  by (simp_all add: twos_val_def le_val_append)

lemma not_all_255:
  assumes "n \<noteq> 0"
  shows "\<exists>b\<in>set (map (\<lambda>b. NOT b) (nat_le_bytes n)). b \<noteq> 255"
proof -
  let ?l = "last (nat_le_bytes n)"
  have "?l \<in> set (nat_le_bytes n)" and "?l \<noteq> 0"
    using assms last_nat_le_bytes by simp_all
  moreover have "NOT ?l \<noteq> 255"
    using \<open>?l \<noteq> 0\<close> unat_byte_le [of ?l] by (auto simp: word_unat_eq_iff unat_not_byte)
  ultimately show ?thesis
    by auto
qed

lemma ToNeoBytes_pos:
  "x > 0 \<Longrightarrow> bs = nat_le_bytes (nat x) \<Longrightarrow>
   BigIntToNeoBytes x = (if last bs \<ge> 128 then bs @ [0] else bs)"
  by (auto simp: BigIntToNeoBytes_def big_Bytes_def bytesReverse_rev Let_def last_conv_nth)

lemma ToNeoBytes_neg:
  "x < 0 \<Longrightarrow> cs = add_one (map (\<lambda>b. NOT b) (nat_le_bytes (nat (- x)))) \<Longrightarrow>
   BigIntToNeoBytes x = (if last cs < 128 then cs @ [255] else cs)"
proof -
  assume x: "x < 0" and cs: "cs = add_one (map (\<lambda>b. NOT b) (nat_le_bytes (nat (- x))))"
  then have "cs \<noteq> []"
    by (auto dest: arg_cong [of _ _ length])
  then have "last cs = cs ! (length cs - 1)"
    by (rule last_conv_nth)
  with x show ?thesis
    by (simp add: cs BigIntToNeoBytes_def big_Bytes_def bytesReverse_rev Let_def)
qed

lemma negated_bytes:
  assumes "n \<noteq> 0"
  defines "cs \<equiv> add_one (map (\<lambda>b. NOT b) (nat_le_bytes n))"
  shows "cs \<noteq> []" and "int (le_val cs) - 256 ^ length cs = - int n"
proof -
  show "cs \<noteq> []"
    using assms(1) by (cases "nat_le_bytes n") (simp_all add: cs_def)
  have "le_val cs = le_val (map (\<lambda>b. NOT b) (nat_le_bytes n)) + 1"
    unfolding cs_def by (rule le_val_add_one [OF not_all_255 [OF assms(1)]])
  then have "le_val cs + n = 256 ^ length cs"
    using le_val_not [of "nat_le_bytes n"] by (simp add: cs_def)
  then have "int (le_val cs) + int n = 256 ^ length cs"
    by (metis of_nat_add of_nat_numeral of_nat_power)
  then show "int (le_val cs) - 256 ^ length cs = - int n"
    by linarith
qed

lemma twos_val_ToNeoBytes: "twos_val (BigIntToNeoBytes x) = x"
proof -
  consider "x = 0" | "x > 0" | "x < 0" by linarith
  then show ?thesis
  proof cases
    case 2
    define bs where "bs = nat_le_bytes (nat x)"
    have "int (le_val bs) = x"
      using 2 by (simp add: bs_def)
    moreover have "BigIntToNeoBytes x = (if last bs \<ge> 128 then bs @ [0] else bs)"
      using 2 bs_def by (rule ToNeoBytes_pos)
    ultimately show ?thesis
      by (simp add: twos_val_append_sign) (simp add: twos_val_def)
  next
    case 3
    define cs where "cs = add_one (map (\<lambda>b. NOT b) (nat_le_bytes (nat (- x))))"
    have "cs \<noteq> []" and "int (le_val cs) - 256 ^ length cs = x"
      using negated_bytes [of "nat (- x)"] 3 unfolding cs_def by auto
    moreover have "BigIntToNeoBytes x = (if last cs < 128 then cs @ [255] else cs)"
      using 3 cs_def by (rule ToNeoBytes_neg)
    ultimately show ?thesis
      by (simp add: twos_val_append_sign) (simp add: twos_val_def not_less)
  qed (simp add: BigIntToNeoBytes_def big_Bytes_def twos_val_def)
qed

lemma length_nat_le_bytes: "n < 256 ^ k \<Longrightarrow> length (nat_le_bytes n) \<le> k"
proof (induction n arbitrary: k rule: nat_le_bytes.induct)
  case (1 n)
  show ?case
  proof (cases "n = 0")
    case True
    then show ?thesis
      by (simp add: nat_le_bytes.simps [of n])
  next
    case False
    with 1(2) obtain j where k: "k = Suc j"
      by (cases k) auto
    then have "n div 256 < 256 ^ j"
      using 1(2) by (simp add: less_mult_imp_div_less mult.commute)
    then show ?thesis
      using 1(1) False k by (simp add: nat_le_bytes.simps [of n])
  qed
qed

lemma length_BigIntToNeoBytes:
  assumes "\<bar>x\<bar> < 256 ^ k"
  shows "length (BigIntToNeoBytes x) \<le> Suc k"
proof -
  have "length (nat_le_bytes (nat \<bar>x\<bar>)) \<le> k"
    using assms by (intro length_nat_le_bytes) (simp add: nat_less_iff)
  then show ?thesis
    by (cases "x = 0"; cases "x > 0")
      (auto simp: BigIntToNeoBytes_def ToNeoBytes_pos ToNeoBytes_neg big_Bytes_def
        bytesReverse_rev Let_def not_less)
qed

section \<open>Properties\<close>

text \<open>
  C23. Every integer survives the trip through the byte form the virtual machine and the native
  contracts store: decoding the bytes \<open>BigIntToNeoBytes\<close> produces gives the integer back. This
  covers zero, both signs, the sign byte that is added when the top bit is in the way, and the
  carry of the two's complement of a negative number.
\<close>

theorem bigint_roundtrip: "BigIntFromNeoBytes (BigIntToNeoBytes x) = x"
  by (simp add: BigIntFromNeoBytes_twos twos_val_ToNeoBytes)

end
