(* ===== verification/Codec.thy ===== *)
theory Codec
  imports ByteSink BigIntNeo
begin

text \<open>
  Values that are written to a sink and read back from a source: the interface \<open>Serializable\<close> of
  \<open>src/common/codec.go\<close> with its decoding counterpart as the locale \<open>serializable\<close>, the common value
  types that implement it (\<open>src/common/fixed64.go\<close>, \<open>address.go\<close>, \<open>uint256.go\<close>,
  \<open>src/core/states/state_base.go\<close>, \<open>storage_item.go\<close>), the argument encoding of the native
  contracts (\<open>src/smartcontract/service/native/utils/serialization.go\<close>) and the older
  \<open>src/common/compact_uint.go\<close>.
\<close>

section \<open>codec.go\<close>

fun SerializeToBytes_loop :: "wr list \<Rightarrow> ZeroCopySink \<Rightarrow> ZeroCopySink res" where
  "SerializeToBytes_loop [] s = Ok s"
| "SerializeToBytes_loop (v # vs) s = bind_res (v s) (\<lambda>s'. SerializeToBytes_loop vs s')"

definition SerializeToBytes :: "wr list \<Rightarrow> bytes res" where
  "SerializeToBytes vs =
     bind_res (SerializeToBytes_loop vs NewZeroCopySink) (\<lambda>s. Ok (snk_Bytes s))"

section \<open>The contract of a serializable type\<close>

text \<open>
  \<open>enc x\<close> is the byte string a value stands for. The writer appends it; the reader, in front of
  it, returns the value and stops right behind it.
\<close>

locale serializable =
  fixes ser :: "'a \<Rightarrow> wr" and deser :: "'a rd" and enc :: "'a \<Rightarrow> bytes" and valid :: "'a \<Rightarrow> bool"
  assumes writes: "valid x \<Longrightarrow> writer (ser x) (enc x)"
    and reads: "valid x \<Longrightarrow> wf_src s \<Longrightarrow> rest s = enc x @ r \<Longrightarrow>
      deser s = Ok (x, advance (length (enc x)) s)"
begin

text \<open>The round trip through bytes.\<close>

lemma roundtrip:
  assumes "valid x" and "length (enc x) + 8 \<le> sink_max"
  shows "\<exists>bs s'. SerializeToBytes [ser x] = Ok bs \<and> deser (NewZeroCopySource bs) = Ok (x, s')
    \<and> rest s' = []"
proof -
  obtain k where k: "ser x NewZeroCopySink = Ok k" "snk_buf k = enc x"
    using writer.to_fresh_sink [OF writes [OF assms(1)] assms(2)] by (auto simp: snk_Bytes_def)
  let ?s = "NewZeroCopySource (enc x)"
  have "wf_src ?s"
    using assms(2) by (intro wf_NewZeroCopySource) (simp add: maxInt_def sink_max_def)
  then have "deser ?s = Ok (x, advance (length (enc x)) ?s)" "rest (advance (length (enc x)) ?s) = []"
    using reads [OF assms(1), of ?s "[]"] advance_prefix(2) [of ?s "enc x" "[]"] by simp_all
  then show ?thesis
    using k by (simp add: SerializeToBytes_def snk_Bytes_def)
qed

text \<open>The encoding is prefix-free, so no two values share a byte string.\<close>

lemma prefix_free:
  assumes "valid x" and "valid y" and "enc x @ r = enc y @ r'" and "length (enc x @ r) \<le> maxInt"
  shows "x = y"
proof -
  let ?s = "NewZeroCopySource (enc x @ r)"
  have "wf_src ?s"
    using assms(4) by simp
  then show ?thesis
    using reads [OF assms(1), of ?s r] reads [OF assms(2), of ?s r'] assms(3) by simp
qed

lemma reads_then:
  assumes "valid x" and "wf_src s" and "rest s = enc x @ r"
  shows "deser s = Ok (x, advance (length (enc x)) s)" and "wf_src (advance (length (enc x)) s)"
    and "rest (advance (length (enc x)) s) = r"
  using reads [OF assms] advance_prefix [OF assms(2,3)] by auto

end

section \<open>Fixed-size values\<close>

definition ADDR_LEN :: nat where
  "ADDR_LEN = 20"

definition UINT256_SIZE :: nat where
  "UINT256_SIZE = 32"

type_synonym Address = bytes
type_synonym Uint256 = bytes

definition ADDRESS_EMPTY :: Address where
  "ADDRESS_EMPTY = replicate 20 0"

definition UINT256_EMPTY :: Uint256 where
  "UINT256_EMPTY = replicate 32 0"

definition Address_Serialization :: "Address \<Rightarrow> wr" where
  "Address_Serialization a s = WriteAddress a s"

definition Address_Deserialization :: "Address rd" where
  "Address_Deserialization s =
     bind_res (NextAddress s) (\<lambda>((a, eof), s'). if eof then Err ErrUnexpectedEOF else Ok (a, s'))"

definition AddressParseFromBytes :: "bytes \<Rightarrow> Address res" where
  "AddressParseFromBytes f =
     (if length f \<noteq> ADDR_LEN then Err ''[Common]: AddressParseFromBytes err, len != 20''
      else Ok (copy_slice (replicate 20 0) f))"

definition Uint256ParseFromBytes :: "bytes \<Rightarrow> Uint256 res" where
  "Uint256ParseFromBytes f =
     (if length f \<noteq> UINT256_SIZE then Err ''[Common]: Uint256ParseFromBytes err, len != 32''
      else Ok (copy_slice (replicate 32 0) f))"

definition ToArrayReverse :: "bytes \<Rightarrow> bytes" where
  "ToArrayReverse arr = map (\<lambda>i. arr ! (length arr - 1 - i)) [0..<length arr]"

definition Fixed64_Serialization :: "u64 \<Rightarrow> wr" where
  "Fixed64_Serialization f s = WriteInt64 f s"

definition Fixed64_Deserialization :: "u64 rd" where
  "Fixed64_Deserialization s =
     bind_res (NextInt64 s) (\<lambda>((t, eof), s'). if eof then Err ErrUnexpectedEOF else Ok (t, s'))"

definition FromDecimal :: "u64 \<Rightarrow> u64" where
  "FromDecimal v = v * 100000000"

section \<open>Storage items\<close>

record StorageItem =
  StateVersion :: byte
  item_Value :: bytes

definition ErrIrregularData :: err where
  "ErrIrregularData = ''irregular data''"

definition StorageItem_Serialization :: "StorageItem \<Rightarrow> wr" where
  "StorageItem_Serialization it s =
     bind_res (WriteByte (StateVersion it) s) (\<lambda>s1.
     bind_res (WriteVarBytes (item_Value it) s1) (\<lambda>(_, s2). Ok s2))"

definition StorageItem_Deserialization :: "StorageItem rd" where
  "StorageItem_Deserialization s =
     bind_res (NextByte s) (\<lambda>((v, eof0), s1).
     if eof0 then Err ErrUnexpectedEOF else
     bind_res (NextVarBytes s1) (\<lambda>((val, _, irregular, eof), s2).
       if irregular then Err ErrIrregularData
       else if eof then Err ErrUnexpectedEOF
       else Ok (\<lparr>StateVersion = v, item_Value = val\<rparr>, s2)))"

definition StorageItem_ToArray :: "StorageItem \<Rightarrow> bytes res" where
  "StorageItem_ToArray it = SerializeToBytes [StorageItem_Serialization it]"

definition GetValueFromRawStorageItem :: "bytes \<Rightarrow> bytes res" where
  "GetValueFromRawStorageItem raw =
     bind_res (StorageItem_Deserialization (NewZeroCopySource raw)) (\<lambda>(it, _). Ok (item_Value it))"

definition GenRawStorageItem :: "bytes \<Rightarrow> bytes res" where
  "GenRawStorageItem v = StorageItem_ToArray \<lparr>StateVersion = 0, item_Value = v\<rparr>"

section \<open>Arguments of native contracts\<close>

text \<open>
  \<open>big.NewInt(int64(value))\<close> is the word read as a signed integer; \<open>v.Uint64()\<close> is the low 64 bits.
\<close>

definition EncodeAddress :: "Address \<Rightarrow> wr" where
  "EncodeAddress a s = bind_res (WriteVarBytes a s) (\<lambda>(_, s'). Ok s')"

definition EncodeVarUint :: "u64 \<Rightarrow> wr" where
  "EncodeVarUint v s = bind_res (WriteVarBytes (BigIntToNeoBytes (sint v)) s) (\<lambda>(_, s'). Ok s')"

definition EncodeVarBytes :: "bytes \<Rightarrow> wr" where
  "EncodeVarBytes v s = bind_res (WriteVarBytes v s) (\<lambda>(_, s'). Ok s')"

definition EncodeString :: "bytes \<Rightarrow> wr" where
  "EncodeString v s = bind_res (WriteVarBytes v s) (\<lambda>(_, s'). Ok s')"

definition DecodeVarBytes :: "bytes rd" where
  "DecodeVarBytes s =
     bind_res (NextVarBytes s) (\<lambda>((data, _, irregular, eof), s').
       if eof then Err ErrUnexpectedEOF
       else if irregular then Err ErrIrregularData else Ok (data, s'))"

definition DecodeVarUint :: "u64 rd" where
  "DecodeVarUint s =
     bind_res (NextVarBytes s) (\<lambda>((val, _, irregular, eof), s').
       if eof then Err ErrUnexpectedEOF
       else if irregular then Err ErrIrregularData
       else
         let v = BigIntFromNeoBytes val in
         if v < 0 then Err ''value should not be a negative number.''
         else Ok (of_int v, s'))"

definition DecodeAddress :: "Address rd" where
  "DecodeAddress s =
     bind_res (NextVarBytes s) (\<lambda>((from, _, irregular, eof), s').
       if eof then Err ErrUnexpectedEOF
       else if irregular then Err ErrIrregularData
       else bind_res (AddressParseFromBytes from) (\<lambda>a. Ok (a, s')))"

definition DecodeUint64 :: "u64 rd" where
  "DecodeUint64 s =
     bind_res (NextUint64 s) (\<lambda>((d, eof), s'). if eof then Err ErrUnexpectedEOF else Ok (d, s'))"

definition DecodeUint32 :: "u32 rd" where
  "DecodeUint32 s =
     bind_res (NextUint32 s) (\<lambda>((d, eof), s'). if eof then Err ErrUnexpectedEOF else Ok (d, s'))"

definition DecodeBool :: "bool rd" where
  "DecodeBool s =
     bind_res (NextBool s) (\<lambda>((d, irregular, eof), s').
       if eof then Err ErrUnexpectedEOF
       else if irregular then Err ErrIrregularData else Ok (d, s'))"

definition DecodeString :: "bytes rd" where
  "DecodeString s =
     bind_res (NextString s) (\<lambda>((d, _, irregular, eof), s').
       if eof then Err ErrUnexpectedEOF
       else if irregular then Err ErrIrregularData else Ok (d, s'))"

section \<open>The older compact integers\<close>

text \<open>
  \<open>binary.LittleEndian.Uint64\<close> needs eight bytes and panics on fewer, so the two shorter forms can
  never be read; a slice expression beyond the buffer panics as well.
\<close>

definition Uint64_of_slice :: "bytes \<Rightarrow> nat \<Rightarrow> nat \<Rightarrow> u64 res" where
  "Uint64_of_slice buf i j =
     (if j \<le> length buf \<and> j - i \<ge> 8 then Ok (get_le (take 8 (drop i buf))) else Panic)"

definition GetCompactUint :: "bytes \<Rightarrow> (u64 \<times> u8) res" where
  "GetCompactUint buf =
     (case buf of [] \<Rightarrow> Panic
      | t # _ \<Rightarrow>
        let len = ucast t :: u64 in
        if len < 0xfd then Ok (len, 1)
        else if len = 0xfd then bind_res (Uint64_of_slice buf 1 3) (\<lambda>v. Ok (v, 3))
        else if len = 0xfe then bind_res (Uint64_of_slice buf 1 5) (\<lambda>v. Ok (v, 5))
        else if len = 0xff then bind_res (Uint64_of_slice buf 1 9) (\<lambda>v. Ok (v, 9))
        else Ok (0, 0))"

definition SetCompactUint :: "u64 \<Rightarrow> bytes" where
  "SetCompactUint num =
     (if num \<le> 0xff then [ucast num]
      else if num \<le> 0xffff then 0xfd # put_le 2 (ucast num :: u16)
      else if num \<le> 0xffffffff then 0xfe # put_le 4 (ucast num :: u32)
      else 0xff # put_le 8 num)"

section \<open>Every codec meets the contract\<close>

lemma writer_WriteVarBytes:
  "writer (\<lambda>s. bind_res (WriteVarBytes p s) (\<lambda>(_, s'). Ok s')) (varbytes_enc p)"
proof
  fix s assume "sink_ok s" "length (snk_buf s) + length (varbytes_enc p) + 8 \<le> sink_max"
  from WriteVarBytes_appends [OF this]
  show "\<exists>s'. bind_res (WriteVarBytes p s) (\<lambda>(_, s'). Ok s') = Ok s'
    \<and> snk_buf s' = snk_buf s @ varbytes_enc p \<and> sink_ok s'"
    by auto
qed

lemma writer_WriteBool: "writer (WriteBool b) [if b then 1 else 0]"
  using writer_WriteUint(1) by (cases b) (simp_all add: WriteBool_def [abs_def] WriteByte_def [abs_def])

lemma sint_small: "v < 0x8000000000000000 \<Longrightarrow> sint (v :: u64) = uint v"
  unfolding sint_uint
  by (rule signed_take_bit_int_eq_self)
    (simp_all add: word_less_def order_trans [OF _ uint_ge_0])

lemma sint_neg_iff: "sint (v :: u64) < 0 \<longleftrightarrow> \<not> v < 0x8000000000000000"
proof (cases "v < 0x8000000000000000")
  case False
  then have "uint v \<ge> 2 ^ 63"
    by (simp add: word_less_def)
  then have "uint v div 2 ^ 63 = 1"
    using uint_lt2p [of v] by (intro int_div_pos_eq [of _ _ _ "uint v - 2 ^ 63"]) simp_all
  then have "bit (uint v) 63"
    by (simp add: bit_iff_odd)
  then show ?thesis
    using False by (simp add: sint_uint)
qed (simp add: sint_small)

lemma DecodeVarBytes_prefix:
  assumes "wf_src s" and "rest s = varbytes_enc b @ r"
  shows "DecodeVarBytes s = Ok (b, advance (length (varbytes_enc b)) s)"
  using NextVarBytes_prefix [OF assms] by (simp add: DecodeVarBytes_def)

text \<open>The decoders of native-contract arguments start from the same length-prefixed bytes.\<close>

lemma DecodeVarUint_via:
  "DecodeVarUint s = bind_res (DecodeVarBytes s) (\<lambda>(b, s').
     if BigIntFromNeoBytes b < 0 then Err ''value should not be a negative number.''
     else Ok (of_int (BigIntFromNeoBytes b), s'))"
  by (cases "NextVarBytes s") (auto simp: DecodeVarUint_def DecodeVarBytes_def Let_def)

lemma DecodeAddress_via:
  "DecodeAddress s = bind_res (DecodeVarBytes s) (\<lambda>(b, s').
     bind_res (AddressParseFromBytes b) (\<lambda>a. Ok (a, s')))"
  by (cases "NextVarBytes s") (auto simp: DecodeAddress_def DecodeVarBytes_def)

interpretation addr: serializable Address_Serialization Address_Deserialization "\<lambda>a. a" "\<lambda>a. length a = 20"
proof (rule serializable.intro)
  fix a :: Address assume a: "length a = 20"
  show "writer (Address_Serialization a) a"
    using writer_WriteBytes by (simp add: Address_Serialization_def [abs_def] WriteAddress_def [abs_def])
  show "Address_Deserialization s = Ok (a, advance (length a) s)" if "wf_src s" "rest s = a @ r" for s r
    using NextFixed_prefix [OF that a] a by (simp add: Address_Deserialization_def NextAddress_def)
qed

interpretation fixed64: serializable Fixed64_Serialization Fixed64_Deserialization "put_le 8" "\<lambda>_. True"
proof (rule serializable.intro)
  fix f :: u64
  show "writer (Fixed64_Serialization f) (put_le 8 f)"
    using writer_WriteUint(4) by (simp add: Fixed64_Serialization_def [abs_def] WriteInt64_def [abs_def])
  show "Fixed64_Deserialization s = Ok (f, advance (length (put_le 8 f)) s)"
    if "wf_src s" "rest s = put_le 8 f @ r" for s r
    using NextUint_prefix(3) [OF that] by (simp add: Fixed64_Deserialization_def NextInt64_def)
qed

definition StorageItem_enc :: "StorageItem \<Rightarrow> bytes" where
  "StorageItem_enc it = StateVersion it # varbytes_enc (item_Value it)"

interpretation item: serializable StorageItem_Serialization StorageItem_Deserialization
  StorageItem_enc "\<lambda>_. True"
proof (rule serializable.intro)
  fix it :: StorageItem
  show "writer (StorageItem_Serialization it) (StorageItem_enc it)"
    using writer_bind [OF writer_WriteUint(1) writer_WriteVarBytes]
    by (simp add: StorageItem_Serialization_def [abs_def] StorageItem_enc_def WriteByte_def)
  fix s r assume wf: "wf_src s" and s: "rest s = StorageItem_enc it @ r"
  have b: "NextByte s = Ok ((StateVersion it, False), advance 1 s)"
    using NextByte_within [OF wf] s by (simp add: StorageItem_enc_def)
  have "wf_src (advance 1 s)" "rest (advance 1 s) = varbytes_enc (item_Value it) @ r"
    using advance_prefix [OF wf, of "[StateVersion it]"] s by (simp_all add: StorageItem_enc_def)
  from b NextVarBytes_prefix [OF this]
  show "StorageItem_Deserialization s = Ok (it, advance (length (StorageItem_enc it)) s)"
    by (simp add: StorageItem_Deserialization_def StorageItem_enc_def advance_advance)
qed

interpretation arg_bytes: serializable EncodeVarBytes DecodeVarBytes varbytes_enc "\<lambda>_. True"
  by (rule serializable.intro)
    (simp_all add: EncodeVarBytes_def [abs_def] writer_WriteVarBytes DecodeVarBytes_prefix)

interpretation arg_string: serializable EncodeString DecodeString varbytes_enc "\<lambda>_. True"
  by (rule serializable.intro)
    (simp_all add: EncodeString_def [abs_def] writer_WriteVarBytes DecodeString_def NextString_def
      NextVarBytes_prefix)

interpretation arg_addr: serializable EncodeAddress DecodeAddress varbytes_enc "\<lambda>a. length a = 20"
  by (rule serializable.intro)
    (simp_all add: EncodeAddress_def [abs_def] writer_WriteVarBytes DecodeAddress_via
      DecodeVarBytes_prefix AddressParseFromBytes_def ADDR_LEN_def copy_slice_same)

definition VarUint_arg_enc :: "u64 \<Rightarrow> bytes" where
  "VarUint_arg_enc v = varbytes_enc (BigIntToNeoBytes (sint v))"

lemma length_arg_enc: "length (varbytes_enc b) \<le> length b + 9" "length (VarUint_arg_enc v) \<le> 18"
proof -
  show le: "length (varbytes_enc b) \<le> length b + 9" for b
    by (simp add: varbytes_enc_def varuint_enc_def)
  have "\<bar>sint v\<bar> < 256 ^ 8"
    using sint_greater_eq [of v] sint_less [of v] by (simp add: abs_less_iff)
  then have "length (BigIntToNeoBytes (sint v)) \<le> 9"
    using length_BigIntToNeoBytes [of "sint v" 8] by simp
  then show "length (VarUint_arg_enc v) \<le> 18"
    using le [of "BigIntToNeoBytes (sint v)"] by (simp add: VarUint_arg_enc_def)
qed

interpretation arg_uint: serializable EncodeVarUint DecodeVarUint VarUint_arg_enc
  "\<lambda>v. v < 0x8000000000000000"
  by (rule serializable.intro)
    (simp_all add: EncodeVarUint_def [abs_def] VarUint_arg_enc_def writer_WriteVarBytes
      DecodeVarUint_via DecodeVarBytes_prefix BigIntFromNeoBytes_twos twos_val_ToNeoBytes sint_small
      not_less)

interpretation ser_u64: serializable WriteUint64 DecodeUint64 "put_le 8" "\<lambda>_. True"
  by (rule serializable.intro) (simp_all add: writer_WriteUint DecodeUint64_def NextUint_prefix)

interpretation ser_u32: serializable WriteUint32 DecodeUint32 "put_le 4" "\<lambda>_. True"
  by (rule serializable.intro) (simp_all add: writer_WriteUint DecodeUint32_def NextUint_prefix)

interpretation ser_bool: serializable WriteBool DecodeBool "\<lambda>b. [if b then 1 else 0]" "\<lambda>_. True"
  by (rule serializable.intro)
    (auto simp: writer_WriteBool DecodeBool_def NextBool_def NextByte_within)

section \<open>Properties\<close>

text \<open>
  A contract value written to storage is read back unchanged: \<open>GenRawStorageItem\<close> returns bytes
  from which \<open>GetValueFromRawStorageItem\<close> recovers the value.
\<close>

theorem storage_item_roundtrip:
  assumes "length v + 32 \<le> sink_max"
  shows "\<exists>raw. GenRawStorageItem v = Ok raw \<and> GetValueFromRawStorageItem raw = Ok v"
proof -
  let ?it = "\<lparr>StateVersion = 0, item_Value = v\<rparr>"
  have "length (varuint_enc (of_nat (length v))) \<le> 9"
    by (simp add: varuint_enc_def)
  then have "length (StorageItem_enc ?it) + 8 \<le> sink_max"
    using assms by (simp add: StorageItem_enc_def varbytes_enc_def)
  from item.roundtrip [OF TrueI this] show ?thesis
    by (auto simp: GenRawStorageItem_def StorageItem_ToArray_def GetValueFromRawStorageItem_def)
qed

theorem storage_item_roundtrip_witness:
  "length ([1, 2, 3] :: bytes) + 32 \<le> sink_max
   \<and> (\<exists>raw. GenRawStorageItem [1, 2, 3] = Ok raw \<and> GetValueFromRawStorageItem raw = Ok [1, 2, 3])"
  using storage_item_roundtrip [of "[1, 2, 3]"] by (simp add: sink_max_def)

text \<open>
  The integers among the arguments of a native contract: what \<open>EncodeVarUint\<close> writes,
  \<open>DecodeVarUint\<close> reads back when the value is below \<open>2^63\<close>; from there on the encoder's cast to
  \<open>int64\<close> makes the value negative and the decoder refuses it. It never returns another value.
\<close>

theorem arg_uint_roundtrip:
  "\<exists>raw s'. SerializeToBytes [EncodeVarUint v] = Ok raw
     \<and> DecodeVarUint (NewZeroCopySource raw)
         = (if v < 0x8000000000000000 then Ok (v, s')
            else Err ''value should not be a negative number.'')"
proof -
  let ?b = "BigIntToNeoBytes (sint v)"
  have len: "length (VarUint_arg_enc v) + 8 \<le> sink_max"
    using length_arg_enc(2) [of v] by (simp add: sink_max_def)
  obtain k where k: "EncodeVarUint v NewZeroCopySink = Ok k" "snk_buf k = VarUint_arg_enc v"
    using writer.to_fresh_sink [OF writer_WriteVarBytes, of ?b] len
    by (auto simp: EncodeVarUint_def VarUint_arg_enc_def snk_Bytes_def)
  have "wf_src (NewZeroCopySource (VarUint_arg_enc v))"
    using len by (intro wf_NewZeroCopySource) (simp add: maxInt_def sink_max_def)
  from DecodeVarBytes_prefix [OF this, of ?b "[]"]
  have "DecodeVarUint (NewZeroCopySource (VarUint_arg_enc v))
    = (if sint v < 0 then Err ''value should not be a negative number.''
       else Ok (v, advance (length (VarUint_arg_enc v)) (NewZeroCopySource (VarUint_arg_enc v))))"
    by (simp add: DecodeVarUint_via VarUint_arg_enc_def BigIntFromNeoBytes_twos twos_val_ToNeoBytes)
  then show ?thesis
    using k sint_neg_iff [of v] by (auto simp: SerializeToBytes_def snk_Bytes_def)
qed


text \<open>
  C24. The older compact integers: \<open>GetCompactUint\<close> recovers what \<open>SetCompactUint\<close> wrote for values
  of one byte below \<open>0xfd\<close> and for values that need eight bytes, and panics on every value between: it hands the two or four
  bytes of the shorter forms to \<open>binary.LittleEndian.Uint64\<close>, which needs eight. \<open>TestCompactUint\<close> of
  \<open>src/common/compact_unit_test.go\<close> expects the round trip of 1200000, a value on which the code panics.
\<close>

theorem compact_uint_roundtrip:
  "GetCompactUint (SetCompactUint v)
     = (if v < 0xfd then Ok (v, 1) else if v \<le> 0xffffffff then Panic else Ok (v, 9))"
proof -
  consider "v < 0xfd" | "\<not> v < 0xfd" "v \<le> 0xff" | "\<not> v \<le> 0xff" "v \<le> 0xffff"
    | "\<not> v \<le> 0xffff" "v \<le> 0xffffffff" | "\<not> v \<le> 0xffffffff" by (meson not_less)
  then show ?thesis
  proof cases
    case 2
    then have "v = 0xfd \<or> v = 0xfe \<or> v = 0xff"
      by (simp add: word_unat_eq_iff word_less_nat_alt word_le_nat_alt) linarith
    then show ?thesis
      by (auto simp: GetCompactUint_def SetCompactUint_def Uint64_of_slice_def)
  qed (auto simp: GetCompactUint_def SetCompactUint_def Uint64_of_slice_def Let_def ucast_small
        word_less_nat_alt word_le_nat_alt)
qed

end
