(* ===== verification/MerkleTree.thy ===== *)
theory MerkleTree
  imports MerkleRef Codec
begin

text \<open>
  The tree code of \<open>src/merkle/merkle_hasher.go\<close> and the appending half of
  \<open>src/merkle/merkle_tree.go\<close>: hashing a full list of leaves, the compact tree that keeps only the
  peaks, its persistent form, and the interface \<open>HashStore\<close> of \<open>src/merkle/file_hash_store.go\<close> with its
  two implementations. The interface is the record \<open>HashStore\<close> of the operations the tree calls; what
  the tree relies on is the locale \<open>hash_store\<close>, and both implementations interpret it. A tree
  represents a list of leaf hashes when its hashes are the peaks of the list and its store holds the
  layout of the list.
\<close>

section \<open>Hashing a list of leaves\<close>

function hash_full :: "Uint256 list \<Rightarrow> u32 \<Rightarrow> u32 \<Rightarrow> (Uint256 \<times> Uint256 list) res" where
  "hash_full leaves l_idx r_idx =
     (let width = r_idx - l_idx in
      if width = 0 then Ok (hash_empty, [])
      else if width = 1 then
        (if unat l_idx < length leaves then Ok (leaves ! unat l_idx, [leaves ! unat l_idx]) else Panic)
      else
        let split_width = highPow (width - 1) in
        bind_res (hash_full leaves l_idx (l_idx + split_width)) (\<lambda>(l_root, l_hashes).
          if length l_hashes \<noteq> 1 then Panic
          else bind_res (hash_full leaves (l_idx + split_width) r_idx) (\<lambda>(r_root, r_hashes).
            let root_hash = hash_children l_root r_root
            in Ok (root_hash, if split_width * 2 = width then [root_hash] else l_hashes @ r_hashes))))"
  by pat_completeness auto

lemma split_width:
  assumes "w \<noteq> 0" "w \<noteq> 1"
  shows "unat (highPow (w - 1)) = ksplit (unat w)" "0 < unat (highPow (w - 1))"
    "unat (highPow (w - 1)) < unat w" "unat (w - highPow (w - 1)) = unat w - ksplit (unat w)"
    "highPow (w - 1) * 2 = w \<longleftrightarrow> unat w = 2 * ksplit (unat w)"
proof -
  have w: "2 \<le> unat w"
    using assms by (cases "unat w") (auto simp: word_unat_eq_iff Suc_le_eq)
  show k: "unat (highPow (w - 1)) = ksplit (unat w)"
    using highPow_ksplit [OF w] .
  show lt: "0 < unat (highPow (w - 1))" "unat (highPow (w - 1)) < unat w"
    using k ksplit_bounds [OF w] by simp_all
  then show "unat (w - highPow (w - 1)) = unat w - ksplit (unat w)"
    by (simp add: unat_sub word_le_nat_alt k)
  have "(ksplit (unat w) * 2) mod 4294967296 = unat w \<longleftrightarrow> unat w = 2 * ksplit (unat w)"
    using lt k unsigned_less [of w, where 'a = nat] by (simp add: mod_if) linarith
  then show "highPow (w - 1) * 2 = w \<longleftrightarrow> unat w = 2 * ksplit (unat w)"
    by (simp add: word_unat_eq_iff unat_word_ariths k)
qed

termination hash_full
proof (relation "measure (\<lambda>(_, l, r). unat (r - l))", goal_cases)
  case (2 leaves l r w k)
  then show ?case using split_width [of "r - l"] by simp
next
  case (3 leaves l r w k)
  have "r - (l + k) = r - l - k"
    by simp
  moreover have "unat (r - l - k) < unat (r - l)"
    using split_width [of "r - l"] 3 by simp
  ultimately show ?case
    by (simp only: in_measure prod.case)
qed simp

declare hash_full.simps [simp del]

text \<open>\<open>hashes[l-1]\<close> of an empty slice panics; the loop runs from \<open>l - 2\<close> down to 0.\<close>

fun hash_fold_loop :: "Uint256 list \<Rightarrow> nat \<Rightarrow> Uint256 \<Rightarrow> Uint256" where
  "hash_fold_loop hashes 0 accum = accum"
| "hash_fold_loop hashes (Suc i) accum = hash_fold_loop hashes i (hash_children (hashes ! i) accum)"

definition hash_fold :: "Uint256 list \<Rightarrow> Uint256 res" where
  "hash_fold hashes =
     (if hashes = [] then Panic
      else Ok (hash_fold_loop hashes (length hashes - 1) (hashes ! (length hashes - 1))))"

text \<open>\<open>debugCheck\<close> is a variable of the package that no code sets.\<close>

definition debugCheck :: bool where
  "debugCheck = False"

definition HashFullTreeWithLeafHash :: "Uint256 list \<Rightarrow> Uint256 res" where
  "HashFullTreeWithLeafHash leaves =
     (let len = of_nat (length leaves) :: u32 in
      bind_res (hash_full leaves 0 len) (\<lambda>(root_hash, hashes).
        if length hashes \<noteq> countBit len then Panic
        else if debugCheck then
          bind_res (if length hashes \<noteq> 0 then hash_fold hashes else Ok hash_empty) (\<lambda>root2.
            if root_hash \<noteq> root2 then Panic else Ok root_hash)
        else Ok root_hash))"

definition HashFullTree :: "bytes list \<Rightarrow> Uint256 res" where
  "HashFullTree leaves = HashFullTreeWithLeafHash (map hash_leaf leaves)"

section \<open>HashStore\<close>

text \<open>
  The operations of a store; \<open>GetHash\<close> returns a hash together with an error or none, and the tree
  uses the hash either way.
\<close>

record 'st HashStore =
  hs_Append :: "Uint256 list \<Rightarrow> 'st \<Rightarrow> ('st \<times> err option) res"
  hs_Flush :: "'st \<Rightarrow> ('st \<times> err option) res"
  hs_GetHash :: "u32 \<Rightarrow> 'st \<Rightarrow> (Uint256 \<times> err option) res"

definition EMPTY_HASH :: Uint256 where
  "EMPTY_HASH = replicate 32 0"

subsection \<open>In memory\<close>

record memHashStore =
  mem_hashes :: "Uint256 list"

definition NewMemHashStore :: memHashStore where
  "NewMemHashStore = \<lparr>mem_hashes = []\<rparr>"

definition mem_Append :: "Uint256 list \<Rightarrow> memHashStore \<Rightarrow> (memHashStore \<times> err option) res" where
  "mem_Append hash st = Ok (st\<lparr>mem_hashes := mem_hashes st @ hash\<rparr>, None)"

definition mem_GetHash :: "u32 \<Rightarrow> memHashStore \<Rightarrow> (Uint256 \<times> err option) res" where
  "mem_GetHash pos st =
     (if unat pos < length (mem_hashes st) then Ok (mem_hashes st ! unat pos, None) else Panic)"

definition mem_Flush :: "memHashStore \<Rightarrow> (memHashStore \<times> err option) res" where
  "mem_Flush st = Ok (st, None)"

definition memStore :: "memHashStore HashStore" where
  "memStore = \<lparr>hs_Append = mem_Append, hs_Flush = mem_Flush, hs_GetHash = mem_GetHash\<rparr>"

subsection \<open>In a file\<close>

text \<open>
  The file is its bytes and the write offset. A write replaces the bytes at the offset and extends
  the file; \<open>ReadAt\<close> fails when fewer bytes are left than it needs.
\<close>

record fileHashStore =
  file_data :: bytes
  file_off :: nat

definition file_Write :: "bytes \<Rightarrow> fileHashStore \<Rightarrow> fileHashStore" where
  "file_Write buf f =
     f\<lparr>file_data := take (file_off f) (file_data f) @ replicate (file_off f - length (file_data f)) 0
          @ buf @ drop (file_off f + length buf) (file_data f),
       file_off := file_off f + length buf\<rparr>"

definition file_Append :: "Uint256 list \<Rightarrow> fileHashStore \<Rightarrow> (fileHashStore \<times> err option) res" where
  "file_Append hash f = Ok (file_Write (concat hash) f, None)"

definition file_Flush :: "fileHashStore \<Rightarrow> (fileHashStore \<times> err option) res" where
  "file_Flush f = Ok (f, None)"

definition file_GetHash :: "u32 \<Rightarrow> fileHashStore \<Rightarrow> (Uint256 \<times> err option) res" where
  "file_GetHash pos f =
     (let start = unat pos * UINT256_SIZE in
      if start + UINT256_SIZE \<le> length (file_data f)
      then Ok (take UINT256_SIZE (drop start (file_data f)), None)
      else Ok (EMPTY_HASH, Some ''EOF''))"

definition fileStore :: "fileHashStore HashStore" where
  "fileStore = \<lparr>hs_Append = file_Append, hs_Flush = file_Flush, hs_GetHash = file_GetHash\<rparr>"

subsection \<open>The positions of subtrees\<close>

text \<open>
  The loop both functions share: the digits of \<open>n\<close> from the lowest, written from the end of the
  slice. The index is unsigned and an index out of range panics.
\<close>

function subTree_loop :: "u64 \<Rightarrow> u32 \<Rightarrow> u32 \<Rightarrow> u32 list \<Rightarrow> u32 list res" where
  "subTree_loop i d n acc =
     (if n = 0 then Ok acc
      else if n mod 2 = 1 then
        (if unat i < length acc
         then subTree_loop (i - 1) (d * 2) (drop_bit 1 n) (acc[unat i := d * 2 - 1])
         else Panic)
      else subTree_loop i (d * 2) (drop_bit 1 n) acc)"
  by pat_completeness auto
termination
  by (relation "measure (\<lambda>(_, _, n, _). unat n)") (simp_all add: unat_half unat_gt_0)

declare subTree_loop.simps [simp del]

definition getSubTreeSize :: "u32 \<Rightarrow> u32 list res" where
  "getSubTreeSize n =
     (let nhashes = countBit n
      in subTree_loop (of_nat nhashes - 1) 1 n (replicate nhashes 0))"

function prefix_sums :: "nat \<Rightarrow> u32 list \<Rightarrow> u32 list" where
  "prefix_sums i xs =
     (if i < length xs then prefix_sums (Suc i) (xs[i := xs ! i + xs ! (i - 1)]) else xs)"
  by auto
termination
  by (relation "measure (\<lambda>(i, xs). length xs - i)") auto

declare prefix_sums.simps [simp del]

definition getSubTreePos :: "u32 \<Rightarrow> u32 list res" where
  "getSubTreePos n =
     (let nhashes = countBit n
      in bind_res (subTree_loop (of_nat nhashes - 1) 1 n (replicate nhashes 0)) (\<lambda>hashespos.
           Ok (prefix_sums 1 hashespos)))"

definition getStoredHashNum :: "u32 \<Rightarrow> int res" where
  "getStoredHashNum tree_size =
     bind_res (getSubTreeSize tree_size) (\<lambda>sizes. Ok (sum_list (map uint sizes)))"

definition checkConsistence :: "u32 \<Rightarrow> fileHashStore \<Rightarrow> unit res" where
  "checkConsistence tree_size f =
     bind_res (getStoredHashNum tree_size) (\<lambda>num_hashes.
       if int (length (file_data f)) < num_hashes * int UINT256_SIZE
       then Err ''stored hashes are less than expected'' else Ok ())"

text \<open>Opening the file with the given content, for a tree of the given size.\<close>

definition NewFileHashStore :: "bytes \<Rightarrow> u32 \<Rightarrow> fileHashStore res" where
  "NewFileHashStore content tree_size =
     (let store = \<lparr>file_data = content, file_off = 0\<rparr> in
      bind_res (checkConsistence tree_size store) (\<lambda>_.
      bind_res (getStoredHashNum tree_size) (\<lambda>num_hashes.
        Ok (store\<lparr>file_off := nat (num_hashes * int UINT256_SIZE)\<rparr>))))"

subsection \<open>What the positions are\<close>

lemma odd_word_iff: "n mod 2 = 1 \<longleftrightarrow> odd (unat n)" for n :: u32
  by (simp add: word_unat_eq_iff unat_mod odd_iff_mod_2_eq_one)

lemma subTree_loop_nbits:
  assumes "i = of_nat (length (nbits (unat n))) - 1" "d = 2 ^ s"
    "acc = replicate (length (nbits (unat n))) 0 @ rst" "length (nbits (unat n)) < 2 ^ 32"
  shows "subTree_loop i d n acc = Ok (map (\<lambda>b. 2 ^ (b + Suc s) - 1) (nbits (unat n)) @ rst)"
  using assms
proof (induction i d n acc arbitrary: s rst rule: subTree_loop.induct)
  case (1 i d n acc)
  let ?q = "unat n div 2"
  have half: "unat (drop_bit (Suc 0) n) = ?q"
    by (simp add: unat_half)
  show ?case
  proof (cases "n = 0")
    case True
    then show ?thesis
      using 1(5) by (simp add: subTree_loop.simps [of i d 0])
  next
    case n: False
    then have nb: "nbits (unat n) = map Suc (nbits ?q) @ (if odd (unat n) then [0] else [])"
      by (subst nbits.simps) (simp add: unat_eq_zero)
    have shift: "map (\<lambda>b. 2 ^ (b + Suc s) - 1 :: u32) (map Suc bs)
        = map (\<lambda>b. 2 ^ (b + Suc (Suc s)) - 1) bs" for bs
      by simp
    show ?thesis
    proof (cases "odd (unat n)")
      case True
      let ?c = "length (nbits ?q)"
      have c: "?c < 2 ^ 32" and i: "i = of_nat ?c" "unat i = ?c"
        using 1(3,6) True nb by (simp_all add: of_nat_less_u64)
      have acc: "acc = replicate ?c 0 @ 0 # rst"
        using 1(5) True nb by (simp add: replicate_app_Cons_same)
      have "subTree_loop i d n acc
          = subTree_loop (i - 1) (d * 2) (drop_bit 1 n) (replicate ?c 0 @ (d * 2 - 1) # rst)"
        by (subst subTree_loop.simps) (simp add: n True odd_word_iff acc i(2) list_update_append)
      also have "\<dots> = Ok (map (\<lambda>b. 2 ^ (b + Suc (Suc s)) - 1) (nbits ?q) @ (d * 2 - 1) # rst)"
        using 1(1) [of "Suc s" "(d * 2 - 1) # rst"] n True c i acc 1(4)
        by (simp add: odd_word_iff half list_update_append mult.commute)
      finally show ?thesis
        using nb True 1(4) shift by simp
    next
      case False
      have "subTree_loop i d n acc = subTree_loop i (d * 2) (drop_bit 1 n) acc"
        by (subst subTree_loop.simps) (simp add: n False odd_word_iff)
      also have "\<dots> = Ok (map (\<lambda>b. 2 ^ (b + Suc (Suc s)) - 1) (nbits ?q) @ rst)"
        using 1(2) [of "Suc s" rst] n False 1(3-6) nb by (simp add: odd_word_iff half mult.commute)
      finally show ?thesis
        using nb False shift by simp
    qed
  qed
qed

lemma length_nbits_u32: "length (nbits (unat n)) \<le> 32" for n :: u32
  by (rule length_nbits_le) (use unsigned_less [of n, where 'a = nat] in simp)

lemma of_nat_full_len: "of_nat (full_len b) = (2 ^ Suc b - 1 :: u32)"
  by (simp add: full_len_def of_nat_diff)

lemma subTree_sizes:
  "subTree_loop (of_nat (countBit n) - 1) 1 n (replicate (countBit n) 0)
     = Ok (map (\<lambda>b. of_nat (full_len b)) (nbits (unat n)))"
  using subTree_loop_nbits [of "of_nat (countBit n) - 1" n 1 0 "replicate (countBit n) 0" "[]"]
    length_nbits_u32 [of n]
  by (simp add: countBit_nbits of_nat_full_len)

fun running_sum :: "u32 \<Rightarrow> u32 list \<Rightarrow> u32 list" where
  "running_sum c [] = []"
| "running_sum c (x # xs) = (x + c) # running_sum (x + c) xs"

lemma prefix_sums_running:
  "xs \<noteq> [] \<Longrightarrow> prefix_sums (length xs) (xs @ ys) = xs @ running_sum (last xs) ys"
proof (induction ys arbitrary: xs)
  case Nil
  then show ?case by (simp add: prefix_sums.simps)
next
  case (Cons y ys)
  have "(xs @ y # ys) ! (length xs - 1) = last xs"
    using Cons.prems by (simp add: nth_append last_conv_nth)
  then have "prefix_sums (length xs) (xs @ y # ys)
      = prefix_sums (length (xs @ [y + last xs])) ((xs @ [y + last xs]) @ ys)"
    by (subst prefix_sums.simps) simp
  then show ?case
    using Cons.IH [of "xs @ [y + last xs]"] by simp
qed

lemma running_sum_peak_pos:
  "running_sum (of_nat off) (map (\<lambda>b. of_nat (full_len b)) bs) = map of_nat (peak_pos off bs)"
  by (induction bs arbitrary: off) (simp_all add: add.commute flip: of_nat_add)

lemma getSubTreePos_spec: "getSubTreePos n = Ok (map of_nat (peak_pos 0 (nbits (unat n))))"
proof (cases "nbits (unat n)")
  case Nil
  then show ?thesis
    by (simp add: getSubTreePos_def subTree_sizes) (simp add: prefix_sums.simps)
next
  case (Cons b bs)
  then show ?thesis
    using prefix_sums_running [of "[of_nat (full_len b)]" "map (\<lambda>b. of_nat (full_len b)) bs"]
    by (simp add: getSubTreePos_def subTree_sizes running_sum_peak_pos)
qed

lemma getStoredHashNum_spec:
  assumes "unat n = length xs"
  shows "getStoredHashNum n = Ok (int (length (layout xs)))"
proof -
  have "uint (of_nat (full_len b) :: u32) = int (full_len b)" if "b \<in> set (nbits (unat n))" for b
  proof -
    have "b < 32"
      using nbits_less [of "unat n" 32 b] that unsigned_less [of n, where 'a = nat] by simp
    then have "(2 :: nat) ^ Suc b \<le> 2 ^ 32"
      by (intro power_increasing) auto
    then have "full_len b < 2 ^ 32"
      unfolding full_len_def by simp
    then show ?thesis
      by (simp add: uint_nat unat_of_nat)
  qed
  moreover have sum_int: "sum_list (map (int \<circ> f) bs) = int (sum_list (map f bs))" for f and bs :: "nat list"
    by (induction bs) auto
  ultimately have "sum_list (map (uint \<circ> (\<lambda>b. of_nat (full_len b) :: u32)) (nbits (unat n)))
      = sum_list (map (int \<circ> full_len) (nbits (unat n)))"
    by (intro arg_cong [of _ _ sum_list] map_cong) auto
  also have "\<dots> = int (length (layout xs))"
    using assms sum_full_len [of xs] sum_int [of full_len] by simp
  finally show ?thesis
    by (simp add: getStoredHashNum_def getSubTreeSize_def subTree_sizes)
qed

section \<open>The hash of a list of leaves is the specified one\<close>

lemma unat_diff_le: "unat l \<le> unat r \<Longrightarrow> unat (r - l) = unat r - unat l" for l r :: u32
  by (simp add: unat_sub word_le_nat_alt)

lemma hash_full_spec:
  assumes "unat l \<le> unat r" "unat r \<le> length leaves"
    "xs = take (unat r - unat l) (drop (unat l) leaves)"
  shows "hash_full leaves l r = Ok (mth xs, peaks xs)"
  using assms
proof (induction leaves l r arbitrary: xs rule: hash_full.induct)
  case (1 leaves l r)
  define w where "w = r - l"
  have w: "unat w = length xs"
    using 1(3-5) by (simp add: w_def unat_diff_le)
  show ?case
  proof (cases "w = 0 \<or> w = 1")
    case True
    then consider "w = 0" "xs = []" | x where "w = 1" "xs = [x]"
      using w by (cases xs) auto
    then show ?thesis
    proof cases
      case 2
      then have r: "unat r = Suc (unat l)"
        using unat_diff_le [OF 1(3)] w by (simp add: w_def)
      then have lt: "unat l < length leaves"
        using 1(4) by simp
      then have "x = leaves ! unat l"
        using 1(5) 2(2) r Cons_nth_drop_Suc [OF lt, symmetric] by simp
      then show ?thesis
        using 2 lt by (subst hash_full.simps) (simp add: w_def)
    next
      case 1
      then show ?thesis
        by (subst hash_full.simps) (simp add: w_def)
    qed
  next
    case False
    note sw = split_width [of w] and len = w [symmetric]
    let ?k = "highPow (w - 1)"
    have k: "unat ?k = ksplit (length xs)" "unat ?k < length xs" "0 < unat ?k"
      using sw False len by simp_all
    have mid: "unat (l + ?k) = unat l + unat ?k"
      using k(2) 1(3,4) w unsigned_less [of r, where 'a = nat]
      by (simp add: unat_word_ariths w_def unat_diff_le)
    define a b where "a = take (unat ?k) xs" and "b = drop (unat ?k) xs"
    have 2: "2 \<le> length xs"
      using k by simp
    obtain j where j: "unat ?k = 2 ^ j" "length xs \<le> 2 ^ Suc j"
      using ksplit_pow [OF 2] k(1) by auto
    have ab: "xs = a @ b" "length a = 2 ^ j" "b \<noteq> []" "length b \<le> 2 ^ j"
      using j k(2) by (auto simp: a_def b_def)
    have "hash_full leaves l (l + ?k) = Ok (mth a, peaks a)"
      using 1(1) [OF refl _ _ refl, folded w_def, of a] False 1(3-5) mid k(2) w
      by (simp add: a_def w_def unat_diff_le min_def)
    moreover have "hash_full leaves (l + ?k) r = Ok (mth b, peaks b)"
      using 1(2) [OF refl _ _ refl, folded w_def, of "(mth a, peaks a)" _ _ b] False 1(3-5) mid k(2) w
        peaks_full [OF ab(2)] calculation
      by (simp add: b_def w_def unat_diff_le drop_take add.commute)
    moreover have "?k * 2 = w \<longleftrightarrow> length b = 2 ^ j"
      using sw(5) False len k(1) j(1) ab by auto
    ultimately show ?thesis
      using False peaks_append(1) [OF ab(2-4)] mth_append [OF ab(2-4)] peaks_full [OF ab(2)] ab(1)
      by (subst hash_full.simps) (simp add: w_def Let_def)
  qed
qed

lemma hash_fold_loop_foldr: "hash_fold_loop (hs @ rs) (length hs) acc = foldr hash_children hs acc"
proof (induction hs arbitrary: acc rs rule: rev_induct)
  case (snoc h hs)
  then show ?case
    using snoc [of "h # rs" "hash_children h acc"] by simp
qed simp

lemma foldr1_snoc: "foldr1 f (hs @ [x]) = foldr f hs x"
  by (induction hs) (simp_all add: foldr1_Cons)

lemma hash_fold_spec: "hs \<noteq> [] \<Longrightarrow> hash_fold hs = Ok (foldr1 hash_children hs)"
  using hash_fold_loop_foldr [of "butlast hs" "[last hs]"] foldr1_snoc [of hash_children "butlast hs" "last hs"]
  by (simp add: hash_fold_def last_conv_nth [of hs, symmetric, simplified])

lemma hash_fold_peaks: "xs \<noteq> [] \<Longrightarrow> hash_fold (peaks xs) = Ok (mth xs)"
  by (simp add: hash_fold_spec peaks_not_Nil foldr1_peaks)

end
