(* ===== verification/CompactTree.thy ===== *)
theory CompactTree
  imports MerkleTree
begin

text \<open>
  \<open>CompactMerkleTree\<close> of \<open>src/merkle/merkle_tree.go\<close>. The hash store is the record of operations of
  the interface together with a state; a nil store is \<open>None\<close>. \<open>hash_store\<close> is what the tree relies
  on, and the lemmas on appending are proved once from it.
\<close>

section \<open>The contract of a hash store\<close>

locale hash_store =
  fixes ops :: "'st HashStore" and rep :: "'st \<Rightarrow> Uint256 list \<Rightarrow> bool"
  assumes Append: "rep st hs \<Longrightarrow> \<forall>h\<in>set new. length h = 32 \<Longrightarrow>
      \<exists>st'. hs_Append ops new st = Ok (st', None) \<and> rep st' (hs @ new)"
    and Flush: "rep st hs \<Longrightarrow> \<exists>st'. hs_Flush ops st = Ok (st', None) \<and> rep st' hs"
    and GetHash: "rep st hs \<Longrightarrow> unat pos < length hs \<Longrightarrow> hs_GetHash ops pos st = Ok (hs ! unat pos, None)"

definition mem_rep :: "memHashStore \<Rightarrow> Uint256 list \<Rightarrow> bool" where
  "mem_rep st hs \<longleftrightarrow> mem_hashes st = hs"

interpretation mem_store: hash_store memStore mem_rep
  by unfold_locales (simp_all add: memStore_def mem_rep_def mem_Append_def mem_Flush_def mem_GetHash_def)

text \<open>A file may hold more than the hashes it stands for: what was written beyond the write offset.\<close>

definition file_rep :: "fileHashStore \<Rightarrow> Uint256 list \<Rightarrow> bool" where
  "file_rep f hs \<longleftrightarrow> (\<forall>h\<in>set hs. length h = 32) \<and> file_off f = 32 * length hs
     \<and> file_off f \<le> length (file_data f) \<and> take (file_off f) (file_data f) = concat hs"

lemma length_concat_32: "\<forall>h\<in>set hs. length h = n \<Longrightarrow> length (concat hs) = n * length hs"
  by (induction hs) auto

lemma drop_concat_32:
  "\<forall>h\<in>set hs. length h = n \<Longrightarrow> i < length hs \<Longrightarrow> take n (drop (i * n) (concat hs @ r)) = hs ! i"
proof (induction hs arbitrary: i)
  case (Cons h hs)
  then show ?case by (cases i) auto
qed simp

interpretation file_store: hash_store fileStore file_rep
proof
  fix f hs and new :: "Uint256 list" assume f: "file_rep f hs" and new: "\<forall>h\<in>set new. length h = 32"
  have "take (file_off f) (file_data f) = concat hs" "length (concat new) = 32 * length new"
    "length (concat hs) = file_off f"
    using f new length_concat_32 [of hs 32] length_concat_32 [of new 32] by (auto simp: file_rep_def)
  then show "\<exists>st'. hs_Append fileStore new f = Ok (st', None) \<and> file_rep st' (hs @ new)"
    using f new by (auto simp: fileStore_def file_Append_def file_Write_def file_rep_def)
next
  fix f hs assume "file_rep f hs"
  then show "\<exists>st'. hs_Flush fileStore f = Ok (st', None) \<and> file_rep st' hs"
    by (simp add: fileStore_def file_Flush_def)
next
  fix f hs fix pos :: u32 assume f: "file_rep f hs" and pos: "unat pos < length hs"
  have d: "file_data f = concat hs @ drop (file_off f) (file_data f)"
    using f by (metis append_take_drop_id file_rep_def)
  have "take 32 (drop (unat pos * 32) (file_data f)) = hs ! unat pos"
    using f pos by (subst d) (rule drop_concat_32, auto simp: file_rep_def)
  moreover have "unat pos * 32 + 32 \<le> length (file_data f)"
    using f pos by (auto simp: file_rep_def)
  ultimately show "hs_GetHash fileStore pos f = Ok (hs ! unat pos, None)"
    by (simp add: fileStore_def file_GetHash_def UINT256_SIZE_def)
qed

section \<open>The compact tree\<close>

record 'st CompactMerkleTree =
  mintree_h :: nat
  tree_hashes :: "Uint256 list"
  hashStore :: "'st option"
  rootHash :: Uint256
  treeSize :: u32

definition tree_update :: "u32 \<Rightarrow> Uint256 list \<Rightarrow> 'st CompactMerkleTree \<Rightarrow> 'st CompactMerkleTree res" where
  "tree_update tree_size hashes t =
     (let numBit = countBit tree_size in
      if length hashes \<noteq> numBit then Panic
      else Ok (t\<lparr>treeSize := tree_size, tree_hashes := hashes, mintree_h := lowBit tree_size,
                 rootHash := EMPTY_HASH\<rparr>))"

definition NewTree :: "u32 \<Rightarrow> Uint256 list \<Rightarrow> 'st option \<Rightarrow> 'st CompactMerkleTree res" where
  "NewTree tree_size hashes store =
     tree_update tree_size hashes
       \<lparr>mintree_h = 0, tree_hashes = [], hashStore = store, rootHash = EMPTY_HASH, treeSize = 0\<rparr>"

definition tree_Marshal :: "'st CompactMerkleTree \<Rightarrow> bytes" where
  "tree_Marshal t = put_be 4 (treeSize t) @ concat (tree_hashes t)"

definition tree_UnMarshal :: "bytes \<Rightarrow> 'st CompactMerkleTree \<Rightarrow> 'st CompactMerkleTree res" where
  "tree_UnMarshal buf t =
     (if length buf < 4 then Panic
      else
        let tree_size = get_be (take 4 buf); nhashes = countBit tree_size in
        if length buf < 4 + nhashes * UINT256_SIZE then Err ''Too short input buf length''
        else
          let hashes = map (\<lambda>i. copy_slice (replicate UINT256_SIZE 0) (drop (4 + i * UINT256_SIZE) buf))
                         [0..<nhashes]
          in tree_update tree_size hashes t)"

text \<open>\<open>Root\<close> caches its result; the zero hash stands for no cached root.\<close>

definition tree_Root :: "'st CompactMerkleTree \<Rightarrow> (Uint256 \<times> 'st CompactMerkleTree) res" where
  "tree_Root t =
     (if rootHash t = EMPTY_HASH then
        bind_res (if length (tree_hashes t) \<noteq> 0 then hash_fold (tree_hashes t) else Ok hash_empty)
          (\<lambda>r. Ok (r, t\<lparr>rootHash := r\<rparr>))
      else Ok (rootHash t, t))"

definition GetRootWithNewLeaf :: "Uint256 \<Rightarrow> 'st CompactMerkleTree \<Rightarrow> Uint256 res" where
  "GetRootWithNewLeaf newLeaf t = hash_fold (tree_hashes t @ [newLeaf])"

definition cloneMem :: "'st CompactMerkleTree \<Rightarrow> 'st CompactMerkleTree" where
  "cloneMem t = t\<lparr>hashStore := None\<rparr>"

text \<open>
  The loop of \<open>AppendHash\<close>: \<open>s\<close> is shifted while it is odd; the last of the remaining \<open>size\<close> hashes is
  the left half of the subtree that is complete now. It returns \<open>mintree_h\<close>, \<open>size\<close>, \<open>leaf\<close> and
  \<open>storehashes\<close>.
\<close>

function append_loop ::
  "Uint256 list \<Rightarrow> u32 \<Rightarrow> nat \<Rightarrow> nat \<Rightarrow> Uint256 \<Rightarrow> Uint256 list \<Rightarrow> (nat \<times> nat \<times> Uint256 \<times> Uint256 list) res"
where
  "append_loop hashes s mh sz leaf stored =
     (if s mod 2 = 1 then
        (if sz = 0 \<or> length hashes < sz then Panic
         else append_loop hashes (drop_bit 1 s) (mh + 1) (sz - 1)
                (hash_children (hashes ! (sz - 1)) leaf)
                (stored @ [hash_children (hashes ! (sz - 1)) leaf]))
      else Ok (mh, sz, leaf, stored))"
  by pat_completeness auto
termination
proof (relation "measure (\<lambda>(_, s, _). unat s)", goal_cases)
  case (2 hashes s mh sz leaf stored)
  then have "0 < unat s"
    by (cases "unat s") (auto simp: odd_word_iff)
  then show ?case
    by (simp add: unat_half)
qed simp

declare append_loop.simps [simp del]

definition AppendHash ::
  "'st HashStore \<Rightarrow> Uint256 \<Rightarrow> 'st CompactMerkleTree \<Rightarrow> (Uint256 list \<times> 'st CompactMerkleTree) res" where
  "AppendHash ops leaf0 t =
     (let auditPath = rev (tree_hashes t) in
      bind_res (append_loop (tree_hashes t) (treeSize t) 1 (length (tree_hashes t)) leaf0 [leaf0])
        (\<lambda>(mh, sz, leaf, storehashes).
      bind_res (case hashStore t of None \<Rightarrow> Ok None
                | Some st \<Rightarrow> bind_res (hs_Append ops storehashes st) (\<lambda>(st1, _).
                             bind_res (hs_Flush ops st1) (\<lambda>(st2, _). Ok (Some st2))))
        (\<lambda>store.
      Ok (auditPath,
          t\<lparr>mintree_h := mh, hashStore := store, treeSize := treeSize t + 1,
            tree_hashes := take sz (tree_hashes t) @ [leaf], rootHash := EMPTY_HASH\<rparr>))))"

definition tree_Append ::
  "'st HashStore \<Rightarrow> bytes \<Rightarrow> 'st CompactMerkleTree \<Rightarrow> (Uint256 list \<times> 'st CompactMerkleTree) res" where
  "tree_Append ops leafv t = AppendHash ops (hash_leaf leafv) t"

fun append_all ::
  "'st HashStore \<Rightarrow> Uint256 list \<Rightarrow> 'st CompactMerkleTree \<Rightarrow> 'st CompactMerkleTree res" where
  "append_all ops [] t = Ok t"
| "append_all ops (h # hs) t = bind_res (AppendHash ops h t) (\<lambda>(_, t'). append_all ops hs t')"

definition GetRootWithNewLeaves :: "'st HashStore \<Rightarrow> Uint256 list \<Rightarrow> 'st CompactMerkleTree \<Rightarrow> Uint256 res" where
  "GetRootWithNewLeaves ops newLeaf t =
     bind_res (append_all ops newLeaf (cloneMem t)) (\<lambda>t'.
     bind_res (tree_Root t') (\<lambda>(r, _). Ok r))"

section \<open>What a tree represents\<close>

definition tree_rep :: "('st \<Rightarrow> Uint256 list \<Rightarrow> bool) \<Rightarrow> 'st CompactMerkleTree \<Rightarrow> Uint256 list \<Rightarrow> bool" where
  "tree_rep rep t xs \<longleftrightarrow>
     unat (treeSize t) = length xs \<and> tree_hashes t = peaks xs \<and> (\<forall>x\<in>set xs. length x = 32)
     \<and> (rootHash t = EMPTY_HASH \<or> rootHash t = mth xs)
     \<and> (\<forall>st. hashStore t = Some st \<longrightarrow> rep st (layout xs))"

lemma append_loop_spec:
  assumes "unat s = length ys" "sz = length (peaks ys)" "take sz hashes = peaks ys" "sz \<le> length hashes"
  shows "\<exists>mh' sz' leaf'. append_loop hashes s mh sz leaf stored
      = Ok (mh', sz', leaf', stored @ List.tl (carry ys leaf))
    \<and> take sz' hashes @ [leaf'] = peaks (ys @ [leaf]) \<and> sz' \<le> length hashes"
  using assms
proof (induction ys leaf arbitrary: s mh sz stored rule: carry.induct)
  case (1 ys leaf)
  show ?case
  proof (cases "even (length ys)")
    case True
    then show ?thesis
      using 1(2-5) by (subst append_loop.simps) (simp add: odd_word_iff carry_even peaks_snoc_even)
  next
    case False
    then obtain zs z where ys: "ys = zs @ [z]" and zs: "even (length zs)"
      using odd_snoc by blast
    have p: "peaks ys = peaks (pairup zs) @ [z]"
      using ys zs by (simp add: peaks_snoc_even peaks_pairup)
    have sz: "sz = Suc (length (peaks (pairup zs)))"
      using 1(3) p by simp
    have z: "hashes ! (sz - 1) = z" "take (sz - 1) hashes = peaks (pairup zs)"
      using 1(4,5) p sz by (metis diff_Suc_1 lessI nth_append_length nth_take,
        metis append_eq_append_conv butlast_snoc butlast_take diff_Suc_1)
    let ?l = "hash_children z leaf"
    have half: "unat (drop_bit (Suc 0) s) = length (pairup zs)"
      using 1(2) ys zs by (simp add: unat_half length_pairup)
    have "\<exists>mh' sz' leaf'. append_loop hashes (drop_bit 1 s) (mh + 1) (sz - 1) ?l (stored @ [?l])
        = Ok (mh', sz', leaf', (stored @ [?l]) @ List.tl (carry (pairup zs) ?l))
      \<and> take sz' hashes @ [leaf'] = peaks (pairup zs @ [?l]) \<and> sz' \<le> length hashes"
      using 1(1) [of "drop_bit 1 s" "sz - 1" "mh + 1" "stored @ [?l]"] False ys half sz z(2) 1(5) by simp
    moreover have "append_loop hashes s mh sz leaf stored
        = append_loop hashes (drop_bit 1 s) (mh + 1) (sz - 1) ?l (stored @ [?l])"
      using False 1(2,5) sz z(1) by (subst append_loop.simps) (simp add: odd_word_iff)
    moreover have "carry ys leaf = leaf # carry (pairup zs) ?l" "carry (pairup zs) ?l = ?l # List.tl (carry (pairup zs) ?l)"
      using carry_odd [OF zs] ys by (auto simp: carry.simps [of "pairup zs"])
    moreover have "peaks (ys @ [leaf]) = peaks (pairup zs @ [?l])"
      using peaks_snoc_odd [OF zs] ys by simp
    ultimately show ?thesis
      by (metis append.assoc append_Cons append_Nil list.sel(3))
  qed
qed

lemma carry_32: "length l = 32 \<Longrightarrow> \<forall>h\<in>set (carry xs l). length h = 32"
  by (induction xs l rule: carry.induct) (subst carry.simps, auto)

context hash_store
begin

lemma AppendHash_rep:
  assumes t: "tree_rep rep t xs" and l: "length l = 32" and small: "length xs + 1 < 2 ^ 32"
  shows "\<exists>t'. AppendHash ops l t = Ok (rev (peaks xs), t') \<and> tree_rep rep t' (xs @ [l])
    \<and> (hashStore t' = None \<longleftrightarrow> hashStore t = None)"
proof -
  obtain mh sz leaf where loop: "append_loop (tree_hashes t) (treeSize t) 1 (length (tree_hashes t)) l [l]
      = Ok (mh, sz, leaf, carry xs l)" and peaks: "take sz (tree_hashes t) @ [leaf] = peaks (xs @ [l])"
    using append_loop_spec [of "treeSize t" xs "length (tree_hashes t)" "tree_hashes t" 1 l "[l]"] t
    by (auto simp: tree_rep_def carry.simps [of xs l])
  have size: "unat (treeSize t + 1) = length (xs @ [l])"
    using t small by (simp add: tree_rep_def unat_word_ariths)
  show ?thesis
  proof (cases "hashStore t")
    case None
    then show ?thesis
      using loop peaks size t l by (auto simp: AppendHash_def tree_rep_def)
  next
    case (Some st)
    obtain st1 where st1: "hs_Append ops (carry xs l) st = Ok (st1, None)" "rep st1 (layout (xs @ [l]))"
      using Append [of st "layout xs" "carry xs l"] t Some carry_32 [OF l]
      by (auto simp: tree_rep_def layout_snoc)
    obtain st2 where "hs_Flush ops st1 = Ok (st2, None)" "rep st2 (layout (xs @ [l]))"
      using Flush [OF st1(2)] by blast
    then show ?thesis
      using loop peaks size t l st1(1) Some by (auto simp: AppendHash_def tree_rep_def)
  qed
qed

lemma append_all_rep:
  "tree_rep rep t xs \<Longrightarrow> \<forall>l\<in>set ls. length l = 32 \<Longrightarrow> length xs + length ls < 2 ^ 32 \<Longrightarrow>
   \<exists>t'. append_all ops ls t = Ok t' \<and> tree_rep rep t' (xs @ ls)
     \<and> (hashStore t' = None \<longleftrightarrow> hashStore t = None)"
proof (induction ls arbitrary: t xs)
  case (Cons l ls)
  then obtain t1 where t1: "AppendHash ops l t = Ok (rev (peaks xs), t1)" "tree_rep rep t1 (xs @ [l])"
    "hashStore t1 = None \<longleftrightarrow> hashStore t = None"
    using AppendHash_rep [of t xs l] by auto
  then show ?case
    using Cons.IH [of t1 "xs @ [l]"] Cons.prems by simp
qed simp

lemma NewTree_rep: "rep st [] \<Longrightarrow> \<exists>t. NewTree 0 [] (Some st) = Ok t \<and> tree_rep rep t [] \<and> hashStore t = Some st"
  by (simp add: NewTree_def tree_update_def countBit_nbits tree_rep_def)

text \<open>A tree grown from nothing.\<close>

lemma grown:
  assumes "rep st []" "\<forall>l\<in>set ls. length l = 32" "length ls < 2 ^ 32"
  shows "\<exists>t st'. bind_res (NewTree 0 [] (Some st)) (append_all ops ls) = Ok t \<and> tree_rep rep t ls
    \<and> hashStore t = Some st'"
proof -
  obtain t0 where t0: "NewTree 0 [] (Some st) = Ok t0" "tree_rep rep t0 []" "hashStore t0 = Some st"
    using NewTree_rep [OF assms(1)] by blast
  then show ?thesis
    using append_all_rep [OF t0(2) assms(2)] assms(3) by auto
qed

end

lemma tree_Root_rep:
  assumes "tree_rep rep t xs"
  shows "\<exists>t'. tree_Root t = Ok (mth xs, t') \<and> tree_rep rep t' xs"
proof (cases "rootHash t = EMPTY_HASH")
  case True
  have "(if length (tree_hashes t) \<noteq> 0 then hash_fold (tree_hashes t) else Ok hash_empty) = Ok (mth xs)"
    using assms hash_fold_peaks [of xs] peaks_not_Nil [of xs] by (cases "xs = []") (auto simp: tree_rep_def)
  then show ?thesis
    using assms True by (simp add: tree_Root_def tree_rep_def)
next
  case False
  then show ?thesis
    using assms by (auto simp: tree_Root_def tree_rep_def)
qed

text \<open>
  The root with one more leaf: folding the leaf into the peaks gives what appending it and folding
  the new peaks gives.
\<close>

lemma foldr1_peaks_snoc: "foldr1 hash_children (peaks xs @ [l]) = mth (xs @ [l])"
proof (induction xs l rule: carry.induct)
  case (1 xs l)
  show ?case
  proof (cases "even (length xs)")
    case True
    then show ?thesis
      using foldr1_peaks [of "xs @ [l]"] by (simp add: peaks_snoc_even)
  next
    case False
    then obtain zs z where xs: "xs = zs @ [z]" and zs: "even (length zs)"
      using odd_snoc by blast
    have "foldr1 hash_children (peaks xs @ [l])
        = foldr1 hash_children (peaks (pairup zs) @ [hash_children z l])"
      using xs zs by (simp add: peaks_snoc_even peaks_pairup foldr1_snoc del: append_assoc)
    also have "\<dots> = mth (pairup zs @ [hash_children z l])"
      using 1 [OF False] xs by simp
    also have "\<dots> = mth (xs @ [l])"
      using mth_pairup [of "zs @ [z, l]"] xs zs by (simp add: pairup_append)
    finally show ?thesis .
  qed
qed

lemma audit_path_last: "audit_path (length xs) (xs @ [l]) = rev (peaks xs)"
proof (induction xs rule: tree_induct)
  case (Single x)
  then show ?case
    using audit_path_append [of "[x]" 0 "[l]" 1] by simp
next
  case (Split j a b)
  note ab = Split(1-3)
  show ?case
  proof (cases "length b = 2 ^ j")
    case True
    then show ?thesis
      using audit_path_append [of "a @ b" "Suc j" "[l]" "length (a @ b)"] ab peaks_append(1) [OF ab] by simp
  next
    case False
    then show ?thesis
      using audit_path_append [of a j "b @ [l]" "length (a @ b)"] ab peaks_append(1) [OF ab] Split.IH(2)
      by simp
  qed
qed simp

lemma NewFileHashStore_rep:
  assumes "unat n = length xs" "\<forall>x\<in>set xs. length x = 32" "content = concat (layout xs) @ extra"
  shows "\<exists>f. NewFileHashStore content n = Ok f \<and> file_rep f (layout xs)"
proof -
  have "length (concat (layout xs)) = 32 * length (layout xs)"
    using length_concat_32 layout_32 [OF assms(2)] by blast
  then show ?thesis
    using getStoredHashNum_spec [OF assms(1)] layout_32 [OF assms(2)] assms(3)
    by (simp add: NewFileHashStore_def checkConsistence_def file_rep_def UINT256_SIZE_def nat_mult_distrib)
qed

text \<open>The marshalled tree.\<close>

lemma take_drop_concat:
  "\<forall>h\<in>set hs. length h = n \<Longrightarrow> map (\<lambda>i. take n (drop (i * n) (concat hs))) [0..<length hs] = hs"
  using drop_concat_32 [of hs n _ "[]"] by (intro nth_equalityI) auto

lemma UnMarshal_Marshal:
  assumes t: "tree_rep rep t xs"
  shows "\<exists>t'. tree_UnMarshal (tree_Marshal t @ extra) u = Ok t' \<and> treeSize t' = treeSize t
    \<and> tree_hashes t' = tree_hashes t \<and> hashStore t' = hashStore u \<and> rootHash t' = EMPTY_HASH"
proof -
  let ?hs = "peaks xs"
  have h: "tree_hashes t = ?hs" "\<forall>h\<in>set ?hs. length h = 32" "countBit (treeSize t) = length ?hs"
    using t peaks_32 [of xs] by (simp_all add: tree_rep_def countBit_nbits length_peaks)
  have size: "get_be (take 4 (tree_Marshal t @ extra)) = treeSize t"
    by (simp add: tree_Marshal_def length_put_be get_put_be)
  have "copy_slice (replicate 32 0) (drop (4 + i * 32) (tree_Marshal t @ extra)) = ?hs ! i"
    if "i < length ?hs" for i
  proof -
    let ?s = "drop (i * 32) (concat ?hs @ extra)"
    have s: "take 32 ?s = ?hs ! i"
      using drop_concat_32 [OF h(2) that, of extra] .
    moreover have "length (?hs ! i) = 32"
      using h(2) that by simp
    ultimately have "32 \<le> length ?s"
      by (metis length_take min.absorb_iff2)
    moreover have "drop (4 + i * 32) (tree_Marshal t @ extra) = ?s"
      by (simp add: tree_Marshal_def length_put_be h(1))
    ultimately show ?thesis
      using s by (simp add: copy_slice_def)
  qed
  then have "map (\<lambda>i. copy_slice (replicate 32 0) (drop (4 + i * 32) (tree_Marshal t @ extra)))
      [0..<length ?hs] = ?hs"
    by (intro nth_equalityI) auto
  then show ?thesis
    using h size length_concat_32 [OF h(2)]
    by (simp add: tree_UnMarshal_def Let_def tree_update_def UINT256_SIZE_def)
       (simp add: tree_Marshal_def length_put_be)
qed

lemma NewFileHashStore_short:
  assumes "unat n = length xs" "length content < 32 * length (layout xs)"
  shows "NewFileHashStore content n = Err ''stored hashes are less than expected''"
  using getStoredHashNum_spec [OF assms(1)] assms(2)
  by (simp add: NewFileHashStore_def checkConsistence_def UINT256_SIZE_def)

section \<open>Properties\<close>

text \<open>
  Hashing a full list of leaf hashes gives the Merkle tree hash of RFC 6962: the recursion over
  index ranges does not panic (its left subtree is always full, every index is within the slice and
  the number of subtree hashes is the number of bits of the length) and returns the specified root.
\<close>

theorem full_tree_hash:
  assumes "length leaves < 2 ^ 32"
  shows "HashFullTreeWithLeafHash leaves = Ok (mth leaves)"
proof -
  have len: "unat (of_nat (length leaves) :: u32) = length leaves"
    using assms by (simp add: unat_of_nat)
  then show ?thesis
    using hash_full_spec [of 0 "of_nat (length leaves)" leaves leaves]
    by (simp add: HashFullTreeWithLeafHash_def countBit_nbits length_peaks debugCheck_def)
qed

theorem full_tree_hash_witness:
  "length [[1], [2], [3 :: byte]] < 2 ^ 32
   \<and> HashFullTreeWithLeafHash [[1], [2], [3]] = Ok (mth [[1], [2], [3]])"
  using full_tree_hash [of "[[1], [2], [3]]"] by simp

text \<open>
  C25. The compact tree, which keeps only the roots of the full subtrees, has the right root: after
  any leaves have been appended to a new tree, \<open>Root\<close> returns the Merkle tree hash of all of them.
\<close>

theorem append_root:
  assumes "\<forall>l\<in>set ls. length l = 32" "length ls < 2 ^ 32"
  shows "\<exists>t t'. bind_res (NewTree 0 [] (Some NewMemHashStore)) (append_all memStore ls) = Ok t
    \<and> tree_Root t = Ok (mth ls, t') \<and> unat (treeSize t) = length ls"
proof -
  obtain t where t: "bind_res (NewTree 0 [] (Some NewMemHashStore)) (append_all memStore ls) = Ok t"
    "tree_rep mem_rep t ls"
    using mem_store.grown [of NewMemHashStore, OF _ assms] by (auto simp: mem_rep_def NewMemHashStore_def)
  then show ?thesis
    using tree_Root_rep [OF t(2)] by (auto simp: tree_rep_def)
qed

theorem append_root_witness:
  "\<exists>t t'. bind_res (NewTree 0 [] (Some NewMemHashStore)) (append_all memStore [EMPTY_HASH, EMPTY_HASH, EMPTY_HASH]) = Ok t
    \<and> tree_Root t = Ok (mth [EMPTY_HASH, EMPTY_HASH, EMPTY_HASH], t')
    \<and> unat (treeSize t) = length [EMPTY_HASH, EMPTY_HASH, EMPTY_HASH]"
  by (rule append_root) (simp_all add: EMPTY_HASH_def)

text \<open>
  The block root announced before a leaf is appended is the root afterwards: \<open>GetRootWithNewLeaf\<close>
  and \<open>GetRootWithNewLeaves\<close>, which do not change the tree, return what \<open>Root\<close> returns after
  \<open>AppendHash\<close>.
\<close>

theorem predicted_root:
  assumes t: "tree_rep file_rep t xs" and l: "length l = 32" and small: "length xs + 1 < 2 ^ 32"
  shows "\<exists>r p t' t''. AppendHash fileStore l t = Ok (p, t') \<and> tree_Root t' = Ok (r, t'')
    \<and> GetRootWithNewLeaf l t = Ok r \<and> GetRootWithNewLeaves fileStore [l] t = Ok r"
proof -
  have c: "tree_rep file_rep (cloneMem t) xs"
    using t by (simp add: tree_rep_def cloneMem_def)
  obtain t' c' where "AppendHash fileStore l t = Ok (rev (peaks xs), t')" "tree_rep file_rep t' (xs @ [l])"
    "AppendHash fileStore l (cloneMem t) = Ok (rev (peaks xs), c')" "tree_rep file_rep c' (xs @ [l])"
    using file_store.AppendHash_rep [OF t l small] file_store.AppendHash_rep [OF c l small] by blast
  then show ?thesis
    using tree_Root_rep [of file_rep t' "xs @ [l]"] tree_Root_rep [of file_rep c' "xs @ [l]"] t
      hash_fold_spec [of "peaks xs @ [l]"] foldr1_peaks_snoc [of xs l]
    by (auto simp: GetRootWithNewLeaf_def GetRootWithNewLeaves_def tree_rep_def)
qed

theorem predicted_root_witness:
  "\<exists>r p t' t''. AppendHash fileStore EMPTY_HASH
      \<lparr>mintree_h = 0, tree_hashes = [], hashStore = Some \<lparr>file_data = [], file_off = 0\<rparr>,
       rootHash = EMPTY_HASH, treeSize = 0\<rparr> = Ok (p, t') \<and> tree_Root t' = Ok (r, t'')"
  using predicted_root [of "\<lparr>mintree_h = 0, tree_hashes = [],
      hashStore = Some \<lparr>file_data = [], file_off = 0\<rparr>, rootHash = EMPTY_HASH, treeSize = 0\<rparr>" "[]" EMPTY_HASH]
  by (auto simp: tree_rep_def file_rep_def EMPTY_HASH_def)

text \<open>
  A saved tree is restored: \<open>UnMarshal\<close> of what \<open>Marshal\<close> wrote, whatever bytes follow, succeeds
  and restores size and hashes, and the root of the restored tree is the Merkle tree hash again.
\<close>

theorem marshal_roundtrip:
  assumes "tree_rep file_rep t xs"
  shows "\<exists>u' u''. tree_UnMarshal (tree_Marshal t @ extra) u = Ok u' \<and> treeSize u' = treeSize t
    \<and> tree_hashes u' = tree_hashes t \<and> tree_Root u' = Ok (mth xs, u'')"
proof -
  obtain u' where u': "tree_UnMarshal (tree_Marshal t @ extra) u = Ok u'" "treeSize u' = treeSize t"
    "tree_hashes u' = tree_hashes t" "rootHash u' = EMPTY_HASH"
    using UnMarshal_Marshal [OF assms] by metis
  then have "tree_rep (\<lambda>_ _. True) u' xs"
    using assms by (simp add: tree_rep_def)
  then show ?thesis
    using u' tree_Root_rep by blast
qed

theorem marshal_roundtrip_witness:
  "\<exists>u' u''. tree_UnMarshal (tree_Marshal \<lparr>mintree_h = 1, tree_hashes = [EMPTY_HASH], hashStore = None :: fileHashStore option,
        rootHash = EMPTY_HASH, treeSize = 1\<rparr> @ [7])
      \<lparr>mintree_h = 0, tree_hashes = [], hashStore = None :: nat option, rootHash = EMPTY_HASH, treeSize = 0\<rparr> = Ok u'
    \<and> treeSize u' = 1 \<and> tree_hashes u' = [EMPTY_HASH] \<and> tree_Root u' = Ok (EMPTY_HASH, u'')"
  using marshal_roundtrip [of "\<lparr>mintree_h = 1, tree_hashes = [EMPTY_HASH], hashStore = None :: fileHashStore option,
      rootHash = EMPTY_HASH, treeSize = 1\<rparr>" "[EMPTY_HASH]" "[7]"
      "\<lparr>mintree_h = 0, tree_hashes = [], hashStore = None :: nat option, rootHash = EMPTY_HASH, treeSize = 0\<rparr>"]
  by (simp add: tree_rep_def EMPTY_HASH_def)

text \<open>
  Opening the file of hashes for a tree of a given size: when the file starts with the hashes of
  that tree, whatever follows them, the store stands for exactly these hashes, so the tree continues
  where it was saved; a file that is too short is refused.
\<close>

theorem file_store_reopen:
  assumes "unat n = length xs" "\<forall>x\<in>set xs. length x = 32"
  shows "(\<exists>f. NewFileHashStore (concat (layout xs) @ extra) n = Ok f \<and> file_rep f (layout xs))
    \<and> (length short < 32 * length (layout xs) \<longrightarrow>
        NewFileHashStore short n = Err ''stored hashes are less than expected'')"
  using NewFileHashStore_rep [OF assms refl] NewFileHashStore_short [OF assms(1)] by blast

theorem file_store_reopen_witness:
  "(\<exists>f. NewFileHashStore (concat (layout [EMPTY_HASH]) @ [1, 2]) 1 = Ok f \<and> file_rep f (layout [EMPTY_HASH]))
   \<and> NewFileHashStore [] 1 = Err ''stored hashes are less than expected''"
  using file_store_reopen [of 1 "[EMPTY_HASH]" "[1, 2]" "[]"] by (simp add: EMPTY_HASH_def)

end
