(* ===== verification/MerkleProof.thy ===== *)
theory MerkleProof
  imports CompactTree
begin

text \<open>
  The proofs of \<open>src/merkle/merkle_tree.go\<close>: the tree computes inclusion and consistency proofs from
  the persisted hashes, \<open>MerkleVerifier\<close> checks them. The lemmas show that what the tree returns is
  the proof RFC 6962 specifies and that the verifier accepts it, and that an accepted inclusion proof
  for any other leaf yields two inputs of SHA-256 with the same digest, which \<open>collision_of\<close> computes.
\<close>

section \<open>Proofs from the store\<close>

fun get_hashes :: "'st HashStore \<Rightarrow> 'st \<Rightarrow> u32 list \<Rightarrow> Uint256 list res" where
  "get_hashes ops st [] = Ok []"
| "get_hashes ops st (p # ps) =
     bind_res (hs_GetHash ops (p - 1) st) (\<lambda>(h, _).
     bind_res (get_hashes ops st ps) (\<lambda>hs. Ok (h # hs)))"

text \<open>A call on a nil store panics.\<close>

definition merkleRoot :: "'st HashStore \<Rightarrow> u32 \<Rightarrow> 'st CompactMerkleTree \<Rightarrow> Uint256 res" where
  "merkleRoot ops n t =
     bind_res (getSubTreePos n) (\<lambda>hashespos.
     bind_res (case hashStore t of Some st \<Rightarrow> get_hashes ops st hashespos
               | None \<Rightarrow> if hashespos = [] then Ok [] else Panic) (\<lambda>hashes.
     hash_fold hashes))"

text \<open>The root of the right part, read at the peaks behind the left part of \<open>k\<close> leaves.\<close>

definition right_root :: "'st HashStore \<Rightarrow> 'st \<Rightarrow> u32 \<Rightarrow> u32 \<Rightarrow> u32 \<Rightarrow> Uint256 res" where
  "right_root ops st offset k n =
     bind_res (getSubTreePos (n - k)) (\<lambda>pos.
     bind_res (get_hashes ops st (map (\<lambda>p. p + (offset + k * 2 - 1)) pos)) (\<lambda>subhashes.
     hash_fold subhashes))"

lemma highPow_pos: "n \<noteq> 1 \<Longrightarrow> highPow (n - 1) \<noteq> 0"
  using unat_highPow(2) [of "n - 1"] by (metis diff_eq_eq add_0 nat_zero_less_power_iff
      less_numeral_extra(3) unat_0 zero_less_numeral)

lemma split_less:
  assumes "n \<noteq> 0" "n \<noteq> 1"
  shows "unat (highPow (n - 1)) < unat n" "unat (n - highPow (n - 1)) < unat n"
    "n - highPow (n - 1) \<noteq> 0"
  using split_width [OF assms] by (auto simp: word_unat_eq_iff)

function inclusion_loop :: "'st HashStore \<Rightarrow> 'st \<Rightarrow> u32 \<Rightarrow> u32 \<Rightarrow> u32 \<Rightarrow> Uint256 list \<Rightarrow> Uint256 list res" where
  "inclusion_loop ops st offset m n hashes =
     (if n = 1 then Ok hashes
      else
        let k = highPow (n - 1) in
        if m < k then
          bind_res (right_root ops st offset k n) (\<lambda>rootk2n.
            inclusion_loop ops st offset m k (hashes @ [rootk2n]))
        else
          bind_res (hs_GetHash ops (offset + (k * 2 - 1) - 1) st) (\<lambda>(root02k, _).
            inclusion_loop ops st (offset + (k * 2 - 1)) (m - k) (n - k) (hashes @ [root02k])))"
  by pat_completeness auto
termination
proof (relation "measure (\<lambda>(_, _, _, _, n, _). if n = 0 then 2 ^ 32 else unat n)", goal_cases)
  case (2 ops st offset m n hashes k r)
  then show ?case
    using highPow_pos [of n] split_less(1) [of n] unsigned_less [of k, where 'a = nat]
    by (cases "n = 0") auto
next
  case (3 ops st offset m n hashes k r h e)
  then show ?case
    using highPow_pos [of n] split_less(2,3) [of n] unsigned_less [of "n - k", where 'a = nat]
    by (cases "n = 0") auto
qed simp

declare inclusion_loop.simps [simp del]

definition InclusionProof :: "'st HashStore \<Rightarrow> u32 \<Rightarrow> u32 \<Rightarrow> 'st CompactMerkleTree \<Rightarrow> Uint256 list res" where
  "InclusionProof ops m n t =
     (if m \<ge> n then Err ''wrong parameters''
      else if treeSize t < n then Err ''not available yet''
      else case hashStore t of None \<Rightarrow> Err ''hash store not available''
        | Some st \<Rightarrow> bind_res (inclusion_loop ops st 0 m n []) (\<lambda>hashes. Ok (rev hashes)))"

function subproof_loop ::
  "'st HashStore \<Rightarrow> 'st \<Rightarrow> u32 \<Rightarrow> u32 \<Rightarrow> u32 \<Rightarrow> bool \<Rightarrow> Uint256 list \<Rightarrow> Uint256 list res" where
  "subproof_loop ops st offset m n b hashes =
     (if m < n then
        let k = highPow (n - 1) in
        if m \<le> k then
          bind_res (right_root ops st offset k n) (\<lambda>rootk2n.
            subproof_loop ops st offset m k b (hashes @ [rootk2n]))
        else
          bind_res (hs_GetHash ops (offset + (k * 2 - 1) - 1) st) (\<lambda>(root02k, _).
            subproof_loop ops st (offset + (k * 2 - 1)) (m - k) (n - k) False (hashes @ [root02k]))
      else if b then Ok hashes
      else
        bind_res (getSubTreePos n) (\<lambda>pos.
          if length pos \<noteq> 1 then Panic
          else bind_res (hs_GetHash ops (pos ! 0 + offset - 1) st) (\<lambda>(root02n, _).
            Ok (hashes @ [root02n]))))"
  by pat_completeness auto
termination
proof (relation "measure (\<lambda>(_, _, _, _, n, _). unat n)", goal_cases)
  case (2 ops st offset m n b hashes k r)
  then have "n \<noteq> 0"
    by (auto simp: word_less_nat_alt)
  then show ?case
    using 2 split_less(1) [of n] by (cases "n = 1") (auto simp: highPow_def highBit.simps [of 0])
next
  case (3 ops st offset m n b hashes k r h e)
  then have "n \<noteq> 0" "n \<noteq> 1"
    by (auto simp: word_less_nat_alt word_le_nat_alt)
  then show ?case
    using split_less(2) [of n] 3 by auto
qed simp

declare subproof_loop.simps [simp del]

definition tree_subproof :: "'st HashStore \<Rightarrow> 'st \<Rightarrow> u32 \<Rightarrow> u32 \<Rightarrow> bool \<Rightarrow> Uint256 list res" where
  "tree_subproof ops st m n b = bind_res (subproof_loop ops st 0 m n b []) (\<lambda>hashes. Ok (rev hashes))"

definition ConsistencyProof :: "'st HashStore \<Rightarrow> u32 \<Rightarrow> u32 \<Rightarrow> 'st CompactMerkleTree \<Rightarrow> Uint256 list res" where
  "ConsistencyProof ops m n t =
     (if m > n \<or> treeSize t < n then Ok []
      else case hashStore t of None \<Rightarrow> Ok [] | Some st \<Rightarrow> tree_subproof ops st m n True)"

section \<open>MerkleVerifier\<close>

lemma unat_div2: "unat (w div 2) = unat w div 2" for w :: u32
  by (simp add: unat_div)

function calculate_loop ::
  "Uint256 list \<Rightarrow> nat \<Rightarrow> u32 \<Rightarrow> u32 \<Rightarrow> Uint256 \<Rightarrow> Uint256 res" where
  "calculate_loop path pos node_index last_node calculated_hash =
     (if last_node > 0 then
        if pos \<ge> length path then Err ''Proof too short''
        else if node_index mod 2 = 1 then
          calculate_loop path (pos + 1) (node_index div 2) (last_node div 2)
            (hash_children (path ! pos) calculated_hash)
        else if node_index < last_node then
          calculate_loop path (pos + 1) (node_index div 2) (last_node div 2)
            (hash_children calculated_hash (path ! pos))
        else calculate_loop path pos (node_index div 2) (last_node div 2) calculated_hash
      else if pos < length path then Err ''Proof too long''
      else Ok calculated_hash)"
  by pat_completeness auto
termination
  by (relation "measure (\<lambda>(_, _, _, l, _). unat l)") (simp_all add: unat_div2 word_less_nat_alt)

declare calculate_loop.simps [simp del]

definition calculate_root_hash_from_audit_path ::
  "Uint256 \<Rightarrow> u32 \<Rightarrow> Uint256 list \<Rightarrow> u32 \<Rightarrow> Uint256 res" where
  "calculate_root_hash_from_audit_path leaf_hash node_index path tree_size =
     calculate_loop path 0 node_index (tree_size - 1) leaf_hash"

function audit_path_length_loop :: "u32 \<Rightarrow> u32 \<Rightarrow> nat \<Rightarrow> nat" where
  "audit_path_length_loop index last_node len =
     (if last_node > 0 then
        audit_path_length_loop (index div 2) (last_node div 2)
          (if index mod 2 = 1 \<or> index < last_node then len + 1 else len)
      else len)"
  by pat_completeness auto
termination
  by (relation "measure (\<lambda>(_, l, _). unat l)") (simp_all add: unat_div2 word_less_nat_alt)

declare audit_path_length_loop.simps [simp del]

definition audit_path_length :: "u32 \<Rightarrow> u32 \<Rightarrow> nat" where
  "audit_path_length index tree_size = audit_path_length_loop index (tree_size - 1) 0"

definition VerifyLeafHashInclusion ::
  "Uint256 \<Rightarrow> u32 \<Rightarrow> Uint256 list \<Rightarrow> Uint256 \<Rightarrow> u32 \<Rightarrow> unit res" where
  "VerifyLeafHashInclusion leaf_hash leaf_index prf root_hash tree_size =
     (if tree_size \<le> leaf_index then Err ''Wrong params: the tree size is smaller than the leaf index''
      else bind_res (calculate_root_hash_from_audit_path leaf_hash leaf_index prf tree_size)
        (\<lambda>calculated. if calculated \<noteq> root_hash
           then Err ''Constructed root hash differs from provided root hash'' else Ok ()))"

definition VerifyLeafInclusion ::
  "bytes \<Rightarrow> u32 \<Rightarrow> Uint256 list \<Rightarrow> Uint256 \<Rightarrow> u32 \<Rightarrow> unit res" where
  "VerifyLeafInclusion leaf leaf_index prf root_hash tree_size =
     VerifyLeafHashInclusion (hash_leaf leaf) leaf_index prf root_hash tree_size"

text \<open>\<open>VerifyConsistency\<close>: its three loops.\<close>

function climb :: "u32 \<Rightarrow> u32 \<Rightarrow> u32 \<times> u32" where
  "climb node last_node = (if node mod 2 = 1 then climb (node div 2) (last_node div 2) else (node, last_node))"
  by pat_completeness auto
termination
proof (relation "measure (\<lambda>(n, _). unat n)", goal_cases)
  case (2 node last_node)
  then have "0 < unat node"
    by (cases "unat node") (auto simp: odd_word_iff)
  then show ?case by (simp add: unat_div2)
qed simp

declare climb.simps [simp del]

function both_loop ::
  "Uint256 list \<Rightarrow> nat \<Rightarrow> u32 \<Rightarrow> u32 \<Rightarrow> Uint256 \<Rightarrow> Uint256 \<Rightarrow> (nat \<times> u32 \<times> Uint256 \<times> Uint256) res" where
  "both_loop prf pos node last_node old_hash new_hash =
     (if node \<noteq> 0 then
        if node mod 2 = 1 then
          if pos \<ge> length prf then Err ''Wrong proof length''
          else both_loop prf (pos + 1) (node div 2) (last_node div 2)
                 (hash_children (prf ! pos) old_hash) (hash_children (prf ! pos) new_hash)
        else if node < last_node then
          if pos \<ge> length prf then Err ''Wrong proof length''
          else both_loop prf (pos + 1) (node div 2) (last_node div 2)
                 old_hash (hash_children new_hash (prf ! pos))
        else both_loop prf pos (node div 2) (last_node div 2) old_hash new_hash
      else Ok (pos, last_node, old_hash, new_hash))"
  by pat_completeness auto
termination
  by (relation "measure (\<lambda>(_, _, n, _). unat n)") (simp_all add: unat_div2 unat_gt_0)

declare both_loop.simps [simp del]

function up_loop :: "Uint256 list \<Rightarrow> nat \<Rightarrow> u32 \<Rightarrow> Uint256 \<Rightarrow> (nat \<times> Uint256) res" where
  "up_loop prf pos last_node new_hash =
     (if last_node \<noteq> 0 then
        if pos \<ge> length prf then Err ''Wrong proof length''
        else up_loop prf (pos + 1) (last_node div 2) (hash_children new_hash (prf ! pos))
      else Ok (pos, new_hash))"
  by pat_completeness auto
termination
  by (relation "measure (\<lambda>(_, _, n, _). unat n)") (simp_all add: unat_div2 unat_gt_0)

declare up_loop.simps [simp del]

definition VerifyConsistency ::
  "u32 \<Rightarrow> u32 \<Rightarrow> Uint256 \<Rightarrow> Uint256 \<Rightarrow> Uint256 list \<Rightarrow> unit res" where
  "VerifyConsistency old_size new_size old_root new_root prf =
     (if old_size > new_size then Err ''Older tree has bigger size''
      else if old_root = new_root then Ok ()
      else if old_size = 0 then Ok ()
      else
        let (node, last_node) = climb (old_size - 1) (new_size - 1) in
        if 0 \<ge> length prf then Err ''Wrong proof length''
        else
          let (pos, h) = (if node \<noteq> 0 then (1, prf ! 0) else (0, old_root)) in
          bind_res (both_loop prf pos node last_node h h) (\<lambda>(pos1, last1, old_hash, new_hash).
          bind_res (up_loop prf pos1 last1 new_hash) (\<lambda>(pos2, new_hash').
            if new_hash' \<noteq> new_root then Err ''Bad Merkle proof: second root hash does not match.''
            else if old_hash \<noteq> old_root then Err ''Inconsistency: first root hash does not match.''
            else if pos2 \<noteq> length prf then Err ''Proof too long''
            else Ok ())))"

section \<open>The tree's proofs are the specified ones\<close>

lemma cut_words:
  assumes ab: "length a = 2 ^ j" "b \<noteq> []" "length b \<le> 2 ^ j" and n: "unat n = length (a @ b)"
  shows "n \<noteq> 0" "n \<noteq> 1" "unat (highPow (n - 1)) = 2 ^ j" "unat (n - highPow (n - 1)) = length b"
    "highPow (n - 1) * 2 - 1 = of_nat (full_len j)"
proof -
  show n01: "n \<noteq> 0" "n \<noteq> 1"
    using length_append_2 [OF ab(1,2)] n by auto
  show k: "unat (highPow (n - 1)) = 2 ^ j" and "unat (n - highPow (n - 1)) = length b"
    using split_width(1,4) [OF n01] ksplit_append [OF ab] ab(1) n by simp_all
  have "highPow (n - 1) = of_nat (2 ^ j)"
    using arg_cong [OF k, of "of_nat :: nat \<Rightarrow> u32"] by simp
  then show "highPow (n - 1) * 2 - 1 = of_nat (full_len j)"
    by (simp add: of_nat_full_len mult.commute)
qed

lemma unat_pred_of_nat: "0 < p \<Longrightarrow> p < 2 ^ 32 \<Longrightarrow> unat (of_nat p - 1 :: u32) = p - 1"
  by (subst unat_pred) (auto simp: word_unat_eq_iff unat_of_nat)

lemma layout_take: "\<exists>suf. layout xs = layout (take n xs) @ suf"
proof (induction xs rule: rev_induct)
  case (snoc x xs)
  then obtain suf where "layout xs = layout (take n xs) @ suf" by blast
  then show ?case
    by (cases "n \<le> length xs") (auto simp: layout_snoc)
qed simp

lemma layout_small: "length xs \<le> 2 ^ 31 \<Longrightarrow> length (layout xs) < 2 ^ 32"
proof (cases "xs = []")
  case False
  assume "length xs \<le> 2 ^ 31"
  moreover have "nbits (length xs) \<noteq> []"
    using False length_peaks [of xs] peaks_not_Nil [OF False] by (metis length_0_conv)
  then have "0 < length (nbits (length xs))" by simp
  ultimately show ?thesis
    using length_layout [of xs] by (simp del: length_greater_0_conv)
qed simp

context hash_store
begin

lemma get_hashes_at:
  assumes "rep st L" "\<forall>p\<in>set ps. 0 < p \<and> p \<le> length L" "length L < 2 ^ 32"
  shows "get_hashes ops st (map of_nat ps) = Ok (map (\<lambda>p. L ! (p - 1)) ps)"
  using assms(2)
proof (induction ps)
  case (Cons p ps)
  then have p: "0 < p" "p \<le> length L" by simp_all
  then have "unat (of_nat p - 1 :: u32) = p - 1"
    using assms(3) by (intro unat_pred_of_nat) auto
  then show ?case
    using Cons GetHash [OF assms(1), of "of_nat p - 1"] p by simp
qed simp

text \<open>
  The part of the store that belongs to a sublist lies between a prefix of the given length and
  whatever follows.
\<close>

lemma right_root_at:
  assumes st: "rep st (pre @ layout a @ layout b @ suf)"
    and small: "length (pre @ layout a @ layout b @ suf) < 2 ^ 32"
    and ab: "length a = 2 ^ j" "b \<noteq> []" "length b \<le> 2 ^ j"
    and n: "unat n = length (a @ b)" "offset = of_nat (length pre)"
  shows "right_root ops st offset (highPow (n - 1)) n = Ok (mth b)"
proof -
  let ?L = "pre @ layout a @ layout b @ suf" and ?o = "length (pre @ layout a)"
  note cw = cut_words [OF ab n(1)]
  have "offset + (highPow (n - 1) * 2 - 1) = of_nat ?o"
    using n(2) layout_full [OF ab(1)] by (simp add: cw(5))
  then have off: "offset + highPow (n - 1) * 2 - 1 = of_nat ?o"
    by (simp add: add_diff_eq)
  let ?ps = "peak_pos ?o (nbits (length b))"
  have "map (\<lambda>p. p + of_nat ?o) (map of_nat (peak_pos 0 (nbits (length b)))) = (map of_nat ?ps :: u32 list)"
    using peak_pos_shift [of ?o 0] by simp
  moreover have "get_hashes ops st (map of_nat ?ps) = Ok (map (\<lambda>p. ?L ! (p - 1)) ?ps)"
    using peak_pos_bounds [of _ ?o b] by (intro get_hashes_at [OF st _ small]) fastforce
  moreover have "map (\<lambda>p. ?L ! (p - 1)) ?ps = peaks b"
    using peaks_in_layout [of "pre @ layout a" b suf] by simp
  ultimately show ?thesis
    using hash_fold_peaks [OF ab(2)] by (simp add: right_root_def getSubTreePos_spec cw(4) off)
qed

lemma left_root_at:
  assumes st: "rep st (pre @ layout a @ suf)" and small: "length (pre @ layout a @ suf) < 2 ^ 32"
    and a: "length a = 2 ^ j" and "d = of_nat (full_len j)" "offset = of_nat (length pre)"
  shows "hs_GetHash ops (offset + d - 1) st = Ok (mth a, None)"
proof -
  obtain q where q: "full_len j = Suc q"
    using full_len_simps(1) [of j] by (metis gr0_implies_Suc)
  have len: "length (layout a) = Suc q" and "last (layout a) = mth a"
    using layout_full [OF a] q by simp_all
  moreover have "layout a \<noteq> []"
    using len by auto
  ultimately have l: "length (layout a) = Suc q" "layout a ! q = mth a"
    using last_conv_nth [of "layout a"] by simp_all
  have "unat (of_nat (length pre + Suc q) - 1 :: u32) = length pre + q"
    using small l(1) unat_pred_of_nat [of "length pre + Suc q"] by simp
  moreover have "offset + d - 1 = of_nat (length pre + Suc q) - 1"
    using assms(4,5) q by (simp only: of_nat_add)
  ultimately show ?thesis
    using GetHash [OF st, of "offset + d - 1"] l by (simp add: nth_append)
qed

lemma inclusion_loop_path:
  assumes "rep st (pre @ layout xs @ suf)" "length (pre @ layout xs @ suf) < 2 ^ 32"
    "unat n = length xs" "unat m < length xs" "offset = of_nat (length pre)"
  shows "inclusion_loop ops st offset m n hashes = Ok (hashes @ rev (audit_path (unat m) xs))"
  using assms
proof (induction xs arbitrary: pre suf n m offset hashes rule: tree_induct)
  case (Single x)
  then have "n = 1"
    by (simp add: word_unat_eq_iff)
  then show ?case
    by (subst inclusion_loop.simps) simp
next
  case (Split j a b)
  note ab = Split(1-3)
  let ?k = "highPow (n - 1)" and ?f = "if length b = 2 ^ j then [mth (a @ b)] else []"
  note cw = cut_words [OF ab Split.prems(3)]
  have st: "rep st (pre @ layout a @ layout b @ ?f @ suf)"
    and small: "length (pre @ layout a @ layout b @ ?f @ suf) < 2 ^ 32"
    using Split.prems(1,2) peaks_append(2) [OF ab] by simp_all
  show ?case
  proof (cases "m < ?k")
    case True
    then have "unat m < 2 ^ j"
      by (simp add: word_less_nat_alt cw(3))
    then show ?thesis
      using True cw(1,2) right_root_at [OF st small ab Split.prems(3,5)]
        Split.IH(1) [of pre "layout b @ ?f @ suf" ?k m offset "hashes @ [mth b]"] st small Split.prems(5)
        ab(1) cw(3)
      by (subst inclusion_loop.simps) (simp add: audit_path_append [OF ab])
  next
    case False
    then have m: "\<not> unat m < 2 ^ j" "unat (m - ?k) = unat m - 2 ^ j"
      by (simp_all add: word_less_nat_alt cw(3) unat_sub word_le_nat_alt)
    have "hs_GetHash ops (offset + (?k * 2 - 1) - 1) st = Ok (mth a, None)"
      using left_root_at [OF st small ab(1) cw(5) Split.prems(5)] by simp
    then show ?thesis
      using False cw(1,2) m Split.prems(4,5) ab(1) cw(4,5) layout_full [OF ab(1)] st small
        Split.IH(2) [of "pre @ layout a" "?f @ suf" "n - ?k" "m - ?k" "offset + (?k * 2 - 1)" "hashes @ [mth a]"]
      by (subst inclusion_loop.simps) (simp add: audit_path_append [OF ab])
  qed
qed simp

lemma subproof_loop_done:
  assumes st: "rep st (pre @ layout xs @ suf)" and small: "length (pre @ layout xs @ suf) < 2 ^ 32"
    and n: "unat n = length xs" and "\<not> m < n" "length xs \<le> unat m" "offset = of_nat (length pre)"
    and b: "b \<or> (\<exists>i. length xs = 2 ^ i)"
  shows "subproof_loop ops st offset m n b hashes = Ok (hashes @ rev (subproof_spec (unat m) xs b))"
proof (cases b)
  case True
  then show ?thesis
    using assms by (subst subproof_loop.simps) (simp add: subproof_done)
next
  case False
  then obtain i where i: "length xs = 2 ^ i"
    using b by blast
  then have "getSubTreePos n = Ok [of_nat (full_len i)]"
    using n by (simp add: getSubTreePos_spec)
  moreover have "hs_GetHash ops (of_nat (full_len i) + offset - 1) st = Ok (mth xs, None)"
    using left_root_at [OF st small i refl assms(6)] by (simp add: add.commute)
  ultimately show ?thesis
    using assms False by (subst subproof_loop.simps) (simp add: subproof_done)
qed

lemma subproof_loop_spec:
  assumes "rep st (pre @ layout xs @ suf)" "length (pre @ layout xs @ suf) < 2 ^ 32"
    "unat n = length xs" "0 < unat m" "unat m \<le> length xs" "offset = of_nat (length pre)"
    "b \<or> unat m < length xs \<or> (\<exists>i. length xs = 2 ^ i)"
  shows "subproof_loop ops st offset m n b hashes = Ok (hashes @ rev (subproof_spec (unat m) xs b))"
  using assms
proof (induction xs arbitrary: pre suf n m offset b hashes rule: tree_induct)
  case (Single x)
  then have "m = n"
    by (simp add: word_unat_eq_iff)
  moreover have "length [x] = 2 ^ 0"
    by simp
  ultimately show ?case
    using subproof_loop_done [OF Single(1-3), of m offset b hashes] Single by (metis less_irrefl order_refl)
next
  case (Split j a c)
  note ab = Split(1-3)
  let ?k = "highPow (n - 1)" and ?f = "if length c = 2 ^ j then [mth (a @ c)] else []"
  note cw = cut_words [OF ab Split.prems(3)]
  have st: "rep st (pre @ layout a @ layout c @ ?f @ suf)"
    and small: "length (pre @ layout a @ layout c @ ?f @ suf) < 2 ^ 32"
    using Split.prems(1,2) peaks_append(2) [OF ab] by simp_all
  show ?case
  proof (cases "m < n")
    case False
    then show ?thesis
      using subproof_loop_done Split.prems by (simp add: word_less_nat_alt)
  next
    case True
    then have lt: "unat m < length (a @ c)"
      using Split.prems(3) by (simp add: word_less_nat_alt)
    show ?thesis
    proof (cases "m \<le> ?k")
      case mk: True
      then have "unat m \<le> 2 ^ j"
        by (simp add: word_le_nat_alt cw(3))
      then show ?thesis
        using mk True right_root_at [OF st small ab Split.prems(3,6)]
          Split.IH(1) [of pre "layout c @ ?f @ suf" ?k m offset b "hashes @ [mth c]"] st small
          Split.prems(4,6) ab(1) cw(3)
        by (subst subproof_loop.simps) (simp add: subproof_append [OF ab lt])
    next
      case mk: False
      then have m: "\<not> unat m \<le> 2 ^ j" "unat (m - ?k) = unat m - 2 ^ j"
        "unat m - 2 ^ j \<le> length c" "unat m - 2 ^ j < length c"
        using lt ab(1) by (auto simp: word_le_nat_alt cw(3) unat_sub)
      have "hs_GetHash ops (offset + (?k * 2 - 1) - 1) st = Ok (mth a, None)"
        using left_root_at [OF st small ab(1) cw(5) Split.prems(6)] by simp
      then show ?thesis
        using True mk m Split.prems(6) lt ab(1) cw(4,5) layout_full [OF ab(1)] st small
          Split.IH(2) [of "pre @ layout a" "?f @ suf" "n - ?k" "m - ?k" "offset + (?k * 2 - 1)" False
            "hashes @ [mth a]"]
        by (subst subproof_loop.simps) (simp add: subproof_append [OF ab lt] Let_def)
    qed
  qed
qed simp

text \<open>The tree may have grown since: proofs for its first \<open>n\<close> leaves.\<close>

lemma InclusionProof_spec:
  assumes t: "tree_rep rep t xs" "hashStore t = Some st" and small: "length xs \<le> 2 ^ 31"
    and "m < n" "unat n \<le> length xs"
  shows "InclusionProof ops m n t = Ok (audit_path (unat m) (take (unat n) xs))"
proof -
  obtain suf where suf: "layout xs = layout (take (unat n) xs) @ suf"
    using layout_take by blast
  have L: "length (layout xs) < 2 ^ 32"
    using layout_small [OF small] .
  have "inclusion_loop ops st 0 m n [] = Ok (rev (audit_path (unat m) (take (unat n) xs)))"
    using inclusion_loop_path [of st "[]" "take (unat n) xs" suf n m 0 "[]"] t L assms(4,5) suf
    by (simp add: tree_rep_def word_less_nat_alt)
  then show ?thesis
    using assms by (simp add: InclusionProof_def tree_rep_def word_less_nat_alt word_le_nat_alt)
qed

lemma ConsistencyProof_spec:
  assumes t: "tree_rep rep t xs" "hashStore t = Some st" and small: "length xs \<le> 2 ^ 31"
    and "0 < m" "m \<le> n" "unat n \<le> length xs"
  shows "ConsistencyProof ops m n t = Ok (subproof_spec (unat m) (take (unat n) xs) True)"
proof -
  obtain suf where suf: "layout xs = layout (take (unat n) xs) @ suf"
    using layout_take by blast
  have L: "length (layout xs) < 2 ^ 32"
    using layout_small [OF small] .
  have "subproof_loop ops st 0 m n True [] = Ok (rev (subproof_spec (unat m) (take (unat n) xs) True))"
    using subproof_loop_spec [of st "[]" "take (unat n) xs" suf n m 0 True "[]"] t L assms(4-6) suf
    by (simp add: tree_rep_def word_less_nat_alt word_le_nat_alt)
  then show ?thesis
    using assms
    by (simp add: ConsistencyProof_def tree_subproof_def tree_rep_def word_less_nat_alt word_le_nat_alt)
qed

lemma merkleRoot_spec:
  assumes t: "tree_rep rep t xs" "hashStore t = Some st" and small: "length xs \<le> 2 ^ 31"
    and "0 < n" "unat n \<le> length xs"
  shows "merkleRoot ops n t = Ok (mth (take (unat n) xs))"
proof -
  let ?ys = "take (unat n) xs"
  obtain suf where suf: "layout xs = layout ?ys @ suf"
    using layout_take by blast
  have L: "length (layout ?ys @ suf) < 2 ^ 32"
    using layout_small [OF small] suf by simp
  have "get_hashes ops st (map of_nat (peak_pos 0 (nbits (unat n)))) = Ok (peaks ?ys)"
    using get_hashes_at [of st "layout ?ys @ suf" "peak_pos 0 (nbits (unat n))"] t L suf
      peak_pos_bounds [of _ 0 ?ys] peaks_in_layout [of "[]" ?ys suf] assms(5)
    by (fastforce simp: tree_rep_def)
  moreover have "?ys \<noteq> []"
    using assms(4,5) by (auto simp: word_less_nat_alt)
  ultimately show ?thesis
    using t(2) by (simp add: merkleRoot_def getSubTreePos_spec hash_fold_peaks)
qed

end

section \<open>The verifier\<close>

lemma audit_path_not_Nil: "2 \<le> length xs \<Longrightarrow> audit_path m xs \<noteq> []"
  by (subst audit_path.simps) auto

lemma pred_half: "w \<noteq> 0 \<Longrightarrow> unat w = n - 1 \<Longrightarrow> unat (w div 2) = (n + 1) div 2 - 1" for w :: u32
  by (auto simp: unat_div2 unat_gt_0 unat_eq_zero)

lemma calculate_loop_accepts:
  assumes "m < length xs" "unat node = m" "unat lw = length xs - 1" "path = pre @ audit_path m xs"
  shows "calculate_loop path (length pre) node lw (xs ! m) = Ok (mth xs)"
  using assms
proof (induction "length xs" arbitrary: xs m node lw pre rule: less_induct)
  case less
  show ?case
  proof (cases "2 \<le> length xs")
    case False
    then obtain x where "xs = [x]" "m = 0" "lw = 0"
      using less.prems(1,3) by (cases xs) (auto simp: unat_eq_zero Suc_le_eq)
    then show ?thesis
      using less.prems(4) by (subst calculate_loop.simps) simp
  next
    case True
    let ?l = "length pre" and ?s = "sibling m xs"
    have lw0: "lw \<noteq> 0"
      using less.prems(3) True by auto
    have lw: "lw > 0" "unat (lw div 2) = length (pairup xs) - 1"
      using pred_half [OF lw0 less.prems(3)] lw0
      by (auto simp: word_less_nat_alt unat_gt_0 length_pairup)
    have path: "path = (pre @ ?s) @ audit_path (m div 2) (pairup xs)"
      using less.prems(1,4) audit_path_pairup [OF True] by simp
    have IH: "calculate_loop path (length (pre @ ?s)) (node div 2) (lw div 2) (pairup xs ! (m div 2))
        = Ok (mth xs)"
      using less.hyps [of "pairup xs" "m div 2" "node div 2" "lw div 2" "pre @ ?s"] path lw(2)
        less.prems(1,2) True by (simp add: length_pairup unat_div2 mth_pairup)
    have "\<not> length path \<le> ?l"
      using audit_path_not_Nil [OF True] less.prems(4) by simp
    moreover have "node < lw \<longleftrightarrow> Suc m < length xs"
      using less.prems(1-3) by (auto simp: word_less_nat_alt)
    moreover have "path ! ?l = hd ?s" if "?s \<noteq> []"
      using that path by (simp add: nth_append hd_conv_nth)
    ultimately show ?thesis
      using IH lw(1) less.prems(1,2)
      by (subst calculate_loop.simps) (auto simp: odd_word_iff sibling_def nth_pairup split: if_splits)
  qed
qed

text \<open>
  The converse. Walking the audit path with a hash that is not the leaf's beside the true hashes of
  each level, \<open>collision_of\<close> returns the two preimages at the level where the hashes become equal.
\<close>

function collision_of :: "Uint256 list \<Rightarrow> nat \<Rightarrow> Uint256 list \<Rightarrow> Uint256 \<Rightarrow> bytes \<times> bytes" where
  "collision_of path m xs h =
     (if length xs \<le> 1 then ([], [])
      else if odd m then
        (if hash_children (hd path) h = pairup xs ! (m div 2)
         then (1 # hd path @ h, 1 # xs ! (m - 1) @ xs ! m)
         else collision_of (List.tl path) (m div 2) (pairup xs) (hash_children (hd path) h))
      else if Suc m < length xs then
        (if hash_children h (hd path) = pairup xs ! (m div 2)
         then (1 # h @ hd path, 1 # xs ! m @ xs ! Suc m)
         else collision_of (List.tl path) (m div 2) (pairup xs) (hash_children h (hd path)))
      else collision_of path (m div 2) (pairup xs) h)"
  by pat_completeness auto
termination
  by (relation "measure (\<lambda>(_, _, xs, _). length xs)") (auto simp: length_pairup)

declare collision_of.simps [simp del]

lemma calculate_loop_sound:
  assumes "m < length xs" "unat node = m" "unat lw = length xs - 1"
    "\<forall>x\<in>set xs. length x = 32" "\<forall>p\<in>set path. length p = 32" "length h = 32"
    "calculate_loop path pos node lw h = Ok (mth xs)" "h \<noteq> xs ! m"
    "collision_of (drop pos path) m xs h = (a, b)"
  shows "sha256_collision a b"
  using assms
proof (induction "length xs" arbitrary: xs m node lw pos h rule: less_induct)
  case less
  show ?case
  proof (cases "2 \<le> length xs")
    case False
    then obtain x where x: "xs = [x]" "m = 0" "lw = 0"
      using less.prems(1,3) by (cases xs) (auto simp: unat_eq_zero Suc_le_eq)
    have "calculate_loop path pos node lw h = (if pos < length path then Err ''Proof too long'' else Ok h)"
      by (subst calculate_loop.simps) (simp add: x(3))
    then show ?thesis
      using less.prems(7,8) x by (auto split: if_splits)
  next
    case True
    have lw0: "lw \<noteq> 0"
      using less.prems(3) True by auto
    have lw: "lw > 0" "unat (lw div 2) = length (pairup xs) - 1"
      using pred_half [OF lw0 less.prems(3)] lw0
      by (auto simp: word_less_nat_alt unat_gt_0 length_pairup)
    have node: "unat (node div 2) = m div 2" "m div 2 < length (pairup xs)"
      using less.prems(1,2) by (auto simp: unat_div2 length_pairup)
    have lt: "node < lw \<longleftrightarrow> Suc m < length xs"
      using less.prems(1-3) by (auto simp: word_less_nat_alt)
    have pos: "pos < length path"
      using less.prems(7) lw(1) by (subst (asm) calculate_loop.simps) (auto split: if_splits)
    have hd: "hd (drop pos path) = path ! pos" "List.tl (drop pos path) = drop (Suc pos) path"
      "length (path ! pos) = 32"
      using pos less.prems(5) by (simp_all add: hd_drop_conv_nth tl_drop drop_Suc)
    have step: "sha256_collision a b"
      if "calculate_loop path p (node div 2) (lw div 2) h' = Ok (mth xs)" "length h' = 32"
        "h' \<noteq> pairup xs ! (m div 2)" "collision_of (drop p path) (m div 2) (pairup xs) h' = (a, b)" for p h'
      using less.hyps [of "pairup xs" "m div 2" "node div 2" "lw div 2" h' p] that node lw(2)
        pairup_32 [OF less.prems(4)] less.prems(5) True by (simp add: length_pairup mth_pairup)
    have l: "length (xs ! m) = 32" "m - 1 < length xs \<Longrightarrow> length (xs ! (m - 1)) = 32"
      "Suc m < length xs \<Longrightarrow> length (xs ! Suc m) = 32"
      using less.prems(1,4) by simp_all
    have calc: "calculate_loop path pos node lw h
        = (if odd m then calculate_loop path (pos + 1) (node div 2) (lw div 2) (hash_children (path ! pos) h)
           else if Suc m < length xs
           then calculate_loop path (pos + 1) (node div 2) (lw div 2) (hash_children h (path ! pos))
           else calculate_loop path pos (node div 2) (lw div 2) h)"
      using lw(1) pos lt less.prems(2) by (subst calculate_loop.simps) (simp add: odd_word_iff)
    have coll: "collision_of (drop pos path) m xs h = (a, b)"
      using less.prems(9) .
    consider "odd m" | "even m" "Suc m < length xs" | "even m" "\<not> Suc m < length xs"
      by blast
    then show ?thesis
    proof cases
      case 1
      then show ?thesis
        using step [of "pos + 1" "hash_children (path ! pos) h"] calc less.prems(1,6,7,8) coll hd l True
        by (subst (asm) collision_of.simps)
          (auto simp: nth_pairup sha256_collision_def hash_children_def split: if_splits)
    next
      case 2
      then show ?thesis
        using step [of "pos + 1" "hash_children h (path ! pos)"] calc less.prems(1,6,7,8) coll hd l True
        by (subst (asm) collision_of.simps)
          (auto simp: nth_pairup sha256_collision_def hash_children_def split: if_splits)
    next
      case 3
      then show ?thesis
        using step [of pos h] calc less.prems(1,6,7,8) coll True
        by (subst (asm) collision_of.simps) (auto simp: nth_pairup split: if_splits)
    qed
  qed
qed

subsection \<open>Consistency\<close>

lemma pairup_take: "even i \<Longrightarrow> pairup (take i xs) = take (i div 2) (pairup xs)"
proof (induction xs arbitrary: i rule: pairup.induct)
  case (1 a b xs)
  then consider "i = 0" | k where "i = Suc (Suc k)" "even k"
    by (metis One_nat_def even_Suc not0_implies_Suc odd_one)
  then show ?case
    using 1(1) by cases auto
qed (auto elim!: evenE simp: take_Cons')

lemma half_index: "\<lbrakk>i < length xs; unat node = i; unat lw = length xs - 1; 2 \<le> length xs\<rbrakk> \<Longrightarrow>
    unat (node div 2) = i div 2 \<and> unat (lw div 2) = length (pairup xs) - 1 \<and> i div 2 < length (pairup xs)
    \<and> length (pairup xs) < length xs \<and> (node < lw \<longleftrightarrow> Suc i < length xs)" for node lw :: u32
  by (auto simp: unat_div2 length_pairup word_less_nat_alt)

lemma up_loop_accepts:
  assumes "ys \<noteq> []" "unat lw = length ys - 1" "pf = pre @ audit_path 0 ys"
  shows "up_loop pf (length pre) lw (ys ! 0) = Ok (length pf, mth ys)"
  using assms
proof (induction "length ys" arbitrary: ys lw pre rule: less_induct)
  case less
  show ?case
  proof (cases "2 \<le> length ys")
    case False
    then obtain y where "ys = [y]" "lw = 0"
      using less.prems(1,2) by (cases ys) (auto simp: unat_eq_zero Suc_le_eq)
    then show ?thesis
      using less.prems(3) by (subst up_loop.simps) simp
  next
    case True
    note half = half_index [of 0 ys 0 lw, OF _ _ less.prems(2) True]
    have pf: "pf = (pre @ [ys ! 1]) @ audit_path 0 (pairup ys)"
      using less.prems(1,3) audit_path_pairup [OF True, of 0] True by (simp add: sibling_def)
    have "lw \<noteq> 0"
      using less.prems(2) True by auto
    moreover have "pairup ys ! 0 = hash_children (ys ! 0) (ys ! 1)"
      using nth_pairup [of 0 ys] True less.prems(1) by simp
    moreover have "pf ! length pre = ys ! 1"
      by (simp add: pf)
    moreover have "up_loop pf (length (pre @ [ys ! 1])) (lw div 2) (pairup ys ! 0) = Ok (length pf, mth ys)"
      using less.hyps [of "pairup ys" "lw div 2" "pre @ [ys ! 1]"] half less.prems(1) pf True
      by (simp add: mth_pairup)
    ultimately show ?thesis
      by (subst up_loop.simps) (simp add: pf)
  qed
qed

lemma both_loop_accepts:
  assumes "i < length ys" "unat node = i" "unat lw = length ys - 1" "pf = pre @ audit_path i ys"
  shows "\<exists>p l h. both_loop pf (length pre) node lw old (ys ! i) = Ok (p, l, mth (take i ys @ [old]), h)
    \<and> up_loop pf p l h = Ok (length pf, mth ys)"
  using assms
proof (induction "length ys" arbitrary: ys i node lw pre old rule: less_induct)
  case less
  show ?case
  proof (cases "i = 0")
    case True
    then have "node = 0" "ys \<noteq> []"
      using less.prems(1,2) by (auto simp: unat_eq_zero)
    then show ?thesis
      using up_loop_accepts [of ys lw pf pre] less.prems(3,4) True by (subst both_loop.simps) simp
  next
    case False
    then have 2: "2 \<le> length ys" and node: "node \<noteq> 0"
      using less.prems(1,2) by auto
    note half = half_index [OF less.prems(1,2,3) 2]
    let ?s = "sibling i ys"
    have pf: "pf = (pre @ ?s) @ audit_path (i div 2) (pairup ys)"
      using less.prems(1,4) audit_path_pairup [OF 2] by simp
    have hd: "pf ! length pre = hd ?s \<and> \<not> length pf \<le> length pre" if "?s \<noteq> []"
      using that by (simp add: pf nth_append hd_conv_nth)
    let ?old = "if odd i then hash_children (ys ! (i - 1)) old else old"
    have "mth (take (i div 2) (pairup ys) @ [?old]) = mth (pairup (take i ys @ [old]))"
    proof (cases "odd i")
      case True
      then obtain k where k: "i = Suc k" "even k" by (cases i) auto
      have "take i ys = take k ys @ [ys ! k]"
        using k less.prems(1) by (simp add: take_Suc_conv_app_nth)
      then show ?thesis
        using k less.prems(1) pairup_take [of k ys] by (simp add: pairup_append)
    next
      case even: False
      then show ?thesis
        using less.prems(1) pairup_take [of i ys] by (simp add: pairup_append)
    qed
    then have roots: "mth (take (i div 2) (pairup ys) @ [?old]) = mth (take i ys @ [old])"
      by (simp add: mth_pairup)
    have "\<exists>p l h. both_loop pf (length (pre @ ?s)) (node div 2) (lw div 2) ?old (pairup ys ! (i div 2))
        = Ok (p, l, mth (take i ys @ [old]), h) \<and> up_loop pf p l h = Ok (length pf, mth ys)"
      using less.hyps [of "pairup ys" "i div 2" "node div 2" "lw div 2" "pre @ ?s" ?old] half pf roots
      by (simp add: mth_pairup)
    then show ?thesis
      using node half hd less.prems(1,2)
      by (subst both_loop.simps) (auto simp: odd_word_iff sibling_def nth_pairup split: if_splits)
  qed
qed

lemma climb_spec:
  assumes "0 < m" "m < length xs" "unat node = m - 1" "unat lw = length xs - 1"
  shows "\<exists>ys i node' lw'. climb node lw = (node', lw') \<and> unat node' = i \<and> unat lw' = length ys - 1
    \<and> even i \<and> Suc i < length ys \<and> mth ys = mth xs \<and> mth (take (Suc i) ys) = mth (take m xs)
    \<and> subproof_spec (Suc i) ys True = subproof_spec m xs True"
  using assms
proof (induction m arbitrary: xs node lw rule: less_induct)
  case (less m)
  show ?case
  proof (cases "even m")
    case False
    then have "climb node lw = (node, lw)"
      using less.prems(1,3) by (subst climb.simps) (simp add: odd_word_iff)
    moreover have "even (m - 1)" "Suc (m - 1) = m"
      using False less.prems(1) by (auto elim: oddE)
    ultimately show ?thesis
      using less.prems by (intro exI [of _ xs] exI [of _ "m - 1"] exI [of _ node] exI [of _ lw]) simp
  next
    case True
    then have c: "climb node lw = climb (node div 2) (lw div 2)"
      using less.prems(1,3) by (subst climb.simps) (simp add: odd_word_iff)
    have "m - 1 < length xs" "2 \<le> length xs" "0 < m div 2" "m div 2 < m" "m div 2 < length (pairup xs)"
      "(m - 1) div 2 = m div 2 - 1"
      using True less.prems(1,2) by (auto simp: length_pairup elim!: evenE)
    moreover from half_index [OF this(1) less.prems(3,4) this(2)]
    have "unat (node div 2) = (m - 1) div 2" "unat (lw div 2) = length (pairup xs) - 1"
      by simp_all
    moreover have "mth (take (m div 2) (pairup xs)) = mth (take m xs)"
      using pairup_take [OF True, of xs] mth_pairup [of "take m xs"] by simp
    ultimately show ?thesis
      using less.IH [of "m div 2" "pairup xs" "node div 2" "lw div 2"] c mth_pairup [of xs]
        subproof_even [OF True less.prems(1), of xs True] less.prems(2) by simp
  qed
qed

lemma VerifyConsistency_accepts:
  assumes "0 < unat m" "unat m \<le> length xs" "unat n = length xs"
  shows "VerifyConsistency m n (mth (take (unat m) xs)) (mth xs) (subproof_spec (unat m) xs True) = Ok ()"
proof (cases "mth (take (unat m) xs) = mth xs")
  case True
  then show ?thesis
    using assms by (simp add: VerifyConsistency_def word_less_nat_alt)
next
  case False
  then have lt: "unat m < length xs"
    using assms(2) by (cases "unat m = length xs") auto
  let ?pf = "subproof_spec (unat m) xs True" and ?old = "mth (take (unat m) xs)"
  have "m \<noteq> 0" "n \<noteq> 0"
    using assms by auto
  then obtain ys i node lw where c: "climb (m - 1) (n - 1) = (node, lw)" "unat node = i" "unat lw = length ys - 1"
    "even i" "Suc i < length ys" "mth ys = mth xs" "mth (take (Suc i) ys) = ?old"
    "subproof_spec (Suc i) ys True = ?pf"
    using climb_spec [of "unat m" xs "m - 1" "n - 1"] assms lt by (auto simp: unat_pred)
  let ?pre = "if i = 0 then [] else [ys ! i]"
  have pf: "?pf = ?pre @ audit_path i ys"
    using subproof_odd [of "Suc i" ys True] c(4,5,8) by auto
  have ne: "?pf \<noteq> []"
    using c(5) audit_path_not_Nil [of ys i] by (simp add: pf)
  have start: "(if node \<noteq> 0 then (1, ?pf ! 0) else (0, ?old)) = (length ?pre, ys ! i)"
  proof (cases "i = 0")
    case True
    then have "mth (take (Suc i) ys) = ys ! i"
      using c(5) by (cases ys) auto
    then show ?thesis
      using True c(2,7) by (simp add: unat_eq_zero)
  qed (use pf c(2) in auto)
  have "take i ys @ [ys ! i] = take (Suc i) ys"
    using c(5) by (simp add: take_Suc_conv_app_nth)
  then obtain p l h where "both_loop ?pf (length ?pre) node lw (ys ! i) (ys ! i) = Ok (p, l, ?old, h)"
    "up_loop ?pf p l h = Ok (length ?pf, mth xs)"
    using both_loop_accepts [of i ys node lw ?pf ?pre "ys ! i"] c(2,3,5-7) pf by auto
  then show ?thesis
    using assms False \<open>m \<noteq> 0\<close> ne
    by (simp add: VerifyConsistency_def c(1) word_less_nat_alt Let_def start)
qed

section \<open>Properties\<close>

lemma tree_small: "length ls \<le> 2 ^ 31 \<Longrightarrow> length ls < 2 ^ 32"
  by simp

lemma VerifyLeafHashInclusion_accepts:
  assumes "unat n = length xs" "unat m < length xs"
  shows "VerifyLeafHashInclusion (xs ! unat m) m (audit_path (unat m) xs) (mth xs) n = Ok ()"
proof -
  have "n \<noteq> 0" using assms by auto
  then show ?thesis
    using calculate_loop_accepts [OF assms(2) refl, of "n - 1" "audit_path (unat m) xs" "[]"] assms
    by (simp add: VerifyLeafHashInclusion_def calculate_root_hash_from_audit_path_def unat_pred
        word_le_nat_alt)
qed

text \<open>
  C26. Inclusion proofs are complete: for any leaves appended to a tree with a file store, any size
  \<open>n\<close> the tree has had and any leaf \<open>m\<close> below it, \<open>InclusionProof\<close> returns a proof, read from the
  persisted subtree hashes, that \<open>VerifyLeafHashInclusion\<close> accepts against the root of the first \<open>n\<close>
  leaves.
\<close>

theorem inclusion_complete:
  assumes "\<forall>l\<in>set ls. length l = 32" "length ls \<le> 2 ^ 31" "m < n" "unat n \<le> length ls"
  shows "\<exists>t path. bind_res (NewTree 0 [] (Some \<lparr>file_data = [], file_off = 0\<rparr>)) (append_all fileStore ls) = Ok t
    \<and> InclusionProof fileStore m n t = Ok path
    \<and> VerifyLeafHashInclusion (ls ! unat m) m path (mth (take (unat n) ls)) n = Ok ()"
proof -
  obtain t st where t: "bind_res (NewTree 0 [] (Some \<lparr>file_data = [], file_off = 0\<rparr>))
      (append_all fileStore ls) = Ok t" "tree_rep file_rep t ls" "hashStore t = Some st"
    using file_store.grown [of "\<lparr>file_data = [], file_off = 0\<rparr>" ls, OF _ assms(1) tree_small [OF assms(2)]]
    by (auto simp: file_rep_def)
  moreover have "InclusionProof fileStore m n t = Ok (audit_path (unat m) (take (unat n) ls))"
    using file_store.InclusionProof_spec [OF t(2,3) assms(2-4)] .
  moreover have "unat m < unat n"
    using assms(3) by (simp add: word_less_nat_alt)
  ultimately show ?thesis
    using VerifyLeafHashInclusion_accepts [of n "take (unat n) ls" m] assms(4) by simp
qed

theorem inclusion_complete_witness:
  "\<exists>t path. bind_res (NewTree 0 [] (Some \<lparr>file_data = [], file_off = 0\<rparr>))
      (append_all fileStore [EMPTY_HASH, EMPTY_HASH, EMPTY_HASH]) = Ok t
    \<and> InclusionProof fileStore 1 3 t = Ok path
    \<and> VerifyLeafHashInclusion ([EMPTY_HASH, EMPTY_HASH, EMPTY_HASH] ! unat (1 :: u32)) 1 path
        (mth (take (unat (3 :: u32)) [EMPTY_HASH, EMPTY_HASH, EMPTY_HASH])) 3 = Ok ()"
  by (rule inclusion_complete) (simp_all add: EMPTY_HASH_def)

text \<open>
  C27. Inclusion proofs are sound: when \<open>VerifyLeafHashInclusion\<close> accepts a hash at index \<open>m\<close> against the
  root of a list of leaves, the hash is the leaf at \<open>m\<close>, or the proof itself contains a collision of
  SHA-256: \<open>collision_of\<close> computes from it two different inputs with the same digest.
\<close>

theorem inclusion_sound:
  assumes "unat n = length xs" "\<forall>x\<in>set xs. length x = 32" "\<forall>p\<in>set path. length p = 32" "length h = 32"
    and "VerifyLeafHashInclusion h m path (mth xs) n = Ok ()"
  shows "h = xs ! unat m \<or> (case collision_of path (unat m) xs h of (a, b) \<Rightarrow> sha256_collision a b)"
proof -
  have m: "unat m < length xs" "n \<noteq> 0"
    using assms(1,5) by (auto simp: VerifyLeafHashInclusion_def word_le_nat_alt split: if_splits)
  have "calculate_loop path 0 m (n - 1) h = Ok (mth xs)"
    using assms(5) by (auto simp: VerifyLeafHashInclusion_def calculate_root_hash_from_audit_path_def
        bind_res_Ok_iff split: if_splits)
  then show ?thesis
    using calculate_loop_sound [OF m(1) refl _ assms(2-4), of "n - 1" 0] assms(1) m(2)
    by (cases "collision_of path (unat m) xs h") (auto simp: unat_pred)
qed

theorem inclusion_sound_witness:
  "VerifyLeafHashInclusion EMPTY_HASH 1 [hash_empty] (mth [hash_empty, EMPTY_HASH]) 2 = Ok ()
   \<and> (EMPTY_HASH = [hash_empty, EMPTY_HASH] ! unat (1 :: u32)
      \<or> (case collision_of [hash_empty] (unat (1 :: u32)) [hash_empty, EMPTY_HASH] EMPTY_HASH of
           (a, b) \<Rightarrow> sha256_collision a b))"
proof -
  have "VerifyLeafHashInclusion EMPTY_HASH 1 [hash_empty] (mth [hash_empty, EMPTY_HASH]) 2 = Ok ()"
    using VerifyLeafHashInclusion_accepts [of 2 "[hash_empty, EMPTY_HASH]" 1]
      audit_path_append [of "[hash_empty]" 0 "[EMPTY_HASH]" 1] by simp
  with inclusion_sound [OF _ _ _ _ this] show ?thesis
    by (simp add: EMPTY_HASH_def)
qed

text \<open>
  C28. Consistency proofs are complete: for any two sizes \<open>0 < m \<le> n\<close> a tree has had,
  \<open>ConsistencyProof\<close> returns a proof (its assertion on the last subtree holds) that \<open>VerifyConsistency\<close>
  accepts for the roots of the first \<open>m\<close> and the first \<open>n\<close> leaves.
\<close>

theorem consistency_complete:
  assumes "\<forall>l\<in>set ls. length l = 32" "length ls \<le> 2 ^ 31" "0 < m" "m \<le> n" "unat n \<le> length ls"
  shows "\<exists>t path. bind_res (NewTree 0 [] (Some NewMemHashStore)) (append_all memStore ls) = Ok t
    \<and> ConsistencyProof memStore m n t = Ok path
    \<and> VerifyConsistency m n (mth (take (unat m) ls)) (mth (take (unat n) ls)) path = Ok ()"
proof -
  obtain t st where t: "bind_res (NewTree 0 [] (Some NewMemHashStore)) (append_all memStore ls) = Ok t"
    "tree_rep mem_rep t ls" "hashStore t = Some st"
    using mem_store.grown [of NewMemHashStore ls, OF _ assms(1) tree_small [OF assms(2)]]
    by (auto simp: mem_rep_def NewMemHashStore_def)
  have mn: "0 < unat m" "unat m \<le> unat n"
    using assms(3,4) by (simp_all add: word_less_nat_alt word_le_nat_alt)
  have "ConsistencyProof memStore m n t = Ok (subproof_spec (unat m) (take (unat n) ls) True)"
    using mem_store.ConsistencyProof_spec [OF t(2,3) assms(2-5)] .
  moreover have "take (unat m) (take (unat n) ls) = take (unat m) ls"
    using mn(2) by simp
  ultimately show ?thesis
    using VerifyConsistency_accepts [of m "take (unat n) ls" n] mn assms(5) t(1) by simp
qed

theorem consistency_complete_witness:
  "\<exists>t path. bind_res (NewTree 0 [] (Some NewMemHashStore))
      (append_all memStore [EMPTY_HASH, hash_empty, EMPTY_HASH]) = Ok t
    \<and> ConsistencyProof memStore 2 3 t = Ok path
    \<and> VerifyConsistency 2 3 (mth (take (unat (2 :: u32)) [EMPTY_HASH, hash_empty, EMPTY_HASH]))
        (mth (take (unat (3 :: u32)) [EMPTY_HASH, hash_empty, EMPTY_HASH])) path = Ok ()"
  by (rule consistency_complete) (simp_all add: EMPTY_HASH_def)

text \<open>
  The hashes \<open>AppendHash\<close> returns are the audit path of the leaf it appended: the verifier accepts
  them for that leaf, at the index the tree had room for, against the new root.
\<close>

theorem append_returns_audit_path:
  assumes t: "tree_rep mem_rep t xs" and l: "length l = 32" and small: "length xs + 1 < 2 ^ 32"
  shows "\<exists>path t' t'' r. AppendHash memStore l t = Ok (path, t') \<and> tree_Root t' = Ok (r, t'')
    \<and> VerifyLeafHashInclusion l (treeSize t) path r (treeSize t') = Ok ()"
proof -
  obtain t' where t': "AppendHash memStore l t = Ok (rev (peaks xs), t')" "tree_rep mem_rep t' (xs @ [l])"
    using mem_store.AppendHash_rep [OF assms] by blast
  have "unat (treeSize t) = length xs" "unat (treeSize t') = length (xs @ [l])"
    using t t'(2) by (simp_all add: tree_rep_def)
  then show ?thesis
    using t' tree_Root_rep [OF t'(2)] VerifyLeafHashInclusion_accepts [of "treeSize t'" "xs @ [l]" "treeSize t"]
      audit_path_last [of xs l] by auto
qed

theorem append_returns_audit_path_witness:
  "\<exists>path t' t'' r. AppendHash memStore hash_empty
      \<lparr>mintree_h = 1, tree_hashes = [EMPTY_HASH], hashStore = Some \<lparr>mem_hashes = [EMPTY_HASH]\<rparr>,
       rootHash = EMPTY_HASH, treeSize = 1\<rparr> = Ok (path, t') \<and> tree_Root t' = Ok (r, t'')
    \<and> VerifyLeafHashInclusion hash_empty 1 path r (treeSize t') = Ok ()"
  using append_returns_audit_path [of "\<lparr>mintree_h = 1, tree_hashes = [EMPTY_HASH],
      hashStore = Some \<lparr>mem_hashes = [EMPTY_HASH]\<rparr>, rootHash = EMPTY_HASH, treeSize = 1\<rparr>"
      "[EMPTY_HASH]" hash_empty]
  by (simp add: tree_rep_def mem_rep_def EMPTY_HASH_def)

end
