(* ===== verification/Loops.thy ===== *)
theory Loops
  imports Prelude
begin

text \<open>
  Go's \<open>for\<close> loops whose end is not evident from their text. One iteration is a function from the loop
  variables to the next ones (\<open>Inl\<close>) or to the result with which the loop is left (\<open>Inr\<close>); it may
  also panic or return an error. \<open>loop\<close> iterates it and is \<open>Diverge\<close> when it never ends. The rule
  \<open>loop_total\<close> proves from an invariant and a decreasing measure that the loop returns, and with what.
\<close>

partial_function (option) loop_opt :: "('s \<Rightarrow> ('s + 'r) res) \<Rightarrow> 's \<Rightarrow> 'r res option" where
  "loop_opt f s =
     (case f s of
        Ok x \<Rightarrow> (case x of Inl s' \<Rightarrow> loop_opt f s' | Inr r \<Rightarrow> Some (Ok r))
      | Err e \<Rightarrow> Some (Err e) | Panic \<Rightarrow> Some Panic | Diverge \<Rightarrow> Some Diverge)"

definition loop :: "('s \<Rightarrow> ('s + 'r) res) \<Rightarrow> 's \<Rightarrow> 'r res" where
  "loop f s = (case loop_opt f s of None \<Rightarrow> Diverge | Some r \<Rightarrow> r)"

lemma loop_unfold:
  "loop f s = (case f s of
       Ok x \<Rightarrow> (case x of Inl s' \<Rightarrow> loop f s' | Inr r \<Rightarrow> Ok r)
     | Err e \<Rightarrow> Err e | Panic \<Rightarrow> Panic | Diverge \<Rightarrow> Diverge)"
  by (simp add: loop_def loop_opt.simps [of f s] split: res.split sum.split)

lemma loop_continue: "f s = Ok (Inl s') \<Longrightarrow> loop f s = loop f s'"
  by (subst loop_unfold) simp

lemma loop_leave: "f s = Ok (Inr r) \<Longrightarrow> loop f s = Ok r"
  by (subst loop_unfold) simp

lemma loop_total:
  fixes m :: "'s \<Rightarrow> nat"
  assumes step: "\<And>s. I s \<Longrightarrow> (\<exists>s'. f s = Ok (Inl s') \<and> I s' \<and> m s' < m s) \<or> (\<exists>r. f s = Ok (Inr r) \<and> Q r)"
    and "I s"
  shows "\<exists>r. loop f s = Ok r \<and> Q r"
  using assms(2)
proof (induction "m s" arbitrary: s rule: less_induct)
  case less
  then show ?case
    using step [OF less.prems] by (auto simp: loop_continue loop_leave)
qed

text \<open>The same with the measure as an argument of the invariant.\<close>

lemma loop_total_ghost:
  assumes step: "\<And>s k. I s k \<Longrightarrow>
      (\<exists>s' k'. f s = Ok (Inl s') \<and> I s' k' \<and> k' < (k :: nat)) \<or> (\<exists>r. f s = Ok (Inr r) \<and> Q r)"
    and "I s k"
  shows "\<exists>r. loop f s = Ok r \<and> Q r"
  using assms(2)
proof (induction k arbitrary: s rule: less_induct)
  case (less k)
  then show ?case
    using step [OF less.prems] by (auto simp: loop_continue loop_leave)
qed

end
