(* ===== verification/MerklePath.thy ===== *)
theory MerklePath
  imports MerkleRef Codec Loops
begin

text \<open>
  The paths of the cross-chain proofs, \<open>MerkleLeafPath\<close> and \<open>MerkleProve\<close> of
  \<open>src/merkle/merkle_hasher.go\<close>, which are serialised with the sink and read back with the source, and
  \<open>ComputeMerkleRoot\<close> of \<open>src/common/merkle_tree.go\<close>, which hashes a list of transaction hashes in place.
\<close>

section \<open>Paths\<close>

definition LEFT :: byte where
  "LEFT = 0"

definition RIGHT :: byte where
  "RIGHT = 1"

definition MAX_SIZE :: nat where
  "MAX_SIZE = 1024 * 1024"

definition HashLeaf :: "bytes \<Rightarrow> Uint256" where
  "HashLeaf data = sha256 (0 # data)"

definition HashChildren :: "Uint256 \<Rightarrow> Uint256 \<Rightarrow> Uint256" where
  "HashChildren left right = sha256 (1 # left @ right)"

text \<open>
  \<open>int(math.Ceil(math.Log2(float64(n))))\<close>: for \<open>n \<ge> 1\<close> below \<open>2^50\<close>, where the float is exact and the
  logarithm of \<open>2^k + 1\<close> is above \<open>k\<close> after rounding, the number of binary digits of \<open>n - 1\<close>.
\<close>

definition depth :: "nat \<Rightarrow> nat" where
  "depth n = floorlog 2 (n - 1)"

fun getIndex_loop :: "nat \<Rightarrow> Uint256 \<Rightarrow> Uint256 list \<Rightarrow> int" where
  "getIndex_loop i leaf [] = - 1"
| "getIndex_loop i leaf (v # hashes) = (if v = leaf then int i else getIndex_loop (Suc i) leaf hashes)"

definition getIndex :: "Uint256 \<Rightarrow> Uint256 list \<Rightarrow> int" where
  "getIndex leaf hashes = getIndex_loop 0 leaf hashes"

text \<open>One level: the pairs in order, and a last hash without a partner as it is.\<close>

definition nextLevel :: "Uint256 list \<Rightarrow> Uint256 list" where
  "nextLevel level =
     map (\<lambda>k. HashChildren (level ! (2 * k)) (level ! (2 * k + 1))) [0..<length level div 2]
     @ (if length level mod 2 \<noteq> 0 then [level ! (length level - 1)] else [])"

fun MerkleHashes_loop :: "nat \<Rightarrow> Uint256 list list \<Rightarrow> Uint256 list list" where
  "MerkleHashes_loop 0 levels = levels"
| "MerkleHashes_loop (Suc i) levels = MerkleHashes_loop i (levels[i := nextLevel (levels ! Suc i)])"

definition MerkleHashes :: "Uint256 list \<Rightarrow> nat \<Rightarrow> Uint256 list list" where
  "MerkleHashes preLeaves d = MerkleHashes_loop d ((replicate (d + 1) [])[d := preLeaves])"

primrec leafPath_loop :: "nat \<Rightarrow> Uint256 list list \<Rightarrow> nat \<Rightarrow> ZeroCopySink \<Rightarrow> ZeroCopySink res" where
  "leafPath_loop 0 tree index sink = Ok sink"
| "leafPath_loop (Suc i) tree index sink =
     (let subTree = tree ! Suc i; subLen = length subTree; nIndex = index div 2 in
      if index + 1 = subLen \<and> subLen mod 2 \<noteq> 0 then leafPath_loop i tree nIndex sink
      else if index mod 2 \<noteq> 0 then
        (if index - 1 < subLen then
           bind_res (WriteByte LEFT sink) (\<lambda>s1.
           bind_res (WriteHash (subTree ! (index - 1)) s1) (\<lambda>s2. leafPath_loop i tree nIndex s2))
         else Panic)
      else
        (if index + 1 < subLen then
           bind_res (WriteByte RIGHT sink) (\<lambda>s1.
           bind_res (WriteHash (subTree ! (index + 1)) s1) (\<lambda>s2. leafPath_loop i tree nIndex s2))
         else Panic))"

definition MerkleLeafPath :: "bytes \<Rightarrow> Uint256 list \<Rightarrow> bytes res" where
  "MerkleLeafPath data hashes =
     (let size = length hashes * (UINT256_SIZE + 1) + length data + 8 in
      if size > MAX_SIZE then Err ''data length over max value''
      else
        let index = getIndex (HashLeaf data) hashes in
        if index < 0 then Err ''values doesn't exist!''
        else
          let sink = NewZeroCopySink_on (Some \<lparr>snk_buf = [], snk_spare = replicate size 0\<rparr>);
              d = depth (length hashes); merkleTree = MerkleHashes hashes d
          in bind_res (WriteVarBytes data sink) (\<lambda>(_, s1).
             bind_res (leafPath_loop d merkleTree (nat index) s1) (\<lambda>s2. Ok (snk_Bytes s2))))"

fun MerkleProve_loop :: "nat \<Rightarrow> ZeroCopySource \<Rightarrow> Uint256 \<Rightarrow> Uint256 res" where
  "MerkleProve_loop 0 source hash = Ok hash"
| "MerkleProve_loop (Suc n) source hash =
     bind_res (NextByte source) (\<lambda>((f, eof), s1).
       if eof then Err ''read byte error''
       else bind_res (NextHash s1) (\<lambda>((v, eof2), s2).
         if eof2 then Err ''read hash error''
         else MerkleProve_loop n s2 (if f = LEFT then HashChildren v hash else HashChildren hash v)))"

definition MerkleProve :: "bytes \<Rightarrow> Uint256 \<Rightarrow> bytes res" where
  "MerkleProve path root_hash =
     bind_res (NextVarBytes (NewZeroCopySource path)) (\<lambda>((value, _, irr, eof), source).
       if eof \<or> irr then Err ''read bytes error''
       else
         let size = unat ((src_Size source - src_Pos source) div of_nat UINT256_SIZE)
         in bind_res (MerkleProve_loop size source (HashLeaf value)) (\<lambda>hash.
           if hash \<noteq> root_hash then Err ''excepted root is not equal actual root'' else Ok value))"

section \<open>ComputeMerkleRoot\<close>

definition double_sha :: "bytes \<Rightarrow> Uint256" where
  "double_sha b = sha256 (sha256 b)"

text \<open>
  The slice of hashes is the workspace: pair \<open>i\<close> is read at \<open>2i\<close> and \<open>2i+1\<close> and its hash written at
  \<open>i\<close>. The first loop runs over the pairs, the second over the levels.
\<close>

fun pair_loop :: "nat \<Rightarrow> nat \<Rightarrow> Uint256 list \<Rightarrow> Uint256 list" where
  "pair_loop i 0 hashes = hashes"
| "pair_loop i (Suc c) hashes =
     pair_loop (Suc i) c (hashes[i := double_sha (hashes ! (2 * i) @ hashes ! (2 * i + 1))])"


lemma length_pair_loop [simp]: "length (pair_loop i c hs) = length hs"
  by (induction i c hs rule: pair_loop.induct) auto



section \<open>Levels\<close>

lemma HashChildren_eq: "HashChildren = hash_children" and HashLeaf_eq: "HashLeaf = hash_leaf"
  by (simp_all add: fun_eq_iff HashChildren_def hash_children_def HashLeaf_def hash_leaf_def)

lemma nth_pairup_even:
  "2 * k + 1 < length xs \<Longrightarrow> pairup xs ! k = hash_children (xs ! (2 * k)) (xs ! (2 * k + 1))"
proof (induction xs arbitrary: k rule: pairup.induct)
  case (1 a b xs)
  then show ?case by (cases k) auto
qed auto

lemma last_pairup: "odd (length xs) \<Longrightarrow> last (pairup xs) = last xs"
  by (induction xs rule: pairup.induct) (auto split: if_splits)

lemma nextLevel_pairup: "nextLevel xs = pairup xs"
proof (rule nth_equalityI)
  show len: "length (nextLevel xs) = length (pairup xs)"
    by (auto simp: nextLevel_def length_pairup odd_iff_mod_2_eq_one)
  fix k assume k: "k < length (nextLevel xs)"
  show "nextLevel xs ! k = pairup xs ! k"
  proof (cases "k < length xs div 2")
    case True
    then show ?thesis
      using nth_pairup_even [of k xs] by (simp add: nextLevel_def nth_append HashChildren_eq)
  next
    case False
    then have odd: "odd (length xs)" and kl: "k = length (pairup xs) - 1"
      using k len by (auto simp: length_pairup nextLevel_def odd_iff_mod_2_eq_one split: if_splits)
    then have "pairup xs \<noteq> []" "xs \<noteq> []" by auto
    then have "pairup xs ! k = xs ! (length xs - 1)"
      using last_pairup [OF odd] kl by (simp add: last_conv_nth)
    moreover have "k = length xs div 2"
      using odd kl by (simp add: length_pairup)
    ultimately show ?thesis
      using odd by (simp add: nextLevel_def nth_append odd_iff_mod_2_eq_one)
  qed
qed

text \<open>Level \<open>i\<close> of the tree is the leaves hashed \<open>d - i\<close> times.\<close>

lemma MerkleHashes_loop_levels:
  assumes "i < length levels"
  shows "length (MerkleHashes_loop i levels) = length levels
    \<and> (\<forall>j\<le>i. MerkleHashes_loop i levels ! j = (pairup ^^ (i - j)) (levels ! i))
    \<and> (\<forall>j>i. MerkleHashes_loop i levels ! j = levels ! j)"
  using assms
proof (induction i arbitrary: levels)
  case (Suc i)
  let ?l = "levels[i := nextLevel (levels ! Suc i)]"
  have IH: "length (MerkleHashes_loop i ?l) = length levels"
    "\<forall>j\<le>i. MerkleHashes_loop i ?l ! j = (pairup ^^ (i - j)) (pairup (levels ! Suc i))"
    "\<forall>j>i. MerkleHashes_loop i ?l ! j = levels ! j"
    using Suc.IH [of ?l] Suc.prems by (auto simp: nextLevel_pairup)
  have "MerkleHashes_loop i ?l ! j = (pairup ^^ (Suc i - j)) (levels ! Suc i)" if "j \<le> Suc i" for j
  proof (cases "j = Suc i")
    case False
    then have "Suc i - j = Suc (i - j)" "j \<le> i" using that by auto
    then show ?thesis
      using IH(2) by (simp add: funpow_swap1 del: funpow.simps) (simp add: funpow_swap1)
  qed (use IH(3) in auto)
  then show ?case
    using IH by auto
qed simp

lemma MerkleHashes_level:
  "j \<le> d \<Longrightarrow> MerkleHashes xs d ! j = (pairup ^^ (d - j)) xs"
  using MerkleHashes_loop_levels [of d "(replicate (d + 1) [])[d := xs]"] by (simp add: MerkleHashes_def del: replicate_Suc)

lemma depth_bound: "n \<le> 2 ^ depth n"
proof (cases "n \<le> 1")
  case False
  then have "n - 1 < 2 ^ floorlog 2 (n - 1)"
    using floorlog_bounds [of "n - 1" 2] by simp
  then show ?thesis by (simp add: depth_def)
qed (use one_le_power [of "2 :: nat" "depth n"] in linarith)

lemma depth_small: "n \<le> 2 ^ k \<Longrightarrow> depth n \<le> k"
proof (rule ccontr)
  assume n: "n \<le> 2 ^ k" and "\<not> depth n \<le> k"
  then have "0 < n - 1" "2 ^ (depth n - 1) \<le> n - 1"
    using floorlog_bounds [of "n - 1" 2] by (auto simp: depth_def floorlog_def split: if_splits)
  moreover have "(2 :: nat) ^ k \<le> 2 ^ (depth n - 1)"
    using \<open>\<not> depth n \<le> k\<close> by (intro power_increasing) auto
  ultimately show False
    using n by linarith
qed

section \<open>What a path holds\<close>

text \<open>The entries of the path of leaf \<open>m\<close> over \<open>d\<close> levels, and the hash they lead to.\<close>

fun path_entries :: "nat \<Rightarrow> Uint256 list \<Rightarrow> nat \<Rightarrow> (byte \<times> Uint256) list" where
  "path_entries 0 xs m = []"
| "path_entries (Suc i) xs m =
     (if odd m then [(LEFT, xs ! (m - 1))]
      else if Suc m < length xs then [(RIGHT, xs ! Suc m)] else [])
     @ path_entries i (pairup xs) (m div 2)"

definition entries_enc :: "(byte \<times> Uint256) list \<Rightarrow> bytes" where
  "entries_enc es = concat (map (\<lambda>(f, v). f # v) es)"

fun chain :: "Uint256 \<Rightarrow> (byte \<times> Uint256) list \<Rightarrow> Uint256" where
  "chain h [] = h"
| "chain h ((f, v) # es) = chain (if f = LEFT then hash_children v h else hash_children h v) es"

lemma entries_enc_simps [simp]:
  "entries_enc [] = []" "entries_enc (e # es) = fst e # snd e @ entries_enc es"
  by (simp_all add: entries_enc_def split: prod.split)

lemma chain_path_entries:
  "m < length xs \<Longrightarrow> length xs \<le> 2 ^ d \<Longrightarrow> chain (xs ! m) (path_entries d xs m) = mth xs"
proof (induction d arbitrary: xs m)
  case 0
  then show ?case by (cases xs) auto
next
  case (Suc d)
  have "chain (pairup xs ! (m div 2)) (path_entries d (pairup xs) (m div 2)) = mth xs"
    using Suc.IH [of "m div 2" "pairup xs"] Suc.prems by (simp add: length_pairup mth_pairup)
  then show ?case
    using Suc.prems(1) nth_pairup [of m xs] by (auto simp: LEFT_def RIGHT_def split: if_splits)
qed

lemma length_path_entries: "length (path_entries d xs m) \<le> d"
  by (induction d arbitrary: xs m) (auto intro: le_SucI)

lemma path_entries_32:
  "\<forall>x\<in>set xs. length x = 32 \<Longrightarrow> m < length xs \<Longrightarrow> \<forall>(f, v)\<in>set (path_entries d xs m). length v = 32"
proof (induction d arbitrary: xs m)
  case (Suc d)
  have "\<forall>(f, v)\<in>set (path_entries d (pairup xs) (m div 2)). length v = 32"
    using Suc.IH [of "pairup xs" "m div 2"] Suc.prems pairup_32 [OF Suc.prems(1)] by (simp add: length_pairup)
  then show ?case
    using Suc.prems by auto
qed simp

lemma writer_leafPath:
  assumes "\<forall>j\<le>i. tree ! j = (pairup ^^ (i - j)) ys" "m < length ys"
  shows "writer (leafPath_loop i tree m) (entries_enc (path_entries i ys m))"
  using assms
proof (induction i arbitrary: ys m)
  case 0
  then show ?case using writer_return by (simp add: fun_eq_iff [symmetric])
next
  case (Suc i)
  have top: "tree ! Suc i = ys"
    using Suc.prems(1) by simp
  have "tree ! j = (pairup ^^ (i - j)) (pairup ys)" if "j \<le> i" for j
    using Suc.prems(1) that by (simp add: Suc_diff_le funpow_swap1)
  then have IH: "writer (leafPath_loop i tree (m div 2)) (entries_enc (path_entries i (pairup ys) (m div 2)))"
    using Suc.IH [of "pairup ys" "m div 2"] Suc.prems(2) by (simp add: length_pairup)
  have entry: "writer (\<lambda>s. bind_res (WriteByte f s) (\<lambda>s1. bind_res (WriteHash v s1) (leafPath_loop i tree (m div 2))))
      (f # v @ entries_enc (path_entries i (pairup ys) (m div 2)))" for f v
    using writer_bind [OF writer_WriteUint(1) [of f] writer_bind [OF writer_WriteBytes [of v] IH]]
    by (simp add: WriteByte_def WriteHash_def)
  consider "odd m" | "even m" "Suc m < length ys" | "even m" "Suc m = length ys"
    using Suc.prems(2) by linarith
  then show ?case
  proof cases
    case 1
    then have "leafPath_loop (Suc i) tree m = (\<lambda>s. bind_res (WriteByte LEFT s) (\<lambda>s1.
        bind_res (WriteHash (ys ! (m - 1)) s1) (leafPath_loop i tree (m div 2))))"
      using Suc.prems(2) top by (auto simp: fun_eq_iff Let_def odd_iff_mod_2_eq_one dest: arg_cong [of _ _ even])
    then show ?thesis
      using entry [of LEFT "ys ! (m - 1)"] 1 by simp
  next
    case 2
    then have "leafPath_loop (Suc i) tree m = (\<lambda>s. bind_res (WriteByte RIGHT s) (\<lambda>s1.
        bind_res (WriteHash (ys ! (m + 1)) s1) (leafPath_loop i tree (m div 2))))"
      using top by (auto simp: fun_eq_iff Let_def)
    then show ?thesis
      using entry [of RIGHT "ys ! (m + 1)"] 2 by simp
  next
    case 3
    then have "odd (length ys)"
      by (metis even_Suc)
    then have "leafPath_loop (Suc i) tree m = leafPath_loop i tree (m div 2)"
      using 3 top by (auto simp: fun_eq_iff Let_def odd_iff_mod_2_eq_one)
    then show ?thesis
      using IH 3 by simp
  qed
qed

section \<open>Reading a path\<close>

lemma prove_loop_reads:
  assumes "wf_src s" "rest s = entries_enc es @ r" "\<forall>(f, v)\<in>set es. length v = 32"
  shows "MerkleProve_loop (length es) s h = Ok (chain h es)"
  using assms
proof (induction es arbitrary: s h)
  case (Cons e es)
  obtain f v where e: "e = (f, v)" "length v = 32"
    using Cons.prems(3) by (cases e) auto
  have b: "NextByte s = Ok ((f, False), advance 1 s)"
    using NextByte_within [OF Cons.prems(1)] Cons.prems(2) e by simp
  have s1: "wf_src (advance 1 s)" "rest (advance 1 s) = v @ entries_enc es @ r"
    using advance_prefix [OF Cons.prems(1), of "[f]"] Cons.prems(2) e by simp_all
  have h: "NextHash (advance 1 s) = Ok ((v, False), advance 32 (advance 1 s))"
    using NextFixed_prefix [OF s1 e(2)] by (simp add: NextHash_def)
  show ?case
    using Cons.IH [of "advance 32 (advance 1 s)"] advance_prefix [OF s1] Cons.prems(3) e b h
    by (simp add: HashChildren_eq)
qed simp

fun entries_at :: "nat \<Rightarrow> bytes \<Rightarrow> (byte \<times> Uint256) list" where
  "entries_at 0 bs = []"
| "entries_at (Suc n) bs = (hd bs, take 32 (List.tl bs)) # entries_at n (drop 33 bs)"

lemma NextHash_inv:
  assumes "wf_src s" "NextHash s = Ok ((v, False), s')"
  shows "rest s = v @ rest s' \<and> length v = 32 \<and> wf_src s'"
  using assms NextBytes_inv [OF assms(1), of 32]
  by (auto simp: NextHash_def NextFixed_def bind_res_Ok_iff copy_slice_same split: if_splits)

lemma prove_loop_inv:
  assumes "wf_src s" "MerkleProve_loop n s h = Ok h'"
  shows "h' = chain h (entries_at n (rest s)) \<and> (\<forall>(f, v)\<in>set (entries_at n (rest s)). length v = 32)"
  using assms
proof (induction n arbitrary: s h)
  case (Suc n)
  obtain f s1 v s2 where b: "NextByte s = Ok ((f, False), s1)" and v: "NextHash s1 = Ok ((v, False), s2)"
    and l: "MerkleProve_loop n s2 (if f = LEFT then hash_children v h else hash_children h v) = Ok h'"
    using Suc.prems(2) by (auto simp: bind_res_Ok_iff HashChildren_eq split: if_splits)
  have "rest s = f # rest s1" "wf_src s1" "rest s1 = v @ rest s2" "length v = 32" "wf_src s2"
    using NextByte_inv [OF Suc.prems(1) b] NextHash_inv [OF _ v] by auto
  then show ?case
    using Suc.IH [OF _ l] by simp
qed simp

lemma path_size:
  assumes "wf_src s"
  shows "unat ((src_Size s - src_Pos s) div of_nat UINT256_SIZE) = length (rest s) div 32"
proof -
  have "unat (src_Size s - src_Pos s) = length (rest s)"
    using assms by (simp add: src_Pos_def unat_sub word_le_nat_alt unat_src_Size length_rest wf_src_def)
  then show ?thesis
    by (simp add: unat_div UINT256_SIZE_def)
qed

section \<open>Properties of paths\<close>

lemma getIndex_loop_found:
  "leaf \<in> set hashes \<Longrightarrow> \<exists>k<length hashes. getIndex_loop i leaf hashes = int (i + k) \<and> hashes ! k = leaf"
proof (induction hashes arbitrary: i)
  case (Cons v hashes)
  show ?case
  proof (cases "v = leaf")
    case False
    then obtain k where "k < length hashes" "getIndex_loop (Suc i) leaf hashes = int (Suc i + k)" "hashes ! k = leaf"
      using Cons.IH [of "Suc i"] Cons.prems by auto
    then show ?thesis
      using False by (intro exI [of _ "Suc k"]) auto
  qed (auto intro: exI [of _ 0])
qed simp

lemma entries_length:
  "\<forall>(f, v)\<in>set es. length v = 32 \<Longrightarrow> length (entries_enc es) = 33 * length es"
  by (induction es) auto

lemma leaf_path_bytes:
  assumes m: "m < length hashes" "getIndex (HashLeaf data) hashes = int m"
    and 32: "\<forall>x\<in>set hashes. length x = 32"
    and size: "length hashes * 33 + length data + 8 \<le> MAX_SIZE"
  defines "es \<equiv> path_entries (depth (length hashes)) hashes m"
  shows "MerkleLeafPath data hashes = Ok (varbytes_enc data @ entries_enc es)"
    and "\<forall>(f, v)\<in>set es. length v = 32" and "length es \<le> 15"
    and "length (varbytes_enc data @ entries_enc es) \<le> maxInt"
proof -
  let ?d = "depth (length hashes)"
  let ?k0 = "\<lparr>snk_buf = [], snk_spare = replicate (length hashes * 33 + length data + 8) 0\<rparr>"
  show es: "\<forall>(f, v)\<in>set es. length v = 32" "length es \<le> 15"
    using path_entries_32 [OF 32 m(1), of ?d] length_path_entries [of ?d hashes m]
      depth_small [of "length hashes" 15] size by (auto simp: es_def MAX_SIZE_def)
  have enc: "length (entries_enc es) = 33 * length es"
    using es(1) by (rule entries_length)
  have vl: "length (varuint_enc (of_nat (length data))) \<le> 9"
    by (simp add: varuint_enc_def)
  show "length (varbytes_enc data @ entries_enc es) \<le> maxInt"
    using size vl enc es(2) by (simp add: maxInt_def MAX_SIZE_def varbytes_enc_def)
  obtain k1 where k1: "bind_res (WriteVarBytes data ?k0) (\<lambda>(_, s'). Ok s') = Ok k1"
    "snk_buf k1 = varbytes_enc data" "sink_ok k1"
    using writer.appends [OF writer_WriteVarBytes, of ?k0 data] size vl
    by (auto simp: sink_ok_def snk_cap_def MAX_SIZE_def sink_max_def varbytes_enc_def)
  obtain k2 where "leafPath_loop ?d (MerkleHashes hashes ?d) m k1 = Ok k2"
    "snk_buf k2 = varbytes_enc data @ entries_enc es"
    using writer.appends [OF writer_leafPath [of ?d "MerkleHashes hashes ?d" hashes m], of k1] k1 m(1)
      MerkleHashes_level [of _ ?d hashes] size vl enc es(2)
    by (auto simp: MAX_SIZE_def sink_max_def varbytes_enc_def es_def)
  then show "MerkleLeafPath data hashes = Ok (varbytes_enc data @ entries_enc es)"
    using k1(1) m(2) size
    by (auto simp: MerkleLeafPath_def Let_def UINT256_SIZE_def NewZeroCopySink_on_def bind_res_Ok_iff snk_Bytes_def)
qed

lemma prove_path_bytes:
  assumes es: "\<forall>(f, v)\<in>set es. length v = 32" "length es \<le> 15"
    and len: "length (varbytes_enc data @ entries_enc es) \<le> maxInt"
  shows "MerkleProve (varbytes_enc data @ entries_enc es) (chain (HashLeaf data) es) = Ok data"
proof -
  let ?s = "NewZeroCopySource (varbytes_enc data @ entries_enc es)"
  let ?s1 = "advance (length (varbytes_enc data)) ?s"
  have wf: "wf_src ?s"
    using len by (rule wf_NewZeroCopySource)
  have s1: "wf_src ?s1" "rest ?s1 = entries_enc es"
    using advance_prefix [OF wf, of "varbytes_enc data" "entries_enc es"] by simp_all
  have "length (rest ?s1) div 32 = length es"
    using entries_length [OF es(1)] es(2) s1(2) by simp
  then show ?thesis
    using NextVarBytes_prefix [OF wf, of data "entries_enc es"] path_size [OF s1(1)]
      prove_loop_reads [OF s1(1), of es "[]" "HashLeaf data"] s1(2) es(1)
    by (simp add: MerkleProve_def)
qed

text \<open>
  A cross-chain path proves the value it was made for: when the leaf hash of \<open>data\<close> is among the
  hashes and everything fits the size limit, \<open>MerkleLeafPath\<close> returns a path from which \<open>MerkleProve\<close>
  recovers \<open>data\<close> against the Merkle root of the hashes. (The prover counts entries of 33 bytes by
  dividing by 32; below 32 entries this is exact, and the size limit keeps a tree below 16 levels.)
\<close>

theorem leaf_path_proves:
  assumes "HashLeaf data \<in> set hashes" "\<forall>x\<in>set hashes. length x = 32"
    and size: "length hashes * 33 + length data + 8 \<le> MAX_SIZE"
  shows "\<exists>path. MerkleLeafPath data hashes = Ok path \<and> MerkleProve path (mth hashes) = Ok data"
proof -
  let ?es = "path_entries (depth (length hashes)) hashes"
  obtain m where m: "m < length hashes" "getIndex (HashLeaf data) hashes = int m" "hashes ! m = HashLeaf data"
    using getIndex_loop_found [OF assms(1), of 0] by (auto simp: getIndex_def)
  note path = leaf_path_bytes [OF m(1,2) assms(2) size]
  have "chain (HashLeaf data) (?es m) = mth hashes"
    using chain_path_entries [OF m(1) depth_bound] m(3) by simp
  then show ?thesis
    using path(1) prove_path_bytes [OF path(2-4)] by auto
qed

theorem leaf_path_proves_witness:
  "HashLeaf [5] \<in> set [hash_empty, HashLeaf [5], hash_empty]
   \<and> (\<exists>path. MerkleLeafPath [5] [hash_empty, HashLeaf [5], hash_empty] = Ok path
        \<and> MerkleProve path (mth [hash_empty, HashLeaf [5], hash_empty]) = Ok [5])"
  using leaf_path_proves [of "[5]" "[hash_empty, HashLeaf [5], hash_empty]"]
  by (simp add: MAX_SIZE_def HashLeaf_eq)

text \<open>
  The converse: the preimages along a path and along the tree from the root downwards, until they
  differ.
\<close>

fun path_preimage :: "bytes \<Rightarrow> (byte \<times> Uint256) list \<Rightarrow> bytes" where
  "path_preimage v es =
     (if es = [] then 0 # v
      else let (f, s) = last es; h = chain (HashLeaf v) (butlast es)
           in if f = LEFT then 1 # s @ h else 1 # h @ s)"

definition tree_preimage :: "bytes list \<Rightarrow> bytes" where
  "tree_preimage ds =
     (if length ds = 1 then 0 # hd ds
      else 1 # mth (map HashLeaf (take (ksplit (length ds)) ds))
             @ mth (map HashLeaf (drop (ksplit (length ds)) ds)))"

function path_collision :: "bytes \<Rightarrow> (byte \<times> Uint256) list \<Rightarrow> bytes list \<Rightarrow> bytes \<times> bytes" where
  "path_collision v es ds =
     (if path_preimage v es \<noteq> tree_preimage ds \<or> es = [] then (path_preimage v es, tree_preimage ds)
      else if fst (last es) = LEFT then path_collision v (butlast es) (drop (ksplit (length ds)) ds)
      else path_collision v (butlast es) (take (ksplit (length ds)) ds))"
  by pat_completeness auto
termination
  by (relation "measure (\<lambda>(_, es, _). length es)") auto

declare path_collision.simps [simp del] path_preimage.simps [simp del]

lemma chain_append: "chain h (es @ es') = chain (chain h es) es'"
  by (induction h es rule: chain.induct) auto

lemma chain_preimage: "chain (HashLeaf v) es = sha256 (path_preimage v es)"
proof (cases es rule: rev_cases)
  case (snoc es' e)
  then show ?thesis
    by (cases e) (simp add: path_preimage.simps chain_append hash_children_def)
qed (simp add: HashLeaf_def path_preimage.simps)

lemma tree_preimage_mth: "ds \<noteq> [] \<Longrightarrow> mth (map HashLeaf ds) = sha256 (tree_preimage ds)"
proof (cases "length ds = 1")
  case True
  then show ?thesis by (cases ds) (auto simp: tree_preimage_def HashLeaf_def)
next
  case False
  assume "ds \<noteq> []"
  then have "2 \<le> length (map HashLeaf ds)"
    using False two_le_length by auto
  then show ?thesis
    using mth_split False by (simp add: tree_preimage_def hash_children_def take_map drop_map)
qed

lemma chain_32: "length h = 32 \<Longrightarrow> length (chain h es) = 32"
  by (induction h es rule: chain.induct) auto

lemma chain_sound:
  assumes "ds \<noteq> []" "chain (HashLeaf v) es = mth (map HashLeaf ds)" "\<forall>(f, s)\<in>set es. length s = 32"
  shows "v \<in> set ds \<or> (case path_collision v es ds of (a, b) \<Rightarrow> sha256_collision a b)"
  using assms
proof (induction v es ds rule: path_collision.induct)
  case (1 v es ds)
  have eq: "sha256 (path_preimage v es) = sha256 (tree_preimage ds)"
    using 1(3,4) by (simp add: chain_preimage tree_preimage_mth)
  show ?case
  proof (cases "path_preimage v es = tree_preimage ds")
    case False
    then show ?thesis
      using eq by (subst path_collision.simps) (simp add: sha256_collision_def)
  next
    case same: True
    show ?thesis
    proof (cases es rule: rev_cases)
      case Nil
      then have "length ds = 1" "hd ds = v"
        using same by (auto simp: path_preimage.simps tree_preimage_def split: if_splits)
      then show ?thesis
        using 1(3) by auto
    next
      case (snoc es' e)
      obtain f s where e: "e = (f, s)" by (cases e)
      let ?h = "chain (HashLeaf v) es'" and ?k = "ksplit (length ds)"
      have ds: "length ds \<noteq> 1"
        using same snoc e by (auto simp: path_preimage.simps tree_preimage_def Let_def split: if_splits)
      then have 2: "2 \<le> length ds"
        using 1(3) two_le_length by blast
      then have ne: "drop ?k ds \<noteq> []" "take ?k ds \<noteq> []"
        using ksplit_bounds [OF 2] by auto
      have len: "length ?h = 32" "length s = 32" "length (mth (map HashLeaf xs)) = 32" for xs
        using 1(5) snoc e chain_32 [of "HashLeaf v" es'] mth_32 [of "map HashLeaf xs"]
        by (auto simp: HashLeaf_def)
      have es': "\<forall>(f, s)\<in>set es'. length s = 32"
        using 1(5) snoc by auto
      have sub: "set (take ?k ds) \<subseteq> set ds" "set (drop ?k ds) \<subseteq> set ds"
        by (simp_all add: set_take_subset set_drop_subset)
      show ?thesis
      proof (cases "f = LEFT")
        case True
        then have "?h = mth (map HashLeaf (drop ?k ds))"
          using same snoc e ds len by (auto simp: path_preimage.simps tree_preimage_def)
        then have "v \<in> set (drop ?k ds) \<or> (case path_collision v es' (drop ?k ds) of (a, b) \<Rightarrow> sha256_collision a b)"
          using 1(1) same True snoc e ne es' by simp
        moreover have "path_collision v es ds = path_collision v es' (drop ?k ds)"
          using same True snoc e by (subst path_collision.simps) simp
        ultimately show ?thesis
          using sub(2) by auto
      next
        case False
        then have "?h = mth (map HashLeaf (take ?k ds))"
          using same snoc e ds len by (auto simp: path_preimage.simps tree_preimage_def)
        then have "v \<in> set (take ?k ds) \<or> (case path_collision v es' (take ?k ds) of (a, b) \<Rightarrow> sha256_collision a b)"
          using 1(2) same False snoc e ne es' by simp
        moreover have "path_collision v es ds = path_collision v es' (take ?k ds)"
          using same False snoc e by (subst path_collision.simps) simp
        ultimately show ?thesis
          using sub(1) by auto
      qed
    qed
  qed
qed

text \<open>The entries \<open>MerkleProve\<close> reads from a path.\<close>

definition entries_of :: "bytes \<Rightarrow> (byte \<times> Uint256) list" where
  "entries_of path =
     (case NextVarBytes (NewZeroCopySource path) of
        Ok (_, s) \<Rightarrow> entries_at (length (rest s) div 32) (rest s) | _ \<Rightarrow> [])"

text \<open>
  C29. A cross-chain path proves only values of the tree: when \<open>MerkleProve\<close> returns a value for the
  Merkle root over the leaf hashes of some data, whatever bytes the path consists of, the value is one
  of the data, or \<open>path_collision\<close> computes from the path two inputs of SHA-256 with the same digest. A
  path cannot stop at an inner node or go beyond a leaf, as the two kinds of hash differ in their
  first byte.
\<close>

theorem prove_sound:
  assumes "ds \<noteq> []" "length path \<le> maxInt" "MerkleProve path (mth (map HashLeaf ds)) = Ok v"
  shows "v \<in> set ds \<or> (case path_collision v (entries_of path) ds of (a, b) \<Rightarrow> sha256_collision a b)"
proof -
  have wf: "wf_src (NewZeroCopySource path)"
    using assms(2) by simp
  obtain n s where s: "NextVarBytes (NewZeroCopySource path) = Ok ((v, n, False, False), s)"
    "MerkleProve_loop (unat ((src_Size s - src_Pos s) div of_nat UINT256_SIZE)) s (HashLeaf v)
      = Ok (mth (map HashLeaf ds))"
    using assms(3) by (auto simp: MerkleProve_def bind_res_Ok_iff Let_def split: if_splits)
  have "wf_src s"
    using rd_varbytes.keeps_wf [OF wf s(1)] .
  then have "mth (map HashLeaf ds) = chain (HashLeaf v) (entries_of path)"
    "\<forall>(f, v)\<in>set (entries_of path). length v = 32"
    using prove_loop_inv [OF _ s(2)] s(1) path_size by (auto simp: entries_of_def)
  then show ?thesis
    using chain_sound [OF assms(1)] by simp
qed

theorem prove_sound_witness:
  "MerkleProve [1, 9] (mth (map HashLeaf [[9]])) = Ok [9]
   \<and> ([9] \<in> set [[9 :: byte]] \<or> (case path_collision [9] (entries_of [1, 9]) [[9]] of (a, b) \<Rightarrow> sha256_collision a b))"
proof -
  have "MerkleProve [1, 9] (mth (map HashLeaf [[9]])) = Ok [9]"
    using prove_path_bytes [of "[]" "[9]"] by (simp add: varbytes_enc_def varuint_enc_def maxInt_def)
  with prove_sound [OF _ _ this] show ?thesis
    by (simp add: maxInt_def)
qed

section \<open>The root of the transactions\<close>













end
