(* ===== verification/MemDB.thy ===== *)
theory MemDB
  imports Loops "HOL-Library.Stream"
begin

text \<open>
  The in-memory key/value store of \<open>src/core/store/overlaydb/memdb.go\<close>: a skip list laid out in one
  array of integers. A node is the index of its first entry, followed by the length of its key, the
  length of its value, its height and one link per level; node 0 is the head. Keys and values lie in
  one append-only byte array. The links, the search with its record of predecessors and the insertion
  are translated entry by entry; a read outside an array panics, and that the searches end is proved.

  The comparer (a package of goleveldb) is the field \<open>db_cmp\<close>, as in the code; the store relies on it
  being the byte order, \<open>byte_order\<close>. The random source is the stream of its numbers.
\<close>

section \<open>The store\<close>

definition tMaxHeight :: nat where
  "tMaxHeight = 12"

definition nKey :: nat where "nKey = 1"
definition nVal :: nat where "nVal = 2"
definition nHeight :: nat where "nHeight = 3"
definition nNext :: nat where "nNext = 4"

record MemDB =
  db_cmp :: "bytes \<Rightarrow> bytes \<Rightarrow> int"
  db_rnd :: "nat stream"
  kvData :: bytes
  nodeData :: "nat list"
  prevNode :: "nat list"
  maxHeight :: nat
  db_n :: nat
  kvSize :: int

definition NewMemDB :: "(bytes \<Rightarrow> bytes \<Rightarrow> int) \<Rightarrow> nat stream \<Rightarrow> MemDB" where
  "NewMemDB DefaultComparer rnd =
     \<lparr>db_cmp = DefaultComparer, db_rnd = rnd, kvData = [],
      nodeData = (replicate (4 + tMaxHeight) 0)[nHeight := tMaxHeight],
      prevNode = replicate tMaxHeight 0, maxHeight = 1, db_n = 0, kvSize = 0\<rparr>"

definition db_Reset :: "nat stream \<Rightarrow> MemDB \<Rightarrow> MemDB" where
  "db_Reset rnd p =
     p\<lparr>db_rnd := rnd, maxHeight := 1, db_n := 0, kvSize := 0, kvData := [],
       nodeData := (replicate (nNext + tMaxHeight) 0)[nHeight := tMaxHeight],
       prevNode := replicate tMaxHeight 0\<rparr>"

text \<open>Reading \<open>nodeData[i]\<close> and the slice \<open>kvData[a:b]\<close>.\<close>

definition nd :: "MemDB \<Rightarrow> nat \<Rightarrow> nat res" where
  "nd p i = (if i < length (nodeData p) then Ok (nodeData p ! i) else Panic)"

definition kv_slice :: "MemDB \<Rightarrow> nat \<Rightarrow> nat \<Rightarrow> bytes res" where
  "kv_slice p a b = (if a \<le> b \<and> b \<le> length (kvData p) then Ok (take (b - a) (drop a (kvData p))) else Panic)"

text \<open>The loop runs while the height is below the maximum and the next random number is divisible.\<close>

function randHeight_loop :: "nat \<Rightarrow> nat stream \<Rightarrow> nat \<times> nat stream" where
  "randHeight_loop h rnd =
     (if h < tMaxHeight then
        (if shd rnd mod 4 = 0 then randHeight_loop (h + 1) (stl rnd) else (h, stl rnd))
      else (h, rnd))"
  by pat_completeness auto
termination
  by (relation "measure (\<lambda>(h, _). tMaxHeight - h)") auto

declare randHeight_loop.simps [simp del]

definition randHeight :: "MemDB \<Rightarrow> nat \<times> MemDB" where
  "randHeight p = (let (h, rnd) = randHeight_loop 1 (db_rnd p) in (h, p\<lparr>db_rnd := rnd\<rparr>))"

text \<open>\<open>kvData[o : o+nodeData[next+nKey]]\<close> with \<open>o := nodeData[next]\<close>.\<close>

definition node_key :: "MemDB \<Rightarrow> nat \<Rightarrow> bytes res" where
  "node_key p node =
     bind_res (nd p node) (\<lambda>off. bind_res (nd p (node + nKey)) (\<lambda>l. kv_slice p off (off + l)))"

text \<open>
  The search. The loop variables are the node, the level and the recorded predecessors; the result is
  the node found and whether its key is the one searched for.
\<close>

definition findGE_step ::
  "MemDB \<Rightarrow> bytes \<Rightarrow> bool \<Rightarrow> nat \<times> nat \<times> nat list \<Rightarrow> ((nat \<times> nat \<times> nat list) + (nat \<times> bool) \<times> nat list) res"
where
  "findGE_step p key prev = (\<lambda>(node, h, prevs).
     bind_res (nd p (node + nNext + h)) (\<lambda>next.
     bind_res (if next \<noteq> 0 then bind_res (node_key p next) (\<lambda>k. Ok (db_cmp p k key)) else Ok 1) (\<lambda>c.
       if c < 0 then Ok (Inl (next, h, prevs))
       else if \<not> prev \<and> c = 0 then Ok (Inr ((next, True), prevs))
       else
         let prevs' = (if prev then prevs[h := node] else prevs) in
         if prev \<and> \<not> h < length prevs then Panic
         else if h = 0 then Ok (Inr ((next, c = 0), prevs'))
         else Ok (Inl (node, h - 1, prevs')))))"

definition findGE :: "bytes \<Rightarrow> bool \<Rightarrow> MemDB \<Rightarrow> ((nat \<times> bool) \<times> MemDB) res" where
  "findGE key prev p =
     bind_res (loop (findGE_step p key prev) (0, maxHeight p - 1, prevNode p)) (\<lambda>(r, prevs).
       Ok (r, p\<lparr>prevNode := prevs\<rparr>))"

definition findLT_step :: "MemDB \<Rightarrow> bytes \<Rightarrow> nat \<times> nat \<Rightarrow> ((nat \<times> nat) + nat) res" where
  "findLT_step p key = (\<lambda>(node, h).
     bind_res (nd p (node + nNext + h)) (\<lambda>next.
     bind_res (nd p next) (\<lambda>_.
     bind_res (if next = 0 then Ok 1 else bind_res (node_key p next) (\<lambda>k. Ok (db_cmp p k key))) (\<lambda>c.
       if c \<ge> 0 then (if h = 0 then Ok (Inr node) else Ok (Inl (node, h - 1)))
       else Ok (Inl (next, h))))))"

definition findLT :: "bytes \<Rightarrow> MemDB \<Rightarrow> nat res" where
  "findLT key p = loop (findLT_step p key) (0, maxHeight p - 1)"

definition findLast_step :: "MemDB \<Rightarrow> nat \<times> nat \<Rightarrow> ((nat \<times> nat) + nat) res" where
  "findLast_step p = (\<lambda>(node, h).
     bind_res (nd p (node + nNext + h)) (\<lambda>next.
       if next = 0 then (if h = 0 then Ok (Inr node) else Ok (Inl (node, h - 1)))
       else Ok (Inl (next, h))))"

definition findLast :: "MemDB \<Rightarrow> nat res" where
  "findLast p = loop (findLast_step p) (0, maxHeight p - 1)"

text \<open>
  The links of a new node: for each level, the predecessor's link is copied behind the array and then
  points to the new node.
\<close>

fun link_loop :: "nat \<Rightarrow> nat \<Rightarrow> nat list \<Rightarrow> nat list \<Rightarrow> nat list res" where
  "link_loop node i [] nodes = Ok nodes"
| "link_loop node i (n # ns) nodes =
     (let m = n + nNext + i in
      if m < length nodes then link_loop node (Suc i) ns ((nodes @ [nodes ! m])[m := node]) else Panic)"

definition db_Put :: "bytes \<Rightarrow> bytes \<Rightarrow> MemDB \<Rightarrow> MemDB res" where
  "db_Put key value p0 =
     bind_res (findGE key True p0) (\<lambda>((node, exact), p).
       if exact then
         let p1 = (if length value \<noteq> 0
                   then p\<lparr>kvData := kvData p @ key @ value, nodeData := (nodeData p)[node := length (kvData p)]\<rparr>
                   else p) in
         bind_res (nd p1 (node + nVal)) (\<lambda>m.
           Ok (p1\<lparr>nodeData := (nodeData p1)[node + nVal := length value],
                  kvSize := kvSize p1 + (int (length value) - int m)\<rparr>))
       else
         let (h, p1) = randHeight p;
             p2 = (if h > maxHeight p1
                   then p1\<lparr>prevNode := map (\<lambda>i. if maxHeight p1 \<le> i \<and> i < h then 0 else prevNode p1 ! i)
                                       [0..<length (prevNode p1)],
                           maxHeight := h\<rparr>
                   else p1);
             kvOffset = length (kvData p2); newnode = length (nodeData p2)
         in bind_res (link_loop newnode 0 (take h (prevNode p2))
                       (nodeData p2 @ [kvOffset, length key, length value, h])) (\<lambda>nodes.
              Ok (p2\<lparr>kvData := kvData p2 @ key @ value, nodeData := nodes,
                     kvSize := kvSize p2 + int (length key + length value), db_n := db_n p2 + 1\<rparr>)))"

definition db_Delete :: "bytes \<Rightarrow> MemDB \<Rightarrow> MemDB res" where
  "db_Delete key p = db_Put key [] p"

text \<open>\<open>Get\<close> returns the value, nil as \<open>None\<close>, and whether the key is unknown.\<close>

definition db_Get :: "bytes \<Rightarrow> MemDB \<Rightarrow> (bytes option \<times> bool) res" where
  "db_Get key p =
     bind_res (findGE key False p) (\<lambda>((node, exact), _).
       if exact then
         bind_res (nd p (node + nVal)) (\<lambda>valen.
           if valen \<noteq> 0 then
             bind_res (nd p node) (\<lambda>n. bind_res (nd p (node + nKey)) (\<lambda>l.
             bind_res (kv_slice p (n + l) (n + l + valen)) (\<lambda>v. Ok (Some v, False))))
           else Ok (None, False))
       else Ok (None, True))"

definition db_ErrNotFound :: err where
  "db_ErrNotFound = ''leveldb: not found''"

definition db_Find :: "bytes \<Rightarrow> MemDB \<Rightarrow> (bytes \<times> bytes option) res" where
  "db_Find key p =
     bind_res (findGE key False p) (\<lambda>((node, _), _).
       if node \<noteq> 0 then
         bind_res (nd p node) (\<lambda>n. bind_res (nd p (node + nKey)) (\<lambda>l.
         bind_res (kv_slice p n (n + l)) (\<lambda>rkey.
         bind_res (nd p (node + nVal)) (\<lambda>valen.
           if valen \<noteq> 0
           then bind_res (kv_slice p (n + l) (n + l + valen)) (\<lambda>v. Ok (rkey, Some v))
           else Ok (rkey, None)))))
       else Err db_ErrNotFound)"

text \<open>The callback of \<open>ForEach\<close> changes a state of its own.\<close>

definition ForEach_step ::
  "MemDB \<Rightarrow> (bytes \<Rightarrow> bytes \<Rightarrow> 's \<Rightarrow> 's res) \<Rightarrow> nat \<times> 's \<Rightarrow> ((nat \<times> 's) + 's) res" where
  "ForEach_step p f = (\<lambda>(node, s).
     if node = 0 then Ok (Inr s)
     else
       bind_res (nd p node) (\<lambda>n. bind_res (nd p (node + nKey)) (\<lambda>l.
       bind_res (kv_slice p n (n + l)) (\<lambda>key.
       bind_res (nd p (node + nVal)) (\<lambda>vl.
       bind_res (kv_slice p (n + l) (n + l + vl)) (\<lambda>val.
       bind_res (f key val s) (\<lambda>s'.
       bind_res (nd p (node + nNext)) (\<lambda>next. Ok (Inl (next, s'))))))))))"

definition ForEach :: "(bytes \<Rightarrow> bytes \<Rightarrow> 's \<Rightarrow> 's res) \<Rightarrow> MemDB \<Rightarrow> 's \<Rightarrow> 's res" where
  "ForEach f p s = bind_res (nd p nNext) (\<lambda>node. loop (ForEach_step p f) (node, s))"

definition db_Size :: "MemDB \<Rightarrow> int" where
  "db_Size p = kvSize p"

definition db_Len :: "MemDB \<Rightarrow> nat" where
  "db_Len p = db_n p"

section \<open>The invariant\<close>

definition bytes_compare :: "bytes \<Rightarrow> bytes \<Rightarrow> int" where
  "bytes_compare a b = (if a < b then - 1 else if a = b then 0 else 1)"

text \<open>What the store relies on of its comparer: the natural order of byte strings.\<close>

definition byte_order :: "(bytes \<Rightarrow> bytes \<Rightarrow> int) \<Rightarrow> bool" where
  "byte_order c \<longleftrightarrow> (\<forall>a b. (c a b = - 1 \<longleftrightarrow> a < b) \<and> (c a b = 0 \<longleftrightarrow> a = b) \<and> (c a b = 1 \<longleftrightarrow> b < a))"

lemma byte_order_bytes_compare: "byte_order bytes_compare"
  by (auto simp: byte_order_def bytes_compare_def)

lemma byte_order_unique: "byte_order c \<Longrightarrow> c = bytes_compare"
proof (intro ext)
  fix a b assume c: "byte_order c"
  show "c a b = bytes_compare a b"
    using c by (cases a b rule: linorder_cases) (auto simp: byte_order_def bytes_compare_def)
qed

lemma byte_order_less: "byte_order c \<Longrightarrow> c a b < 0 \<longleftrightarrow> a < b" "byte_order c \<Longrightarrow> c a b = 0 \<longleftrightarrow> a = b"
proof -
  assume c: "byte_order c"
  then show "c a b = 0 \<longleftrightarrow> a = b"
    by (simp add: byte_order_def)
  have "c a b = - 1 \<longleftrightarrow> a < b" "c a b = 0 \<longleftrightarrow> a = b" "c a b = 1 \<longleftrightarrow> b < a"
    using c by (simp_all add: byte_order_def)
  then show "c a b < 0 \<longleftrightarrow> a < b"
    by (cases a b rule: linorder_cases) auto
qed

text \<open>The parts of a node, and the nodes of a level.\<close>

definition key_at :: "MemDB \<Rightarrow> nat \<Rightarrow> bytes" where
  "key_at p n = take (nodeData p ! (n + 1)) (drop (nodeData p ! n) (kvData p))"

definition val_at :: "MemDB \<Rightarrow> nat \<Rightarrow> bytes" where
  "val_at p n = take (nodeData p ! (n + 2)) (drop (nodeData p ! n + nodeData p ! (n + 1)) (kvData p))"

definition height_at :: "MemDB \<Rightarrow> nat \<Rightarrow> nat" where
  "height_at p n = nodeData p ! (n + 3)"

definition next_at :: "MemDB \<Rightarrow> nat \<Rightarrow> nat \<Rightarrow> nat" where
  "next_at p h n = nodeData p ! (n + 4 + h)"

definition level :: "MemDB \<Rightarrow> nat \<Rightarrow> nat list \<Rightarrow> nat list" where
  "level p h ns = filter (\<lambda>n. h < height_at p n) ns"

text \<open>Following \<open>f\<close> from \<open>x\<close> visits \<open>ys\<close> and then ends at the head.\<close>

fun linked :: "(nat \<Rightarrow> nat) \<Rightarrow> nat \<Rightarrow> nat list \<Rightarrow> bool" where
  "linked f x [] = (f x = 0)"
| "linked f x (y # ys) = (f x = y \<and> linked f y ys)"

definition node_ok :: "MemDB \<Rightarrow> nat \<Rightarrow> bool" where
  "node_ok p n \<longleftrightarrow> 16 \<le> n \<and> 1 \<le> height_at p n \<and> height_at p n \<le> maxHeight p
     \<and> n + 4 + height_at p n \<le> length (nodeData p)
     \<and> nodeData p ! n + nodeData p ! (n + 1) + nodeData p ! (n + 2) \<le> length (kvData p)"

definition apart :: "MemDB \<Rightarrow> nat \<Rightarrow> nat \<Rightarrow> bool" where
  "apart p a b \<longleftrightarrow> a + 4 + height_at p a \<le> b \<or> b + 4 + height_at p b \<le> a"

text \<open>\<open>ns\<close> are the nodes in the order of their keys.\<close>

definition db_wf :: "MemDB \<Rightarrow> nat list \<Rightarrow> bool" where
  "db_wf p ns \<longleftrightarrow>
     byte_order (db_cmp p) \<and> 1 \<le> maxHeight p \<and> maxHeight p \<le> 12 \<and> length (prevNode p) = 12
     \<and> 16 \<le> length (nodeData p)
     \<and> (\<forall>n\<in>set ns. node_ok p n) \<and> (\<forall>a\<in>set ns. \<forall>b\<in>set ns. a \<noteq> b \<longrightarrow> apart p a b)
     \<and> sorted_wrt (\<lambda>a b. key_at p a < key_at p b) ns
     \<and> (\<forall>h<12. linked (next_at p h) 0 (level p h ns))"

definition db_rep :: "MemDB \<Rightarrow> (bytes \<times> bytes) list \<Rightarrow> bool" where
  "db_rep p kvs \<longleftrightarrow> (\<exists>ns. db_wf p ns \<and> kvs = map (\<lambda>n. (key_at p n, val_at p n)) ns)"

lemmas db_consts = tMaxHeight_def nKey_def nVal_def nHeight_def nNext_def

lemma NewMemDB_rep: "byte_order c \<Longrightarrow> db_rep (NewMemDB c rnd) []"
  by (auto simp: db_rep_def db_wf_def NewMemDB_def db_consts next_at_def level_def nth_list_update)

lemma db_Reset_rep: "db_rep p kvs \<Longrightarrow> db_rep (db_Reset rnd p) []"
  by (auto simp: db_rep_def db_wf_def db_Reset_def db_consts next_at_def level_def nth_list_update)

section \<open>Searching\<close>

lemma linked_split: "linked f x (as @ b # bs) \<Longrightarrow> f (last (x # as)) = b"
  by (induction as arbitrary: x) auto

lemma linked_last: "linked f x as \<Longrightarrow> f (last (x # as)) = 0"
  by (induction as arbitrary: x) auto

lemma node_key_ok:
  assumes "db_wf p ns" "n \<in> set ns"
  shows "node_key p n = Ok (key_at p n)"
  using assms by (auto simp: db_wf_def node_ok_def node_key_def nd_def kv_slice_def key_at_def db_consts)

lemma next_ok:
  assumes wf: "db_wf p ns" and h: "h < maxHeight p" and n: "n = 0 \<or> n \<in> set (level p h ns)"
  shows "nd p (n + nNext + h) = Ok (next_at p h n)"
  using assms by (auto simp: db_wf_def node_ok_def nd_def next_at_def db_consts level_def)

text \<open>
  The predecessor of a key on a level, and the first node that is not below it.
\<close>

definition pred_at :: "MemDB \<Rightarrow> bytes \<Rightarrow> nat \<Rightarrow> nat list \<Rightarrow> nat" where
  "pred_at p key h ns = last (0 # takeWhile (\<lambda>n. key_at p n < key) (level p h ns))"

definition geq_at :: "MemDB \<Rightarrow> bytes \<Rightarrow> nat list \<Rightarrow> nat" where
  "geq_at p key ns = hd (dropWhile (\<lambda>n. key_at p n < key) ns @ [0])"

lemma level_sorted: "db_wf p ns \<Longrightarrow> sorted_wrt (\<lambda>a b. key_at p a < key_at p b) (level p h ns)"
  by (simp add: db_wf_def level_def sorted_wrt_filter)

lemma level_0: "db_wf p ns \<Longrightarrow> level p 0 ns = ns"
  by (auto simp: db_wf_def level_def node_ok_def filter_id_conv)

text \<open>A cut of a level into the nodes below the key and the others is the one \<open>takeWhile\<close> makes.\<close>

lemma sorted_cut:
  assumes "sorted_wrt (\<lambda>a b. k a < k b) (as @ bs)" "\<forall>a\<in>set as. k a < (key :: bytes)"
    "bs \<noteq> [] \<Longrightarrow> \<not> k (hd bs) < key"
  shows "takeWhile (\<lambda>n. k n < key) (as @ bs) = as" "dropWhile (\<lambda>n. k n < key) (as @ bs) = bs"
proof -
  have "takeWhile (\<lambda>n. k n < key) bs = []" "dropWhile (\<lambda>n. k n < key) bs = bs"
    using assms(3) by (cases bs; simp)+
  then show "takeWhile (\<lambda>n. k n < key) (as @ bs) = as" "dropWhile (\<lambda>n. k n < key) (as @ bs) = bs"
    using assms(2) by simp_all
qed

text \<open>A node of a level lies on the level below, and what precedes it there is smaller.\<close>

lemma level_down:
  assumes wf: "db_wf p ns" and as: "level p (Suc h) ns = as @ bs" "\<forall>a\<in>set as. key_at p a < key"
  shows "\<exists>as' bs'. level p h ns = as' @ bs' \<and> (\<forall>a\<in>set as'. key_at p a < key) \<and> last (0 # as') = last (0 # as)"
proof (cases "as = []")
  case True
  then show ?thesis
    by (intro exI [of _ "[]"] exI [of _ "level p h ns"]) simp
next
  case False
  let ?n = "last as"
  have n: "?n \<in> set (level p (Suc h) ns)" "key_at p ?n < key"
    using False as by auto
  then have "?n \<in> set (level p h ns)"
    by (auto simp: level_def)
  then obtain xs ys where xs: "level p h ns = xs @ ?n # ys"
    by (meson split_list)
  then have "\<forall>a\<in>set xs. key_at p a < key"
    using level_sorted [OF wf, of h] n(2) by (auto simp: sorted_wrt_append intro: less_trans)
  then show ?thesis
    using xs n(2) False by (intro exI [of _ "xs @ [?n]"] exI [of _ ys]) auto
qed

lemma level_node: "db_wf p ns \<Longrightarrow> n \<in> set (level p h ns) \<Longrightarrow> n \<in> set ns \<and> n \<noteq> 0"
  by (auto simp: level_def db_wf_def node_ok_def)

lemma wf_linked: "db_wf p ns \<Longrightarrow> h < maxHeight p \<Longrightarrow> linked (next_at p h) 0 (level p h ns)"
  by (simp add: db_wf_def)

text \<open>A level cut at the position of the search.\<close>

definition cut :: "MemDB \<Rightarrow> bytes \<Rightarrow> nat \<Rightarrow> nat list \<Rightarrow> nat \<Rightarrow> nat list \<Rightarrow> bool" where
  "cut p key h ns node bs \<longleftrightarrow> (\<exists>as. level p h ns = as @ bs \<and> (\<forall>a\<in>set as. key_at p a < key) \<and> node = last (0 # as))"

lemma cut_next:
  assumes wf: "db_wf p ns" and h: "h < maxHeight p" and c: "cut p key h ns node bs"
  shows "nd p (node + nNext + h) = Ok (hd (bs @ [0]))"
proof -
  obtain as where as: "level p h ns = as @ bs" "node = last (0 # as)"
    using c by (auto simp: cut_def)
  have "next_at p h node = hd (bs @ [0])"
    using wf_linked [OF wf h] as linked_split [of "next_at p h" 0 as] linked_last [of "next_at p h" 0 as]
    by (cases bs) simp_all
  moreover have "node = 0 \<or> node \<in> set (level p h ns)"
    using as by (auto split: if_splits)
  ultimately show ?thesis
    using next_ok [OF wf h] by simp
qed

lemma cut_advance: "cut p key h ns node (b # bs) \<Longrightarrow> key_at p b < key \<Longrightarrow> cut p key h ns b bs"
proof -
  assume c: "cut p key h ns node (b # bs)" and b: "key_at p b < key"
  obtain as where "level p h ns = as @ b # bs" "\<forall>a\<in>set as. key_at p a < key"
    using c by (auto simp: cut_def)
  then have "level p h ns = (as @ [b]) @ bs" "\<forall>a\<in>set (as @ [b]). key_at p a < key" "b = last (0 # as @ [b])"
    using b by simp_all
  then show ?thesis
    unfolding cut_def by blast
qed

lemma cut_start: "cut p key h ns 0 (level p h ns)"
  by (auto simp: cut_def)

lemma cut_down:
  assumes "db_wf p ns" "cut p key (Suc h) ns node bs"
  shows "\<exists>bs'. cut p key h ns node bs' \<and> length bs' \<le> length ns"
proof -
  obtain as where as: "level p (Suc h) ns = as @ bs" "\<forall>a\<in>set as. key_at p a < key" "node = last (0 # as)"
    using assms(2) by (auto simp: cut_def)
  obtain as' bs' where "level p h ns = as' @ bs'" "\<forall>a\<in>set as'. key_at p a < key" "last (0 # as') = node"
    using level_down [OF assms(1) as(1,2)] as(3) by auto
  moreover from this(1) have "length bs' \<le> length ns"
    by (metis length_append length_filter_le le_add2 le_trans level_def)
  ultimately show ?thesis
    unfolding cut_def by blast
qed

lemma cut_pred:
  assumes wf: "db_wf p ns" and c: "cut p key h ns node bs" and bs: "bs \<noteq> [] \<Longrightarrow> \<not> key_at p (hd bs) < key"
  shows "pred_at p key h ns = node" and "h = 0 \<Longrightarrow> geq_at p key ns = hd (bs @ [0])"
proof -
  obtain as where as: "level p h ns = as @ bs" "\<forall>a\<in>set as. key_at p a < key" "node = last (0 # as)"
    using c by (auto simp: cut_def)
  have sorted: "sorted_wrt (\<lambda>a b. key_at p a < key_at p b) (as @ bs)"
    using level_sorted [OF wf, of h] as(1) by simp
  show "pred_at p key h ns = node"
    using sorted_cut(1) [OF sorted as(2) bs] as by (simp add: pred_at_def)
  show "geq_at p key ns = hd (bs @ [0])" if "h = 0"
    using sorted_cut(2) [OF sorted as(2) bs] as(1) level_0 [OF wf] that by (simp add: geq_at_def)
qed

lemma geq_at_exact:
  assumes wf: "db_wf p ns" and b: "b \<in> set ns" "key_at p b = key"
  shows "geq_at p key ns = b"
proof -
  obtain xs ys where ns: "ns = xs @ b # ys"
    using b(1) by (meson split_list)
  have "\<forall>a\<in>set xs. key_at p a < key"
    using wf ns b(2) by (auto simp: db_wf_def sorted_wrt_append)
  then show ?thesis
    using b(2) by (simp add: geq_at_def ns)
qed

definition GE_inv :: "MemDB \<Rightarrow> bytes \<Rightarrow> bool \<Rightarrow> nat list \<Rightarrow> nat \<times> nat \<times> nat list \<Rightarrow> nat \<Rightarrow> bool" where
  "GE_inv p key prev ns = (\<lambda>(node, h, prevs) k. h < maxHeight p
     \<and> (\<exists>bs. cut p key h ns node bs \<and> k = h * (length ns + 1) + length bs)
     \<and> length prevs = 12 \<and> (prev \<longrightarrow> (\<forall>i. h < i \<and> i < maxHeight p \<longrightarrow> prevs ! i = pred_at p key i ns)))"

definition GE_post :: "MemDB \<Rightarrow> bytes \<Rightarrow> bool \<Rightarrow> nat list \<Rightarrow> (nat \<times> bool) \<times> nat list \<Rightarrow> bool" where
  "GE_post p key prev ns = (\<lambda>((n, exact), prevs).
     n = geq_at p key ns \<and> (exact \<longleftrightarrow> n \<noteq> 0 \<and> key_at p n = key) \<and> length prevs = 12
     \<and> (prev \<longrightarrow> (\<forall>i<maxHeight p. prevs ! i = pred_at p key i ns)))"

lemma GE_step:
  assumes wf: "db_wf p ns" and inv: "GE_inv p key prev ns s k"
  shows "(\<exists>s' k'. findGE_step p key prev s = Ok (Inl s') \<and> GE_inv p key prev ns s' k' \<and> k' < k)
    \<or> (\<exists>r. findGE_step p key prev s = Ok (Inr r) \<and> GE_post p key prev ns r)"
proof -
  obtain node h prevs where s: "s = (node, h, prevs)"
    by (cases s) auto
  obtain bs where h: "h < maxHeight p" and c: "cut p key h ns node bs"
    and k: "k = h * (length ns + 1) + length bs" and l: "length prevs = 12"
    and prevs: "prev \<Longrightarrow> \<forall>i. h < i \<and> i < maxHeight p \<longrightarrow> prevs ! i = pred_at p key i ns"
    using inv by (auto simp: GE_inv_def s)
  have bo: "byte_order (db_cmp p)" and h12: "h < 12"
    using wf h by (auto simp: db_wf_def)
  note nd = cut_next [OF wf h c]
  have bs: "b \<in> set ns \<and> b \<noteq> 0 \<and> node_key p b = Ok (key_at p b)" if "bs = b # bs'" for b bs'
    using level_node [OF wf, of b h] node_key_ok [OF wf, of b] c that by (auto simp: cut_def)
  show ?thesis
  proof (cases "bs \<noteq> [] \<and> key_at p (hd bs) < key")
    case True
    then obtain b bs' where b: "bs = b # bs'" "key_at p b < key"
      by (cases bs) auto
    have "findGE_step p key prev s = Ok (Inl (b, h, prevs))"
      using nd bs [OF b(1)] b byte_order_less [OF bo] by (simp add: findGE_step_def s)
    moreover have "GE_inv p key prev ns (b, h, prevs) (h * (length ns + 1) + length bs')"
      using h cut_advance [of p key h ns node b bs'] c b l prevs by (auto simp: GE_inv_def)
    ultimately show ?thesis
      using k b(1) by auto
  next
    case False
    define nx where "nx = hd (bs @ [0])"
    define e where "e = (nx \<noteq> 0 \<and> key_at p nx = key)"
    have cmp: "\<exists>c. (if nx \<noteq> 0 then bind_res (node_key p nx) (\<lambda>k. Ok (db_cmp p k key)) else Ok 1) = Ok c
        \<and> \<not> c < 0 \<and> (c = 0 \<longleftrightarrow> e)"
      using bs False byte_order_less [OF bo] by (cases bs) (auto simp: nx_def e_def)
    have pred: "pred_at p key h ns = node" "h = 0 \<Longrightarrow> geq_at p key ns = nx"
      using cut_pred [OF wf c] False by (auto simp: nx_def)
    show ?thesis
    proof (cases "\<not> prev \<and> e \<or> h = 0")
      case True
      have "e \<Longrightarrow> geq_at p key ns = nx"
        using geq_at_exact [OF wf, of nx key] bs False by (cases bs) (auto simp: e_def nx_def)
      then have "\<exists>r. findGE_step p key prev s = Ok (Inr r) \<and> GE_post p key prev ns r"
        using True cmp nd pred l h12 prevs h
        by (auto simp: findGE_step_def s nx_def [symmetric] GE_post_def e_def nth_list_update split: if_splits)
      then show ?thesis ..
    next
      case down: False
      then obtain h' where h': "h = Suc h'" by (cases h) auto
      obtain bs' where bs': "cut p key h' ns node bs'" "length bs' \<le> length ns"
        using cut_down [OF wf] c h' by blast
      let ?prevs = "if prev then prevs[h := node] else prevs"
      have "findGE_step p key prev s = Ok (Inl (node, h', ?prevs))"
        using cmp nd down h' l h12 by (auto simp: findGE_step_def s nx_def [symmetric] Let_def)
      moreover have "GE_inv p key prev ns (node, h', ?prevs) (h' * (length ns + 1) + length bs')"
        using bs' h h' l h12 prevs pred(1) by (auto simp: GE_inv_def nth_list_update less_Suc_eq)
      ultimately show ?thesis
        using k h' bs'(2) by fastforce
    qed
  qed
qed

lemma findGE_spec:
  assumes wf: "db_wf p ns"
  shows "\<exists>prevs. findGE key prev p = Ok ((geq_at p key ns, geq_at p key ns \<noteq> 0 \<and> key_at p (geq_at p key ns) = key),
      p\<lparr>prevNode := prevs\<rparr>) \<and> length prevs = 12
    \<and> (prev \<longrightarrow> (\<forall>i<maxHeight p. prevs ! i = pred_at p key i ns))"
proof -
  let ?s = "(0, maxHeight p - 1, prevNode p)" and ?lev = "level p (maxHeight p - 1) ns"
  have "\<exists>bs. cut p key (maxHeight p - 1) ns 0 bs
      \<and> (maxHeight p - 1) * (length ns + 1) + length ?lev = (maxHeight p - 1) * (length ns + 1) + length bs"
    using cut_start by blast
  then have "GE_inv p key prev ns ?s ((maxHeight p - 1) * (length ns + 1) + length ?lev)"
    unfolding GE_inv_def prod.case using wf by (intro conjI) (auto simp: db_wf_def)
  then have "\<exists>r. loop (findGE_step p key prev) ?s = Ok r \<and> GE_post p key prev ns r"
    using GE_step [OF wf] by (rule loop_total_ghost [where I = "GE_inv p key prev ns", rotated])
  then show ?thesis
    by (auto simp: findGE_def GE_post_def)
qed

section \<open>Reading\<close>

lemma geq_at_node:
  assumes "geq_at p key ns \<noteq> 0"
  shows "geq_at p key ns \<in> set ns"
proof (cases "dropWhile (\<lambda>n. key_at p n < key) ns")
  case (Cons b bs)
  then have "b \<in> set ns"
    by (metis list.set_intros(1) set_dropWhileD)
  then show ?thesis
    by (simp add: geq_at_def Cons)
next
  case Nil
  show ?thesis
    using assms unfolding geq_at_def Nil by simp
qed

definition pair_at :: "MemDB \<Rightarrow> nat \<Rightarrow> bytes \<times> bytes" where
  "pair_at p n = (key_at p n, val_at p n)"

lemma db_rep_pair: "db_rep p kvs \<longleftrightarrow> (\<exists>ns. db_wf p ns \<and> kvs = map (pair_at p) ns)"
  by (simp add: db_rep_def pair_at_def [abs_def])

lemma wf_keys: "db_wf p ns \<Longrightarrow> sorted_wrt (<) (map (key_at p) ns)"
  by (simp add: db_wf_def sorted_wrt_map)

lemma map_of_pairs:
  assumes wf: "db_wf p ns"
  shows "map_of (map (pair_at p) ns) key
    = (let n = geq_at p key ns in if n \<noteq> 0 \<and> key_at p n = key then Some (val_at p n) else None)"
proof (cases "geq_at p key ns \<noteq> 0 \<and> key_at p (geq_at p key ns) = key")
  case True
  have "distinct (map fst (map (pair_at p) ns))"
    using wf_keys [OF wf] by (simp add: strict_sorted_iff pair_at_def comp_def)
  moreover have "(key, val_at p (geq_at p key ns)) \<in> set (map (pair_at p) ns)"
    using True geq_at_node [of p key ns] by (force simp: pair_at_def)
  ultimately show ?thesis
    using True by (simp add: Let_def map_of_is_SomeI)
next
  case False
  have "key_at p n \<noteq> key" if "n \<in> set ns" for n
    using geq_at_exact [OF wf that] False level_node [OF wf, of n 0] level_0 [OF wf] that by auto
  then have "map_of (map (pair_at p) ns) key = None"
    unfolding map_of_eq_None_iff by (force simp: pair_at_def)
  then show ?thesis
    using False by (simp add: Let_def)
qed

text \<open>The fields of a node are within the arrays.\<close>

lemma node_reads:
  assumes "db_wf p ns" "n \<in> set ns"
  shows "nd p n = Ok (nodeData p ! n)" "nd p (n + nKey) = Ok (nodeData p ! (n + 1))"
    "nd p (n + nVal) = Ok (nodeData p ! (n + 2))" "nd p (n + nNext) = Ok (next_at p 0 n)"
    "kv_slice p (nodeData p ! n) (nodeData p ! n + nodeData p ! (n + 1)) = Ok (key_at p n)"
    "kv_slice p (nodeData p ! n + nodeData p ! (n + 1))
       (nodeData p ! n + nodeData p ! (n + 1) + nodeData p ! (n + 2)) = Ok (val_at p n)"
    "length (val_at p n) = nodeData p ! (n + 2)" "length (key_at p n) = nodeData p ! (n + 1)"
    "val_at p n = [] \<longleftrightarrow> nodeData p ! (n + 2) = 0"
  using assms by (auto simp: db_wf_def node_ok_def nd_def kv_slice_def key_at_def val_at_def db_consts next_at_def)

definition nil_if_empty :: "bytes \<Rightarrow> bytes option" where
  "nil_if_empty v = (if v = [] then None else Some v)"

lemma db_Get_spec:
  assumes "db_rep p kvs"
  shows "db_Get key p = Ok (case map_of kvs key of None \<Rightarrow> (None, True) | Some v \<Rightarrow> (nil_if_empty v, False))"
proof -
  obtain ns where ns: "db_wf p ns" "kvs = map (pair_at p) ns"
    using assms by (auto simp: db_rep_pair)
  let ?n = "geq_at p key ns"
  obtain prevs where ge: "findGE key False p = Ok ((?n, ?n \<noteq> 0 \<and> key_at p ?n = key), p\<lparr>prevNode := prevs\<rparr>)"
    using findGE_spec [OF ns(1)] by blast
  show ?thesis
  proof (cases "?n \<noteq> 0 \<and> key_at p ?n = key")
    case True
    then have "?n \<in> set ns"
      using geq_at_node by simp
    then show ?thesis
      using True ge ns(2) map_of_pairs [OF ns(1), of key] node_reads [OF ns(1), of ?n]
      by (auto simp: db_Get_def nil_if_empty_def Let_def)
  next
    case False
    then show ?thesis
      using ge ns(2) map_of_pairs [OF ns(1), of key] by (auto simp: db_Get_def Let_def)
  qed
qed

text \<open>\<open>ForEach\<close> visits the pairs in the order of the keys.\<close>

fun fold_res :: "(bytes \<Rightarrow> bytes \<Rightarrow> 's \<Rightarrow> 's res) \<Rightarrow> (bytes \<times> bytes) list \<Rightarrow> 's \<Rightarrow> 's res" where
  "fold_res f [] s = Ok s"
| "fold_res f ((k, v) # kvs) s = bind_res (f k v s) (fold_res f kvs)"

lemma first_node:
  assumes "db_wf p ns"
  shows "nd p nNext = Ok (hd (ns @ [0]))"
proof -
  have "1 \<le> maxHeight p"
    using assms by (simp add: db_wf_def)
  then show ?thesis
    using cut_next [OF assms, of 0 "[]" 0 "level p 0 ns"] cut_start [of p "[]" 0 ns] level_0 [OF assms] by simp
qed

lemma next_node:
  assumes wf: "db_wf p ns" and ns: "ns = xs @ y # ys"
  shows "nd p (y + nNext) = Ok (hd (ys @ [0]))"
proof -
  have "linked (next_at p 0) 0 (xs @ y # ys)"
    using wf_linked [OF wf, of 0] level_0 [OF wf] ns wf by (simp add: db_wf_def)
  then have "next_at p 0 y = hd (ys @ [0])"
    using linked_split [of "next_at p 0" 0 "xs @ [y]"] linked_last [of "next_at p 0" 0 "xs @ [y]"]
    by (cases ys) simp_all
  then show ?thesis
    using node_reads(4) [OF wf, of y] ns by simp
qed

lemma ForEach_loop:
  assumes wf: "db_wf p ns" and ns: "ns = xs @ ys"
  shows "loop (ForEach_step p f) (hd (ys @ [0]), s) = fold_res f (map (pair_at p) ys) s"
  using ns
proof (induction ys arbitrary: xs s)
  case Nil
  then show ?case
    by (subst loop_unfold) (simp add: ForEach_step_def)
next
  case (Cons y ys)
  have y: "y \<in> set ns" "y \<noteq> 0"
    using Cons.prems level_node [OF wf, of y 0] level_0 [OF wf] by auto
  have step: "ForEach_step p f (y, s)
      = bind_res (f (key_at p y) (val_at p y) s) (\<lambda>s'. Ok (Inl (hd (ys @ [0]), s')))"
    using node_reads(1,2,3,5,6) [OF wf y(1)] next_node [OF wf Cons.prems] y(2) by (simp add: ForEach_step_def)
  show ?case
    using Cons.IH [of "xs @ [y]"] Cons.prems
    by (subst loop_unfold)
      (cases "f (key_at p y) (val_at p y) s"; simp add: step pair_at_def [of p y])
qed

lemma ForEach_spec:
  assumes "db_rep p kvs"
  shows "ForEach f p s = fold_res f kvs s"
proof -
  obtain ns where ns: "db_wf p ns" "kvs = map (pair_at p) ns"
    using assms by (auto simp: db_rep_pair)
  then show ?thesis
    using first_node [OF ns(1)] ForEach_loop [OF ns(1), of "[]" ns] ns(2) by (simp add: ForEach_def)
qed

section \<open>Writing\<close>

fun kv_upd :: "bytes \<Rightarrow> bytes \<Rightarrow> (bytes \<times> bytes) list \<Rightarrow> (bytes \<times> bytes) list" where
  "kv_upd k v [] = [(k, v)]"
| "kv_upd k v ((a, b) # kvs) =
     (if k < a then (k, v) # (a, b) # kvs else if k = a then (k, v) # kvs else (a, b) # kv_upd k v kvs)"

lemma kv_upd_exact: "\<forall>(a, b)\<in>set xs. a < k \<Longrightarrow> kv_upd k v (xs @ (k, w) # ys) = xs @ (k, v) # ys"
  by (induction xs) auto

lemma kv_upd_new:
  "\<forall>(a, b)\<in>set xs. a < k \<Longrightarrow> \<forall>(a, b)\<in>set ys. k < a \<Longrightarrow> kv_upd k v (xs @ ys) = xs @ (k, v) # ys"
proof (induction xs)
  case Nil
  then show ?case by (cases ys) auto
qed auto

lemma map_of_kv_upd: "map_of (kv_upd k v kvs) = (map_of kvs)(k \<mapsto> v)"
  by (induction k v kvs rule: kv_upd.induct) (auto simp: fun_eq_iff)

text \<open>Fields outside the places written, and bytes written behind the others, are unchanged.\<close>

lemma frame:
  assumes n: "node_ok p n" and same: "\<forall>c<4. nodeData p' ! (n + c) = nodeData p ! (n + c)"
    and kv: "kvData p' = kvData p @ ext"
  shows "key_at p' n = key_at p n" "val_at p' n = val_at p n" "height_at p' n = height_at p n"
proof -
  have "nodeData p' ! n = nodeData p ! n" "nodeData p' ! (n + 1) = nodeData p ! (n + 1)"
    "nodeData p' ! (n + 2) = nodeData p ! (n + 2)" "nodeData p' ! (n + 3) = nodeData p ! (n + 3)"
    using spec [OF same, of 0] spec [OF same, of 1] spec [OF same, of 2] spec [OF same, of 3] by simp_all
  then show "key_at p' n = key_at p n" "val_at p' n = val_at p n" "height_at p' n = height_at p n"
    using n kv by (simp_all add: key_at_def val_at_def height_at_def node_ok_def)
qed

lemma wf_node: "db_wf p ns \<Longrightarrow> n \<in> set ns \<Longrightarrow> node_ok p n"
  by (simp add: db_wf_def)

lemma wf_apart: "db_wf p ns \<Longrightarrow> a \<in> set ns \<Longrightarrow> b \<in> set ns \<Longrightarrow> a \<noteq> b \<Longrightarrow> apart p a b"
  by (simp add: db_wf_def)

lemma linked_cong: "linked f x ys \<Longrightarrow> (\<forall>a\<in>set (x # ys). f' a = f a) \<Longrightarrow> linked f' x ys"
  by (induction ys arbitrary: x) auto

subsection \<open>A key that is present\<close>

lemma wf_frame:
  assumes wf: "db_wf p ns"
    and same: "db_cmp q = db_cmp p" "maxHeight q = maxHeight p" "length (prevNode q) = 12"
      "length (nodeData q) = length (nodeData p)"
    and nodes: "\<forall>a\<in>set ns. node_ok q a \<and> height_at q a = height_at p a \<and> key_at q a = key_at p a"
    and links: "\<forall>i<12. next_at q i 0 = next_at p i 0"
      "\<forall>a\<in>set ns. \<forall>i<height_at p a. next_at q i a = next_at p i a"
  shows "db_wf q ns"
proof -
  have lev: "level q i ns = level p i ns" for i
    using nodes by (auto simp: level_def intro: filter_cong)
  have "linked (next_at q i) 0 (level q i ns)" if i: "i < 12" for i
    unfolding lev
  proof (rule linked_cong)
    show "linked (next_at p i) 0 (level p i ns)"
      using wf i by (simp add: db_wf_def)
    show "\<forall>a\<in>set (0 # level p i ns). next_at q i a = next_at p i a"
      using links i by (auto simp: level_def)
  qed
  moreover have "sorted_wrt (\<lambda>a b. key_at q a < key_at q b) ns"
    using wf nodes by (auto simp: db_wf_def intro: sorted_wrt_mono_rel [rotated])
  moreover have "\<forall>a\<in>set ns. \<forall>b\<in>set ns. a \<noteq> b \<longrightarrow> apart q a b"
    using wf_apart [OF wf] nodes by (auto simp: apart_def)
  ultimately show ?thesis
    using wf same nodes by (auto simp: db_wf_def)
qed

lemma Put_exact_wf:
  assumes wf: "db_wf p ns" and n: "n \<in> set ns" "key_at p n = key"
    and q: "q = p\<lparr>kvData := kvData p @ (if value \<noteq> [] then key @ value else []),
                nodeData := (nodeData p)[n := if value \<noteq> [] then length (kvData p) else nodeData p ! n,
                                         n + 2 := length value], kvSize := sz\<rparr>"
  shows "db_wf q ns" and "\<forall>a\<in>set ns. pair_at q a = (if a = n then (key, value) else pair_at p a)"
proof -
  note no = wf_node [OF wf]
  have n': "16 \<le> n" "n + 4 \<le> length (nodeData p)"
    using no [OF n(1)] by (simp_all add: node_ok_def)
  have idx: "nodeData q ! x = nodeData p ! x" if "x \<noteq> n" "x \<noteq> n + 2" for x
    using q that by simp
  have other: "nodeData q ! (a + c) = nodeData p ! (a + c)"
    if "a \<in> set ns" "a \<noteq> n" "c < 4 + height_at p a" for a c
    using wf_apart [OF wf that(1) n(1) that(2)] that(3) by (intro idx) (auto simp: apart_def)
  have up: "nodeData q ! (a + c) = nodeData p ! (a + c)" if "a \<in> set ns" "3 \<le> c" "c < 4 + height_at p a" for a c
    using other that idx [of "a + c"] by (cases "a = n") auto
  have h: "height_at q a = height_at p a" if "a \<in> set ns" for a
    using up [OF that, of 3] by (simp add: height_at_def)
  have key: "length key = nodeData p ! (n + 1)"
    using node_reads(8) [OF wf n(1)] n(2) by simp
  show pair: "\<forall>a\<in>set ns. pair_at q a = (if a = n then (key, value) else pair_at p a)"
  proof
    fix a assume a: "a \<in> set ns"
    show "pair_at q a = (if a = n then (key, value) else pair_at p a)"
    proof (cases "a = n")
      case True
      then show ?thesis
        using q key n(2) n' by (auto simp: pair_at_def key_at_def val_at_def nth_list_update)
    next
      case False
      then show ?thesis
        using frame(1,2) [OF no [OF a], of q "if value \<noteq> [] then key @ value else []"] other [OF a False] q
        by (simp add: pair_at_def)
    qed
  qed
  have ok: "node_ok q a" if a: "a \<in> set ns" for a
  proof (cases "a = n")
    case True
    then show ?thesis
      using no [OF a] h [OF a] q key by (auto simp: node_ok_def nth_list_update)
  next
    case False
    then show ?thesis
      using no [OF a] h [OF a] q other [OF a False, of 0] other [OF a False, of 1] other [OF a False, of 2]
      by (auto simp: node_ok_def)
  qed
  show "db_wf q ns"
  proof (rule wf_frame [OF wf])
    show "\<forall>a\<in>set ns. node_ok q a \<and> height_at q a = height_at p a \<and> key_at q a = key_at p a"
      using ok h pair n(2) by (auto simp: pair_at_def split: if_splits)
    show "\<forall>i<12. next_at q i 0 = next_at p i 0"
      using idx n'(1) by (auto simp: next_at_def)
    show "\<forall>a\<in>set ns. \<forall>i<height_at p a. next_at q i a = next_at p i a"
      using up [of _ "4 + i" for i] by (auto simp: next_at_def add.assoc)
  qed (use wf q in \<open>auto simp: db_wf_def\<close>)
qed

subsection \<open>A new key\<close>

lemma link_loop_spec:
  assumes "\<forall>j<length ps. ps ! j + 4 + (i + j) < length nodes"
    "\<forall>j<length ps. \<forall>l<length ps. ps ! j + 4 + (i + j) = ps ! l + 4 + (i + l) \<longrightarrow> j = l"
  shows "\<exists>nodes'. link_loop node i ps nodes = Ok nodes' \<and> length nodes' = length nodes + length ps
    \<and> (\<forall>j<length ps. nodes' ! (length nodes + j) = nodes ! (ps ! j + 4 + (i + j))
                      \<and> nodes' ! (ps ! j + 4 + (i + j)) = node)
    \<and> (\<forall>x<length nodes. (\<forall>j<length ps. x \<noteq> ps ! j + 4 + (i + j)) \<longrightarrow> nodes' ! x = nodes ! x)"
  using assms
proof (induction ps arbitrary: i nodes)
  case Nil
  then show ?case by simp
next
  case (Cons n ps)
  let ?m = "n + 4 + i"
  let ?nodes = "(nodes @ [nodes ! ?m])[?m := node]"
  have m: "?m < length nodes"
    using Cons.prems(1) [rule_format, of 0] by simp
  have at: "ps ! j + 4 + (Suc i + j) = (n # ps) ! Suc j + 4 + (i + Suc j)" for j
    by simp
  have lt: "ps ! j + 4 + (Suc i + j) < length nodes" if "j < length ps" for j
    unfolding at using that by (intro Cons.prems(1) [rule_format]) simp
  have ne: "ps ! j + 4 + (Suc i + j) \<noteq> ?m" if "j < length ps" for j
    using Cons.prems(2) [rule_format, of "Suc j" 0] that by (auto simp: at)
  have "\<forall>j<length ps. \<forall>l<length ps. ps ! j + 4 + (Suc i + j) = ps ! l + 4 + (Suc i + l) \<longrightarrow> j = l"
    using Cons.prems(2) [rule_format, of "Suc j" "Suc l" for j l] by auto
  then obtain nodes' where n': "link_loop node (Suc i) ps ?nodes = Ok nodes'"
    "length nodes' = Suc (length nodes) + length ps"
    "\<forall>j<length ps. nodes' ! (Suc (length nodes) + j) = ?nodes ! (ps ! j + 4 + (Suc i + j))
                      \<and> nodes' ! (ps ! j + 4 + (Suc i + j)) = node"
    "\<forall>x<Suc (length nodes). (\<forall>j<length ps. x \<noteq> ps ! j + 4 + (Suc i + j)) \<longrightarrow> nodes' ! x = ?nodes ! x"
    using Cons.IH [of "Suc i" ?nodes] lt by (auto simp: less_Suc_eq)
  have old: "?nodes ! (ps ! j + 4 + (Suc i + j)) = nodes ! (ps ! j + 4 + (Suc i + j))" if "j < length ps" for j
    using lt [OF that] ne [OF that] by (simp add: nth_append)
  have "nodes' ! ?m = ?nodes ! ?m" "nodes' ! length nodes = ?nodes ! length nodes"
    using m ne lt by (intro n'(4) [rule_format]; force)+
  then have z: "nodes' ! ?m = node" "nodes' ! length nodes = nodes ! ?m"
    using m by (simp_all add: nth_append)
  have "nodes' ! (length nodes + j) = nodes ! ((n # ps) ! j + 4 + (i + j))
      \<and> nodes' ! ((n # ps) ! j + 4 + (i + j)) = node" if "j < length (n # ps)" for j
  proof (cases j)
    case (Suc l)
    then show ?thesis
      using n'(3) [rule_format, of l] old [of l] that by simp
  qed (use z in simp)
  moreover have "nodes' ! x = nodes ! x" if "x < length nodes" and x: "\<forall>j<length (n # ps). x \<noteq> (n # ps) ! j + 4 + (i + j)" for x
  proof -
    have "x \<noteq> ps ! j + 4 + (Suc i + j)" if "j < length ps" for j
      unfolding at using that by (intro x [rule_format]) simp
    then have "nodes' ! x = ?nodes ! x"
      using that(1) by (intro n'(4) [rule_format]) auto
    then show ?thesis
      using that(1) x [rule_format, of 0] by (simp add: nth_append)
  qed
  ultimately show ?case
    using n'(1,2) m by (simp add: nNext_def Let_def)
qed

lemma linked_insert:
  assumes "linked f x (xs @ ys)" "distinct (x # xs @ ys)" "f' (last (x # xs)) = n" "f' n = f (last (x # xs))"
    "\<forall>a\<in>set (x # xs @ ys). a \<noteq> last (x # xs) \<longrightarrow> f' a = f a"
  shows "linked f' x (xs @ n # ys)"
  using assms
proof (induction xs arbitrary: x)
  case Nil
  then have "linked f' (f x) (tl ys)" if "ys \<noteq> []"
    using that by (cases ys) (auto intro!: linked_cong [of f])
  then show ?case
    using Nil by (cases ys) auto
next
  case (Cons y xs)
  have "x \<noteq> last (y # xs)"
    using Cons.prems(2) last_in_set [of "y # xs"] by auto
  then have "f' x = y"
    using Cons.prems by auto
  then show ?case
    using Cons.IH [of y] Cons.prems by auto
qed

text \<open>The room of a node, the head included, and that two nodes share no entry.\<close>

definition room :: "MemDB \<Rightarrow> nat \<Rightarrow> nat" where
  "room p a = (if a = 0 then 12 else height_at p a)"

lemma entry_inj:
  assumes wf: "db_wf p ns" and a: "a = 0 \<or> a \<in> set ns" "c < 4 + room p a"
    and b: "b = 0 \<or> b \<in> set ns" "d < 4 + room p b" and eq: "a + c = b + d"
  shows "a = b" and "c = d"
proof -
  have ge: "16 \<le> x" if "x \<in> set ns" for x
    using wf_node [OF wf that] by (simp add: node_ok_def)
  show "a = b"
  proof (rule ccontr)
    assume "a \<noteq> b"
    then show False
      using assms ge wf_apart [OF wf, of a b] by (auto simp: apart_def room_def split: if_splits dest!: ge)
  qed
  then show "c = d" using eq by simp
qed

lemma entry_bound:
  assumes wf: "db_wf p ns" and a: "a = 0 \<or> a \<in> set ns" "c < 4 + room p a"
  shows "a + c < length (nodeData p)"
  using a wf wf_node [OF wf, of a] by (auto simp: node_ok_def room_def db_wf_def split: if_splits)

lemma pred_room:
  assumes wf: "db_wf p ns" and i: "i < 12"
  shows "pred_at p key i ns = 0 \<or> pred_at p key i ns \<in> set ns" and "i < room p (pred_at p key i ns)"
proof -
  let ?xs = "takeWhile (\<lambda>n. key_at p n < key) (level p i ns)"
  have "pred_at p key i ns = 0 \<or> pred_at p key i ns \<in> set (level p i ns)"
    using set_takeWhileD [OF last_in_set, of _ "level p i ns"] by (auto simp: pred_at_def)
  then show "pred_at p key i ns = 0 \<or> pred_at p key i ns \<in> set ns" "i < room p (pred_at p key i ns)"
    using i by (auto simp: room_def level_def)
qed

text \<open>What the insertion of a node \<open>n\<close> of height \<open>h\<close> does to the array of nodes.\<close>

definition inserted :: "MemDB \<Rightarrow> nat list \<Rightarrow> bytes \<Rightarrow> bytes \<Rightarrow> nat \<Rightarrow> MemDB \<Rightarrow> bool" where
  "inserted p ns key value h q \<longleftrightarrow> (let n = length (nodeData p) in
     db_cmp q = db_cmp p \<and> maxHeight q = max (maxHeight p) h \<and> length (prevNode q) = 12
     \<and> kvData q = kvData p @ key @ value \<and> length (nodeData q) = n + 4 + h
     \<and> nodeData q ! n = length (kvData p) \<and> nodeData q ! (n + 1) = length key
     \<and> nodeData q ! (n + 2) = length value \<and> height_at q n = h
     \<and> (\<forall>i<h. next_at q i n = next_at p i (pred_at p key i ns) \<and> next_at q i (pred_at p key i ns) = n)
     \<and> (\<forall>x<n. (\<forall>i<h. x \<noteq> pred_at p key i ns + 4 + i) \<longrightarrow> nodeData q ! x = nodeData p ! x))"

lemma inserted_entry:
  assumes wf: "db_wf p ns" and ins: "inserted p ns key value h q" and h: "h \<le> 12"
    and a: "a = 0 \<or> a \<in> set ns" "c < 4 + room p a"
    and other: "\<forall>i<h. a = pred_at p key i ns \<longrightarrow> c \<noteq> 4 + i"
  shows "nodeData q ! (a + c) = nodeData p ! (a + c)"
proof -
  have "a + c \<noteq> pred_at p key i ns + 4 + i" if i: "i < h" for i
  proof
    assume eq: "a + c = pred_at p key i ns + 4 + i"
    have "i < 12" using i h by simp
    then have "a = pred_at p key i ns \<and> c = 4 + i"
      using entry_inj [OF wf a, of "pred_at p key i ns" "4 + i"] pred_room [OF wf, of i key] eq by simp
    then show False using other i by blast
  qed
  then show ?thesis
    using ins entry_bound [OF wf a] by (simp add: inserted_def Let_def)
qed

lemma inserted_node:
  assumes wf: "db_wf p ns" and ins: "inserted p ns key value h q" and h: "h \<le> 12" and a: "a \<in> set ns"
  shows "pair_at q a = pair_at p a" "height_at q a = height_at p a" "node_ok q a"
proof -
  have same: "\<forall>c<4. nodeData q ! (a + c) = nodeData p ! (a + c)"
    using inserted_entry [OF wf ins h, of a] a by auto
  have kv: "kvData q = kvData p @ key @ value"
    using ins by (simp add: inserted_def Let_def)
  note f = frame [OF wf_node [OF wf a] same kv]
  then show "pair_at q a = pair_at p a" "height_at q a = height_at p a"
    by (simp_all add: pair_at_def)
  show "node_ok q a"
    using wf_node [OF wf a] f(3) same [rule_format, of 0] same [rule_format, of 1] same [rule_format, of 2] ins
    by (auto simp: node_ok_def inserted_def Let_def)
qed

lemma inserted_new:
  assumes wf: "db_wf p ns" and ins: "inserted p ns key value h q" and h: "1 \<le> h"
  shows "pair_at q (length (nodeData p)) = (key, value)" "node_ok q (length (nodeData p))"
  using assms by (auto simp: inserted_def Let_def pair_at_def key_at_def val_at_def node_ok_def db_wf_def)

text \<open>The nodes below the key and those above it.\<close>

lemma absent_split:
  assumes wf: "db_wf p ns" and absent: "\<forall>n\<in>set ns. key_at p n \<noteq> key"
  obtains xs ys where "ns = xs @ ys" "\<forall>n\<in>set xs. key_at p n < key" "\<forall>n\<in>set ys. key < key_at p n"
    "\<And>i. pred_at p key i ns = last (0 # level p i xs)"
proof -
  define xs ys where "xs = takeWhile (\<lambda>n. key_at p n < key) ns" and "ys = dropWhile (\<lambda>n. key_at p n < key) ns"
  have ns: "ns = xs @ ys"
    by (simp add: xs_def ys_def)
  have below: "\<forall>n\<in>set xs. key_at p n < key"
    by (auto simp: xs_def dest: set_takeWhileD)
  have above: "key < key_at p n" if n: "n \<in> set ys" for n
  proof -
    obtain b bs where b: "ys = b # bs"
      using n by (cases ys) auto
    have "\<not> key_at p b < key"
      using b by (simp add: ys_def dropWhile_eq_Cons_conv)
    then have "key < key_at p b"
      using absent ns b by (metis in_set_conv_decomp linorder_less_linear)
    moreover have "n = b \<or> key_at p b < key_at p n"
      using wf n ns b by (auto simp: db_wf_def sorted_wrt_append)
    ultimately show ?thesis by auto
  qed
  have "pred_at p key i ns = last (0 # level p i xs)" for i
  proof -
    have "takeWhile (\<lambda>n. key_at p n < key) (level p i xs @ level p i ys) = level p i xs"
    proof (rule sorted_cut(1))
      show "sorted_wrt (\<lambda>a b. key_at p a < key_at p b) (level p i xs @ level p i ys)"
        using level_sorted [OF wf, of i] by (simp add: level_def ns)
      show "\<forall>a\<in>set (level p i xs). key_at p a < key"
        using below by (auto simp: level_def)
      show "\<not> key_at p (hd (level p i ys)) < key" if "level p i ys \<noteq> []"
        using above [of "hd (level p i ys)"] hd_in_set [OF that] by (auto simp: level_def)
    qed
    then show ?thesis
      by (simp add: pred_at_def ns level_def)
  qed
  then show ?thesis
    using that ns below above by blast
qed

lemma level_distinct: "db_wf p ns \<Longrightarrow> distinct (0 # level p i ns)"
proof -
  assume wf: "db_wf p ns"
  have "distinct ns"
    using wf_keys [OF wf] by (simp add: strict_sorted_iff distinct_map)
  then show ?thesis
    using level_node [OF wf] by (auto simp: level_def)
qed

lemma inserted_links:
  assumes wf: "db_wf p ns" and ins: "inserted p ns key value h q" and h: "h \<le> 12" and i: "i < 12"
    and ns: "ns = xs @ ys" and pred: "pred_at p key i ns = last (0 # level p i xs)"
  shows "linked (next_at q i) 0 (level p i xs @ (if i < h then [length (nodeData p)] else []) @ level p i ys)"
proof -
  have lev: "level p i ns = level p i xs @ level p i ys"
    by (simp add: ns level_def)
  have old: "linked (next_at p i) 0 (level p i xs @ level p i ys)"
    using wf i by (simp add: db_wf_def flip: lev)
  have same: "next_at q i a = next_at p i a"
    if "a \<in> set (0 # level p i xs @ level p i ys)" "i < h \<longrightarrow> a \<noteq> pred_at p key i ns" for a
  proof -
    have "a = 0 \<or> a \<in> set ns" "4 + i < 4 + room p a"
      using that(1) i by (auto simp: ns level_def room_def)
    then show ?thesis
      using inserted_entry [OF wf ins h, of a "4 + i"] that(2) by (auto simp: next_at_def add.assoc)
  qed
  show ?thesis
  proof (cases "i < h")
    case True
    have "linked (next_at q i) 0 (level p i xs @ length (nodeData p) # level p i ys)"
    proof (rule linked_insert [OF old])
      show "distinct (0 # level p i xs @ level p i ys)"
        using level_distinct [OF wf, of i] by (simp add: lev)
    qed (use True ins same pred in \<open>auto simp: inserted_def Let_def\<close>)
    then show ?thesis using True by simp
  next
    case False
    then show ?thesis
      using linked_cong [OF old, of "next_at q i"] same by simp
  qed
qed

lemma inserted_wf:
  assumes wf: "db_wf p ns" and ins: "inserted p ns key value h q" and h: "1 \<le> h" "h \<le> 12"
    and absent: "\<forall>n\<in>set ns. key_at p n \<noteq> key"
  shows "\<exists>ns'. db_wf q ns' \<and> map (pair_at q) ns' = kv_upd key value (map (pair_at p) ns)"
proof -
  let ?n = "length (nodeData p)"
  obtain xs ys where ns: "ns = xs @ ys" and below: "\<forall>n\<in>set xs. key_at p n < key"
    and above: "\<forall>n\<in>set ys. key < key_at p n" and pred: "\<And>i. pred_at p key i ns = last (0 # level p i xs)"
    by (rule absent_split [OF wf absent]) blast
  note old = inserted_node [OF wf ins h(2)] and new = inserted_new [OF wf ins h(1)]
  have key: "key_at q a = key_at p a" if "a \<in> set ns" for a
    using old(1) [OF that] by (simp add: pair_at_def)
  have newkey: "key_at q ?n = key" "height_at q ?n = h"
    using new(1) ins by (simp_all add: pair_at_def inserted_def Let_def)
  have lev: "level q i (xs @ ?n # ys) = level p i xs @ (if i < h then [?n] else []) @ level p i ys" for i
    using old(2) newkey filter_cong [OF refl, of xs "\<lambda>a. i < height_at q a" "\<lambda>a. i < height_at p a"]
      filter_cong [OF refl, of ys "\<lambda>a. i < height_at q a" "\<lambda>a. i < height_at p a"]
    by (simp add: level_def ns)
  have apart: "apart q a b" if "a \<in> set ns" "b \<in> set ns" "a \<noteq> b" for a b
    using wf_apart [OF wf that] old(2) that by (simp add: apart_def)
  have apart': "a + 4 + height_at q a \<le> ?n" if "a \<in> set ns" for a
    using wf_node [OF wf that] old(2) [OF that] by (simp add: node_ok_def)
  have "sorted_wrt (\<lambda>a b. key_at q a < key_at q b) ns"
    using wf key by (auto simp: db_wf_def intro: sorted_wrt_mono_rel [rotated])
  then have "sorted_wrt (\<lambda>a b. key_at q a < key_at q b) (xs @ ?n # ys)"
    using below above newkey key by (auto simp: sorted_wrt_append ns)
  moreover have "\<forall>i<12. linked (next_at q i) 0 (level q i (xs @ ?n # ys))"
    using inserted_links [OF wf ins h(2) _ ns pred] by (simp add: lev)
  moreover have "\<forall>a\<in>set (xs @ ?n # ys). node_ok q a"
    using old(3) new(2) by (auto simp: ns)
  moreover have "\<forall>a\<in>set (xs @ ?n # ys). \<forall>b\<in>set (xs @ ?n # ys). a \<noteq> b \<longrightarrow> apart q a b"
    using apart apart' by (auto simp: ns apart_def)
  ultimately have "db_wf q (xs @ ?n # ys)"
    using wf ins h by (auto simp: db_wf_def inserted_def Let_def)
  moreover have "map (pair_at q) (xs @ ?n # ys) = kv_upd key value (map (pair_at p) xs @ map (pair_at p) ys)"
  proof (subst kv_upd_new)
    show "\<forall>(a, b)\<in>set (map (pair_at p) xs). a < key" "\<forall>(a, b)\<in>set (map (pair_at p) ys). key < a"
      using below above by (auto simp: pair_at_def)
  qed (use old(1) new(1) in \<open>auto simp: ns\<close>)
  ultimately show ?thesis
    using ns by (metis map_append)
qed

subsection \<open>Put and Delete\<close>

lemma randHeight_loop_range: "1 \<le> h \<Longrightarrow> h \<le> 12 \<Longrightarrow> 1 \<le> fst (randHeight_loop h r) \<and> fst (randHeight_loop h r) \<le> 12"
proof (induction h r rule: randHeight_loop.induct)
  case (1 h r)
  then show ?case
    by (subst (1 2) randHeight_loop.simps) (auto simp: tMaxHeight_def)
qed

lemma randHeight_range:
  obtains h r where "randHeight p = (h, p\<lparr>db_rnd := r\<rparr>)" "1 \<le> h" "h \<le> 12"
  using randHeight_loop_range [of 1 "db_rnd p"] by (cases "randHeight_loop 1 (db_rnd p)") (auto simp: randHeight_def)

lemma wf_prevs: "db_wf p ns \<Longrightarrow> length ps = 12 \<Longrightarrow> db_wf (p\<lparr>prevNode := ps\<rparr>) ns"
  by (simp add: db_wf_def node_ok_def apart_def key_at_def level_def height_at_def next_at_def [abs_def])

lemma pair_prevs: "pair_at (p\<lparr>prevNode := ps\<rparr>) n = pair_at p n"
  by (simp add: pair_at_def key_at_def val_at_def)

lemma Put_exact:
  assumes wf: "db_wf p ns" and n: "n \<in> set ns" "key_at p n = key" "geq_at p key ns = n"
  shows "\<exists>q. db_Put key value p = Ok q \<and> db_wf q ns
    \<and> map (pair_at q) ns = kv_upd key value (map (pair_at p) ns)
    \<and> db_n q = db_n p \<and> kvSize q = kvSize p + int (length value) - int (length (val_at p n))"
proof -
  have n0: "n \<noteq> 0" and len: "n + 2 < length (nodeData p)"
    using wf_node [OF wf n(1)] by (simp_all add: node_ok_def)
  obtain prevs where ge: "findGE key True p = Ok ((n, True), p\<lparr>prevNode := prevs\<rparr>)" and l: "length prevs = 12"
    using findGE_spec [OF wf, of key True] n n0 by auto
  define p1 where "p1 = p\<lparr>prevNode := prevs\<rparr>"
  have wf1: "db_wf p1 ns" and pair1: "\<And>a. pair_at p1 a = pair_at p a"
    using wf_prevs [OF wf l] pair_prevs by (simp_all add: p1_def)
  define q where "q = p1\<lparr>kvData := kvData p1 @ (if value \<noteq> [] then key @ value else []),
       nodeData := (nodeData p1)[n := if value \<noteq> [] then length (kvData p1) else nodeData p1 ! n,
                                 n + 2 := length value],
       kvSize := kvSize p + int (length value) - int (length (val_at p n))\<rparr>"
  have q: "db_wf q ns" "\<forall>a\<in>set ns. pair_at q a = (if a = n then (key, value) else pair_at p1 a)"
    using Put_exact_wf [OF wf1 n(1) _ q_def] n(2) pair1 [of n] by (auto simp: pair_at_def)
  have "db_Put key value p = Ok q"
    using ge len node_reads(7) [OF wf n(1)]
    by (cases "value = []") (simp_all add: db_Put_def q_def nVal_def nd_def p1_def Let_def)
  moreover obtain xs ys where ns: "ns = xs @ n # ys"
    using n(1) by (meson split_list)
  have "map (pair_at q) ns = map (pair_at p) xs @ (key, value) # map (pair_at p) ys"
    using q(2) pair1 level_distinct [OF wf, of 0] level_0 [OF wf] by (auto simp: ns)
  moreover have "kv_upd key value (map (pair_at p) ns) = map (pair_at p) xs @ (key, value) # map (pair_at p) ys"
    using kv_upd_exact [of "map (pair_at p) xs" key "value"] wf n(2)
    by (auto simp: ns pair_at_def db_wf_def sorted_wrt_append)
  ultimately show ?thesis
    using q(1) by (simp add: q_def p1_def)
qed

lemma Put_new_nodes:
  assumes wf: "db_wf p ns" and h: "h \<le> 12" and pv: "length pv = 12" "\<forall>i<h. pv ! i = pred_at p key i ns"
    and base: "base = nodeData p @ four" "length four = 4"
  shows "\<exists>nodes. link_loop (length (nodeData p)) 0 (take h pv) base = Ok nodes
    \<and> length nodes = length (nodeData p) + 4 + h
    \<and> (\<forall>i<h. nodes ! (length (nodeData p) + 4 + i) = nodeData p ! (pred_at p key i ns + 4 + i)
            \<and> nodes ! (pred_at p key i ns + 4 + i) = length (nodeData p))
    \<and> (\<forall>x<length (nodeData p). (\<forall>i<h. x \<noteq> pred_at p key i ns + 4 + i) \<longrightarrow> nodes ! x = nodeData p ! x)
    \<and> (\<forall>c<4. nodes ! (length (nodeData p) + c) = four ! c)"
proof -
  have bound: "pred_at p key i ns + 4 + i < length (nodeData p)" if i: "i < h" for i
  proof -
    have "i < 12" using i h by simp
    then show ?thesis
      using entry_bound [OF wf pred_room(1) [OF wf], of i "4 + i" key] pred_room(2) [OF wf, of i key] by simp
  qed
  have inj: "i = j" if "i < h" "j < h" "pred_at p key i ns + 4 + i = pred_at p key j ns + 4 + j" for i j
    using entry_inj(2) [OF wf, of "pred_at p key i ns" "4 + i" "pred_at p key j ns" "4 + j"]
      pred_room [OF wf, of i key] pred_room [OF wf, of j key] that h by simp
  have at: "take h pv ! i + 4 + (0 + i) = pred_at p key i ns + 4 + i" if "i < length (take h pv)" for i
    using that pv by simp
  have len: "length (take h pv) = h"
    using pv(1) h by simp
  have b: "base ! x = nodeData p ! x" if "x < length (nodeData p)" for x
    using base that by (simp add: nth_append)
  obtain nodes where nodes: "link_loop (length (nodeData p)) 0 (take h pv) base = Ok nodes"
    "length nodes = length base + h"
    "\<forall>i<h. nodes ! (length base + i) = base ! (take h pv ! i + 4 + (0 + i))
          \<and> nodes ! (take h pv ! i + 4 + (0 + i)) = length (nodeData p)"
    "\<forall>x<length base. (\<forall>i<h. x \<noteq> take h pv ! i + 4 + (0 + i)) \<longrightarrow> nodes ! x = base ! x"
    using link_loop_spec [of "take h pv" 0 base "length (nodeData p)"] bound inj at base unfolding len by fastforce
  have "nodes ! (length (nodeData p) + c) = four ! c" if "c < 4" for c
    using nodes(4) [rule_format, of "length (nodeData p) + c"] bound at len base that by (force simp: nth_append)
  moreover have "nodes ! x = nodeData p ! x"
    if "x < length (nodeData p)" "\<forall>i<h. x \<noteq> pred_at p key i ns + 4 + i" for x
    using nodes(4) [rule_format, of x] at len base b that by simp
  ultimately show ?thesis
    using nodes(1,2,3) at len b bound base by (intro exI [of _ nodes]) simp
qed

lemma Put_new:
  assumes wf: "db_wf p ns" and absent: "\<forall>n\<in>set ns. key_at p n \<noteq> key"
  shows "\<exists>q ns'. db_Put key value p = Ok q \<and> db_wf q ns'
    \<and> map (pair_at q) ns' = kv_upd key value (map (pair_at p) ns)
    \<and> db_n q = db_n p + 1 \<and> kvSize q = kvSize p + int (length key + length value)"
proof -
  have "\<not> (geq_at p key ns \<noteq> 0 \<and> key_at p (geq_at p key ns) = key)"
    using geq_at_node absent by blast
  then obtain prevs node where ge: "findGE key True p = Ok ((node, False), p\<lparr>prevNode := prevs\<rparr>)"
    and l: "length prevs = 12" and prevs: "\<forall>i<maxHeight p. prevs ! i = pred_at p key i ns"
    using findGE_spec [OF wf, of key True] by auto
  obtain h r where h: "randHeight (p\<lparr>prevNode := prevs\<rparr>) = (h, p\<lparr>prevNode := prevs, db_rnd := r\<rparr>)" "1 \<le> h" "h \<le> 12"
    using randHeight_range [of "p\<lparr>prevNode := prevs\<rparr>"] by auto
  define pv where "pv = (if h > maxHeight p then map (\<lambda>i. if maxHeight p \<le> i \<and> i < h then 0 else prevs ! i) [0..<12]
                         else prevs)"
  let ?four = "[length (kvData p), length key, length value, h]"
  have empty: "pred_at p key i ns = 0" if "maxHeight p \<le> i" for i
  proof -
    have "level p i ns = []"
      using wf_node [OF wf] that by (force simp: level_def node_ok_def filter_empty_conv)
    then show ?thesis by (simp add: pred_at_def)
  qed
  have pv: "length pv = 12" "\<forall>i<h. pv ! i = pred_at p key i ns"
    using l prevs empty h by (auto simp: pv_def)
  obtain nodes where link: "link_loop (length (nodeData p)) 0 (take h pv) (nodeData p @ ?four) = Ok nodes"
    and nodes: "length nodes = length (nodeData p) + 4 + h"
    "\<forall>i<h. nodes ! (length (nodeData p) + 4 + i) = nodeData p ! (pred_at p key i ns + 4 + i)
            \<and> nodes ! (pred_at p key i ns + 4 + i) = length (nodeData p)"
    "\<forall>x<length (nodeData p). (\<forall>i<h. x \<noteq> pred_at p key i ns + 4 + i) \<longrightarrow> nodes ! x = nodeData p ! x"
    and own: "\<forall>c<4. nodes ! (length (nodeData p) + c) = ?four ! c"
    using Put_new_nodes [OF wf h(3) pv refl, of ?four] by auto
  define q where "q = p\<lparr>db_rnd := r, prevNode := pv, maxHeight := max (maxHeight p) h,
     kvData := kvData p @ key @ value, nodeData := nodes, kvSize := kvSize p + int (length key + length value),
     db_n := db_n p + 1\<rparr>"
  have put: "db_Put key value p = Ok q"
    using ge h link l by (cases "h > maxHeight p") (simp_all add: db_Put_def q_def pv_def max_def cong: if_cong)
  have "inserted p ns key value h q"
    using nodes pv(1) own [rule_format, of 0] own [rule_format, of 1] own [rule_format, of 2] own [rule_format, of 3]
    by (simp add: inserted_def Let_def q_def height_at_def next_at_def)
  then show ?thesis
    using put inserted_wf [OF wf _ h(2,3) absent] by (auto simp: q_def)
qed

text \<open>The store holds the pairs: the nodes are in order, and the counters count them.\<close>

definition kv_bytes :: "(bytes \<times> bytes) list \<Rightarrow> int" where
  "kv_bytes kvs = (\<Sum>(k, v)\<leftarrow>kvs. int (length k + length v))"

definition db_holds :: "MemDB \<Rightarrow> (bytes \<times> bytes) list \<Rightarrow> bool" where
  "db_holds p kvs \<longleftrightarrow> db_rep p kvs \<and> db_n p = length kvs \<and> kvSize p = kv_bytes kvs"

lemma kv_upd_present:
  assumes "sorted_wrt (<) (map fst kvs)" "map_of kvs k = Some w"
  shows "length (kv_upd k v kvs) = length kvs" "kv_bytes (kv_upd k v kvs) = kv_bytes kvs + int (length v) - int (length w)"
  using assms by (induction k v kvs rule: kv_upd.induct) (auto simp: kv_bytes_def dest!: map_of_SomeD split: if_splits)

lemma kv_upd_absent:
  assumes "map_of kvs k = None"
  shows "length (kv_upd k v kvs) = length kvs + 1" "kv_bytes (kv_upd k v kvs) = kv_bytes kvs + int (length k + length v)"
  using assms by (induction k v kvs rule: kv_upd.induct) (auto simp: kv_bytes_def split: if_splits)

lemma db_rep_sorted: "db_rep p kvs \<Longrightarrow> sorted_wrt (<) (map fst kvs)"
  using wf_keys by (auto simp: db_rep_pair pair_at_def comp_def)

lemma db_Put_spec:
  assumes "db_holds p kvs"
  shows "\<exists>q. db_Put k v p = Ok q \<and> db_holds q (kv_upd k v kvs)"
proof -
  obtain ns where wf: "db_wf p ns" and kvs: "kvs = map (pair_at p) ns"
    and n: "db_n p = length kvs" "kvSize p = kv_bytes kvs"
    using assms by (auto simp: db_holds_def db_rep_pair)
  have sorted: "sorted_wrt (<) (map fst kvs)"
    by (rule db_rep_sorted [of p]) (use assms in \<open>simp add: db_holds_def\<close>)
  let ?n = "geq_at p k ns"
  show ?thesis
  proof (cases "?n \<noteq> 0 \<and> key_at p ?n = k")
    case True
    have w: "map_of kvs k = Some (val_at p ?n)"
      using map_of_pairs [OF wf, of k] True by (simp add: kvs)
    have "?n \<in> set ns" "key_at p ?n = k"
      using True geq_at_node by auto
    from Put_exact [OF wf this refl, of v] obtain q where "db_Put k v p = Ok q" "db_wf q ns"
      "map (pair_at q) ns = kv_upd k v kvs" "db_n q = db_n p" "kvSize q = kvSize p + int (length v) - int (length (val_at p ?n))"
      by (auto simp: kvs)
    then show ?thesis
      using kv_upd_present [OF sorted w, of v] n by (intro exI [of _ q]) (auto simp: db_holds_def db_rep_pair)
  next
    case False
    have w: "map_of kvs k = None"
      using map_of_pairs [OF wf, of k] False by (auto simp: kvs Let_def)
    then have "\<forall>a\<in>set ns. key_at p a \<noteq> k"
      by (force simp: kvs map_of_eq_None_iff pair_at_def)
    from Put_new [OF wf this, of v] obtain q ns' where "db_Put k v p = Ok q" "db_wf q ns'"
      "map (pair_at q) ns' = kv_upd k v kvs" "db_n q = db_n p + 1" "kvSize q = kvSize p + int (length k + length v)"
      by (auto simp: kvs)
    then show ?thesis
      using kv_upd_absent [OF w, of v] n by (intro exI [of _ q]) (auto simp: db_holds_def db_rep_pair)
  qed
qed

lemma NewMemDB_holds: "byte_order c \<Longrightarrow> db_holds (NewMemDB c rnd) []"
  by (simp add: db_holds_def NewMemDB_rep kv_bytes_def) (simp add: NewMemDB_def)

lemma db_Reset_holds: "db_holds p kvs \<Longrightarrow> db_holds (db_Reset rnd p) []"
  by (auto simp: db_holds_def kv_bytes_def intro: db_Reset_rep) (simp_all add: db_Reset_def)

text \<open>A history of calls of \<open>Put\<close>, a deletion being a \<open>Put\<close> of the empty value.\<close>

lemma Puts_holds:
  assumes "db_holds p kvs"
  shows "\<exists>q kvs'. fold_res db_Put ops p = Ok q \<and> db_holds q kvs' \<and> map_of kvs' = map_of kvs ++ map_of (rev ops)"
  using assms
proof (induction ops arbitrary: p kvs)
  case Nil
  then show ?case by auto
next
  case (Cons kv ops)
  obtain k v where kv: "kv = (k, v)" by (cases kv)
  obtain q where q: "db_Put k v p = Ok q" "db_holds q (kv_upd k v kvs)"
    using db_Put_spec [OF Cons.prems] by blast
  have "map_of (kv_upd k v kvs) ++ map_of (rev ops) = map_of kvs ++ map_of (rev (kv # ops))"
    by (auto simp: kv map_of_kv_upd map_add_def fun_eq_iff split: option.split)
  then show ?case
    using Cons.IH [OF q(2)] q(1) by (simp add: kv)
qed

text \<open>
  C31. The skip list is a sorted map. After any sequence of calls of \<open>Put\<close> (a deletion is a \<open>Put\<close> of the
  empty value) on a new store, none of which panics or fails to end whatever the random heights are,
  \<open>Get\<close> returns the value last put under the key, nil when that is empty, and reports exactly the keys
  never put as unknown; \<open>ForEach\<close> visits every key once with its value, in the byte order of the keys;
  and \<open>Len\<close> counts the keys and \<open>Size\<close> the bytes of the keys and values. A deleted key is still a key of the map, with the
  empty value: \<open>Len\<close> and \<open>Size\<close> count it, although the comment on \<open>Size\<close> says that deleted entries are not accounted for.
\<close>

theorem memdb_is_sorted_map:
  assumes "byte_order c"
  shows "\<exists>p kvs. fold_res db_Put ops (NewMemDB c rnd) = Ok p
    \<and> sorted_wrt (<) (map fst kvs) \<and> map_of kvs = map_of (rev ops)
    \<and> (\<forall>key. db_Get key p = Ok (case map_of (rev ops) key of
          None \<Rightarrow> (None, True) | Some v \<Rightarrow> (if v = [] then None else Some v, False)))
    \<and> (\<forall>f (s :: 's). ForEach f p s = fold_res f kvs s)
    \<and> db_Len p = length kvs \<and> db_Size p = (\<Sum>(k, v)\<leftarrow>kvs. int (length k + length v))"
proof -
  obtain p kvs where p: "fold_res db_Put ops (NewMemDB c rnd) = Ok p" "db_holds p kvs" "map_of kvs = map_of (rev ops)"
    using Puts_holds [OF NewMemDB_holds [OF assms, of rnd], of ops] by auto
  then have rep: "db_rep p kvs" "db_n p = length kvs" "kvSize p = kv_bytes kvs"
    by (simp_all add: db_holds_def)
  have "\<forall>key. db_Get key p = Ok (case map_of (rev ops) key of
      None \<Rightarrow> (None, True) | Some v \<Rightarrow> (if v = [] then None else Some v, False))"
    using db_Get_spec [OF rep(1)] p(3) by (simp add: nil_if_empty_def split: option.split)
  moreover have "\<forall>f (s :: 's). ForEach f p s = fold_res f kvs s"
    using ForEach_spec [OF rep(1)] by blast
  ultimately show ?thesis
    using p(1,3) db_rep_sorted [OF rep(1)] rep(2,3)
    by (intro exI [of _ p] exI [of _ kvs]) (simp add: db_Len_def db_Size_def kv_bytes_def)
qed

theorem memdb_is_sorted_map_witness:
  "\<exists>p. fold_res db_Put [([1], [7]), ([0], [8]), ([1], [])] (NewMemDB bytes_compare (sconst 0)) = Ok p
    \<and> db_Get [1] p = Ok (None, False) \<and> db_Get [0] p = Ok (Some [8], False) \<and> db_Get [2] p = Ok (None, True)"
  using memdb_is_sorted_map [OF byte_order_bytes_compare, where 's = unit, of "[([1], [7]), ([0], [8]), ([1], [])]" "sconst 0"]
  by auto

end
