(* ===== verification/MemIter.thy ===== *)
theory MemIter
  imports MemDB
begin

text \<open>
  The iterator of the in-memory store, \<open>dbIter\<close> of \<open>src/core/store/overlaydb/memdb.go\<close>, and the
  interface \<open>StoreIterator\<close> of \<open>src/core/store/common/store.go\<close> which the layers above it use. A range
  (\<open>util.Range\<close>) is a pair of bounds, nil as \<open>None\<close>; the store the iterator points to is an argument of
  its methods, and \<open>it_released\<close> is what \<open>Released\<close> of the embedded \<open>util.BasicReleaser\<close> returns.

  The locale \<open>pair_iter\<close> states what a client of the interface relies on, and \<open>store_iter\<close> adds the order
  of the keys. They are interpreted here for \<open>dbIter\<close>, forwards and backwards.
\<close>

section \<open>The iterator\<close>

type_synonym bytes_range = "bytes option \<times> bytes option"

record dbIter =
  it_slice :: "bytes_range option"
  it_node :: nat
  it_forward :: bool
  it_key :: "bytes option"
  it_value :: "bytes option"
  it_err :: "err option"
  it_released :: bool

definition NewIterator :: "bytes_range option \<Rightarrow> dbIter" where
  "NewIterator rng =
     \<lparr>it_slice = rng, it_node = 0, it_forward = False, it_key = None, it_value = None, it_err = None,
      it_released = False\<rparr>"

definition ErrIterReleased :: err where
  "ErrIterReleased = ''leveldb/memdb: iterator released''"

text \<open>The two cases of the switch: the key is not below the limit, or is below the start.\<close>

definition outside :: "MemDB \<Rightarrow> bytes_range option \<Rightarrow> bool \<Rightarrow> bool \<Rightarrow> bytes \<Rightarrow> bool" where
  "outside p rng checkStart checkLimit key =
     (case rng of None \<Rightarrow> False
      | Some (Start, Limit) \<Rightarrow>
          checkLimit \<and> (case Limit of None \<Rightarrow> False | Some l \<Rightarrow> db_cmp p key l \<ge> 0)
          \<or> checkStart \<and> (case Start of None \<Rightarrow> False | Some s \<Rightarrow> db_cmp p key s < 0))"

definition fill :: "MemDB \<Rightarrow> bool \<Rightarrow> bool \<Rightarrow> dbIter \<Rightarrow> (bool \<times> dbIter) res" where
  "fill p checkStart checkLimit i =
     (if it_node i \<noteq> 0 then
        bind_res (nd p (it_node i)) (\<lambda>n.
        bind_res (nd p (it_node i + nKey)) (\<lambda>l.
        bind_res (kv_slice p n (n + l)) (\<lambda>key.
          if outside p (it_slice i) checkStart checkLimit key
          then Ok (False, i\<lparr>it_node := 0, it_key := None, it_value := None\<rparr>)
          else
            bind_res (nd p (it_node i + nVal)) (\<lambda>vl.
            bind_res (kv_slice p (n + l) (n + l + vl)) (\<lambda>val.
              Ok (True, i\<lparr>it_key := Some key, it_value := Some val\<rparr>))))))
      else Ok (False, i\<lparr>it_key := None, it_value := None\<rparr>))"

definition it_Valid :: "dbIter \<Rightarrow> bool" where
  "it_Valid i = (it_node i \<noteq> 0)"

text \<open>The node found by \<open>findGE\<close>; without recording predecessors the store is unchanged.\<close>

definition seek_node :: "MemDB \<Rightarrow> bytes \<Rightarrow> nat res" where
  "seek_node p key = bind_res (findGE key False p) (\<lambda>((node, _), _). Ok node)"

definition it_First :: "MemDB \<Rightarrow> dbIter \<Rightarrow> (bool \<times> dbIter) res" where
  "it_First p i =
     (if it_released i then Ok (False, i\<lparr>it_err := Some ErrIterReleased\<rparr>)
      else bind_res (case it_slice i of Some (Some start, _) \<Rightarrow> seek_node p start | _ \<Rightarrow> nd p nNext) (\<lambda>node.
             fill p False True (i\<lparr>it_forward := True, it_node := node\<rparr>)))"

definition it_Last :: "MemDB \<Rightarrow> dbIter \<Rightarrow> (bool \<times> dbIter) res" where
  "it_Last p i =
     (if it_released i then Ok (False, i\<lparr>it_err := Some ErrIterReleased\<rparr>)
      else bind_res (case it_slice i of Some (_, Some limit) \<Rightarrow> findLT limit p | _ \<Rightarrow> findLast p) (\<lambda>node.
             fill p True False (i\<lparr>it_forward := False, it_node := node\<rparr>)))"

definition it_Seek :: "MemDB \<Rightarrow> bytes \<Rightarrow> dbIter \<Rightarrow> (bool \<times> dbIter) res" where
  "it_Seek p key i =
     (if it_released i then Ok (False, i\<lparr>it_err := Some ErrIterReleased\<rparr>)
      else
        let key' = (case it_slice i of Some (Some start, _) \<Rightarrow> if db_cmp p key start < 0 then start else key | _ \<Rightarrow> key)
        in bind_res (seek_node p key') (\<lambda>node. fill p False True (i\<lparr>it_forward := True, it_node := node\<rparr>)))"

definition it_Next :: "MemDB \<Rightarrow> dbIter \<Rightarrow> (bool \<times> dbIter) res" where
  "it_Next p i =
     (if it_released i then Ok (False, i\<lparr>it_err := Some ErrIterReleased\<rparr>)
      else if it_node i = 0 then (if \<not> it_forward i then it_First p i else Ok (False, i))
      else bind_res (nd p (it_node i + nNext)) (\<lambda>node.
             fill p False True (i\<lparr>it_forward := True, it_node := node\<rparr>)))"

text \<open>A nil key is an empty slice to the search.\<close>

definition it_Prev :: "MemDB \<Rightarrow> dbIter \<Rightarrow> (bool \<times> dbIter) res" where
  "it_Prev p i =
     (if it_released i then Ok (False, i\<lparr>it_err := Some ErrIterReleased\<rparr>)
      else if it_node i = 0 then (if it_forward i then it_Last p i else Ok (False, i))
      else bind_res (findLT (case it_key i of Some k \<Rightarrow> k | None \<Rightarrow> []) p) (\<lambda>node.
             fill p True False (i\<lparr>it_forward := False, it_node := node\<rparr>)))"

definition it_Release :: "dbIter \<Rightarrow> dbIter" where
  "it_Release i = (if \<not> it_released i
     then i\<lparr>it_node := 0, it_key := None, it_value := None, it_released := True\<rparr> else i)"

section \<open>The interface\<close>

record 'i StoreIterator =
  si_First :: "'i \<Rightarrow> (bool \<times> 'i) res"
  si_Next :: "'i \<Rightarrow> (bool \<times> 'i) res"
  si_Key :: "'i \<Rightarrow> bytes option"
  si_Value :: "'i \<Rightarrow> bytes option"
  si_Error :: "'i \<Rightarrow> err option"
  si_Release :: "'i \<Rightarrow> 'i"

definition dbIter_ops :: "MemDB \<Rightarrow> dbIter StoreIterator" where
  "dbIter_ops p = \<lparr>si_First = it_First p, si_Next = it_Next p, si_Key = it_key, si_Value = it_value,
                   si_Error = it_err, si_Release = it_Release\<rparr>"

text \<open>The pairs an iterator yields come in the strict byte order of the keys.\<close>

definition kv_seq :: "(bytes \<times> bytes) list \<Rightarrow> bool" where
  "kv_seq kvs \<longleftrightarrow> sorted_wrt (<) (map fst kvs)"

definition cur :: "'a StoreIterator \<Rightarrow> 'a \<Rightarrow> (bytes \<times> bytes) list \<Rightarrow> bool" where
  "cur ops i kvs \<longleftrightarrow> (case kvs of [] \<Rightarrow> si_Key ops i = None \<and> si_Value ops i = None
                      | (k, v) # _ \<Rightarrow> si_Key ops i = Some k \<and> si_Value ops i = Some v)"

text \<open>
  The contract: a new iterator that will yield \<open>kvs\<close>, and one that stands at the first of the pairs
  \<open>kvs\<close>, or has passed the last pair. \<open>First\<close> and \<open>Next\<close> return whether there is a pair, and an iterator
  past the last pair stays there and has no key and no value.
\<close>

locale pair_iter =
  fixes ops :: "'i StoreIterator"
    and fresh :: "'i \<Rightarrow> (bytes \<times> bytes) list \<Rightarrow> bool"
    and pos :: "'i \<Rightarrow> (bytes \<times> bytes) list \<Rightarrow> bool"
  assumes si_first: "fresh i kvs \<Longrightarrow> \<exists>i'. si_First ops i = Ok (kvs \<noteq> [], i') \<and> pos i' kvs"
    and si_next: "pos i kvs \<Longrightarrow> \<exists>i'. si_Next ops i = Ok (tl kvs \<noteq> [], i') \<and> pos i' (tl kvs)"
    and si_cur: "pos i kvs \<Longrightarrow> cur ops i kvs"
    and si_error: "pos i kvs \<Longrightarrow> si_Error ops i = None"

text \<open>The iterators of a store yield the keys in order.\<close>

locale store_iter = pair_iter +
  assumes si_seq: "fresh i kvs \<Longrightarrow> kv_seq kvs" "pos i kvs \<Longrightarrow> kv_seq kvs"

text \<open>The loop of a client, \<open>for has := iter.First(); has; has = iter.Next()\<close>, collecting the pairs.\<close>

definition drain_step ::
  "'i StoreIterator \<Rightarrow> bool \<times> 'i \<times> (bytes \<times> bytes) list \<Rightarrow> ((bool \<times> 'i \<times> (bytes \<times> bytes) list) + (bytes \<times> bytes) list) res"
where
  "drain_step ops = (\<lambda>(has, i, acc).
     if has then
       (case (si_Key ops i, si_Value ops i) of
          (Some k, Some v) \<Rightarrow> bind_res (si_Next ops i) (\<lambda>(has', i'). Ok (Inl (has', i', acc @ [(k, v)])))
        | _ \<Rightarrow> Panic)
     else Ok (Inr acc))"

definition drain :: "'i StoreIterator \<Rightarrow> 'i \<Rightarrow> (bytes \<times> bytes) list res" where
  "drain ops i = bind_res (si_First ops i) (\<lambda>(has, i'). loop (drain_step ops) (has, i', []))"

context pair_iter
begin

lemma drain_loop: "pos i kvs \<Longrightarrow> loop (drain_step ops) (kvs \<noteq> [], i, acc) = Ok (acc @ kvs)"
proof (induction kvs arbitrary: i acc)
  case Nil
  then show ?case
    by (subst loop_unfold) (simp add: drain_step_def)
next
  case (Cons kv kvs)
  obtain k v where kv: "kv = (k, v)" by (cases kv)
  obtain i' where "si_Next ops i = Ok (kvs \<noteq> [], i')" "pos i' kvs"
    using si_next [OF Cons.prems] by auto
  then show ?case
    using si_cur [OF Cons.prems] Cons.IH [of i' "acc @ [kv]"]
    by (subst loop_unfold) (simp add: drain_step_def cur_def kv)
qed

lemma drain_all: "fresh i kvs \<Longrightarrow> drain ops i = Ok kvs"
  using si_first [of i kvs] drain_loop [of _ kvs "[]"] by (auto simp: drain_def)

end

section \<open>The other searches\<close>

text \<open>A level cut at a node, and the search that leaves out the comparison.\<close>

definition LT_inv :: "MemDB \<Rightarrow> bytes \<Rightarrow> nat list \<Rightarrow> nat \<times> nat \<Rightarrow> nat \<Rightarrow> bool" where
  "LT_inv p key ns = (\<lambda>(node, h) k. h < maxHeight p
     \<and> (\<exists>bs. cut p key h ns node bs \<and> k = h * (length ns + 1) + length bs))"

lemma LT_step:
  assumes wf: "db_wf p ns" and inv: "LT_inv p key ns s k"
  shows "(\<exists>s' k'. findLT_step p key s = Ok (Inl s') \<and> LT_inv p key ns s' k' \<and> k' < k)
    \<or> (\<exists>r. findLT_step p key s = Ok (Inr r) \<and> r = pred_at p key 0 ns)"
proof -
  obtain node h where s: "s = (node, h)"
    by (cases s)
  obtain bs where h: "h < maxHeight p" and c: "cut p key h ns node bs" and k: "k = h * (length ns + 1) + length bs"
    using inv by (auto simp: LT_inv_def s)
  have bo: "byte_order (db_cmp p)" and zero: "nd p 0 = Ok (nodeData p ! 0)"
    using wf by (auto simp: db_wf_def nd_def)
  note nx = cut_next [OF wf h c]
  have bs: "nd p b = Ok (nodeData p ! b) \<and> b \<noteq> 0 \<and> node_key p b = Ok (key_at p b)" if "bs = b # bs'" for b bs'
    using level_node [OF wf, of b h] node_key_ok [OF wf, of b] node_reads(1) [OF wf, of b] c that by (auto simp: cut_def)
  show ?thesis
  proof (cases "bs \<noteq> [] \<and> key_at p (hd bs) < key")
    case True
    then obtain b bs' where b: "bs = b # bs'" "key_at p b < key"
      by (cases bs) auto
    have "findLT_step p key s = Ok (Inl (b, h))"
      using nx bs [OF b(1)] b byte_order_less [OF bo, of "key_at p b" key] by (simp add: findLT_step_def s not_le)
    moreover have "LT_inv p key ns (b, h) (h * (length ns + 1) + length bs')"
      using h cut_advance [of p key h ns node b bs'] c b by (auto simp: LT_inv_def)
    ultimately show ?thesis
      using k b(1) by auto
  next
    case False
    have "\<not> db_cmp p (key_at p b) key < 0" if "bs = b # bs'" for b bs'
      using False that byte_order_less [OF bo, of "key_at p b" key] by simp
    then have step: "findLT_step p key s = (if h = 0 then Ok (Inr node) else Ok (Inl (node, h - 1)))"
      using nx bs zero by (cases bs) (auto simp: findLT_step_def s not_less)
    show ?thesis
    proof (cases h)
      case 0
      then show ?thesis
        using step cut_pred(1) [OF wf c] False by auto
    next
      case (Suc h')
      obtain bs' where bs': "cut p key h' ns node bs'" "length bs' \<le> length ns"
        using cut_down [OF wf] c Suc by blast
      have "LT_inv p key ns (node, h') (h' * (length ns + 1) + length bs')"
        using bs'(1) h Suc by (auto simp: LT_inv_def)
      then show ?thesis
        using step Suc k bs'(2) by fastforce
    qed
  qed
qed

lemma findLT_spec:
  assumes wf: "db_wf p ns"
  shows "findLT key p = Ok (pred_at p key 0 ns)"
proof -
  let ?h = "maxHeight p - 1"
  have "?h < maxHeight p"
    using wf by (simp add: db_wf_def)
  then have "LT_inv p key ns (0, ?h) (?h * (length ns + 1) + length (level p ?h ns))"
    using cut_start [of p key ?h ns] by (auto simp: LT_inv_def)
  then have "\<exists>r. loop (findLT_step p key) (0, ?h) = Ok r \<and> r = pred_at p key 0 ns"
    using LT_step [OF wf] by (rule loop_total_ghost [where I = "LT_inv p key ns", rotated])
  then show ?thesis
    by (simp add: findLT_def)
qed

text \<open>\<open>findLast\<close> takes the steps of \<open>findLT\<close> for a key above all others.\<close>

lemma key_above:
  obtains K :: bytes where "\<forall>n\<in>set ns. f n < K"
proof (induction ns arbitrary: thesis)
  case Nil
  then show ?case by simp
next
  case (Cons n ns)
  obtain K where "\<forall>a\<in>set ns. f a < K"
    using Cons.IH by blast
  moreover have "x < x @ [0]" for x :: bytes
    by (induction x) auto
  ultimately have "\<forall>a\<in>set (n # ns). f a < max K (f n @ [0])"
    by (auto simp: less_max_iff_disj)
  then show ?case
    using Cons.prems by blast
qed

lemma findLast_as_LT:
  assumes wf: "db_wf p ns" and K: "\<forall>n\<in>set ns. key_at p n < K" and inv: "LT_inv p K ns s k"
  shows "findLast_step p s = findLT_step p K s"
proof -
  obtain node h where s: "s = (node, h)"
    by (cases s)
  obtain bs where h: "h < maxHeight p" and c: "cut p K h ns node bs"
    using inv by (auto simp: LT_inv_def s)
  have bo: "byte_order (db_cmp p)" and zero: "nd p 0 = Ok (nodeData p ! 0)"
    using wf by (auto simp: db_wf_def nd_def)
  have "nd p b = Ok (nodeData p ! b) \<and> b \<noteq> 0 \<and> node_key p b = Ok (key_at p b) \<and> \<not> 0 \<le> db_cmp p (key_at p b) K"
    if "bs = b # bs'" for b bs'
    using level_node [OF wf, of b h] node_key_ok [OF wf, of b] node_reads(1) [OF wf, of b] c K that
      byte_order_less [OF bo, of _ K]
    by (auto simp: cut_def not_le)
  then show ?thesis
    using cut_next [OF wf h c] zero
    by (cases bs) (auto simp: findLast_step_def findLT_step_def s)
qed

lemma findLast_spec:
  assumes wf: "db_wf p ns"
  shows "findLast p = Ok (last (0 # ns))"
proof -
  obtain K where K: "\<forall>n\<in>set ns. key_at p n < K"
    by (rule key_above)
  let ?h = "maxHeight p - 1"
  have "?h < maxHeight p"
    using wf by (simp add: db_wf_def)
  then have "LT_inv p K ns (0, ?h) (?h * (length ns + 1) + length (level p ?h ns))"
    using cut_start [of p K ?h ns] by (auto simp: LT_inv_def)
  moreover have "(\<exists>s' k'. findLast_step p s = Ok (Inl s') \<and> LT_inv p K ns s' k' \<and> k' < k)
      \<or> (\<exists>r. findLast_step p s = Ok (Inr r) \<and> r = pred_at p K 0 ns)" if "LT_inv p K ns s k" for s k
    using LT_step [OF wf that] findLast_as_LT [OF wf K that] by simp
  ultimately have "\<exists>r. loop (findLast_step p) (0, ?h) = Ok r \<and> r = pred_at p K 0 ns"
    by (rule loop_total_ghost [where I = "LT_inv p K ns", rotated])
  moreover have "pred_at p K 0 ns = last (0 # ns)"
    using K level_0 [OF wf] by (simp add: pred_at_def takeWhile_eq_all_conv [THEN iffD2])
  ultimately show ?thesis
    by (simp add: findLast_def)
qed

section \<open>The iterator meets the interface\<close>

text \<open>The bounds of a range, and the pairs in it.\<close>

fun above_start :: "bytes_range option \<Rightarrow> bytes \<Rightarrow> bool" where
  "above_start (Some (Some s, l)) k = (s \<le> k)"
| "above_start _ k = True"

fun below_limit :: "bytes_range option \<Rightarrow> bytes \<Rightarrow> bool" where
  "below_limit (Some (s, Some l)) k = (k < l)"
| "below_limit _ k = True"

definition in_range :: "bytes_range option \<Rightarrow> (bytes \<times> bytes) list \<Rightarrow> (bytes \<times> bytes) list" where
  "in_range rng kvs = filter (\<lambda>(k, v). above_start rng k \<and> below_limit rng k) kvs"

lemma outside_iff:
  assumes "byte_order (db_cmp p)"
  shows "outside p rng False True k \<longleftrightarrow> \<not> below_limit rng k" "outside p rng True False k \<longleftrightarrow> \<not> above_start rng k"
proof -
  have "0 \<le> db_cmp p k b \<longleftrightarrow> \<not> k < b" "db_cmp p k b < 0 \<longleftrightarrow> k < b" for b
    using byte_order_less [OF assms, of k b] by auto
  then show "outside p rng False True k \<longleftrightarrow> \<not> below_limit rng k" "outside p rng True False k \<longleftrightarrow> \<not> above_start rng k"
    by (auto simp: outside_def split: option.splits prod.splits)
qed

lemma below_limit_mono: "below_limit rng b \<Longrightarrow> a < b \<Longrightarrow> below_limit rng a"
  by (cases "(rng, b)" rule: below_limit.cases) auto

lemma above_start_mono: "above_start rng a \<Longrightarrow> a < b \<Longrightarrow> above_start rng b"
  by (cases "(rng, a)" rule: above_start.cases) auto

text \<open>The iterator stands at the node after \<open>pre\<close>, or past the range.\<close>

definition it_at :: "MemDB \<Rightarrow> nat list \<Rightarrow> dbIter \<Rightarrow> nat list \<Rightarrow> bool" where
  "it_at p ns i ys \<longleftrightarrow> \<not> it_released i \<and> it_err i = None \<and> it_forward i
     \<and> (\<exists>pre. ns = pre @ ys)
     \<and> (if ys \<noteq> [] \<and> below_limit (it_slice i) (key_at p (hd ys))
        then it_node i = hd ys \<and> it_key i = Some (key_at p (hd ys)) \<and> it_value i = Some (val_at p (hd ys))
        else it_node i = 0 \<and> it_key i = None \<and> it_value i = None)"

lemma fill_forward:
  assumes wf: "db_wf p ns" and ns: "ns = pre @ ys"
    and i: "\<not> it_released i" "it_err i = None" "it_forward i" "it_node i = hd (ys @ [0])"
  shows "\<exists>i'. fill p False True i = Ok (ys \<noteq> [] \<and> below_limit (it_slice i) (key_at p (hd ys)), i')
    \<and> it_at p ns i' ys \<and> it_slice i' = it_slice i"
proof (cases ys)
  case Nil
  then show ?thesis
    using assms by (simp add: fill_def it_at_def)
next
  case (Cons y ys')
  have y: "y \<in> set ns" "y \<noteq> 0"
    using ns Cons level_node [OF wf, of y 0] level_0 [OF wf] by auto
  have "byte_order (db_cmp p)"
    using wf by (simp add: db_wf_def)
  then show ?thesis
    using assms Cons node_reads [OF wf y(1)] y(2) by (auto simp: fill_def it_at_def outside_iff)
qed

lemma First_forward:
  assumes wf: "db_wf p ns" and i: "\<not> it_released i" "it_err i = None"
  shows "\<exists>i' ys. it_First p i = Ok (ys \<noteq> [] \<and> below_limit (it_slice i) (key_at p (hd ys)), i')
    \<and> it_at p ns i' ys \<and> it_slice i' = it_slice i \<and> ys = dropWhile (\<lambda>n. \<not> above_start (it_slice i) (key_at p n)) ns"
proof -
  let ?ys = "dropWhile (\<lambda>n. \<not> above_start (it_slice i) (key_at p n)) ns"
  have seek: "seek_node p s = Ok (hd (dropWhile (\<lambda>n. key_at p n < s) ns @ [0]))" for s
    using findGE_spec [OF wf, of s False] by (auto simp: seek_node_def geq_at_def)
  have "(case it_slice i of Some (Some start, _) \<Rightarrow> seek_node p start | _ \<Rightarrow> nd p nNext) = Ok (hd (?ys @ [0]))"
    using first_node [OF wf] seek by (auto simp: not_le split: option.splits prod.splits)
  moreover have "ns = takeWhile (\<lambda>n. \<not> above_start (it_slice i) (key_at p n)) ns @ ?ys"
    by simp
  from fill_forward [OF wf this, of "i\<lparr>it_forward := True, it_node := hd (?ys @ [0])\<rparr>"] i
  obtain i' where "fill p False True (i\<lparr>it_forward := True, it_node := hd (?ys @ [0])\<rparr>)
      = Ok (?ys \<noteq> [] \<and> below_limit (it_slice i) (key_at p (hd ?ys)), i')"
    "it_at p ns i' ?ys" "it_slice i' = it_slice i"
    by auto
  ultimately show ?thesis
    using i by (intro exI [of _ i'] exI [of _ ?ys]) (simp add: it_First_def)
qed

lemma Next_forward:
  assumes wf: "db_wf p ns" and i: "it_at p ns i ys"
  shows "\<exists>i'. it_Next p i = Ok (tl ys \<noteq> [] \<and> below_limit (it_slice i) (key_at p (hd (tl ys))), i')
    \<and> it_at p ns i' (tl ys) \<and> it_slice i' = it_slice i"
proof (cases "ys \<noteq> [] \<and> below_limit (it_slice i) (key_at p (hd ys))")
  case True
  then obtain y ys' pre where ys: "ys = y # ys'" "ns = pre @ y # ys'"
    using i by (cases ys) (auto simp: it_at_def)
  have y: "y \<noteq> 0" "it_node i = y" "\<not> it_released i" "it_err i = None"
    using True ys i level_node [OF wf, of y 0] level_0 [OF wf] by (auto simp: it_at_def)
  have "ns = (pre @ [y]) @ ys'"
    using ys by simp
  from fill_forward [OF wf this, of "i\<lparr>it_forward := True, it_node := hd (ys' @ [0])\<rparr>"]
  show ?thesis
    using y ys(1) next_node [OF wf ys(2)] by (simp add: it_Next_def)
next
  case False
  have "\<not> (tl ys \<noteq> [] \<and> below_limit (it_slice i) (key_at p (hd (tl ys))))"
  proof
    assume a: "tl ys \<noteq> [] \<and> below_limit (it_slice i) (key_at p (hd (tl ys)))"
    then obtain y z zs pre where "ys = y # z # zs" "ns = pre @ y # z # zs"
      using i by (cases ys; cases "tl ys") (auto simp: it_at_def)
    then show False
      using False a below_limit_mono [of "it_slice i" "key_at p z" "key_at p y"] wf
      by (auto simp: db_wf_def sorted_wrt_append)
  qed
  moreover have "\<exists>pre. ns = pre @ tl ys"
    using i by (cases ys) (auto simp: it_at_def)
  ultimately show ?thesis
    using False i by (intro exI [of _ i]) (auto simp: it_Next_def it_at_def)
qed

text \<open>The pairs still to come, and the interface.\<close>

definition it_pairs :: "MemDB \<Rightarrow> bytes_range option \<Rightarrow> nat list \<Rightarrow> (bytes \<times> bytes) list" where
  "it_pairs p rng ys = map (pair_at p) (takeWhile (\<lambda>n. below_limit rng (key_at p n)) ys)"

definition it_fresh :: "MemDB \<Rightarrow> dbIter \<Rightarrow> (bytes \<times> bytes) list \<Rightarrow> bool" where
  "it_fresh p i kvs \<longleftrightarrow> \<not> it_released i \<and> it_err i = None
     \<and> (\<exists>all. db_rep p all \<and> kvs = in_range (it_slice i) all)"

definition it_pos :: "MemDB \<Rightarrow> dbIter \<Rightarrow> (bytes \<times> bytes) list \<Rightarrow> bool" where
  "it_pos p i kvs \<longleftrightarrow> (\<exists>ns ys. db_wf p ns \<and> it_at p ns i ys \<and> kvs = it_pairs p (it_slice i) ys)"

lemma it_pairs_empty: "it_pairs p rng ys \<noteq> [] \<longleftrightarrow> ys \<noteq> [] \<and> below_limit rng (key_at p (hd ys))"
  by (cases ys) (auto simp: it_pairs_def)

lemma it_pairs_tl:
  assumes "sorted_wrt (\<lambda>a b. key_at p a < key_at p b) ys"
  shows "it_pairs p rng (tl ys) = tl (it_pairs p rng ys)"
proof (cases ys)
  case (Cons y zs)
  then show ?thesis
    using assms below_limit_mono [of rng _ "key_at p y"] by (cases zs) (auto simp: it_pairs_def)
qed (simp add: it_pairs_def)

lemma filter_interval:
  assumes "sorted_wrt (\<lambda>a b. k a < k b) ns" "\<And>a b. A b \<Longrightarrow> k b < k a \<Longrightarrow> A a" "\<And>a b. B a \<Longrightarrow> k b < (k a :: bytes) \<Longrightarrow> B b"
  shows "filter (\<lambda>a. A a \<and> B a) ns = takeWhile B (dropWhile (\<lambda>a. \<not> A a) ns)"
  using assms(1)
proof (induction ns)
  case (Cons n ns)
  have "filter (\<lambda>a. A a \<and> B a) ns = takeWhile B ns" if "A n" "B n \<or> ns = []"
  proof -
    have "dropWhile (\<lambda>a. \<not> A a) ns = ns"
      using Cons.prems assms(2) [OF that(1)] by (cases ns) auto
    then show ?thesis using Cons by simp
  qed
  moreover have "filter (\<lambda>a. A a \<and> B a) ns = []" if "\<not> B n"
    using Cons.prems assms(3) that by (auto simp: filter_empty_conv)
  ultimately show ?case
    using Cons by auto
qed simp

lemma in_range_pairs:
  assumes wf: "db_wf p ns"
  shows "in_range rng (map (pair_at p) ns)
    = it_pairs p rng (dropWhile (\<lambda>n. \<not> above_start rng (key_at p n)) ns)"
proof -
  have "in_range rng (map (pair_at p) ns)
      = map (pair_at p) (filter (\<lambda>n. above_start rng (key_at p n) \<and> below_limit rng (key_at p n)) ns)"
    by (simp add: in_range_def filter_map comp_def pair_at_def)
  also have "filter (\<lambda>n. above_start rng (key_at p n) \<and> below_limit rng (key_at p n)) ns
      = takeWhile (\<lambda>n. below_limit rng (key_at p n)) (dropWhile (\<lambda>n. \<not> above_start rng (key_at p n)) ns)"
    using wf above_start_mono below_limit_mono
    by (intro filter_interval [where k = "key_at p"]) (auto simp: db_wf_def)
  finally show ?thesis
    by (simp add: it_pairs_def)
qed

lemma it_at_sorted: "db_wf p ns \<Longrightarrow> it_at p ns i ys \<Longrightarrow> sorted_wrt (\<lambda>a b. key_at p a < key_at p b) ys"
  by (auto simp: db_wf_def it_at_def sorted_wrt_append)

lemma it_pairs_seq: "sorted_wrt (\<lambda>a b. key_at p a < key_at p b) ys \<Longrightarrow> kv_seq (it_pairs p rng ys)"
proof -
  assume "sorted_wrt (\<lambda>a b. key_at p a < key_at p b) ys"
  then have "sorted_wrt (\<lambda>a b. key_at p a < key_at p b) (takeWhile (\<lambda>n. below_limit rng (key_at p n)) ys)"
    by (rule sorted_wrt_takeWhile)
  then show ?thesis
    by (simp add: kv_seq_def it_pairs_def sorted_wrt_map pair_at_def)
qed

lemma it_posI: "db_wf p ns \<Longrightarrow> it_at p ns i ys \<Longrightarrow> it_slice i = rng \<Longrightarrow> it_pos p i (it_pairs p rng ys)"
  by (auto simp: it_pos_def)

interpretation mem_iter: store_iter "dbIter_ops p" "it_fresh p" "it_pos p" for p
proof
  fix i kvs
  assume i: "it_fresh p i kvs"
  obtain ns where wf: "db_wf p ns" and "\<not> it_released i" "it_err i = None"
    and kvs: "kvs = in_range (it_slice i) (map (pair_at p) ns)"
    using i by (auto simp: it_fresh_def db_rep_pair)
  from First_forward [OF this(1,2,3)] obtain i' ys
    where i': "it_First p i = Ok (ys \<noteq> [] \<and> below_limit (it_slice i) (key_at p (hd ys)), i')"
      "it_at p ns i' ys" "it_slice i' = it_slice i"
      and ys: "ys = dropWhile (\<lambda>n. \<not> above_start (it_slice i) (key_at p n)) ns"
    by blast
  have kvs': "kvs = it_pairs p (it_slice i) ys"
    unfolding kvs ys by (rule in_range_pairs [OF wf])
  show "\<exists>i'. si_First (dbIter_ops p) i = Ok (kvs \<noteq> [], i') \<and> it_pos p i' kvs"
    using i' it_posI [OF wf i'(2,3)] unfolding kvs' it_pairs_empty by (auto simp: dbIter_ops_def)
  show "kv_seq kvs"
    using it_pairs_seq [OF it_at_sorted [OF wf i'(2)]] by (simp add: kvs')
next
  fix i kvs
  assume i: "it_pos p i kvs"
  obtain ns ys where wf: "db_wf p ns" and it: "it_at p ns i ys" and kvs: "kvs = it_pairs p (it_slice i) ys"
    using i by (auto simp: it_pos_def)
  have tl: "tl kvs = it_pairs p (it_slice i) (tl ys)"
    using it_pairs_tl [OF it_at_sorted [OF wf it]] kvs by simp
  from Next_forward [OF wf it] obtain i'
    where i': "it_Next p i = Ok (tl ys \<noteq> [] \<and> below_limit (it_slice i) (key_at p (hd (tl ys))), i')"
      "it_at p ns i' (tl ys)" "it_slice i' = it_slice i"
    by blast
  then show "\<exists>i'. si_Next (dbIter_ops p) i = Ok (tl kvs \<noteq> [], i') \<and> it_pos p i' (tl kvs)"
    using it_posI [OF wf i'(2,3)] unfolding tl it_pairs_empty by (auto simp: dbIter_ops_def)
  show "cur (dbIter_ops p) i kvs"
    using it unfolding kvs by (cases ys) (auto simp: cur_def it_pairs_def dbIter_ops_def it_at_def pair_at_def)
  show "si_Error (dbIter_ops p) i = None"
    using it by (simp add: dbIter_ops_def it_at_def)
  show "kv_seq kvs"
    using it_pairs_seq [OF it_at_sorted [OF wf it]] kvs by simp
qed

section \<open>Backwards\<close>

text \<open>\<open>Last\<close> and \<open>Prev\<close> in the places of \<open>First\<close> and \<open>Next\<close>.\<close>

definition dbIter_back :: "MemDB \<Rightarrow> dbIter StoreIterator" where
  "dbIter_back p = (dbIter_ops p)\<lparr>si_First := it_Last p, si_Next := it_Prev p\<rparr>"

definition back_at :: "MemDB \<Rightarrow> nat list \<Rightarrow> dbIter \<Rightarrow> nat list \<Rightarrow> bool" where
  "back_at p ns i xs \<longleftrightarrow> \<not> it_released i \<and> it_err i = None \<and> \<not> it_forward i
     \<and> (\<exists>post. ns = xs @ post)
     \<and> (if xs \<noteq> [] \<and> above_start (it_slice i) (key_at p (last xs))
        then it_node i = last xs \<and> it_key i = Some (key_at p (last xs)) \<and> it_value i = Some (val_at p (last xs))
        else it_node i = 0 \<and> it_key i = None \<and> it_value i = None)"

lemma fill_back:
  assumes wf: "db_wf p ns" and ns: "ns = xs @ post"
    and i: "\<not> it_released i" "it_err i = None" "\<not> it_forward i" "it_node i = last (0 # xs)"
  shows "\<exists>i'. fill p True False i = Ok (xs \<noteq> [] \<and> above_start (it_slice i) (key_at p (last xs)), i')
    \<and> back_at p ns i' xs \<and> it_slice i' = it_slice i"
proof (cases "xs = []")
  case True
  then show ?thesis
    using assms by (simp add: fill_def back_at_def)
next
  case False
  have y: "last xs \<in> set ns" "last xs \<noteq> 0"
    using ns False level_node [OF wf, of "last xs" 0] level_0 [OF wf] by auto
  have "byte_order (db_cmp p)"
    using wf by (simp add: db_wf_def)
  then show ?thesis
    using assms False node_reads [OF wf y(1)] y(2) by (auto simp: fill_def back_at_def outside_iff)
qed

lemma Last_back:
  assumes wf: "db_wf p ns" and i: "\<not> it_released i" "it_err i = None"
  shows "\<exists>i' xs. it_Last p i = Ok (xs \<noteq> [] \<and> above_start (it_slice i) (key_at p (last xs)), i')
    \<and> back_at p ns i' xs \<and> it_slice i' = it_slice i \<and> xs = takeWhile (\<lambda>n. below_limit (it_slice i) (key_at p n)) ns"
proof -
  let ?xs = "takeWhile (\<lambda>n. below_limit (it_slice i) (key_at p n)) ns"
  have "(case it_slice i of Some (_, Some limit) \<Rightarrow> findLT limit p | _ \<Rightarrow> findLast p) = Ok (last (0 # ?xs))"
    using findLT_spec [OF wf] findLast_spec [OF wf] level_0 [OF wf]
    by (auto simp: pred_at_def takeWhile_eq_all_conv [THEN iffD2] split: option.splits prod.splits)
  moreover have "ns = ?xs @ dropWhile (\<lambda>n. below_limit (it_slice i) (key_at p n)) ns"
    by simp
  from fill_back [OF wf this, of "i\<lparr>it_forward := False, it_node := last (0 # ?xs)\<rparr>"] i
  obtain i' where "fill p True False (i\<lparr>it_forward := False, it_node := last (0 # ?xs)\<rparr>)
      = Ok (?xs \<noteq> [] \<and> above_start (it_slice i) (key_at p (last ?xs)), i')"
    "back_at p ns i' ?xs" "it_slice i' = it_slice i"
    by auto
  ultimately show ?thesis
    using i by (intro exI [of _ i'] exI [of _ ?xs]) (simp add: it_Last_def)
qed

lemma Prev_back:
  assumes wf: "db_wf p ns" and i: "back_at p ns i xs"
  shows "\<exists>i'. it_Prev p i = Ok (butlast xs \<noteq> [] \<and> above_start (it_slice i) (key_at p (last (butlast xs))), i')
    \<and> back_at p ns i' (butlast xs) \<and> it_slice i' = it_slice i"
proof (cases "xs \<noteq> [] \<and> above_start (it_slice i) (key_at p (last xs))")
  case True
  then obtain y ys post where ys: "xs = ys @ [y]" "ns = ys @ y # post"
    using i by (cases xs rule: rev_cases) (auto simp: back_at_def)
  have y: "y \<noteq> 0" "it_node i = y" "\<not> it_released i" "it_err i = None" "it_key i = Some (key_at p y)"
    using True ys i level_node [OF wf, of y 0] level_0 [OF wf] by (auto simp: back_at_def)
  have "takeWhile (\<lambda>n. key_at p n < key_at p y) ns = ys"
    unfolding ys(2) using wf ys(2) by (intro sorted_cut(1)) (auto simp: db_wf_def sorted_wrt_append)
  then have "findLT (key_at p y) p = Ok (last (0 # ys))"
    using findLT_spec [OF wf] level_0 [OF wf] by (simp add: pred_at_def)
  then show ?thesis
    using fill_back [OF wf ys(2), of "i\<lparr>it_forward := False, it_node := last (0 # ys)\<rparr>"] y ys(1)
    by (simp add: it_Prev_def)
next
  case False
  have "\<not> (butlast xs \<noteq> [] \<and> above_start (it_slice i) (key_at p (last (butlast xs))))"
  proof
    assume a: "butlast xs \<noteq> [] \<and> above_start (it_slice i) (key_at p (last (butlast xs)))"
    then obtain y z zs post where "xs = zs @ [z, y]" "ns = zs @ z # y # post"
      using i by (cases xs rule: rev_cases; cases "butlast xs" rule: rev_cases) (auto simp: back_at_def)
    then show False
      using False a above_start_mono [of "it_slice i" "key_at p z" "key_at p y"] wf
      by (auto simp: db_wf_def sorted_wrt_append butlast_append)
  qed
  moreover have "\<exists>post. ns = butlast xs @ post"
    using i by (cases xs rule: rev_cases) (auto simp: back_at_def)
  ultimately show ?thesis
    using False i by (intro exI [of _ i]) (auto simp: it_Prev_def back_at_def)
qed

definition back_pairs :: "MemDB \<Rightarrow> bytes_range option \<Rightarrow> nat list \<Rightarrow> (bytes \<times> bytes) list" where
  "back_pairs p rng xs = map (pair_at p) (takeWhile (\<lambda>n. above_start rng (key_at p n)) (rev xs))"

definition back_fresh :: "MemDB \<Rightarrow> dbIter \<Rightarrow> (bytes \<times> bytes) list \<Rightarrow> bool" where
  "back_fresh p i kvs \<longleftrightarrow> it_fresh p i (rev kvs)"

definition back_pos :: "MemDB \<Rightarrow> dbIter \<Rightarrow> (bytes \<times> bytes) list \<Rightarrow> bool" where
  "back_pos p i kvs \<longleftrightarrow> (\<exists>ns xs. db_wf p ns \<and> back_at p ns i xs \<and> kvs = back_pairs p (it_slice i) xs)"

lemma back_pairs_empty: "back_pairs p rng xs \<noteq> [] \<longleftrightarrow> xs \<noteq> [] \<and> above_start rng (key_at p (last xs))"
  by (cases xs rule: rev_cases) (auto simp: back_pairs_def)

lemma back_pairs_tl:
  assumes "sorted_wrt (\<lambda>a b. key_at p a < key_at p b) xs"
  shows "back_pairs p rng (butlast xs) = tl (back_pairs p rng xs)"
proof (cases xs rule: rev_cases)
  case (snoc zs y)
  then show ?thesis
    using assms above_start_mono [of rng _ "key_at p y"]
    by (cases zs rule: rev_cases) (auto simp: back_pairs_def sorted_wrt_append butlast_append)
qed (simp add: back_pairs_def)

lemma filter_upward:
  assumes "sorted_wrt (\<lambda>a b. k a < k b) ns" "\<And>a b. A b \<Longrightarrow> k b < (k a :: bytes) \<Longrightarrow> A a"
  shows "filter A ns = rev (takeWhile A (rev ns))"
  using assms(1)
proof (induction ns rule: rev_induct)
  case (snoc n ns)
  have "filter A ns = []" if "\<not> A n"
    using snoc.prems assms(2) that by (auto simp: sorted_wrt_append filter_empty_conv)
  then show ?case
    using snoc by (auto simp: sorted_wrt_append)
qed simp

lemma rev_in_range:
  assumes wf: "db_wf p ns"
  shows "rev (in_range rng (map (pair_at p) ns))
    = back_pairs p rng (takeWhile (\<lambda>n. below_limit rng (key_at p n)) ns)"
proof -
  have sorted: "sorted_wrt (\<lambda>a b. key_at p a < key_at p b) ns"
    using wf by (simp add: db_wf_def)
  let ?ns = "takeWhile (\<lambda>n. below_limit rng (key_at p n)) ns"
  have "filter (\<lambda>n. True \<and> below_limit rng (key_at p n)) ns = takeWhile (\<lambda>n. below_limit rng (key_at p n)) (dropWhile (\<lambda>a. \<not> True) ns)"
    using below_limit_mono by (intro filter_interval [OF sorted]) auto
  then have below: "filter (\<lambda>n. below_limit rng (key_at p n)) ns = ?ns"
    by (simp add: dropWhile_eq_self_iff)
  have "filter (\<lambda>n. above_start rng (key_at p n) \<and> below_limit rng (key_at p n)) ns
      = filter (\<lambda>n. above_start rng (key_at p n)) (filter (\<lambda>n. below_limit rng (key_at p n)) ns)"
    by (simp add: conj_commute)
  also have "\<dots> = filter (\<lambda>n. above_start rng (key_at p n)) ?ns"
    by (simp only: below)
  also have "\<dots> = rev (takeWhile (\<lambda>n. above_start rng (key_at p n)) (rev ?ns))"
    using above_start_mono by (intro filter_upward [OF sorted_wrt_takeWhile [OF sorted]]) auto
  finally show ?thesis
    by (simp add: in_range_def filter_map comp_def pair_at_def back_pairs_def rev_map)
qed

lemma back_posI: "db_wf p ns \<Longrightarrow> back_at p ns i xs \<Longrightarrow> it_slice i = rng \<Longrightarrow> back_pos p i (back_pairs p rng xs)"
  by (auto simp: back_pos_def)

interpretation mem_back: pair_iter "dbIter_back p" "back_fresh p" "back_pos p" for p
proof
  fix i kvs
  assume i: "back_fresh p i kvs"
  obtain ns where wf: "db_wf p ns" and "\<not> it_released i" "it_err i = None"
    and kvs: "rev kvs = in_range (it_slice i) (map (pair_at p) ns)"
    using i by (auto simp: back_fresh_def it_fresh_def db_rep_pair)
  from Last_back [OF this(1,2,3)] obtain i' xs
    where i': "it_Last p i = Ok (xs \<noteq> [] \<and> above_start (it_slice i) (key_at p (last xs)), i')"
      "back_at p ns i' xs" "it_slice i' = it_slice i"
      and xs: "xs = takeWhile (\<lambda>n. below_limit (it_slice i) (key_at p n)) ns"
    by blast
  have kvs': "kvs = back_pairs p (it_slice i) xs"
    unfolding xs using rev_in_range [OF wf] kvs by (metis rev_rev_ident)
  show "\<exists>i'. si_First (dbIter_back p) i = Ok (kvs \<noteq> [], i') \<and> back_pos p i' kvs"
    using i' back_posI [OF wf i'(2,3)] unfolding kvs' back_pairs_empty by (auto simp: dbIter_back_def)
next
  fix i kvs
  assume i: "back_pos p i kvs"
  obtain ns xs where wf: "db_wf p ns" and it: "back_at p ns i xs" and kvs: "kvs = back_pairs p (it_slice i) xs"
    using i by (auto simp: back_pos_def)
  have "sorted_wrt (\<lambda>a b. key_at p a < key_at p b) xs"
    using wf it by (auto simp: db_wf_def back_at_def sorted_wrt_append)
  then have tl: "tl kvs = back_pairs p (it_slice i) (butlast xs)"
    using back_pairs_tl kvs by simp
  from Prev_back [OF wf it] obtain i'
    where i': "it_Prev p i = Ok (butlast xs \<noteq> [] \<and> above_start (it_slice i) (key_at p (last (butlast xs))), i')"
      "back_at p ns i' (butlast xs)" "it_slice i' = it_slice i"
    by blast
  then show "\<exists>i'. si_Next (dbIter_back p) i = Ok (tl kvs \<noteq> [], i') \<and> back_pos p i' (tl kvs)"
    using back_posI [OF wf i'(2,3)] unfolding tl back_pairs_empty by (auto simp: dbIter_back_def)
  show "cur (dbIter_back p) i kvs"
    using it unfolding kvs
    by (cases xs rule: rev_cases) (auto simp: cur_def back_pairs_def dbIter_back_def dbIter_ops_def back_at_def pair_at_def)
  show "si_Error (dbIter_back p) i = None"
    using it by (simp add: dbIter_back_def dbIter_ops_def back_at_def)
qed

text \<open>
  C32. An iterator over a range of the in-memory store yields exactly the pairs of the store whose keys
  are at or above the start and below the limit, a nil bound leaving that side open. \<open>First\<close> and \<open>Next\<close>
  yield them in the byte order of the keys and \<open>Last\<close> and \<open>Prev\<close> in the reverse order; deleted keys
  appear with an empty value. This holds of the store after any sequence of \<open>Put\<close>s.
\<close>

theorem memdb_iterators:
  assumes "byte_order c"
  shows "\<exists>p kvs. fold_res db_Put ops (NewMemDB c rnd) = Ok p
    \<and> sorted_wrt (<) (map fst kvs) \<and> map_of kvs = map_of (rev ops)
    \<and> drain (dbIter_ops p) (NewIterator rng) = Ok (in_range rng kvs)
    \<and> drain (dbIter_back p) (NewIterator rng) = Ok (rev (in_range rng kvs))"
proof -
  obtain p kvs where p: "fold_res db_Put ops (NewMemDB c rnd) = Ok p" "db_holds p kvs" "map_of kvs = map_of (rev ops)"
    using Puts_holds [OF NewMemDB_holds [OF assms, of rnd], of ops] by auto
  then have rep: "db_rep p kvs"
    by (simp add: db_holds_def)
  then have "it_fresh p (NewIterator rng) (in_range rng kvs)"
    by (auto simp: it_fresh_def NewIterator_def)
  then show ?thesis
    using p(1,3) db_rep_sorted [OF rep] mem_iter.drain_all mem_back.drain_all [of p "NewIterator rng" "rev (in_range rng kvs)"]
    by (intro exI [of _ p] exI [of _ kvs]) (simp add: back_fresh_def)
qed

theorem memdb_iterators_witness:
  "\<exists>p kvs. fold_res db_Put [([3], [7]), ([1], [8]), ([2], []), ([9], [1])] (NewMemDB bytes_compare (sconst 0)) = Ok p
    \<and> map_of kvs [2] = Some []
    \<and> drain (dbIter_ops p) (NewIterator (Some (Some [1], Some [9]))) = Ok (in_range (Some (Some [1], Some [9])) kvs)"
proof -
  let ?ops = "[([3], [7]), ([1], [8]), ([2], []), ([9], [1])] :: (bytes \<times> bytes) list"
  obtain p kvs where "fold_res db_Put ?ops (NewMemDB bytes_compare (sconst 0)) = Ok p"
    "map_of kvs = map_of (rev ?ops)"
    "drain (dbIter_ops p) (NewIterator (Some (Some [1], Some [9]))) = Ok (in_range (Some (Some [1], Some [9])) kvs)"
    using memdb_iterators [OF byte_order_bytes_compare, of ?ops "sconst 0" "Some (Some [1], Some [9])"] by blast
  then show ?thesis
    by (intro exI [of _ p] exI [of _ kvs]) simp
qed

end
