(* ===== verification/JoinIter.thy ===== *)
theory JoinIter
  imports MemIter
begin

text \<open>
  The iterator over two layers of a store, \<open>JoinIter\<close> of \<open>src/core/store/overlaydb/iterator.go\<close>. It walks the
  iterator of the upper layer (\<open>memdb\<close>) and that of the lower one (\<open>backend\<close>) together; a pair of the upper
  layer hides the pair of the lower layer with its key, and an empty value marks a deleted key, which is skipped.

  The two iterators are of any types that have the interface; the tables of their methods are arguments.
  The locale \<open>join_iter\<close> assumes the contract of both and shows that the joined iterator meets it again, so
  that layers stack.
\<close>

section \<open>The iterator\<close>

datatype KeyOrigin = FromMem | FromBack | FromBoth

record ('m, 'b) JoinIter =
  ji_backend :: 'b
  ji_memdb :: 'm
  ji_key :: "bytes option"
  ji_value :: "bytes option"
  keyOrigin :: KeyOrigin
  nextMemEnd :: bool
  nextBackEnd :: bool
  ji_cmp :: "bytes \<Rightarrow> bytes \<Rightarrow> int"

definition NewJoinIter :: "(bytes \<Rightarrow> bytes \<Rightarrow> int) \<Rightarrow> 'm \<Rightarrow> 'b \<Rightarrow> ('m, 'b) JoinIter" where
  "NewJoinIter DefaultComparer memIter backendIter =
     \<lparr>ji_backend = backendIter, ji_memdb = memIter, ji_key = None, ji_value = None, keyOrigin = FromMem,
      nextMemEnd = False, nextBackEnd = False, ji_cmp = DefaultComparer\<rparr>"

text \<open>A nil slice has no bytes, to \<open>len\<close> and to the comparer.\<close>

definition nil_bytes :: "bytes option \<Rightarrow> bytes" where
  "nil_bytes v = (case v of None \<Rightarrow> [] | Some b \<Rightarrow> b)"

definition join_Error :: "'m StoreIterator \<Rightarrow> 'b StoreIterator \<Rightarrow> ('m, 'b) JoinIter \<Rightarrow> err option" where
  "join_Error M B it =
     (case si_Error B (ji_backend it) of Some e \<Rightarrow> Some e | None \<Rightarrow> si_Error M (ji_memdb it))"

definition join_show :: "bytes option \<Rightarrow> bytes option \<Rightarrow> KeyOrigin \<Rightarrow> ('m, 'b) JoinIter \<Rightarrow> ('m, 'b) JoinIter" where
  "join_show k v orig it = it\<lparr>ji_key := k, ji_value := v, keyOrigin := orig\<rparr>"

definition join_first :: "'m StoreIterator \<Rightarrow> 'b StoreIterator \<Rightarrow> ('m, 'b) JoinIter \<Rightarrow> (bool \<times> ('m, 'b) JoinIter) res" where
  "join_first M B it0 =
     bind_res (si_First B (ji_backend it0)) (\<lambda>(back, b).
     bind_res (si_First M (ji_memdb it0)) (\<lambda>(mem, m).
       let it = it0\<lparr>ji_backend := b, ji_memdb := m\<rparr> in
       if join_Error M B it \<noteq> None then Ok (False, it)
       else if back then
         let bkey = si_Key B b; bval = si_Value B b in
         if \<not> mem then Ok (True, join_show bkey bval FromBack it)
         else
           let mkey = si_Key M m; mval = si_Value M m; c = ji_cmp it (nil_bytes mkey) (nil_bytes bkey) in
           if c < 1 then Ok (True, join_show mkey mval (if c = 0 then FromBoth else FromMem) it)
           else Ok (True, join_show bkey bval FromBack it)
       else if mem then Ok (True, join_show (si_Key M m) (si_Value M m) FromMem it)
       else Ok (False, it)))"

text \<open>\<open>next\<close> moves the sides the current pair came from, and then shows the smaller of their pairs.\<close>

definition join_advance :: "'m StoreIterator \<Rightarrow> 'b StoreIterator \<Rightarrow> ('m, 'b) JoinIter \<Rightarrow> ('m, 'b) JoinIter res" where
  "join_advance M B it0 =
     bind_res (if (keyOrigin it0 = FromMem \<or> keyOrigin it0 = FromBoth) \<and> \<not> nextMemEnd it0
               then bind_res (si_Next M (ji_memdb it0)) (\<lambda>(more, m). Ok (it0\<lparr>ji_memdb := m, nextMemEnd := \<not> more\<rparr>))
               else Ok it0) (\<lambda>it.
       if (keyOrigin it = FromBack \<or> keyOrigin it = FromBoth) \<and> \<not> nextBackEnd it
       then bind_res (si_Next B (ji_backend it)) (\<lambda>(more, b). Ok (it\<lparr>ji_backend := b, nextBackEnd := \<not> more\<rparr>))
       else Ok it)"

definition join_display :: "'m StoreIterator \<Rightarrow> 'b StoreIterator \<Rightarrow> ('m, 'b) JoinIter \<Rightarrow> (bool \<times> ('m, 'b) JoinIter) res" where
  "join_display M B it =
     (let mkey = si_Key M (ji_memdb it); mval = si_Value M (ji_memdb it);
          bkey = si_Key B (ji_backend it); bval = si_Value B (ji_backend it)
      in if nextBackEnd it then
           (if nextMemEnd it then Ok (False, it\<lparr>ji_key := None, ji_value := None\<rparr>)
            else Ok (True, join_show mkey mval FromMem it))
         else if nextMemEnd it then Ok (True, join_show bkey bval FromBack it)
         else
           let c = ji_cmp it (nil_bytes mkey) (nil_bytes bkey) in
           if c = - 1 then Ok (True, join_show mkey mval FromMem it)
           else if c = 0 then Ok (True, join_show mkey mval FromBoth it)
           else if c = 1 then Ok (True, join_show bkey bval FromBack it)
           else Panic)"

definition join_next :: "'m StoreIterator \<Rightarrow> 'b StoreIterator \<Rightarrow> ('m, 'b) JoinIter \<Rightarrow> (bool \<times> ('m, 'b) JoinIter) res" where
  "join_next M B it0 =
     bind_res (join_advance M B it0) (\<lambda>it.
       if join_Error M B it \<noteq> None then Ok (False, it) else join_display M B it)"

text \<open>The loop \<open>for len(iter.value) == 0\<close> of \<open>First\<close> and \<open>Next\<close>.\<close>

definition skip_step ::
  "'m StoreIterator \<Rightarrow> 'b StoreIterator \<Rightarrow> ('m, 'b) JoinIter \<Rightarrow> (('m, 'b) JoinIter + bool \<times> ('m, 'b) JoinIter) res" where
  "skip_step M B it =
     (if nil_bytes (ji_value it) = []
      then bind_res (join_next M B it) (\<lambda>(f, it'). Ok (if f then Inl it' else Inr (False, it')))
      else Ok (Inr (True, it)))"

definition join_First :: "'m StoreIterator \<Rightarrow> 'b StoreIterator \<Rightarrow> ('m, 'b) JoinIter \<Rightarrow> (bool \<times> ('m, 'b) JoinIter) res" where
  "join_First M B it = bind_res (join_first M B it) (\<lambda>(f, it'). if f then loop (skip_step M B) it' else Ok (False, it'))"

definition join_Next :: "'m StoreIterator \<Rightarrow> 'b StoreIterator \<Rightarrow> ('m, 'b) JoinIter \<Rightarrow> (bool \<times> ('m, 'b) JoinIter) res" where
  "join_Next M B it = bind_res (join_next M B it) (\<lambda>(f, it'). if f then loop (skip_step M B) it' else Ok (False, it'))"

definition join_Release :: "'m StoreIterator \<Rightarrow> 'b StoreIterator \<Rightarrow> ('m, 'b) JoinIter \<Rightarrow> ('m, 'b) JoinIter" where
  "join_Release M B it = it\<lparr>ji_memdb := si_Release M (ji_memdb it), ji_backend := si_Release B (ji_backend it)\<rparr>"

definition join_ops :: "'m StoreIterator \<Rightarrow> 'b StoreIterator \<Rightarrow> ('m, 'b) JoinIter StoreIterator" where
  "join_ops M B = \<lparr>si_First = join_First M B, si_Next = join_Next M B, si_Key = ji_key, si_Value = ji_value,
                   si_Error = join_Error M B, si_Release = join_Release M B\<rparr>"

section \<open>The layers joined\<close>

text \<open>The pairs of two layers in order, the upper layer first where both have the key; and those not deleted.\<close>

fun layers :: "(bytes \<times> bytes) list \<Rightarrow> (bytes \<times> bytes) list \<Rightarrow> (bytes \<times> bytes) list" where
  "layers [] bs = bs"
| "layers ms [] = ms"
| "layers ((k, v) # ms) ((l, w) # bs) =
     (if k < l then (k, v) # layers ms ((l, w) # bs)
      else if k = l then (k, v) # layers ms bs
      else (l, w) # layers ((k, v) # ms) bs)"

definition live :: "(bytes \<times> bytes) list \<Rightarrow> (bytes \<times> bytes) list" where
  "live kvs = filter (\<lambda>(k, v). v \<noteq> []) kvs"

lemma layers_nil [simp]: "layers ms [] = ms"
  by (cases ms) auto

lemma layers_keys: "fst ` set (layers ms bs) = fst ` set ms \<union> fst ` set bs"
  by (induction ms bs rule: layers.induct) auto

lemma layers_sorted: "kv_seq ms \<Longrightarrow> kv_seq bs \<Longrightarrow> kv_seq (layers ms bs)"
proof (induction ms bs rule: layers.induct)
  case (3 k v ms l w bs)
  then show ?case
    using layers_keys [of ms "(l, w) # bs"] layers_keys [of ms bs] layers_keys [of "(k, v) # ms" bs]
    by (auto simp: kv_seq_def simp flip: image_Un dest: less_trans)
qed auto

lemma map_of_layers: "kv_seq ms \<Longrightarrow> kv_seq bs \<Longrightarrow> map_of (layers ms bs) = map_of bs ++ map_of ms"
proof (induction ms bs rule: layers.induct)
  case (3 k v ms l w bs)
  have "map_of ((l, w) # bs) k = None" if "k < l"
    using that 3(5) by (force simp: kv_seq_def map_of_eq_None_iff)
  moreover have "map_of ((k, v) # ms) l = None" if "l < k"
    using that 3(4) by (force simp: kv_seq_def map_of_eq_None_iff)
  ultimately show ?case
    using 3 by (cases k l rule: linorder_cases) (auto simp: kv_seq_def map_add_def fun_eq_iff split: option.splits)
qed auto

lemma live_sorted: "kv_seq kvs \<Longrightarrow> kv_seq (live kvs)"
  by (auto simp: kv_seq_def live_def sorted_wrt_map intro: sorted_wrt_filter)

lemma map_of_live:
  assumes "kv_seq kvs"
  shows "map_of (live kvs) k = (case map_of kvs k of Some v \<Rightarrow> if v = [] then None else Some v | None \<Rightarrow> None)"
  using assms
proof (induction kvs)
  case (Cons kv kvs)
  have "map_of kvs (fst kv) = None"
    using Cons.prems by (force simp: kv_seq_def map_of_eq_None_iff)
  then show ?case
    using Cons by (auto simp: live_def kv_seq_def split: option.splits)
qed (simp add: live_def)

section \<open>The iterator yields the layers joined\<close>

text \<open>
  What the two iterators have left after the current pair. The pair comes from the first of \<open>ms\<close>, of \<open>bs\<close>
  or of both. When an end is reached the code first shows a pair without key and value for that side,
  which moves nothing.
\<close>

definition rest_m :: "('m, 'b) JoinIter \<Rightarrow> (bytes \<times> bytes) list \<Rightarrow> (bytes \<times> bytes) list" where
  "rest_m it ms = (if keyOrigin it = FromMem \<or> keyOrigin it = FromBoth then tl ms else ms)"

definition rest_b :: "('m, 'b) JoinIter \<Rightarrow> (bytes \<times> bytes) list \<Rightarrow> (bytes \<times> bytes) list" where
  "rest_b it bs = (if keyOrigin it = FromBack \<or> keyOrigin it = FromBoth then tl bs else bs)"

definition shown :: "('m, 'b) JoinIter \<Rightarrow> (bytes \<times> bytes) list" where
  "shown it = (case (ji_key it, ji_value it) of (Some k, Some v) \<Rightarrow> [(k, v)] | _ \<Rightarrow> [])"

text \<open>A step on a side that has ended sets its flag.\<close>

definition stuck :: "('m, 'b) JoinIter \<Rightarrow> (bytes \<times> bytes) list \<Rightarrow> (bytes \<times> bytes) list \<Rightarrow> bool" where
  "stuck it ms bs \<longleftrightarrow> (keyOrigin it = FromMem \<or> keyOrigin it = FromBoth) \<and> ms = [] \<and> \<not> nextMemEnd it
     \<or> (keyOrigin it = FromBack \<or> keyOrigin it = FromBoth) \<and> bs = [] \<and> \<not> nextBackEnd it"

definition join_measure :: "('m, 'b) JoinIter \<Rightarrow> (bytes \<times> bytes) list \<Rightarrow> (bytes \<times> bytes) list \<Rightarrow> nat" where
  "join_measure it ms bs = 6 * (length (rest_m it ms) + length (rest_b it bs))
     + 2 * (of_bool (\<not> nextMemEnd it) + of_bool (\<not> nextBackEnd it)) + of_bool (\<not> stuck it ms bs)"

definition named :: "(bytes \<times> bytes) list \<Rightarrow> bool" where
  "named kvs \<longleftrightarrow> (\<forall>(k, v)\<in>set kvs. k \<noteq> [])"

locale join_iter = m: store_iter M mfresh mpos + b: store_iter B bfresh bpos
  for M :: "'m StoreIterator" and mfresh mpos and B :: "'b StoreIterator" and bfresh bpos
begin

definition join_at :: "('m, 'b) JoinIter \<Rightarrow> (bytes \<times> bytes) list \<Rightarrow> (bytes \<times> bytes) list \<Rightarrow> bool" where
  "join_at it ms bs \<longleftrightarrow> mpos (ji_memdb it) ms \<and> bpos (ji_backend it) bs
     \<and> (nextMemEnd it \<longrightarrow> ms = []) \<and> (nextBackEnd it \<longrightarrow> bs = [])
     \<and> byte_order (ji_cmp it) \<and> named bs \<and> (ji_key it = None \<longleftrightarrow> ji_value it = None)"

lemma no_error: "mpos (ji_memdb it) ms \<Longrightarrow> bpos (ji_backend it) bs \<Longrightarrow> join_Error M B it = None"
  by (simp add: join_Error_def m.si_error b.si_error)

lemma advance:
  assumes "join_at it ms bs"
  shows "\<exists>m b e f. join_advance M B it = Ok (it\<lparr>ji_memdb := m, nextMemEnd := e, ji_backend := b, nextBackEnd := f\<rparr>)
    \<and> mpos m (rest_m it ms) \<and> bpos b (rest_b it bs) \<and> (e \<longrightarrow> rest_m it ms = []) \<and> (f \<longrightarrow> rest_b it bs = [])
    \<and> (nextMemEnd it \<longrightarrow> e) \<and> (nextBackEnd it \<longrightarrow> f) \<and> (stuck it ms bs \<longrightarrow> e \<and> \<not> nextMemEnd it \<or> f \<and> \<not> nextBackEnd it)"
proof -
  let ?mem = "(keyOrigin it = FromMem \<or> keyOrigin it = FromBoth) \<and> \<not> nextMemEnd it"
  let ?bk = "(keyOrigin it = FromBack \<or> keyOrigin it = FromBoth) \<and> \<not> nextBackEnd it"
  have at: "mpos (ji_memdb it) ms" "bpos (ji_backend it) bs" "nextMemEnd it \<Longrightarrow> ms = []" "nextBackEnd it \<Longrightarrow> bs = []"
    using assms by (simp_all add: join_at_def)
  obtain m where m: "si_Next M (ji_memdb it) = Ok (tl ms \<noteq> [], m)" "mpos m (tl ms)"
    using m.si_next [OF at(1)] by blast
  obtain b where b: "si_Next B (ji_backend it) = Ok (tl bs \<noteq> [], b)" "bpos b (tl bs)"
    using b.si_next [OF at(2)] by blast
  define m' e where "m' = (if ?mem then m else ji_memdb it)" and "e = (if ?mem then tl ms = [] else nextMemEnd it)"
  define b' f where "b' = (if ?bk then b else ji_backend it)" and "f = (if ?bk then tl bs = [] else nextBackEnd it)"
  have "join_advance M B it = Ok (it\<lparr>ji_memdb := m', nextMemEnd := e, ji_backend := b', nextBackEnd := f\<rparr>)"
    using m(1) b(1) 
    by (cases "keyOrigin it"; cases "nextMemEnd it"; cases "nextBackEnd it")
      (simp_all add: join_advance_def m'_def e_def b'_def f_def)
  moreover have "mpos m' (rest_m it ms)" "e \<longrightarrow> rest_m it ms = []" "nextMemEnd it \<longrightarrow> e"
    using at(1,3) m(2) by (cases ?mem; auto simp: rest_m_def m'_def e_def)+
  moreover have "bpos b' (rest_b it bs)" "f \<longrightarrow> rest_b it bs = []" "nextBackEnd it \<longrightarrow> f"
    using at(2,4) b(2) by (cases ?bk; auto simp: rest_b_def b'_def f_def)+
  moreover have "stuck it ms bs \<longrightarrow> e \<and> \<not> nextMemEnd it \<or> f \<and> \<not> nextBackEnd it"
    by (auto simp: stuck_def e_def f_def)
  ultimately show ?thesis
    by blast
qed

text \<open>What the current pair \<open>k\<close>, \<open>v\<close> may be, with its origin, when \<open>ms\<close> and \<open>bs\<close> are left.\<close>

definition shows_next ::
  "('m, 'b) JoinIter \<Rightarrow> (bytes \<times> bytes) list \<Rightarrow> (bytes \<times> bytes) list \<Rightarrow> bool \<Rightarrow> ('m, 'b) JoinIter \<Rightarrow> bool" where
  "shows_next it ms bs f it' \<longleftrightarrow> (\<exists>k v orig. it' = join_show k v orig it \<and> (k = None \<longleftrightarrow> v = None))
     \<and> shown it' @ layers (rest_m it' ms) (rest_b it' bs) = layers ms bs
     \<and> (if f then length (rest_m it' ms) + length (rest_b it' bs) < length ms + length bs
                 \<or> stuck it' ms bs \<and> rest_m it' ms = ms \<and> rest_b it' bs = bs
        else ji_key it' = None \<and> ms = [] \<and> bs = [])"

lemma show_simps:
  "shown (join_show (Some k) (Some v) orig it) = [(k, v)]" "shown (join_show None None orig it) = []"
  "rest_m (join_show x y orig it) ms = (if orig = FromBack then ms else tl ms)"
  "rest_b (join_show x y orig it) bs = (if orig = FromMem then bs else tl bs)"
  "stuck (join_show x y orig it) ms bs \<longleftrightarrow>
     orig \<noteq> FromBack \<and> ms = [] \<and> \<not> nextMemEnd it \<or> orig \<noteq> FromMem \<and> bs = [] \<and> \<not> nextBackEnd it"
  by (cases orig; auto simp: shown_def rest_m_def rest_b_def stuck_def join_show_def)+

lemma shows_none:
  assumes "f \<Longrightarrow> stuck (join_show None None orig it) ms bs" "orig \<noteq> FromBack \<longrightarrow> ms = []" "orig \<noteq> FromMem \<longrightarrow> bs = []"
    "\<not> f \<Longrightarrow> ms = [] \<and> bs = []"
  shows "shows_next it ms bs f (join_show None None orig it)"
proof -
  have "ji_key (join_show None None orig it) = None"
    by (simp add: join_show_def)
  moreover have "rest_m (join_show None None orig it) ms = ms" "rest_b (join_show None None orig it) bs = bs"
    using assms(2,3) by (auto simp: show_simps)
  ultimately show ?thesis
    using assms(1,4) by (cases f) (auto simp: shows_next_def show_simps(1,2))
qed

lemma shows_some:
  assumes "(k, v) # layers (if orig = FromBack then ms else tl ms) (if orig = FromMem then bs else tl bs) = layers ms bs"
    "orig = FromBack \<or> ms \<noteq> []" "orig = FromBack \<longrightarrow> bs \<noteq> []"
  shows "shows_next it ms bs True (join_show (Some k) (Some v) orig it)"
proof -
  have "length (rest_m (join_show (Some k) (Some v) orig it) ms) + length (rest_b (join_show (Some k) (Some v) orig it) bs)
      < length ms + length bs"
    using assms(2,3) by (cases orig; cases ms; cases bs) (simp_all add: show_simps)
  then show ?thesis
    using assms(1) by (auto simp: shows_next_def show_simps)
qed

lemma display:
  assumes at: "mpos (ji_memdb it) ms" "bpos (ji_backend it) bs" and ends: "nextMemEnd it \<longrightarrow> ms = []" "nextBackEnd it \<longrightarrow> bs = []"
    and bo: "byte_order (ji_cmp it)" and named: "named bs"
  shows "\<exists>f it'. join_display M B it = Ok (f, it') \<and> shows_next it ms bs f it'"
proof -
  have c: "(ji_cmp it x y = - 1) = (x < y)" "(ji_cmp it x y = 0) = (x = y)" "(ji_cmp it x y = 1) = (y < x)" for x y
    using bo by (simp_all add: byte_order_def)
  note d = join_display_def Let_def nil_bytes_def c
  note cur = m.si_cur [OF at(1)] b.si_cur [OF at(2)]
  show ?thesis
  proof (cases ms; cases bs)
    assume n: "ms = []" "bs = []"
    let ?fin = "nextMemEnd it \<and> nextBackEnd it"
    let ?orig = "if ?fin then keyOrigin it else if nextBackEnd it then FromMem else if nextMemEnd it then FromBack else FromBoth"
    have "join_display M B it = Ok (\<not> ?fin, join_show None None ?orig it)"
      using cur n by (simp add: d cur_def) (simp add: join_show_def)
    moreover have "shows_next it ms bs (\<not> ?fin) (join_show None None ?orig it)"
      by (rule shows_none) (use n in \<open>simp_all add: show_simps(5)\<close>)
    ultimately show ?thesis
      by blast
  next
    fix lw bs' assume n: "ms = []" "bs = lw # bs'"
    obtain l w where lw: "lw = (l, w)" "[] < l" "\<not> nextBackEnd it"
      using n named ends by (cases lw; cases "fst lw") (auto simp: named_def)
    have "join_display M B it = Ok (True, if nextMemEnd it then join_show (Some l) (Some w) FromBack it else join_show None None FromMem it)"
      using cur n lw by (simp add: d cur_def)
    moreover have "shows_next it ms bs True (join_show (Some l) (Some w) FromBack it)"
      by (rule shows_some) (use n lw in simp_all)
    moreover have "shows_next it ms bs True (join_show None None FromMem it)" if "\<not> nextMemEnd it"
      by (rule shows_none) (use n that in \<open>simp_all add: show_simps(5)\<close>)
    ultimately show ?thesis
      by (cases "nextMemEnd it") (simp, blast)+
  next
    fix kv ms' assume n: "ms = kv # ms'" "bs = []"
    obtain k v where kv: "kv = (k, v)" "\<not> nextMemEnd it"
      using n ends by (cases kv) auto
    have "join_display M B it = Ok (True, if nextBackEnd it then join_show (Some k) (Some v) FromMem it
        else if k = [] then join_show (Some k) (Some v) FromBoth it else join_show None None FromBack it)"
      using cur n kv by (cases k) (simp_all add: d cur_def)
    moreover have "shows_next it ms bs True (join_show (Some k) (Some v) orig it)" if "orig \<noteq> FromBack" for orig
      by (rule shows_some) (use n kv that in simp_all)
    moreover have "shows_next it ms bs True (join_show None None FromBack it)" if "\<not> nextBackEnd it"
      by (rule shows_none) (use n that in \<open>simp_all add: show_simps(5)\<close>)
    ultimately show ?thesis
      by (cases "nextBackEnd it"; cases "k = []") (simp, blast)+
  next
    fix kv ms' lw bs' assume n: "ms = kv # ms'" "bs = lw # bs'"
    obtain k v l w where kv: "kv = (k, v)" "\<not> nextMemEnd it" "lw = (l, w)" "\<not> nextBackEnd it"
      using n ends by (cases kv; cases lw) auto
    have "join_display M B it = Ok (True, if k < l then join_show (Some k) (Some v) FromMem it
        else if k = l then join_show (Some k) (Some v) FromBoth it else join_show (Some l) (Some w) FromBack it)"
      using cur n kv by (cases k l rule: linorder_cases) (simp_all add: d cur_def)
    moreover have "shows_next it ms bs True (if k < l then join_show (Some k) (Some v) FromMem it
        else if k = l then join_show (Some k) (Some v) FromBoth it else join_show (Some l) (Some w) FromBack it)"
      using n kv by (cases k l rule: linorder_cases) (simp_all add: shows_some)
    ultimately show ?thesis
      by blast
  qed
qed

lemma show_at:
  assumes "shows_next it ms bs f it'" "mpos (ji_memdb it) ms" "bpos (ji_backend it) bs"
    "nextMemEnd it \<longrightarrow> ms = []" "nextBackEnd it \<longrightarrow> bs = []" "byte_order (ji_cmp it)" "named bs"
  shows "join_at it' ms bs" "nextMemEnd it' = nextMemEnd it" "nextBackEnd it' = nextBackEnd it"
  using assms by (auto simp: shows_next_def join_at_def join_show_def)

lemma named_rest: "named bs \<Longrightarrow> named (rest_b it bs)"
  by (cases bs) (auto simp: named_def rest_b_def)

lemma next_step:
  assumes at: "join_at it ms bs"
  shows "\<exists>f it' ms' bs'. join_next M B it = Ok (f, it') \<and> join_at it' ms' bs'
    \<and> shown it' @ layers (rest_m it' ms') (rest_b it' bs') = layers (rest_m it ms) (rest_b it bs)
    \<and> (if f then join_measure it' ms' bs' < join_measure it ms bs
       else ji_key it' = None \<and> rest_m it ms = [] \<and> rest_b it bs = [])"
proof -
  obtain m b e f where adv: "join_advance M B it = Ok (it\<lparr>ji_memdb := m, nextMemEnd := e, ji_backend := b, nextBackEnd := f\<rparr>)"
    and pos: "mpos m (rest_m it ms)" "bpos b (rest_b it bs)" and ends: "e \<longrightarrow> rest_m it ms = []" "f \<longrightarrow> rest_b it bs = []"
    and keep: "nextMemEnd it \<longrightarrow> e" "nextBackEnd it \<longrightarrow> f"
    and set: "stuck it ms bs \<longrightarrow> e \<and> \<not> nextMemEnd it \<or> f \<and> \<not> nextBackEnd it"
    using advance [OF at] by blast
  define it1 where "it1 = it\<lparr>ji_memdb := m, nextMemEnd := e, ji_backend := b, nextBackEnd := f\<rparr>"
  have it1: "mpos (ji_memdb it1) (rest_m it ms)" "bpos (ji_backend it1) (rest_b it bs)"
    "nextMemEnd it1 \<longrightarrow> rest_m it ms = []" "nextBackEnd it1 \<longrightarrow> rest_b it bs = []" "byte_order (ji_cmp it1)"
    "named (rest_b it bs)" "nextMemEnd it1 = e" "nextBackEnd it1 = f"
    using pos ends at named_rest [of bs it] by (simp_all add: it1_def join_at_def)
  obtain g it' where disp: "join_display M B it1 = Ok (g, it')" and nx: "shows_next it1 (rest_m it ms) (rest_b it bs) g it'"
    using display [OF it1(1-6)] by blast
  have "join_next M B it = Ok (g, it')"
    using adv disp no_error [OF it1(1,2)] by (simp add: join_next_def it1_def)
  moreover note at' = show_at [OF nx it1(1-6)]
  moreover have "join_measure it' (rest_m it ms) (rest_b it bs) < join_measure it ms bs" if g
    using nx that keep set unfolding join_measure_def shows_next_def at'(2,3) it1(7,8)
    by (cases "stuck it ms bs") (auto simp: of_bool_def)
  ultimately show ?thesis
    using nx by (intro exI [of _ g] exI [of _ it'] exI [of _ "rest_m it ms"] exI [of _ "rest_b it bs"])
      (simp add: shows_next_def)
qed

text \<open>Skipping the deleted keys.\<close>

definition skip_inv :: "(bytes \<times> bytes) list \<Rightarrow> ('m, 'b) JoinIter \<Rightarrow> nat \<Rightarrow> bool" where
  "skip_inv kvs it n \<longleftrightarrow> (\<exists>ms bs. join_at it ms bs \<and> kvs = live (shown it @ layers (rest_m it ms) (rest_b it bs))
     \<and> n = join_measure it ms bs)"

lemma skip_invI:
  assumes "join_at it ms bs" "shown it @ layers (rest_m it ms) (rest_b it bs) = xs"
  shows "skip_inv (live xs) it (join_measure it ms bs)"
  unfolding skip_inv_def using assms(1) by (intro exI [of _ ms] exI [of _ bs]) (simp only: assms(2) simp_thms)

definition join_pos :: "('m, 'b) JoinIter \<Rightarrow> (bytes \<times> bytes) list \<Rightarrow> bool" where
  "join_pos it kvs \<longleftrightarrow> (\<exists>ms bs. join_at it ms bs \<and> kvs = live (shown it @ layers (rest_m it ms) (rest_b it bs)))
     \<and> (if kvs = [] then ji_key it = None \<and> ji_value it = None else nil_bytes (ji_value it) \<noteq> [])"

definition join_fresh :: "('m, 'b) JoinIter \<Rightarrow> (bytes \<times> bytes) list \<Rightarrow> bool" where
  "join_fresh it kvs \<longleftrightarrow> (\<exists>ms bs. mfresh (ji_memdb it) ms \<and> bfresh (ji_backend it) bs \<and> named bs \<and> kvs = live (layers ms bs))
     \<and> ji_key it = None \<and> ji_value it = None \<and> \<not> nextMemEnd it \<and> \<not> nextBackEnd it \<and> byte_order (ji_cmp it)"

lemma join_freshI:
  "mfresh m ms \<Longrightarrow> bfresh b bs \<Longrightarrow> named bs \<Longrightarrow> byte_order c \<Longrightarrow> join_fresh (NewJoinIter c m b) (live (layers ms bs))"
  by (auto simp: join_fresh_def NewJoinIter_def)

lemma live_append [simp]: "live (xs @ ys) = live xs @ live ys"
  by (simp add: live_def)

lemma live_Nil [simp]: "live [] = []"
  by (simp add: live_def)

lemma join_at_value:
  assumes "join_at it ms bs" "nil_bytes (ji_value it) = []"
  shows "live (shown it) = []"
  using assms by (auto simp: join_at_def nil_bytes_def shown_def live_def split: option.splits)

lemma join_end_pos:
  assumes "join_at it ms bs" "ji_key it = None" "shown it @ layers (rest_m it ms) (rest_b it bs) = []"
  shows "join_pos it []"
proof -
  have "\<exists>ms bs. join_at it ms bs \<and> [] = live (shown it @ layers (rest_m it ms) (rest_b it bs))"
    using assms(1) by (intro exI [of _ ms] exI [of _ bs]) (simp only: assms(3) live_Nil simp_thms)
  moreover have "ji_value it = None"
    using assms(1,2) by (simp add: join_at_def)
  ultimately show ?thesis
    using assms(2) by (simp add: join_pos_def)
qed

lemma skip_stops:
  assumes inv: "skip_inv kvs it n"
  shows "(\<exists>s' n'. skip_step M B it = Ok (Inl s') \<and> skip_inv kvs s' n' \<and> n' < n)
    \<or> (\<exists>r. skip_step M B it = Ok (Inr r) \<and> fst r = (kvs \<noteq> []) \<and> join_pos (snd r) kvs)"
proof -
  obtain ms bs where at: "join_at it ms bs" and kvs: "kvs = live (shown it @ layers (rest_m it ms) (rest_b it bs))"
    and n: "n = join_measure it ms bs"
    using inv by (auto simp: skip_inv_def)
  show ?thesis
  proof (cases "nil_bytes (ji_value it) = []")
    case True
    have kvs': "kvs = live (layers (rest_m it ms) (rest_b it bs))"
      using join_at_value [OF at True] kvs by simp
    obtain f it' ms' bs' where nx: "join_next M B it = Ok (f, it')" and at': "join_at it' ms' bs'"
      and shown: "shown it' @ layers (rest_m it' ms') (rest_b it' bs') = layers (rest_m it ms) (rest_b it bs)"
      and f: "if f then join_measure it' ms' bs' < join_measure it ms bs
          else ji_key it' = None \<and> rest_m it ms = [] \<and> rest_b it bs = []"
      using next_step [OF at] by blast
    show ?thesis
    proof (cases f)
      case f': True
      have "skip_inv kvs it' (join_measure it' ms' bs')"
        unfolding kvs' by (rule skip_invI [OF at' shown])
      then show ?thesis
        using nx True f f' n by (auto simp: skip_step_def)
    next
      case False
      then have "join_pos it' []"
        using join_end_pos [OF at'] f shown by simp
      then show ?thesis
        using nx True f False kvs' by (simp add: skip_step_def)
    qed
  next
    case False
    then have "shown it \<noteq> []" "live (shown it) = shown it"
      using at by (auto simp: join_at_def nil_bytes_def shown_def live_def split: option.splits)
    then have "kvs \<noteq> []"
      using kvs by simp
    then have "join_pos it kvs"
      unfolding join_pos_def using at kvs False by auto
    then show ?thesis
      using False \<open>kvs \<noteq> []\<close> by (simp add: skip_step_def)
  qed
qed

lemma skip_loop:
  assumes "skip_inv kvs it n"
  shows "\<exists>it'. loop (skip_step M B) it = Ok (kvs \<noteq> [], it') \<and> join_pos it' kvs"
proof -
  have "\<exists>r. loop (skip_step M B) it = Ok r \<and> fst r = (kvs \<noteq> []) \<and> join_pos (snd r) kvs"
    using skip_stops assms by (rule loop_total_ghost [where I = "skip_inv kvs"])
  then show ?thesis
    by auto
qed

lemma pos_cases:
  assumes "join_pos it kvs"
  shows "\<exists>ms bs. join_at it ms bs \<and> kvs = live (shown it) @ live (layers (rest_m it ms) (rest_b it bs))"
    and "kvs = [] \<Longrightarrow> ji_key it = None \<and> ji_value it = None"
    and "kvs \<noteq> [] \<Longrightarrow> \<exists>k v. ji_key it = Some k \<and> ji_value it = Some v \<and> live (shown it) = [(k, v)]"
proof -
  obtain ms bs where at: "join_at it ms bs" and kvs: "kvs = live (shown it @ layers (rest_m it ms) (rest_b it bs))"
    and c: "if kvs = [] then ji_key it = None \<and> ji_value it = None else nil_bytes (ji_value it) \<noteq> []"
    using assms by (auto simp: join_pos_def)
  show "\<exists>ms bs. join_at it ms bs \<and> kvs = live (shown it) @ live (layers (rest_m it ms) (rest_b it bs))"
    using at kvs by auto
  show "ji_key it = None \<and> ji_value it = None" if "kvs = []"
    using c that by simp
  show "\<exists>k v. ji_key it = Some k \<and> ji_value it = Some v \<and> live (shown it) = [(k, v)]" if "kvs \<noteq> []"
    using c that at by (auto simp: join_at_def nil_bytes_def shown_def live_def split: option.splits)
qed

lemma first_step:
  assumes "join_fresh it kvs"
  shows "\<exists>it'. join_First M B it = Ok (kvs \<noteq> [], it') \<and> join_pos it' kvs"
proof -
  obtain ms bs where fr: "mfresh (ji_memdb it) ms" "bfresh (ji_backend it) bs" and named: "named bs"
    and kvs: "kvs = live (layers ms bs)"
    and new: "ji_key it = None" "ji_value it = None" "\<not> nextMemEnd it" "\<not> nextBackEnd it" and bo: "byte_order (ji_cmp it)"
    using assms unfolding join_fresh_def by blast
  obtain m b where m: "si_First M (ji_memdb it) = Ok (ms \<noteq> [], m)" "mpos m ms"
    and b: "si_First B (ji_backend it) = Ok (bs \<noteq> [], b)" "bpos b bs"
    using m.si_first [OF fr(1)] b.si_first [OF fr(2)] by blast
  define it1 where "it1 = it\<lparr>ji_backend := b, ji_memdb := m\<rparr>"
  have it1: "mpos (ji_memdb it1) ms" "bpos (ji_backend it1) bs" "nextMemEnd it1 \<longrightarrow> ms = []" "nextBackEnd it1 \<longrightarrow> bs = []"
    "byte_order (ji_cmp it1)" "ji_key it1 = None" "ji_value it1 = None"
    using m b bo new by (simp_all add: it1_def)
  have cmp: "ji_cmp it1 = bytes_compare"
    using byte_order_unique [OF it1(5)] .
  have first: "join_first M B it = (case (ms, bs) of
      ([], []) \<Rightarrow> Ok (False, it1)
    | ((k, v) # _, []) \<Rightarrow> Ok (True, join_show (Some k) (Some v) FromMem it1)
    | ([], (l, w) # _) \<Rightarrow> Ok (True, join_show (Some l) (Some w) FromBack it1)
    | ((k, v) # _, (l, w) # _) \<Rightarrow> Ok (True, if k < l then join_show (Some k) (Some v) FromMem it1
        else if k = l then join_show (Some k) (Some v) FromBoth it1 else join_show (Some l) (Some w) FromBack it1))"
    using m(1) b(1) m.si_cur [OF it1(1)] b.si_cur [OF it1(2)] no_error [OF it1(1,2)] cmp
    by (auto simp: join_first_def it1_def cur_def Let_def nil_bytes_def bytes_compare_def split: list.splits)
  have loop: ?thesis if "join_first M B it = Ok (True, it')" "shows_next it1 ms bs True it'" for it'
  proof -
    have "skip_inv kvs it' (join_measure it' ms bs)"
      unfolding kvs using that(2) by (intro skip_invI [OF show_at(1) [OF that(2) it1(1-5) named]]) (simp add: shows_next_def)
    from skip_loop [OF this] show ?thesis
      using that(1) by (simp add: join_First_def)
  qed
  show ?thesis
  proof (cases "ms = [] \<and> bs = []")
    case True
    have "join_at it1 ms bs" "shown it1 = []" "rest_m it1 ms = []" "rest_b it1 bs = []"
      using it1 named True by (simp_all add: join_at_def shown_def rest_m_def rest_b_def)
    then show ?thesis
      using join_end_pos [of it1 ms bs] first it1(6) True kvs by (simp add: join_First_def)
  next
    case False
    then have "\<exists>it'. join_first M B it = Ok (True, it') \<and> shows_next it1 ms bs True it'"
      using first by (cases ms; cases bs) (auto simp: shows_some)
    then show ?thesis
      using loop by blast
  qed
qed

lemma next_pos:
  assumes "join_pos it kvs"
  shows "\<exists>it'. join_Next M B it = Ok (tl kvs \<noteq> [], it') \<and> join_pos it' (tl kvs)"
proof -
  obtain ms bs where at: "join_at it ms bs" and kvs: "kvs = live (shown it) @ live (layers (rest_m it ms) (rest_b it bs))"
    using pos_cases(1) [OF assms] by blast
  note shown = pos_cases(2,3) [OF assms]
  have tl: "tl kvs = live (layers (rest_m it ms) (rest_b it bs))"
    using kvs shown(2) by (cases "kvs = []") auto
  obtain f it' ms' bs' where nx: "join_next M B it = Ok (f, it')" and at': "join_at it' ms' bs'"
    and sh: "shown it' @ layers (rest_m it' ms') (rest_b it' bs') = layers (rest_m it ms) (rest_b it bs)"
    and f: "if f then join_measure it' ms' bs' < join_measure it ms bs
        else ji_key it' = None \<and> rest_m it ms = [] \<and> rest_b it bs = []"
    using next_step [OF at] by blast
  show ?thesis
  proof (cases f)
    case True
    have "skip_inv (tl kvs) it' (join_measure it' ms' bs')"
      unfolding tl by (rule skip_invI [OF at' sh])
    from skip_loop [OF this] show ?thesis
      using nx True by (simp add: join_Next_def)
  next
    case False
    then have "join_pos it' []" "tl kvs = []"
      using join_end_pos [OF at'] f sh tl by simp_all
    then show ?thesis
      using nx False by (simp add: join_Next_def)
  qed
qed

lemma fresh_seq: "join_fresh it kvs \<Longrightarrow> kv_seq kvs"
  using m.si_seq(1) b.si_seq(1) layers_sorted live_sorted by (auto simp: join_fresh_def)

definition join_ordered :: "('m, 'b) JoinIter \<Rightarrow> (bytes \<times> bytes) list \<Rightarrow> bool" where
  "join_ordered it kvs \<longleftrightarrow> join_pos it kvs \<and> kv_seq kvs"

lemma join_cur:
  assumes "join_pos it kvs"
  shows "cur (join_ops M B) it kvs"
proof -
  obtain ms bs where "join_at it ms bs" and kvs: "kvs = live (shown it) @ live (layers (rest_m it ms) (rest_b it bs))"
    using pos_cases(1) [OF assms] by blast
  note shown = pos_cases(2,3) [OF assms]
  show ?thesis
  proof (cases "kvs = []")
    case True
    then show ?thesis
      using shown(1) by (simp add: cur_def join_ops_def)
  next
    case False
    then obtain k v rest where "ji_key it = Some k" "ji_value it = Some v" "kvs = (k, v) # rest"
      using shown(2) kvs by auto
    then show ?thesis
      by (simp add: cur_def join_ops_def)
  qed
qed

end

sublocale join_iter \<subseteq> joined: store_iter "join_ops M B" join_fresh join_ordered
proof
  fix it kvs
  assume new: "join_fresh it kvs"
  then show "\<exists>it'. si_First (join_ops M B) it = Ok (kvs \<noteq> [], it') \<and> join_ordered it' kvs"
    using first_step fresh_seq by (simp add: join_ops_def join_ordered_def)
  show "kv_seq kvs"
    using new fresh_seq by blast
next
  fix it kvs
  assume "join_ordered it kvs"
  then have pos: "join_pos it kvs" and seq: "kv_seq kvs"
    by (simp_all add: join_ordered_def)
  have "kv_seq (tl kvs)"
    using seq by (cases kvs) (auto simp: kv_seq_def)
  then show "\<exists>it'. si_Next (join_ops M B) it = Ok (tl kvs \<noteq> [], it') \<and> join_ordered it' (tl kvs)"
    using next_pos [OF pos] by (simp add: join_ops_def join_ordered_def)
  show "cur (join_ops M B) it kvs"
    using join_cur [OF pos] .
  show "si_Error (join_ops M B) it = None"
  proof -
    obtain ms bs where "join_at it ms bs"
      using pos unfolding join_pos_def by blast
    then show ?thesis
      using no_error [of it ms bs] by (simp add: join_ops_def join_at_def)
  qed
  show "kv_seq kvs"
    using seq .
qed

context join_iter
begin

lemma join_store_iter: "store_iter (join_ops M B) join_fresh join_ordered"
  by (rule joined.store_iter_axioms)

lemma join_pair_iter: "pair_iter (join_ops M B) join_fresh join_ordered"
  by (rule joined.pair_iter_axioms)

end

interpretation mem_join: join_iter "dbIter_ops p" "it_fresh p" "it_pos p" "dbIter_ops q" "it_fresh q" "it_pos q" for p q
  by (rule join_iter.intro) (rule mem_iter.store_iter_axioms)+

end
