(* ===== verification/OverlayDB.thy ===== *)
theory OverlayDB
  imports JoinIter Sha256
begin

text \<open>
  The block cache over the persistent store, \<open>src/core/store/overlaydb/overlaydb.go\<close>. Reads go to the
  in-memory store and, when it does not know the key, to the persistent store; writes stay in memory until
  \<open>CommitTo\<close> puts them into a batch of the persistent store.

  The persistent store is any implementation of the interface \<open>PersistStore\<close> of
  \<open>src/core/store/common/store.go\<close>: a record of its methods over a state of its own. What goleveldb provides
  (the comparer and \<open>util.BytesPrefix\<close>) and the numbers of the random source are the record \<open>goleveldb\<close>.

  The locale \<open>kv_store\<close> is the contract of a layer of the store: it stands for a total map from keys to
  values, the empty value for an absent key. The overlay interprets it here, the contract cache above it in
  its own theory.
\<close>

section \<open>The interfaces\<close>

datatype store_error = ErrNotFound | ErrStore err

text \<open>The methods of \<open>PersistStore\<close> the caches call; \<open>ps_iter\<close> are the methods of its iterators.\<close>

record ('s, 'i) PersistStore =
  ps_Get :: "'s \<Rightarrow> bytes \<Rightarrow> bytes option \<times> store_error option"
  ps_BatchPut :: "bytes \<Rightarrow> bytes \<Rightarrow> 's \<Rightarrow> 's"
  ps_BatchDelete :: "bytes \<Rightarrow> 's \<Rightarrow> 's"
  ps_NewIterator :: "'s \<Rightarrow> bytes \<Rightarrow> 'i"
  ps_iter :: "'s \<Rightarrow> 'i StoreIterator"

record goleveldb =
  DefaultComparer :: "bytes \<Rightarrow> bytes \<Rightarrow> int"
  BytesPrefix :: "bytes \<Rightarrow> bytes_range"
  rand_Source :: "nat stream"

section \<open>The overlay\<close>

record 's OverlayDB =
  ov_store :: 's
  ov_memdb :: MemDB
  ov_dbErr :: "store_error option"

definition NewOverlayDB :: "goleveldb \<Rightarrow> 's \<Rightarrow> 's OverlayDB" where
  "NewOverlayDB G store = \<lparr>ov_store = store, ov_memdb = NewMemDB (DefaultComparer G) (rand_Source G), ov_dbErr = None\<rparr>"

definition ov_Reset :: "goleveldb \<Rightarrow> 's OverlayDB \<Rightarrow> 's OverlayDB" where
  "ov_Reset G self = self\<lparr>ov_memdb := db_Reset (rand_Source G) (ov_memdb self)\<rparr>"

definition ov_SetError :: "store_error \<Rightarrow> 's OverlayDB \<Rightarrow> 's OverlayDB" where
  "ov_SetError e self = self\<lparr>ov_dbErr := Some e\<rparr>"

definition ov_Get ::
  "('s, 'i) PersistStore \<Rightarrow> bytes \<Rightarrow> 's OverlayDB \<Rightarrow> ((bytes option \<times> store_error option) \<times> 's OverlayDB) res" where
  "ov_Get PS key self =
     bind_res (db_Get key (ov_memdb self)) (\<lambda>(value, unknown).
       if \<not> unknown then Ok ((value, None), self)
       else
         (case ps_Get PS (ov_store self) key of
            (value, None) \<Rightarrow> Ok ((value, None), self)
          | (_, Some ErrNotFound) \<Rightarrow> Ok ((None, None), self)
          | (_, Some e) \<Rightarrow> Ok ((None, Some e), self\<lparr>ov_dbErr := Some e\<rparr>)))"

definition ov_Put :: "bytes \<Rightarrow> bytes \<Rightarrow> 's OverlayDB \<Rightarrow> 's OverlayDB res" where
  "ov_Put key value self = bind_res (db_Put key value (ov_memdb self)) (\<lambda>m. Ok (self\<lparr>ov_memdb := m\<rparr>))"

definition ov_Delete :: "bytes \<Rightarrow> 's OverlayDB \<Rightarrow> 's OverlayDB res" where
  "ov_Delete key self = bind_res (db_Delete key (ov_memdb self)) (\<lambda>m. Ok (self\<lparr>ov_memdb := m\<rparr>))"

definition ov_CommitTo :: "('s, 'i) PersistStore \<Rightarrow> 's OverlayDB \<Rightarrow> 's OverlayDB res" where
  "ov_CommitTo PS self =
     bind_res (ForEach (\<lambda>key val s. Ok (if val = [] then ps_BatchDelete PS key s else ps_BatchPut PS key val s))
                 (ov_memdb self) (ov_store self)) (\<lambda>s. Ok (self\<lparr>ov_store := s\<rparr>))"

text \<open>The bytes written to the hash are the state of the loop; \<open>Sum\<close> hashes them.\<close>

definition ov_ChangeHash :: "'s OverlayDB \<Rightarrow> bytes res" where
  "ov_ChangeHash self =
     bind_res (ForEach (\<lambda>key val d. Ok (d @ key @ val)) (ov_memdb self) []) (\<lambda>d. Ok (sha256 d))"

definition ov_iter_ops :: "('s, 'i) PersistStore \<Rightarrow> 's OverlayDB \<Rightarrow> (dbIter, 'i) JoinIter StoreIterator" where
  "ov_iter_ops PS self = join_ops (dbIter_ops (ov_memdb self)) (ps_iter PS (ov_store self))"

definition ov_NewIterator :: "goleveldb \<Rightarrow> ('s, 'i) PersistStore \<Rightarrow> bytes \<Rightarrow> 's OverlayDB \<Rightarrow> (dbIter, 'i) JoinIter" where
  "ov_NewIterator G PS key self =
     (let prefixRange = BytesPrefix G key;
          backIter = ps_NewIterator PS (ov_store self) key;
          memIter = NewIterator (Some prefixRange)
      in NewJoinIter (DefaultComparer G) memIter backIter)"

section \<open>The contract of a layer\<close>

text \<open>A partial map of writes over a total map.\<close>

definition over :: "(bytes \<rightharpoonup> bytes) \<Rightarrow> (bytes \<Rightarrow> bytes) \<Rightarrow> bytes \<Rightarrow> bytes" where
  "over m f k = (case m k of None \<Rightarrow> f k | Some v \<Rightarrow> v)"

lemma over_upd: "over (m(k \<mapsto> v)) f = (over m f)(k := v)"
  by (auto simp: over_def fun_eq_iff)

lemma over_empty [simp]: "over Map.empty f = f"
  by (simp add: over_def fun_eq_iff)

lemma over_Cons: "over (map_of (rev ((k, v) # kvs))) f = over (map_of (rev kvs)) (f(k := v))"
  by (auto simp: over_def fun_eq_iff map_add_def split: option.split)

locale kv_store =
  fixes get :: "bytes \<Rightarrow> 's \<Rightarrow> ((bytes option \<times> 'e option) \<times> 's) res"
    and put :: "bytes \<Rightarrow> bytes \<Rightarrow> 's \<Rightarrow> 's res"
    and del :: "bytes \<Rightarrow> 's \<Rightarrow> 's res"
    and ok :: "'s \<Rightarrow> bool"
    and view :: "'s \<Rightarrow> bytes \<Rightarrow> bytes"
  assumes kv_get: "ok s \<Longrightarrow> \<exists>s'. get k s = Ok ((nil_if_empty (view s k), None), s') \<and> ok s' \<and> view s' = view s"
    and kv_put: "ok s \<Longrightarrow> \<exists>s'. put k v s = Ok s' \<and> ok s' \<and> view s' = (view s)(k := v)"
    and kv_del: "ok s \<Longrightarrow> \<exists>s'. del k s = Ok s' \<and> ok s' \<and> view s' = (view s)(k := [])"
begin

text \<open>The write of a layer into the one below it: an empty value deletes.\<close>

lemma write_back:
  assumes "ok s"
  shows "\<exists>s'. fold_res (\<lambda>k v. if v = [] then del k else put k v) kvs s = Ok s' \<and> ok s'
    \<and> view s' = over (map_of (rev kvs)) (view s)"
  using assms
proof (induction kvs arbitrary: s)
  case (Cons kv kvs)
  obtain k v where kv: "kv = (k, v)" by (cases kv)
  obtain s1 where s1: "(if v = [] then del k else put k v) s = Ok s1" "ok s1" "view s1 = (view s)(k := v)"
    using kv_put [OF Cons.prems, of k v] kv_del [OF Cons.prems, of k] by (cases "v = []") auto
  show ?case
    using Cons.IH [OF s1(2)] s1(1) unfolding kv over_Cons s1(3) [symmetric] by simp
qed simp

end

section \<open>The overlay meets it\<close>

text \<open>
  The value of a key in the persistent store, and that its reads neither fail nor return an empty value: the
  caches delete the key of an empty value.
\<close>

definition store_val :: "('s, 'i) PersistStore \<Rightarrow> 's \<Rightarrow> bytes \<Rightarrow> bytes" where
  "store_val PS s k = (case ps_Get PS s k of (v, None) \<Rightarrow> nil_bytes v | _ \<Rightarrow> [])"

definition store_reads :: "('s, 'i) PersistStore \<Rightarrow> 's \<Rightarrow> bool" where
  "store_reads PS s \<longleftrightarrow> (\<forall>k e. snd (ps_Get PS s k) \<noteq> Some (ErrStore e)) \<and> (\<forall>k. ps_Get PS s k \<noteq> (Some [], None))"

definition db_writes :: "MemDB \<Rightarrow> (bytes \<rightharpoonup> bytes)" where
  "db_writes p k = (case db_Get k p of Ok (v, False) \<Rightarrow> Some (nil_bytes v) | _ \<Rightarrow> None)"

definition db_valid :: "MemDB \<Rightarrow> bool" where
  "db_valid p \<longleftrightarrow> (\<exists>kvs. db_holds p kvs)"

definition ov_ok :: "('s, 'i) PersistStore \<Rightarrow> 's OverlayDB \<Rightarrow> bool" where
  "ov_ok PS self \<longleftrightarrow> db_valid (ov_memdb self) \<and> store_reads PS (ov_store self)"

definition ov_view :: "('s, 'i) PersistStore \<Rightarrow> 's OverlayDB \<Rightarrow> bytes \<Rightarrow> bytes" where
  "ov_view PS self = over (db_writes (ov_memdb self)) (store_val PS (ov_store self))"

lemma db_Get_writes:
  assumes "db_valid p"
  shows "db_Get k p = Ok (case db_writes p k of None \<Rightarrow> (None, True) | Some v \<Rightarrow> (nil_if_empty v, False))"
  using assms db_Get_spec [of p _ k]
  by (auto simp: db_valid_def db_holds_def db_writes_def nil_if_empty_def nil_bytes_def split: option.splits)

lemma db_writes_holds: "db_holds p kvs \<Longrightarrow> db_writes p = map_of kvs"
  using db_Get_spec [of p kvs]
  by (auto simp: db_holds_def db_writes_def fun_eq_iff nil_if_empty_def nil_bytes_def split: option.splits)

lemma db_Put_writes:
  assumes "db_valid p"
  shows "\<exists>q. db_Put k v p = Ok q \<and> db_valid q \<and> db_writes q = (db_writes p)(k \<mapsto> v)"
proof -
  obtain kvs where kvs: "db_holds p kvs"
    using assms by (auto simp: db_valid_def)
  obtain q where q: "db_Put k v p = Ok q" "db_holds q (kv_upd k v kvs)"
    using db_Put_spec [OF kvs] by blast
  then show ?thesis
    using db_writes_holds [OF kvs] db_writes_holds [OF q(2)] by (auto simp: db_valid_def map_of_kv_upd)
qed

lemma db_Reset_writes: "db_valid p \<Longrightarrow> db_valid (db_Reset r p) \<and> db_writes (db_Reset r p) = Map.empty"
  using db_Reset_holds [of p _ r] db_writes_holds [of "db_Reset r p" "[]"] by (auto simp: db_valid_def)

lemma db_New_writes: "byte_order c \<Longrightarrow> db_valid (NewMemDB c r) \<and> db_writes (NewMemDB c r) = Map.empty"
  using NewMemDB_holds [of c r] db_writes_holds [of "NewMemDB c r" "[]"] by (auto simp: db_valid_def)

interpretation ov: kv_store "ov_Get PS" ov_Put ov_Delete "ov_ok PS" "ov_view PS" for PS
proof
  fix s k
  assume s: "ov_ok PS s"
  have g: "db_Get k (ov_memdb s)
      = Ok (case db_writes (ov_memdb s) k of None \<Rightarrow> (None, True) | Some v \<Rightarrow> (nil_if_empty v, False))"
    using s db_Get_writes [of "ov_memdb s" k] by (auto simp: ov_ok_def)
  obtain w e where w: "ps_Get PS (ov_store s) k = (w, e)" "e = None \<and> w \<noteq> Some [] \<or> e = Some ErrNotFound"
  proof (cases "ps_Get PS (ov_store s) k")
    case (Pair w e)
    then show ?thesis
      using s that [of w e] by (cases e; cases "the e") (auto simp: ov_ok_def store_reads_def dest!: spec [of _ k])
  qed
  show "\<exists>s'. ov_Get PS k s = Ok ((nil_if_empty (ov_view PS s k), None), s') \<and> ov_ok PS s' \<and> ov_view PS s' = ov_view PS s"
    using s g w
    by (auto simp: ov_Get_def ov_view_def over_def store_val_def nil_bytes_def nil_if_empty_def split: option.split)
next
  fix s k v
  assume "ov_ok PS s"
  then show "\<exists>s'. ov_Put k v s = Ok s' \<and> ov_ok PS s' \<and> ov_view PS s' = (ov_view PS s)(k := v)"
    using db_Put_writes [of "ov_memdb s" k v] by (auto simp: ov_Put_def ov_ok_def ov_view_def over_upd)
next
  fix s k
  assume "ov_ok PS s"
  then show "\<exists>s'. ov_Delete k s = Ok s' \<and> ov_ok PS s' \<and> ov_view PS s' = (ov_view PS s)(k := [])"
    using db_Put_writes [of "ov_memdb s" k "[]"] by (auto simp: ov_Delete_def db_Delete_def ov_ok_def ov_view_def over_upd)
qed

section \<open>Iterating and committing\<close>

text \<open>
  What the iterator relies on of its surroundings: \<open>util.BytesPrefix\<close> gives the range of the keys that
  start with the prefix, and the iterator of the persistent store yields the pairs of the store with the
  prefix, whose values are not empty.
\<close>

definition prefix_range :: "(bytes \<Rightarrow> bytes_range) \<Rightarrow> bool" where
  "prefix_range bp \<longleftrightarrow> (\<forall>pre k. above_start (Some (bp pre)) k \<and> below_limit (Some (bp pre)) k \<longleftrightarrow> take (length pre) k = pre)"

definition with_prefix :: "bytes \<Rightarrow> (bytes \<times> bytes) list \<Rightarrow> (bytes \<times> bytes) list" where
  "with_prefix pre kvs = filter (\<lambda>(k, v). take (length pre) k = pre) kvs"

definition holds_pairs :: "(bytes \<Rightarrow> bytes) \<Rightarrow> (bytes \<times> bytes) list \<Rightarrow> bool" where
  "holds_pairs f kvs \<longleftrightarrow> kv_seq kvs \<and> (\<forall>(k, v)\<in>set kvs. v \<noteq> []) \<and> (\<forall>k. f k = (case map_of kvs k of None \<Rightarrow> [] | Some v \<Rightarrow> v))"

lemma in_range_prefix: "prefix_range bp \<Longrightarrow> in_range (Some (bp pre)) kvs = with_prefix pre kvs"
  by (simp add: in_range_def with_prefix_def prefix_range_def)

lemma kv_seq_prefix: "kv_seq kvs \<Longrightarrow> kv_seq (with_prefix pre kvs)"
  by (auto simp: kv_seq_def with_prefix_def sorted_wrt_map intro: sorted_wrt_filter)

lemma map_of_with_prefix: "map_of (with_prefix pre kvs) k = (if take (length pre) k = pre then map_of kvs k else None)"
  by (induction kvs) (auto simp: with_prefix_def)

lemma named_prefix: "pre \<noteq> [] \<Longrightarrow> named (with_prefix pre kvs)"
  by (auto simp: named_def with_prefix_def)

text \<open>Two ordered lists of pairs that stand for the same map are the same.\<close>

lemma kv_seq_unique: "kv_seq xs \<Longrightarrow> kv_seq ys \<Longrightarrow> map_of xs = map_of ys \<Longrightarrow> xs = ys"
proof -
  assume xs: "kv_seq xs" and ys: "kv_seq ys" and eq: "map_of xs = map_of ys"
  have d: "distinct (map fst xs)" "distinct (map fst ys)" and s: "sorted (map fst xs)" "sorted (map fst ys)"
    using xs ys by (simp_all add: kv_seq_def strict_sorted_iff)
  have "set xs = set ys"
    using d eq by (simp add: map_of_inject_set [symmetric])
  moreover have "inj_on fst (set xs \<union> set ys)"
    using d(1) calculation by (simp add: distinct_map)
  ultimately show ?thesis
    using map_sorted_distinct_set_unique s(1) d(1) s(2) d(2) by blast
qed

definition store_iterates ::
  "('s, 'i) PersistStore \<Rightarrow> 's \<Rightarrow> (bytes \<times> bytes) list \<Rightarrow> ('i \<Rightarrow> (bytes \<times> bytes) list \<Rightarrow> bool)
     \<Rightarrow> ('i \<Rightarrow> (bytes \<times> bytes) list \<Rightarrow> bool) \<Rightarrow> bool" where
  "store_iterates PS s S fresh pos \<longleftrightarrow> store_iter (ps_iter PS s) fresh pos \<and> holds_pairs (store_val PS s) S
     \<and> (\<forall>pre. fresh (ps_NewIterator PS s pre) (with_prefix pre S))"

definition leveldb_ok :: "goleveldb \<Rightarrow> bool" where
  "leveldb_ok G \<longleftrightarrow> byte_order (DefaultComparer G) \<and> prefix_range (BytesPrefix G)"

lemma live_layers_prefix:
  assumes "kv_seq ms" "kv_seq bs"
  shows "live (layers (with_prefix pre ms) (with_prefix pre bs)) = with_prefix pre (live (layers ms bs))"
proof (rule kv_seq_unique)
  show "kv_seq (live (layers (with_prefix pre ms) (with_prefix pre bs)))" "kv_seq (with_prefix pre (live (layers ms bs)))"
    using assms by (simp_all add: kv_seq_prefix layers_sorted live_sorted)
  show "map_of (live (layers (with_prefix pre ms) (with_prefix pre bs))) = map_of (with_prefix pre (live (layers ms bs)))"
    using assms
    by (auto simp: fun_eq_iff map_of_with_prefix map_of_live map_of_layers layers_sorted kv_seq_prefix map_add_def
        split: option.split)
qed

text \<open>The pairs of the overlay.\<close>

lemma layers_hold:
  assumes kvs: "kv_seq kvs" and S: "holds_pairs f S"
  shows "holds_pairs (over (map_of kvs) f) (live (layers kvs S))"
proof -
  have S': "kv_seq S" "\<forall>k. f k = (case map_of S k of None \<Rightarrow> [] | Some v \<Rightarrow> v)"
    using S by (simp_all add: holds_pairs_def)
  have "over (map_of kvs) f k = (case map_of (live (layers kvs S)) k of None \<Rightarrow> [] | Some v \<Rightarrow> v)" for k
    using S' kvs by (auto simp: over_def map_of_live map_of_layers layers_sorted map_add_def split: option.split)
  then show ?thesis
    using live_sorted [OF layers_sorted [OF kvs S'(1)]] by (auto simp: holds_pairs_def live_def)
qed

lemma holds_pairs_unique: "holds_pairs f xs \<Longrightarrow> holds_pairs f ys \<Longrightarrow> xs = ys"
proof (rule kv_seq_unique)
  assume xs: "holds_pairs f xs" and ys: "holds_pairs f ys"
  have ne: "map_of zs k \<noteq> Some []" if "holds_pairs f zs" for zs k
    using that map_of_SomeD [of zs k "[]"] by (auto simp: holds_pairs_def)
  have eq: "(case map_of xs k of None \<Rightarrow> [] | Some v \<Rightarrow> v) = (case map_of ys k of None \<Rightarrow> [] | Some v \<Rightarrow> v)" for k
    using xs ys by (simp add: holds_pairs_def)
  have "map_of xs k = map_of ys k" for k
    using eq [of k] ne [OF xs, of k] ne [OF ys, of k] by (auto split: option.splits)
  then show "map_of xs = map_of ys" ..
qed (simp_all add: holds_pairs_def)

lemma ov_iterates:
  assumes G: "leveldb_ok G" and self: "db_holds (ov_memdb self) kvs" and pre: "pre \<noteq> []"
    and S: "store_iterates PS (ov_store self) S fresh pos"
  defines "all \<equiv> live (layers kvs S)"
  shows "join_iter (dbIter_ops (ov_memdb self)) (it_fresh (ov_memdb self)) (it_pos (ov_memdb self))
      (ps_iter PS (ov_store self)) fresh pos" (is "join_iter ?M ?mf ?mp ?B fresh pos")
    and "holds_pairs (ov_view PS self) all"
    and "join_iter.join_fresh (it_fresh (ov_memdb self)) fresh (ov_NewIterator G PS pre self) (with_prefix pre all)"
proof -
  have rep: "db_rep (ov_memdb self) kvs" and seq: "kv_seq kvs"
    using self db_rep_sorted by (auto simp: db_holds_def kv_seq_def)
  have st: "store_iter ?B fresh pos" and S': "holds_pairs (store_val PS (ov_store self)) S" "kv_seq S"
    and bf: "fresh (ps_NewIterator PS (ov_store self) pre) (with_prefix pre S)"
    using S by (auto simp: store_iterates_def holds_pairs_def)
  show j: "join_iter ?M ?mf ?mp ?B fresh pos"
    using mem_iter.store_iter_axioms st by (rule join_iter.intro)
  show "holds_pairs (ov_view PS self) all"
    using layers_hold [OF seq S'(1)] db_writes_holds [OF self] by (simp add: ov_view_def all_def)
  have "it_fresh (ov_memdb self) (NewIterator (Some (BytesPrefix G pre))) (with_prefix pre kvs)"
    using rep G in_range_prefix by (auto simp: it_fresh_def NewIterator_def leveldb_ok_def)
  then show "join_iter.join_fresh ?mf fresh (ov_NewIterator G PS pre self) (with_prefix pre all)"
    using join_iter.join_freshI [OF j _ bf named_prefix [OF pre], of _ _ "DefaultComparer G"] G
    unfolding live_layers_prefix [OF seq S'(2), symmetric] all_def ov_NewIterator_def leveldb_ok_def by simp
qed

subsection \<open>Committing\<close>

definition batch_write :: "('s, 'i) PersistStore \<Rightarrow> bytes \<times> bytes \<Rightarrow> 's \<Rightarrow> 's" where
  "batch_write PS kv s = (if snd kv = [] then ps_BatchDelete PS (fst kv) s else ps_BatchPut PS (fst kv) (snd kv) s)"

lemma fold_res_pure: "fold_res (\<lambda>k v s. Ok (f (k, v) s)) kvs s = Ok (fold f kvs s)"
  by (induction kvs arbitrary: s) auto

lemma ov_CommitTo_spec:
  assumes "db_holds (ov_memdb self) kvs"
  shows "ov_CommitTo PS self = Ok (self\<lparr>ov_store := fold (batch_write PS) kvs (ov_store self)\<rparr>)"
proof -
  have "db_rep (ov_memdb self) kvs"
    using assms by (simp add: db_holds_def)
  then show ?thesis
    using fold_res_pure [of "batch_write PS" kvs "ov_store self"]
    by (simp add: ov_CommitTo_def ForEach_spec batch_write_def cong: if_cong)
qed

lemma ov_ChangeHash_spec:
  assumes "db_holds (ov_memdb self) kvs"
  shows "ov_ChangeHash self = Ok (sha256 (concat (map (\<lambda>(k, v). k @ v) kvs)))"
proof -
  have "fold (\<lambda>(k, v) d. d @ k @ v) kvs d = d @ concat (map (\<lambda>(k, v). k @ v) kvs)" for d :: bytes
    by (induction kvs arbitrary: d) auto
  then have "fold_res (\<lambda>k v d. Ok (d @ k @ v)) kvs [] = Ok (concat (map (\<lambda>(k, v). k @ v) kvs))"
    using fold_res_pure [of "\<lambda>(k, v) d. d @ k @ v" kvs "[]"] by simp
  moreover have "db_rep (ov_memdb self) kvs"
    using assms by (simp add: db_holds_def)
  ultimately show ?thesis
    by (simp add: ov_ChangeHash_def ForEach_spec)
qed

text \<open>
  What the commit relies on of the batch of the store: it records the writes in order, reads do not see it,
  and \<open>BatchCommit\<close> applies it.
\<close>

definition batched :: "('s, 'i) PersistStore \<Rightarrow> ('s \<Rightarrow> (bytes \<times> bytes) list) \<Rightarrow> ('s \<Rightarrow> 's) \<Rightarrow> bool" where
  "batched PS batch commit \<longleftrightarrow>
     (\<forall>s k v. batch (ps_BatchPut PS k v s) = batch s @ [(k, v)] \<and> store_val PS (ps_BatchPut PS k v s) = store_val PS s)
     \<and> (\<forall>s k. batch (ps_BatchDelete PS k s) = batch s @ [(k, [])] \<and> store_val PS (ps_BatchDelete PS k s) = store_val PS s)
     \<and> (\<forall>s. store_val PS (commit s) = over (map_of (rev (batch s))) (store_val PS s))"

lemma batch_writes:
  assumes "batched PS batch commit"
  shows "batch (fold (batch_write PS) kvs s) = batch s @ kvs \<and> store_val PS (fold (batch_write PS) kvs s) = store_val PS s"
  using assms by (induction kvs arbitrary: s) (auto simp: batched_def batch_write_def)

lemma map_of_rev_seq: "kv_seq kvs \<Longrightarrow> map_of (rev kvs) = map_of kvs"
proof -
  assume "kv_seq kvs"
  then have "distinct (map fst kvs)"
    by (simp add: kv_seq_def strict_sorted_iff)
  then show ?thesis
    using map_of_inject_set [of "rev kvs" kvs] by (simp flip: rev_map)
qed

text \<open>The writes of a client of the overlay.\<close>

definition ov_write :: "bytes \<Rightarrow> bytes \<Rightarrow> 's OverlayDB \<Rightarrow> 's OverlayDB res" where
  "ov_write k v = (if v = [] then ov_Delete k else ov_Put k v)"

lemma ov_writes_db:
  "fold_res ov_write kvs self = bind_res (fold_res db_Put kvs (ov_memdb self)) (\<lambda>m. Ok (self\<lparr>ov_memdb := m\<rparr>))"
proof (induction kvs arbitrary: self)
  case (Cons kv kvs)
  obtain k v where kv: "kv = (k, v)" by (cases kv)
  have "ov_write k v self = bind_res (db_Put k v (ov_memdb self)) (\<lambda>m. Ok (self\<lparr>ov_memdb := m\<rparr>))"
    by (simp add: ov_write_def ov_Put_def ov_Delete_def db_Delete_def)
  then show ?case
    by (cases "db_Put k v (ov_memdb self)") (simp_all add: kv Cons.IH)
qed simp

lemma ov_written:
  assumes "byte_order (DefaultComparer G)"
  shows "\<exists>m kvs. fold_res ov_write ws (NewOverlayDB G s) = Ok ((NewOverlayDB G s)\<lparr>ov_memdb := m\<rparr>)
    \<and> db_holds m kvs \<and> map_of kvs = map_of (rev ws)"
  using Puts_holds [OF NewMemDB_holds [OF assms, of "rand_Source G"], of ws]
  by (auto simp: ov_writes_db NewOverlayDB_def)

section \<open>Properties\<close>

text \<open>
  C33. A read of the overlay after any writes to a new overlay returns, without panicking, the value last
  written under the key, nil for a deleted key; a key never written is read from the persistent store, where
  \<open>ErrNotFound\<close> becomes nil and any other error is returned and recorded in the overlay. The persistent store
  is not touched by the writes.
\<close>

theorem overlay_get:
  assumes "byte_order (DefaultComparer G)"
  shows "\<exists>self. fold_res ov_write ws (NewOverlayDB G s) = Ok self \<and> ov_store self = s \<and> ov_dbErr self = None
    \<and> (\<forall>key. ov_Get PS key self =
         (case map_of (rev ws) key of
            Some v \<Rightarrow> Ok ((if v = [] then None else Some v, None), self)
          | None \<Rightarrow>
              (case ps_Get PS s key of
                 (v, None) \<Rightarrow> Ok ((v, None), self)
               | (_, Some e) \<Rightarrow> if e = ErrNotFound then Ok ((None, None), self)
                                else Ok ((None, Some e), ov_SetError e self))))"
proof -
  obtain m kvs where m: "fold_res ov_write ws (NewOverlayDB G s) = Ok ((NewOverlayDB G s)\<lparr>ov_memdb := m\<rparr>)"
    "db_holds m kvs" "map_of kvs = map_of (rev ws)"
    using ov_written [OF assms, where ws = ws and s = s] by (elim exE conjE)
  have "db_Get key m = Ok (case map_of (rev ws) key of None \<Rightarrow> (None, True) | Some v \<Rightarrow> (nil_if_empty v, False))" for key
    using db_Get_spec [of m kvs key] m(2,3) by (simp add: db_holds_def)
  then show ?thesis
    using m(1)
    by (simp add: NewOverlayDB_def ov_Get_def ov_SetError_def nil_if_empty_def split: option.split prod.split store_error.split)
qed

theorem overlay_get_witness:
  "\<exists>self. fold_res ov_write [([1], [7]), ([1], [])]
      (NewOverlayDB \<lparr>DefaultComparer = bytes_compare, BytesPrefix = (\<lambda>p. (Some p, None)), rand_Source = sconst 0\<rparr> ())
      = Ok (self :: unit OverlayDB)
    \<and> ov_store self = () \<and> ov_dbErr self = None"
  using overlay_get [of "\<lparr>DefaultComparer = bytes_compare, BytesPrefix = (\<lambda>p. (Some p, None)), rand_Source = sconst 0\<rparr>",
      where ws = "[([1], [7]), ([1], [])]" and s = "()"] byte_order_bytes_compare
  by auto

text \<open>
  C34. The hash of the changes depends only on what was written. Two overlays whose writes leave the same
  value under every key have the same change hash, whatever the order of the writes, the values overwritten,
  the random heights of the nodes and the stores below are; it is the SHA-256 of the keys and values in the
  byte order of the keys, a deleted key with no value.
\<close>

theorem change_hash_canonical:
  assumes "byte_order (DefaultComparer G)" "byte_order (DefaultComparer G')" "map_of (rev ws) = map_of (rev ws')"
  shows "\<exists>self self' kvs. fold_res ov_write ws (NewOverlayDB G s) = Ok self \<and> fold_res ov_write ws' (NewOverlayDB G' s') = Ok self'
    \<and> sorted_wrt (<) (map fst kvs) \<and> map_of kvs = map_of (rev ws)
    \<and> ov_ChangeHash self = Ok (sha256 (concat (map (\<lambda>(k, v). k @ v) kvs)))
    \<and> ov_ChangeHash self' = ov_ChangeHash self"
proof -
  obtain m kvs where m: "fold_res ov_write ws (NewOverlayDB G s) = Ok ((NewOverlayDB G s)\<lparr>ov_memdb := m\<rparr>)"
    "db_holds m kvs" "map_of kvs = map_of (rev ws)"
    using ov_written [OF assms(1), where ws = ws and s = s] by (elim exE conjE)
  obtain m' kvs' where m': "fold_res ov_write ws' (NewOverlayDB G' s') = Ok ((NewOverlayDB G' s')\<lparr>ov_memdb := m'\<rparr>)"
    "db_holds m' kvs'" "map_of kvs' = map_of (rev ws')"
    using ov_written [OF assms(2), where ws = ws' and s = s'] by (elim exE conjE)
  have seq: "sorted_wrt (<) (map fst kvs)" "sorted_wrt (<) (map fst kvs')"
    using m(2) m'(2) db_rep_sorted by (auto simp: db_holds_def)
  then have "kvs' = kvs"
    using kv_seq_unique [of kvs' kvs] m(3) m'(3) assms(3) by (simp add: kv_seq_def)
  then show ?thesis
    using m m'(1,2) seq(1) ov_ChangeHash_spec [of "(NewOverlayDB G s)\<lparr>ov_memdb := m\<rparr>" kvs]
      ov_ChangeHash_spec [of "(NewOverlayDB G' s')\<lparr>ov_memdb := m'\<rparr>" kvs]
    by (intro exI [of _ "(NewOverlayDB G s)\<lparr>ov_memdb := m\<rparr>"] exI [of _ "(NewOverlayDB G' s')\<lparr>ov_memdb := m'\<rparr>"] exI [of _ kvs]) simp
qed

text \<open>A persistent store for examples: the pairs written and the batch.\<close>

definition map_store :: "((bytes \<Rightarrow> bytes) \<times> (bytes \<times> bytes) list, dbIter) PersistStore" where
  "map_store =
     \<lparr>ps_Get = (\<lambda>(f, b) k. if f k = [] then (None, Some ErrNotFound) else (Some (f k), None)),
      ps_BatchPut = (\<lambda>k v (f, b). (f, b @ [(k, v)])), ps_BatchDelete = (\<lambda>k (f, b). (f, b @ [(k, [])])),
      ps_NewIterator = (\<lambda>_ pre. NewIterator None), ps_iter = (\<lambda>_. dbIter_ops (NewMemDB bytes_compare (sconst 0)))\<rparr>"

definition map_commit :: "(bytes \<Rightarrow> bytes) \<times> (bytes \<times> bytes) list \<Rightarrow> (bytes \<Rightarrow> bytes) \<times> (bytes \<times> bytes) list" where
  "map_commit = (\<lambda>(f, b). (over (map_of (rev b)) f, []))"

definition example_leveldb :: goleveldb where
  "example_leveldb = \<lparr>DefaultComparer = bytes_compare, BytesPrefix = (\<lambda>p. (Some p, None)), rand_Source = sconst 0\<rparr>"

lemma store_val_map_store [simp]: "store_val map_store s = fst s"
  by (auto simp: store_val_def map_store_def nil_bytes_def fun_eq_iff split: prod.split)

lemma map_store_batched: "batched map_store snd map_commit"
  by (auto simp: batched_def map_commit_def split: prod.split) (auto simp: map_store_def)

theorem change_hash_canonical_witness:
  "\<exists>self self'. fold_res ov_write [([1], [7]), ([2], [8])] (NewOverlayDB example_leveldb ()) = Ok (self :: unit OverlayDB)
    \<and> fold_res ov_write [([2], [9]), ([2], [8]), ([1], [7])] (NewOverlayDB example_leveldb ()) = Ok (self' :: unit OverlayDB)
    \<and> ov_ChangeHash self' = ov_ChangeHash self"
proof -
  have "byte_order (DefaultComparer example_leveldb)"
    by (simp add: example_leveldb_def byte_order_bytes_compare)
  moreover have "map_of (rev [([1], [7]), ([2], [8])]) = map_of (rev [([2], [9]), ([2], [8]), ([1 :: byte], [7 :: byte])])"
    by (auto simp: fun_eq_iff)
  ultimately show ?thesis
    using change_hash_canonical [of example_leveldb example_leveldb "[([1], [7]), ([2], [8])]" "[([2], [9]), ([2], [8]), ([1], [7])]"
        "()" "()"] by blast
qed

text \<open>
  C35. Committing the overlay: \<open>CommitTo\<close> puts every write into the batch of the store, and once the store
  has committed its batch, a read of the store gives what a read of the overlay gave before.
\<close>

theorem overlay_commit:
  assumes "byte_order (DefaultComparer G)" "batched PS batch commit" "batch s = []"
  shows "\<exists>self self'. fold_res ov_write ws (NewOverlayDB G s) = Ok self \<and> ov_CommitTo PS self = Ok self'
    \<and> ov_memdb self' = ov_memdb self
    \<and> store_val PS (commit (ov_store self')) = ov_view PS self
    \<and> ov_view PS self = over (map_of (rev ws)) (store_val PS s)"
proof -
  obtain m kvs where m: "fold_res ov_write ws (NewOverlayDB G s) = Ok ((NewOverlayDB G s)\<lparr>ov_memdb := m\<rparr>)"
    and kvs: "db_holds m kvs" "map_of kvs = map_of (rev ws)"
    using ov_written [OF assms(1), where ws = ws and s = s] by (elim exE conjE)
  let ?self = "(NewOverlayDB G s)\<lparr>ov_memdb := m\<rparr>"
  have "ov_CommitTo PS ?self = Ok (?self\<lparr>ov_store := fold (batch_write PS) kvs s\<rparr>)"
    using ov_CommitTo_spec [of ?self kvs PS] kvs(1) by (simp add: NewOverlayDB_def)
  moreover have "kv_seq kvs"
    using kvs(1) db_rep_sorted by (auto simp: db_holds_def kv_seq_def)
  then have "store_val PS (commit (fold (batch_write PS) kvs s)) = over (map_of (rev ws)) (store_val PS s)"
    using assms(2,3) batch_writes [OF assms(2), of kvs s] map_of_rev_seq [of kvs] kvs(2) by (simp add: batched_def)
  moreover have "ov_view PS ?self = over (map_of (rev ws)) (store_val PS s)"
    using db_writes_holds [OF kvs(1)] kvs(2) by (simp add: ov_view_def NewOverlayDB_def)
  ultimately show ?thesis
    using m by (intro exI [of _ ?self] exI [of _ "?self\<lparr>ov_store := fold (batch_write PS) kvs s\<rparr>"]) simp
qed

theorem overlay_commit_witness:
  "\<exists>self self'. fold_res ov_write [([1], [7]), ([2], [])] (NewOverlayDB example_leveldb (\<lambda>k. if k = [2] then [5] else [], []))
      = Ok self \<and> ov_CommitTo map_store self = Ok self'
    \<and> store_val map_store (map_commit (ov_store self')) = ov_view map_store self
    \<and> ov_view map_store self [1] = [7] \<and> ov_view map_store self [2] = []"
proof -
  have "byte_order (DefaultComparer example_leveldb)"
    by (simp add: example_leveldb_def byte_order_bytes_compare)
  from overlay_commit [OF this map_store_batched, of "(\<lambda>k. if k = [2] then [5] else [], [])" "[([1], [7]), ([2], [])]"]
  show ?thesis
    by (auto simp: over_def)
qed

end
