(* ===== verification/DeployCode.thy ===== *)
theory DeployCode
  imports Codec Sha256
begin

text \<open>
  The deployed code of a contract, \<open>src/core/payload/deploy_code.go\<close>: its validation, its byte form and the
  address computed from the code. RIPEMD-160 (a package outside the repository) is an argument. The texts of
  errors leave out the values the code formats into them.
\<close>

section \<open>The payload\<close>

type_synonym VmType = byte

definition NEOVM_TYPE :: VmType where "NEOVM_TYPE = 1"
definition WASMVM_TYPE :: VmType where "WASMVM_TYPE = 3"

definition VmTypeFromByte :: "byte \<Rightarrow> VmType res" where
  "VmTypeFromByte ty = (if ty = 1 \<or> ty = 3 then Ok ty else Err ''can not convert byte to vm type'')"

record DeployCode =
  dc_code :: bytes
  vmFlags :: byte
  dc_Name :: bytes
  dc_Version :: bytes
  dc_Author :: bytes
  dc_Email :: bytes
  dc_Description :: bytes
  dc_address :: Address

definition checkVmFlags :: "byte \<Rightarrow> unit res" where
  "checkVmFlags flags = (if flags = 0 \<or> flags = 1 \<or> flags = 3 then Ok () else Err ''invalid vm flags'')"

definition dc_VmType :: "DeployCode \<Rightarrow> VmType res" where
  "dc_VmType dc = (if vmFlags dc = 0 \<or> vmFlags dc = 1 then Ok NEOVM_TYPE
     else if vmFlags dc = 3 then Ok WASMVM_TYPE else Panic)"

definition maxWasmCodeSize :: nat where
  "maxWasmCodeSize = 512 * 1024"

definition validateDeployCode :: "DeployCode \<Rightarrow> unit res" where
  "validateDeployCode dep =
     bind_res (checkVmFlags (vmFlags dep)) (\<lambda>_.
     bind_res (dc_VmType dep) (\<lambda>ty.
       if ty = WASMVM_TYPE \<and> length (dc_code dep) > maxWasmCodeSize then Err ''[contract] Code too long!''
       else if ty \<noteq> WASMVM_TYPE \<and> length (dc_code dep) > 1024 * 1024 then Err ''[contract] Code too long!''
       else if length (dc_Name dep) > 252 then Err ''[contract] name too long!''
       else if length (dc_Version dep) > 252 then Err ''[contract] version too long!''
       else if length (dc_Author dep) > 252 then Err ''[contract] version too long!''
       else if length (dc_Email dep) > 252 then Err ''[contract] email too long!''
       else if length (dc_Description dep) > 65536 then Err ''[contract] description too long!''
       else Ok ()))"

definition NewDeployCode ::
  "bytes \<Rightarrow> VmType \<Rightarrow> bytes \<Rightarrow> bytes \<Rightarrow> bytes \<Rightarrow> bytes \<Rightarrow> bytes \<Rightarrow> DeployCode res" where
  "NewDeployCode code vmType name version author email description =
     (let dc = \<lparr>dc_code = code, vmFlags = vmType, dc_Name = name, dc_Version = version, dc_Author = author,
                dc_Email = email, dc_Description = description, dc_address = ADDRESS_EMPTY\<rparr>
      in bind_res (validateDeployCode dc) (\<lambda>_. Ok dc))"

definition CreateDeployCode ::
  "bytes \<Rightarrow> u32 \<Rightarrow> bytes \<Rightarrow> bytes \<Rightarrow> bytes \<Rightarrow> bytes \<Rightarrow> bytes \<Rightarrow> DeployCode res" where
  "CreateDeployCode code vmType name version author email desc =
     (if vmType > 255 then Err ''wrong vm flags''
      else
        let contract = \<lparr>dc_code = code, vmFlags = ucast vmType, dc_Name = name, dc_Version = version,
              dc_Author = author, dc_Email = email, dc_Description = desc, dc_address = ADDRESS_EMPTY\<rparr>
        in bind_res (validateDeployCode contract) (\<lambda>_. Ok contract))"

text \<open>The address is computed once and kept.\<close>

definition AddressFromVmCode :: "(bytes \<Rightarrow> bytes) \<Rightarrow> bytes \<Rightarrow> Address" where
  "AddressFromVmCode ripemd160 code = copy_slice ADDRESS_EMPTY (ripemd160 (sha256 code))"

definition dc_Address :: "(bytes \<Rightarrow> bytes) \<Rightarrow> DeployCode \<Rightarrow> Address \<times> DeployCode" where
  "dc_Address ripemd160 dc =
     (let dc' = (if dc_address dc = ADDRESS_EMPTY then dc\<lparr>dc_address := AddressFromVmCode ripemd160 (dc_code dc)\<rparr> else dc)
      in (dc_address dc', dc'))"

definition GetWasmCode :: "DeployCode \<Rightarrow> bytes res" where
  "GetWasmCode dc = bind_res (dc_VmType dc) (\<lambda>ty. if ty = WASMVM_TYPE then Ok (dc_code dc) else Err ''not wasm contract'')"

definition GetNeoCode :: "DeployCode \<Rightarrow> bytes res" where
  "GetNeoCode dc = bind_res (dc_VmType dc) (\<lambda>ty. if ty = NEOVM_TYPE then Ok (dc_code dc) else Err ''not neo contract'')"

definition DeployCode_Serialization :: "DeployCode \<Rightarrow> wr" where
  "DeployCode_Serialization dc sink =
     bind_res (WriteVarBytes (dc_code dc) sink) (\<lambda>(_, s1).
     bind_res (WriteByte (vmFlags dc) s1) (\<lambda>s2.
     bind_res (WriteString (dc_Name dc) s2) (\<lambda>(_, s3).
     bind_res (WriteString (dc_Version dc) s3) (\<lambda>(_, s4).
     bind_res (WriteString (dc_Author dc) s4) (\<lambda>(_, s5).
     bind_res (WriteString (dc_Email dc) s5) (\<lambda>(_, s6).
     bind_res (WriteString (dc_Description dc) s6) (\<lambda>(_, s7). Ok s7)))))))"

definition DeployCode_ToArray :: "DeployCode \<Rightarrow> bytes res" where
  "DeployCode_ToArray dc = SerializeToBytes [DeployCode_Serialization dc]"

text \<open>Each read overwrites the end-of-file flag of the one before; the last one is tested.\<close>

definition DeployCode_Deserialization :: "DeployCode rd" where
  "DeployCode_Deserialization source =
     bind_res (NextVarBytes source) (\<lambda>((code, _, irregular, eof), s1).
     if irregular then Err ErrIrregularData else
     bind_res (NextByte s1) (\<lambda>((flags, eof), s2).
     bind_res (NextString s2) (\<lambda>((name, _, irregular, eof), s3).
     if irregular then Err ErrIrregularData else
     bind_res (NextString s3) (\<lambda>((version, _, irregular, eof), s4).
     if irregular then Err ErrIrregularData else
     bind_res (NextString s4) (\<lambda>((author, _, irregular, eof), s5).
     if irregular then Err ErrIrregularData else
     bind_res (NextString s5) (\<lambda>((email, _, irregular, eof), s6).
     if irregular then Err ErrIrregularData else
     bind_res (NextString s6) (\<lambda>((description, _, irregular, eof), s7).
     if irregular then Err ErrIrregularData else
     if eof then Err ErrUnexpectedEOF else
     let dc = \<lparr>dc_code = code, vmFlags = flags, dc_Name = name, dc_Version = version, dc_Author = author,
               dc_Email = email, dc_Description = description, dc_address = ADDRESS_EMPTY\<rparr>
     in bind_res (validateDeployCode dc) (\<lambda>_. Ok (dc, s7)))))))))"

section \<open>The byte form\<close>

definition DeployCode_enc :: "DeployCode \<Rightarrow> bytes" where
  "DeployCode_enc dc = varbytes_enc (dc_code dc) @ [vmFlags dc] @ varbytes_enc (dc_Name dc) @ varbytes_enc (dc_Version dc)
     @ varbytes_enc (dc_Author dc) @ varbytes_enc (dc_Email dc) @ varbytes_enc (dc_Description dc)"

definition dc_valid :: "DeployCode \<Rightarrow> bool" where
  "dc_valid dc \<longleftrightarrow> validateDeployCode dc = Ok () \<and> dc_address dc = ADDRESS_EMPTY"

text \<open>The limits the validation enforces.\<close>

definition dc_limits :: "DeployCode \<Rightarrow> bool" where
  "dc_limits dc \<longleftrightarrow> vmFlags dc \<in> {0, 1, 3}
     \<and> length (dc_code dc) \<le> (if vmFlags dc = 3 then 512 * 1024 else 1024 * 1024)
     \<and> length (dc_Name dc) \<le> 252 \<and> length (dc_Version dc) \<le> 252 \<and> length (dc_Author dc) \<le> 252
     \<and> length (dc_Email dc) \<le> 252 \<and> length (dc_Description dc) \<le> 65536"

lemma validateDeployCode_iff:
  "validateDeployCode dc = Ok () \<longleftrightarrow> (vmFlags dc = 0 \<or> vmFlags dc = 1 \<or> vmFlags dc = 3)
     \<and> length (dc_code dc) \<le> (if vmFlags dc = 3 then 512 * 1024 else 1024 * 1024)
     \<and> length (dc_Name dc) \<le> 252 \<and> length (dc_Version dc) \<le> 252 \<and> length (dc_Author dc) \<le> 252
     \<and> length (dc_Email dc) \<le> 252 \<and> length (dc_Description dc) \<le> 65536"
  by (auto simp: validateDeployCode_def checkVmFlags_def dc_VmType_def NEOVM_TYPE_def WASMVM_TYPE_def maxWasmCodeSize_def)

lemma dc_limits_iff: "dc_limits dc \<longleftrightarrow> validateDeployCode dc = Ok ()"
  unfolding dc_limits_def validateDeployCode_iff by simp

lemma validateDeployCode_total: "validateDeployCode dc \<noteq> Panic" "validateDeployCode dc \<noteq> Diverge"
  by (auto simp: validateDeployCode_def checkVmFlags_def dc_VmType_def)

lemma writer_WriteString: "writer (\<lambda>s. bind_res (WriteString p s) (\<lambda>(_, s'). Ok s')) (varbytes_enc p)"
  using writer_WriteVarBytes by (simp add: WriteString_def)

lemma bind_split: "bind_res m (\<lambda>(_, s). f s) = bind_res (bind_res m (\<lambda>(_, s). Ok s)) f"
  by (cases m) auto

lemma DeployCode_writer: "writer (DeployCode_Serialization dc) (DeployCode_enc dc)"
proof -
  have "DeployCode_Serialization dc = (\<lambda>sink.
     bind_res (bind_res (WriteVarBytes (dc_code dc) sink) (\<lambda>(_, s). Ok s)) (\<lambda>s1.
     bind_res (WriteByte (vmFlags dc) s1) (\<lambda>s2.
     bind_res (bind_res (WriteString (dc_Name dc) s2) (\<lambda>(_, s). Ok s)) (\<lambda>s3.
     bind_res (bind_res (WriteString (dc_Version dc) s3) (\<lambda>(_, s). Ok s)) (\<lambda>s4.
     bind_res (bind_res (WriteString (dc_Author dc) s4) (\<lambda>(_, s). Ok s)) (\<lambda>s5.
     bind_res (bind_res (WriteString (dc_Email dc) s5) (\<lambda>(_, s). Ok s)) (\<lambda>s6.
     bind_res (WriteString (dc_Description dc) s6) (\<lambda>(_, s). Ok s))))))))"
    by (intro ext) (simp add: DeployCode_Serialization_def flip: bind_split)
  moreover have "writer (WriteByte (vmFlags dc)) [vmFlags dc]"
    using writer_WriteUint(1) by (simp add: WriteByte_def [abs_def])
  ultimately show ?thesis
    unfolding DeployCode_enc_def by (simp only:) (intro writer_bind writer_WriteVarBytes writer_WriteString)
qed

lemma reads_string:
  assumes "wf_src s" "rest s = varbytes_enc b @ r"
  shows "\<exists>n s'. NextString s = Ok ((b, n, False, False), s') \<and> s' = advance (length (varbytes_enc b)) s \<and> wf_src s' \<and> rest s' = r"
  using NextVarBytes_prefix [OF assms] advance_prefix [OF assms] by (simp add: NextString_def)

interpretation deploy: serializable DeployCode_Serialization DeployCode_Deserialization DeployCode_enc dc_valid
proof (rule serializable.intro)
  fix dc
  show "writer (DeployCode_Serialization dc) (DeployCode_enc dc)"
    by (rule DeployCode_writer)
  assume valid: "dc_valid dc"
  fix s r assume wf: "wf_src s" and s: "rest s = DeployCode_enc dc @ r"
  obtain n1 s1 where s1: "NextVarBytes s = Ok ((dc_code dc, n1, False, False), s1)" "s1 = advance (length (varbytes_enc (dc_code dc))) s"
    "wf_src s1" "rest s1 = vmFlags dc # varbytes_enc (dc_Name dc) @ varbytes_enc (dc_Version dc)
       @ varbytes_enc (dc_Author dc) @ varbytes_enc (dc_Email dc) @ varbytes_enc (dc_Description dc) @ r"
    using reads_string [OF wf, of "dc_code dc"] s by (auto simp: NextString_def DeployCode_enc_def)
  define s2 where "s2 = advance 1 s1"
  have s2: "NextByte s1 = Ok ((vmFlags dc, False), s2)" "wf_src s2" "rest s2 = varbytes_enc (dc_Name dc) @ varbytes_enc (dc_Version dc)
       @ varbytes_enc (dc_Author dc) @ varbytes_enc (dc_Email dc) @ varbytes_enc (dc_Description dc) @ r"
    using NextByte_within [OF s1(3,4)] advance_prefix [OF s1(3), of "[vmFlags dc]"] s1(4) by (simp_all add: s2_def)
  obtain n3 s3 where s3: "NextString s2 = Ok ((dc_Name dc, n3, False, False), s3)" "s3 = advance (length (varbytes_enc (dc_Name dc))) s2"
    "wf_src s3" "rest s3 = varbytes_enc (dc_Version dc)
       @ varbytes_enc (dc_Author dc) @ varbytes_enc (dc_Email dc) @ varbytes_enc (dc_Description dc) @ r"
    using reads_string [OF s2(2,3)] by auto
  obtain n4 s4 where s4: "NextString s3 = Ok ((dc_Version dc, n4, False, False), s4)" "s4 = advance (length (varbytes_enc (dc_Version dc))) s3"
    "wf_src s4" "rest s4 = varbytes_enc (dc_Author dc) @ varbytes_enc (dc_Email dc) @ varbytes_enc (dc_Description dc) @ r"
    using reads_string [OF s3(3,4)] by auto
  obtain n5 s5 where s5: "NextString s4 = Ok ((dc_Author dc, n5, False, False), s5)" "s5 = advance (length (varbytes_enc (dc_Author dc))) s4"
    "wf_src s5" "rest s5 = varbytes_enc (dc_Email dc) @ varbytes_enc (dc_Description dc) @ r"
    using reads_string [OF s4(3,4)] by auto
  obtain n6 s6 where s6: "NextString s5 = Ok ((dc_Email dc, n6, False, False), s6)" "s6 = advance (length (varbytes_enc (dc_Email dc))) s5"
    "wf_src s6" "rest s6 = varbytes_enc (dc_Description dc) @ r"
    using reads_string [OF s5(3,4)] by auto
  obtain n7 s7 where s7: "NextString s6 = Ok ((dc_Description dc, n7, False, False), s7)"
    "s7 = advance (length (varbytes_enc (dc_Description dc))) s6"
    using reads_string [OF s6(3,4)] by auto
  have "s7 = advance (length (DeployCode_enc dc)) s"
    unfolding s7(2) s6(2) s5(2) s4(2) s3(2) s2_def s1(2) by (simp add: advance_advance DeployCode_enc_def ac_simps)
  then show "DeployCode_Deserialization s = Ok (dc, advance (length (DeployCode_enc dc)) s)"
    using s1(1) s2(1) s3(1) s4(1) s5(1) s6(1) s7(1) valid
    by (cases dc) (auto simp: DeployCode_Deserialization_def Let_def dc_valid_def)
qed

section \<open>Properties\<close>

text \<open>The reader ends on any input, with an error or a valid contract.\<close>

lemma Deserialization_total:
  assumes wf: "wf_src s"
  shows "(\<exists>e. DeployCode_Deserialization s = Err e) \<or> (\<exists>dc s'. DeployCode_Deserialization s = Ok (dc, s') \<and> dc_valid dc)"
proof -
  note bytes = reader.safe [OF reader_NextVarBytes, unfolded reads_safely_def] and string = reader.safe [OF reader_NextVarBytes, unfolded reads_safely_def, folded NextString_def]
  obtain c n1 i1 e1 s1 where s1: "NextVarBytes s = Ok ((c, n1, i1, e1), s1)" "wf_src s1"
    using bytes [OF wf] by auto
  obtain f e2 s2 where s2: "NextByte s1 = Ok ((f, e2), s2)" "wf_src s2"
    using reader.safe [OF reader_NextByte s1(2), unfolded reads_safely_def] by auto
  obtain x3 n3 i3 e3 s3 where s3: "NextVarBytes s2 = Ok ((x3, n3, i3, e3), s3)" "wf_src s3"
    using bytes [OF s2(2)] by auto
  obtain x4 n4 i4 e4 s4 where s4: "NextVarBytes s3 = Ok ((x4, n4, i4, e4), s4)" "wf_src s4"
    using bytes [OF s3(2)] by auto
  obtain x5 n5 i5 e5 s5 where s5: "NextVarBytes s4 = Ok ((x5, n5, i5, e5), s5)" "wf_src s5"
    using bytes [OF s4(2)] by auto
  obtain x6 n6 i6 e6 s6 where s6: "NextVarBytes s5 = Ok ((x6, n6, i6, e6), s6)" "wf_src s6"
    using bytes [OF s5(2)] by auto
  obtain x7 n7 i7 e7 s7 where s7: "NextVarBytes s6 = Ok ((x7, n7, i7, e7), s7)"
    using bytes [OF s6(2)] by auto
  let ?dc = "\<lparr>dc_code = c, vmFlags = f, dc_Name = x3, dc_Version = x4, dc_Author = x5, dc_Email = x6, dc_Description = x7,
    dc_address = ADDRESS_EMPTY\<rparr>"
  show ?thesis
    using s1(1) s2(1) s3(1) s4(1) s5(1) s6(1) s7 validateDeployCode_total [of ?dc]
    by (cases "validateDeployCode ?dc") (auto simp: DeployCode_Deserialization_def NextString_def Let_def dc_valid_def)
qed

lemma length_varbytes_enc: "length (varbytes_enc b) \<le> length b + 9"
  by (simp add: varbytes_enc_def varuint_enc_def)

lemma length_DeployCode_enc:
  assumes "dc_valid dc"
  shows "length (DeployCode_enc dc) \<le> 2000000"
proof -
  have "length (dc_code dc) \<le> 1024 * 1024" "length (dc_Name dc) \<le> 252" "length (dc_Version dc) \<le> 252"
    "length (dc_Author dc) \<le> 252" "length (dc_Email dc) \<le> 252" "length (dc_Description dc) \<le> 65536"
    using assms by (simp_all add: dc_valid_def validateDeployCode_iff split: if_splits)
  then show ?thesis
    using length_varbytes_enc [of "dc_code dc"] length_varbytes_enc [of "dc_Name dc"] length_varbytes_enc [of "dc_Version dc"]
      length_varbytes_enc [of "dc_Author dc"] length_varbytes_enc [of "dc_Email dc"] length_varbytes_enc [of "dc_Description dc"]
    by (simp add: DeployCode_enc_def)
qed

text \<open>
  C39. The byte form of a contract. The validation accepts exactly the contracts with VM flags 0, 1 or 3, at most
  1 MiB of code (512 KiB for WASM, flag 3), a name, version, author and email of at most 252 bytes each and a
  description of at most 65536 bytes. A contract within these limits is written and read back unchanged, with
  nothing left over. From any bytes at all the reader returns an error or a contract within all of these limits,
  whose address is not computed yet; it never panics.
\<close>

theorem deploy_code_codec:
  "(validateDeployCode dc = Ok () \<longleftrightarrow> dc_limits dc)
   \<and> (dc_valid dc \<longrightarrow> (\<exists>bs s'. DeployCode_ToArray dc = Ok bs
      \<and> DeployCode_Deserialization (NewZeroCopySource bs) = Ok (dc, s') \<and> rest s' = []))
   \<and> (length raw \<le> maxInt \<longrightarrow>
      (\<exists>e. DeployCode_Deserialization (NewZeroCopySource raw) = Err e)
      \<or> (\<exists>dc' s'. DeployCode_Deserialization (NewZeroCopySource raw) = Ok (dc', s')
          \<and> dc_limits dc' \<and> dc_address dc' = ADDRESS_EMPTY))"
proof (intro conjI impI)
  show "validateDeployCode dc = Ok () \<longleftrightarrow> dc_limits dc"
    by (simp add: dc_limits_iff)
next
  assume valid: "dc_valid dc"
  then have "length (DeployCode_enc dc) + 8 \<le> sink_max"
    using length_DeployCode_enc [OF valid] by (simp add: sink_max_def)
  from deploy.roundtrip [OF valid this]
  show "\<exists>bs s'. DeployCode_ToArray dc = Ok bs \<and> DeployCode_Deserialization (NewZeroCopySource bs) = Ok (dc, s') \<and> rest s' = []"
    by (auto simp: DeployCode_ToArray_def)
next
  assume "length raw \<le> maxInt"
  then have "wf_src (NewZeroCopySource raw)"
    by simp
  from Deserialization_total [OF this]
  show "(\<exists>e. DeployCode_Deserialization (NewZeroCopySource raw) = Err e)
      \<or> (\<exists>dc' s'. DeployCode_Deserialization (NewZeroCopySource raw) = Ok (dc', s')
          \<and> dc_limits dc' \<and> dc_address dc' = ADDRESS_EMPTY)"
    unfolding dc_valid_def dc_limits_iff by blast
qed

definition example_contract :: DeployCode where
  "example_contract = \<lparr>dc_code = [0x51], vmFlags = 1, dc_Name = [0x61], dc_Version = [], dc_Author = [], dc_Email = [],
     dc_Description = [], dc_address = ADDRESS_EMPTY\<rparr>"

theorem deploy_code_codec_witness:
  "dc_limits example_contract
   \<and> (\<exists>bs s'. DeployCode_ToArray example_contract = Ok bs
     \<and> DeployCode_Deserialization (NewZeroCopySource bs) = Ok (example_contract, s') \<and> rest s' = [])
   \<and> (\<exists>dc' s'. DeployCode_Deserialization (NewZeroCopySource [1, 0x51, 1, 1, 0x61, 0, 0, 0, 0]) = Ok (dc', s') \<and> dc_limits dc')"
proof -
  have valid: "dc_valid example_contract" and len: "length [1 :: byte, 0x51, 1, 1, 0x61, 0, 0, 0, 0] \<le> maxInt"
    by (simp_all add: dc_valid_def validateDeployCode_iff maxInt_def example_contract_def)
  have "rest (NewZeroCopySource [1, 0x51, 1, 1, 0x61, 0, 0, 0, 0]) = DeployCode_enc example_contract @ []"
    by (simp add: DeployCode_enc_def example_contract_def varbytes_enc_def varuint_enc_def)
  from deploy.reads [OF valid _ this] len
  have "\<nexists>e. DeployCode_Deserialization (NewZeroCopySource [1, 0x51, 1, 1, 0x61, 0, 0, 0, 0]) = Err e"
    by simp
  then show ?thesis
    using deploy_code_codec [of example_contract "[1, 0x51, 1, 1, 0x61, 0, 0, 0, 0]"] valid len by (auto simp: dc_valid_def)
qed

end
