(* ===== verification/CacheDB.thy ===== *)
theory CacheDB
  imports OverlayDB DeployCode
begin

text \<open>
  The cache of a contract execution over the block cache, \<open>src/smartcontract/storage/cachedb.go\<close>. Its keys
  carry a prefix byte for the kind of the entry; storage entries and contracts share the in-memory store.
  \<open>Commit\<close> writes the cache into the overlay below. The scratch buffer the code builds its keys in is kept,
  with the bytes up to its capacity.
\<close>

section \<open>The cache\<close>

definition ST_CONTRACT :: byte where "ST_CONTRACT = 0x04"
definition ST_STORAGE :: byte where "ST_STORAGE = 0x05"

record 's CacheDB =
  c_memdb :: MemDB
  c_backend :: "'s OverlayDB"
  keyScratch :: bytes

definition NewCacheDB :: "goleveldb \<Rightarrow> 's OverlayDB \<Rightarrow> 's CacheDB" where
  "NewCacheDB G store = \<lparr>c_memdb = NewMemDB (DefaultComparer G) (rand_Source G), c_backend = store, keyScratch = []\<rparr>"

definition c_Reset :: "goleveldb \<Rightarrow> 's CacheDB \<Rightarrow> 's CacheDB" where
  "c_Reset G self = self\<lparr>c_memdb := db_Reset (rand_Source G) (c_memdb self)\<rparr>"

text \<open>The buffer to its capacity; the slice taken of it has \<open>n\<close> bytes.\<close>

definition ensureBuffer :: "bytes \<Rightarrow> nat \<Rightarrow> bytes" where
  "ensureBuffer b n = (if length b < n then replicate n 0 else b)"

definition makePrefixedKey :: "bytes \<Rightarrow> byte \<Rightarrow> bytes \<Rightarrow> bytes \<times> bytes" where
  "makePrefixedKey dst prefix key =
     (let n = length key + 1; buf = ensureBuffer dst n; d0 = (take n buf)[0 := prefix]; d = take 1 d0 @ copy_slice (drop 1 d0) key
      in (d, d @ drop n buf))"

definition c_put :: "byte \<Rightarrow> bytes \<Rightarrow> bytes \<Rightarrow> 's CacheDB \<Rightarrow> 's CacheDB res" where
  "c_put prefix key value self =
     (let (pkey, scratch) = makePrefixedKey (keyScratch self) prefix key
      in bind_res (db_Put pkey value (c_memdb self)) (\<lambda>m. Ok (self\<lparr>keyScratch := scratch, c_memdb := m\<rparr>)))"

definition c_Put :: "bytes \<Rightarrow> bytes \<Rightarrow> 's CacheDB \<Rightarrow> 's CacheDB res" where
  "c_Put key value self = c_put ST_STORAGE key value self"

definition c_get ::
  "('s, 'i) PersistStore \<Rightarrow> byte \<Rightarrow> bytes \<Rightarrow> 's CacheDB \<Rightarrow> ((bytes option \<times> store_error option) \<times> 's CacheDB) res" where
  "c_get PS prefix key self =
     (let (pkey, scratch) = makePrefixedKey (keyScratch self) prefix key; self1 = self\<lparr>keyScratch := scratch\<rparr>
      in bind_res (db_Get pkey (c_memdb self1)) (\<lambda>(value, unknown).
           if unknown then
             bind_res (ov_Get PS pkey (c_backend self1)) (\<lambda>((v, e), b).
               let self2 = self1\<lparr>c_backend := b\<rparr>
               in if e \<noteq> None then Ok ((None, e), self2) else Ok ((v, None), self2))
           else Ok ((value, None), self1)))"

definition c_Get ::
  "('s, 'i) PersistStore \<Rightarrow> bytes \<Rightarrow> 's CacheDB \<Rightarrow> ((bytes option \<times> store_error option) \<times> 's CacheDB) res" where
  "c_Get PS key self = c_get PS ST_STORAGE key self"

definition c_delete :: "byte \<Rightarrow> bytes \<Rightarrow> 's CacheDB \<Rightarrow> 's CacheDB res" where
  "c_delete prefix key self =
     (let (pkey, scratch) = makePrefixedKey (keyScratch self) prefix key
      in bind_res (db_Delete pkey (c_memdb self)) (\<lambda>m. Ok (self\<lparr>keyScratch := scratch, c_memdb := m\<rparr>)))"

definition c_Delete :: "bytes \<Rightarrow> 's CacheDB \<Rightarrow> 's CacheDB res" where
  "c_Delete key self = c_delete ST_STORAGE key self"

definition c_Commit :: "'s CacheDB \<Rightarrow> 's CacheDB res" where
  "c_Commit self =
     bind_res (ForEach (\<lambda>key val b. if val = [] then ov_Delete key b else ov_Put key val b) (c_memdb self) (c_backend self))
       (\<lambda>b. Ok (self\<lparr>c_backend := b\<rparr>))"

text \<open>Contracts: nil for a contract that does not exist.\<close>

datatype contract_error = StoreFailed store_error | BadContract err

definition GetContract ::
  "('s, 'i) PersistStore \<Rightarrow> Address \<Rightarrow> 's CacheDB \<Rightarrow> ((DeployCode option \<times> contract_error option) \<times> 's CacheDB) res" where
  "GetContract PS addr self =
     bind_res (c_get PS ST_CONTRACT addr self) (\<lambda>((value, e), self').
       case e of Some x \<Rightarrow> Ok ((None, Some (StoreFailed x)), self')
       | None \<Rightarrow>
           if nil_bytes value = [] then Ok ((None, None), self')
           else
             (case DeployCode_Deserialization (NewZeroCopySource (nil_bytes value)) of
                Ok (contract, _) \<Rightarrow> Ok ((Some contract, None), self')
              | Err x \<Rightarrow> Ok ((None, Some (BadContract x)), self')
              | Panic \<Rightarrow> Panic
              | Diverge \<Rightarrow> Diverge))"

definition PutContract :: "(bytes \<Rightarrow> bytes) \<Rightarrow> DeployCode \<Rightarrow> 's CacheDB \<Rightarrow> 's CacheDB res" where
  "PutContract ripemd160 contract self =
     (let (address, contract') = dc_Address ripemd160 contract
      in bind_res (DeployCode_Serialization contract' NewZeroCopySink) (\<lambda>sink.
           c_put ST_CONTRACT address (snk_Bytes sink) self))"

definition DeleteContract :: "Address \<Rightarrow> 's CacheDB \<Rightarrow> 's CacheDB res" where
  "DeleteContract address self = c_delete ST_CONTRACT address self"

text \<open>The iterator of the cache over that of the overlay; \<open>Key\<close> drops the prefix byte.\<close>

definition Iter_Key :: "bytes option \<Rightarrow> bytes option" where
  "Iter_Key key = (if nil_bytes key \<noteq> [] then Some (drop 1 (nil_bytes key)) else key)"

definition c_iter_ops ::
  "('s, 'i) PersistStore \<Rightarrow> 's CacheDB \<Rightarrow> (dbIter, (dbIter, 'i) JoinIter) JoinIter StoreIterator" where
  "c_iter_ops PS self =
     (let J = join_ops (dbIter_ops (c_memdb self)) (ov_iter_ops PS (c_backend self))
      in J\<lparr>si_Key := (\<lambda>it. Iter_Key (si_Key J it))\<rparr>)"

definition c_NewIterator ::
  "goleveldb \<Rightarrow> ('s, 'i) PersistStore \<Rightarrow> bytes \<Rightarrow> 's CacheDB \<Rightarrow> (dbIter, (dbIter, 'i) JoinIter) JoinIter" where
  "c_NewIterator G PS key self =
     (let d0 = (replicate (1 + length key) 0)[0 := ST_STORAGE]; pkey = take 1 d0 @ copy_slice (drop 1 d0) key;
          prefixRange = BytesPrefix G pkey;
          backIter = ov_NewIterator G PS pkey (c_backend self);
          memIter = NewIterator (Some prefixRange)
      in NewJoinIter (DefaultComparer G) memIter backIter)"

section \<open>The cache is a layer of the store\<close>

lemma makePrefixedKey_key: "fst (makePrefixedKey dst p key) = p # key"
proof -
  obtain x xs where "take (length key + 1) (ensureBuffer dst (length key + 1)) = x # xs" "length xs = length key"
    by (cases "take (length key + 1) (ensureBuffer dst (length key + 1))") (auto simp: ensureBuffer_def split: if_splits dest!: arg_cong [of _ _ length])
  then show ?thesis
    by (simp add: makePrefixedKey_def Let_def copy_slice_same)
qed

definition c_ok :: "('s, 'i) PersistStore \<Rightarrow> 's CacheDB \<Rightarrow> bool" where
  "c_ok PS self \<longleftrightarrow> db_valid (c_memdb self) \<and> ov_ok PS (c_backend self)"

definition c_view :: "('s, 'i) PersistStore \<Rightarrow> 's CacheDB \<Rightarrow> bytes \<Rightarrow> bytes" where
  "c_view PS self = over (db_writes (c_memdb self)) (ov_view PS (c_backend self))"

lemma NewCacheDB_ok:
  assumes "leveldb_ok G" "ov_ok PS store"
  shows "c_ok PS (NewCacheDB G store)" "c_view PS (NewCacheDB G store) = ov_view PS store"
  using assms db_New_writes [of "DefaultComparer G" "rand_Source G"]
  by (auto simp: NewCacheDB_def c_ok_def c_view_def leveldb_ok_def)

lemma c_Reset_view: "c_ok PS self \<Longrightarrow> c_ok PS (c_Reset G self) \<and> c_view PS (c_Reset G self) = ov_view PS (c_backend self)"
  using db_Reset_writes [of "c_memdb self" "rand_Source G"] by (simp add: c_Reset_def c_ok_def c_view_def)

lemma c_put_view:
  assumes "c_ok PS self"
  shows "\<exists>self'. c_put p k v self = Ok self' \<and> c_ok PS self' \<and> c_view PS self' = (c_view PS self)(p # k := v)"
  using assms db_Put_writes [of "c_memdb self" "p # k" v] makePrefixedKey_key [of "keyScratch self" p k]
  by (auto simp: c_put_def c_ok_def c_view_def over_upd split: prod.split)

lemma c_delete_view:
  assumes "c_ok PS self"
  shows "\<exists>self'. c_delete p k self = Ok self' \<and> c_ok PS self' \<and> c_view PS self' = (c_view PS self)(p # k := [])"
  using c_put_view [OF assms, of p k "[]"] by (simp add: c_delete_def c_put_def db_Delete_def)

lemma c_get_view:
  assumes ok: "c_ok PS self"
  shows "\<exists>self'. c_get PS p k self = Ok ((nil_if_empty (c_view PS self (p # k)), None), self')
    \<and> c_ok PS self' \<and> c_view PS self' = c_view PS self"
proof -
  obtain scratch where pk: "makePrefixedKey (keyScratch self) p k = (p # k, scratch)"
    using makePrefixedKey_key [of "keyScratch self" p k] by (cases "makePrefixedKey (keyScratch self) p k") auto
  have v: "db_Get (p # k) (c_memdb self)
      = Ok (case db_writes (c_memdb self) (p # k) of None \<Rightarrow> (None, True) | Some v \<Rightarrow> (nil_if_empty v, False))"
    using ok db_Get_writes [of "c_memdb self" "p # k"] by (auto simp: c_ok_def)
  obtain b where w: "ov_Get PS (p # k) (c_backend self) = Ok ((nil_if_empty (ov_view PS (c_backend self) (p # k)), None), b)"
    "ov_ok PS b" "ov_view PS b = ov_view PS (c_backend self)"
    using ov.kv_get [of PS "c_backend self" "p # k"] ok by (auto simp: c_ok_def)
  show ?thesis
    using ok pk v w by (cases "db_writes (c_memdb self) (p # k)") (simp_all add: c_get_def c_ok_def c_view_def over_def)
qed

interpretation cache: kv_store "c_get PS p" "c_put p" "c_delete p" "c_ok PS" "\<lambda>self k. c_view PS self (p # k)" for PS p
proof
  fix s :: "'a CacheDB" and k v
  assume s: "c_ok PS s"
  show "\<exists>s'. c_get PS p k s = Ok ((nil_if_empty (c_view PS s (p # k)), None), s') \<and> c_ok PS s'
      \<and> (\<lambda>k. c_view PS s' (p # k)) = (\<lambda>k. c_view PS s (p # k))"
    using c_get_view [OF s, of p k] by auto
  show "\<exists>s'. c_put p k v s = Ok s' \<and> c_ok PS s' \<and> (\<lambda>k. c_view PS s' (p # k)) = (\<lambda>k. c_view PS s (p # k))(k := v)"
    using c_put_view [OF s, of p k v] by (auto simp: fun_eq_iff)
  show "\<exists>s'. c_delete p k s = Ok s' \<and> c_ok PS s' \<and> (\<lambda>k. c_view PS s' (p # k)) = (\<lambda>k. c_view PS s (p # k))(k := [])"
    using c_delete_view [OF s, of p k] by (auto simp: fun_eq_iff)
qed

text \<open>Committing writes the cache into the overlay, which is a layer of the store itself.\<close>

lemma c_Commit_view:
  assumes ok: "c_ok PS self"
  shows "\<exists>self'. c_Commit self = Ok self' \<and> c_ok PS self' \<and> c_memdb self' = c_memdb self
    \<and> ov_view PS (c_backend self') = c_view PS self \<and> c_view PS self' = c_view PS self"
proof -
  obtain kvs where kvs: "db_holds (c_memdb self) kvs"
    using ok by (auto simp: c_ok_def db_valid_def)
  then have rep: "db_rep (c_memdb self) kvs" and seq: "kv_seq kvs"
    using db_rep_sorted by (auto simp: db_holds_def kv_seq_def)
  obtain b where b: "fold_res (\<lambda>k v. if v = [] then ov_Delete k else ov_Put k v) kvs (c_backend self) = Ok b" "ov_ok PS b"
    "ov_view PS b = over (map_of (rev kvs)) (ov_view PS (c_backend self))"
    using ov.write_back [of PS "c_backend self" kvs] ok by (auto simp: c_ok_def)
  have "ov_view PS b = c_view PS self"
    using b(3) map_of_rev_seq [OF seq] db_writes_holds [OF kvs] by (simp add: c_view_def)
  moreover have "over (db_writes (c_memdb self)) (c_view PS self) = c_view PS self"
    by (auto simp: c_view_def over_def fun_eq_iff split: option.split)
  moreover have eq: "(\<lambda>key val b. if val = [] then ov_Delete key b else ov_Put key val b) = (\<lambda>k v. if v = [] then ov_Delete k else ov_Put k v)"
    by (auto simp: fun_eq_iff)
  have "c_Commit self = Ok (self\<lparr>c_backend := b\<rparr>)"
    using b(1) unfolding c_Commit_def eq by (simp add: ForEach_spec [OF rep])
  ultimately show ?thesis
    using ok b(2) by (simp add: c_ok_def c_view_def)
qed

section \<open>Properties\<close>

text \<open>
  C36. The cache as a map. Whatever has been written, \<open>Get\<close> returns the value the cache stands for (nil for an
  absent or deleted key), never
  panics and changes nothing a reader can see; \<open>Put\<close> and \<open>Delete\<close> of a storage key change that key and no
  other entry, in particular no contract and nothing in the overlay below; and the invariant is kept.
\<close>

theorem cache_refines_map:
  assumes "c_ok PS self"
  shows "(\<exists>self'. c_Get PS key self = Ok ((nil_if_empty (c_view PS self (ST_STORAGE # key)), None), self')
        \<and> c_ok PS self' \<and> c_view PS self' = c_view PS self)
    \<and> (\<exists>self'. c_Put key value self = Ok self' \<and> c_ok PS self' \<and> c_view PS self' = (c_view PS self)(ST_STORAGE # key := value)
        \<and> c_backend self' = c_backend self)
    \<and> (\<exists>self'. c_Delete key self = Ok self' \<and> c_ok PS self' \<and> c_view PS self' = (c_view PS self)(ST_STORAGE # key := [])
        \<and> c_backend self' = c_backend self)"
proof (intro conjI)
  show "\<exists>self'. c_Get PS key self = Ok ((nil_if_empty (c_view PS self (ST_STORAGE # key)), None), self')
      \<and> c_ok PS self' \<and> c_view PS self' = c_view PS self"
    using c_get_view [OF assms] by (simp add: c_Get_def)
  have keep: "c_backend self' = c_backend self" if "c_put p k v self = Ok self'" for p k v self'
    using that by (auto simp: c_put_def Let_def bind_res_Ok_iff split: prod.splits)
  then show "\<exists>self'. c_Put key value self = Ok self' \<and> c_ok PS self' \<and> c_view PS self' = (c_view PS self)(ST_STORAGE # key := value)
      \<and> c_backend self' = c_backend self"
    using c_put_view [OF assms, of ST_STORAGE key "value"] by (auto simp: c_Put_def)
  show "\<exists>self'. c_Delete key self = Ok self' \<and> c_ok PS self' \<and> c_view PS self' = (c_view PS self)(ST_STORAGE # key := [])
      \<and> c_backend self' = c_backend self"
    using c_put_view [OF assms, of ST_STORAGE key "[]"] keep
    by (auto simp: c_Delete_def c_delete_def c_put_def db_Delete_def)
qed

text \<open>A new cache over a new overlay shows what the store holds.\<close>

lemma map_cache_ok:
  "c_ok map_store (NewCacheDB example_leveldb (NewOverlayDB example_leveldb (f, [])))"
  "c_view map_store (NewCacheDB example_leveldb (NewOverlayDB example_leveldb (f, []))) = f"
proof -
  let ?ov = "NewOverlayDB example_leveldb (f, [])"
  have bo: "byte_order (DefaultComparer example_leveldb)"
    by (simp add: example_leveldb_def byte_order_bytes_compare)
  have ov: "ov_ok map_store ?ov" "ov_view map_store ?ov = f"
    using db_New_writes [OF bo, of "rand_Source example_leveldb"]
    by (auto simp: ov_ok_def ov_view_def NewOverlayDB_def store_reads_def map_store_def)
       (auto simp: store_val_def nil_bytes_def fun_eq_iff)
  then show "c_ok map_store (NewCacheDB example_leveldb ?ov)" "c_view map_store (NewCacheDB example_leveldb ?ov) = f"
    using db_New_writes [OF bo, of "rand_Source example_leveldb"] by (simp_all add: c_ok_def c_view_def NewCacheDB_def)
qed

lemmas example_cache_ok = map_cache_ok [of "\<lambda>k. if k = [5, 1] then [9] else []"]

theorem cache_refines_map_witness:
  "\<exists>self'. c_Put [2] [7]
      (NewCacheDB example_leveldb (NewOverlayDB example_leveldb (\<lambda>k. if k = [5, 1] then [9] else [], []))) = Ok self'
    \<and> c_view map_store self' [5, 1] = [9] \<and> c_view map_store self' [5, 2] = [7]"
  using cache_refines_map [OF example_cache_ok(1), of "[2]" "[7]"] example_cache_ok(2) by (auto simp: ST_STORAGE_def)

text \<open>
  C37. Commit and rollback. \<open>Commit\<close> makes the overlay below show exactly what the cache showed, and leaves
  what the cache shows unchanged, also after the \<open>Reset\<close> that follows it; a \<open>Reset\<close> without a \<open>Commit\<close>
  throws the writes of the execution away: the cache shows the overlay again.
\<close>

theorem cache_commit_rollback:
  assumes "c_ok PS self"
  shows "(\<exists>self'. c_Commit self = Ok self' \<and> c_ok PS self' \<and> ov_view PS (c_backend self') = c_view PS self
        \<and> c_view PS self' = c_view PS self \<and> c_view PS (c_Reset G self') = c_view PS self)
    \<and> c_ok PS (c_Reset G self) \<and> c_view PS (c_Reset G self) = ov_view PS (c_backend self)"
  using c_Commit_view [OF assms] c_Reset_view [OF assms, of G] c_Reset_view [of PS _ G] by auto

theorem cache_commit_rollback_witness:
  "\<exists>self'. c_Commit (NewCacheDB example_leveldb (NewOverlayDB example_leveldb (\<lambda>k. if k = [5, 1] then [9] else [], []))) = Ok self'
    \<and> ov_view map_store (c_backend self') [5, 1] = [9]"
  using cache_commit_rollback [OF example_cache_ok(1), of example_leveldb] example_cache_ok(2) by auto

section \<open>Contracts\<close>

lemma Serialization_address: "DeployCode_Serialization (dc\<lparr>dc_address := a\<rparr>) = DeployCode_Serialization dc"
  by (simp add: DeployCode_Serialization_def fun_eq_iff)

lemma contract_bytes:
  assumes "validateDeployCode dc = Ok ()"
  shows "\<exists>sink. DeployCode_Serialization dc NewZeroCopySink = Ok sink \<and> snk_Bytes sink \<noteq> []
    \<and> (\<exists>s'. DeployCode_Deserialization (NewZeroCopySource (snk_Bytes sink)) = Ok (dc\<lparr>dc_address := ADDRESS_EMPTY\<rparr>, s'))"
proof -
  let ?dc = "dc\<lparr>dc_address := ADDRESS_EMPTY\<rparr>"
  have "validateDeployCode ?dc = Ok ()"
    using assms by (simp add: validateDeployCode_iff)
  then have valid: "dc_valid ?dc"
    by (simp add: dc_valid_def)
  have small: "length (DeployCode_enc ?dc) + 8 \<le> sink_max"
    using assms length_DeployCode_enc [OF valid] by (simp add: sink_max_def)
  obtain sink where sink: "DeployCode_Serialization ?dc NewZeroCopySink = Ok sink" "snk_Bytes sink = DeployCode_enc ?dc"
    using writer.to_fresh_sink [OF DeployCode_writer small] by blast
  have "wf_src (NewZeroCopySource (DeployCode_enc ?dc))"
    using small by (intro wf_NewZeroCopySource) (simp add: maxInt_def sink_max_def)
  then show ?thesis
    using sink deploy.reads [OF valid, of "NewZeroCopySource (DeployCode_enc ?dc)" "[]"]
    by (simp add: Serialization_address) (auto simp: DeployCode_enc_def)
qed

text \<open>
  A contract put into the cache is found under its address: \<open>GetContract\<close> returns the contract put, with
  its address not yet computed, after \<open>DeleteContract\<close> it returns nil, and neither changes a storage entry.
\<close>

theorem contract_put_get:
  assumes "c_ok PS self" "validateDeployCode dc = Ok ()" "addr = fst (dc_Address ripemd160 dc)"
  shows "\<exists>self1 self2 self3 self4. PutContract ripemd160 dc self = Ok self1
    \<and> GetContract PS addr self1 = Ok ((Some (dc\<lparr>dc_address := ADDRESS_EMPTY\<rparr>), None), self2)
    \<and> DeleteContract addr self2 = Ok self3 \<and> GetContract PS addr self3 = Ok ((None, None), self4)
    \<and> c_ok PS self4 \<and> (\<forall>k. c_view PS self4 (ST_STORAGE # k) = c_view PS self (ST_STORAGE # k))"
proof -
  obtain dc' where dc': "dc_Address ripemd160 dc = (addr, dc')" "DeployCode_Serialization dc' = DeployCode_Serialization dc"
    using assms(3) by (auto simp: dc_Address_def Let_def Serialization_address)
  obtain sink s' where sink: "DeployCode_Serialization dc NewZeroCopySink = Ok sink" "snk_Bytes sink \<noteq> []"
    "DeployCode_Deserialization (NewZeroCopySource (snk_Bytes sink)) = Ok (dc\<lparr>dc_address := ADDRESS_EMPTY\<rparr>, s')"
    using contract_bytes [OF assms(2)] by blast
  obtain self1 where s1: "c_put ST_CONTRACT addr (snk_Bytes sink) self = Ok self1" "c_ok PS self1"
    "c_view PS self1 = (c_view PS self)(ST_CONTRACT # addr := snk_Bytes sink)"
    using c_put_view [OF assms(1)] by blast
  obtain v2 self2 where s2: "c_get PS ST_CONTRACT addr self1 = Ok ((v2, None), self2)" "v2 = nil_if_empty (snk_Bytes sink)"
    "c_ok PS self2" "c_view PS self2 = c_view PS self1"
    using c_get_view [OF s1(2), of ST_CONTRACT addr] s1(3) by auto
  obtain self3 where s3: "c_delete ST_CONTRACT addr self2 = Ok self3" "c_ok PS self3"
    "c_view PS self3 = (c_view PS self2)(ST_CONTRACT # addr := [])"
    using c_delete_view [OF s2(3)] by blast
  obtain v4 self4 where s4: "c_get PS ST_CONTRACT addr self3 = Ok ((v4, None), self4)" "v4 = None"
    "c_ok PS self4" "c_view PS self4 = c_view PS self3"
    using c_get_view [OF s3(2), of ST_CONTRACT addr] s3(3) by (auto simp: nil_if_empty_def)
  have "PutContract ripemd160 dc self = Ok self1"
    using dc' sink(1) s1(1) by (simp add: PutContract_def)
  moreover have "GetContract PS addr self1 = Ok ((Some (dc\<lparr>dc_address := ADDRESS_EMPTY\<rparr>), None), self2)"
    using s2(1,2) sink(2,3) by (simp add: GetContract_def nil_if_empty_def nil_bytes_def)
  moreover have "GetContract PS addr self3 = Ok ((None, None), self4)"
    using s4(1,2) by (simp add: GetContract_def nil_bytes_def)
  moreover have "c_view PS self4 (ST_STORAGE # k) = c_view PS self (ST_STORAGE # k)" for k
    using s1(3) s2(4) s3(3) s4(4) by (simp add: ST_STORAGE_def ST_CONTRACT_def)
  ultimately show ?thesis
    using s3(1) s4(3) by (auto simp: DeleteContract_def)
qed

theorem contract_put_get_witness:
  "\<exists>self1 self2. PutContract (\<lambda>b. take 20 b) example_contract
      (NewCacheDB example_leveldb (NewOverlayDB example_leveldb (\<lambda>k. if k = [5, 1] then [9] else [], []))) = Ok self1
    \<and> GetContract map_store (fst (dc_Address (\<lambda>b. take 20 b) example_contract)) self1 = Ok ((Some example_contract, None), self2)"
proof -
  have "validateDeployCode example_contract = Ok ()"
    by (simp add: example_contract_def validateDeployCode_iff)
  moreover have "example_contract\<lparr>dc_address := ADDRESS_EMPTY\<rparr> = example_contract"
    by (simp add: example_contract_def)
  ultimately show ?thesis
    using contract_put_get [OF example_cache_ok(1), of example_contract "fst (dc_Address (\<lambda>b. take 20 b) example_contract)" "\<lambda>b. take 20 b"]
    by auto
qed

section \<open>Iterating over the cache\<close>

text \<open>The iterator of the cache shows the keys without their prefix byte.\<close>

definition strip :: "(bytes \<times> bytes) list \<Rightarrow> (bytes \<times> bytes) list" where
  "strip kvs = map (\<lambda>(k, v). (drop 1 k, v)) kvs"

lemma strip_iter:
  assumes "pair_iter J fresh pos"
  shows "pair_iter (J\<lparr>si_Key := (\<lambda>it. Iter_Key (si_Key J it))\<rparr>)
    (\<lambda>i xs. \<exists>kvs. fresh i kvs \<and> named kvs \<and> xs = strip kvs) (\<lambda>i xs. \<exists>kvs. pos i kvs \<and> named kvs \<and> xs = strip kvs)"
proof (rule pair_iter.intro)
  fix i xs
  assume "\<exists>kvs. fresh i kvs \<and> named kvs \<and> xs = strip kvs"
  then show "\<exists>i'. si_First (J\<lparr>si_Key := (\<lambda>it. Iter_Key (si_Key J it))\<rparr>) i = Ok (xs \<noteq> [], i')
      \<and> (\<exists>kvs. pos i' kvs \<and> named kvs \<and> xs = strip kvs)"
    using pair_iter.si_first [OF assms] by (fastforce simp: strip_def)
next
  fix i xs
  assume "\<exists>kvs. pos i kvs \<and> named kvs \<and> xs = strip kvs"
  then obtain kvs where kvs: "pos i kvs" "named kvs" "xs = strip kvs"
    by blast
  have "named (tl kvs)" "tl xs = strip (tl kvs)"
    using kvs by (cases kvs; auto simp: named_def strip_def)+
  then show "\<exists>i'. si_Next (J\<lparr>si_Key := (\<lambda>it. Iter_Key (si_Key J it))\<rparr>) i = Ok (tl xs \<noteq> [], i')
      \<and> (\<exists>kvs. pos i' kvs \<and> named kvs \<and> tl xs = strip kvs)"
    using pair_iter.si_next [OF assms kvs(1)] by (fastforce simp: strip_def)
  show "cur (J\<lparr>si_Key := (\<lambda>it. Iter_Key (si_Key J it))\<rparr>) i xs"
    using pair_iter.si_cur [OF assms kvs(1)] kvs(2,3)
    by (cases kvs) (auto simp: cur_def strip_def named_def Iter_Key_def nil_bytes_def)
  show "si_Error (J\<lparr>si_Key := (\<lambda>it. Iter_Key (si_Key J it))\<rparr>) i = None"
    using pair_iter.si_error [OF assms kvs(1)] by simp
qed

text \<open>
  C38. The iterator of the cache yields, in the byte order of the keys, exactly the storage entries whose
  key starts with the given bytes, as the cache shows them: entries of the cache over those of the overlay
  over those of the persistent store, without the deleted ones. This holds of any persistent store whose own
  iterators yield its entries in order.
\<close>

theorem cache_iterator:
  assumes "leveldb_ok G" "c_ok PS self" "store_iterates PS (ov_store (c_backend self)) S fresh pos"
  shows "\<exists>all. sorted_wrt (<) (map fst all) \<and> (\<forall>k. c_view PS self k = (case map_of all k of None \<Rightarrow> [] | Some v \<Rightarrow> v))
    \<and> (\<forall>(k, v)\<in>set all. v \<noteq> [])
    \<and> drain (c_iter_ops PS self) (c_NewIterator G PS key self)
        = Ok (map (\<lambda>(k, v). (drop 1 k, v)) (filter (\<lambda>(k, v). take (length key + 1) k = ST_STORAGE # key) all))"
proof -
  obtain kvs ovs where kvs: "db_holds (c_memdb self) kvs" and ovs: "db_holds (ov_memdb (c_backend self)) ovs"
    using assms(2) by (auto simp: c_ok_def ov_ok_def db_valid_def)
  then have rep: "db_rep (c_memdb self) kvs" and seq: "kv_seq kvs"
    using db_rep_sorted by (auto simp: db_holds_def kv_seq_def)
  let ?pre = "ST_STORAGE # key" and ?low = "live (layers ovs S)"
  let ?all = "live (layers kvs ?low)"
  note low = ov_iterates [OF assms(1) ovs _ assms(3), of ?pre]
  have low_holds: "holds_pairs (ov_view PS (c_backend self)) ?low" and low_seq: "kv_seq ?low"
    using low(2) by (simp_all add: holds_pairs_def)
  have all: "holds_pairs (c_view PS self) ?all"
    using layers_hold [OF seq low_holds] db_writes_holds [OF kvs] by (simp add: c_view_def)
  have st: "join_iter (dbIter_ops (c_memdb self)) (it_fresh (c_memdb self)) (it_pos (c_memdb self))
      (ov_iter_ops PS (c_backend self)) (join_iter.join_fresh (it_fresh (ov_memdb (c_backend self))) fresh)
      (join_iter.join_ordered (it_pos (ov_memdb (c_backend self))) pos)"
    using mem_iter.store_iter_axioms join_iter.join_store_iter [OF low(1)] by (auto simp: ov_iter_ops_def intro: join_iter.intro)
  have "it_fresh (c_memdb self) (NewIterator (Some (BytesPrefix G ?pre))) (with_prefix ?pre kvs)"
    using rep assms(1) in_range_prefix by (auto simp: it_fresh_def NewIterator_def leveldb_ok_def)
  moreover have "byte_order (DefaultComparer G)"
    using assms(1) by (simp add: leveldb_ok_def)
  moreover have "c_NewIterator G PS key self = NewJoinIter (DefaultComparer G) (NewIterator (Some (BytesPrefix G ?pre)))
      (ov_NewIterator G PS ?pre (c_backend self))"
    by (simp add: c_NewIterator_def Let_def copy_slice_same)
  ultimately have "join_iter.join_fresh (it_fresh (c_memdb self)) (join_iter.join_fresh (it_fresh (ov_memdb (c_backend self))) fresh)
      (c_NewIterator G PS key self) (with_prefix ?pre ?all)"
    using join_iter.join_freshI [OF st _ low(3) named_prefix, of "NewIterator (Some (BytesPrefix G ?pre))"
        "with_prefix ?pre kvs" "DefaultComparer G"] live_layers_prefix [OF seq low_seq, of ?pre]
    by simp
  then have "drain (c_iter_ops PS self) (c_NewIterator G PS key self) = Ok (strip (with_prefix ?pre ?all))"
    using pair_iter.drain_all [OF strip_iter [OF join_iter.join_pair_iter [OF st]]] named_prefix [of ?pre ?all]
    unfolding c_iter_ops_def Let_def by blast
  then show ?thesis
    using all by (intro exI [of _ ?all]) (simp add: holds_pairs_def kv_seq_def strip_def with_prefix_def)
qed

text \<open>A prefix range, and a persistent store with iterators, for an example.\<close>

fun prefix_limit :: "bytes \<Rightarrow> bytes option" where
  "prefix_limit [] = None"
| "prefix_limit (b # bs) =
     (case prefix_limit bs of Some l \<Rightarrow> Some (b # l) | None \<Rightarrow> if b < 255 then Some [b + 1] else None)"

lemma prefix_limit_range:
  "pre \<le> k \<and> (case prefix_limit pre of None \<Rightarrow> True | Some l \<Rightarrow> k < l) \<longleftrightarrow> take (length pre) k = pre"
proof (induction pre arbitrary: k)
  case (Cons b bs)
  show ?case
  proof (cases k)
    case (Cons c cs)
    have succ: "c < b + 1 \<longleftrightarrow> c \<le> b" if "b < 255"
    proof -
      have "unat (b + 1) = unat b + 1"
        using that by (simp add: word_less_nat_alt unat_word_ariths)
      then show ?thesis
        by (simp add: word_less_nat_alt word_le_nat_alt less_Suc_eq_le)
    qed
    have top: "\<not> b < c" if "\<not> b < 255"
      using that unat_byte_le [of c] by (simp add: word_less_nat_alt)
    show ?thesis
      using Cons.IH [of cs] succ top Cons by (cases "prefix_limit bs") auto
  qed simp
qed simp

definition example_goleveldb :: goleveldb where
  "example_goleveldb = \<lparr>DefaultComparer = bytes_compare, BytesPrefix = (\<lambda>p. (Some p, prefix_limit p)), rand_Source = sconst 0\<rparr>"

lemma example_goleveldb_ok: "leveldb_ok example_goleveldb"
proof -
  have "above_start (Some (Some pre, prefix_limit pre)) k \<and> below_limit (Some (Some pre, prefix_limit pre)) k
      \<longleftrightarrow> take (length pre) k = pre" for pre k
    using prefix_limit_range [of pre k] by (cases "prefix_limit pre") auto
  then show ?thesis
    by (simp add: leveldb_ok_def example_goleveldb_def byte_order_bytes_compare prefix_range_def)
qed

definition mem_store :: "(MemDB, dbIter) PersistStore" where
  "mem_store =
     \<lparr>ps_Get = (\<lambda>p k. case db_Get k p of Ok (Some v, False) \<Rightarrow> (Some v, None) | _ \<Rightarrow> (None, Some ErrNotFound)),
      ps_BatchPut = (\<lambda>k v p. p), ps_BatchDelete = (\<lambda>k p. p),
      ps_NewIterator = (\<lambda>p pre. NewIterator (Some (Some pre, prefix_limit pre))), ps_iter = dbIter_ops\<rparr>"

lemma mem_store_iterates:
  assumes "db_holds p S" "\<forall>(k, v)\<in>set S. v \<noteq> []"
  shows "store_iterates mem_store p S (it_fresh p) (it_pos p)" "store_reads mem_store p"
proof -
  have rep: "db_rep p S" and seq: "kv_seq S"
    using assms(1) db_rep_sorted by (auto simp: db_holds_def kv_seq_def)
  have get: "db_Get k p = Ok (case map_of S k of None \<Rightarrow> (None, True) | Some v \<Rightarrow> (Some v, False))" for k
    using db_Get_spec [OF rep, of k] assms(2) map_of_SomeD [of S k] by (force simp: nil_if_empty_def split: option.splits)
  then have "store_val mem_store p k = (case map_of S k of None \<Rightarrow> [] | Some v \<Rightarrow> v)" for k
    by (simp add: store_val_def mem_store_def nil_bytes_def split: option.split)
  moreover have "it_fresh p (NewIterator (Some (Some pre, prefix_limit pre))) (with_prefix pre S)" for pre
    using rep in_range_prefix [of "\<lambda>pre. (Some pre, prefix_limit pre)"] example_goleveldb_ok
    by (auto simp: it_fresh_def NewIterator_def leveldb_ok_def example_goleveldb_def)
  ultimately show "store_iterates mem_store p S (it_fresh p) (it_pos p)"
    using mem_iter.store_iter_axioms [of p] seq assms(2) by (simp add: store_iterates_def holds_pairs_def mem_store_def)
  show "store_reads mem_store p"
    using get assms(2) map_of_SomeD [of S _ "[]"] by (auto simp: store_reads_def mem_store_def split: option.split)
qed

theorem cache_iterator_witness:
  "\<exists>p kvs. c_view mem_store (NewCacheDB example_goleveldb (NewOverlayDB example_goleveldb p)) [5, 1] = [9]
    \<and> drain (c_iter_ops mem_store (NewCacheDB example_goleveldb (NewOverlayDB example_goleveldb p)))
        (c_NewIterator example_goleveldb mem_store [] (NewCacheDB example_goleveldb (NewOverlayDB example_goleveldb p))) = Ok kvs"
proof -
  have bo: "byte_order (DefaultComparer example_goleveldb)"
    using example_goleveldb_ok by (simp add: leveldb_ok_def)
  obtain p where p: "db_holds p [([5, 1], [9])]"
    using db_Put_spec [OF NewMemDB_holds [OF byte_order_bytes_compare], of "[5, 1]" "[9]" "sconst 0"] by auto
  let ?c = "NewCacheDB example_goleveldb (NewOverlayDB example_goleveldb p)"
  note st = mem_store_iterates [OF p]
  have ov: "ov_ok mem_store (NewOverlayDB example_goleveldb p)"
    using st(2) db_New_writes [OF bo] by (auto simp: ov_ok_def NewOverlayDB_def)
  have c: "c_ok mem_store ?c" "c_view mem_store ?c = ov_view mem_store (NewOverlayDB example_goleveldb p)"
    using NewCacheDB_ok [OF example_goleveldb_ok ov] by auto
  have "ov_store (c_backend ?c) = p"
    by (simp add: NewCacheDB_def NewOverlayDB_def)
  then have "\<exists>kvs. drain (c_iter_ops mem_store ?c) (c_NewIterator example_goleveldb mem_store [] ?c) = Ok kvs"
    using cache_iterator [OF example_goleveldb_ok c(1), of "[([5, 1], [9])]" "it_fresh p" "it_pos p" "[]"] st(1) by auto
  moreover have "c_view mem_store ?c [5, 1] = [9]"
    using c(2) st(1) db_New_writes [OF bo] by (simp add: ov_view_def NewOverlayDB_def store_iterates_def holds_pairs_def)
  ultimately show ?thesis
    by blast
qed

end
