(* ===== verification/Serialization.thy ===== *)
theory Serialization
  imports Codec
begin

text \<open>
  The stream codec of \<open>src/common/serialization/serialize.go\<close>, on the \<open>bytes.Buffer\<close> its callers use: a
  reader is the list of the unread bytes, a writer the list of the bytes written, to which a write appends
  and never fails. The length prefixes are those of the zero-copy codec, and what that codec reads without
  an error this one reads with the same result.
\<close>

type_synonym 'a io_rd = "bytes \<Rightarrow> ('a \<times> bytes) res"
type_synonym io_wr = "bytes \<Rightarrow> bytes res"

definition ErrRange :: err where
  "ErrRange = ''value out of range''"

definition ErrEof :: err where
  "ErrEof = ''got EOF, can not get the next byte''"

section \<open>The standard library\<close>

text \<open>\<open>io.ReadFull\<close> and \<open>Buffer.Write\<close>.\<close>

definition ReadFull :: "nat \<Rightarrow> bytes io_rd" where
  "ReadFull n r =
     (if n \<le> length r then Ok (take n r, drop n r) else if r = [] then Err ''EOF'' else Err ErrUnexpectedEOF)"

definition Buffer_Write :: "bytes \<Rightarrow> io_wr" where
  "Buffer_Write p w = Ok (w @ p)"

section \<open>Writers\<close>

definition io_WriteVarUint :: "u64 \<Rightarrow> io_wr" where
  "io_WriteVarUint v w =
     (let buf = replicate 9 0;
          (b, n) = (if v < 0xFD then (buf[0 := ucast v], 1)
             else if v \<le> 0xFFFF then (0xFD # copy_slice (drop 1 buf) (put_le 2 (ucast v :: u16)), 3)
             else if v \<le> 0xFFFFFFFF then (0xFE # copy_slice (drop 1 buf) (put_le 4 (ucast v :: u32)), 5)
             else (0xFF # copy_slice (drop 1 buf) (put_le 8 v), 9))
      in Buffer_Write (take n b) w)"

definition io_WriteVarBytes :: "bytes \<Rightarrow> io_wr" where
  "io_WriteVarBytes v w = bind_res (io_WriteVarUint (of_nat (length v)) w) (\<lambda>w'. Buffer_Write v w')"

definition io_WriteString :: "bytes \<Rightarrow> io_wr" where
  "io_WriteString v w = io_WriteVarBytes v w"

definition io_WriteUint8 :: "u8 \<Rightarrow> io_wr" where
  "io_WriteUint8 v w = Buffer_Write [v] w"

definition io_WriteUint16 :: "u16 \<Rightarrow> io_wr" where
  "io_WriteUint16 v w = Buffer_Write (put_le 2 v) w"

definition io_WriteUint32 :: "u32 \<Rightarrow> io_wr" where
  "io_WriteUint32 v w = Buffer_Write (put_le 4 v) w"

definition io_WriteUint64 :: "u64 \<Rightarrow> io_wr" where
  "io_WriteUint64 v w = Buffer_Write (put_le 8 v) w"

text \<open>\<open>binary.Write\<close> of a bool is the byte 1 or 0.\<close>

definition io_WriteBool :: "bool \<Rightarrow> io_wr" where
  "io_WriteBool v w = Buffer_Write [if v then 1 else 0] w"

definition io_WriteByte :: "byte \<Rightarrow> io_wr" where
  "io_WriteByte v w = Buffer_Write [v] w"

definition io_GetVarUintSize :: "u64 \<Rightarrow> nat" where
  "io_GetVarUintSize v = (if v < 0xfd then 1 else if v \<le> 0xffff then 3 else if v \<le> 0xFFFFFFFF then 5 else 9)"

section \<open>Readers\<close>

definition io_ReadVarUint :: "u64 \<Rightarrow> u64 io_rd" where
  "io_ReadVarUint maxint0 r =
     (let maxint = (if maxint0 = 0 then MAX_UINT64 else maxint0)
      in bind_res (ReadFull 1 r) (\<lambda>(fb, r1).
         bind_res
           (if hd fb = 0xfd then bind_res (ReadFull 2 r1) (\<lambda>(p, r2). Ok (ucast (get_le p :: u16), r2))
            else if hd fb = 0xfe then bind_res (ReadFull 4 r1) (\<lambda>(p, r2). Ok (ucast (get_le p :: u32), r2))
            else if hd fb = 0xff then bind_res (ReadFull 8 r1) (\<lambda>(p, r2). Ok (get_le p, r2))
            else Ok (ucast (hd fb), r1))
           (\<lambda>(v, r2). if v > maxint then Err ErrRange else Ok (v, r2))))"

text \<open>
  \<open>io.LimitReader\<close> with a limit \<open>int64(x)\<close> that is not positive reads nothing, so a length from \<open>2^63\<close>
  on is an end of input.
\<close>

definition byteXReader :: "u64 \<Rightarrow> bytes io_rd" where
  "byteXReader x r =
     (if x = 0 then Ok ([], r)
      else if x < 2 * 1024 * 1024 then ReadFull (unat x) r
      else
        (let limit = sint x; n = min (length r) (nat limit)
         in if int n = limit then Ok (take n r, drop n r) else Err ErrEof))"

definition io_ReadVarBytes :: "bytes io_rd" where
  "io_ReadVarBytes r = bind_res (io_ReadVarUint 0 r) (\<lambda>(v, r1). byteXReader v r1)"

definition io_ReadString :: "bytes io_rd" where
  "io_ReadString r = io_ReadVarBytes r"

definition io_ReadBytes :: "u64 \<Rightarrow> bytes io_rd" where
  "io_ReadBytes n r = byteXReader n r"

text \<open>A read of fixed size replaces the error of \<open>io.ReadFull\<close>.\<close>

definition or_ErrEof :: "'a res \<Rightarrow> 'a res" where
  "or_ErrEof m = (case m of Err _ \<Rightarrow> Err ErrEof | _ \<Rightarrow> m)"

definition io_ReadUint8 :: "u8 io_rd" where
  "io_ReadUint8 r = bind_res (or_ErrEof (ReadFull 1 r)) (\<lambda>(p, r'). Ok (hd p, r'))"

definition io_ReadUint16 :: "u16 io_rd" where
  "io_ReadUint16 r = bind_res (or_ErrEof (ReadFull 2 r)) (\<lambda>(p, r'). Ok (get_le p, r'))"

definition io_ReadUint32 :: "u32 io_rd" where
  "io_ReadUint32 r = bind_res (or_ErrEof (ReadFull 4 r)) (\<lambda>(p, r'). Ok (get_le p, r'))"

definition io_ReadUint64 :: "u64 io_rd" where
  "io_ReadUint64 r = bind_res (or_ErrEof (ReadFull 8 r)) (\<lambda>(p, r'). Ok (get_le p, r'))"

definition io_ReadBool :: "bool io_rd" where
  "io_ReadBool r = bind_res (ReadFull 1 r) (\<lambda>(p, r'). Ok (hd p \<noteq> 0, r'))"

definition io_ReadByte :: "byte io_rd" where
  "io_ReadByte r = bind_res (byteXReader 1 r) (\<lambda>(b, r'). Ok (hd b, r'))"

section \<open>What they read and write\<close>

lemma ReadFull_prefix [simp]: "ReadFull (length p) (p @ r) = Ok (p, r)"
  by (simp add: ReadFull_def)

lemma ReadFull_within: "length p = n \<Longrightarrow> ReadFull n (p @ r) = Ok (p, r)"
  using ReadFull_prefix by blast

lemma ReadFull_one [simp]: "ReadFull (Suc 0) (b # r) = Ok ([b], r)"
  using ReadFull_prefix [of "[b]" r] by simp

lemma io_WriteVarUint_spec: "io_WriteVarUint v w = Ok (w @ varuint_enc v)"
  by (simp add: io_WriteVarUint_def varuint_enc_def Buffer_Write_def copy_slice_prefix take_Suc_conv_app_nth)

lemma io_WriteVarBytes_spec: "io_WriteVarBytes b w = Ok (w @ varbytes_enc b)"
  by (simp add: io_WriteVarBytes_def io_WriteVarUint_spec varbytes_enc_def Buffer_Write_def)

lemma io_ReadVarUint_spec:
  "io_ReadVarUint m (varuint_enc v @ r) = (if m \<noteq> 0 \<and> m < v then Err ErrRange else Ok (v, r))"
proof -
  have max: "\<not> MAX_UINT64 < v"
    by (simp add: MAX_UINT64_def not_less word_order.extremum)
  consider "v < 0xFD" | "\<not> v < 0xFD" "v \<le> 0xFFFF" | "\<not> v < 0xFD" "\<not> v \<le> 0xFFFF" "v \<le> 0xFFFFFFFF"
    | "\<not> v < 0xFD" "\<not> v \<le> 0xFFFF" "\<not> v \<le> 0xFFFFFFFF"
    by blast
  then show ?thesis
  proof cases
    case 1
    then have "ucast v \<noteq> (0xFD :: byte)" "ucast v \<noteq> (0xFE :: byte)" "ucast v \<noteq> (0xFF :: byte)" "ucast (ucast v :: byte) = v"
      by (simp_all add: varuint_tag ucast_small word_less_nat_alt)
    with 1 max show ?thesis
      by (auto simp: io_ReadVarUint_def varuint_enc_def Let_def)
  qed (use max in \<open>auto simp: io_ReadVarUint_def varuint_enc_def Let_def ReadFull_within ucast_small\<close>)
qed

lemma byteXReader_prefix:
  assumes "length b < 2 ^ 63"
  shows "byteXReader (of_nat (length b)) (b @ r) = Ok (b, r)"
proof -
  have u: "unat (of_nat (length b) :: u64) = length b"
    using assms by (intro of_nat_less_u64) simp
  then have "(of_nat (length b) :: u64) < 0x8000000000000000"
    using assms by (simp add: word_less_nat_alt)
  then have "sint (of_nat (length b) :: u64) = int (length b)"
    using u by (simp add: sint_small uint_nat)
  then show ?thesis
    using u by (auto simp: byteXReader_def Let_def word_unat_eq_iff)
qed

lemma io_ReadVarBytes_prefix: "length b < 2 ^ 63 \<Longrightarrow> io_ReadVarBytes (varbytes_enc b @ r) = Ok (b, r)"
  using byteXReader_prefix [of b r] by (simp add: io_ReadVarBytes_def varbytes_enc_def io_ReadVarUint_spec)

lemma NextVarBytes_inv:
  assumes wf: "wf_src s" and n: "NextVarBytes s = Ok ((b, n, False, False), s')"
  shows "rest s = varbytes_enc b @ rest s' \<and> length b \<le> maxInt"
proof -
  obtain v k s1 where v: "NextVarUint s = Ok ((v, k, False, False), s1)"
    and b: "if v > 0 then NextBytes v s1 = Ok ((b, False), s') else b = [] \<and> s' = s1"
    using n reader.total [OF reader_NextVarUint wf]
    by (auto simp: NextVarBytes_def bind_res_Ok_iff NextVarUint_def word_gt_0 split: if_splits)
  have s1: "rest s = varuint_enc v @ rest s1" "wf_src s1"
    using NextVarUint_inv [OF wf v] by auto
  have "rest s1 = b @ rest s' \<and> v = of_nat (length b)"
    using b NextBytes_inv [OF s1(2), of v b s'] by (cases "v = 0") (auto simp: word_gt_0)
  moreover have "length (rest s) \<le> maxInt"
    using wf by (simp add: wf_src_def length_rest) linarith
  ultimately show ?thesis
    using s1 by (simp add: varbytes_enc_def)
qed

section \<open>The writers of the two codecs\<close>

text \<open>A sink writer and a stream writer, started on the same bytes, both succeed and leave the same bytes.\<close>

definition same_bytes :: "ZeroCopySink res \<Rightarrow> bytes res \<Rightarrow> bool" where
  "same_bytes r w \<longleftrightarrow> (\<exists>sink. r = Ok sink \<and> w = Ok (snk_Bytes sink))"

lemma same_bytesI:
  assumes "writer wr enc" "\<And>w. io w = Ok (w @ enc)" "sink_ok sink" "length (snk_Bytes sink) + length enc + 8 \<le> sink_max"
  shows "same_bytes (wr sink) (io (snk_Bytes sink))"
  using writer.appends [OF assms(1,3)] assms(2,4) by (auto simp: same_bytes_def snk_Bytes_def)

lemma length_varuint_enc_le: "length (varuint_enc v) \<le> 9"
  by (simp add: varuint_enc_def)

lemma same_fixed:
  assumes "sink_ok sink" "length (snk_Bytes sink) + 17 \<le> sink_max"
  shows "same_bytes (WriteUint8 a sink) (io_WriteUint8 a (snk_Bytes sink))"
    and "same_bytes (WriteByte a sink) (io_WriteByte a (snk_Bytes sink))"
    and "same_bytes (WriteBool d sink) (io_WriteBool d (snk_Bytes sink))"
    and "same_bytes (WriteUint16 x sink) (io_WriteUint16 x (snk_Bytes sink))"
    and "same_bytes (WriteUint32 y sink) (io_WriteUint32 y (snk_Bytes sink))"
    and "same_bytes (WriteUint64 z sink) (io_WriteUint64 z (snk_Bytes sink))"
proof -
  note io = io_WriteUint8_def io_WriteByte_def io_WriteBool_def io_WriteUint16_def io_WriteUint32_def io_WriteUint64_def
    Buffer_Write_def
  show "same_bytes (WriteUint8 a sink) (io_WriteUint8 a (snk_Bytes sink))" for a
    using assms by (intro same_bytesI [OF writer_WriteUint(1)]) (simp_all add: io)
  from this [of a] this [of 1] this [of 0] show "same_bytes (WriteByte a sink) (io_WriteByte a (snk_Bytes sink))"
    "same_bytes (WriteBool d sink) (io_WriteBool d (snk_Bytes sink))"
    by (simp_all add: WriteByte_def WriteBool_def io)
  show "same_bytes (WriteUint16 x sink) (io_WriteUint16 x (snk_Bytes sink))"
    using assms by (intro same_bytesI [OF writer_WriteUint(2)]) (simp_all add: io)
  show "same_bytes (WriteUint32 y sink) (io_WriteUint32 y (snk_Bytes sink))"
    using assms by (intro same_bytesI [OF writer_WriteUint(3)]) (simp_all add: io)
  show "same_bytes (WriteUint64 z sink) (io_WriteUint64 z (snk_Bytes sink))"
    using assms by (intro same_bytesI [OF writer_WriteUint(4)]) (simp_all add: io)
qed

lemma same_variable:
  assumes "sink_ok sink" "length (snk_Bytes sink) + length b + 17 \<le> sink_max"
  shows "same_bytes (bind_res (WriteVarUint v sink) (\<lambda>(_, sink'). Ok sink')) (io_WriteVarUint v (snk_Bytes sink))"
    and "same_bytes (bind_res (WriteVarBytes b sink) (\<lambda>(_, sink'). Ok sink')) (io_WriteVarBytes b (snk_Bytes sink))"
    and "same_bytes (bind_res (WriteString b sink) (\<lambda>(_, sink'). Ok sink')) (io_WriteString b (snk_Bytes sink))"
proof -
  note le = length_varuint_enc_le [of "of_nat (length b)"]
  show "same_bytes (bind_res (WriteVarUint v sink) (\<lambda>(_, sink'). Ok sink')) (io_WriteVarUint v (snk_Bytes sink))"
    using WriteVarUint_appends [OF assms(1), of v] assms(2) by (auto simp: same_bytes_def snk_Bytes_def io_WriteVarUint_spec)
  show "same_bytes (bind_res (WriteVarBytes b sink) (\<lambda>(_, sink'). Ok sink')) (io_WriteVarBytes b (snk_Bytes sink))"
    using assms le by (intro same_bytesI [OF writer_WriteVarBytes]) (simp_all add: io_WriteVarBytes_spec varbytes_enc_def)
  then show "same_bytes (bind_res (WriteString b sink) (\<lambda>(_, sink'). Ok sink')) (io_WriteString b (snk_Bytes sink))"
    by (simp add: WriteString_def io_WriteString_def)
qed

section \<open>Properties\<close>

text \<open>
  C40. The stream codec and the zero-copy codec agree. Started on the same bytes, each writer of the sink
  (\<open>WriteVarBytes\<close>, \<open>WriteString\<close>, \<open>WriteVarUint\<close>, \<open>WriteUint8\<close> to \<open>WriteUint64\<close>, \<open>WriteByte\<close>, \<open>WriteBool\<close>) and the stream
  writer of that name succeed and leave the same bytes, as long as the sink stays below its size limit. What the
  zero-copy reader \<open>NextVarBytes\<close> reads without an end of input and without irregularity, the stream reader reads as
  well, with the same bytes and the same rest, and writing it again gives exactly the bytes consumed; and
  \<open>ReadVarUint\<close> returns every value written unless it exceeds the maximum the caller gave.
\<close>

theorem stream_codec_agrees:
  assumes "wf_src s" "NextVarBytes s = Ok ((b, n, False, False), s')"
    and "sink_ok sink" "length (snk_Bytes sink) + length c + 17 \<le> sink_max"
  shows "io_ReadVarBytes (rest s) = Ok (b, rest s')
    \<and> (\<exists>w. io_WriteVarBytes b [] = Ok w \<and> rest s = w @ rest s')
    \<and> io_WriteVarUint v [] = Ok (varuint_enc v)
    \<and> io_ReadVarUint m (varuint_enc v @ r) = (if m \<noteq> 0 \<and> m < v then Err ErrRange else Ok (v, r))
    \<and> same_bytes (bind_res (WriteVarBytes c sink) (\<lambda>(_, sink'). Ok sink')) (io_WriteVarBytes c (snk_Bytes sink))
    \<and> same_bytes (bind_res (WriteString c sink) (\<lambda>(_, sink'). Ok sink')) (io_WriteString c (snk_Bytes sink))
    \<and> same_bytes (bind_res (WriteVarUint v sink) (\<lambda>(_, sink'). Ok sink')) (io_WriteVarUint v (snk_Bytes sink))
    \<and> same_bytes (WriteUint8 a sink) (io_WriteUint8 a (snk_Bytes sink))
    \<and> same_bytes (WriteByte a sink) (io_WriteByte a (snk_Bytes sink))
    \<and> same_bytes (WriteBool d sink) (io_WriteBool d (snk_Bytes sink))
    \<and> same_bytes (WriteUint16 x sink) (io_WriteUint16 x (snk_Bytes sink))
    \<and> same_bytes (WriteUint32 y sink) (io_WriteUint32 y (snk_Bytes sink))
    \<and> same_bytes (WriteUint64 v sink) (io_WriteUint64 v (snk_Bytes sink))"
proof -
  have "rest s = varbytes_enc b @ rest s'" "length b < 2 ^ 63"
    using NextVarBytes_inv [OF assms(1,2)] by (simp_all add: maxInt_def)
  moreover have "length (snk_Bytes sink) + 17 \<le> sink_max"
    using assms(4) by simp
  ultimately show ?thesis
    using io_ReadVarBytes_prefix [of b "rest s'"] same_variable [OF assms(3,4)] same_fixed [OF assms(3)]
    by (simp add: io_WriteVarBytes_spec io_WriteVarUint_spec io_ReadVarUint_spec)
qed

theorem stream_codec_agrees_witness:
  "wf_src (NewZeroCopySource [2, 7, 8, 9])
   \<and> NextVarBytes (NewZeroCopySource [2, 7, 8, 9]) = Ok (([7, 8], 3, False, False), advance 3 (NewZeroCopySource [2, 7, 8, 9]))
   \<and> io_ReadVarBytes (rest (NewZeroCopySource [2, 7, 8, 9])) = Ok ([7, 8], rest (advance 3 (NewZeroCopySource [2, 7, 8, 9])))
   \<and> sink_ok NewZeroCopySink
   \<and> same_bytes (bind_res (WriteVarBytes [7, 8] NewZeroCopySink) (\<lambda>(_, sink'). Ok sink')) (Ok [2, 7, 8])"
proof -
  let ?s = "NewZeroCopySource [2, 7, 8, 9]"
  have wf: "wf_src ?s"
    by (simp add: maxInt_def)
  have e: "rest ?s = varbytes_enc [7, 8] @ [9]" and l: "length (varbytes_enc [7, 8]) = 3"
    by (simp_all add: varbytes_enc_def varuint_enc_def)
  have n: "NextVarBytes ?s = Ok (([7, 8], 3, False, False), advance 3 ?s)"
    using NextVarBytes_prefix [OF wf e] l by (simp add: getVarUintSize_def)
  have k: "length (snk_Bytes NewZeroCopySink) + length [7 :: byte, 8] + 17 \<le> sink_max"
    by (simp add: snk_Bytes_def sink_max_def)
  have "io_WriteVarBytes [7, 8] (snk_Bytes NewZeroCopySink) = Ok [2, 7, 8]"
    by (simp add: io_WriteVarBytes_spec varbytes_enc_def varuint_enc_def snk_Bytes_def)
  with stream_codec_agrees [OF wf n sink_ok_new(1) k] wf n show ?thesis
    by simp
qed

end
