(* ===== verification/SmartContract.thy ===== *)
theory SmartContract
  imports CacheDB Serialization MerklePath
begin

text \<open>
  The execution of contracts: the stack of contexts, the witness check, the gas and step counters of
  \<open>src/smartcontract/smart_contract.go\<close>, and the native service of
  \<open>src/smartcontract/service/native/native_service.go\<close>, which looks up the handler of a native contract and
  runs it in a context of its own.

  A Go string is its bytes. A handler is a value of a type of names, run by a function that is an argument of
  \<open>Invoke\<close>. The cache the service and the engine share is kept in the service; the signature addresses of the
  transaction are computed on each use, where the code keeps the list it computed first. When a call fails
  the state is dropped with the cache of the execution, so an error carries no state.
\<close>

definition str :: "string \<Rightarrow> bytes" where
  "str s = map of_char s"

lemma unat_of_char: "unat (of_char c :: byte) = of_char c"
proof -
  have "unat (of_nat (of_char c :: nat) :: byte) = of_char c"
    using nat_of_char_less_256 [of c] by (simp add: unat_of_nat del: of_nat_of_char)
  then show ?thesis
    by (simp only: of_nat_of_char)
qed

lemma str_inj [simp]: "str a = str b \<longleftrightarrow> a = b"
proof -
  have "inj (of_char :: char \<Rightarrow> byte)"
    by (rule injI) (metis unat_of_char of_char_eqI)
  then show ?thesis
    by (simp add: str_def inj_map_eq_map)
qed

section \<open>errors.go\<close>

text \<open>\<open>NewDetailErr\<close> of a nil error is nil; of another it puts a text before the error's.\<close>

definition NewDetailErr :: "err option \<Rightarrow> string \<Rightarrow> err option" where
  "NewDetailErr e msg =
     (case e of None \<Rightarrow> None | Some m \<Rightarrow> Some (if msg \<noteq> [] then msg @ '': '' @ m else m))"

definition detail :: "string \<Rightarrow> 'a res \<Rightarrow> 'a res" where
  "detail msg m = (case m of Err e \<Rightarrow> Err (the (NewDetailErr (Some e) msg)) | _ \<Rightarrow> m)"

section \<open>The engine\<close>

record Context =
  ContractAddress :: Address
  ctx_Code :: bytes

text \<open>The states of a notification, a slice of \<open>interface{}\<close>: the native contracts put strings and numbers there.\<close>

datatype iface = IString bytes | IUint64 u64

record NotifyEventInfo =
  ev_ContractAddress :: Address
  ev_States :: "iface list"

text \<open>Of the transaction, what the witness check reads: the verification scripts and the known signers.\<close>

record Transaction_sigs =
  tx_Verify :: "bytes list"
  SignedAddr :: "Address list"

record SmartContract =
  Contexts :: "Context list"
  sc_Time :: u32
  sc_Height :: u32
  sc_BlockHash :: Uint256
  sc_Tx :: Transaction_sigs
  sc_Notifications :: "NotifyEventInfo list"
  Gas :: u64
  ExecStep :: nat
  sc_PreExec :: bool
  internelErr :: bool
  sc_CrossHashes :: "Uint256 list"

definition PushContext :: "Context \<Rightarrow> SmartContract \<Rightarrow> SmartContract" where
  "PushContext c this = this\<lparr>Contexts := Contexts this @ [c]\<rparr>"

definition CurrentContext :: "SmartContract \<Rightarrow> Context option" where
  "CurrentContext this = (if length (Contexts this) < 1 then None else Some (Contexts this ! (length (Contexts this) - 1)))"

definition CallingContext :: "SmartContract \<Rightarrow> Context option" where
  "CallingContext this = (if length (Contexts this) < 2 then None else Some (Contexts this ! (length (Contexts this) - 2)))"

definition EntryContext :: "SmartContract \<Rightarrow> Context option" where
  "EntryContext this = (if length (Contexts this) < 1 then None else Some (Contexts this ! 0))"

definition PopContext :: "SmartContract \<Rightarrow> SmartContract" where
  "PopContext this =
     (if length (Contexts this) > 1 then this\<lparr>Contexts := take (length (Contexts this) - 1) (Contexts this)\<rparr> else this)"

definition PushNotifications :: "NotifyEventInfo list \<Rightarrow> SmartContract \<Rightarrow> SmartContract" where
  "PushNotifications ns this = this\<lparr>sc_Notifications := sc_Notifications this @ ns\<rparr>"

definition VM_STEP_LIMIT :: nat where
  "VM_STEP_LIMIT = 400000"

definition CheckExecStep :: "SmartContract \<Rightarrow> bool \<times> SmartContract" where
  "CheckExecStep this =
     (if ExecStep this \<ge> VM_STEP_LIMIT then (False, this) else (True, this\<lparr>ExecStep := ExecStep this + 1\<rparr>))"

definition CheckUseGas :: "u64 \<Rightarrow> SmartContract \<Rightarrow> bool \<times> SmartContract" where
  "CheckUseGas gas this = (if Gas this < gas then (False, this) else (True, this\<lparr>Gas := Gas this - gas\<rparr>))"

definition PutCrossStateHashes :: "Uint256 list \<Rightarrow> SmartContract \<Rightarrow> SmartContract" where
  "PutCrossStateHashes hashes this = this\<lparr>sc_CrossHashes := sc_CrossHashes this @ hashes\<rparr>"

definition MAX_EXECUTE_ENGINE :: nat where
  "MAX_EXECUTE_ENGINE = 128"

definition checkContexts :: "SmartContract \<Rightarrow> bool" where
  "checkContexts this = (if length (Contexts this) > MAX_EXECUTE_ENGINE then False else True)"

definition GetSignatureAddresses :: "(bytes \<Rightarrow> bytes) \<Rightarrow> Transaction_sigs \<Rightarrow> Address list" where
  "GetSignatureAddresses ripemd160 tx =
     (if length (SignedAddr tx) = 0 then map (AddressFromVmCode ripemd160) (tx_Verify tx) else SignedAddr tx)"

definition checkAccountAddress :: "(bytes \<Rightarrow> bytes) \<Rightarrow> Address \<Rightarrow> SmartContract \<Rightarrow> bool" where
  "checkAccountAddress ripemd160 address this = list_ex (\<lambda>v. v = address) (GetSignatureAddresses ripemd160 (sc_Tx this))"

definition checkContractAddress :: "Address \<Rightarrow> SmartContract \<Rightarrow> bool" where
  "checkContractAddress address this =
     (case CallingContext this of None \<Rightarrow> False | Some c \<Rightarrow> ContractAddress c = address)"

definition CheckWitness :: "(bytes \<Rightarrow> bytes) \<Rightarrow> Address \<Rightarrow> SmartContract \<Rightarrow> bool" where
  "CheckWitness ripemd160 address this \<longleftrightarrow> checkAccountAddress ripemd160 address this \<or> checkContractAddress address this"

definition GetCallerAddress :: "SmartContract \<Rightarrow> Address list" where
  "GetCallerAddress this = map ContractAddress (Contexts this)"

definition SetInternalErr :: "SmartContract \<Rightarrow> SmartContract" where
  "SetInternalErr this = this\<lparr>internelErr := True\<rparr>"

definition IsInternalErr :: "SmartContract \<Rightarrow> bool" where
  "IsInternalErr this = internelErr this"

section \<open>The parameters of a call\<close>

record ContractInvokeParam =
  cip_Version :: byte
  cip_Address :: Address
  cip_Method :: bytes
  cip_Args :: bytes

definition cip_Serialization :: "ContractInvokeParam \<Rightarrow> wr" where
  "cip_Serialization this sink =
     bind_res (WriteByte (cip_Version this) sink) (\<lambda>s1.
     bind_res (WriteAddress (cip_Address this) s1) (\<lambda>s2.
     bind_res (WriteVarBytes (cip_Method this) s2) (\<lambda>(_, s3).
     bind_res (WriteVarBytes (cip_Args this) s3) (\<lambda>(_, s4). Ok s4))))"

definition cip_Deserialization :: "ContractInvokeParam rd" where
  "cip_Deserialization source =
     bind_res (NextByte source) (\<lambda>((version, eof), s1).
     bind_res (NextAddress s1) (\<lambda>((address, eof), s2).
     bind_res (NextVarBytes s2) (\<lambda>((method, _, irregular, eof), s3).
     if irregular then Err ErrIrregularData else
     bind_res (NextVarBytes s3) (\<lambda>((args, _, irregular, eof), s4).
     if irregular then Err ErrIrregularData
     else if eof then Err ErrUnexpectedEOF
     else Ok (\<lparr>cip_Version = version, cip_Address = address, cip_Method = method, cip_Args = args\<rparr>, s4)))))"

section \<open>The native service\<close>

record ('s, 'h) NativeService =
  ns_CacheDB :: "'s CacheDB"
  ServiceMap :: "bytes \<rightharpoonup> 'h"
  ns_Notifications :: "NotifyEventInfo list"
  InvokeParam :: ContractInvokeParam
  ns_Input :: bytes
  ns_Height :: u32
  ns_Time :: u32
  ns_BlockHash :: Uint256
  ContextRef :: SmartContract
  ns_PreExec :: bool
  ns_CrossHashes :: "Uint256 list"

definition NewNativeService :: "'s CacheDB \<Rightarrow> SmartContract \<Rightarrow> ('s, 'h) NativeService res" where
  "NewNativeService cache this =
     (if \<not> checkContexts this then Err ''engine over max limit!''
      else Ok \<lparr>ns_CacheDB = cache, ServiceMap = Map.empty, ns_Notifications = [],
         InvokeParam = \<lparr>cip_Version = 0, cip_Address = ADDRESS_EMPTY, cip_Method = [], cip_Args = []\<rparr>, ns_Input = [],
         ns_Height = sc_Height this, ns_Time = sc_Time this, ns_BlockHash = sc_BlockHash this, ContextRef = this,
         ns_PreExec = sc_PreExec this, ns_CrossHashes = []\<rparr>)"

definition Register :: "bytes \<Rightarrow> 'h \<Rightarrow> ('s, 'h) NativeService \<Rightarrow> ('s, 'h) NativeService" where
  "Register methodName handler this = this\<lparr>ServiceMap := (ServiceMap this)(methodName \<mapsto> handler)\<rparr>"

text \<open>
  \<open>reg\<close> is the map \<open>Contracts\<close> of the registered contracts, \<open>run\<close> calls a handler.
\<close>

type_synonym ('s, 'h) registry = "Address \<Rightarrow> (('s, 'h) NativeService \<Rightarrow> ('s, 'h) NativeService) option"
type_synonym ('s, 'h, 'a) native = "('s, 'h) NativeService \<Rightarrow> ('a \<times> ('s, 'h) NativeService) res"

definition Invoke :: "('s, 'h) registry \<Rightarrow> ('h \<Rightarrow> ('s, 'h, bytes) native) \<Rightarrow> ('s, 'h, bytes) native" where
  "Invoke reg run this0 =
     (let contract = InvokeParam this0
      in case reg (cip_Address contract) of
           None \<Rightarrow> Err ''Native contract address haven't been registered.''
         | Some services \<Rightarrow>
             (let this = services this0
              in case ServiceMap this (cip_Method contract) of
                   None \<Rightarrow> Err ''Native contract doesn't support this function.''
                 | Some service \<Rightarrow>
                     (let args = ns_Input this; notifications = ns_Notifications this; hashes = ns_CrossHashes this;
                          this1 = this\<lparr>ns_Input := cip_Args contract,
                            ContextRef := PushContext \<lparr>ContractAddress = cip_Address contract, ctx_Code = []\<rparr> (ContextRef this),
                            ns_Notifications := [], ns_CrossHashes := []\<rparr>
                      in bind_res (detail ''[Invoke] Native serivce function execute error!'' (run service this1))
                           (\<lambda>(result, this2).
                             Ok (result, this2\<lparr>
                               ContextRef := PutCrossStateHashes (ns_CrossHashes this2)
                                 (PushNotifications (ns_Notifications this2) (PopContext (ContextRef this2))),
                               ns_Notifications := notifications, ns_Input := args, ns_CrossHashes := hashes\<rparr>)))))"

definition NativeCall ::
  "('s, 'h) registry \<Rightarrow> ('h \<Rightarrow> ('s, 'h, bytes) native) \<Rightarrow> Address \<Rightarrow> bytes \<Rightarrow> bytes \<Rightarrow> ('s, 'h, bytes) native" where
  "NativeCall reg run address method args this =
     Invoke reg run
       (this\<lparr>InvokeParam := \<lparr>cip_Version = 0, cip_Address = address, cip_Method = method, cip_Args = args\<rparr>\<rparr>)"

definition PushCrossState :: "bytes \<Rightarrow> ('s, 'h) NativeService \<Rightarrow> ('s, 'h) NativeService" where
  "PushCrossState data this = this\<lparr>ns_CrossHashes := ns_CrossHashes this @ [HashLeaf data]\<rparr>"

section \<open>Contexts\<close>

lemma CurrentContext_push [simp]: "CurrentContext (PushContext c this) = Some c"
  by (simp add: CurrentContext_def PushContext_def)

lemma CallingContext_push [simp]: "CallingContext (PushContext c this) = CurrentContext this"
  by (auto simp: CallingContext_def CurrentContext_def PushContext_def nth_append)

lemma PopContext_push [simp]: "Contexts this \<noteq> [] \<Longrightarrow> PopContext (PushContext c this) = this"
  by (simp add: PopContext_def PushContext_def)

lemma Contexts_simps [simp]:
  "Contexts (PushNotifications ns this) = Contexts this"
  "Contexts (PutCrossStateHashes hs this) = Contexts this"
  "sc_Tx (PushNotifications ns this) = sc_Tx this"
  "sc_Tx (PutCrossStateHashes hs this) = sc_Tx this"
  "sc_Tx (PushContext c this) = sc_Tx this"
  "sc_Tx (PopContext this) = sc_Tx this"
  by (simp_all add: PushNotifications_def PutCrossStateHashes_def PushContext_def PopContext_def)

lemma CheckWitness_cong:
  "Contexts a = Contexts b \<Longrightarrow> sc_Tx a = sc_Tx b \<Longrightarrow> CheckWitness ripemd160 x a = CheckWitness ripemd160 x b"
  by (simp add: CheckWitness_def checkAccountAddress_def checkContractAddress_def CallingContext_def)

lemma CheckWitness_push:
  "CheckWitness ripemd160 x (PushContext c this)
     \<longleftrightarrow> checkAccountAddress ripemd160 x this \<or> (\<exists>d. CurrentContext this = Some d \<and> ContractAddress d = x)"
  by (auto simp: CheckWitness_def checkAccountAddress_def checkContractAddress_def split: option.split)

section \<open>The parameters' codec\<close>

definition cip_enc :: "ContractInvokeParam \<Rightarrow> bytes" where
  "cip_enc p = cip_Version p # cip_Address p @ varbytes_enc (cip_Method p) @ varbytes_enc (cip_Args p)"

interpretation invoke_param: serializable cip_Serialization cip_Deserialization cip_enc "\<lambda>p. length (cip_Address p) = 20"
proof (rule serializable.intro)
  fix p :: ContractInvokeParam
  assume p: "length (cip_Address p) = 20"
  have "writer (WriteAddress (cip_Address p)) (cip_Address p)"
    using writer_WriteBytes by (simp add: WriteAddress_def [abs_def])
  note w = writer_bind [OF writer_WriteUint(1) writer_bind [OF this writer_bind [OF writer_WriteVarBytes writer_WriteVarBytes]]]
  show "writer (cip_Serialization p) (cip_enc p)"
    using w [of "cip_Version p" "cip_Method p" "cip_Args p"]
    by (simp add: cip_Serialization_def [abs_def] cip_enc_def WriteByte_def bind_res_assoc bind_split case_prod_unfold)
  fix s r
  assume wf: "wf_src s" and s: "rest s = cip_enc p @ r"
  have s1: "NextByte s = Ok ((cip_Version p, False), advance 1 s)"
    using NextByte_within [OF wf] s by (simp add: cip_enc_def)
  have wf1: "wf_src (advance 1 s)"
    and r1: "rest (advance 1 s) = cip_Address p @ varbytes_enc (cip_Method p) @ varbytes_enc (cip_Args p) @ r"
    using advance_prefix [OF wf, of "[cip_Version p]"] s by (simp_all add: cip_enc_def)
  note s2 = NextFixed_prefix [OF wf1 r1 p] advance_prefix [OF wf1 r1]
  note s3 = NextVarBytes_prefix [OF s2(2,3)] advance_prefix [OF s2(2,3)]
  note s4 = NextVarBytes_prefix [OF s3(2,3)]
  show "cip_Deserialization s = Ok (p, advance (length (cip_enc p)) s)"
    using s1 s2(1) s3(1) s4 p by (simp add: cip_Deserialization_def NextAddress_def cip_enc_def advance_advance add_ac)
qed

end
