(* ===== verification/NativeUtils.thy ===== *)
theory NativeUtils
  imports SmartContract
begin

text \<open>
  What the native contracts share, \<open>src/smartcontract/service/native/utils\<close>: the numbers and byte strings in
  storage (\<open>store.go\<close>), keys and owners (\<open>operation.go\<close>) and the addresses of the contracts (\<open>params.go\<close>).

  A service shows its clients a map from storage keys to bytes, \<open>ns_shows PS ns f\<close>; a read returns what the
  stored bytes decode to, a write changes the map at its key. The persistent store below is the argument \<open>PS\<close>.
\<close>

section \<open>store.go\<close>

definition GetStorageItem :: "('s, 'i) PersistStore \<Rightarrow> bytes \<Rightarrow> ('s, 'h, StorageItem option) native" where
  "GetStorageItem PS key native =
     bind_res (c_Get PS key (ns_CacheDB native)) (\<lambda>((store, e), db).
       case e of
         Some x \<Rightarrow> Err (the (NewDetailErr (Some ''storage'') ''[GetStorageItem] storage error!''))
       | None \<Rightarrow>
           (let native' = native\<lparr>ns_CacheDB := db\<rparr>
            in case store of
                 None \<Rightarrow> Ok (None, native')
               | Some b \<Rightarrow>
                   bind_res (detail ''[GetStorageItem] instance doesn't StorageItem!''
                       (StorageItem_Deserialization (NewZeroCopySource b)))
                     (\<lambda>(item, _). Ok (Some item, native'))))"

definition GetStorageUInt64 :: "('s, 'i) PersistStore \<Rightarrow> bytes \<Rightarrow> ('s, 'h, u64) native" where
  "GetStorageUInt64 PS key native =
     bind_res (GetStorageItem PS key native) (\<lambda>(item, native').
       case item of
         None \<Rightarrow> Ok (0, native')
       | Some it \<Rightarrow> bind_res (io_ReadUint64 (item_Value it)) (\<lambda>(v, _). Ok (v, native')))"

definition GetStorageUInt32 :: "('s, 'i) PersistStore \<Rightarrow> bytes \<Rightarrow> ('s, 'h, u32) native" where
  "GetStorageUInt32 PS key native =
     bind_res (GetStorageItem PS key native) (\<lambda>(item, native').
       case item of
         None \<Rightarrow> Ok (0, native')
       | Some it \<Rightarrow> bind_res (io_ReadUint32 (item_Value it)) (\<lambda>(v, _). Ok (v, native')))"

definition GenUInt64StorageItem :: "u64 \<Rightarrow> StorageItem res" where
  "GenUInt64StorageItem v =
     bind_res (WriteUint64 v NewZeroCopySink) (\<lambda>sink. Ok \<lparr>StateVersion = 0, item_Value = snk_Bytes sink\<rparr>)"

definition GenUInt32StorageItem :: "u32 \<Rightarrow> StorageItem res" where
  "GenUInt32StorageItem v = bind_res (io_WriteUint32 v []) (\<lambda>bf. Ok \<lparr>StateVersion = 0, item_Value = bf\<rparr>)"

definition PutBytes :: "bytes \<Rightarrow> bytes \<Rightarrow> ('s, 'h, unit) native" where
  "PutBytes key val native =
     bind_res (GenRawStorageItem val) (\<lambda>raw.
     bind_res (c_Put key raw (ns_CacheDB native)) (\<lambda>db. Ok ((), native\<lparr>ns_CacheDB := db\<rparr>)))"

definition GetStorageVarBytes :: "('s, 'i) PersistStore \<Rightarrow> bytes \<Rightarrow> ('s, 'h, bytes) native" where
  "GetStorageVarBytes PS key native =
     bind_res (GetStorageItem PS key native) (\<lambda>(item, native').
       case item of
         None \<Rightarrow> Ok ([], native')
       | Some it \<Rightarrow> bind_res (io_ReadVarBytes (item_Value it)) (\<lambda>(v, _). Ok (v, native')))"

definition GenVarBytesStorageItem :: "bytes \<Rightarrow> StorageItem res" where
  "GenVarBytesStorageItem v = bind_res (io_WriteVarBytes v []) (\<lambda>bf. Ok \<lparr>StateVersion = 0, item_Value = bf\<rparr>)"

text \<open>\<open>native.CacheDB.Put(key, item.ToArray())\<close> and \<open>native.CacheDB.Delete(key)\<close>, as the contracts write them.\<close>

definition put_item :: "bytes \<Rightarrow> StorageItem res \<Rightarrow> ('s, 'h, unit) native" where
  "put_item key item native =
     bind_res item (\<lambda>it. bind_res (StorageItem_ToArray it) (\<lambda>raw.
     bind_res (c_Put key raw (ns_CacheDB native)) (\<lambda>db. Ok ((), native\<lparr>ns_CacheDB := db\<rparr>))))"

definition delete_item :: "bytes \<Rightarrow> ('s, 'h, unit) native" where
  "delete_item key native = bind_res (c_Delete key (ns_CacheDB native)) (\<lambda>db. Ok ((), native\<lparr>ns_CacheDB := db\<rparr>))"

section \<open>operation.go\<close>

definition ConcatKey :: "Address \<Rightarrow> bytes list \<Rightarrow> bytes" where
  "ConcatKey contract args = fold (\<lambda>arg temp. temp @ arg) args contract"

definition ConcatBytes :: "bytes list \<Rightarrow> bytes" where
  "ConcatBytes args = fold (\<lambda>arg temp. temp @ arg) args []"

definition ValidateOwner :: "(bytes \<Rightarrow> bytes) \<Rightarrow> Address \<Rightarrow> ('s, 'h, unit) native" where
  "ValidateOwner ripemd160 address native =
     (if CheckWitness ripemd160 address (ContextRef native) = False then Err ''validateOwner, authentication failed!''
      else Ok ((), native))"

definition GetUint32Bytes :: "u32 \<Rightarrow> bytes res" where
  "GetUint32Bytes num = detail ''serialization.WriteUint32, serialize uint32 error'' (io_WriteUint32 num [])"

definition GetBytesUint32 :: "bytes \<Rightarrow> u32 res" where
  "GetBytesUint32 b =
     bind_res (detail ''serialization.ReadUint32, deserialize uint32 error'' (io_ReadUint32 b)) (\<lambda>(num, _). Ok num)"

definition GetUint64Bytes :: "u64 \<Rightarrow> bytes res" where
  "GetUint64Bytes num = detail ''serialization.WriteUint64, serialize uint64 error'' (io_WriteUint64 num [])"

definition GetBytesUint64 :: "bytes \<Rightarrow> u64 res" where
  "GetBytesUint64 b =
     bind_res (detail ''serialization.ReadUint64, deserialize uint64 error'' (io_ReadUint64 b)) (\<lambda>(num, _). Ok num)"

section \<open>params.go\<close>

definition BYTE_FALSE :: bytes where "BYTE_FALSE = [0]"
definition BYTE_TRUE :: bytes where "BYTE_TRUE = [1]"

definition native_address :: "byte \<Rightarrow> Address" where
  "native_address b = replicate 19 0 @ [b]"

definition OntContractAddress :: Address where "OntContractAddress = native_address 0x01"
definition OngContractAddress :: Address where "OngContractAddress = native_address 0x02"
definition OntIDContractAddress :: Address where "OntIDContractAddress = native_address 0x03"
definition ParamContractAddress :: Address where "ParamContractAddress = native_address 0x04"
definition AuthContractAddress :: Address where "AuthContractAddress = native_address 0x06"
definition GovernanceContractAddress :: Address where "GovernanceContractAddress = native_address 0x07"
definition HeaderSyncContractAddress :: Address where "HeaderSyncContractAddress = native_address 0x08"
definition CrossChainContractAddress :: Address where "CrossChainContractAddress = native_address 0x09"
definition LockProxyContractAddress :: Address where "LockProxyContractAddress = native_address 0x0a"

definition IsNativeContract :: "Address \<Rightarrow> bool" where
  "IsNativeContract addr \<longleftrightarrow> bytes_compare addr OntContractAddress = 0 \<or> bytes_compare addr OngContractAddress = 0
     \<or> bytes_compare addr OntIDContractAddress = 0 \<or> bytes_compare addr ParamContractAddress = 0
     \<or> bytes_compare addr AuthContractAddress = 0 \<or> bytes_compare addr GovernanceContractAddress = 0"

lemma length_contract_address [simp]: "length OntContractAddress = 20" "length OngContractAddress = 20"
  by (simp_all add: OntContractAddress_def OngContractAddress_def native_address_def)

lemma ont_not_ong [simp]: "OntContractAddress \<noteq> OngContractAddress" "OngContractAddress \<noteq> OntContractAddress"
  by (simp_all add: OntContractAddress_def OngContractAddress_def native_address_def)

section \<open>What storage shows\<close>

definition ns_shows :: "('s, 'i) PersistStore \<Rightarrow> ('s, 'h) NativeService \<Rightarrow> (bytes \<Rightarrow> bytes) \<Rightarrow> bool" where
  "ns_shows PS ns f \<longleftrightarrow> c_ok PS (ns_CacheDB ns) \<and> f = (\<lambda>k. c_view PS (ns_CacheDB ns) (ST_STORAGE # k))"

text \<open>What the bytes under a key decode to; no bytes are the number zero.\<close>

definition stored64 :: "bytes \<Rightarrow> u64 res" where
  "stored64 b =
     (if b = [] then Ok 0
      else bind_res (detail ''[GetStorageItem] instance doesn't StorageItem!'' (StorageItem_Deserialization (NewZeroCopySource b)))
        (\<lambda>(it, _). bind_res (io_ReadUint64 (item_Value it)) (\<lambda>(v, _). Ok v)))"

definition stored32 :: "bytes \<Rightarrow> u32 res" where
  "stored32 b =
     (if b = [] then Ok 0
      else bind_res (detail ''[GetStorageItem] instance doesn't StorageItem!'' (StorageItem_Deserialization (NewZeroCopySource b)))
        (\<lambda>(it, _). bind_res (io_ReadUint32 (item_Value it)) (\<lambda>(v, _). Ok v)))"

definition item64 :: "u64 \<Rightarrow> bytes" where
  "item64 v = StorageItem_enc \<lparr>StateVersion = 0, item_Value = put_le 8 v\<rparr>"

definition item32 :: "u32 \<Rightarrow> bytes" where
  "item32 v = StorageItem_enc \<lparr>StateVersion = 0, item_Value = put_le 4 v\<rparr>"

lemma item_reads:
  assumes "length val + 18 \<le> sink_max"
  shows "\<exists>s'. StorageItem_Deserialization (NewZeroCopySource (StorageItem_enc \<lparr>StateVersion = 0, item_Value = val\<rparr>))
    = Ok (\<lparr>StateVersion = 0, item_Value = val\<rparr>, s')"
proof -
  let ?it = "\<lparr>StateVersion = 0, item_Value = val\<rparr>"
  have "length (varuint_enc (of_nat (length val))) \<le> 9"
    by (simp add: varuint_enc_def)
  then have "wf_src (NewZeroCopySource (StorageItem_enc ?it))"
    using assms by (intro wf_NewZeroCopySource) (simp add: StorageItem_enc_def varbytes_enc_def maxInt_def sink_max_def)
  then show ?thesis
    using item.reads [OF TrueI, of "NewZeroCopySource (StorageItem_enc ?it)" ?it "[]"] by simp
qed

lemma stored_simps [simp]:
  "stored64 [] = Ok 0" "stored32 [] = Ok 0" "stored64 (item64 v) = Ok v" "stored32 (item32 w) = Ok w"
proof -
  show "stored64 [] = Ok 0" "stored32 [] = Ok 0"
    by (simp_all add: stored64_def stored32_def)
  obtain s s' where "StorageItem_Deserialization (NewZeroCopySource (item64 v)) = Ok (\<lparr>StateVersion = 0, item_Value = put_le 8 v\<rparr>, s)"
    "StorageItem_Deserialization (NewZeroCopySource (item32 w)) = Ok (\<lparr>StateVersion = 0, item_Value = put_le 4 w\<rparr>, s')"
    using item_reads [of "put_le 8 v"] item_reads [of "put_le 4 w"] by (auto simp: item64_def item32_def sink_max_def)
  moreover have "item64 v \<noteq> []" "item32 w \<noteq> []"
    by (simp_all add: item64_def item32_def StorageItem_enc_def)
  moreover have "io_ReadUint64 (put_le 8 v) = Ok (v, [])" "io_ReadUint32 (put_le 4 w) = Ok (w, [])"
    by (simp_all add: io_ReadUint64_def io_ReadUint32_def ReadFull_def or_ErrEof_def)
  ultimately show "stored64 (item64 v) = Ok v" "stored32 (item32 w) = Ok w"
    by (simp_all add: stored64_def stored32_def detail_def)
qed

lemma GenItem [simp]:
  "GenUInt64StorageItem v = Ok \<lparr>StateVersion = 0, item_Value = put_le 8 v\<rparr>"
  "GenUInt32StorageItem w = Ok \<lparr>StateVersion = 0, item_Value = put_le 4 w\<rparr>"
proof -
  obtain s where "WriteUint64 v NewZeroCopySink = Ok s" "snk_Bytes s = put_le 8 v"
    using writer.to_fresh_sink [OF writer_WriteUint(4), of v] by (auto simp: sink_max_def)
  then show "GenUInt64StorageItem v = Ok \<lparr>StateVersion = 0, item_Value = put_le 8 v\<rparr>"
    by (simp add: GenUInt64StorageItem_def)
qed (simp add: GenUInt32StorageItem_def io_WriteUint32_def Buffer_Write_def)

lemma ToArray_small:
  assumes "length val + 18 \<le> sink_max"
  shows "StorageItem_ToArray \<lparr>StateVersion = 0, item_Value = val\<rparr> = Ok (StorageItem_enc \<lparr>StateVersion = 0, item_Value = val\<rparr>)"
proof -
  let ?it = "\<lparr>StateVersion = 0, item_Value = val\<rparr>"
  have "length (varuint_enc (of_nat (length val))) \<le> 9"
    by (simp add: varuint_enc_def)
  then have "length (StorageItem_enc ?it) + 8 \<le> sink_max"
    using assms by (simp add: StorageItem_enc_def varbytes_enc_def sink_max_def)
  then show ?thesis
    using writer.to_fresh_sink [OF item.writes [OF TrueI], of ?it]
    by (auto simp: StorageItem_ToArray_def SerializeToBytes_def)
qed

section \<open>Reads and writes of a service\<close>

text \<open>
  The storage operations of a service only touch its cache: a read returns what the key's bytes decode to
  and leaves the map shown as it is, a write changes it at one key.
\<close>

lemma GetStorageUInt64_shows:
  assumes "ns_shows PS ns f"
  shows "\<exists>db. GetStorageUInt64 PS k ns = bind_res (stored64 (f k)) (\<lambda>v. Ok (v, ns\<lparr>ns_CacheDB := db\<rparr>))
    \<and> ns_shows PS (ns\<lparr>ns_CacheDB := db\<rparr>) f"
proof -
  obtain db where db: "c_Get PS k (ns_CacheDB ns) = Ok ((nil_if_empty (f k), None), db)" "c_ok PS db"
    "c_view PS db = c_view PS (ns_CacheDB ns)"
    using assms c_get_view [of PS "ns_CacheDB ns" ST_STORAGE k] by (auto simp: ns_shows_def c_Get_def)
  then show ?thesis
    using assms
    by (intro exI [of _ db]) (auto simp: GetStorageUInt64_def GetStorageItem_def ns_shows_def nil_if_empty_def
        stored64_def bind_res_assoc case_prod_unfold)
qed

lemma GetStorageUInt32_shows:
  assumes "ns_shows PS ns f"
  shows "\<exists>db. GetStorageUInt32 PS k ns = bind_res (stored32 (f k)) (\<lambda>v. Ok (v, ns\<lparr>ns_CacheDB := db\<rparr>))
    \<and> ns_shows PS (ns\<lparr>ns_CacheDB := db\<rparr>) f"
proof -
  obtain db where db: "c_Get PS k (ns_CacheDB ns) = Ok ((nil_if_empty (f k), None), db)" "c_ok PS db"
    "c_view PS db = c_view PS (ns_CacheDB ns)"
    using assms c_get_view [of PS "ns_CacheDB ns" ST_STORAGE k] by (auto simp: ns_shows_def c_Get_def)
  then show ?thesis
    using assms
    by (intro exI [of _ db]) (auto simp: GetStorageUInt32_def GetStorageItem_def ns_shows_def nil_if_empty_def
        stored32_def bind_res_assoc case_prod_unfold)
qed

lemma put_item_shows:
  assumes "ns_shows PS ns f" "length val + 18 \<le> sink_max"
  shows "\<exists>db. put_item k (Ok \<lparr>StateVersion = 0, item_Value = val\<rparr>) ns = Ok ((), ns\<lparr>ns_CacheDB := db\<rparr>)
    \<and> ns_shows PS (ns\<lparr>ns_CacheDB := db\<rparr>) (f(k := StorageItem_enc \<lparr>StateVersion = 0, item_Value = val\<rparr>))"
  using assms c_put_view [of PS "ns_CacheDB ns" ST_STORAGE k "StorageItem_enc \<lparr>StateVersion = 0, item_Value = val\<rparr>"]
  by (auto simp: put_item_def ToArray_small ns_shows_def c_Put_def fun_eq_iff)

lemma put_item64_shows:
  assumes "ns_shows PS ns f"
  shows "\<exists>db. put_item k (GenUInt64StorageItem v) ns = Ok ((), ns\<lparr>ns_CacheDB := db\<rparr>) \<and> ns_shows PS (ns\<lparr>ns_CacheDB := db\<rparr>) (f(k := item64 v))"
  using put_item_shows [OF assms, of "put_le 8 v" k] by (simp add: item64_def sink_max_def)

lemma put_item32_shows:
  assumes "ns_shows PS ns f"
  shows "\<exists>db. put_item k (GenUInt32StorageItem v) ns = Ok ((), ns\<lparr>ns_CacheDB := db\<rparr>) \<and> ns_shows PS (ns\<lparr>ns_CacheDB := db\<rparr>) (f(k := item32 v))"
  using put_item_shows [OF assms, of "put_le 4 v" k] by (simp add: item32_def sink_max_def)

lemma delete_item_shows:
  assumes "ns_shows PS ns f"
  shows "\<exists>db. delete_item k ns = Ok ((), ns\<lparr>ns_CacheDB := db\<rparr>) \<and> ns_shows PS (ns\<lparr>ns_CacheDB := db\<rparr>) (f(k := []))"
  using assms c_delete_view [of PS "ns_CacheDB ns" ST_STORAGE k]
  by (auto simp: delete_item_def ns_shows_def c_Delete_def fun_eq_iff)

section \<open>Calls return\<close>

definition returns :: "'a res \<Rightarrow> bool" where
  "returns m \<longleftrightarrow> m \<noteq> Panic \<and> m \<noteq> Diverge"

lemma returns_simps [simp]: "returns (Ok x)" "returns (Err e)" "\<not> returns Panic" "\<not> returns Diverge"
  "returns (detail msg m) \<longleftrightarrow> returns m"
  by (auto simp: returns_def detail_def split: res.splits)

lemma returns_bind [intro]: "returns m \<Longrightarrow> (\<And>x. m = Ok x \<Longrightarrow> returns (f x)) \<Longrightarrow> returns (bind_res m f)"
  by (cases m) auto

text \<open>A decoder of arbitrary bytes returns a value or an error.\<close>

definition decodes :: "'a rd \<Rightarrow> bool" where
  "decodes d \<longleftrightarrow> (\<forall>s. wf_src s \<longrightarrow> returns (d s) \<and> (\<forall>x s'. d s = Ok (x, s') \<longrightarrow> wf_src s'))"

lemma decodesD: "decodes d \<Longrightarrow> wf_src s \<Longrightarrow> returns (d s)" "decodes d \<Longrightarrow> wf_src s \<Longrightarrow> d s = Ok (x, s') \<Longrightarrow> wf_src s'"
  by (auto simp: decodes_def)

lemma decodes_bind:
  assumes "decodes d" "\<And>x. decodes (e x)"
  shows "decodes (\<lambda>s. bind_res (d s) (\<lambda>(x, s'). e x s'))"
  unfolding decodes_def
proof (intro allI impI)
  fix s
  assume s: "wf_src s"
  have "returns (bind_res (d s) (\<lambda>(x, s'). e x s'))"
    using decodesD [OF assms(1) s] decodesD(1) [OF assms(2)] by (intro returns_bind) auto
  moreover have "wf_src s''" if "bind_res (d s) (\<lambda>(x, s'). e x s') = Ok (y, s'')" for y s''
    using that decodesD(2) [OF assms(1) s] decodesD(2) [OF assms(2)] by (auto simp: bind_res_Ok_iff)
  ultimately show "returns (bind_res (d s) (\<lambda>(x, s'). e x s'))
      \<and> (\<forall>y s''. bind_res (d s) (\<lambda>(x, s'). e x s') = Ok (y, s'') \<longrightarrow> wf_src s'')"
    by blast
qed

lemma decodes_return: "decodes (\<lambda>s. Ok (x, s))"
  by (simp add: decodes_def)

lemma decodes_args: "decodes DecodeVarBytes" "decodes DecodeAddress" "decodes DecodeVarUint"
proof -
  have nv: "\<exists>v s'. NextVarBytes s = Ok (v, s') \<and> wf_src s'" if "wf_src s" for s
    using rd_varbytes.safe [OF that, unfolded reads_safely_def] by blast
  show b: "decodes DecodeVarBytes"
    unfolding decodes_def DecodeVarBytes_def using nv by (fastforce split: if_splits prod.splits)
  have "returns (AddressParseFromBytes b)" for b
    by (simp add: AddressParseFromBytes_def returns_def)
  then have "decodes (\<lambda>s. bind_res (AddressParseFromBytes x) (\<lambda>a. Ok (a, s)))" for x
    by (auto simp: decodes_def bind_res_Ok_iff)
  from decodes_bind [OF b this] show "decodes DecodeAddress"
    by (simp add: DecodeAddress_via [abs_def] case_prod_unfold)
  have "decodes (\<lambda>s. if BigIntFromNeoBytes x < 0 then Err ''value should not be a negative number.''
      else Ok (of_int (BigIntFromNeoBytes x) :: u64, s))" for x
    by (simp add: decodes_def)
  from decodes_bind [OF b this] show "decodes DecodeVarUint"
    by (simp add: DecodeVarUint_via [abs_def] case_prod_unfold)
qed

end
