(* ===== verification/TokenStates.thy ===== *)
theory TokenStates
  imports Codec
begin

text \<open>
  The arguments of the token contracts, \<open>src/smartcontract/service/native/ont/states.go\<close>: a transfer, a list
  of transfers and a transfer on another's behalf, with their byte forms.
\<close>

record State =
  st_From :: Address
  st_To :: Address
  st_Value :: u64

record TransferFrom =
  tf_Sender :: Address
  tf_From :: Address
  tf_To :: Address
  tf_Value :: u64

definition State_Serialization :: "State \<Rightarrow> wr" where
  "State_Serialization this sink =
     bind_res (EncodeAddress (st_From this) sink) (\<lambda>s1.
     bind_res (EncodeAddress (st_To this) s1) (\<lambda>s2. EncodeVarUint (st_Value this) s2))"

definition State_Deserialization :: "State rd" where
  "State_Deserialization source =
     bind_res (DecodeAddress source) (\<lambda>(from, s1).
     bind_res (DecodeAddress s1) (\<lambda>(to, s2).
     bind_res (DecodeVarUint s2) (\<lambda>(val, s3). Ok (\<lparr>st_From = from, st_To = to, st_Value = val\<rparr>, s3))))"

definition TransferFrom_Serialization :: "TransferFrom \<Rightarrow> wr" where
  "TransferFrom_Serialization this sink =
     bind_res (EncodeAddress (tf_Sender this) sink) (\<lambda>s1.
     bind_res (EncodeAddress (tf_From this) s1) (\<lambda>s2.
     bind_res (EncodeAddress (tf_To this) s2) (\<lambda>s3. EncodeVarUint (tf_Value this) s3)))"

definition TransferFrom_Deserialization :: "TransferFrom rd" where
  "TransferFrom_Deserialization source =
     bind_res (DecodeAddress source) (\<lambda>(sender, s1).
     bind_res (DecodeAddress s1) (\<lambda>(from, s2).
     bind_res (DecodeAddress s2) (\<lambda>(to, s3).
     bind_res (DecodeVarUint s3) (\<lambda>(val, s4).
       Ok (\<lparr>tf_Sender = sender, tf_From = from, tf_To = to, tf_Value = val\<rparr>, s4)))))"

text \<open>The struct \<open>Transfers\<close> is its list of states.\<close>

definition Transfers_Serialization :: "State list \<Rightarrow> wr" where
  "Transfers_Serialization states sink =
     bind_res (EncodeVarUint (of_nat (length states)) sink) (\<lambda>s.
       SerializeToBytes_loop (map State_Serialization states) s)"

fun Transfers_loop :: "nat \<Rightarrow> State list \<Rightarrow> (State list) rd" where
  "Transfers_loop 0 states source = Ok (states, source)"
| "Transfers_loop (Suc n) states source =
     bind_res (State_Deserialization source) (\<lambda>(state, s). Transfers_loop n (states @ [state]) s)"

definition Transfers_Deserialization :: "(State list) rd" where
  "Transfers_Deserialization source =
     bind_res (DecodeVarUint source) (\<lambda>(n, s). Transfers_loop (unat n) [] s)"

section \<open>They meet the contract of a codec\<close>

definition State_enc :: "State \<Rightarrow> bytes" where
  "State_enc st = varbytes_enc (st_From st) @ varbytes_enc (st_To st) @ VarUint_arg_enc (st_Value st)"

definition state_ok :: "State \<Rightarrow> bool" where
  "state_ok st \<longleftrightarrow> length (st_From st) = 20 \<and> length (st_To st) = 20"

definition State_valid :: "State \<Rightarrow> bool" where
  "State_valid st \<longleftrightarrow> state_ok st \<and> st_Value st < 0x8000000000000000"

interpretation state: serializable State_Serialization State_Deserialization State_enc State_valid
proof (rule serializable.intro)
  fix st
  assume st: "State_valid st"
  then have len: "length (st_From st) = 20" "length (st_To st) = 20" and small: "st_Value st < 0x8000000000000000"
    by (simp_all add: State_valid_def state_ok_def)
  show "writer (State_Serialization st) (State_enc st)"
    using writer_bind [OF arg_addr.writes [OF len(1)] writer_bind [OF arg_addr.writes [OF len(2)] arg_uint.writes [OF small]]]
    by (simp add: State_Serialization_def [abs_def] State_enc_def)
  fix s r
  assume wf: "wf_src s" and s: "rest s = State_enc st @ r"
  note a = arg_addr.reads_then [OF len(1) wf, of "varbytes_enc (st_To st) @ VarUint_arg_enc (st_Value st) @ r"]
  have a: "DecodeAddress s = Ok (st_From st, advance (length (varbytes_enc (st_From st))) s)"
    "wf_src (advance (length (varbytes_enc (st_From st))) s)"
    "rest (advance (length (varbytes_enc (st_From st))) s) = varbytes_enc (st_To st) @ VarUint_arg_enc (st_Value st) @ r"
    using a s by (simp_all add: State_enc_def)
  note b = arg_addr.reads_then [OF len(2) a(2,3)]
  note c = arg_uint.reads_then [OF small b(2,3)]
  show "State_Deserialization s = Ok (st, advance (length (State_enc st)) s)"
    using a(1) b(1) c(1) by (simp add: State_Deserialization_def State_enc_def advance_advance add_ac)
qed

definition TransferFrom_enc :: "TransferFrom \<Rightarrow> bytes" where
  "TransferFrom_enc tf = varbytes_enc (tf_Sender tf)
     @ State_enc \<lparr>st_From = tf_From tf, st_To = tf_To tf, st_Value = tf_Value tf\<rparr>"

definition TransferFrom_valid :: "TransferFrom \<Rightarrow> bool" where
  "TransferFrom_valid tf \<longleftrightarrow> length (tf_Sender tf) = 20
     \<and> State_valid \<lparr>st_From = tf_From tf, st_To = tf_To tf, st_Value = tf_Value tf\<rparr>"

lemma TransferFrom_via:
  "TransferFrom_Serialization tf s = bind_res (EncodeAddress (tf_Sender tf) s)
     (State_Serialization \<lparr>st_From = tf_From tf, st_To = tf_To tf, st_Value = tf_Value tf\<rparr>)"
  "TransferFrom_Deserialization r = bind_res (DecodeAddress r) (\<lambda>(a, r1). bind_res (State_Deserialization r1) (\<lambda>(st, r2).
     Ok (\<lparr>tf_Sender = a, tf_From = st_From st, tf_To = st_To st, tf_Value = st_Value st\<rparr>, r2)))"
  by (simp_all add: TransferFrom_Serialization_def TransferFrom_Deserialization_def State_Serialization_def [abs_def]
      State_Deserialization_def bind_res_assoc case_prod_unfold)

interpretation transfer_from: serializable TransferFrom_Serialization TransferFrom_Deserialization TransferFrom_enc TransferFrom_valid
proof (rule serializable.intro)
  fix tf :: TransferFrom
  let ?st = "\<lparr>st_From = tf_From tf, st_To = tf_To tf, st_Value = tf_Value tf\<rparr>"
  assume "TransferFrom_valid tf"
  then have a: "length (tf_Sender tf) = 20" and st: "State_valid ?st"
    by (simp_all add: TransferFrom_valid_def)
  show "writer (TransferFrom_Serialization tf) (TransferFrom_enc tf)"
    using writer_bind [OF arg_addr.writes [OF a] state.writes [OF st]]
    by (simp add: TransferFrom_via(1) [abs_def] TransferFrom_enc_def)
  fix s r
  assume wf: "wf_src s" and s: "rest s = TransferFrom_enc tf @ r"
  then have "rest s = varbytes_enc (tf_Sender tf) @ State_enc ?st @ r"
    by (simp add: TransferFrom_enc_def)
  note b = arg_addr.reads_then [OF a wf this]
  show "TransferFrom_Deserialization s = Ok (tf, advance (length (TransferFrom_enc tf)) s)"
    using b(1) state.reads [OF st b(2,3)]
    by (simp add: TransferFrom_via(2) TransferFrom_enc_def advance_advance)
qed

definition Transfers_enc :: "State list \<Rightarrow> bytes" where
  "Transfers_enc sts = VarUint_arg_enc (of_nat (length sts)) @ concat (map State_enc sts)"

definition Transfers_valid :: "State list \<Rightarrow> bool" where
  "Transfers_valid sts \<longleftrightarrow> list_all State_valid sts \<and> length sts < 2 ^ 63"

lemma States_writer: "list_all State_valid sts \<Longrightarrow> writer (SerializeToBytes_loop (map State_Serialization sts)) (concat (map State_enc sts))"
proof (induction sts)
  case Nil
  then show ?case
    using writer_return by (simp add: SerializeToBytes_loop.simps(1) [abs_def])
next
  case (Cons st sts)
  then show ?case
    using writer_bind [OF state.writes [of st] Cons.IH] by (simp add: SerializeToBytes_loop.simps(2) [abs_def])
qed

lemma Transfers_loop_reads:
  assumes "list_all State_valid sts" "wf_src s" "rest s = concat (map State_enc sts) @ r"
  shows "Transfers_loop (length sts) acc s = Ok (acc @ sts, advance (length (concat (map State_enc sts))) s)"
  using assms
proof (induction sts arbitrary: acc s)
  case (Cons st sts)
  then have "State_valid st" "rest s = State_enc st @ concat (map State_enc sts) @ r"
    by simp_all
  note b = state.reads_then [OF this(1) Cons.prems(2) this(2)]
  show ?case
    using b(1) Cons.IH [OF _ b(2,3), of "acc @ [st]"] Cons.prems(1) by (simp add: advance_advance)
qed simp

interpretation transfers: serializable Transfers_Serialization Transfers_Deserialization Transfers_enc Transfers_valid
proof (rule serializable.intro)
  fix sts
  assume sts: "Transfers_valid sts"
  then have all: "list_all State_valid sts" and u: "unat (of_nat (length sts) :: u64) = length sts"
    by (simp_all add: Transfers_valid_def of_nat_less_u64)
  then have small: "(of_nat (length sts) :: u64) < 0x8000000000000000"
    using sts by (simp add: Transfers_valid_def word_less_nat_alt)
  show "writer (Transfers_Serialization sts) (Transfers_enc sts)"
    using writer_bind [OF arg_uint.writes [OF small] States_writer [OF all]]
    by (simp add: Transfers_Serialization_def [abs_def] Transfers_enc_def)
  fix s r
  assume wf: "wf_src s" and s: "rest s = Transfers_enc sts @ r"
  then have "rest s = VarUint_arg_enc (of_nat (length sts)) @ concat (map State_enc sts) @ r"
    by (simp add: Transfers_enc_def)
  note b = arg_uint.reads_then [OF small wf this]
  show "Transfers_Deserialization s = Ok (sts, advance (length (Transfers_enc sts)) s)"
    using b(1) Transfers_loop_reads [OF all b(2,3), of "[]"] u
    by (simp add: Transfers_Deserialization_def Transfers_enc_def advance_advance)
qed

section \<open>What they accept\<close>

lemma DecodeAddress_20: "DecodeAddress s = Ok (a, s') \<Longrightarrow> length a = 20"
  by (auto simp: DecodeAddress_def AddressParseFromBytes_def bind_res_Ok_iff split: if_splits)

lemma State_Deserialization_ok: "State_Deserialization s = Ok (st, s') \<Longrightarrow> state_ok st"
  by (auto simp: State_Deserialization_def bind_res_Ok_iff state_ok_def dest!: DecodeAddress_20)

lemma TransferFrom_Deserialization_ok:
  "TransferFrom_Deserialization s = Ok (tf, s') \<Longrightarrow> length (tf_Sender tf) = 20 \<and> length (tf_From tf) = 20 \<and> length (tf_To tf) = 20"
  by (auto simp: TransferFrom_Deserialization_def bind_res_Ok_iff dest!: DecodeAddress_20)

lemma Transfers_loop_ok:
  "Transfers_loop n acc s = Ok (sts, s') \<Longrightarrow> list_all state_ok acc \<Longrightarrow> list_all state_ok sts"
  by (induction n arbitrary: acc s) (fastforce simp: bind_res_Ok_iff dest: State_Deserialization_ok)+

lemma Transfers_Deserialization_ok: "Transfers_Deserialization s = Ok (sts, s') \<Longrightarrow> list_all state_ok sts"
  using Transfers_loop_ok by (fastforce simp: Transfers_Deserialization_def bind_res_Ok_iff)

end
