(* ===== verification/UnbindOng.thy ===== *)
theory UnbindOng
  imports Prelude
begin

text \<open>
  The release of ONG to the holders of ONT, \<open>src/smartcontract/service/native/utils/unbind_ong.go\<close>, with the
  constants of \<open>src/common/constants/constants.go\<close>. Every second each ONT releases an amount of ONG that
  depends on the year, until the deadline at which the whole supply of ONG is released. \<open>CalcUnbindOng\<close> adds
  up whole and broken years on machine words; it computes the sum over the seconds.
\<close>

section \<open>constants.go\<close>

definition GENESIS_BLOCK_TIMESTAMP :: u32 where "GENESIS_BLOCK_TIMESTAMP = 1530316800"

definition ONT_TOTAL_SUPPLY :: u64 where "ONT_TOTAL_SUPPLY = 1000000000"
definition ONG_TOTAL_SUPPLY :: u64 where "ONG_TOTAL_SUPPLY = 1000000000000000000"

definition UNBOUND_TIME_INTERVAL :: u32 where "UNBOUND_TIME_INTERVAL = 31536000"

definition UNBOUND_GENERATION_AMOUNT :: "u64 list" where
  "UNBOUND_GENERATION_AMOUNT = [5, 4, 3, 3, 2, 2, 2, 1, 1, 1, 1, 1, 1, 1, 1, 1, 1, 1]"

text \<open>The initialiser of the deadline; it panics when the constants do not fit together.\<close>

definition UNBOUND_DEADLINE_init :: "u32 res" where
  "UNBOUND_DEADLINE_init =
     (let count = fold (\<lambda>m count. count + m) UNBOUND_GENERATION_AMOUNT 0 * ucast UNBOUND_TIME_INTERVAL;
          numInterval = length UNBOUND_GENERATION_AMOUNT
      in if UNBOUND_GENERATION_AMOUNT ! (numInterval - 1) \<noteq> 1
            \<or> \<not> (count - ucast UNBOUND_TIME_INTERVAL < ONT_TOTAL_SUPPLY \<and> ONT_TOTAL_SUPPLY \<le> count)
         then Panic
         else Ok (UNBOUND_TIME_INTERVAL * of_nat numInterval - ucast (count - ONT_TOTAL_SUPPLY)))"

definition UNBOUND_DEADLINE :: u32 where
  "UNBOUND_DEADLINE = (case UNBOUND_DEADLINE_init of Ok d \<Rightarrow> d | _ \<Rightarrow> 0)"

section \<open>unbind_ong.go\<close>

definition GENERATION_AMOUNT :: "u32 \<Rightarrow> u64 res" where
  "GENERATION_AMOUNT i =
     (if unat i < length UNBOUND_GENERATION_AMOUNT then Ok (UNBOUND_GENERATION_AMOUNT ! unat i) else Panic)"

lemma unat_next: "a < b \<Longrightarrow> unat (a + 1) = Suc (unat a)" for a b :: "'a::len word"
proof -
  assume "a < b"
  then have "Suc (unat a) \<le> unat b"
    by (simp add: word_less_nat_alt)
  also have "unat b < 2 ^ LENGTH('a)"
    by (rule unsigned_less)
  finally show ?thesis
    by (simp add: unat_word_ariths)
qed

text \<open>The loop over whole intervals: the amount, the interval reached and the offset in it.\<close>

function unbind_loop :: "u32 \<Rightarrow> u64 \<Rightarrow> u32 \<Rightarrow> u32 \<Rightarrow> (u64 \<times> u32 \<times> u32) res" where
  "unbind_loop uend amount ustart istart =
     (if ustart < uend then
        bind_res (GENERATION_AMOUNT ustart) (\<lambda>g.
          unbind_loop uend (amount + ucast (UNBOUND_TIME_INTERVAL - istart) * g) (ustart + 1) 0)
      else Ok (amount, ustart, istart))"
  by auto
termination unbind_loop
  by (relation "measure (\<lambda>(uend, amount, ustart, istart). unat uend - unat ustart)")
    (auto simp: unat_next word_less_nat_alt)

declare unbind_loop.simps [simp del]

definition CalcUnbindOng :: "u64 \<Rightarrow> u32 \<Rightarrow> u32 \<Rightarrow> u64 res" where
  "CalcUnbindOng balance startOffset endOffset =
     (if startOffset \<ge> endOffset then Ok 0
      else
        bind_res
          (if startOffset < UNBOUND_DEADLINE then
             (let ustart = startOffset div UNBOUND_TIME_INTERVAL; istart = startOffset mod UNBOUND_TIME_INTERVAL;
                  end' = (if endOffset \<ge> UNBOUND_DEADLINE then UNBOUND_DEADLINE else endOffset);
                  uend = end' div UNBOUND_TIME_INTERVAL; iend = end' mod UNBOUND_TIME_INTERVAL
              in bind_res (unbind_loop uend 0 ustart istart) (\<lambda>(amount, ustart', istart').
                 bind_res (GENERATION_AMOUNT ustart') (\<lambda>g.
                   Ok (amount + ucast (iend - istart') * g))))
           else Ok 0)
          (\<lambda>amount. Ok (amount * balance)))"

section \<open>The seconds\<close>

definition interval :: nat where "interval = 31536000"
definition deadline :: nat where "deadline = 558496000"

text \<open>What one ONT releases in a second, and between two offsets.\<close>

definition generation :: "nat \<Rightarrow> nat" where
  "generation t = (if t < deadline then unat (UNBOUND_GENERATION_AMOUNT ! (t div interval)) else 0)"

definition released :: "nat \<Rightarrow> nat \<Rightarrow> nat" where
  "released s e = (\<Sum>t = s..<e. generation t)"

lemma constants_nat:
  "unat UNBOUND_TIME_INTERVAL = interval" "UNBOUND_DEADLINE_init = Ok (of_nat deadline)" "unat UNBOUND_DEADLINE = deadline"
proof -
  show "unat UNBOUND_TIME_INTERVAL = interval"
    by (simp add: UNBOUND_TIME_INTERVAL_def interval_def)
  show i: "UNBOUND_DEADLINE_init = Ok (of_nat deadline)"
    by (simp add: UNBOUND_DEADLINE_init_def UNBOUND_GENERATION_AMOUNT_def UNBOUND_TIME_INTERVAL_def ONT_TOTAL_SUPPLY_def
        deadline_def Let_def)
  show "unat UNBOUND_DEADLINE = deadline"
    by (simp add: UNBOUND_DEADLINE_def i deadline_def)
qed

lemma released_split: "s \<le> m \<Longrightarrow> m \<le> e \<Longrightarrow> released s m + released m e = released s e"
  by (simp add: released_def sum.atLeastLessThan_concat)

text \<open>Within an interval.\<close>

lemma released_within:
  assumes "a \<le> b" "b \<le> interval" "u * interval + b \<le> deadline"
  shows "released (u * interval + a) (u * interval + b) = (b - a) * unat (UNBOUND_GENERATION_AMOUNT ! u)"
proof -
  have "generation t = unat (UNBOUND_GENERATION_AMOUNT ! u)" if "u * interval + a \<le> t" "t < u * interval + b" for t
  proof -
    have "t div interval = u"
      using that assms by (intro div_nat_eqI) (auto simp: algebra_simps)
    then show ?thesis
      using that assms by (simp add: generation_def)
  qed
  then show ?thesis
    by (simp add: released_def)
qed

lemma generation_amount:
  assumes "unat u < 18"
  shows "\<exists>g. GENERATION_AMOUNT u = Ok g \<and> g = UNBOUND_GENERATION_AMOUNT ! unat u"
  using assms by (simp add: GENERATION_AMOUNT_def UNBOUND_GENERATION_AMOUNT_def)

lemma unbind_loop_spec:
  assumes "unat uend \<le> 17" "unat ustart \<le> unat uend" "unat istart \<le> interval"
  shows "unbind_loop uend amount ustart istart
    = Ok (if ustart < uend
          then (amount + of_nat (released (unat ustart * interval + unat istart) (unat uend * interval)), uend, 0)
          else (amount, ustart, istart))"
  using assms
proof (induction uend amount ustart istart rule: unbind_loop.induct)
  case (1 uend amount ustart istart)
  show ?case
  proof (cases "ustart < uend")
    case True
    let ?u = "unat ustart" and ?e = "unat uend * interval"
    let ?g = "UNBOUND_GENERATION_AMOUNT ! ?u"
    have u: "?u < unat uend" "unat (ustart + 1) = Suc ?u"
      using True unat_next [OF True] by (simp_all add: word_less_nat_alt)
    have g: "GENERATION_AMOUNT ustart = Ok ?g"
      using generation_amount [of ustart] u(1) 1(2) by simp
    have le: "Suc ?u * interval \<le> ?e" "Suc ?u * interval \<le> deadline"
      using u(1) 1(2) mult_le_mono1 [of "Suc ?u" 17 interval] by (simp_all add: interval_def deadline_def)
    have "istart \<le> UNBOUND_TIME_INTERVAL"
      using 1(4) constants_nat(1) by (simp add: word_le_nat_alt)
    then have "unat (UNBOUND_TIME_INTERVAL - istart) = interval - unat istart"
      using constants_nat(1) by (simp add: unat_sub)
    then have "ucast (UNBOUND_TIME_INTERVAL - istart) = (of_nat (interval - unat istart) :: u64)"
      by (metis of_nat_unat)
    moreover have "(interval - unat istart) * unat ?g = released (?u * interval + unat istart) (Suc ?u * interval)"
      using released_within [of "unat istart" interval ?u] 1(4) le(2) by (simp add: add.commute)
    ultimately have a: "ucast (UNBOUND_TIME_INTERVAL - istart) * ?g
        = (of_nat (released (?u * interval + unat istart) (Suc ?u * interval)) :: u64)"
      by (metis of_nat_mult of_nat_unat ucast_id)
    have split: "released (?u * interval + unat istart) (Suc ?u * interval) + released (Suc ?u * interval) ?e
        = released (?u * interval + unat istart) ?e"
      using 1(4) le(1) by (intro released_split) simp_all
    show ?thesis
    proof (cases "Suc ?u < unat uend")
      case last: True
      then have "ustart + 1 < uend"
        using u(2) by (simp add: word_less_nat_alt)
      then show ?thesis
        using 1(1) [OF True g] u 1(2) True g split by (subst unbind_loop.simps) (simp add: a flip: of_nat_add)
    next
      case last: False
      then have "unat uend = Suc ?u"
        using u(1) by simp
      then have "ustart + 1 = uend" "?e = Suc ?u * interval"
        using u(2) by (simp_all add: word_unat_eq_iff)
      then show ?thesis
        using 1(1) [OF True g] u 1(2) True g by (subst unbind_loop.simps) (simp add: a)
    qed
  next
    case False
    then show ?thesis
      by (subst unbind_loop.simps) simp
  qed
qed

lemma CalcUnbindOng_spec: "CalcUnbindOng balance s e = Ok (of_nat (unat balance * released (unat s) (unat e)))"
proof (cases "s < e \<and> s < UNBOUND_DEADLINE")
  case False
  have "released (unat s) (unat e) = 0"
    using False constants_nat(3) by (auto simp: released_def generation_def word_less_nat_alt not_less)
  then show ?thesis
    using False by (auto simp: CalcUnbindOng_def)
next
  case True
  then have c: "\<not> e \<le> s" "s < UNBOUND_DEADLINE"
    by auto
  define f where "f = (if e \<ge> UNBOUND_DEADLINE then UNBOUND_DEADLINE else e)"
  have f: "unat f = min (unat e) deadline"
    using constants_nat(3) by (simp add: f_def word_le_nat_alt min_def)
  have sf: "unat s < unat f" "unat f \<le> deadline"
    using True constants_nat(3) by (simp_all add: f word_less_nat_alt)
  define us si uf fi where "us = s div UNBOUND_TIME_INTERVAL" and "si = s mod UNBOUND_TIME_INTERVAL"
    and "uf = f div UNBOUND_TIME_INTERVAL" and "fi = f mod UNBOUND_TIME_INTERVAL"
  note defs = us_def si_def uf_def fi_def
  have n: "unat s = unat us * interval + unat si" "unat f = unat uf * interval + unat fi" "unat us \<le> unat uf" "unat uf \<le> 17"
    "unat si \<le> interval" "unat fi \<le> interval"
    using sf div_le_mono [of "unat s" "unat f" interval] div_le_mono [OF sf(2), of interval]
    by (simp_all add: defs unat_div unat_mod constants_nat(1) less_imp_le) (simp_all add: interval_def deadline_def)
  have g: "GENERATION_AMOUNT uf = Ok (UNBOUND_GENERATION_AMOUNT ! unat uf)"
    using generation_amount [of uf] n(4) by simp
  have part: "ucast (fi - i) * (UNBOUND_GENERATION_AMOUNT ! unat uf)
      = (of_nat (released (unat uf * interval + unat i) (unat f)) :: u64)" if "i \<le> fi" for i
  proof -
    have "ucast (fi - i) = (of_nat (unat fi - unat i) :: u64)"
      using that by (metis of_nat_unat unat_sub)
    then show ?thesis
      using released_within [of "unat i" "unat fi" "unat uf"] that n(2,6) sf(2)
      by (simp add: word_le_nat_alt)
  qed
  have "released (unat f) (unat e) = 0"
    using f by (auto simp: released_def generation_def)
  then have "released (unat s) (unat f) = released (unat s) (unat e)"
    using released_split [of "unat s" "unat f" "unat e"] sf f by simp
  moreover have "CalcUnbindOng balance s e = Ok (of_nat (released (unat s) (unat f)) * balance)"
  proof (cases "us < uf")
    case True
    have "released (unat s) (unat uf * interval) + released (unat uf * interval) (unat f) = released (unat s) (unat f)"
      using True n mult_le_mono1 [of "Suc (unat us)" "unat uf" interval]
      by (intro released_split) (simp_all add: word_less_nat_alt)
    then show ?thesis
      using True c unbind_loop_spec [OF n(4,3,5), of 0] part [of 0] g n(1)
      by (simp add: CalcUnbindOng_def f_def [symmetric] defs [symmetric] flip: of_nat_add)
  next
    case False
    then have "us = uf"
      using n(3) by (simp add: word_less_nat_alt word_unat_eq_iff)
    moreover have "si \<le> fi"
      using calculation n(1,2) sf(1) by (simp add: word_le_nat_alt)
    ultimately show ?thesis
      using c unbind_loop_spec [OF n(4,3,5), of 0] part [of si] g n(1)
      by (simp add: CalcUnbindOng_def f_def [symmetric] defs [symmetric])
  qed
  ultimately show ?thesis
    by (simp add: mult.commute)
qed

text \<open>What is released until the deadline: one ONG per ONT of the supply and each of its units.\<close>

lemma released_intervals: "n \<le> 17 \<Longrightarrow> released 0 (n * interval) = interval * (\<Sum>u<n. unat (UNBOUND_GENERATION_AMOUNT ! u))"
proof (induction n)
  case (Suc n)
  have "Suc n * interval \<le> deadline"
    using Suc.prems mult_le_mono1 [of "Suc n" 17 interval] by (simp add: interval_def deadline_def)
  then have "released (n * interval) (Suc n * interval) = interval * unat (UNBOUND_GENERATION_AMOUNT ! n)"
    using released_within [of 0 interval n] by (simp add: add.commute)
  then show ?case
    using Suc released_split [of 0 "n * interval" "Suc n * interval"] by (simp add: algebra_simps)
qed (simp add: released_def)

lemma released_total: "released 0 deadline = 1000000000"
proof -
  have amounts: "(\<Sum>u<17. unat (UNBOUND_GENERATION_AMOUNT ! u)) = 31"
    by code_simp
  have "released (17 * interval) deadline = deadline - 17 * interval"
    using released_within [of 0 "deadline - 17 * interval" 17]
    by (simp add: deadline_def interval_def UNBOUND_GENERATION_AMOUNT_def)
  moreover have "released 0 (17 * interval) = interval * 31"
    using released_intervals [of 17] amounts by simp
  ultimately show ?thesis
    using released_split [of 0 "17 * interval" deadline] by (simp add: deadline_def interval_def)
qed

lemma released_le: "released s e \<le> 1000000000"
proof -
  have "released s e \<le> released 0 (max e deadline)"
    unfolding released_def by (intro sum_mono2) auto
  also have "\<dots> = released 0 deadline + released deadline (max e deadline)"
    by (simp add: released_split)
  also have "released deadline (max e deadline) = 0"
    by (simp add: released_def generation_def)
  finally show ?thesis
    by (simp add: released_total)
qed

lemma CalcUnbindOng_unat:
  assumes "balance \<le> ONT_TOTAL_SUPPLY"
  shows "\<exists>v. CalcUnbindOng balance s e = Ok v \<and> unat v = unat balance * released (unat s) (unat e) \<and> v \<le> ONG_TOTAL_SUPPLY"
proof -
  have "unat balance \<le> 1000000000"
    using assms by (simp add: ONT_TOTAL_SUPPLY_def word_le_nat_alt)
  then have "unat balance * released (unat s) (unat e) \<le> 1000000000 * 1000000000"
    using released_le by (intro mult_le_mono)
  then have "unat (of_nat (unat balance * released (unat s) (unat e)) :: u64) = unat balance * released (unat s) (unat e)"
    and "unat (of_nat (unat balance * released (unat s) (unat e)) :: u64) \<le> 1000000000000000000"
    by (simp_all only: unat_of_nat) simp_all
  moreover from this(2) have "of_nat (unat balance * released (unat s) (unat e)) \<le> ONG_TOTAL_SUPPLY"
    by (simp add: word_le_nat_alt ONG_TOTAL_SUPPLY_def)
  ultimately show ?thesis
    using CalcUnbindOng_spec by blast
qed

section \<open>Properties\<close>

text \<open>
  C20. The ONG released to a holder is the sum over the seconds. For every balance that can exist and all
  offsets, \<open>CalcUnbindOng\<close> indexes no table out of range, its 64-bit arithmetic does not wrap, and the result
  is the balance times the amounts of the seconds between the offsets, seconds from the deadline on counting
  nothing; it never exceeds the supply of ONG.
\<close>

theorem unbind_exact:
  assumes "balance \<le> ONT_TOTAL_SUPPLY"
  shows "\<exists>v. CalcUnbindOng balance s e = Ok v
    \<and> unat v = unat balance * (\<Sum>t = unat s..<unat e.
        if t < unat UNBOUND_DEADLINE then unat (UNBOUND_GENERATION_AMOUNT ! (t div unat UNBOUND_TIME_INTERVAL)) else 0)
    \<and> v \<le> ONG_TOTAL_SUPPLY"
  using CalcUnbindOng_unat [OF assms, of s e] unfolding constants_nat released_def generation_def .

theorem unbind_exact_witness:
  "\<exists>v. CalcUnbindOng 7 100 31536100 = Ok v \<and> v \<le> ONG_TOTAL_SUPPLY"
  using unbind_exact [of 7 100 31536100] by (auto simp: ONT_TOTAL_SUPPLY_def)

text \<open>
  Nothing is lost between two withdrawals and everything is released in the end: for a balance that can
  exist the amounts of adjacent periods add up to that of the whole, and the supply of ONT releases exactly
  the supply of ONG from the genesis block to any time not before the deadline. The constants pass the check of the
  deadline's initialiser.
\<close>

theorem unbind_additive:
  assumes "balance \<le> ONT_TOTAL_SUPPLY" "s \<le> m" "m \<le> e" "UNBOUND_DEADLINE \<le> t"
  shows "(\<exists>a b. CalcUnbindOng balance s m = Ok a \<and> CalcUnbindOng balance m e = Ok b
        \<and> CalcUnbindOng balance s e = Ok (a + b) \<and> unat a + unat b = unat (a + b))
    \<and> CalcUnbindOng ONT_TOTAL_SUPPLY 0 t = Ok ONG_TOTAL_SUPPLY
    \<and> UNBOUND_DEADLINE_init = Ok UNBOUND_DEADLINE"
proof -
  obtain a b c where v: "CalcUnbindOng balance s m = Ok a" "CalcUnbindOng balance m e = Ok b" "CalcUnbindOng balance s e = Ok c"
    and u: "unat a = unat balance * released (unat s) (unat m)" "unat b = unat balance * released (unat m) (unat e)"
      "unat c = unat balance * released (unat s) (unat e)"
    using CalcUnbindOng_unat [OF assms(1)] by metis
  have sum: "unat a + unat b = unat c"
    using released_split [of "unat s" "unat m" "unat e"] assms(2,3) by (simp add: u word_le_nat_alt flip: distrib_left)
  then have "a + b = c"
    using unat_u64_less [of c] by (simp add: word_unat_eq_iff unat_word_ariths)
  have "released 0 (unat t) = released 0 deadline + released deadline (unat t)"
    using assms(4) constants_nat(3) by (simp add: released_split word_le_nat_alt)
  then have "released 0 (unat t) = 1000000000"
    by (simp add: released_total) (simp add: released_def generation_def)
  then have "CalcUnbindOng ONT_TOTAL_SUPPLY 0 t = Ok ONG_TOTAL_SUPPLY"
    by (simp add: CalcUnbindOng_spec ONT_TOTAL_SUPPLY_def ONG_TOTAL_SUPPLY_def)
  moreover have "UNBOUND_DEADLINE_init = Ok UNBOUND_DEADLINE"
    by (simp add: UNBOUND_DEADLINE_def constants_nat(2))
  ultimately show ?thesis
    using v sum \<open>a + b = c\<close> by blast
qed

theorem unbind_additive_witness:
  "CalcUnbindOng ONT_TOTAL_SUPPLY 0 UNBOUND_DEADLINE = Ok ONG_TOTAL_SUPPLY"
  using unbind_additive [of 7 1 2 3 UNBOUND_DEADLINE] by (simp add: ONT_TOTAL_SUPPLY_def)

end
