(* ===== verification/Token.thy ===== *)
theory Token
  imports NativeUtils TokenStates UnbindOng
begin

text \<open>
  What the two token contracts share, \<open>src/smartcontract/service/native/ont/utils.go\<close>: the storage keys of
  balances, allowances and offsets, and the transfers between balances. The abstraction reads a storage map
  as balances and allowances that are natural numbers.

  The environment of the contracts is the record \<open>native_env\<close>: RIPEMD-160 and the base58 form of addresses
  (packages outside the repository), whether event logs are kept (the node's configuration), and the order
  in which Go ranges over a map, which the language leaves open.
\<close>

record native_env =
  env_ripemd160 :: "bytes \<Rightarrow> bytes"
  EnableEventLog :: bool
  ToBase58 :: "Address \<Rightarrow> bytes"
  map_range :: "(Address \<times> u64) list \<Rightarrow> (Address \<times> u64) list"

section \<open>utils.go\<close>

definition UNBOUND_TIME_OFFSET :: bytes where "UNBOUND_TIME_OFFSET = str ''unboundTimeOffset''"
definition TOTAL_SUPPLY_NAME :: bytes where "TOTAL_SUPPLY_NAME = str ''totalSupply''"
definition INIT_NAME :: bytes where "INIT_NAME = str ''init''"
definition TRANSFER_NAME :: bytes where "TRANSFER_NAME = str ''transfer''"
definition APPROVE_NAME :: bytes where "APPROVE_NAME = str ''approve''"
definition TRANSFERFROM_NAME :: bytes where "TRANSFERFROM_NAME = str ''transferFrom''"
definition NAME_NAME :: bytes where "NAME_NAME = str ''name''"
definition SYMBOL_NAME :: bytes where "SYMBOL_NAME = str ''symbol''"
definition DECIMALS_NAME :: bytes where "DECIMALS_NAME = str ''decimals''"
definition TOTALSUPPLY_NAME :: bytes where "TOTALSUPPLY_NAME = str ''totalSupply''"
definition BALANCEOF_NAME :: bytes where "BALANCEOF_NAME = str ''balanceOf''"
definition ALLOWANCE_NAME :: bytes where "ALLOWANCE_NAME = str ''allowance''"

text \<open>\<open>native.ContextRef.CurrentContext().ContractAddress\<close>, a panic without a context.\<close>

definition current_contract :: "('s, 'h) NativeService \<Rightarrow> Address res" where
  "current_contract native =
     (case CurrentContext (ContextRef native) of None \<Rightarrow> Panic | Some c \<Rightarrow> Ok (ContractAddress c))"

definition AddNotifications :: "native_env \<Rightarrow> Address \<Rightarrow> State \<Rightarrow> ('s, 'h) NativeService \<Rightarrow> ('s, 'h) NativeService" where
  "AddNotifications env contract state native =
     (if \<not> EnableEventLog env then native
      else native\<lparr>ns_Notifications := ns_Notifications native @
        [\<lparr>ev_ContractAddress = contract,
          ev_States = [IString TRANSFER_NAME, IString (ToBase58 env (st_From state)), IString (ToBase58 env (st_To state)), IUint64 (st_Value state)]\<rparr>]\<rparr>)"

definition GetToUInt64StorageItem :: "u64 \<Rightarrow> u64 \<Rightarrow> StorageItem res" where
  "GetToUInt64StorageItem toBalance val =
     bind_res (WriteUint64 (toBalance + val) NewZeroCopySink) (\<lambda>sink. Ok \<lparr>StateVersion = 0, item_Value = snk_Bytes sink\<rparr>)"

definition GenTotalSupplyKey :: "Address \<Rightarrow> bytes" where
  "GenTotalSupplyKey contract = contract @ TOTAL_SUPPLY_NAME"

definition GenBalanceKey :: "Address \<Rightarrow> Address \<Rightarrow> bytes" where
  "GenBalanceKey contract addr = contract @ addr"

definition GenApproveKey :: "Address \<Rightarrow> Address \<Rightarrow> Address \<Rightarrow> bytes" where
  "GenApproveKey contract from to = (let temp = contract @ from in temp @ to)"

definition genTransferFromKey :: "Address \<Rightarrow> TransferFrom \<Rightarrow> bytes" where
  "genTransferFromKey contract state = (let temp = contract @ tf_From state in temp @ tf_Sender state)"

definition genAddressUnboundOffsetKey :: "Address \<Rightarrow> Address \<Rightarrow> bytes" where
  "genAddressUnboundOffsetKey contract address = (let temp = contract @ UNBOUND_TIME_OFFSET in temp @ address)"

text \<open>The text of the error of \<open>fromTransfer\<close> names the current contract and the account.\<close>

definition fromTransfer :: "('s, 'i) PersistStore \<Rightarrow> bytes \<Rightarrow> u64 \<Rightarrow> ('s, 'h, u64) native" where
  "fromTransfer PS fromKey val native =
     bind_res (GetStorageUInt64 PS fromKey native) (\<lambda>(fromBalance, n1).
       if fromBalance < val then
         panic_unless (length fromKey \<ge> 20)
           (bind_res (current_contract n1) (\<lambda>_. Err ''[Transfer] balance insufficient.''))
       else if fromBalance = val then bind_res (delete_item fromKey n1) (\<lambda>(_, n2). Ok (fromBalance, n2))
       else bind_res (put_item fromKey (GenUInt64StorageItem (fromBalance - val)) n1) (\<lambda>(_, n2). Ok (fromBalance, n2)))"

definition toTransfer :: "('s, 'i) PersistStore \<Rightarrow> bytes \<Rightarrow> u64 \<Rightarrow> ('s, 'h, u64) native" where
  "toTransfer PS toKey val native =
     bind_res (GetStorageUInt64 PS toKey native) (\<lambda>(toBalance, n1).
     bind_res (put_item toKey (GetToUInt64StorageItem toBalance val) n1) (\<lambda>(_, n2). Ok (toBalance, n2)))"

definition fromApprove :: "('s, 'i) PersistStore \<Rightarrow> bytes \<Rightarrow> u64 \<Rightarrow> ('s, 'h, unit) native" where
  "fromApprove PS fromApproveKey val native =
     bind_res (GetStorageUInt64 PS fromApproveKey native) (\<lambda>(approveValue, n1).
       if approveValue < val then Err ''[TransferFrom] approve balance insufficient!''
       else if approveValue = val then delete_item fromApproveKey n1
       else put_item fromApproveKey (GenUInt64StorageItem (approveValue - val)) n1)"

definition Transfer :: "native_env \<Rightarrow> ('s, 'i) PersistStore \<Rightarrow> Address \<Rightarrow> State \<Rightarrow> ('s, 'h, u64 \<times> u64) native" where
  "Transfer env PS contract state native =
     (if \<not> CheckWitness (env_ripemd160 env) (st_From state) (ContextRef native) then Err ''authentication failed!''
      else
        bind_res (fromTransfer PS (GenBalanceKey contract (st_From state)) (st_Value state) native) (\<lambda>(fromBalance, n1).
        bind_res (toTransfer PS (GenBalanceKey contract (st_To state)) (st_Value state) n1) (\<lambda>(toBalance, n2).
          Ok ((fromBalance, toBalance), n2))))"

definition TransferedFrom ::
  "native_env \<Rightarrow> ('s, 'i) PersistStore \<Rightarrow> Address \<Rightarrow> TransferFrom \<Rightarrow> ('s, 'h, u64 \<times> u64) native" where
  "TransferedFrom env PS currentContract state native =
     (if CheckWitness (env_ripemd160 env) (tf_Sender state) (ContextRef native) = False then Err ''authentication failed!''
      else
        bind_res (fromApprove PS (genTransferFromKey currentContract state) (tf_Value state) native) (\<lambda>(_, n1).
        bind_res (fromTransfer PS (GenBalanceKey currentContract (tf_From state)) (tf_Value state) n1) (\<lambda>(fromBalance, n2).
        bind_res (toTransfer PS (GenBalanceKey currentContract (tf_To state)) (tf_Value state) n2) (\<lambda>(toBalance, n3).
          Ok ((fromBalance, toBalance), n3)))))"

definition getUnboundOffset :: "('s, 'i) PersistStore \<Rightarrow> Address \<Rightarrow> Address \<Rightarrow> ('s, 'h, u32) native" where
  "getUnboundOffset PS contract address native =
     bind_res (GetStorageUInt32 PS (genAddressUnboundOffsetKey contract address) native) (\<lambda>(offset, n1). Ok (offset, n1))"

section \<open>Storage as numbers\<close>

definition ok64 :: "(bytes \<Rightarrow> bytes) \<Rightarrow> bytes \<Rightarrow> bool" where
  "ok64 f k \<longleftrightarrow> (\<exists>v. stored64 (f k) = Ok v)"

definition num64 :: "(bytes \<Rightarrow> bytes) \<Rightarrow> bytes \<Rightarrow> nat" where
  "num64 f k = (case stored64 (f k) of Ok v \<Rightarrow> unat v | _ \<Rightarrow> 0)"

definition ok32 :: "(bytes \<Rightarrow> bytes) \<Rightarrow> bytes \<Rightarrow> bool" where
  "ok32 f k \<longleftrightarrow> (\<exists>v. stored32 (f k) = Ok v)"

definition num32 :: "(bytes \<Rightarrow> bytes) \<Rightarrow> bytes \<Rightarrow> nat" where
  "num32 f k = (case stored32 (f k) of Ok v \<Rightarrow> unat v | _ \<Rightarrow> 0)"

lemma ok64D: "ok64 f k \<Longrightarrow> \<exists>v. stored64 (f k) = Ok v \<and> unat v = num64 f k"
  by (auto simp: ok64_def num64_def)

lemma ok32D: "ok32 f k \<Longrightarrow> \<exists>v. stored32 (f k) = Ok v \<and> unat v = num32 f k"
  by (auto simp: ok32_def num32_def)

lemma num_upd [simp]:
  "num64 (f(k := item64 v)) j = (if j = k then unat v else num64 f j)"
  "num64 (f(k := [])) j = (if j = k then 0 else num64 f j)"
  "num32 (f(k := item32 w)) j = (if j = k then unat w else num32 f j)"
  by (simp_all add: num64_def num32_def)

lemma ok_upd [simp]:
  "ok64 (f(k := item64 v)) j \<longleftrightarrow> j = k \<or> ok64 f j"
  "ok64 (f(k := [])) j \<longleftrightarrow> j = k \<or> ok64 f j"
  "ok32 (f(k := item32 w)) j \<longleftrightarrow> j = k \<or> ok32 f j"
  by (auto simp: ok64_def ok32_def)

text \<open>A key gets a number; no other key changes.\<close>

definition sets :: "(bytes \<Rightarrow> bytes) \<Rightarrow> bytes \<Rightarrow> nat \<Rightarrow> (bytes \<Rightarrow> bytes) \<Rightarrow> bool" where
  "sets f k n g \<longleftrightarrow> (\<exists>v. unat v = n \<and> (g = f(k := item64 v) \<or> v = 0 \<and> g = f(k := [])))"

lemma sets_item: "unat v = n \<Longrightarrow> sets f k n (f(k := item64 v))"
  by (auto simp: sets_def)

lemma sets_nil: "n = 0 \<Longrightarrow> sets f k n (f(k := []))"
  by (auto simp: sets_def intro: exI [of _ 0])

lemma setsD:
  assumes "sets f k n g"
  shows "num64 g = (num64 f)(k := n)" "ok64 g = (\<lambda>j. j = k \<or> ok64 f j)" "j \<noteq> k \<Longrightarrow> g j = f j"
proof -
  obtain v where "unat v = n" "g = f(k := item64 v) \<or> v = 0 \<and> g = f(k := [])"
    using assms by (auto simp: sets_def)
  then show "num64 g = (num64 f)(k := n)" "ok64 g = (\<lambda>j. j = k \<or> ok64 f j)" "j \<noteq> k \<Longrightarrow> g j = f j"
    by (elim disjE; rule ext | force)+
qed

lemma fromTransfer_shows:
  assumes sh: "ns_shows PS ns f" and k: "ok64 f k" "20 \<le> length k" and c: "current_contract ns = Ok c"
  shows "if num64 f k < unat v then fromTransfer PS k v ns = Err ''[Transfer] balance insufficient.''
    else \<exists>b db g. fromTransfer PS k v ns = Ok (b, ns\<lparr>ns_CacheDB := db\<rparr>) \<and> unat b = num64 f k
      \<and> ns_shows PS (ns\<lparr>ns_CacheDB := db\<rparr>) g \<and> sets f k (num64 f k - unat v) g"
proof -
  obtain b where b: "stored64 (f k) = Ok b" "unat b = num64 f k"
    using ok64D [OF k(1)] by blast
  obtain db where db: "GetStorageUInt64 PS k ns = Ok (b, ns\<lparr>ns_CacheDB := db\<rparr>)" "ns_shows PS (ns\<lparr>ns_CacheDB := db\<rparr>) f"
    using GetStorageUInt64_shows [OF sh, of k] b(1) by auto
  obtain db1 where d: "delete_item k (ns\<lparr>ns_CacheDB := db\<rparr>) = Ok ((), ns\<lparr>ns_CacheDB := db1\<rparr>)"
    "ns_shows PS (ns\<lparr>ns_CacheDB := db1\<rparr>) (f(k := []))"
    using delete_item_shows [OF db(2), of k] by auto
  obtain db2 where p: "put_item k (GenUInt64StorageItem (b - v)) (ns\<lparr>ns_CacheDB := db\<rparr>) = Ok ((), ns\<lparr>ns_CacheDB := db2\<rparr>)"
    "ns_shows PS (ns\<lparr>ns_CacheDB := db2\<rparr>) (f(k := item64 (b - v)))"
    using put_item64_shows [OF db(2), of k "b - v"] by auto
  have lt: "b < v \<longleftrightarrow> num64 f k < unat v"
    using b(2) by (simp add: word_less_nat_alt)
  have s: "sets f k (num64 f k - unat v) (f(k := item64 (b - v)))" if "\<not> b < v"
    using that b(2) by (intro sets_item) (simp add: unat_sub not_less)
  have s0: "sets f k (num64 f k - unat v) (f(k := []))" if "b = v"
    using that b(2) by (intro sets_nil) simp
  have "current_contract (ns\<lparr>ns_CacheDB := db\<rparr>) = Ok c"
    using c by (simp add: current_contract_def)
  then show ?thesis
    using db(1) d p b(2) lt s s0 k(2)
    by (cases "b < v"; cases "b = v") (auto simp: fromTransfer_def)
qed

lemma GetToUInt64StorageItem_eq: "GetToUInt64StorageItem a b = GenUInt64StorageItem (a + b)"
  by (simp only: GetToUInt64StorageItem_def GenUInt64StorageItem_def)

lemma toTransfer_shows:
  assumes sh: "ns_shows PS ns f" and k: "ok64 f k" "num64 f k + unat v < 2 ^ 64"
  shows "\<exists>b db g. toTransfer PS k v ns = Ok (b, ns\<lparr>ns_CacheDB := db\<rparr>) \<and> unat b = num64 f k
      \<and> ns_shows PS (ns\<lparr>ns_CacheDB := db\<rparr>) g \<and> sets f k (num64 f k + unat v) g"
proof -
  obtain b where b: "stored64 (f k) = Ok b" "unat b = num64 f k"
    using ok64D [OF k(1)] by blast
  obtain db where db: "GetStorageUInt64 PS k ns = Ok (b, ns\<lparr>ns_CacheDB := db\<rparr>)" "ns_shows PS (ns\<lparr>ns_CacheDB := db\<rparr>) f"
    using GetStorageUInt64_shows [OF sh, of k] b(1) by auto
  obtain db2 where p: "put_item k (GenUInt64StorageItem (b + v)) (ns\<lparr>ns_CacheDB := db\<rparr>) = Ok ((), ns\<lparr>ns_CacheDB := db2\<rparr>)"
    "ns_shows PS (ns\<lparr>ns_CacheDB := db2\<rparr>) (f(k := item64 (b + v)))"
    using put_item64_shows [OF db(2), of k "b + v"] by auto
  have "sets f k (num64 f k + unat v) (f(k := item64 (b + v)))"
    using k(2) b(2) by (intro sets_item) (simp add: unat_word_ariths)
  then show ?thesis
    using db(1) p b(2) by (auto simp: toTransfer_def GetToUInt64StorageItem_eq simp del: GenItem)
qed

lemma fromApprove_shows:
  assumes sh: "ns_shows PS ns f" and k: "ok64 f k"
  shows "if num64 f k < unat v then fromApprove PS k v ns = Err ''[TransferFrom] approve balance insufficient!''
    else \<exists>db g. fromApprove PS k v ns = Ok ((), ns\<lparr>ns_CacheDB := db\<rparr>)
      \<and> ns_shows PS (ns\<lparr>ns_CacheDB := db\<rparr>) g \<and> sets f k (num64 f k - unat v) g"
proof -
  obtain b where b: "stored64 (f k) = Ok b" "unat b = num64 f k"
    using ok64D [OF k(1)] by blast
  obtain db where db: "GetStorageUInt64 PS k ns = Ok (b, ns\<lparr>ns_CacheDB := db\<rparr>)" "ns_shows PS (ns\<lparr>ns_CacheDB := db\<rparr>) f"
    using GetStorageUInt64_shows [OF sh, of k] b(1) by auto
  obtain db1 where d: "delete_item k (ns\<lparr>ns_CacheDB := db\<rparr>) = Ok ((), ns\<lparr>ns_CacheDB := db1\<rparr>)"
    "ns_shows PS (ns\<lparr>ns_CacheDB := db1\<rparr>) (f(k := []))"
    using delete_item_shows [OF db(2), of k] by auto
  obtain db2 where p: "put_item k (GenUInt64StorageItem (b - v)) (ns\<lparr>ns_CacheDB := db\<rparr>) = Ok ((), ns\<lparr>ns_CacheDB := db2\<rparr>)"
    "ns_shows PS (ns\<lparr>ns_CacheDB := db2\<rparr>) (f(k := item64 (b - v)))"
    using put_item64_shows [OF db(2), of k "b - v"] by auto
  have "b < v \<longleftrightarrow> num64 f k < unat v"
    using b(2) by (simp add: word_less_nat_alt)
  moreover have "sets f k (num64 f k - unat v) (f(k := item64 (b - v)))" if "\<not> b < v"
    using that b(2) by (intro sets_item) (simp add: unat_sub not_less)
  moreover have "sets f k (num64 f k - unat v) (f(k := []))" if "b = v"
    using that b(2) by (intro sets_nil) simp
  ultimately show ?thesis
    using db(1) d p by (cases "b < v"; cases "b = v") (auto simp: fromApprove_def)
qed

section \<open>The slots of the tokens\<close>

text \<open>
  The numbers the two contracts keep, by what they mean. Their keys are apart, so a write to one leaves the
  others as they are.
\<close>

datatype slot = Balance Address Address | Allowance Address Address Address | Offset Address Address | Supply Address

primrec slot_key :: "slot \<Rightarrow> bytes" where
  "slot_key (Balance c a) = GenBalanceKey c a"
| "slot_key (Allowance c a b) = GenApproveKey c a b"
| "slot_key (Offset c a) = genAddressUnboundOffsetKey c a"
| "slot_key (Supply c) = GenTotalSupplyKey c"

definition token :: "Address \<Rightarrow> bool" where
  "token c \<longleftrightarrow> c = OntContractAddress \<or> c = OngContractAddress"

primrec slot_ok :: "slot \<Rightarrow> bool" where
  "slot_ok (Balance c a) \<longleftrightarrow> token c \<and> length a = 20"
| "slot_ok (Allowance c a b) \<longleftrightarrow> token c \<and> length a = 20 \<and> length b = 20"
| "slot_ok (Offset c a) \<longleftrightarrow> token c \<and> length a = 20"
| "slot_ok (Supply c) \<longleftrightarrow> token c"

primrec is_offset :: "slot \<Rightarrow> bool" where
  "is_offset (Balance c a) \<longleftrightarrow> False"
| "is_offset (Allowance c a b) \<longleftrightarrow> False"
| "is_offset (Offset c a) \<longleftrightarrow> True"
| "is_offset (Supply c) \<longleftrightarrow> False"

definition typed :: "(bytes \<Rightarrow> bytes) \<Rightarrow> bool" where
  "typed f \<longleftrightarrow> (\<forall>x. slot_ok x \<longrightarrow> (if is_offset x then ok32 f (slot_key x) else ok64 f (slot_key x)))"

definition led :: "(bytes \<Rightarrow> bytes) \<Rightarrow> slot \<Rightarrow> nat" where
  "led f x = (if \<not> slot_ok x then 0 else if is_offset x then num32 f (slot_key x) else num64 f (slot_key x))"

text \<open>The keys of no slot keep their bytes.\<close>

definition same_rest :: "(bytes \<Rightarrow> bytes) \<Rightarrow> (bytes \<Rightarrow> bytes) \<Rightarrow> bool" where
  "same_rest f g \<longleftrightarrow> (\<forall>k. (\<forall>x. slot_ok x \<longrightarrow> k \<noteq> slot_key x) \<longrightarrow> g k = f k)"

lemma same_rest_refl [simp]: "same_rest f f"
  by (simp add: same_rest_def)

lemma same_rest_trans: "same_rest f g \<Longrightarrow> same_rest g h \<Longrightarrow> same_rest f h"
  by (simp add: same_rest_def)

lemma length_token: "token c \<Longrightarrow> length c = 20"
  by (auto simp: token_def)

lemma slot_key_inj: "slot_ok x \<Longrightarrow> slot_ok y \<Longrightarrow> slot_key x = slot_key y \<Longrightarrow> x = y"
proof -
  assume ok: "slot_ok x" "slot_ok y" and eq: "slot_key x = slot_key y"
  have "length (slot_key x) = (case x of Balance _ _ \<Rightarrow> 40 | Allowance _ _ _ \<Rightarrow> 60 | Offset _ _ \<Rightarrow> 57 | Supply _ \<Rightarrow> 31)"
    if "slot_ok x" for x
    using that by (cases x) (auto dest!: length_token
        simp: GenBalanceKey_def GenApproveKey_def genAddressUnboundOffsetKey_def GenTotalSupplyKey_def
          TOTAL_SUPPLY_NAME_def UNBOUND_TIME_OFFSET_def str_def)
  from this [OF ok(1)] this [OF ok(2)] eq ok show ?thesis
    by (cases x; cases y) (auto dest!: length_token
        simp: GenBalanceKey_def GenApproveKey_def genAddressUnboundOffsetKey_def GenTotalSupplyKey_def)
qed

lemma sets_led:
  assumes "sets f (slot_key x) n g" "slot_ok x" "\<not> is_offset x"
  shows "led g = (led f)(x := n)" "typed f \<Longrightarrow> typed g" "same_rest f g"
proof -
  have other: "g (slot_key y) = f (slot_key y)" if "slot_ok y" "y \<noteq> x" for y
    using setsD(3) [OF assms(1)] slot_key_inj [OF that(1) assms(2)] that by blast
  show "led g = (led f)(x := n)"
    using assms setsD(1) [OF assms(1)] other by (auto simp: led_def num32_def num64_def fun_eq_iff)
  show "typed g" if "typed f"
    using that assms setsD(2) [OF assms(1)] other unfolding typed_def ok32_def ok64_def by (metis assms(3))
  show "same_rest f g"
    using setsD(3) [OF assms(1)] assms(2) by (auto simp: same_rest_def)
qed

lemma offset_led:
  fixes f :: "bytes \<Rightarrow> bytes" and w :: u32
  assumes "slot_ok (Offset c a)"
  defines "g \<equiv> f(slot_key (Offset c a) := item32 w)"
  shows "led g = (led f)(Offset c a := unat w)" "typed f \<Longrightarrow> typed g" "same_rest f g"
proof -
  have other: "g (slot_key y) = f (slot_key y)" if "slot_ok y" "y \<noteq> Offset c a" for y
    using slot_key_inj [OF that(1) assms(1)] that by (auto simp: g_def)
  have w: "num32 g (slot_key (Offset c a)) = unat w" "ok32 g (slot_key (Offset c a))"
    unfolding g_def by simp_all
  show "led g = (led f)(Offset c a := unat w)"
    using assms(1) w(1) other unfolding led_def num64_def fun_eq_iff by (auto simp: num32_def simp del: slot_key.simps)
  show "typed g" if "typed f"
    unfolding typed_def
  proof (intro allI impI)
    fix x assume x: "slot_ok x"
    show "if is_offset x then ok32 g (slot_key x) else ok64 g (slot_key x)"
      using that w(2) other [OF x] x by (cases "x = Offset c a") (auto simp: typed_def ok32_def ok64_def simp del: slot_key.simps)
  qed
  show "same_rest f g"
    using assms(1) by (auto simp: same_rest_def g_def simp del: slot_key.simps)
qed

definition addrs :: "Address set" where
  "addrs = {a. length a = 20}"

lemma finite_addrs [simp]: "finite addrs"
  using finite_lists_length_eq [of "UNIV :: byte set" 20] by (simp add: addrs_def)

definition issued :: "Address \<Rightarrow> (slot \<Rightarrow> nat) \<Rightarrow> nat" where
  "issued c L = (\<Sum>a\<in>addrs. L (Balance c a))"

text \<open>A payment.\<close>

definition pay :: "Address \<Rightarrow> Address \<Rightarrow> Address \<Rightarrow> nat \<Rightarrow> (slot \<Rightarrow> nat) \<Rightarrow> slot \<Rightarrow> nat" where
  "pay c from to v L = (let L1 = L(Balance c from := L (Balance c from) - v) in L1(Balance c to := L1 (Balance c to) + v))"

lemma sum_fun_upd: "finite A \<Longrightarrow> x \<in> A \<Longrightarrow> (\<Sum>a\<in>A. (f(x := n)) a) + f x = (\<Sum>a\<in>A. f a) + (n :: nat)"
  by (simp add: sum.remove [of A x] fun_upd_def)

lemma issued_upd:
  assumes "a \<in> addrs"
  shows "issued c (L(Balance c a := n)) + L (Balance c a) = issued c L + n"
  using sum_fun_upd [OF finite_addrs assms, of "\<lambda>a. L (Balance c a)" n]
  by (simp add: issued_def fun_upd_def cong: if_cong)

lemma issued_pay:
  assumes "from \<in> addrs" "to \<in> addrs" "v \<le> L (Balance c from)"
  shows "issued c (pay c from to v L) = issued c L"
proof -
  let ?L1 = "L(Balance c from := L (Balance c from) - v)"
  have "issued c ?L1 + L (Balance c from) = issued c L + (L (Balance c from) - v)"
    by (rule issued_upd [OF assms(1)])
  moreover have "issued c (?L1(Balance c to := ?L1 (Balance c to) + v)) + ?L1 (Balance c to) = issued c ?L1 + (?L1 (Balance c to) + v)"
    by (rule issued_upd [OF assms(2)])
  ultimately show ?thesis
    using assms(3) by (simp add: pay_def Let_def)
qed

lemma balance_le_issued: "a \<in> addrs \<Longrightarrow> L (Balance c a) \<le> issued c L"
  unfolding issued_def by (rule member_le_sum) auto

lemma pay_bound:
  assumes "from \<in> addrs" "to \<in> addrs" "v \<le> L (Balance c from)" "issued c L < 2 ^ 64"
  shows "(L(Balance c from := L (Balance c from) - v)) (Balance c to) + v < 2 ^ 64"
  using balance_le_issued [OF assms(2), of "pay c from to v L" c] issued_pay [of "from" to v L c] assms
  by (simp add: pay_def Let_def)

section \<open>Payments\<close>

lemma typed_ok64: "typed f \<Longrightarrow> slot_ok x \<Longrightarrow> \<not> is_offset x \<Longrightarrow> ok64 f (slot_key x) \<and> num64 f (slot_key x) = led f x"
  by (auto simp: typed_def led_def)

lemma move_shows:
  fixes v :: u64 and c "from" to :: Address
  assumes sh: "ns_shows PS ns f" "typed f" and c: "current_contract ns = Ok c'"
    and ok: "slot_ok (Balance c from)" "slot_ok (Balance c to)" and small: "issued c (led f) < 2 ^ 64"
  defines "m \<equiv> bind_res (fromTransfer PS (GenBalanceKey c from) v ns) (\<lambda>(b, n1).
      bind_res (toTransfer PS (GenBalanceKey c to) v n1) (\<lambda>(b', n2). Ok ((b, b'), n2)))"
  shows "if led f (Balance c from) < unat v then m = Err ''[Transfer] balance insufficient.''
    else \<exists>b b' db g. m = Ok ((b, b'), ns\<lparr>ns_CacheDB := db\<rparr>) \<and> ns_shows PS (ns\<lparr>ns_CacheDB := db\<rparr>) g \<and> typed g \<and> same_rest f g
      \<and> led g = pay c from to (unat v) (led f) \<and> unat b = led f (Balance c from)
      \<and> unat b' = ((led f)(Balance c from := led f (Balance c from) - unat v)) (Balance c to)"
proof (cases "led f (Balance c from) < unat v")
  case True
  have "20 \<le> length (GenBalanceKey c from)"
    using ok(1) by (simp add: GenBalanceKey_def)
  then have "fromTransfer PS (GenBalanceKey c from) v ns = Err ''[Transfer] balance insufficient.''"
    using fromTransfer_shows [OF sh(1), of "GenBalanceKey c from" c' v] typed_ok64 [OF sh(2) ok(1)] c True by simp
  then show ?thesis
    using True by (simp add: m_def)
next
  case False
  have in_addrs: "from \<in> addrs" "to \<in> addrs" and len: "20 \<le> length (GenBalanceKey c from)"
    using ok by (simp_all add: addrs_def GenBalanceKey_def)
  obtain b db g where fr: "fromTransfer PS (GenBalanceKey c from) v ns = Ok (b, ns\<lparr>ns_CacheDB := db\<rparr>)"
    "unat b = led f (Balance c from)" "ns_shows PS (ns\<lparr>ns_CacheDB := db\<rparr>) g"
    "sets f (GenBalanceKey c from) (led f (Balance c from) - unat v) g"
    using fromTransfer_shows [OF sh(1) _ len c, of v] typed_ok64 [OF sh(2) ok(1)] False by auto
  then have g: "led g = (led f)(Balance c from := led f (Balance c from) - unat v)" "typed g" "same_rest f g"
    using sets_led [of f "Balance c from" _ g] ok(1) sh(2) by auto
  have "led g (Balance c to) + unat v < 2 ^ 64"
    unfolding g(1) using False in_addrs small by (intro pay_bound) simp_all
  then obtain b' db' h where to: "toTransfer PS (GenBalanceKey c to) v (ns\<lparr>ns_CacheDB := db\<rparr>) = Ok (b', ns\<lparr>ns_CacheDB := db'\<rparr>)"
    "unat b' = led g (Balance c to)" "ns_shows PS (ns\<lparr>ns_CacheDB := db'\<rparr>) h"
    "sets g (GenBalanceKey c to) (led g (Balance c to) + unat v) h"
    using toTransfer_shows [OF fr(3), of "GenBalanceKey c to" v] typed_ok64 [OF g(2) ok(2)] by auto
  then have h: "led h = (led g)(Balance c to := led g (Balance c to) + unat v)" "typed h" "same_rest g h"
    using sets_led [of g "Balance c to" _ h] ok(2) g(2) by auto
  have "led h = pay c from to (unat v) (led f)"
    by (simp only: h(1) g(1) pay_def Let_def)
  moreover have "m = Ok ((b, b'), ns\<lparr>ns_CacheDB := db'\<rparr>)"
    using fr(1) to(1) by (simp add: m_def)
  ultimately show ?thesis
    using False to(2,3) fr(2) g(1) h(2) same_rest_trans [OF g(3) h(3)] by auto
qed

text \<open>\<open>Transfer\<close> and \<open>TransferedFrom\<close> on every branch.\<close>

lemma Transfer_shows:
  assumes "ns_shows PS ns f" "typed f" "current_contract ns = Ok c'" "token c" "state_ok st" "issued c (led f) < 2 ^ 64"
  shows "if \<not> CheckWitness (env_ripemd160 env) (st_From st) (ContextRef ns) \<or> led f (Balance c (st_From st)) < unat (st_Value st)
    then \<exists>e. Transfer env PS c st ns = Err e
    else \<exists>b b' db g. Transfer env PS c st ns = Ok ((b, b'), ns\<lparr>ns_CacheDB := db\<rparr>) \<and> ns_shows PS (ns\<lparr>ns_CacheDB := db\<rparr>) g
      \<and> typed g \<and> same_rest f g \<and> led g = pay c (st_From st) (st_To st) (unat (st_Value st)) (led f)
      \<and> unat b = led f (Balance c (st_From st))
      \<and> unat b' = ((led f)(Balance c (st_From st) := led f (Balance c (st_From st)) - unat (st_Value st))) (Balance c (st_To st))"
  using move_shows [OF assms(1-3), of c "st_From st" "st_To st" "st_Value st"] assms(4-6)
  by (auto simp: Transfer_def state_ok_def split: if_splits)

lemma TransferedFrom_shows:
  assumes sh: "ns_shows PS ns f" "typed f" and c': "current_contract ns = Ok c'" and c: "token c"
    and len: "length (tf_Sender tf) = 20" "length (tf_From tf) = 20" "length (tf_To tf) = 20" and small: "issued c (led f) < 2 ^ 64"
  defines "L \<equiv> (led f)(Allowance c (tf_From tf) (tf_Sender tf) := led f (Allowance c (tf_From tf) (tf_Sender tf)) - unat (tf_Value tf))"
  shows "if \<not> CheckWitness (env_ripemd160 env) (tf_Sender tf) (ContextRef ns)
      \<or> led f (Allowance c (tf_From tf) (tf_Sender tf)) < unat (tf_Value tf) \<or> led f (Balance c (tf_From tf)) < unat (tf_Value tf)
    then \<exists>e. TransferedFrom env PS c tf ns = Err e
    else \<exists>b b' db g. TransferedFrom env PS c tf ns = Ok ((b, b'), ns\<lparr>ns_CacheDB := db\<rparr>) \<and> ns_shows PS (ns\<lparr>ns_CacheDB := db\<rparr>) g
      \<and> typed g \<and> same_rest f g \<and> led g = pay c (tf_From tf) (tf_To tf) (unat (tf_Value tf)) L
      \<and> unat b = led f (Balance c (tf_From tf))
      \<and> unat b' = (L(Balance c (tf_From tf) := L (Balance c (tf_From tf)) - unat (tf_Value tf))) (Balance c (tf_To tf))"
proof -
  let ?x = "Allowance c (tf_From tf) (tf_Sender tf)" and ?v = "unat (tf_Value tf)"
  have x: "slot_ok ?x" "\<not> is_offset ?x" and key: "genTransferFromKey c tf = slot_key ?x"
    using c len by (simp_all add: genTransferFromKey_def GenApproveKey_def)
  note approve = fromApprove_shows [OF sh(1), of "slot_key ?x" "tf_Value tf"]
  show ?thesis
  proof (cases "\<not> CheckWitness (env_ripemd160 env) (tf_Sender tf) (ContextRef ns) \<or> led f ?x < ?v")
    case True
    then show ?thesis
      using approve typed_ok64 [OF sh(2) x] by (auto simp: TransferedFrom_def key simp del: slot_key.simps)
  next
    case False
    then obtain db g where g0: "fromApprove PS (slot_key ?x) (tf_Value tf) ns = Ok ((), ns\<lparr>ns_CacheDB := db\<rparr>)"
      "ns_shows PS (ns\<lparr>ns_CacheDB := db\<rparr>) g" "sets f (slot_key ?x) (led f ?x - ?v) g"
      using approve typed_ok64 [OF sh(2) x] by auto
    then have g: "led g = L" "typed g" "same_rest f g"
      using sets_led [OF g0(3) x] sh(2) by (auto simp: L_def)
    have "current_contract (ns\<lparr>ns_CacheDB := db\<rparr>) = Ok c'" "issued c (led g) < 2 ^ 64"
      using c' small by (simp_all add: current_contract_def g(1) L_def issued_def)
    note m = move_shows [OF g0(2) g(2) this(1) _ _ this(2), of "tf_From tf" "tf_To tf" "tf_Value tf"]
    have bal: "led f (Balance c (tf_From tf)) = led g (Balance c (tf_From tf))"
      by (simp add: g(1) L_def)
    have "TransferedFrom env PS c tf ns = bind_res (fromTransfer PS (GenBalanceKey c (tf_From tf)) (tf_Value tf) (ns\<lparr>ns_CacheDB := db\<rparr>))
        (\<lambda>(b, n1). bind_res (toTransfer PS (GenBalanceKey c (tf_To tf)) (tf_Value tf) n1) (\<lambda>(b', n2). Ok ((b, b'), n2)))"
      using False g0(1) by (simp add: TransferedFrom_def key del: slot_key.simps)
    then show ?thesis
      using m False c len same_rest_trans [OF g(3)] unfolding bal g(1) [symmetric]
      by (cases "led g (Balance c (tf_From tf)) < ?v") (simp, force)
  qed
qed

text \<open>A handler changes the cache and its notifications, nothing else of the service.\<close>

definition only_writes :: "('s, 'h) NativeService \<Rightarrow> ('s, 'h) NativeService \<Rightarrow> bool" where
  "only_writes ns ns' \<longleftrightarrow> ServiceMap ns' = ServiceMap ns \<and> InvokeParam ns' = InvokeParam ns \<and> ns_Input ns' = ns_Input ns
     \<and> ns_Height ns' = ns_Height ns \<and> ns_Time ns' = ns_Time ns \<and> ns_BlockHash ns' = ns_BlockHash ns
     \<and> ContextRef ns' = ContextRef ns \<and> ns_PreExec ns' = ns_PreExec ns \<and> ns_CrossHashes ns' = ns_CrossHashes ns"

lemma only_writes_refl [simp]: "only_writes ns ns"
  by (simp add: only_writes_def)

lemma only_writes_trans: "only_writes a b \<Longrightarrow> only_writes b c \<Longrightarrow> only_writes a c"
  by (simp add: only_writes_def)

lemma only_writes_db [simp]: "only_writes ns (ns\<lparr>ns_CacheDB := db\<rparr>)"
  by (simp add: only_writes_def)

lemma only_writesD:
  assumes "only_writes ns ns'"
  shows "ContextRef ns' = ContextRef ns" "current_contract ns' = current_contract ns" "ns_Time ns' = ns_Time ns"
    "ns_PreExec ns' = ns_PreExec ns" "ns_Input ns' = ns_Input ns" "ServiceMap ns' = ServiceMap ns"
  using assms by (auto simp: only_writes_def current_contract_def)

lemma AddNotifications_writes [simp]: "only_writes ns (AddNotifications env c st ns)"
  by (simp add: AddNotifications_def only_writes_def)

lemma AddNotifications_shows [simp]: "ns_shows PS (AddNotifications env c st ns) f = ns_shows PS ns f"
  by (simp add: AddNotifications_def ns_shows_def)

text \<open>A list of payments, all or nothing: payments of zero are skipped.\<close>

fun payments :: "(Address \<Rightarrow> bool) \<Rightarrow> nat \<Rightarrow> Address \<Rightarrow> State list \<Rightarrow> (slot \<Rightarrow> nat) \<Rightarrow> (slot \<Rightarrow> nat) option" where
  "payments auth cap c [] L = Some L"
| "payments auth cap c (st # sts) L =
     (if st_Value st = 0 then payments auth cap c sts L
      else if cap < unat (st_Value st) \<or> \<not> auth (st_From st) \<or> L (Balance c (st_From st)) < unat (st_Value st) then None
      else payments auth cap c sts (pay c (st_From st) (st_To st) (unat (st_Value st)) L))"

lemma payments_issued:
  assumes "payments auth cap c sts L = Some M" "list_all state_ok sts"
  shows "issued c M = issued c L"
  using assms
proof (induction sts arbitrary: L)
  case (Cons st sts)
  show ?case
  proof (cases "st_Value st = 0")
    case False
    then have "payments auth cap c sts (pay c (st_From st) (st_To st) (unat (st_Value st)) L) = Some M"
      "unat (st_Value st) \<le> L (Balance c (st_From st))"
      using Cons.prems(1) by (auto split: if_splits)
    then show ?thesis
      using Cons issued_pay [of "st_From st" "st_To st" "unat (st_Value st)" L c] by (simp add: state_ok_def addrs_def)
  qed (use Cons in simp)
qed simp

lemma pay_other: "\<forall>a. x \<noteq> Balance c a \<Longrightarrow> pay c from to v L x = L x"
  by (auto simp: pay_def Let_def)

lemma payments_other:
  assumes "payments auth cap c sts L = Some M" "\<forall>a. x \<noteq> Balance c a"
  shows "M x = L x"
  using assms by (induction sts arbitrary: L) (auto simp: pay_other split: if_splits)

text \<open>Only the payer's balance can fall.\<close>

lemma payments_auth:
  assumes "payments auth cap c sts L = Some M" "M (Balance c a) < L (Balance c a)"
  shows "auth a"
  using assms
proof (induction sts arbitrary: L)
  case (Cons st sts)
  show ?case
  proof (cases "st_Value st = 0 \<or> st_From st = a")
    case False
    then have p: "payments auth cap c sts (pay c (st_From st) (st_To st) (unat (st_Value st)) L) = Some M"
      using Cons.prems(1) by (auto split: if_splits)
    have "L (Balance c a) \<le> pay c (st_From st) (st_To st) (unat (st_Value st)) L (Balance c a)"
      using False by (auto simp: pay_def Let_def)
    then show ?thesis
      using Cons.IH [OF p] Cons.prems(2) by linarith
  qed (use Cons in \<open>auto split: if_splits\<close>)
qed simp

end
