(* ===== verification/Ong.thy ===== *)
theory Ong
  imports Token
begin

text \<open>
  The utility token, \<open>src/smartcontract/service/native/ong/ong.go\<close>, and the reading of balances and
  allowances it shares with ONT (\<open>GetBalanceValue\<close> of \<open>ont.go\<close>). Each handler is specified on the numbers of
  the ledger: \<open>transfer\<close> pays or fails as a whole, \<open>transferFrom\<close> takes the value off the allowance as well.
\<close>

section \<open>The handlers\<close>

definition TRANSFER_FLAG :: byte where "TRANSFER_FLAG = 1"
definition APPROVE_FLAG :: byte where "APPROVE_FLAG = 2"

definition GetBalanceValue :: "('s, 'i) PersistStore \<Rightarrow> byte \<Rightarrow> ('s, 'h, bytes) native" where
  "GetBalanceValue PS flag native =
     bind_res (detail ''[GetBalanceValue] get from address error!'' (DecodeAddress (NewZeroCopySource (ns_Input native))))
       (\<lambda>(from, source).
     bind_res (current_contract native) (\<lambda>contract.
     bind_res
       (if flag = APPROVE_FLAG then
          bind_res (detail ''[GetBalanceValue] get from address error!'' (DecodeAddress source))
            (\<lambda>(to, _). Ok (GenApproveKey contract from to))
        else if flag = TRANSFER_FLAG then Ok (GenBalanceKey contract from)
        else Ok []) (\<lambda>key.
     bind_res (detail ''[GetBalanceValue] address parse error!'' (GetStorageUInt64 PS key native)) (\<lambda>(amount, n1).
       Ok (BigIntToNeoBytes (sint amount), n1)))))"

definition OngInit :: "native_env \<Rightarrow> ('s, 'i) PersistStore \<Rightarrow> ('s, 'h, bytes) native" where
  "OngInit env PS native =
     bind_res (current_contract native) (\<lambda>contract.
     bind_res (GetStorageUInt64 PS (GenTotalSupplyKey contract) native) (\<lambda>(amount, n1).
       if amount > 0 then Err ''Init ong has been completed!''
       else
         let item = GenUInt64StorageItem ONG_TOTAL_SUPPLY in
         bind_res (put_item (GenTotalSupplyKey contract) item n1) (\<lambda>(_, n2).
         bind_res (put_item (contract @ OntContractAddress) item n2) (\<lambda>(_, n3).
           Ok (BYTE_TRUE, AddNotifications env contract
             \<lparr>st_From = ADDRESS_EMPTY, st_To = OntContractAddress, st_Value = ONG_TOTAL_SUPPLY\<rparr> n3)))))"

fun OngTransfer_loop :: "native_env \<Rightarrow> ('s, 'i) PersistStore \<Rightarrow> Address \<Rightarrow> State list \<Rightarrow> ('s, 'h, unit) native" where
  "OngTransfer_loop env PS contract [] native = Ok ((), native)"
| "OngTransfer_loop env PS contract (v # states) native =
     (if st_Value v = 0 then OngTransfer_loop env PS contract states native
      else if st_Value v > ONG_TOTAL_SUPPLY then Err ''transfer ong amount over totalSupply''
      else
        bind_res (Transfer env PS contract v native) (\<lambda>(_, n1).
          OngTransfer_loop env PS contract states (AddNotifications env contract v n1)))"

definition OngTransfer :: "native_env \<Rightarrow> ('s, 'i) PersistStore \<Rightarrow> ('s, 'h, bytes) native" where
  "OngTransfer env PS native =
     bind_res (detail ''[OngTransfer] Transfers deserialize error!''
       (Transfers_Deserialization (NewZeroCopySource (ns_Input native)))) (\<lambda>(states, _).
     bind_res (current_contract native) (\<lambda>contract.
     bind_res (OngTransfer_loop env PS contract states native) (\<lambda>(_, n1). Ok (BYTE_TRUE, n1))))"

definition OngApprove :: "native_env \<Rightarrow> ('s, 'h, bytes) native" where
  "OngApprove env native =
     bind_res (detail ''[OngApprove] state deserialize error!''
       (State_Deserialization (NewZeroCopySource (ns_Input native)))) (\<lambda>(state, _).
       if st_Value state > ONG_TOTAL_SUPPLY then Err ''approve ong amount over totalSupply''
       else if CheckWitness (env_ripemd160 env) (st_From state) (ContextRef native) = False then Err ''authentication failed!''
       else
         bind_res (current_contract native) (\<lambda>contract.
         bind_res (put_item (GenApproveKey contract (st_From state) (st_To state)) (GenUInt64StorageItem (st_Value state)) native)
           (\<lambda>(_, n1). Ok (BYTE_TRUE, n1))))"

definition OngTransferFrom :: "native_env \<Rightarrow> ('s, 'i) PersistStore \<Rightarrow> ('s, 'h, bytes) native" where
  "OngTransferFrom env PS native =
     bind_res (detail ''[OntTransferFrom] State deserialize error!''
       (TransferFrom_Deserialization (NewZeroCopySource (ns_Input native)))) (\<lambda>(state, _).
       if tf_Value state = 0 then Ok (BYTE_FALSE, native)
       else if tf_Value state > ONG_TOTAL_SUPPLY then Err ''approve ong amount over totalSupply''
       else
         bind_res (current_contract native) (\<lambda>contract.
         bind_res (TransferedFrom env PS contract state native) (\<lambda>(_, n1).
           Ok (BYTE_TRUE, AddNotifications env contract
             \<lparr>st_From = tf_From state, st_To = tf_To state, st_Value = tf_Value state\<rparr> n1))))"

definition OngName :: "('s, 'h, bytes) native" where
  "OngName native = Ok (str ''ONG Token'', native)"

definition OngDecimals :: "('s, 'h, bytes) native" where
  "OngDecimals native = Ok (big_Bytes 9, native)"

definition OngSymbol :: "('s, 'h, bytes) native" where
  "OngSymbol native = Ok (str ''ONG'', native)"

definition OngTotalSupply :: "('s, 'i) PersistStore \<Rightarrow> ('s, 'h, bytes) native" where
  "OngTotalSupply PS native =
     bind_res (current_contract native) (\<lambda>contract.
     bind_res (detail ''[OntTotalSupply] get totalSupply error!'' (GetStorageUInt64 PS (GenTotalSupplyKey contract) native))
       (\<lambda>(amount, n1). Ok (BigIntToNeoBytes (sint amount), n1)))"

definition OngBalanceOf :: "('s, 'i) PersistStore \<Rightarrow> ('s, 'h, bytes) native" where
  "OngBalanceOf PS native = GetBalanceValue PS TRANSFER_FLAG native"

definition OngAllowance :: "('s, 'i) PersistStore \<Rightarrow> ('s, 'h, bytes) native" where
  "OngAllowance PS native = GetBalanceValue PS APPROVE_FLAG native"

section \<open>What they do to the ledger\<close>

lemma unat_ONG_TOTAL_SUPPLY [simp]: "unat ONG_TOTAL_SUPPLY = 1000000000000000000"
  by (simp add: ONG_TOTAL_SUPPLY_def)

lemma OngTransfer_loop_shows:
  assumes "ns_shows PS ns f" "typed f" "current_contract ns = Ok c'" "token c" "list_all state_ok sts" "issued c (led f) < 2 ^ 64"
    and auth: "auth = (\<lambda>a. CheckWitness (env_ripemd160 env) a (ContextRef ns))"
  shows "case payments auth (unat ONG_TOTAL_SUPPLY) c sts (led f) of
      None \<Rightarrow> \<exists>e. OngTransfer_loop env PS c sts ns = Err e
    | Some L \<Rightarrow> \<exists>ns' g. OngTransfer_loop env PS c sts ns = Ok ((), ns') \<and> only_writes ns ns' \<and> ns_shows PS ns' g
        \<and> typed g \<and> same_rest f g \<and> led g = L"
  using assms
proof (induction sts arbitrary: ns f)
  case Nil
  then show ?case
    by auto
next
  case (Cons st sts)
  let ?v = "unat (st_Value st)"
  have st: "state_ok st" "list_all state_ok sts"
    using Cons.prems(5) by simp_all
  note T = Transfer_shows [OF Cons.prems(1-4) st(1) Cons.prems(6), of env]
  show ?case
  proof (cases "st_Value st = 0")
    case True
    then show ?thesis
      using Cons.IH [OF Cons.prems(1-4) st(2) Cons.prems(6,7)] by (auto split: option.splits)
  next
    case nz: False
    have lim: "ONG_TOTAL_SUPPLY < st_Value st \<longleftrightarrow> unat ONG_TOTAL_SUPPLY < ?v"
      by (simp only: word_less_nat_alt)
    show ?thesis
    proof (cases "unat ONG_TOTAL_SUPPLY < ?v \<or> \<not> auth (st_From st) \<or> led f (Balance c (st_From st)) < ?v")
      case True
      then show ?thesis
        using nz T lim Cons.prems(7) by auto
    next
      case False
      then obtain b db g where n1: "Transfer env PS c st ns = Ok (b, ns\<lparr>ns_CacheDB := db\<rparr>)"
        "ns_shows PS (ns\<lparr>ns_CacheDB := db\<rparr>) g" "typed g" "same_rest f g"
        "led g = pay c (st_From st) (st_To st) ?v (led f)"
        using T Cons.prems(7) by auto
      let ?ns = "AddNotifications env c st (ns\<lparr>ns_CacheDB := db\<rparr>)"
      have w: "only_writes ns ?ns"
        using only_writes_trans only_writes_db AddNotifications_writes by blast
      have "issued c (led g) < 2 ^ 64"
        unfolding n1(5) using issued_pay [of "st_From st" "st_To st" ?v "led f" c] False st(1) Cons.prems(6)
        by (simp add: state_ok_def addrs_def)
      then have ih: "case payments auth (unat ONG_TOTAL_SUPPLY) c sts (led g) of
          None \<Rightarrow> \<exists>e. OngTransfer_loop env PS c sts ?ns = Err e
        | Some L \<Rightarrow> \<exists>ns' h. OngTransfer_loop env PS c sts ?ns = Ok ((), ns') \<and> only_writes ?ns ns' \<and> ns_shows PS ns' h
            \<and> typed h \<and> same_rest g h \<and> led h = L"
        using n1(2,3) only_writesD(1,2) [OF w] Cons.prems(3,4,7) st(2) by (intro Cons.IH) simp_all
      have "OngTransfer_loop env PS c (st # sts) ns = OngTransfer_loop env PS c sts ?ns"
        using nz False lim n1(1) by simp
      moreover have "payments auth (unat ONG_TOTAL_SUPPLY) c (st # sts) (led f) = payments auth (unat ONG_TOTAL_SUPPLY) c sts (led g)"
        using nz False n1(5) by simp
      ultimately show ?thesis
        using ih only_writes_trans [OF w] same_rest_trans [OF n1(4)] by (auto split: option.splits)
    qed
  qed
qed

lemma OngTransfer_shows:
  assumes "ns_shows PS ns f" "typed f" "current_contract ns = Ok c" "token c" "issued c (led f) < 2 ^ 64"
    and sts: "Transfers_Deserialization (NewZeroCopySource (ns_Input ns)) = Ok (sts, s)"
  shows "case payments (\<lambda>a. CheckWitness (env_ripemd160 env) a (ContextRef ns)) (unat ONG_TOTAL_SUPPLY) c sts (led f) of
      None \<Rightarrow> \<exists>e. OngTransfer env PS ns = Err e
    | Some L \<Rightarrow> \<exists>ns' g. OngTransfer env PS ns = Ok (BYTE_TRUE, ns') \<and> only_writes ns ns' \<and> ns_shows PS ns' g
        \<and> typed g \<and> same_rest f g \<and> led g = L"
  using OngTransfer_loop_shows [OF assms(1-4) Transfers_Deserialization_ok [OF sts] assms(5) refl, of env] sts assms(3)
  by (auto simp: OngTransfer_def detail_def split: option.splits)

lemma OngApprove_shows:
  assumes "ns_shows PS ns f" "typed f" "current_contract ns = Ok c" "token c"
    and st: "State_Deserialization (NewZeroCopySource (ns_Input ns)) = Ok (st, s)"
  shows "if unat ONG_TOTAL_SUPPLY < unat (st_Value st) \<or> \<not> CheckWitness (env_ripemd160 env) (st_From st) (ContextRef ns)
    then \<exists>e. OngApprove env ns = Err e
    else \<exists>ns' g. OngApprove env ns = Ok (BYTE_TRUE, ns') \<and> only_writes ns ns' \<and> ns_shows PS ns' g \<and> typed g \<and> same_rest f g
      \<and> led g = (led f)(Allowance c (st_From st) (st_To st) := unat (st_Value st))"
proof -
  let ?x = "Allowance c (st_From st) (st_To st)"
  have x: "slot_ok ?x" "\<not> is_offset ?x"
    using State_Deserialization_ok [OF st] assms(4) by (simp_all add: state_ok_def)
  obtain db where db: "put_item (slot_key ?x) (GenUInt64StorageItem (st_Value st)) ns = Ok ((), ns\<lparr>ns_CacheDB := db\<rparr>)"
    "ns_shows PS (ns\<lparr>ns_CacheDB := db\<rparr>) (f(slot_key ?x := item64 (st_Value st)))"
    using put_item64_shows [OF assms(1)] by blast
  note g = sets_led [OF sets_item [OF refl, of f "slot_key ?x" "st_Value st"] x]
  have "ONG_TOTAL_SUPPLY < st_Value st \<longleftrightarrow> unat ONG_TOTAL_SUPPLY < unat (st_Value st)"
    by (simp only: word_less_nat_alt)
  then show ?thesis
    using st db g(1,3) g(2) [OF assms(2)] assms(3) only_writes_db [of ns db]
    by (auto simp: OngApprove_def detail_def simp del: unat_ONG_TOTAL_SUPPLY GenItem)
qed

lemma OngTransferFrom_shows:
  assumes "ns_shows PS ns f" "typed f" "current_contract ns = Ok c" "token c" "issued c (led f) < 2 ^ 64"
    and tf: "TransferFrom_Deserialization (NewZeroCopySource (ns_Input ns)) = Ok (tf, s)"
  defines "x \<equiv> Allowance c (tf_From tf) (tf_Sender tf)" and "v \<equiv> unat (tf_Value tf)"
  shows "if v = 0 then OngTransferFrom env PS ns = Ok (BYTE_FALSE, ns)
    else if unat ONG_TOTAL_SUPPLY < v \<or> \<not> CheckWitness (env_ripemd160 env) (tf_Sender tf) (ContextRef ns)
      \<or> led f x < v \<or> led f (Balance c (tf_From tf)) < v
    then \<exists>e. OngTransferFrom env PS ns = Err e
    else \<exists>ns' g. OngTransferFrom env PS ns = Ok (BYTE_TRUE, ns') \<and> only_writes ns ns' \<and> ns_shows PS ns' g \<and> typed g \<and> same_rest f g
      \<and> led g = pay c (tf_From tf) (tf_To tf) v ((led f)(x := led f x - v))"
proof -
  have len: "length (tf_Sender tf) = 20" "length (tf_From tf) = 20" "length (tf_To tf) = 20"
    using TransferFrom_Deserialization_ok [OF tf] by simp_all
  note T = TransferedFrom_shows [OF assms(1-4) len assms(5), of env, folded x_def v_def]
  have lim: "ONG_TOTAL_SUPPLY < tf_Value tf \<longleftrightarrow> unat ONG_TOTAL_SUPPLY < v" "tf_Value tf = 0 \<longleftrightarrow> v = 0"
    by (simp_all only: word_less_nat_alt v_def unat_eq_0)
  let ?st = "\<lparr>st_From = tf_From tf, st_To = tf_To tf, st_Value = tf_Value tf\<rparr>"
  have run: "OngTransferFrom env PS ns = (if v = 0 then Ok (BYTE_FALSE, ns)
      else if unat ONG_TOTAL_SUPPLY < v then Err ''approve ong amount over totalSupply''
      else bind_res (TransferedFrom env PS c tf ns) (\<lambda>(_, n1). Ok (BYTE_TRUE, AddNotifications env c ?st n1)))"
    using tf assms(3) by (simp add: OngTransferFrom_def detail_def lim del: unat_ONG_TOTAL_SUPPLY)
  show ?thesis
  proof (cases "\<not> CheckWitness (env_ripemd160 env) (tf_Sender tf) (ContextRef ns) \<or> led f x < v \<or> led f (Balance c (tf_From tf)) < v")
    case True
    then show ?thesis
      using T unfolding run by (auto simp del: unat_ONG_TOTAL_SUPPLY)
  next
    case False
    then obtain b db g where n1: "TransferedFrom env PS c tf ns = Ok (b, ns\<lparr>ns_CacheDB := db\<rparr>)"
      "ns_shows PS (ns\<lparr>ns_CacheDB := db\<rparr>) g" "typed g" "same_rest f g"
      "led g = pay c (tf_From tf) (tf_To tf) v ((led f)(x := led f x - v))"
      using T by auto
    have "only_writes ns (AddNotifications env c ?st (ns\<lparr>ns_CacheDB := db\<rparr>))"
      using only_writes_trans only_writes_db AddNotifications_writes by blast
    then show ?thesis
      using n1 False unfolding run by auto
  qed
qed

end
