(* ===== verification/Ont.thy ===== *)
theory Ont
  imports Ong
begin

text \<open>
  The governance token, \<open>src/smartcontract/service/native/ont/ont.go\<close>. Each transfer releases the ONG that
  payer and payee have earned since their last transfer: \<open>grantOng\<close> calls the contract of ONG, which adds it to
  the allowance of the holder on the account of the contract of ONT. The handlers of both tokens are
  registered and run here; a handler that calls another contract takes \<open>NativeCall\<close> as an argument.
\<close>

section \<open>The handlers\<close>

text \<open>\<open>fmt.Errorf\<close> with the text of an error behind a prefix.\<close>

definition fmt_err :: "string \<Rightarrow> 'a res \<Rightarrow> 'a res" where
  "fmt_err msg m = (case m of Err e \<Rightarrow> Err (msg @ e) | _ \<Rightarrow> m)"

text \<open>\<open>distribute[addr] += val\<close> on a Go map, kept as an association list.\<close>

definition dist_add :: "Address \<Rightarrow> u64 \<Rightarrow> (Address \<times> u64) list \<Rightarrow> (Address \<times> u64) list" where
  "dist_add addr val m =
     (if map_of m addr = None then m @ [(addr, 0 + val)]
      else map (\<lambda>(k, x). if k = addr then (k, x + val) else (k, x)) m)"

fun OntInit_read :: "nat \<Rightarrow> u64 \<Rightarrow> (Address \<times> u64) list \<Rightarrow> ZeroCopySource \<Rightarrow> (u64 \<times> (Address \<times> u64) list) res" where
  "OntInit_read 0 acc distribute input = Ok (acc, distribute)"
| "OntInit_read (Suc n) acc distribute input =
     bind_res (fmt_err ''read address error:'' (DecodeAddress input)) (\<lambda>(addr, i1).
     bind_res (fmt_err ''read value error:'' (DecodeVarUint i1)) (\<lambda>(val, i2).
       let (acc', overflow) = SafeAdd acc val in
       if overflow then Err ''wrong config. overflow detected''
       else OntInit_read n acc' (dist_add addr val distribute) i2))"

fun OntInit_put :: "native_env \<Rightarrow> Address \<Rightarrow> (Address \<times> u64) list \<Rightarrow> ('s, 'h, unit) native" where
  "OntInit_put env contract [] native = Ok ((), native)"
| "OntInit_put env contract ((addr, val) # ds) native =
     bind_res (put_item (GenBalanceKey contract addr) (GenUInt64StorageItem val) native) (\<lambda>(_, n1).
       OntInit_put env contract ds
         (AddNotifications env contract \<lparr>st_From = ADDRESS_EMPTY, st_To = addr, st_Value = val\<rparr> n1))"

text \<open>At the end of the input the error passed to \<open>NewDetailErr\<close> is the nil error of the read before.\<close>

definition OntInit :: "native_env \<Rightarrow> ('s, 'i) PersistStore \<Rightarrow> ('s, 'h, bytes) native" where
  "OntInit env PS native =
     bind_res (current_contract native) (\<lambda>contract.
     bind_res (GetStorageUInt64 PS (GenTotalSupplyKey contract) native) (\<lambda>(amount, n1).
       if amount > 0 then Err ''Init ont has been completed!''
       else
         bind_res (NextVarBytes (NewZeroCopySource (ns_Input n1))) (\<lambda>((buf, _, irregular, eof), _).
           if eof then
             (case NewDetailErr None ''serialization.ReadVarBytes, contract params deserialize error!'' of
                None \<Rightarrow> Ok (BYTE_FALSE, n1) | Some e \<Rightarrow> Err e)
           else if irregular then Err ErrIrregularData
           else
             bind_res (fmt_err ''read number error:'' (DecodeVarUint (NewZeroCopySource buf))) (\<lambda>(num, input).
             bind_res (OntInit_read (unat num) 0 [] input) (\<lambda>(amounts, distribute).
               if amounts \<noteq> ONT_TOTAL_SUPPLY then Err ''wrong config. total supply''
               else
                 bind_res (OntInit_put env contract (map_range env distribute) n1) (\<lambda>(_, n2).
                 bind_res (put_item (GenTotalSupplyKey contract) (GenUInt64StorageItem ONT_TOTAL_SUPPLY) n2) (\<lambda>(_, n3).
                   Ok (BYTE_TRUE, n3))))))))"

definition getApproveArgs ::
  "('s, 'i) PersistStore \<Rightarrow> Address \<Rightarrow> Address \<Rightarrow> Address \<Rightarrow> u64 \<Rightarrow> ('s, 'h, bytes) native" where
  "getApproveArgs PS contract ongContract address val native =
     bind_res (GetStorageUInt64 PS (GenApproveKey ongContract contract address) native) (\<lambda>(stateValue, n1).
       let approve = \<lparr>st_From = contract, st_To = address, st_Value = val + stateValue\<rparr> in
       bind_res (State_Serialization approve NewZeroCopySink) (\<lambda>bf. Ok (snk_Bytes bf, n1)))"

type_synonym ('s, 'h) native_call = "Address \<Rightarrow> bytes \<Rightarrow> bytes \<Rightarrow> ('s, 'h, bytes) native"

definition grantOng ::
  "('s, 'h) native_call \<Rightarrow> ('s, 'i) PersistStore \<Rightarrow> Address \<Rightarrow> Address \<Rightarrow> u64 \<Rightarrow> ('s, 'h, unit) native" where
  "grantOng call PS contract address balance native =
     bind_res (getUnboundOffset PS contract address native) (\<lambda>(startOffset, n1).
       if ns_Time n1 \<le> GENESIS_BLOCK_TIMESTAMP then Ok ((), n1)
       else
         let endOffset = ns_Time n1 - GENESIS_BLOCK_TIMESTAMP in
         if endOffset < startOffset then
           (if ns_PreExec n1 then Ok ((), n1) else Err ''grant Ong error: wrong timestamp'')
         else if endOffset = startOffset then Ok ((), n1)
         else
           bind_res
             (if balance \<noteq> 0 then
                bind_res (CalcUnbindOng balance startOffset endOffset) (\<lambda>val.
                bind_res (getApproveArgs PS contract OngContractAddress address val n1) (\<lambda>(args, n2).
                bind_res (call OngContractAddress (str ''approve'') args n2) (\<lambda>(_, n3). Ok ((), n3))))
              else Ok ((), n1))
             (\<lambda>(_, n4). put_item (genAddressUnboundOffsetKey contract address) (GenUInt32StorageItem endOffset) n4))"

fun OntTransfer_loop ::
  "native_env \<Rightarrow> ('s, 'h) native_call \<Rightarrow> ('s, 'i) PersistStore \<Rightarrow> Address \<Rightarrow> State list \<Rightarrow> ('s, 'h, unit) native" where
  "OntTransfer_loop env call PS contract [] native = Ok ((), native)"
| "OntTransfer_loop env call PS contract (v # states) native =
     (if st_Value v = 0 then OntTransfer_loop env call PS contract states native
      else if st_Value v > ONT_TOTAL_SUPPLY then Err ''transfer ont amount over totalSupply''
      else
        bind_res (Transfer env PS contract v native) (\<lambda>((fromBalance, toBalance), n1).
        bind_res (grantOng call PS contract (st_From v) fromBalance n1) (\<lambda>(_, n2).
        bind_res (grantOng call PS contract (st_To v) toBalance n2) (\<lambda>(_, n3).
          OntTransfer_loop env call PS contract states (AddNotifications env contract v n3)))))"

definition OntTransfer :: "native_env \<Rightarrow> ('s, 'h) native_call \<Rightarrow> ('s, 'i) PersistStore \<Rightarrow> ('s, 'h, bytes) native" where
  "OntTransfer env call PS native =
     bind_res (detail ''[Transfer] Transfers deserialize error!''
       (Transfers_Deserialization (NewZeroCopySource (ns_Input native)))) (\<lambda>(states, _).
     bind_res (current_contract native) (\<lambda>contract.
     bind_res (OntTransfer_loop env call PS contract states native) (\<lambda>(_, n1). Ok (BYTE_TRUE, n1))))"

definition OntTransferFrom :: "native_env \<Rightarrow> ('s, 'h) native_call \<Rightarrow> ('s, 'i) PersistStore \<Rightarrow> ('s, 'h, bytes) native" where
  "OntTransferFrom env call PS native =
     bind_res (detail ''[OntTransferFrom] State deserialize error!''
       (TransferFrom_Deserialization (NewZeroCopySource (ns_Input native)))) (\<lambda>(state, _).
       if tf_Value state = 0 then Ok (BYTE_FALSE, native)
       else if tf_Value state > ONT_TOTAL_SUPPLY then Err ''transferFrom ont amount over totalSupply''
       else
         bind_res (current_contract native) (\<lambda>contract.
         bind_res (TransferedFrom env PS contract state native) (\<lambda>((fromBalance, toBalance), n1).
         bind_res (grantOng call PS contract (tf_From state) fromBalance n1) (\<lambda>(_, n2).
         bind_res (grantOng call PS contract (tf_To state) toBalance n2) (\<lambda>(_, n3).
           Ok (BYTE_TRUE, AddNotifications env contract
             \<lparr>st_From = tf_From state, st_To = tf_To state, st_Value = tf_Value state\<rparr> n3))))))"

definition OntApprove :: "native_env \<Rightarrow> ('s, 'h, bytes) native" where
  "OntApprove env native =
     bind_res (detail ''[OngApprove] state deserialize error!''
       (State_Deserialization (NewZeroCopySource (ns_Input native)))) (\<lambda>(state, _).
       if st_Value state > ONT_TOTAL_SUPPLY then Err ''approve ont amount over totalSupply''
       else if CheckWitness (env_ripemd160 env) (st_From state) (ContextRef native) = False then Err ''authentication failed!''
       else
         bind_res (current_contract native) (\<lambda>contract.
         bind_res (put_item (GenApproveKey contract (st_From state) (st_To state)) (GenUInt64StorageItem (st_Value state)) native)
           (\<lambda>(_, n1). Ok (BYTE_TRUE, n1))))"

definition OntName :: "('s, 'h, bytes) native" where
  "OntName native = Ok (str ''ONT Token'', native)"

definition OntDecimals :: "('s, 'h, bytes) native" where
  "OntDecimals native = Ok (BigIntToNeoBytes 0, native)"

definition OntSymbol :: "('s, 'h, bytes) native" where
  "OntSymbol native = Ok (str ''ONT'', native)"

definition OntTotalSupply :: "('s, 'i) PersistStore \<Rightarrow> ('s, 'h, bytes) native" where
  "OntTotalSupply PS native =
     bind_res (current_contract native) (\<lambda>contract.
     bind_res (detail ''[OntTotalSupply] get totalSupply error!'' (GetStorageUInt64 PS (GenTotalSupplyKey contract) native))
       (\<lambda>(amount, n1). Ok (BigIntToNeoBytes (sint amount), n1)))"

definition OntBalanceOf :: "('s, 'i) PersistStore \<Rightarrow> ('s, 'h, bytes) native" where
  "OntBalanceOf PS native = GetBalanceValue PS TRANSFER_FLAG native"

definition OntAllowance :: "('s, 'i) PersistStore \<Rightarrow> ('s, 'h, bytes) native" where
  "OntAllowance PS native = GetBalanceValue PS APPROVE_FLAG native"

section \<open>The registered contracts\<close>

datatype Handler =
    H_OntInit | H_OntTransfer | H_OntApprove | H_OntTransferFrom | H_OntName | H_OntSymbol | H_OntDecimals
  | H_OntTotalSupply | H_OntBalanceOf | H_OntAllowance
  | H_OngInit | H_OngTransfer | H_OngApprove | H_OngTransferFrom | H_OngName | H_OngSymbol | H_OngDecimals
  | H_OngTotalSupply | H_OngBalanceOf | H_OngAllowance

definition RegisterOntContract :: "('s, Handler) NativeService \<Rightarrow> ('s, Handler) NativeService" where
  "RegisterOntContract native = fold (\<lambda>(name, h). Register name h)
     [(INIT_NAME, H_OntInit), (TRANSFER_NAME, H_OntTransfer), (APPROVE_NAME, H_OntApprove),
      (TRANSFERFROM_NAME, H_OntTransferFrom), (NAME_NAME, H_OntName), (SYMBOL_NAME, H_OntSymbol),
      (DECIMALS_NAME, H_OntDecimals), (TOTALSUPPLY_NAME, H_OntTotalSupply), (BALANCEOF_NAME, H_OntBalanceOf),
      (ALLOWANCE_NAME, H_OntAllowance)] native"

definition RegisterOngContract :: "('s, Handler) NativeService \<Rightarrow> ('s, Handler) NativeService" where
  "RegisterOngContract native = fold (\<lambda>(name, h). Register name h)
     [(INIT_NAME, H_OngInit), (TRANSFER_NAME, H_OngTransfer), (APPROVE_NAME, H_OngApprove),
      (TRANSFERFROM_NAME, H_OngTransferFrom), (NAME_NAME, H_OngName), (SYMBOL_NAME, H_OngSymbol),
      (DECIMALS_NAME, H_OngDecimals), (TOTALSUPPLY_NAME, H_OngTotalSupply), (BALANCEOF_NAME, H_OngBalanceOf),
      (ALLOWANCE_NAME, H_OngAllowance)] native"

text \<open>The map \<open>Contracts\<close> after \<open>InitOnt\<close> and \<open>InitOng\<close>, restricted to the two tokens.\<close>

definition InitOnt :: "('s, Handler) registry \<Rightarrow> ('s, Handler) registry" where
  "InitOnt Contracts = Contracts(OntContractAddress \<mapsto> RegisterOntContract)"

definition InitOng :: "('s, Handler) registry \<Rightarrow> ('s, Handler) registry" where
  "InitOng Contracts = Contracts(OngContractAddress \<mapsto> RegisterOngContract)"

definition token_contracts :: "('s, Handler) registry" where
  "token_contracts = InitOnt (InitOng Map.empty)"

text \<open>Running a handler; the first argument bounds the depth of nested calls.\<close>

fun native_run :: "native_env \<Rightarrow> ('s, 'i) PersistStore \<Rightarrow> nat \<Rightarrow> Handler \<Rightarrow> ('s, Handler, bytes) native" where
  "native_run env PS 0 h native = Diverge"
| "native_run env PS (Suc n) h native =
     (let call = NativeCall token_contracts (native_run env PS n)
      in case h of
           H_OntInit \<Rightarrow> OntInit env PS native
         | H_OntTransfer \<Rightarrow> OntTransfer env call PS native
         | H_OntApprove \<Rightarrow> OntApprove env native
         | H_OntTransferFrom \<Rightarrow> OntTransferFrom env call PS native
         | H_OntName \<Rightarrow> OntName native
         | H_OntSymbol \<Rightarrow> OntSymbol native
         | H_OntDecimals \<Rightarrow> OntDecimals native
         | H_OntTotalSupply \<Rightarrow> OntTotalSupply PS native
         | H_OntBalanceOf \<Rightarrow> OntBalanceOf PS native
         | H_OntAllowance \<Rightarrow> OntAllowance PS native
         | H_OngInit \<Rightarrow> OngInit env PS native
         | H_OngTransfer \<Rightarrow> OngTransfer env PS native
         | H_OngApprove \<Rightarrow> OngApprove env native
         | H_OngTransferFrom \<Rightarrow> OngTransferFrom env PS native
         | H_OngName \<Rightarrow> OngName native
         | H_OngSymbol \<Rightarrow> OngSymbol native
         | H_OngDecimals \<Rightarrow> OngDecimals native
         | H_OngTotalSupply \<Rightarrow> OngTotalSupply PS native
         | H_OngBalanceOf \<Rightarrow> OngBalanceOf PS native
         | H_OngAllowance \<Rightarrow> OngAllowance PS native)"

text \<open>A call from outside: two levels suffice, since only \<open>grantOng\<close> calls, and the handler it calls does not.\<close>

definition token_call :: "native_env \<Rightarrow> ('s, 'i) PersistStore \<Rightarrow> ('s, Handler) native_call" where
  "token_call env PS = NativeCall token_contracts (native_run env PS 2)"

lemmas method_names = INIT_NAME_def TRANSFER_NAME_def APPROVE_NAME_def TRANSFERFROM_NAME_def NAME_NAME_def SYMBOL_NAME_def
  DECIMALS_NAME_def TOTALSUPPLY_NAME_def BALANCEOF_NAME_def ALLOWANCE_NAME_def

section \<open>The call of the contract of ONG\<close>

text \<open>What a handler that calls others keeps of the service.\<close>

definition call_keeps :: "('s, 'h) NativeService \<Rightarrow> ('s, 'h) NativeService \<Rightarrow> bool" where
  "call_keeps ns ns' \<longleftrightarrow> ns_Input ns' = ns_Input ns \<and> ns_Time ns' = ns_Time ns \<and> ns_PreExec ns' = ns_PreExec ns
     \<and> Contexts (ContextRef ns') = Contexts (ContextRef ns) \<and> sc_Tx (ContextRef ns') = sc_Tx (ContextRef ns)"

lemma call_keeps_refl [simp]: "call_keeps ns ns"
  by (simp add: call_keeps_def)

lemma call_keeps_trans: "call_keeps a b \<Longrightarrow> call_keeps b c \<Longrightarrow> call_keeps a c"
  by (simp add: call_keeps_def)

lemma only_writes_keeps: "only_writes a b \<Longrightarrow> call_keeps a b"
  by (simp add: only_writes_def call_keeps_def)

lemma call_keepsD:
  assumes "call_keeps ns ns'"
  shows "current_contract ns' = current_contract ns" "Contexts (ContextRef ns') = Contexts (ContextRef ns)"
    "CheckWitness r a (ContextRef ns') = CheckWitness r a (ContextRef ns)" "ns_Time ns' = ns_Time ns" "ns_PreExec ns' = ns_PreExec ns"
  using assms CheckWitness_cong [of "ContextRef ns'" "ContextRef ns"] by (auto simp: call_keeps_def current_contract_def CurrentContext_def)

lemma Register_keeps:
  "\<exists>m. RegisterOntContract ns = ns\<lparr>ServiceMap := m\<rparr>" "\<exists>m. RegisterOngContract ns = ns\<lparr>ServiceMap := m\<rparr>"
  by (auto simp: RegisterOntContract_def RegisterOngContract_def Register_def)

lemma registered_approve:
  "token_contracts OngContractAddress = Some RegisterOngContract"
  "ServiceMap (RegisterOngContract ns) (str ''approve'') = Some H_OngApprove"
  by (simp_all add: token_contracts_def InitOnt_def InitOng_def RegisterOngContract_def Register_def method_names)

text \<open>The call pushes a context of its own and restores the one of the caller.\<close>

lemma approve_call_shows:
  fixes env n
  assumes sh: "ns_shows PS ns f" "typed f" and ctx: "Contexts (ContextRef ns) \<noteq> []"
    and st: "State_Deserialization (NewZeroCopySource args) = Ok (st, s)"
  defines "call \<equiv> NativeCall token_contracts (native_run env PS (Suc n)) OngContractAddress (str ''approve'') args ns"
  shows "if unat ONG_TOTAL_SUPPLY < unat (st_Value st)
      \<or> \<not> CheckWitness (env_ripemd160 env) (st_From st) (PushContext \<lparr>ContractAddress = OngContractAddress, ctx_Code = []\<rparr> (ContextRef ns))
    then \<exists>e. call = Err e
    else \<exists>r ns' g. call = Ok (r, ns') \<and> call_keeps ns ns' \<and> ns_shows PS ns' g \<and> typed g \<and> same_rest f g
      \<and> led g = (led f)(Allowance OngContractAddress (st_From st) (st_To st) := unat (st_Value st))"
proof -
  let ?ctx = "PushContext \<lparr>ContractAddress = OngContractAddress, ctx_Code = []\<rparr> (ContextRef ns)"
  obtain m where m: "RegisterOngContract (ns\<lparr>InvokeParam := p\<rparr>) = ns\<lparr>InvokeParam := p, ServiceMap := m p\<rparr>" for p
    using Register_keeps(2) [of "ns\<lparr>InvokeParam := _\<rparr>"] by metis
  define p where "p = \<lparr>cip_Version = 0, cip_Address = OngContractAddress, cip_Method = str ''approve'', cip_Args = args\<rparr>"
  define ns1 where "ns1 = ns\<lparr>InvokeParam := p, ServiceMap := m p, ns_Input := args, ContextRef := ?ctx,
    ns_Notifications := [], ns_CrossHashes := []\<rparr>"
  have h: "m p (str ''approve'') = Some H_OngApprove"
    using registered_approve(2) [of "ns\<lparr>InvokeParam := p\<rparr>"] by (simp add: m)
  have call: "call = bind_res (detail ''[Invoke] Native serivce function execute error!'' (OngApprove env ns1))
      (\<lambda>(r, ns2). Ok (r, ns2\<lparr>ContextRef := PutCrossStateHashes (ns_CrossHashes ns2)
          (PushNotifications (ns_Notifications ns2) (PopContext (ContextRef ns2))),
        ns_Notifications := ns_Notifications ns, ns_Input := ns_Input ns, ns_CrossHashes := ns_CrossHashes ns\<rparr>))"
    using h unfolding call_def NativeCall_def Invoke_def Let_def p_def [symmetric]
    by (simp add: m registered_approve(1) ns1_def) (simp add: p_def m registered_approve(1))
  have 1: "ns_shows PS ns1 f" "current_contract ns1 = Ok OngContractAddress" "token OngContractAddress"
    "State_Deserialization (NewZeroCopySource (ns_Input ns1)) = Ok (st, s)" "ContextRef ns1 = ?ctx"
    using sh(1) st by (simp_all add: ns1_def ns_shows_def current_contract_def token_def)
  note A = OngApprove_shows [OF 1(1) sh(2) 1(2,3,4), of env, unfolded 1(5)]
  show ?thesis
  proof (cases "unat ONG_TOTAL_SUPPLY < unat (st_Value st) \<or> \<not> CheckWitness (env_ripemd160 env) (st_From st) ?ctx")
    case True
    then show ?thesis
      using A by (auto simp: call detail_def)
  next
    case False
    then obtain ns2 g where n2: "OngApprove env ns1 = Ok (BYTE_TRUE, ns2)" "only_writes ns1 ns2" "ns_shows PS ns2 g" "typed g" "same_rest f g"
      "led g = (led f)(Allowance OngContractAddress (st_From st) (st_To st) := unat (st_Value st))"
      using A by auto
    have "ContextRef ns2 = ?ctx"
      using only_writesD(1) [OF n2(2)] 1(5) by simp
    then show ?thesis
      using False n2 ctx
      by (auto simp: call detail_def call_keeps_def ns_shows_def) (auto simp: only_writes_def ns1_def)
  qed
qed

section \<open>The release of ONG\<close>

text \<open>
  The seconds since the genesis block, and the grant on the ledger. The allowance of a holder on the account
  of the contract of ONT grows by what the balance held has released since the holder's offset.
\<close>

definition elapsed :: "('s, 'h) NativeService \<Rightarrow> nat" where
  "elapsed ns = unat (ns_Time ns) - unat GENESIS_BLOCK_TIMESTAMP"

definition due :: "Address \<Rightarrow> slot" where
  "due a = Allowance OngContractAddress OntContractAddress a"

definition grant :: "nat \<Rightarrow> bool \<Rightarrow> Address \<Rightarrow> nat \<Rightarrow> (slot \<Rightarrow> nat) \<Rightarrow> (slot \<Rightarrow> nat) option" where
  "grant now pre a b L =
     (let off = Offset OntContractAddress a; new = L (due a) + b * released (L off) now
      in if now = 0 then Some L
         else if now < L off then (if pre then Some L else None)
         else if now = L off then Some L
         else if b = 0 then Some (L(off := now))
         else if unat ONG_TOTAL_SUPPLY < new then None
         else Some (L(due a := new, off := now)))"

lemma current_contract_Contexts: "current_contract ns = Ok c \<Longrightarrow> Contexts (ContextRef ns) \<noteq> []"
  by (auto simp: current_contract_def CurrentContext_def)

lemma call_with_contract_witness:
  "current_contract ns = Ok c \<Longrightarrow> CheckWitness r c (PushContext x (ContextRef ns))"
  by (auto simp: CheckWitness_push current_contract_def split: option.splits)

lemma getApproveArgs_shows:
  assumes sh: "ns_shows PS ns f" "typed f" and a: "length a = 20"
    and small: "unat val \<le> unat ONG_TOTAL_SUPPLY" "led f (due a) \<le> unat ONG_TOTAL_SUPPLY"
  shows "\<exists>args s db v. getApproveArgs PS OntContractAddress OngContractAddress a val ns = Ok (args, ns\<lparr>ns_CacheDB := db\<rparr>)
    \<and> ns_shows PS (ns\<lparr>ns_CacheDB := db\<rparr>) f \<and> unat v = unat val + led f (due a)
    \<and> State_Deserialization (NewZeroCopySource args) = Ok (\<lparr>st_From = OntContractAddress, st_To = a, st_Value = v\<rparr>, s)"
proof -
  have x: "slot_ok (due a)" "\<not> is_offset (due a)" and key: "GenApproveKey OngContractAddress OntContractAddress a = slot_key (due a)"
    using a by (simp_all add: due_def token_def)
  obtain old where old: "stored64 (f (slot_key (due a))) = Ok old" "unat old = led f (due a)"
    using typed_ok64 [OF sh(2) x] ok64D by metis
  obtain db where db: "GetStorageUInt64 PS (slot_key (due a)) ns = Ok (old, ns\<lparr>ns_CacheDB := db\<rparr>)" "ns_shows PS (ns\<lparr>ns_CacheDB := db\<rparr>) f"
    using GetStorageUInt64_shows [OF sh(1), of "slot_key (due a)"] old(1) by auto
  let ?st = "\<lparr>st_From = OntContractAddress, st_To = a, st_Value = val + old\<rparr>"
  have v: "unat (val + old) = unat val + led f (due a)"
    using small old(2) by (simp add: unat_word_ariths)
  then have valid: "State_valid ?st"
    using small a by (simp add: State_valid_def state_ok_def word_less_nat_alt)
  have "\<bar>sint (val + old)\<bar> < 256 ^ 8"
    using sint_greater_eq [of "val + old"] sint_less [of "val + old"] by (simp add: abs_less_iff)
  then have "length (BigIntToNeoBytes (sint (val + old))) \<le> 9"
    using length_BigIntToNeoBytes [of "sint (val + old)" 8] by simp
  moreover have "length (varuint_enc w) \<le> 9" for w
    by (simp add: varuint_enc_def)
  note this [of 20] this [of "of_nat (length (BigIntToNeoBytes (sint (val + old))))"]
  ultimately have len: "length (State_enc ?st) + 8 \<le> sink_max"
    using a by (simp add: State_enc_def varbytes_enc_def VarUint_arg_enc_def sink_max_def)
  then obtain sink where sink: "State_Serialization ?st NewZeroCopySink = Ok sink" "snk_Bytes sink = State_enc ?st"
    using writer.to_fresh_sink [OF state.writes [OF valid]] by blast
  have "wf_src (NewZeroCopySource (State_enc ?st))"
    using len by (intro wf_NewZeroCopySource) (simp add: maxInt_def sink_max_def)
  then have "State_Deserialization (NewZeroCopySource (snk_Bytes sink)) = Ok (?st, advance (length (State_enc ?st)) (NewZeroCopySource (State_enc ?st)))"
    using state.reads [OF valid, of _ "[]"] sink(2) by simp
  then show ?thesis
    using db sink(1) v by (auto simp: getApproveArgs_def key)
qed

text \<open>The last step of a grant: the new offset.\<close>

lemma put_offset_shows:
  assumes "ns_shows PS ns f" "typed f" "length a = 20" "unat e = now"
  shows "\<exists>ns' g. put_item (genAddressUnboundOffsetKey OntContractAddress a) (GenUInt32StorageItem e) ns = Ok ((), ns')
    \<and> only_writes ns ns' \<and> ns_shows PS ns' g \<and> typed g \<and> same_rest f g \<and> led g = (led f)(Offset OntContractAddress a := now)"
proof -
  have ok: "slot_ok (Offset OntContractAddress a)"
    using assms(3) by (simp add: token_def)
  obtain db where "put_item (slot_key (Offset OntContractAddress a)) (GenUInt32StorageItem e) ns = Ok ((), ns\<lparr>ns_CacheDB := db\<rparr>)"
    "ns_shows PS (ns\<lparr>ns_CacheDB := db\<rparr>) (f(slot_key (Offset OntContractAddress a) := item32 e))"
    using put_item32_shows [OF assms(1)] by blast
  then show ?thesis
    using offset_led [OF ok, of f e] assms(2,4) only_writes_db by (metis slot_key.simps(3))
qed

text \<open>The step before it: the approval of the new allowance.\<close>

lemma approve_due_shows:
  fixes env n s e
  assumes sh: "ns_shows PS ns f" "typed f" and c: "current_contract ns = Ok OntContractAddress" and a: "length a = 20"
    and small: "unat b \<le> unat ONT_TOTAL_SUPPLY" "led f (due a) \<le> unat ONG_TOTAL_SUPPLY"
  defines "new \<equiv> led f (due a) + unat b * released (unat s) (unat e)"
    and "m \<equiv> bind_res (CalcUnbindOng b s e) (\<lambda>val.
      bind_res (getApproveArgs PS OntContractAddress OngContractAddress a val ns) (\<lambda>(args, n2).
      bind_res (NativeCall token_contracts (native_run env PS (Suc n)) OngContractAddress (str ''approve'') args n2) (\<lambda>(_, n3). Ok ((), n3))))"
  shows "if unat ONG_TOTAL_SUPPLY < new then \<exists>e. m = Err e
    else \<exists>ns' g. m = Ok ((), ns') \<and> call_keeps ns ns' \<and> ns_shows PS ns' g \<and> typed g \<and> same_rest f g \<and> led g = (led f)(due a := new)"
proof -
  obtain val where val: "CalcUnbindOng b s e = Ok val" "unat val = unat b * released (unat s) (unat e)"
    "unat val \<le> unat ONG_TOTAL_SUPPLY"
    using CalcUnbindOng_unat [of b s e] small(1) by (auto simp: word_le_nat_alt)
  obtain args t db v where args: "getApproveArgs PS OntContractAddress OngContractAddress a val ns = Ok (args, ns\<lparr>ns_CacheDB := db\<rparr>)"
    "ns_shows PS (ns\<lparr>ns_CacheDB := db\<rparr>) f" "unat v = unat val + led f (due a)"
    "State_Deserialization (NewZeroCopySource args) = Ok (\<lparr>st_From = OntContractAddress, st_To = a, st_Value = v\<rparr>, t)"
    using getApproveArgs_shows [OF sh a val(3) small(2)] by blast
  let ?ns = "ns\<lparr>ns_CacheDB := db\<rparr>"
  have keep: "call_keeps ns ?ns" and v: "unat v = new"
    using args(3) val(2) by (simp_all add: only_writes_keeps new_def)
  have ctx: "Contexts (ContextRef ?ns) \<noteq> []"
    and wit: "CheckWitness r OntContractAddress (PushContext x (ContextRef ?ns))" for r x
    using current_contract_Contexts [OF c] call_with_contract_witness [OF c] by simp_all
  show ?thesis
    using approve_call_shows [OF args(2) sh(2) ctx args(4), of env n] wit v args(1) val(1) call_keeps_trans [OF keep]
    by (cases "unat ONG_TOTAL_SUPPLY < new") (simp_all add: m_def due_def del: unat_ONG_TOTAL_SUPPLY, force+)
qed

lemma grantOng_shows:
  fixes env n
  assumes sh: "ns_shows PS ns f" "typed f" and c: "current_contract ns = Ok OntContractAddress" and a: "length a = 20"
    and small: "unat b \<le> unat ONT_TOTAL_SUPPLY" "led f (due a) \<le> unat ONG_TOTAL_SUPPLY"
  defines "call \<equiv> NativeCall token_contracts (native_run env PS (Suc n))"
  shows "case grant (elapsed ns) (ns_PreExec ns) a (unat b) (led f) of
      None \<Rightarrow> \<exists>e. grantOng call PS OntContractAddress a b ns = Err e
    | Some L \<Rightarrow> \<exists>ns' g. grantOng call PS OntContractAddress a b ns = Ok ((), ns') \<and> call_keeps ns ns' \<and> ns_shows PS ns' g
        \<and> typed g \<and> same_rest f g \<and> led g = L"
proof -
  let ?off = "Offset OntContractAddress a"
  have ok: "slot_ok ?off" "is_offset ?off"
    using a by (simp_all add: token_def)
  have "ok32 f (slot_key ?off)" and led_off: "led f ?off = num32 f (slot_key ?off)"
    using ok sh(2) by (auto simp: typed_def led_def simp del: slot_key.simps)
  then obtain s where s: "stored32 (f (slot_key ?off)) = Ok s" "unat s = led f ?off"
    using ok32D by metis
  obtain db where db: "GetStorageUInt32 PS (slot_key ?off) ns = Ok (s, ns\<lparr>ns_CacheDB := db\<rparr>)" "ns_shows PS (ns\<lparr>ns_CacheDB := db\<rparr>) f"
    using GetStorageUInt32_shows [OF sh(1), of "slot_key ?off"] s(1) by auto
  let ?ns = "ns\<lparr>ns_CacheDB := db\<rparr>" and ?e = "ns_Time ns - GENESIS_BLOCK_TIMESTAMP"
  have keep: "call_keeps ns ?ns"
    by (simp add: only_writes_keeps)
  have off: "getUnboundOffset PS OntContractAddress a ns = Ok (s, ?ns)"
    using db(1) by (simp add: getUnboundOffset_def)
  show ?thesis
  proof (cases "ns_Time ns \<le> GENESIS_BLOCK_TIMESTAMP")
    case True
    then have "elapsed ns = 0"
      by (simp add: elapsed_def word_le_nat_alt)
    then show ?thesis
      using True off db(2) sh(2) keep by (auto simp: grantOng_def grant_def)
  next
    case late: False
    then have e: "unat ?e = elapsed ns" "elapsed ns \<noteq> 0"
      by (simp_all add: elapsed_def unat_sub word_le_nat_alt not_le)
    have cmp: "?e < s \<longleftrightarrow> elapsed ns < led f ?off" "?e = s \<longleftrightarrow> elapsed ns = led f ?off"
      using s(2) e(1) by (simp_all add: word_less_nat_alt word_unat_eq_iff)
    show ?thesis
    proof (cases "elapsed ns \<le> led f ?off")
      case True
      then show ?thesis
        using late off db(2) sh(2) keep e(2) cmp by (auto simp: grantOng_def grant_def Let_def)
    next
      case new: False
      then have grantOng: "grantOng call PS OntContractAddress a b ns = bind_res
          (if b \<noteq> 0 then
             bind_res (CalcUnbindOng b s ?e) (\<lambda>val.
             bind_res (getApproveArgs PS OntContractAddress OngContractAddress a val ?ns) (\<lambda>(args, n2).
             bind_res (call OngContractAddress (str ''approve'') args n2) (\<lambda>(_, n3). Ok ((), n3))))
           else Ok ((), ?ns))
          (\<lambda>(_, n4). put_item (genAddressUnboundOffsetKey OntContractAddress a) (GenUInt32StorageItem ?e) n4)"
        using late off cmp by (simp add: grantOng_def Let_def)
      show ?thesis
      proof (cases "b = 0")
        case True
        then show ?thesis
          using new put_offset_shows [OF db(2) sh(2) a e(1)] grantOng call_keeps_trans [OF keep] only_writes_keeps e(2)
          by (auto simp: grant_def Let_def)
      next
        case False
        let ?new = "led f (due a) + unat b * released (led f ?off) (elapsed ns)"
        have c': "current_contract ?ns = Ok OntContractAddress"
          using c call_keepsD(1) [OF keep] by simp
        note A = approve_due_shows [OF db(2) sh(2) c' a small, of s ?e env n, folded call_def, unfolded s(2) e(1)]
        show ?thesis
        proof (cases "unat ONG_TOTAL_SUPPLY < ?new")
          case True
          then show ?thesis
            using A False new e(2) by (auto simp: grantOng grant_def Let_def unat_eq_0 simp del: unat_ONG_TOTAL_SUPPLY)
        next
          case cap: False
          obtain ns2 g where n2: "bind_res (CalcUnbindOng b s ?e) (\<lambda>val.
              bind_res (getApproveArgs PS OntContractAddress OngContractAddress a val ?ns) (\<lambda>(args, n2).
              bind_res (call OngContractAddress (str ''approve'') args n2) (\<lambda>(_, n3). Ok ((), n3)))) = Ok ((), ns2)"
            "call_keeps ?ns ns2" "ns_shows PS ns2 g" "typed g" "same_rest f g" "led g = (led f)(due a := ?new)"
            using A cap by auto
          obtain ns3 h where n3: "put_item (genAddressUnboundOffsetKey OntContractAddress a) (GenUInt32StorageItem ?e) ns2 = Ok ((), ns3)"
            "only_writes ns2 ns3" "ns_shows PS ns3 h" "typed h" "same_rest g h" "led h = (led g)(?off := elapsed ns)"
            using put_offset_shows [OF n2(3,4) a e(1)] by blast
          have "grant (elapsed ns) (ns_PreExec ns) a (unat b) (led f) = Some (led h)"
            using False new cap e(2) by (simp add: grant_def Let_def n3(6) n2(6) unat_eq_0 del: unat_ONG_TOTAL_SUPPLY)
          moreover have "grantOng call PS OntContractAddress a b ns = Ok ((), ns3)"
            using False n2(1) n3(1) by (simp add: grantOng)
          moreover have "call_keeps ns ns3"
            using keep n2(2) only_writes_keeps [OF n3(2)] call_keeps_trans by blast
          ultimately show ?thesis
            using n3(3,4) same_rest_trans [OF n2(5) n3(5)] by auto
        qed
      qed
    qed
  qed
qed

end
