(* ===== verification/OntLedger.thy ===== *)
theory OntLedger
  imports Ont
begin

text \<open>
  The transfers of ONT on the ledger, and what they keep. A transfer settles what payer and payee have earned
  before it moves the balance, so what is owed to all holders (the allowances granted and what the balances
  will still release until the deadline) stays the same, and no grant can exceed the supply of ONG.
\<close>

section \<open>A transfer of ONT on the ledger\<close>

abbreviation "ONT \<equiv> OntContractAddress"
abbreviation "ONG \<equiv> OngContractAddress"

definition ont_pay :: "nat \<Rightarrow> bool \<Rightarrow> Address \<Rightarrow> Address \<Rightarrow> nat \<Rightarrow> (slot \<Rightarrow> nat) \<Rightarrow> (slot \<Rightarrow> nat) option" where
  "ont_pay now pre from to v L =
     (case grant now pre from (L (Balance ONT from)) (pay ONT from to v L) of
        None \<Rightarrow> None
      | Some M \<Rightarrow> grant now pre to ((L(Balance ONT from := L (Balance ONT from) - v)) (Balance ONT to)) M)"

text \<open>What a holder has earned until now becomes allowance.\<close>

definition settle :: "nat \<Rightarrow> Address \<Rightarrow> (slot \<Rightarrow> nat) \<Rightarrow> slot \<Rightarrow> nat" where
  "settle now a L = L(due a := L (due a) + L (Balance ONT a) * released (L (Offset ONT a)) now, Offset ONT a := now)"

definition claim :: "(slot \<Rightarrow> nat) \<Rightarrow> Address \<Rightarrow> nat" where
  "claim L a = L (due a) + L (Balance ONT a) * released (L (Offset ONT a)) deadline"

definition owed :: "(slot \<Rightarrow> nat) \<Rightarrow> nat" where
  "owed L = (\<Sum>a\<in>addrs. claim L a)"

lemma due_slot [simp]: "due a \<noteq> Balance c b" "due a \<noteq> Offset c b" "due a \<noteq> Supply c" "due a = due b \<longleftrightarrow> a = b"
  by (simp_all add: due_def)

lemmas due_slot' [simp] = due_slot(1-3) [symmetric]

lemma released_empty [simp]: "released t t = 0"
  by (simp add: released_def)

lemma released_to_deadline: "s \<le> m \<Longrightarrow> released s m + released m deadline = released s deadline"
proof (cases "m \<le> deadline")
  case False
  assume "s \<le> m"
  have late: "generation t = 0" if "deadline \<le> t" for t
    using that by (simp add: generation_def)
  show ?thesis
  proof (cases "s \<le> deadline")
    case True
    have "released deadline m = 0"
      by (simp add: released_def late)
    then show ?thesis
      using released_split [of s deadline m] True False by (simp add: released_def)
  next
    case False
    then show ?thesis
      using \<open>\<not> m \<le> deadline\<close> by (simp add: released_def late)
  qed
qed (simp add: released_split)

lemma claim_settle: "L (Offset ONT a) \<le> now \<Longrightarrow> claim (settle now a L) b = claim L b"
proof (cases "b = a")
  case True
  assume "L (Offset ONT a) \<le> now"
  then have "released (L (Offset ONT a)) now + released now deadline = released (L (Offset ONT a)) deadline"
    by (rule released_to_deadline)
  then show ?thesis
    using True by (simp add: claim_def settle_def flip: distrib_left)
qed (simp add: claim_def settle_def)

lemma owed_settle: "L (Offset ONT a) \<le> now \<Longrightarrow> owed (settle now a L) = owed L"
  by (simp add: owed_def claim_settle)

lemma claim_le_owed: "a \<in> addrs \<Longrightarrow> claim L a \<le> owed L"
  unfolding owed_def by (rule member_le_sum) auto

lemma claim_pay:
  assumes "L (Offset ONT from) = L (Offset ONT to)" "v \<le> L (Balance ONT from)"
  defines "w \<equiv> released (L (Offset ONT to)) deadline"
  defines "g \<equiv> (claim L)(from := claim L from - v * w)"
  shows "claim (pay ONT from to v L) = g(to := g to + v * w)" "v * w \<le> claim L from"
proof -
  have le: "v * w \<le> L (Balance ONT from) * w"
    using assms(2) by simp
  have claims: "claim L from = L (due from) + L (Balance ONT from) * w" "claim L to = L (due to) + L (Balance ONT to) * w"
    by (simp_all add: claim_def assms(1) w_def)
  show vw: "v * w \<le> claim L from"
    unfolding claims(1) using le by linarith
  have paid: "claim (pay ONT from to v L) a = L (due a) + pay ONT from to v L (Balance ONT a) * released (L (Offset ONT a)) deadline" for a
    by (simp add: claim_def pay_other)
  show "claim (pay ONT from to v L) = g(to := g to + v * w)"
  proof
    fix a
    consider "a = to" "from = to" | "a = to" "from \<noteq> to" | "a = from" "from \<noteq> to" | "a \<noteq> from" "a \<noteq> to"
      by blast
    then show "claim (pay ONT from to v L) a = (g(to := g to + v * w)) a"
    proof cases
      case 1
      then show ?thesis
        using assms(2) vw claims(1) unfolding paid by (simp add: pay_def g_def flip: w_def)
    next
      case 2
      then show ?thesis
        using claims(2) unfolding paid by (simp add: pay_def g_def w_def distrib_right)
    next
      case 3
      then show ?thesis
        using le claims(1) assms(1) unfolding paid by (simp add: pay_def g_def w_def diff_mult_distrib)
    next
      case 4
      then show ?thesis
        unfolding paid by (simp add: pay_def g_def claim_def)
    qed
  qed
qed

lemma owed_pay:
  assumes "from \<in> addrs" "to \<in> addrs" "L (Offset ONT from) = L (Offset ONT to)" "v \<le> L (Balance ONT from)"
  shows "owed (pay ONT from to v L) = owed L"
proof -
  let ?w = "released (L (Offset ONT to)) deadline"
  let ?g = "(claim L)(from := claim L from - v * ?w)"
  note c = claim_pay [OF assms(3,4)]
  have "sum ?g addrs + claim L from = owed L + (claim L from - v * ?w)"
    unfolding owed_def by (rule sum_fun_upd [OF finite_addrs assms(1)])
  moreover have "owed (pay ONT from to v L) + ?g to = sum ?g addrs + (?g to + v * ?w)"
    unfolding owed_def c(1) by (rule sum_fun_upd [OF finite_addrs assms(2)])
  ultimately show ?thesis
    using c(2) by linarith
qed

lemma grant_settle:
  assumes "grant now pre a b L = Some M" "0 < now" "L (Offset ONT a) \<le> now"
  shows "M = L(due a := L (due a) + b * released (L (Offset ONT a)) now, Offset ONT a := now)"
proof -
  let ?o = "L (Offset ONT a)"
  consider "now = ?o" | "?o < now" "b = 0" | "?o < now" "b \<noteq> 0"
    using assms(3) by linarith
  then show ?thesis
    by cases (use assms in \<open>auto simp: grant_def Let_def split: if_splits\<close>)
qed

text \<open>A transfer settles both parties and pays.\<close>

lemma ont_pay_settles:
  assumes p: "ont_pay now pre from to v L = Some M" and now: "0 < now" and off: "\<forall>a. L (Offset ONT a) \<le> now"
  shows "M = pay ONT from to v (settle now to (settle now from L))"
proof -
  let ?b = "(L(Balance ONT from := L (Balance ONT from) - v)) (Balance ONT to)"
  obtain L1 where 1: "grant now pre from (L (Balance ONT from)) (pay ONT from to v L) = Some L1" "grant now pre to ?b L1 = Some M"
    using p by (auto simp: ont_pay_def split: option.splits)
  have other: "pay ONT from to v L (due a) = L (due a)" "pay ONT from to v L (Offset ONT a) = L (Offset ONT a)" for a
    by (simp_all add: pay_other)
  note L1 = grant_settle [OF 1(1) now] 
  have L1: "L1 = (pay ONT from to v L)(due from := L (due from) + L (Balance ONT from) * released (L (Offset ONT from)) now, Offset ONT from := now)"
    using L1 off by (simp add: other)
  have "L1 (Offset ONT to) \<le> now"
    using off by (simp add: L1 other)
  note M = grant_settle [OF 1(2) now this]
  have b: "?b * released (L1 (Offset ONT to)) now = settle now from L (Balance ONT to) * released (settle now from L (Offset ONT to)) now"
    by (cases "from = to") (simp_all add: L1 other settle_def)
  show ?thesis
    unfolding M b by (rule ext) (auto simp: L1 settle_def pay_def Let_def)
qed

section \<open>Sound ledgers\<close>

text \<open>
  The supplies are out in full, no holder was settled in the future, and the account of the contract of ONT
  covers what is owed to the holders.
\<close>

definition sound :: "nat \<Rightarrow> (slot \<Rightarrow> nat) \<Rightarrow> bool" where
  "sound now L \<longleftrightarrow> issued ONT L = unat ONT_TOTAL_SUPPLY \<and> issued ONG L = unat ONG_TOTAL_SUPPLY
     \<and> owed L \<le> L (Balance ONG ONT) \<and> (\<forall>a. L (Offset ONT a) \<le> now) \<and> 0 < L (Supply ONT) \<and> 0 < L (Supply ONG)"

lemma addr_ONT [simp]: "ONT \<in> addrs" "ONG \<in> addrs"
  by (simp_all add: addrs_def)

lemma unat_ONT_TOTAL_SUPPLY [simp]: "unat ONT_TOTAL_SUPPLY = 1000000000"
  by (simp add: ONT_TOTAL_SUPPLY_def)

lemma sound_later: "sound now L \<Longrightarrow> now \<le> now' \<Longrightarrow> sound now' L"
  by (auto simp: sound_def intro: order_trans)

lemma sound_claim:
  assumes "sound now L" "a \<in> addrs"
  shows "claim L a \<le> unat ONG_TOTAL_SUPPLY"
  using assms claim_le_owed [of a L] balance_le_issued [of ONT L ONG] by (simp add: sound_def)

lemma sound_small:
  assumes "sound now L"
  shows "issued ONT L < 2 ^ 64" "issued ONG L < 2 ^ 64"
  using assms by (simp_all add: sound_def)

text \<open>Changes the invariant does not look at.\<close>

lemma issued_upd_other [simp]:
  "\<forall>a. x \<noteq> Balance c a \<Longrightarrow> issued c (L(x := n)) = issued c L"
  unfolding issued_def by (rule sum.cong) auto

lemma owed_cong:
  assumes "\<And>a. a \<in> addrs \<Longrightarrow> M (due a) = L (due a) \<and> M (Balance ONT a) = L (Balance ONT a) \<and> M (Offset ONT a) = L (Offset ONT a)"
  shows "owed M = owed L"
  using assms by (simp add: owed_def claim_def)

lemma issued_pay_other: "c \<noteq> c' \<Longrightarrow> issued c' (pay c from to v L) = issued c' L"
  by (simp add: issued_def pay_other)

lemma sound_allowance:
  assumes "sound now L" "c = ONT \<or> from \<noteq> ONT"
  shows "sound now (L(Allowance c from to := n))"
proof -
  have "due a \<noteq> Allowance c from to" for a
    using assms(2) by (auto simp: due_def)
  then have "owed (L(Allowance c from to := n)) = owed L"
    by (intro owed_cong) (auto simp: fun_upd_def)
  then show ?thesis
    using assms(1) by (simp add: sound_def)
qed

lemma sound_pay_ong:
  assumes L: "sound now L" and fr: "from \<in> addrs" "from \<noteq> ONT" and to: "to \<in> addrs" and v: "v \<le> L (Balance ONG from)"
  shows "sound now (pay ONG from to v L)"
proof -
  have "owed (pay ONG from to v L) = owed L"
    by (intro owed_cong) (simp add: pay_other)
  moreover have "L (Balance ONG ONT) \<le> pay ONG from to v L (Balance ONG ONT)"
    using fr(2) by (simp add: pay_def)
  ultimately show ?thesis
    using L issued_pay [OF fr(1) to, of v L ONG] v by (simp add: sound_def issued_pay_other pay_other)
qed

text \<open>A payment out of the allowance.\<close>

lemma owed_due:
  assumes "a \<in> addrs" "v \<le> L (due a)"
  shows "owed (L(due a := L (due a) - v)) + v = owed L"
proof -
  have "claim (L(due a := L (due a) - v)) = (claim L)(a := claim L a - v)"
    using assms(2) by (auto simp: fun_eq_iff claim_def)
  then have "owed (L(due a := L (due a) - v)) + claim L a = owed L + (claim L a - v)"
    using sum_fun_upd [OF finite_addrs assms(1), of "claim L" "claim L a - v"] by (simp add: owed_def)
  moreover have "v \<le> claim L a"
    using assms(2) by (simp add: claim_def)
  ultimately show ?thesis
    by linarith
qed

lemma sound_pay_due:
  assumes L: "sound now L" and a: "a \<in> addrs" and to: "to \<in> addrs" and v: "v \<le> L (due a)" "v \<le> L (Balance ONG ONT)"
  shows "sound now (pay ONG ONT to v (L(due a := L (due a) - v)))"
proof -
  let ?L = "L(due a := L (due a) - v)"
  have "owed (pay ONG ONT to v ?L) = owed ?L"
    by (intro owed_cong) (simp add: pay_other)
  then have "owed (pay ONG ONT to v ?L) + v = owed L"
    using owed_due [of a v L] a v(1) by simp
  moreover have "L (Balance ONG ONT) \<le> pay ONG ONT to v ?L (Balance ONG ONT) + v"
    using v(2) by (simp add: pay_def)
  ultimately show ?thesis
    using L issued_pay [OF addr_ONT(1) to, of v ?L ONG] v(2) by (simp add: sound_def issued_pay_other pay_other)
qed

text \<open>A transfer of ONT: the grants do not fail, and it keeps the invariant.\<close>

lemma grant_granted:
  assumes "L (Offset ONT a) \<le> now" "L (due a) + b * released (L (Offset ONT a)) now \<le> unat ONG_TOTAL_SUPPLY"
  shows "\<exists>M. grant now pre a b L = Some M"
  using assms by (auto simp: grant_def Let_def)

lemma earned_le_claim: "L (Offset ONT a) \<le> now \<Longrightarrow> L (due a) + L (Balance ONT a) * released (L (Offset ONT a)) now \<le> claim L a"
  using released_to_deadline [of "L (Offset ONT a)" now] by (simp add: claim_def)

lemma ont_pay_succeeds:
  assumes L: "sound now L" and ft: "from \<in> addrs" "to \<in> addrs"
  shows "\<exists>M. ont_pay now pre from to v L = Some M"
proof -
  let ?P = "pay ONT from to v L" and ?b = "(L(Balance ONT from := L (Balance ONT from) - v)) (Balance ONT to)"
  have off: "L (Offset ONT a) \<le> now" for a
    using L by (simp add: sound_def)
  have P: "pay ONT x y v L (due a) = L (due a)" "pay ONT x y v L (Offset ONT a) = L (Offset ONT a)" for a x y
    by (simp_all add: pay_other)
  have earned: "L (due a) + L (Balance ONT a) * released (L (Offset ONT a)) now \<le> unat ONG_TOTAL_SUPPLY" if "a \<in> addrs" for a
    using earned_le_claim [of L a now] off sound_claim [OF L that] by (meson order_trans)
  obtain M where M: "grant now pre from (L (Balance ONT from)) ?P = Some M"
    using grant_granted [of ?P "from" now "L (Balance ONT from)" pre] P off earned [OF ft(1)] by auto
  have "\<exists>N. grant now pre to ?b M = Some N"
  proof (cases "now = 0")
    case False
    then have "M = ?P(due from := ?P (due from) + L (Balance ONT from) * released (?P (Offset ONT from)) now, Offset ONT from := now)"
      using grant_settle [OF M] off P by simp
    then show ?thesis
      using off earned [OF ft(2)] earned [OF ft(1)] by (intro grant_granted; cases "from = to") (simp_all add: P)
  qed (simp add: grant_def)
  then show ?thesis
    using M by (simp add: ont_pay_def)
qed

lemma grant_other: "grant now pre a b L = Some M \<Longrightarrow> x \<noteq> due a \<Longrightarrow> x \<noteq> Offset ONT a \<Longrightarrow> M x = L x"
  unfolding grant_def Let_def by (simp split: if_split_asm) auto

lemma ont_payD:
  assumes "ont_pay now pre from to v L = Some M" "\<forall>a. x \<noteq> due a \<and> x \<noteq> Offset ONT a"
  shows "M x = pay ONT from to v L x"
proof -
  obtain N b where "grant now pre from (L (Balance ONT from)) (pay ONT from to v L) = Some N" "grant now pre to b N = Some M"
    using assms(1) by (auto simp: ont_pay_def split: option.splits)
  then show ?thesis
    using grant_other [of now pre "from" _ _ N x] grant_other [of now pre to b N M x] assms(2) by metis
qed

lemma ont_pay_other:
  assumes "ont_pay now pre from to v L = Some M" "\<forall>a. x \<noteq> due a \<and> x \<noteq> Balance ONT a \<and> x \<noteq> Offset ONT a"
  shows "M x = L x"
  using ont_payD [OF assms(1), of x] assms(2) by (simp add: pay_other)

lemma ont_pay_balances: "ont_pay now pre from to v L = Some M \<Longrightarrow> M (Balance ONT a) = pay ONT from to v L (Balance ONT a)"
  by (rule ont_payD) simp_all

lemma ont_pay_sound:
  assumes L: "sound now L" and ft: "from \<in> addrs" "to \<in> addrs" and v: "v \<le> L (Balance ONT from)"
    and M: "ont_pay now pre from to v L = Some M"
  shows "sound now M"
proof -
  have off: "\<forall>a. L (Offset ONT a) \<le> now"
    using L by (simp add: sound_def)
  have "owed M = owed L \<and> (\<forall>a. M (Offset ONT a) \<le> now)"
  proof (cases "now = 0")
    case True
    then have "M = pay ONT from to v L"
      using M by (simp add: ont_pay_def grant_def)
    then show ?thesis
      using owed_pay [of "from" to L v] ft v off True by (simp add: pay_other)
  next
    case False
    let ?S = "settle now to (settle now from L)"
    have "M = pay ONT from to v ?S"
      using ont_pay_settles [OF M _ off] False by simp
    moreover have "owed ?S = owed L"
      using off owed_settle [of "settle now from L" to now] owed_settle [of L "from" now] by (simp add: settle_def [of now "from" L])
    ultimately show ?thesis
      using owed_pay [of "from" to ?S v] ft off v by (simp add: settle_def pay_other)
  qed
  moreover have "issued ONT M = issued ONT L"
    using issued_pay [OF ft, of v L ONT] v by (simp add: issued_def ont_pay_balances [OF M])
  moreover have "issued ONG M = issued ONG L"
    by (simp add: issued_def ont_pay_other [OF M])
  ultimately show ?thesis
    using L by (simp add: sound_def ont_pay_other [OF M])
qed

section \<open>The handlers of ONT\<close>

fun ont_payments :: "(Address \<Rightarrow> bool) \<Rightarrow> nat \<Rightarrow> bool \<Rightarrow> State list \<Rightarrow> (slot \<Rightarrow> nat) \<Rightarrow> (slot \<Rightarrow> nat) option" where
  "ont_payments auth now pre [] L = Some L"
| "ont_payments auth now pre (st # sts) L =
     (if st_Value st = 0 then ont_payments auth now pre sts L
      else if unat ONT_TOTAL_SUPPLY < unat (st_Value st) \<or> \<not> auth (st_From st) \<or> L (Balance ONT (st_From st)) < unat (st_Value st)
      then None
      else case ont_pay now pre (st_From st) (st_To st) (unat (st_Value st)) L of
        None \<Rightarrow> None | Some M \<Rightarrow> ont_payments auth now pre sts M)"

lemma ont_payments_sound:
  assumes "sound now L" "list_all state_ok sts" "ont_payments auth now pre sts L = Some M"
  shows "sound now M"
  using assms
proof (induction sts arbitrary: L)
  case (Cons st sts)
  have ft: "st_From st \<in> addrs" "st_To st \<in> addrs" "list_all state_ok sts"
    using Cons.prems(2) by (auto simp: state_ok_def [of st] addrs_def)
  show ?case
  proof (cases "st_Value st = 0")
    case False
    then obtain N where "ont_pay now pre (st_From st) (st_To st) (unat (st_Value st)) L = Some N"
      "ont_payments auth now pre sts N = Some M" "unat (st_Value st) \<le> L (Balance ONT (st_From st))"
      using Cons.prems(3) by (auto split: if_splits option.splits)
    then show ?thesis
      using Cons.IH ont_pay_sound [OF Cons.prems(1) ft(1,2)] ft(3) by blast
  qed (use Cons ft in simp)
qed simp

lemma grant_cap:
  "grant now pre a b L = Some M \<Longrightarrow> L (due x) \<le> unat ONG_TOTAL_SUPPLY \<Longrightarrow> M (due x) \<le> unat ONG_TOTAL_SUPPLY"
  unfolding grant_def Let_def by (auto split: if_split_asm simp del: unat_ONG_TOTAL_SUPPLY)

lemma elapsed_keeps: "call_keeps ns ns' \<Longrightarrow> elapsed ns' = elapsed ns"
  by (simp add: call_keeps_def elapsed_def)

text \<open>The two grants behind a payment, in a sound ledger.\<close>

lemma grants_shows:
  fixes env n L
  assumes sh: "ns_shows PS ns f" "typed f" and c: "current_contract ns = Ok ONT" and ft: "from \<in> addrs" "to \<in> addrs"
    and L: "sound (elapsed ns) L" "led f = pay ONT from to v L" and b: "unat b = L (Balance ONT from)"
      "unat b' = (L(Balance ONT from := L (Balance ONT from) - v)) (Balance ONT to)"
  defines "call \<equiv> NativeCall token_contracts (native_run env PS (Suc n))"
  shows "\<exists>ns2 ns3 g. grantOng call PS ONT from b ns = Ok ((), ns2) \<and> grantOng call PS ONT to b' ns2 = Ok ((), ns3)
    \<and> call_keeps ns ns3 \<and> ns_shows PS ns3 g \<and> typed g \<and> same_rest f g
    \<and> ont_pay (elapsed ns) (ns_PreExec ns) from to v L = Some (led g)"
proof -
  obtain M where "ont_pay (elapsed ns) (ns_PreExec ns) from to v L = Some M"
    using ont_pay_succeeds [OF L(1) ft] by blast
  then obtain N where N: "grant (elapsed ns) (ns_PreExec ns) from (unat b) (led f) = Some N"
    "grant (elapsed ns) (ns_PreExec ns) to (unat b') N = Some M"
    using b L(2) by (auto simp: ont_pay_def split: option.splits)
  have len: "length from = 20" "length to = 20"
    using ft by (simp_all add: addrs_def)
  have bal: "L (Balance ONT a) \<le> unat ONT_TOTAL_SUPPLY" if "a \<in> addrs" for a
    using balance_le_issued [OF that, of L ONT] L(1) by (simp add: sound_def)
  have b_le: "unat b \<le> unat ONT_TOTAL_SUPPLY" "unat b' \<le> unat ONT_TOTAL_SUPPLY"
    using bal [OF ft(1)] bal [OF ft(2)] b by (auto simp: fun_upd_def split: if_splits)
  have due: "led f (due a) \<le> unat ONG_TOTAL_SUPPLY" if "a \<in> addrs" for a
    using sound_claim [OF L(1) that] by (simp add: L(2) pay_other claim_def)
  obtain ns2 g where n2: "grantOng call PS ONT from b ns = Ok ((), ns2)" "call_keeps ns ns2" "ns_shows PS ns2 g"
    "typed g" "same_rest f g" "led g = N"
    using grantOng_shows [OF sh c len(1) b_le(1) due [OF ft(1)], of env n] N(1) unfolding call_def by auto
  have c2: "current_contract ns2 = Ok ONT" and due2: "led g (due to) \<le> unat ONG_TOTAL_SUPPLY"
    using call_keepsD(1) [OF n2(2)] c grant_cap [OF N(1) due [OF ft(2)]] n2(6) by simp_all
  have "grant (elapsed ns2) (ns_PreExec ns2) to (unat b') (led g) = Some M"
    using N(2) n2(6) elapsed_keeps [OF n2(2)] call_keepsD(5) [OF n2(2)] by simp
  then obtain ns3 h where n3: "grantOng call PS ONT to b' ns2 = Ok ((), ns3)" "call_keeps ns2 ns3" "ns_shows PS ns3 h"
    "typed h" "same_rest g h" "led h = M"
    using grantOng_shows [OF n2(3,4) c2 len(2) b_le(2) due2, of env n] unfolding call_def by auto
  show ?thesis
    using n2(1) n3 call_keeps_trans [OF n2(2) n3(2)] same_rest_trans [OF n2(5) n3(5)]
      \<open>ont_pay (elapsed ns) (ns_PreExec ns) from to v L = Some M\<close> by blast
qed

text \<open>One transfer that the ledger allows: it succeeds, grants included.\<close>

lemma ont_step_shows:
  fixes env n
  assumes sh: "ns_shows PS ns f" "typed f" and c: "current_contract ns = Ok ONT" and st: "state_ok st"
    and L: "sound (elapsed ns) (led f)" and auth: "CheckWitness (env_ripemd160 env) (st_From st) (ContextRef ns)"
    and v: "unat (st_Value st) \<le> led f (Balance ONT (st_From st))"
  defines "call \<equiv> NativeCall token_contracts (native_run env PS (Suc n))"
  shows "\<exists>b b' ns1 ns2 ns3 h. Transfer env PS ONT st ns = Ok ((b, b'), ns1) \<and> grantOng call PS ONT (st_From st) b ns1 = Ok ((), ns2)
    \<and> grantOng call PS ONT (st_To st) b' ns2 = Ok ((), ns3) \<and> call_keeps ns ns3 \<and> ns_shows PS ns3 h \<and> typed h \<and> same_rest f h
    \<and> ont_pay (elapsed ns) (ns_PreExec ns) (st_From st) (st_To st) (unat (st_Value st)) (led f) = Some (led h)"
proof -
  have ft: "st_From st \<in> addrs" "st_To st \<in> addrs" and tok: "token ONT"
    using st by (simp_all add: state_ok_def addrs_def token_def)
  obtain b b' db g where n1: "Transfer env PS ONT st ns = Ok ((b, b'), ns\<lparr>ns_CacheDB := db\<rparr>)"
    "ns_shows PS (ns\<lparr>ns_CacheDB := db\<rparr>) g" "typed g" "same_rest f g"
    "led g = pay ONT (st_From st) (st_To st) (unat (st_Value st)) (led f)" "unat b = led f (Balance ONT (st_From st))"
    "unat b' = ((led f)(Balance ONT (st_From st) := led f (Balance ONT (st_From st)) - unat (st_Value st))) (Balance ONT (st_To st))"
    using Transfer_shows [OF sh c tok st sound_small(1) [OF L], of env] auth v by auto
  let ?ns = "ns\<lparr>ns_CacheDB := db\<rparr>"
  have k1: "call_keeps ns ?ns"
    by (simp add: only_writes_keeps)
  have 1: "current_contract ?ns = Ok ONT" "sound (elapsed ?ns) (led f)"
    using call_keepsD(1) [OF k1] elapsed_keeps [OF k1] c L by simp_all
  obtain ns2 ns3 h where n3: "grantOng call PS ONT (st_From st) b ?ns = Ok ((), ns2)" "grantOng call PS ONT (st_To st) b' ns2 = Ok ((), ns3)"
    "call_keeps ?ns ns3" "ns_shows PS ns3 h" "typed h" "same_rest g h"
    "ont_pay (elapsed ns) (ns_PreExec ns) (st_From st) (st_To st) (unat (st_Value st)) (led f) = Some (led h)"
    using grants_shows [OF n1(2,3) 1(1) ft 1(2) n1(5-7), of env n] elapsed_keeps [OF k1] unfolding call_def by auto
  show ?thesis
    using n1(1) n3 call_keeps_trans [OF k1 n3(3)] same_rest_trans [OF n1(4) n3(6)] by blast
qed

lemma OntTransfer_loop_shows:
  fixes env n
  assumes "ns_shows PS ns f" "typed f" "current_contract ns = Ok ONT" "list_all state_ok sts" "sound (elapsed ns) (led f)"
    and auth: "auth = (\<lambda>a. CheckWitness (env_ripemd160 env) a (ContextRef ns))"
  defines "call \<equiv> NativeCall token_contracts (native_run env PS (Suc n))"
  shows "case ont_payments auth (elapsed ns) (ns_PreExec ns) sts (led f) of
      None \<Rightarrow> \<exists>e. OntTransfer_loop env call PS ONT sts ns = Err e
    | Some L \<Rightarrow> \<exists>ns' g. OntTransfer_loop env call PS ONT sts ns = Ok ((), ns') \<and> call_keeps ns ns' \<and> ns_shows PS ns' g
        \<and> typed g \<and> same_rest f g \<and> led g = L"
  using assms(1-6)
proof (induction sts arbitrary: ns f)
  case (Cons st sts)
  let ?v = "unat (st_Value st)"
  have st: "state_ok st" "list_all state_ok sts" "token ONT"
    using Cons.prems(4) by (simp_all add: token_def)
  note T = Transfer_shows [OF Cons.prems(1-3) st(3,1) sound_small(1) [OF Cons.prems(5)], of env]
  have lim: "ONT_TOTAL_SUPPLY < st_Value st \<longleftrightarrow> unat ONT_TOTAL_SUPPLY < ?v"
    by (simp only: word_less_nat_alt)
  consider "st_Value st = 0" | "st_Value st \<noteq> 0" "unat ONT_TOTAL_SUPPLY < ?v \<or> \<not> auth (st_From st) \<or> led f (Balance ONT (st_From st)) < ?v"
    | "st_Value st \<noteq> 0" "\<not> unat ONT_TOTAL_SUPPLY < ?v" "auth (st_From st)" "?v \<le> led f (Balance ONT (st_From st))"
    by fastforce
  then show ?case
  proof cases
    case 1
    then show ?thesis
      using Cons.IH [OF Cons.prems(1-3) st(2) Cons.prems(5,6)] by (auto split: option.splits)
  next
    case 2
    then show ?thesis
      using T lim Cons.prems(6) by auto
  next
    case 3
    obtain b b' ns1 ns2 ns3 h where n3: "Transfer env PS ONT st ns = Ok ((b, b'), ns1)" "grantOng call PS ONT (st_From st) b ns1 = Ok ((), ns2)"
      "grantOng call PS ONT (st_To st) b' ns2 = Ok ((), ns3)" "call_keeps ns ns3" "ns_shows PS ns3 h" "typed h" "same_rest f h"
      "ont_pay (elapsed ns) (ns_PreExec ns) (st_From st) (st_To st) ?v (led f) = Some (led h)"
      using ont_step_shows [OF Cons.prems(1-3) st(1) Cons.prems(5), of env n] 3 Cons.prems(6) unfolding call_def by blast
    let ?ns4 = "AddNotifications env ONT st ns3"
    have k4: "call_keeps ns ?ns4"
      using call_keeps_trans [OF n3(4) only_writes_keeps] AddNotifications_writes by blast
    have s4: "sound (elapsed ?ns4) (led h)"
      using ont_pay_sound [OF Cons.prems(5) _ _ 3(4) n3(8)] st(1) elapsed_keeps [OF k4] by (simp add: state_ok_def addrs_def)
    have auth4: "auth = (\<lambda>a. CheckWitness (env_ripemd160 env) a (ContextRef ?ns4))"
      using Cons.prems(6) call_keepsD(3) [OF k4] by simp
    have ih: "case ont_payments auth (elapsed ns) (ns_PreExec ns) sts (led h) of
        None \<Rightarrow> \<exists>e. OntTransfer_loop env call PS ONT sts ?ns4 = Err e
      | Some L \<Rightarrow> \<exists>ns' k. OntTransfer_loop env call PS ONT sts ?ns4 = Ok ((), ns') \<and> call_keeps ?ns4 ns' \<and> ns_shows PS ns' k
          \<and> typed k \<and> same_rest h k \<and> led k = L"
      using Cons.IH [OF _ n3(6) _ st(2) s4 auth4] n3(5) call_keepsD(1,5) [OF k4] elapsed_keeps [OF k4] Cons.prems(3) by simp
    have "OntTransfer_loop env call PS ONT (st # sts) ns = OntTransfer_loop env call PS ONT sts ?ns4"
      using 3 lim n3(1-3) by simp
    moreover have "ont_payments auth (elapsed ns) (ns_PreExec ns) (st # sts) (led f) = ont_payments auth (elapsed ns) (ns_PreExec ns) sts (led h)"
      using 3 n3(8) by simp
    ultimately show ?thesis
      using ih call_keeps_trans [OF k4] same_rest_trans [OF n3(7)] by (auto split: option.splits)
  qed
qed auto

lemma OntTransfer_shows:
  fixes env n
  assumes "ns_shows PS ns f" "typed f" "current_contract ns = Ok ONT" "sound (elapsed ns) (led f)"
    and sts: "Transfers_Deserialization (NewZeroCopySource (ns_Input ns)) = Ok (sts, s)"
  defines "call \<equiv> NativeCall token_contracts (native_run env PS (Suc n))"
  shows "case ont_payments (\<lambda>a. CheckWitness (env_ripemd160 env) a (ContextRef ns)) (elapsed ns) (ns_PreExec ns) sts (led f) of
      None \<Rightarrow> \<exists>e. OntTransfer env call PS ns = Err e
    | Some L \<Rightarrow> \<exists>ns' g. OntTransfer env call PS ns = Ok (BYTE_TRUE, ns') \<and> call_keeps ns ns' \<and> ns_shows PS ns' g
        \<and> typed g \<and> same_rest f g \<and> led g = L"
  using OntTransfer_loop_shows [OF assms(1-3) Transfers_Deserialization_ok [OF sts] assms(4) refl, of env n] sts assms(3)
  unfolding call_def by (auto simp: OntTransfer_def detail_def split: option.splits)

lemma OntApprove_shows:
  assumes "ns_shows PS ns f" "typed f" "current_contract ns = Ok c" "token c"
    and st: "State_Deserialization (NewZeroCopySource (ns_Input ns)) = Ok (st, s)"
  shows "if unat ONT_TOTAL_SUPPLY < unat (st_Value st) \<or> \<not> CheckWitness (env_ripemd160 env) (st_From st) (ContextRef ns)
    then \<exists>e. OntApprove env ns = Err e
    else \<exists>ns' g. OntApprove env ns = Ok (BYTE_TRUE, ns') \<and> only_writes ns ns' \<and> ns_shows PS ns' g \<and> typed g \<and> same_rest f g
      \<and> led g = (led f)(Allowance c (st_From st) (st_To st) := unat (st_Value st))"
proof -
  let ?x = "Allowance c (st_From st) (st_To st)"
  have x: "slot_ok ?x" "\<not> is_offset ?x"
    using State_Deserialization_ok [OF st] assms(4) by (simp_all add: state_ok_def)
  obtain db where db: "put_item (slot_key ?x) (GenUInt64StorageItem (st_Value st)) ns = Ok ((), ns\<lparr>ns_CacheDB := db\<rparr>)"
    "ns_shows PS (ns\<lparr>ns_CacheDB := db\<rparr>) (f(slot_key ?x := item64 (st_Value st)))"
    using put_item64_shows [OF assms(1)] by blast
  note g = sets_led [OF sets_item [OF refl, of f "slot_key ?x" "st_Value st"] x]
  have "ONT_TOTAL_SUPPLY < st_Value st \<longleftrightarrow> unat ONT_TOTAL_SUPPLY < unat (st_Value st)"
    by (simp only: word_less_nat_alt)
  then show ?thesis
    using st db g(1,3) g(2) [OF assms(2)] assms(3) only_writes_db [of ns db]
    by (auto simp: OntApprove_def detail_def simp del: unat_ONT_TOTAL_SUPPLY GenItem)
qed

lemma OntTransferFrom_shows:
  fixes env n
  assumes sh: "ns_shows PS ns f" "typed f" and c: "current_contract ns = Ok ONT" and sound: "sound (elapsed ns) (led f)"
    and tf: "TransferFrom_Deserialization (NewZeroCopySource (ns_Input ns)) = Ok (tf, s)"
  defines "x \<equiv> Allowance ONT (tf_From tf) (tf_Sender tf)" and "v \<equiv> unat (tf_Value tf)"
    and "call \<equiv> NativeCall token_contracts (native_run env PS (Suc n))"
  shows "if v = 0 then OntTransferFrom env call PS ns = Ok (BYTE_FALSE, ns)
    else if unat ONT_TOTAL_SUPPLY < v \<or> \<not> CheckWitness (env_ripemd160 env) (tf_Sender tf) (ContextRef ns)
      \<or> led f x < v \<or> led f (Balance ONT (tf_From tf)) < v
    then \<exists>e. OntTransferFrom env call PS ns = Err e
    else \<exists>ns' g. OntTransferFrom env call PS ns = Ok (BYTE_TRUE, ns') \<and> call_keeps ns ns' \<and> ns_shows PS ns' g \<and> typed g \<and> same_rest f g
      \<and> ont_pay (elapsed ns) (ns_PreExec ns) (tf_From tf) (tf_To tf) v ((led f)(x := led f x - v)) = Some (led g)"
proof -
  have len: "length (tf_Sender tf) = 20" "length (tf_From tf) = 20" "length (tf_To tf) = 20"
    using TransferFrom_Deserialization_ok [OF tf] by simp_all
  then have ft: "tf_From tf \<in> addrs" "tf_To tf \<in> addrs" and tok: "token ONT"
    by (simp_all add: addrs_def token_def)
  let ?L = "(led f)(x := led f x - v)"
  have L: "sound (elapsed ns) ?L"
    unfolding x_def by (rule sound_allowance [OF sound]) simp
  note T = TransferedFrom_shows [OF sh c tok len sound_small(1) [OF sound], of env, folded x_def v_def]
  have lim: "ONT_TOTAL_SUPPLY < tf_Value tf \<longleftrightarrow> unat ONT_TOTAL_SUPPLY < v" "tf_Value tf = 0 \<longleftrightarrow> v = 0"
    by (simp_all only: word_less_nat_alt v_def unat_eq_0)
  let ?st = "\<lparr>st_From = tf_From tf, st_To = tf_To tf, st_Value = tf_Value tf\<rparr>"
  have run: "OntTransferFrom env call PS ns = (if v = 0 then Ok (BYTE_FALSE, ns)
      else if unat ONT_TOTAL_SUPPLY < v then Err ''transferFrom ont amount over totalSupply''
      else bind_res (TransferedFrom env PS ONT tf ns) (\<lambda>((b, b'), n1).
        bind_res (grantOng call PS ONT (tf_From tf) b n1) (\<lambda>(_, n2).
        bind_res (grantOng call PS ONT (tf_To tf) b' n2) (\<lambda>(_, n3). Ok (BYTE_TRUE, AddNotifications env ONT ?st n3)))))"
    using tf c by (simp add: OntTransferFrom_def detail_def lim del: unat_ONT_TOTAL_SUPPLY)
  show ?thesis
  proof (cases "\<not> CheckWitness (env_ripemd160 env) (tf_Sender tf) (ContextRef ns) \<or> led f x < v \<or> led f (Balance ONT (tf_From tf)) < v")
    case True
    then show ?thesis
      using T unfolding run by (auto simp del: unat_ONT_TOTAL_SUPPLY)
  next
    case False
    then obtain b b' db g where n1: "TransferedFrom env PS ONT tf ns = Ok ((b, b'), ns\<lparr>ns_CacheDB := db\<rparr>)"
      "ns_shows PS (ns\<lparr>ns_CacheDB := db\<rparr>) g" "typed g" "same_rest f g" "led g = pay ONT (tf_From tf) (tf_To tf) v ?L"
      "unat b = led f (Balance ONT (tf_From tf))"
      "unat b' = (?L(Balance ONT (tf_From tf) := ?L (Balance ONT (tf_From tf)) - v)) (Balance ONT (tf_To tf))"
      using T by auto
    let ?ns = "ns\<lparr>ns_CacheDB := db\<rparr>"
    have k1: "call_keeps ns ?ns" and b: "unat b = ?L (Balance ONT (tf_From tf))"
      using n1(6) by (simp_all add: only_writes_keeps x_def)
    have 1: "current_contract ?ns = Ok ONT" "sound (elapsed ?ns) ?L"
      using call_keepsD(1) [OF k1] elapsed_keeps [OF k1] c L by simp_all
    obtain ns2 ns3 h where n3: "grantOng call PS ONT (tf_From tf) b ?ns = Ok ((), ns2)" "grantOng call PS ONT (tf_To tf) b' ns2 = Ok ((), ns3)"
      "call_keeps ?ns ns3" "ns_shows PS ns3 h" "typed h" "same_rest g h"
      "ont_pay (elapsed ns) (ns_PreExec ns) (tf_From tf) (tf_To tf) v ?L = Some (led h)"
      using grants_shows [OF n1(2,3) 1(1) ft 1(2) n1(5) b n1(7), of env n] elapsed_keeps [OF k1] unfolding call_def by auto
    have "call_keeps ns (AddNotifications env ONT ?st ns3)"
      using call_keeps_trans [OF k1 call_keeps_trans [OF n3(3) only_writes_keeps]] AddNotifications_writes by blast
    then show ?thesis
      using False n1(1) n3 same_rest_trans [OF n1(4) n3(6)] unfolding run by (auto simp del: unat_ONT_TOTAL_SUPPLY)
  qed
qed

end
