(* ===== verification/TokenGenesis.thy ===== *)
theory TokenGenesis
  imports OntLedger "HOL-Library.Multiset"
begin

text \<open>
  The initialisation of the tokens: \<open>OntInit\<close> shares the supply of ONT out as its argument says and \<open>OngInit\<close>
  gives the supply of ONG to the contract of ONT. Also the argument that
  \<open>src/core/genesis/genesis.go\<close> passes to \<open>OntInit\<close>. The result is a sound ledger.
\<close>

section \<open>The distribution\<close>

text \<open>What a distribution holds for an address.\<close>

definition held :: "(Address \<times> u64) list \<Rightarrow> Address \<Rightarrow> nat" where
  "held d a = (case map_of d a of None \<Rightarrow> 0 | Some v \<Rightarrow> unat v)"

definition dist_ok :: "(Address \<times> u64) list \<Rightarrow> bool" where
  "dist_ok d \<longleftrightarrow> distinct (map fst d) \<and> fst ` set d \<subseteq> addrs"

lemma dist_ok_Nil [simp]: "dist_ok []" "held [] a = 0"
  by (simp_all add: dist_ok_def held_def)

lemma map_of_add:
  "map_of (map (\<lambda>(k, x). if k = a then (k, x + v) else (k, x)) d) b = (if b = a then map_option (\<lambda>x. x + v) (map_of d b) else map_of d b)"
  by (induction d) (auto simp: case_prod_unfold)

lemma dist_add_ok:
  assumes "dist_ok d" "a \<in> addrs"
  shows "dist_ok (dist_add a v d)"
proof -
  have "map fst (map (\<lambda>(k, x). if k = a then (k, x + v) else (k, x)) d) = map fst d"
    by (simp add: case_prod_unfold comp_def if_distrib [of fst] cong: if_cong)
  moreover from arg_cong [OF this, of set]
  have "fst ` set (map (\<lambda>(k, x). if k = a then (k, x + v) else (k, x)) d) = fst ` set d"
    by (simp only: set_map)
  ultimately show ?thesis
    using assms by (simp add: dist_ok_def dist_add_def map_of_eq_None_iff del: map_map set_map) (simp add: list.set_map)
qed

lemma dist_add_held:
  assumes "held d a + unat v < 2 ^ 64"
  shows "held (dist_add a v d) = (held d)(a := held d a + unat v)"
proof (cases "map_of d a")
  case None
  then show ?thesis
    by (intro ext) (simp add: held_def dist_add_def map_add_def split: option.splits)
next
  case (Some x)
  then have "unat (x + v) = unat x + unat v"
    using assms by (simp add: held_def unat_word_ariths)
  then show ?thesis
    using Some by (intro ext) (simp add: held_def dist_add_def map_of_add)
qed

lemma held_le: "a \<in> addrs \<Longrightarrow> held d a \<le> (\<Sum>b\<in>addrs. held d b)"
  by (rule member_le_sum) auto

lemma dist_step:
  assumes "dist_ok d" "(\<Sum>b\<in>addrs. held d b) = unat acc" "a \<in> addrs" "\<not> snd (SafeAdd acc v)"
  shows "dist_ok (dist_add a v d)" "held (dist_add a v d) = (held d)(a := held d a + unat v)"
    "(\<Sum>b\<in>addrs. held (dist_add a v d) b) = unat (fst (SafeAdd acc v))" "unat (fst (SafeAdd acc v)) = unat acc + unat v"
proof -
  have small: "unat acc + unat v < 2 ^ 64"
    using assms(4) SafeAdd_exact [of acc v] by simp
  then show sa: "unat (fst (SafeAdd acc v)) = unat acc + unat v"
    by (simp add: SafeAdd_def unat_word_ariths)
  show h: "held (dist_add a v d) = (held d)(a := held d a + unat v)"
    using small held_le [OF assms(3), of d] assms(2) by (intro dist_add_held) simp
  show "dist_ok (dist_add a v d)"
    using assms by (simp add: dist_add_ok)
  show "(\<Sum>b\<in>addrs. held (dist_add a v d) b) = unat (fst (SafeAdd acc v))"
    using sum_fun_upd [OF finite_addrs assms(3), of "held d" "held d a + unat v"] assms(2) sa by (simp add: h)
qed

text \<open>Whatever \<open>OntInit\<close> reads, the amounts add up without overflow.\<close>

lemma fmt_err_Ok [simp]: "fmt_err msg m = Ok x \<longleftrightarrow> m = Ok x"
  by (cases m) (simp_all add: fmt_err_def)

lemma OntInit_read_ok:
  assumes "dist_ok d" "(\<Sum>b\<in>addrs. held d b) = unat acc" "OntInit_read n acc d s = Ok (acc', d')"
  shows "dist_ok d' \<and> (\<Sum>b\<in>addrs. held d' b) = unat acc'"
  using assms
proof (induction n arbitrary: acc d s)
  case (Suc n)
  obtain a s1 v s2 where a: "DecodeAddress s = Ok (a, s1)" "DecodeVarUint s1 = Ok (v, s2)" "\<not> snd (SafeAdd acc v)"
    "OntInit_read n (fst (SafeAdd acc v)) (dist_add a v d) s2 = Ok (acc', d')"
    using Suc.prems(3) by (auto simp: bind_res_Ok_iff case_prod_unfold Let_def split: if_splits)
  then have "a \<in> addrs"
    using DecodeAddress_20 by (simp add: addrs_def)
  then show ?case
    using Suc.IH [OF _ _ a(4)] dist_step [OF Suc.prems(1,2) _ a(3)] by simp
qed simp

text \<open>An encoded distribution is read as such: an address that occurs twice gets both amounts.\<close>

definition amount :: "(Address \<times> u64) list \<Rightarrow> Address \<Rightarrow> nat" where
  "amount ds a = (\<Sum>(b, v)\<leftarrow>ds. if b = a then unat v else 0)"

definition part_enc :: "Address \<times> u64 \<Rightarrow> bytes" where
  "part_enc p = varbytes_enc (fst p) @ VarUint_arg_enc (snd p)"

definition part_ok :: "Address \<times> u64 \<Rightarrow> bool" where
  "part_ok p \<longleftrightarrow> fst p \<in> addrs \<and> snd p < 0x8000000000000000"

definition dist_enc :: "(Address \<times> u64) list \<Rightarrow> bytes" where
  "dist_enc ds = VarUint_arg_enc (of_nat (length ds)) @ concat (map part_enc ds)"

lemma OntInit_read_reads:
  assumes "dist_ok d" "(\<Sum>b\<in>addrs. held d b) = unat acc" "list_all part_ok ds" "wf_src s" "rest s = concat (map part_enc ds) @ r"
    "unat acc + (\<Sum>(a, v)\<leftarrow>ds. unat v) < 2 ^ 64"
  shows "\<exists>acc' d'. OntInit_read (length ds) acc d s = Ok (acc', d') \<and> unat acc' = unat acc + (\<Sum>(a, v)\<leftarrow>ds. unat v)
    \<and> dist_ok d' \<and> (\<forall>a. held d' a = held d a + amount ds a)"
  using assms
proof (induction ds arbitrary: acc d s)
  case (Cons p ds)
  obtain a v where p: "p = (a, v)"
    by (cases p)
  then have av: "length a = 20" "v < 0x8000000000000000" "a \<in> addrs"
    using Cons.prems(3) by (simp_all add: part_ok_def addrs_def)
  have "rest s = varbytes_enc a @ VarUint_arg_enc v @ concat (map part_enc ds) @ r"
    using Cons.prems(5) by (simp add: p part_enc_def [of "(a, v)"])
  note r1 = arg_addr.reads_then [OF av(1) Cons.prems(4) this]
  note r2 = arg_uint.reads_then [OF av(2) r1(2,3)]
  have "\<not> snd (SafeAdd acc v)"
    using Cons.prems(6) p SafeAdd_exact [of acc v] by simp
  note st = dist_step [OF Cons.prems(1,2) av(3) this] this
  have small: "unat (fst (SafeAdd acc v)) + (\<Sum>(a, v)\<leftarrow>ds. unat v) < 2 ^ 64"
    using Cons.prems(6) p st(4) by simp
  obtain acc' d' where d': "OntInit_read (length ds) (fst (SafeAdd acc v)) (dist_add a v d)
      (advance (length (VarUint_arg_enc v)) (advance (length (varbytes_enc a)) s)) = Ok (acc', d')"
    "unat acc' = unat (fst (SafeAdd acc v)) + (\<Sum>(a, v)\<leftarrow>ds. unat v)" "dist_ok d'"
    "\<forall>b. held d' b = held (dist_add a v d) b + amount ds b"
    using Cons.IH [OF st(1,3) _ r2(2,3) small] Cons.prems(3) by auto
  have "held d' b = held d b + amount (p # ds) b" for b
    using d'(4) by (simp add: st(2) p amount_def)
  then show ?case
    using d'(1-3) r1(1) r2(1) st(4,5) by (simp add: p fmt_err_def case_prod_unfold Let_def)
qed (simp add: amount_def)

section \<open>The handlers\<close>

text \<open>The ledger with the balances of a distribution.\<close>

definition allot :: "Address \<Rightarrow> (Address \<times> u64) list \<Rightarrow> (slot \<Rightarrow> nat) \<Rightarrow> slot \<Rightarrow> nat" where
  "allot c d L x = (case x of Balance c' a \<Rightarrow> if c' = c \<and> a \<in> fst ` set d then held d a else L x | _ \<Rightarrow> L x)"

lemma allot_Nil [simp]: "allot c [] L = L"
  by (intro ext) (simp add: allot_def split: slot.split)

lemma allot_Cons:
  assumes "a \<notin> fst ` set d"
  shows "allot c ((a, v) # d) L = allot c d (L(Balance c a := unat v))"
proof
  fix x
  show "allot c ((a, v) # d) L x = allot c d (L(Balance c a := unat v)) x"
    using assms by (cases x) (auto simp: allot_def held_def)
qed

lemma allot_perm:
  assumes "dist_ok d" "mset d' = mset d"
  shows "dist_ok d'" "allot c d' L = allot c d L"
proof -
  have set: "set d' = set d" and "mset (map fst d') = mset (map fst d)"
    using mset_eq_setD [OF assms(2)] assms(2) by simp_all
  from mset_eq_imp_distinct_iff [OF this(2)] set show d': "dist_ok d'"
    using assms(1) unfolding dist_ok_def by simp
  then have "map_of d' = map_of d"
    using assms(1) set map_of_inject_set [of d' d] unfolding dist_ok_def by blast
  then show "allot c d' L = allot c d L"
    using set by (intro ext) (simp add: allot_def held_def split: slot.split)
qed

lemma put_slot_shows:
  assumes "ns_shows PS ns f" "typed f" "slot_ok x" "\<not> is_offset x"
  shows "\<exists>db g. put_item (slot_key x) (GenUInt64StorageItem v) ns = Ok ((), ns\<lparr>ns_CacheDB := db\<rparr>) \<and> ns_shows PS (ns\<lparr>ns_CacheDB := db\<rparr>) g
    \<and> typed g \<and> same_rest f g \<and> led g = (led f)(x := unat v)"
  using put_item64_shows [OF assms(1), of "slot_key x" v] sets_led [OF sets_item [OF refl, of f "slot_key x" v] assms(3,4)] assms(2)
  by blast

lemma put_notify_shows:
  assumes "ns_shows PS ns f" "typed f" "slot_ok x" "\<not> is_offset x"
  shows "\<exists>n1 ns' g. put_item (slot_key x) (GenUInt64StorageItem v) ns = Ok ((), n1) \<and> AddNotifications env c st n1 = ns'
    \<and> only_writes ns ns' \<and> ns_shows PS ns' g \<and> typed g \<and> same_rest f g \<and> led g = (led f)(x := unat v)"
proof -
  obtain db g where g: "put_item (slot_key x) (GenUInt64StorageItem v) ns = Ok ((), ns\<lparr>ns_CacheDB := db\<rparr>)"
    "ns_shows PS (ns\<lparr>ns_CacheDB := db\<rparr>) g" "typed g" "same_rest f g" "led g = (led f)(x := unat v)"
    using put_slot_shows [OF assms] by blast
  have "ns_shows PS (AddNotifications env c st (ns\<lparr>ns_CacheDB := db\<rparr>)) g"
    using g(2) by (simp add: AddNotifications_def ns_shows_def)
  then show ?thesis
    using g only_writes_trans [OF only_writes_db AddNotifications_writes] by blast
qed

lemma OntInit_put_shows:
  assumes "ns_shows PS ns f" "typed f" "token c" "dist_ok d"
  shows "\<exists>ns' g. OntInit_put env c d ns = Ok ((), ns') \<and> only_writes ns ns' \<and> ns_shows PS ns' g \<and> typed g \<and> same_rest f g
    \<and> led g = allot c d (led f)"
  using assms
proof (induction d arbitrary: ns f)
  case (Cons p d)
  obtain a v where p: "p = (a, v)"
    by (cases p)
  then have d: "dist_ok d" "slot_ok (Balance c a)" "\<not> is_offset (Balance c a)" "a \<notin> fst ` set d"
    using Cons.prems(3,4) by (auto simp: dist_ok_def addrs_def)
  obtain n1 ns1 g where g: "put_item (GenBalanceKey c a) (GenUInt64StorageItem v) ns = Ok ((), n1)"
    "AddNotifications env c \<lparr>st_From = ADDRESS_EMPTY, st_To = a, st_Value = v\<rparr> n1 = ns1" "only_writes ns ns1" "ns_shows PS ns1 g"
    "typed g" "same_rest f g" "led g = (led f)(Balance c a := unat v)"
    using put_notify_shows [OF Cons.prems(1,2) d(2,3), of v env c "\<lparr>st_From = ADDRESS_EMPTY, st_To = a, st_Value = v\<rparr>"]
    unfolding slot_key.simps by blast
  obtain ns' h where h: "OntInit_put env c d ns1 = Ok ((), ns')" "only_writes ns1 ns'" "ns_shows PS ns' h" "typed h" "same_rest g h"
    "led h = allot c d (led g)"
    using Cons.IH [OF g(4,5) Cons.prems(3) d(1)] by blast
  show ?case
    using h only_writes_trans [OF g(3) h(2)] same_rest_trans [OF g(6) h(5)] allot_Cons [OF d(4), of c v "led f"] g(1,2,7)
    by (intro exI [of _ ns'] exI [of _ h]) (simp add: p)
qed auto

lemma read_slot_shows:
  assumes "ns_shows PS ns f" "typed f" "slot_ok x" "\<not> is_offset x"
  shows "\<exists>v db. GetStorageUInt64 PS (slot_key x) ns = Ok (v, ns\<lparr>ns_CacheDB := db\<rparr>) \<and> unat v = led f x \<and> ns_shows PS (ns\<lparr>ns_CacheDB := db\<rparr>) f"
proof -
  obtain v where "stored64 (f (slot_key x)) = Ok v" "unat v = led f x"
    using typed_ok64 [OF assms(2-4)] ok64D [of f "slot_key x"] by auto
  then show ?thesis
    using GetStorageUInt64_shows [OF assms(1), of "slot_key x"] by auto
qed

lemma OntInit_puts_shows:
  fixes c :: Address
  assumes sh: "ns_shows PS ns f" "typed f" and c: "token c" and d: "dist_ok d" "mset (map_range env d) = mset d"
  defines "m \<equiv> bind_res (OntInit_put env c (map_range env d) ns) (\<lambda>(_, n2).
      bind_res (put_item (GenTotalSupplyKey c) (GenUInt64StorageItem ONT_TOTAL_SUPPLY) n2) (\<lambda>(_, n3). Ok (BYTE_TRUE, n3)))"
  shows "\<exists>ns' g. m = Ok (BYTE_TRUE, ns') \<and> only_writes ns ns' \<and> ns_shows PS ns' g \<and> typed g \<and> same_rest f g
    \<and> led g = (allot c d (led f))(Supply c := unat ONT_TOTAL_SUPPLY)"
proof -
  note perm = allot_perm [OF d]
  obtain n2 g where g: "OntInit_put env c (map_range env d) ns = Ok ((), n2)" "only_writes ns n2" "ns_shows PS n2 g" "typed g"
    "same_rest f g" "led g = allot c d (led f)"
    using OntInit_put_shows [OF sh c perm(1), of env] perm(2) [of c "led f"] by auto
  have x: "slot_ok (Supply c)" "\<not> is_offset (Supply c)"
    using c by simp_all
  obtain db h where h: "put_item (GenTotalSupplyKey c) (GenUInt64StorageItem ONT_TOTAL_SUPPLY) n2 = Ok ((), n2\<lparr>ns_CacheDB := db\<rparr>)"
    "ns_shows PS (n2\<lparr>ns_CacheDB := db\<rparr>) h" "typed h" "same_rest g h" "led h = (led g)(Supply c := unat ONT_TOTAL_SUPPLY)"
    using put_slot_shows [OF g(3,4) x, of ONT_TOTAL_SUPPLY] unfolding slot_key.simps by blast
  have "m = Ok (BYTE_TRUE, n2\<lparr>ns_CacheDB := db\<rparr>)"
    unfolding m_def g(1) using h(1) by simp
  then show ?thesis
    using h(2,3,5) g(6) only_writes_trans [OF g(2) only_writes_db] same_rest_trans [OF g(5) h(4)] by auto
qed

text \<open>
  When \<open>OntInit\<close> reports success the supply is out in full; \<open>map_range\<close>, the order in which a Go map is
  ranged over, visits every entry once.
\<close>

lemma OntInit_shows:
  assumes sh: "ns_shows PS ns f" "typed f" and c: "current_contract ns = Ok c" "token c"
    and perm: "\<And>d. mset (map_range env d) = mset d" and r: "OntInit env PS ns = Ok (BYTE_TRUE, ns')"
  shows "\<exists>d g. dist_ok d \<and> (\<Sum>b\<in>addrs. held d b) = unat ONT_TOTAL_SUPPLY \<and> only_writes ns ns' \<and> ns_shows PS ns' g \<and> typed g
    \<and> same_rest f g \<and> led g = (allot c d (led f))(Supply c := unat ONT_TOTAL_SUPPLY)"
proof -
  have x: "slot_ok (Supply c)" "\<not> is_offset (Supply c)"
    using c by simp_all
  obtain v db where v: "GetStorageUInt64 PS (GenTotalSupplyKey c) ns = Ok (v, ns\<lparr>ns_CacheDB := db\<rparr>)"
    "ns_shows PS (ns\<lparr>ns_CacheDB := db\<rparr>) f"
    using read_slot_shows [OF sh x] by auto
  obtain buf n irr s num input d where rd: "NextVarBytes (NewZeroCopySource (ns_Input ns)) = Ok ((buf, n, irr, False), s)"
    "DecodeVarUint (NewZeroCopySource buf) = Ok (num, input)" "OntInit_read (unat num) 0 [] input = Ok (ONT_TOTAL_SUPPLY, d)"
    "bind_res (OntInit_put env c (map_range env d) (ns\<lparr>ns_CacheDB := db\<rparr>)) (\<lambda>(_, n2).
      bind_res (put_item (GenTotalSupplyKey c) (GenUInt64StorageItem ONT_TOTAL_SUPPLY) n2) (\<lambda>(_, n3). Ok (BYTE_TRUE, n3))) = Ok (BYTE_TRUE, ns')"
    using r by (auto simp: OntInit_def c(1) v(1) bind_res_Ok_iff NewDetailErr_def BYTE_TRUE_def BYTE_FALSE_def split: if_splits)
  have d: "dist_ok d" "(\<Sum>b\<in>addrs. held d b) = unat ONT_TOTAL_SUPPLY"
    using OntInit_read_ok [OF _ _ rd(3)] by simp_all
  obtain g where g: "only_writes (ns\<lparr>ns_CacheDB := db\<rparr>) ns'" "ns_shows PS ns' g" "typed g" "same_rest f g"
    "led g = (allot c d (led f))(Supply c := unat ONT_TOTAL_SUPPLY)"
    using OntInit_puts_shows [OF v(2) sh(2) c(2) d(1) perm] rd(4) by auto
  then show ?thesis
    using d only_writes_trans [OF only_writes_db g(1)] by blast
qed

text \<open>On an encoded distribution of the whole supply it succeeds, once.\<close>

lemma OntInit_starts:
  assumes sh: "ns_shows PS ns f" "typed f" and c: "current_contract ns = Ok c" "token c" "led f (Supply c) = 0"
    and perm: "\<And>d. mset (map_range env d) = mset d"
    and ds: "list_all part_ok ds" "length ds < 2 ^ 63" "(\<Sum>(a, v)\<leftarrow>ds. unat v) = unat ONT_TOTAL_SUPPLY"
    and input: "ns_Input ns = varbytes_enc (dist_enc ds)" "length (ns_Input ns) \<le> maxInt"
  shows "\<exists>ns' d g. OntInit env PS ns = Ok (BYTE_TRUE, ns') \<and> (\<forall>a. held d a = amount ds a) \<and> dist_ok d \<and> only_writes ns ns' \<and> ns_shows PS ns' g
    \<and> typed g \<and> same_rest f g \<and> led g = (allot c d (led f))(Supply c := unat ONT_TOTAL_SUPPLY)"
proof -
  have x: "slot_ok (Supply c)" "\<not> is_offset (Supply c)"
    using c by simp_all
  obtain v db where v: "GetStorageUInt64 PS (GenTotalSupplyKey c) ns = Ok (v, ns\<lparr>ns_CacheDB := db\<rparr>)" "v = 0"
    "ns_shows PS (ns\<lparr>ns_CacheDB := db\<rparr>) f"
    using read_slot_shows [OF sh x] c(3) by (auto simp: unat_eq_0)
  let ?n = "of_nat (length ds) :: u64"
  have n: "unat ?n = length ds"
    using ds(2) by (simp add: of_nat_less_u64)
  then have small: "?n < 0x8000000000000000"
    using ds(2) by (simp add: word_less_nat_alt)
  have wf: "wf_src (NewZeroCopySource (ns_Input ns))" "wf_src (NewZeroCopySource (dist_enc ds))"
    using input by (simp_all add: varbytes_enc_def)
  note r1 = NextVarBytes_prefix [OF wf(1), of "dist_enc ds" "[]"]
  note r2 = arg_uint.reads_then [OF small wf(2), of "concat (map part_enc ds)"]
  obtain acc d where d: "OntInit_read (length ds) 0 [] (advance (length (VarUint_arg_enc ?n)) (NewZeroCopySource (dist_enc ds))) = Ok (acc, d)"
    "unat acc = unat ONT_TOTAL_SUPPLY" "dist_ok d" "\<forall>a. held d a = amount ds a"
    using OntInit_read_reads [of "[]" 0 ds _ "[]", OF _ _ ds(1) r2(2)] r2(3) ds(3) by (auto simp: dist_enc_def)
  have "acc = ONT_TOTAL_SUPPLY"
    using d(2) by (simp only: word_unat_eq_iff)
  then have "OntInit env PS ns = bind_res (OntInit_put env c (map_range env d) (ns\<lparr>ns_CacheDB := db\<rparr>)) (\<lambda>(_, n2).
      bind_res (put_item (GenTotalSupplyKey c) (GenUInt64StorageItem ONT_TOTAL_SUPPLY) n2) (\<lambda>(_, n3). Ok (BYTE_TRUE, n3)))"
    using r1 r2(1) d(1) n by (simp add: OntInit_def c(1) v(1,2) input(1) fmt_err_def dist_enc_def)
  then obtain ns' g where g: "OntInit env PS ns = Ok (BYTE_TRUE, ns')" "only_writes (ns\<lparr>ns_CacheDB := db\<rparr>) ns'" "ns_shows PS ns' g"
    "typed g" "same_rest f g" "led g = (allot c d (led f))(Supply c := unat ONT_TOTAL_SUPPLY)"
    using OntInit_puts_shows [OF v(3) sh(2) c(2) d(3) perm] by auto
  then show ?thesis
    using d(3,4) only_writes_trans [OF only_writes_db g(2)] by blast
qed

lemma OngInit_shows:
  assumes sh: "ns_shows PS ns f" "typed f" and c: "current_contract ns = Ok c" "token c" "led f (Supply c) = 0"
  shows "\<exists>ns' g. OngInit env PS ns = Ok (BYTE_TRUE, ns') \<and> only_writes ns ns' \<and> ns_shows PS ns' g \<and> typed g \<and> same_rest f g
    \<and> led g = (led f)(Supply c := unat ONG_TOTAL_SUPPLY, Balance c ONT := unat ONG_TOTAL_SUPPLY)"
proof -
  have x: "slot_ok (Supply c)" "\<not> is_offset (Supply c)" and y: "slot_ok (Balance c ONT)" "\<not> is_offset (Balance c ONT)"
    using c by (simp_all add: addrs_def)
  obtain v db where v: "GetStorageUInt64 PS (GenTotalSupplyKey c) ns = Ok (v, ns\<lparr>ns_CacheDB := db\<rparr>)" "v = 0"
    "ns_shows PS (ns\<lparr>ns_CacheDB := db\<rparr>) f"
    using read_slot_shows [OF sh x] c(3) by (auto simp: unat_eq_0)
  obtain db1 g where g: "put_item (GenTotalSupplyKey c) (GenUInt64StorageItem ONG_TOTAL_SUPPLY) (ns\<lparr>ns_CacheDB := db\<rparr>) = Ok ((), ns\<lparr>ns_CacheDB := db1\<rparr>)"
    "ns_shows PS (ns\<lparr>ns_CacheDB := db1\<rparr>) g" "typed g" "same_rest f g" "led g = (led f)(Supply c := unat ONG_TOTAL_SUPPLY)"
    using put_slot_shows [OF v(3) sh(2) x, of ONG_TOTAL_SUPPLY] unfolding slot_key.simps by auto
  let ?st = "\<lparr>st_From = ADDRESS_EMPTY, st_To = ONT, st_Value = ONG_TOTAL_SUPPLY\<rparr>"
  obtain n1 ns' h where h: "put_item (GenBalanceKey c ONT) (GenUInt64StorageItem ONG_TOTAL_SUPPLY) (ns\<lparr>ns_CacheDB := db1\<rparr>) = Ok ((), n1)"
    "AddNotifications env c ?st n1 = ns'" "only_writes (ns\<lparr>ns_CacheDB := db1\<rparr>) ns'" "ns_shows PS ns' h" "typed h" "same_rest g h"
    "led h = (led g)(Balance c ONT := unat ONG_TOTAL_SUPPLY)"
    using put_notify_shows [OF g(2,3) y, of ONG_TOTAL_SUPPLY env c ?st] unfolding slot_key.simps by blast
  have "OngInit env PS ns = Ok (BYTE_TRUE, ns')"
    using g(1) h(1,2) v(2) by (simp add: OngInit_def c(1) v(1) GenBalanceKey_def)
  then show ?thesis
    using h(4,5,7) g(5) only_writes_trans [OF only_writes_db h(3)] same_rest_trans [OF g(4) h(6)] by auto
qed

section \<open>The genesis block\<close>

text \<open>The argument of \<open>OntInit\<close> in the genesis block: one address gets the whole supply.\<close>

fun encode_distribute :: "(Address \<times> u64) list \<Rightarrow> wr" where
  "encode_distribute [] args = Ok args"
| "encode_distribute ((addr, val) # ds) args =
     bind_res (EncodeAddress addr args) (\<lambda>a1. bind_res (EncodeVarUint val a1) (encode_distribute ds))"

definition newGoverningInit_args :: "Address \<Rightarrow> bytes res" where
  "newGoverningInit_args addr =
     (let distribute = [(addr, ONT_TOTAL_SUPPLY)]
      in bind_res (EncodeVarUint (of_nat (length distribute)) NewZeroCopySink) (\<lambda>args.
         bind_res (encode_distribute distribute args) (\<lambda>a. Ok (snk_Bytes a))))"

lemma newGoverningInit_enc:
  assumes "a \<in> addrs"
  shows "newGoverningInit_args a = Ok (dist_enc [(a, ONT_TOTAL_SUPPLY)])"
proof -
  have a: "length a = 20"
    using assms by (simp add: addrs_def)
  have one: "encode_distribute [(a, v)] = (\<lambda>s. bind_res (EncodeAddress a s) (\<lambda>s. bind_res (EncodeVarUint v s) Ok))" for v
    by (intro ext) (simp add: encode_distribute.simps(1) [abs_def])
  have w: "writer (\<lambda>s. bind_res (EncodeVarUint 1 s) (encode_distribute [(a, ONT_TOTAL_SUPPLY)])) (dist_enc [(a, ONT_TOTAL_SUPPLY)])"
    using writer_bind [OF arg_uint.writes [of 1] writer_bind [OF arg_addr.writes [OF a]
      writer_bind [OF arg_uint.writes [of ONT_TOTAL_SUPPLY] writer_return]]]
    by (simp add: dist_enc_def part_enc_def ONT_TOTAL_SUPPLY_def one)
  have "length (dist_enc [(a, ONT_TOTAL_SUPPLY)]) + 8 \<le> sink_max"
    using length_arg_enc(1) [of a] length_arg_enc(2) [of 1] length_arg_enc(2) [of ONT_TOTAL_SUPPLY] a
    by (simp add: dist_enc_def part_enc_def sink_max_def)
  then show ?thesis
    using writer.to_fresh_sink [OF w] by (auto simp: newGoverningInit_args_def bind_res_assoc [symmetric] simp del: encode_distribute.simps)
qed

text \<open>From an empty ledger the two handlers lead to a sound one.\<close>

lemma genesis_sound:
  fixes L :: "slot \<Rightarrow> nat"
  assumes d: "dist_ok d" "(\<Sum>b\<in>addrs. held d b) = unat ONT_TOTAL_SUPPLY" and L: "\<And>x. L x = 0"
  shows "sound now ((allot ONT d L)(Supply ONT := unat ONT_TOTAL_SUPPLY, Supply ONG := unat ONG_TOTAL_SUPPLY,
    Balance ONG ONT := unat ONG_TOTAL_SUPPLY))" (is "sound now ?M")
proof -
  have held: "allot ONT d L (Balance ONT a) = held d a" "allot ONT d L (Balance ONG a) = 0" "allot ONT d L (due a) = 0"
    "allot ONT d L (Offset ONT a) = 0" for a
    using L map_of_eq_None_iff [of d a] by (auto simp: allot_def held_def due_def)
  have M: "?M (Balance ONT a) = held d a" "?M (due a) = 0" "?M (Offset ONT a) = 0"
    "?M (Balance ONG a) = (if a = ONT then unat ONG_TOTAL_SUPPLY else 0)" for a
    by (simp_all add: held)
  have "issued ONT ?M = unat ONT_TOTAL_SUPPLY"
    using d(2) by (simp only: issued_def M)
  moreover have "issued ONG ?M = unat ONG_TOTAL_SUPPLY"
    by (simp only: issued_def M) simp
  moreover have "owed ?M = (\<Sum>b\<in>addrs. held d b) * released 0 deadline"
    by (simp only: owed_def claim_def M sum_distrib_right) simp
  ultimately show ?thesis
    by (simp add: sound_def d(2) released_total held)
qed

end
