(* ===== verification/TokenSystem.thy ===== *)
theory TokenSystem
  imports TokenGenesis
begin

text \<open>
  The two tokens as a system. A call of either contract through a new native service has one of the effects
  of the relation \<open>effect\<close> on the ledger, which is the abstract machine the contracts implement. The states
  reachable from the initialisation by such calls are sound: both supplies are out in full, and the account
  of the contract of ONT covers what is owed to the holders of ONT.
\<close>

section \<open>The abstract machine\<close>

inductive effect :: "(Address \<Rightarrow> bool) \<Rightarrow> nat \<Rightarrow> bool \<Rightarrow> (slot \<Rightarrow> nat) \<Rightarrow> (slot \<Rightarrow> nat) \<Rightarrow> bool"
  for auth now pre where
  effect_none: "effect auth now pre L L"
| effect_ong_transfer: "payments auth (unat ONG_TOTAL_SUPPLY) ONG sts L = Some M \<Longrightarrow> list_all state_ok sts \<Longrightarrow> effect auth now pre L M"
| effect_ont_transfer: "ont_payments auth now pre sts L = Some M \<Longrightarrow> list_all state_ok sts \<Longrightarrow> effect auth now pre L M"
| effect_approve: "token c \<Longrightarrow> auth from \<Longrightarrow> n \<le> unat ONG_TOTAL_SUPPLY \<Longrightarrow> effect auth now pre L (L(Allowance c from to := n))"
| effect_ong_from: "auth sender \<Longrightarrow> sender \<in> addrs \<Longrightarrow> from \<in> addrs \<Longrightarrow> to \<in> addrs \<Longrightarrow> v \<le> L (Allowance ONG from sender)
    \<Longrightarrow> v \<le> L (Balance ONG from)
    \<Longrightarrow> effect auth now pre L (pay ONG from to v (L(Allowance ONG from sender := L (Allowance ONG from sender) - v)))"
| effect_ont_from: "auth sender \<Longrightarrow> from \<in> addrs \<Longrightarrow> to \<in> addrs \<Longrightarrow> v \<le> L (Allowance ONT from sender) \<Longrightarrow> v \<le> L (Balance ONT from)
    \<Longrightarrow> ont_pay now pre from to v (L(Allowance ONT from sender := L (Allowance ONT from sender) - v)) = Some M
    \<Longrightarrow> effect auth now pre L M"

text \<open>It keeps a ledger sound as long as no one acts for the contract of ONT itself.\<close>

lemma payments_sound:
  assumes "sound now L" "list_all state_ok sts" "payments auth cap ONG sts L = Some M" "\<not> auth ONT"
  shows "sound now M"
  using assms
proof (induction sts arbitrary: L)
  case (Cons st sts)
  have ft: "st_From st \<in> addrs" "st_To st \<in> addrs" "list_all state_ok sts"
    using Cons.prems(2) by (auto simp: state_ok_def [of st] addrs_def)
  show ?case
  proof (cases "st_Value st = 0")
    case False
    then have "payments auth cap ONG sts (pay ONG (st_From st) (st_To st) (unat (st_Value st)) L) = Some M"
      "unat (st_Value st) \<le> L (Balance ONG (st_From st))" "st_From st \<noteq> ONT"
      using Cons.prems(3,4) by (auto split: if_splits)
    then show ?thesis
      using Cons.IH sound_pay_ong [OF Cons.prems(1) ft(1) _ ft(2)] ft(3) Cons.prems(4) by blast
  qed (use Cons ft in simp)
qed simp

lemma effect_sound:
  assumes "effect auth now pre L M" and L: "sound now L" and n: "\<not> auth ONT"
  shows "sound now M"
  using assms(1)
proof (cases rule: effect.cases)
  case effect_none
  then show ?thesis
    using L by simp
next
  case (effect_ong_transfer sts)
  then show ?thesis
    using payments_sound [OF L, of sts auth] n by simp
next
  case (effect_ont_transfer sts)
  then show ?thesis
    by (intro ont_payments_sound [OF L])
next
  case (effect_approve c "from" n to)
  then have "c = ONT \<or> from \<noteq> ONT"
    using assms(3) by metis
  then show ?thesis
    unfolding effect_approve(1) by (rule sound_allowance [OF L])
next
  case (effect_ong_from sender "from" to v)
  show ?thesis
  proof (cases "from = ONT")
    case True
    then show ?thesis
      using effect_ong_from sound_pay_due [OF L, of sender to v] by (simp add: due_def)
  next
    case False
    then have "sound now (L(Allowance ONG from sender := L (Allowance ONG from sender) - v))"
      by (intro sound_allowance [OF L]) simp
    from sound_pay_ong [OF this _ False, of to v] show ?thesis
      using effect_ong_from by simp
  qed
next
  case (effect_ont_from sender "from" to v)
  have "sound now (L(Allowance ONT from sender := L (Allowance ONT from sender) - v))"
    by (intro sound_allowance [OF L]) simp
  from ont_pay_sound [OF this effect_ont_from(2,3) _ effect_ont_from(6)] show ?thesis
    using effect_ont_from(5) by simp
qed

text \<open>Only the holder, or a spender within the allowance given by the holder, lowers a balance.\<close>

lemma ont_payments_auth:
  assumes "ont_payments auth now pre sts L = Some M" "M (Balance ONT a) < L (Balance ONT a)"
  shows "auth a"
  using assms
proof (induction sts arbitrary: L)
  case (Cons st sts)
  show ?case
  proof (cases "st_Value st = 0 \<or> st_From st = a")
    case False
    then obtain N where N: "ont_pay now pre (st_From st) (st_To st) (unat (st_Value st)) L = Some N"
      "ont_payments auth now pre sts N = Some M"
      using Cons.prems(1) by (auto split: if_splits option.splits)
    have "L (Balance ONT a) \<le> N (Balance ONT a)"
      using False by (auto simp: ont_pay_balances [OF N(1)] pay_def)
    then show ?thesis
      using Cons.IH [OF N(2)] Cons.prems(2) by linarith
  qed (use Cons in \<open>auto split: if_splits option.splits\<close>)
qed simp

lemma ont_payments_ong:
  assumes "ont_payments auth now pre sts L = Some M"
  shows "M (Balance ONG a) = L (Balance ONG a)"
  using assms
proof (induction sts arbitrary: L)
  case (Cons st sts)
  then show ?case
    by (auto simp: ont_pay_other split: if_splits option.splits)
qed simp

lemma pay_spends:
  assumes "pay c from to v L (Balance c' a) < L (Balance c' a)" "v \<le> L (Balance c from)"
  shows "c' = c" "a = from" "pay c from to v L (Balance c' a) = L (Balance c' a) - v"
  using assms by (auto simp: pay_def Let_def split: if_splits)

lemma effect_spends:
  assumes "effect auth now pre L M" "token c" "M (Balance c a) < L (Balance c a)"
  shows "auth a \<or> (\<exists>s. auth s \<and> L (Balance c a) - M (Balance c a) \<le> L (Allowance c a s)
    \<and> M (Allowance c a s) + (L (Balance c a) - M (Balance c a)) = L (Allowance c a s))"
  using assms
proof (cases rule: effect.cases)
  case (effect_ong_transfer sts)
  have "c = ONG"
    using payments_other [OF effect_ong_transfer(1), of "Balance ONT a"] assms(2,3) by (auto simp: token_def)
  then show ?thesis
    using payments_auth [OF effect_ong_transfer(1), of a] assms(3) by blast
next
  case (effect_ont_transfer sts)
  have "c = ONT"
    using ont_payments_ong [OF effect_ont_transfer(1), of a] assms(2,3) by (auto simp: token_def)
  then show ?thesis
    using ont_payments_auth [OF effect_ont_transfer(1), of a] assms(3) by blast
next
  case (effect_ong_from sender "from" to v)
  let ?L = "L(Allowance ONG from sender := L (Allowance ONG from sender) - v)"
  have "pay ONG from to v ?L (Balance c a) < ?L (Balance c a)" "v \<le> ?L (Balance ONG from)"
    using assms(3) effect_ong_from by simp_all
  then have p: "c = ONG" "a = from" "M (Balance c a) = L (Balance c a) - v"
    using pay_spends [of ONG "from" to v ?L c a] by (simp_all add: effect_ong_from(1))
  have "M (Allowance ONG from sender) = L (Allowance ONG from sender) - v"
    unfolding effect_ong_from(1) by (simp add: pay_other)
  then show ?thesis
    using p effect_ong_from(2,6,7) by (intro disjI2 exI [of _ sender]) simp
next
  case (effect_ont_from sender "from" to v)
  let ?L = "L(Allowance ONT from sender := L (Allowance ONT from sender) - v)"
  have x: "\<forall>a. Allowance ONT from sender \<noteq> due a \<and> Allowance ONT from sender \<noteq> Offset ONT a"
    by (simp add: due_def)
  have M: "M (Balance c a) = pay ONT from to v ?L (Balance c a)" "M (Allowance ONT from sender) = L (Allowance ONT from sender) - v"
    using ont_payD [OF effect_ont_from(6), of "Balance c a"] ont_payD [OF effect_ont_from(6) x] by (simp_all add: pay_other)
  have "pay ONT from to v ?L (Balance c a) < ?L (Balance c a)" "v \<le> ?L (Balance ONT from)"
    using assms(3) effect_ont_from(5) by (simp_all add: M(1) [symmetric])
  then have "c = ONT" "a = from" "M (Balance c a) = L (Balance c a) - v"
    using pay_spends [of ONT "from" to v ?L c a] M(1) by simp_all
  then show ?thesis
    using M(2) effect_ont_from(1,4,5) by (intro disjI2 exI [of _ sender]) simp
qed simp_all

section \<open>The contracts implement it\<close>

definition does :: "native_env \<Rightarrow> ('s, 'i) PersistStore \<Rightarrow> ('s, 'h) NativeService \<Rightarrow> (bytes \<Rightarrow> bytes) \<Rightarrow> ('s, 'h) NativeService \<Rightarrow> bool" where
  "does env PS ns f ns' \<longleftrightarrow> (\<exists>g. call_keeps ns ns' \<and> ns_shows PS ns' g \<and> typed g \<and> same_rest f g
     \<and> effect (\<lambda>a. CheckWitness (env_ripemd160 env) a (ContextRef ns)) (elapsed ns) (ns_PreExec ns) (led f) (led g))"

lemma doesI:
  assumes "call_keeps ns ns'" "ns_shows PS ns' g" "typed g" "same_rest f g"
    "effect (\<lambda>a. CheckWitness (env_ripemd160 env) a (ContextRef ns)) (elapsed ns) (ns_PreExec ns) (led f) (led g)"
  shows "does env PS ns f ns'"
  using assms unfolding does_def by blast

lemma does_nothing:
  assumes "ns_shows PS ns' f" "typed f" "call_keeps ns ns'"
  shows "does env PS ns f ns'"
  using assms effect_none by (auto intro: doesI)

text \<open>Reading.\<close>

lemma detail_Ok [simp]: "detail msg m = Ok x \<longleftrightarrow> m = Ok x"
  by (cases m) (simp_all add: detail_def)

lemma read_does:
  assumes "ns_shows PS ns f" "typed f" "GetStorageUInt64 PS k ns = Ok (v, ns')"
  shows "does env PS ns f ns'"
proof -
  obtain db where db: "GetStorageUInt64 PS k ns = bind_res (stored64 (f k)) (\<lambda>v. Ok (v, ns\<lparr>ns_CacheDB := db\<rparr>))"
    "ns_shows PS (ns\<lparr>ns_CacheDB := db\<rparr>) f"
    using GetStorageUInt64_shows [OF assms(1)] by blast
  have "bind_res (stored64 (f k)) (\<lambda>v. Ok (v, ns\<lparr>ns_CacheDB := db\<rparr>)) = Ok (v, ns')"
    using assms(3) db(1) by simp
  then have "ns' = ns\<lparr>ns_CacheDB := db\<rparr>"
    by (auto simp: bind_res_Ok_iff)
  then show ?thesis
    using db(2) assms(2) by (simp add: does_nothing only_writes_keeps)
qed

lemma GetBalanceValue_does:
  assumes "ns_shows PS ns f" "typed f" "GetBalanceValue PS flag ns = Ok (r, ns')"
  shows "does env PS ns f ns'"
  using assms(3) read_does [OF assms(1,2)] by (fastforce simp: GetBalanceValue_def bind_res_Ok_iff)

lemma TotalSupply_does:
  assumes "ns_shows PS ns f" "typed f" "OntTotalSupply PS ns = Ok (r, ns') \<or> OngTotalSupply PS ns = Ok (r, ns')"
  shows "does env PS ns f ns'"
  using assms(3) read_does [OF assms(1,2)] by (fastforce simp: OntTotalSupply_def OngTotalSupply_def bind_res_Ok_iff)

text \<open>A second initialisation fails.\<close>

lemma Init_once:
  assumes "ns_shows PS ns f" "typed f" "current_contract ns = Ok c" "token c" "0 < led f (Supply c)"
  shows "OntInit env PS ns = Err ''Init ont has been completed!''" "OngInit env PS ns = Err ''Init ong has been completed!''"
proof -
  obtain v where "stored64 (f (GenTotalSupplyKey c)) = Ok v" "0 < v"
    using typed_ok64 [OF assms(2), of "Supply c"] ok64D [of f "GenTotalSupplyKey c"] assms(4,5) by (auto simp: word_less_nat_alt)
  moreover from this obtain db where "GetStorageUInt64 PS (GenTotalSupplyKey c) ns = Ok (v, ns\<lparr>ns_CacheDB := db\<rparr>)"
    using GetStorageUInt64_shows [OF assms(1), of "GenTotalSupplyKey c"] by auto
  ultimately show "OntInit env PS ns = Err ''Init ont has been completed!''" "OngInit env PS ns = Err ''Init ong has been completed!''"
    using assms(3) by (simp_all add: OntInit_def OngInit_def)
qed

text \<open>The handlers of ONG.\<close>

lemma token_contract [simp]: "token ONT" "token ONG"
  by (simp_all add: token_def)

lemma OngTransfer_does:
  assumes sh: "ns_shows PS ns f" "typed f" and c: "current_contract ns = Ok ONG" and L: "sound now (led f)"
    and r: "OngTransfer env PS ns = Ok (r, ns')"
  shows "does env PS ns f ns'"
proof -
  obtain sts s where sts: "Transfers_Deserialization (NewZeroCopySource (ns_Input ns)) = Ok (sts, s)"
    using r by (auto simp: OngTransfer_def bind_res_Ok_iff)
  obtain g where g: "only_writes ns ns'" "ns_shows PS ns' g" "typed g" "same_rest f g"
    "payments (\<lambda>a. CheckWitness (env_ripemd160 env) a (ContextRef ns)) (unat ONG_TOTAL_SUPPLY) ONG sts (led f) = Some (led g)"
    using OngTransfer_shows [OF sh c token_contract(2) sound_small(2) [OF L] sts, of env] r
    by (auto simp del: unat_ONG_TOTAL_SUPPLY split: option.splits)
  show ?thesis
    using effect_ong_transfer [OF g(5) Transfers_Deserialization_ok [OF sts]] g(1-4) by (blast intro: doesI only_writes_keeps)
qed

lemma OngApprove_does:
  assumes sh: "ns_shows PS ns f" "typed f" and c: "current_contract ns = Ok ONG" and r: "OngApprove env ns = Ok (r, ns')"
  shows "does env PS ns f ns'"
proof -
  obtain st s where st: "State_Deserialization (NewZeroCopySource (ns_Input ns)) = Ok (st, s)"
    using r by (auto simp: OngApprove_def bind_res_Ok_iff)
  obtain g where g: "only_writes ns ns'" "ns_shows PS ns' g" "typed g" "same_rest f g"
    "led g = (led f)(Allowance ONG (st_From st) (st_To st) := unat (st_Value st))" "unat (st_Value st) \<le> unat ONG_TOTAL_SUPPLY"
    "CheckWitness (env_ripemd160 env) (st_From st) (ContextRef ns)"
    using OngApprove_shows [OF sh c token_contract(2) st, of env] r
    by (auto simp del: unat_ONG_TOTAL_SUPPLY split: if_splits)
  show ?thesis
    by (rule doesI [OF only_writes_keeps [OF g(1)] g(2-4)], unfold g(5), rule effect_approve) (use g(6,7) in simp_all)
qed

lemma OngTransferFrom_does:
  assumes sh: "ns_shows PS ns f" "typed f" and c: "current_contract ns = Ok ONG" and L: "sound now (led f)"
    and r: "OngTransferFrom env PS ns = Ok (r, ns')"
  shows "does env PS ns f ns'"
proof -
  obtain tf s where tf: "TransferFrom_Deserialization (NewZeroCopySource (ns_Input ns)) = Ok (tf, s)"
    using r by (auto simp: OngTransferFrom_def bind_res_Ok_iff)
  let ?x = "Allowance ONG (tf_From tf) (tf_Sender tf)" and ?v = "unat (tf_Value tf)"
  have len: "tf_Sender tf \<in> addrs" "tf_From tf \<in> addrs" "tf_To tf \<in> addrs"
    using TransferFrom_Deserialization_ok [OF tf] by (simp_all add: addrs_def)
  note T = OngTransferFrom_shows [OF sh c token_contract(2) sound_small(2) [OF L] tf, of env]
  show ?thesis
  proof (cases "?v = 0")
    case True
    then show ?thesis
      using T r sh by (intro does_nothing) simp_all
  next
    case False
    then obtain g where g: "only_writes ns ns'" "ns_shows PS ns' g" "typed g" "same_rest f g"
      "led g = pay ONG (tf_From tf) (tf_To tf) ?v ((led f)(?x := led f ?x - ?v))" "?v \<le> led f ?x"
      "?v \<le> led f (Balance ONG (tf_From tf))" "CheckWitness (env_ripemd160 env) (tf_Sender tf) (ContextRef ns)"
      using T r by (auto simp del: unat_ONG_TOTAL_SUPPLY split: if_splits)
    show ?thesis
      by (rule doesI [OF only_writes_keeps [OF g(1)] g(2-4)], unfold g(5), rule effect_ong_from) (use g(6-8) len in simp_all)
  qed
qed

text \<open>The handlers of ONT.\<close>

lemma OntTransfer_does:
  fixes env n
  assumes sh: "ns_shows PS ns f" "typed f" and c: "current_contract ns = Ok ONT" and L: "sound (elapsed ns) (led f)"
    and r: "OntTransfer env (NativeCall token_contracts (native_run env PS (Suc n))) PS ns = Ok (r, ns')"
  shows "does env PS ns f ns'"
proof -
  obtain sts s where sts: "Transfers_Deserialization (NewZeroCopySource (ns_Input ns)) = Ok (sts, s)"
    using r by (auto simp: OntTransfer_def bind_res_Ok_iff)
  obtain g where g: "call_keeps ns ns'" "ns_shows PS ns' g" "typed g" "same_rest f g"
    "ont_payments (\<lambda>a. CheckWitness (env_ripemd160 env) a (ContextRef ns)) (elapsed ns) (ns_PreExec ns) sts (led f) = Some (led g)"
    using OntTransfer_shows [OF sh c L sts, of env n] r by (auto split: option.splits)
  show ?thesis
    using effect_ont_transfer [OF g(5) Transfers_Deserialization_ok [OF sts]] g(1-4) by (blast intro: doesI)
qed

lemma OntApprove_does:
  assumes sh: "ns_shows PS ns f" "typed f" and c: "current_contract ns = Ok ONT" and r: "OntApprove env ns = Ok (r, ns')"
  shows "does env PS ns f ns'"
proof -
  obtain st s where st: "State_Deserialization (NewZeroCopySource (ns_Input ns)) = Ok (st, s)"
    using r by (auto simp: OntApprove_def bind_res_Ok_iff)
  obtain g where g: "only_writes ns ns'" "ns_shows PS ns' g" "typed g" "same_rest f g"
    "led g = (led f)(Allowance ONT (st_From st) (st_To st) := unat (st_Value st))" "unat (st_Value st) \<le> unat ONG_TOTAL_SUPPLY"
    "CheckWitness (env_ripemd160 env) (st_From st) (ContextRef ns)"
    using OntApprove_shows [OF sh c token_contract(1) st, of env] r by (auto split: if_splits)
  show ?thesis
    by (rule doesI [OF only_writes_keeps [OF g(1)] g(2-4)], unfold g(5), rule effect_approve) (use g(6,7) in simp_all)
qed

lemma OntTransferFrom_does:
  fixes env n
  assumes sh: "ns_shows PS ns f" "typed f" and c: "current_contract ns = Ok ONT" and L: "sound (elapsed ns) (led f)"
    and r: "OntTransferFrom env (NativeCall token_contracts (native_run env PS (Suc n))) PS ns = Ok (r, ns')"
  shows "does env PS ns f ns'"
proof -
  obtain tf s where tf: "TransferFrom_Deserialization (NewZeroCopySource (ns_Input ns)) = Ok (tf, s)"
    using r by (auto simp: OntTransferFrom_def bind_res_Ok_iff)
  let ?x = "Allowance ONT (tf_From tf) (tf_Sender tf)" and ?v = "unat (tf_Value tf)"
  have len: "tf_From tf \<in> addrs" "tf_To tf \<in> addrs"
    using TransferFrom_Deserialization_ok [OF tf] by (simp_all add: addrs_def)
  note T = OntTransferFrom_shows [OF sh c L tf, of env n]
  show ?thesis
  proof (cases "?v = 0")
    case True
    then show ?thesis
      using T r sh by (intro does_nothing) simp_all
  next
    case False
    then obtain g where g: "call_keeps ns ns'" "ns_shows PS ns' g" "typed g" "same_rest f g"
      "ont_pay (elapsed ns) (ns_PreExec ns) (tf_From tf) (tf_To tf) ?v ((led f)(?x := led f ?x - ?v)) = Some (led g)"
      "?v \<le> led f ?x" "?v \<le> led f (Balance ONT (tf_From tf))"
      "CheckWitness (env_ripemd160 env) (tf_Sender tf) (ContextRef ns)"
      using T r by (auto split: if_splits)
    show ?thesis
      by (rule doesI [OF g(1-4)], rule effect_ont_from [OF _ len _ _ g(5)]) (use g(6-8) in simp_all)
  qed
qed

text \<open>Every handler a contract registers.\<close>

definition ont_handlers :: "Handler set" where
  "ont_handlers = {H_OntInit, H_OntTransfer, H_OntApprove, H_OntTransferFrom, H_OntName, H_OntSymbol, H_OntDecimals,
     H_OntTotalSupply, H_OntBalanceOf, H_OntAllowance}"

definition ong_handlers :: "Handler set" where
  "ong_handlers = {H_OngInit, H_OngTransfer, H_OngApprove, H_OngTransferFrom, H_OngName, H_OngSymbol, H_OngDecimals,
     H_OngTotalSupply, H_OngBalanceOf, H_OngAllowance}"

definition method_of :: "Address \<Rightarrow> bytes \<Rightarrow> Handler option" where
  "method_of c = (if c = ONT then
     map_of [(INIT_NAME, H_OntInit), (TRANSFER_NAME, H_OntTransfer), (APPROVE_NAME, H_OntApprove),
       (TRANSFERFROM_NAME, H_OntTransferFrom), (NAME_NAME, H_OntName), (SYMBOL_NAME, H_OntSymbol),
       (DECIMALS_NAME, H_OntDecimals), (TOTALSUPPLY_NAME, H_OntTotalSupply), (BALANCEOF_NAME, H_OntBalanceOf),
       (ALLOWANCE_NAME, H_OntAllowance)]
   else
     map_of [(INIT_NAME, H_OngInit), (TRANSFER_NAME, H_OngTransfer), (APPROVE_NAME, H_OngApprove),
       (TRANSFERFROM_NAME, H_OngTransferFrom), (NAME_NAME, H_OngName), (SYMBOL_NAME, H_OngSymbol),
       (DECIMALS_NAME, H_OngDecimals), (TOTALSUPPLY_NAME, H_OngTotalSupply), (BALANCEOF_NAME, H_OngBalanceOf),
       (ALLOWANCE_NAME, H_OngAllowance)])"

lemma registered:
  assumes "ServiceMap ns = Map.empty"
  shows "ServiceMap (RegisterOntContract ns) = method_of ONT" "ServiceMap (RegisterOngContract ns) = method_of ONG"
  using assms
  by (auto simp: RegisterOntContract_def RegisterOngContract_def Register_def method_of_def method_names)

lemma method_handlers:
  "method_of ONT m = Some h \<Longrightarrow> h \<in> ont_handlers" "method_of ONG m = Some h \<Longrightarrow> h \<in> ong_handlers"
  by (auto simp: method_of_def ont_handlers_def ong_handlers_def split: if_splits)

lemma ont_run_does:
  assumes sh: "ns_shows PS ns f" "typed f" and c: "current_contract ns = Ok ONT" and L: "sound (elapsed ns) (led f)"
    and h: "h \<in> ont_handlers" and r: "native_run env PS (Suc (Suc n)) h ns = Ok (r, ns')"
  shows "does env PS ns f ns'"
proof -
  have "0 < led f (Supply ONT)"
    using L by (simp add: sound_def)
  note init = Init_once(1) [OF sh c token_contract(1) this, of env]
  show ?thesis
    using h r sh init OntTransfer_does [OF sh c L, of env n r ns'] OntApprove_does [OF sh c, of env r ns']
      OntTransferFrom_does [OF sh c L, of env n r ns'] TotalSupply_does [OF sh, of r ns' env] GetBalanceValue_does [OF sh, of _ r ns' env]
    by (auto simp: ont_handlers_def OntName_def OntSymbol_def OntDecimals_def OntBalanceOf_def OntAllowance_def does_nothing
        simp del: native_run.simps(1) split: if_splits)
qed

lemma ong_run_does:
  assumes sh: "ns_shows PS ns f" "typed f" and c: "current_contract ns = Ok ONG" and L: "sound (elapsed ns) (led f)"
    and h: "h \<in> ong_handlers" and r: "native_run env PS (Suc n) h ns = Ok (r, ns')"
  shows "does env PS ns f ns'"
proof -
  have "0 < led f (Supply ONG)"
    using L by (simp add: sound_def)
  note init = Init_once(2) [OF sh c token_contract(2) this, of env]
  show ?thesis
    using h r sh init OngTransfer_does [OF sh c L, of env r ns'] OngApprove_does [OF sh c, of env r ns']
      OngTransferFrom_does [OF sh c L, of env r ns'] TotalSupply_does [OF sh, of r ns' env] GetBalanceValue_does [OF sh, of _ r ns' env]
    by (auto simp: ong_handlers_def OngName_def OngSymbol_def OngDecimals_def OngBalanceOf_def OngAllowance_def does_nothing
        split: if_splits)
qed

text \<open>A call runs a handler of the contract in a context of its own.\<close>

definition callee :: "Address \<Rightarrow> SmartContract \<Rightarrow> SmartContract" where
  "callee c sc = PushContext \<lparr>ContractAddress = c, ctx_Code = []\<rparr> sc"

definition entered :: "Address \<Rightarrow> bytes \<Rightarrow> bytes \<Rightarrow> ('s, Handler) NativeService \<Rightarrow> ('s, Handler) NativeService" where
  "entered c m args ns = ns\<lparr>InvokeParam := \<lparr>cip_Version = 0, cip_Address = c, cip_Method = m, cip_Args = args\<rparr>,
     ServiceMap := method_of c, ns_Input := args, ContextRef := callee c (ContextRef ns), ns_Notifications := [], ns_CrossHashes := []\<rparr>"

definition returned :: "('s, 'h) NativeService \<Rightarrow> ('s, 'h) NativeService \<Rightarrow> ('s, 'h) NativeService" where
  "returned ns n2 = n2\<lparr>ContextRef := PutCrossStateHashes (ns_CrossHashes n2) (PushNotifications (ns_Notifications n2) (PopContext (ContextRef n2))),
     ns_Notifications := ns_Notifications ns, ns_Input := ns_Input ns, ns_CrossHashes := ns_CrossHashes ns\<rparr>"

lemma native_call_eq:
  assumes "token c" "ServiceMap ns = Map.empty"
  shows "NativeCall token_contracts run c m args ns =
    (case method_of c m of None \<Rightarrow> Err ''Native contract doesn't support this function.''
     | Some h \<Rightarrow> bind_res (detail ''[Invoke] Native serivce function execute error!'' (run h (entered c m args ns)))
         (\<lambda>(r, n2). Ok (r, returned ns n2)))"
proof -
  define p where "p = \<lparr>cip_Version = 0, cip_Address = c, cip_Method = m, cip_Args = args\<rparr>"
  have p: "cip_Address p = c" "cip_Method p = m" "cip_Args p = args"
    by (simp_all add: p_def)
  have reg: "\<exists>services. token_contracts c = Some services \<and> services (ns\<lparr>InvokeParam := p\<rparr>) = ns\<lparr>InvokeParam := p, ServiceMap := method_of c\<rparr>"
    using assms Register_keeps [of "ns\<lparr>InvokeParam := p\<rparr>"] registered [of "ns\<lparr>InvokeParam := p\<rparr>"]
    by (auto simp: token_def token_contracts_def InitOnt_def InitOng_def)
  then show ?thesis
    unfolding NativeCall_def p_def [symmetric] Invoke_def Let_def entered_def returned_def callee_def
    by (auto simp: p split: option.split)
qed

lemma entered_shows:
  assumes "ns_shows PS ns f"
  shows "ns_shows PS (entered c m args ns) f" "current_contract (entered c m args ns) = Ok c"
    "elapsed (entered c m args ns) = elapsed ns" "ns_PreExec (entered c m args ns) = ns_PreExec ns"
    "ContextRef (entered c m args ns) = callee c (ContextRef ns)" "ns_Input (entered c m args ns) = args"
  using assms by (simp_all add: entered_def ns_shows_def current_contract_def callee_def elapsed_def)

lemma returned_keeps:
  assumes "call_keeps (entered c m args ns) n2" "Contexts (ContextRef ns) \<noteq> []"
  shows "call_keeps ns (returned ns n2)"
  using assms by (auto simp: call_keeps_def returned_def entered_def callee_def PushContext_def PopContext_def
      PutCrossStateHashes_def PushNotifications_def)

lemma returned_shows: "ns_shows PS (returned ns n2) g \<longleftrightarrow> ns_shows PS n2 g"
  by (simp add: returned_def ns_shows_def)

lemma token_call_does:
  fixes ns :: "('s, Handler) NativeService"
  assumes sh: "ns_shows PS ns f" "typed f" and L: "sound (elapsed ns) (led f)" and new: "ServiceMap ns = Map.empty"
    and ctx: "Contexts (ContextRef ns) \<noteq> []" and c: "token c" and r: "token_call env PS c m args ns = Ok (r, ns')"
  shows "\<exists>g. call_keeps ns ns' \<and> ns_shows PS ns' g \<and> typed g \<and> same_rest f g
    \<and> effect (\<lambda>a. CheckWitness (env_ripemd160 env) a (callee c (ContextRef ns))) (elapsed ns) (ns_PreExec ns) (led f) (led g)"
proof -
  let ?n = "entered c m args ns"
  obtain h n2 where h: "method_of c m = Some h" "native_run env PS 2 h ?n = Ok (r, n2)" "ns' = returned ns n2"
    using r by (auto simp: token_call_def native_call_eq [OF c new] bind_res_Ok_iff split: option.splits)
  note n = entered_shows [OF sh(1), of c m args]
  have "does env PS ?n f n2"
    using ont_run_does [OF n(1) sh(2), of h env 0 r n2] ong_run_does [OF n(1) sh(2), of h env 1 r n2] n(2,3) L c h(1,2)
      method_handlers [of m h] by (auto simp: token_def numeral_2_eq_2 simp del: native_run.simps)
  then show ?thesis
    using h(3) n(3-5) returned_keeps [OF _ ctx] by (auto simp: does_def returned_shows)
qed

section \<open>Reachable states\<close>

definition storage :: "('s, 'i) PersistStore \<Rightarrow> 's CacheDB \<Rightarrow> bytes \<Rightarrow> bytes" where
  "storage PS db k = c_view PS db (ST_STORAGE # k)"

abbreviation ledger :: "('s, 'i) PersistStore \<Rightarrow> 's CacheDB \<Rightarrow> slot \<Rightarrow> nat" where
  "ledger PS db \<equiv> led (storage PS db)"

text \<open>
  A state is reached by the two initialisations on an empty store, by a call of a token through a new native
  service at a time that does not go back, with no one acting for the contract of ONT, and by the commit and
  reset of the cache between transactions.
\<close>

inductive reachable :: "native_env \<Rightarrow> ('s, 'i) PersistStore \<Rightarrow> nat \<Rightarrow> 's CacheDB \<Rightarrow> bool" for env PS where
  genesis: "c_ok PS db \<Longrightarrow> \<forall>x. slot_ok x \<longrightarrow> storage PS db (slot_key x) = []
    \<Longrightarrow> NewNativeService db sc = Ok ns \<Longrightarrow> token_call env PS ONT INIT_NAME args ns = Ok (BYTE_TRUE, ns1)
    \<Longrightarrow> NewNativeService (ns_CacheDB ns1) sc' = Ok ns2 \<Longrightarrow> token_call env PS ONG INIT_NAME args' ns2 = Ok (r, ns3)
    \<Longrightarrow> reachable env PS 0 (ns_CacheDB ns3)"
| call: "reachable env PS now db \<Longrightarrow> NewNativeService db sc = Ok ns \<Longrightarrow> now \<le> elapsed ns \<Longrightarrow> Contexts sc \<noteq> [] \<Longrightarrow> token c
    \<Longrightarrow> \<not> CheckWitness (env_ripemd160 env) ONT (callee c sc) \<Longrightarrow> token_call env PS c m args ns = Ok (r, ns')
    \<Longrightarrow> reachable env PS (elapsed ns) (ns_CacheDB ns')"
| commit: "reachable env PS now db \<Longrightarrow> c_Commit db = Ok db' \<Longrightarrow> reachable env PS now (c_Reset G db')"

lemma NewNativeService_Ok:
  fixes ns :: "('s, Handler) NativeService"
  assumes "NewNativeService db sc = Ok ns"
  shows "ns_CacheDB ns = db" "ServiceMap ns = Map.empty" "ContextRef ns = sc" "c_ok PS db \<Longrightarrow> ns_shows PS ns (storage PS db)"
  using assms by (auto simp: NewNativeService_def ns_shows_def storage_def fun_eq_iff split: if_splits)

lemma shows_storage: "ns_shows PS ns f \<longleftrightarrow> c_ok PS (ns_CacheDB ns) \<and> f = storage PS (ns_CacheDB ns)"
  by (auto simp: ns_shows_def storage_def fun_eq_iff)

lemma blank_ledger:
  assumes "\<forall>x. slot_ok x \<longrightarrow> f (slot_key x) = []"
  shows "typed f" "led f x = 0"
  using assms by (auto simp: typed_def led_def ok64_def ok32_def num64_def num32_def stored64_def stored32_def)

lemma init_methods: "method_of ONT INIT_NAME = Some H_OntInit" "method_of ONG INIT_NAME = Some H_OngInit"
  by (simp_all add: method_of_def)

definition safe :: "('s, 'i) PersistStore \<Rightarrow> nat \<Rightarrow> 's CacheDB \<Rightarrow> bool" where
  "safe PS now db \<longleftrightarrow> c_ok PS db \<and> typed (storage PS db) \<and> sound now (ledger PS db)"

lemma genesis_safe:
  fixes ns ns1 ns2 ns3 :: "('s, Handler) NativeService"
  assumes perm: "\<And>d. mset (map_range env d) = mset d"
    and db: "c_ok PS db" "\<forall>x. slot_ok x \<longrightarrow> storage PS db (slot_key x) = []"
    and ont: "NewNativeService db sc = Ok ns" "token_call env PS ONT INIT_NAME args ns = Ok (BYTE_TRUE, ns1)"
    and ong: "NewNativeService (ns_CacheDB ns1) sc' = Ok ns2" "token_call env PS ONG INIT_NAME args' ns2 = Ok (r, ns3)"
  shows "safe PS now (ns_CacheDB ns3)"
proof -
  let ?f = "storage PS db" and ?n = "entered ONT INIT_NAME args ns" and ?m = "entered ONG INIT_NAME args' ns2"
  note blank = blank_ledger [OF db(2)] and new = NewNativeService_Ok [OF ont(1)] NewNativeService_Ok [OF ong(1)]
  note n = entered_shows [OF new(4) [OF db(1)], of ONT INIT_NAME args]
  obtain n1 where n1: "OntInit env PS ?n = Ok (BYTE_TRUE, n1)" "ns1 = returned ns n1"
    using ont(2) by (auto simp: token_call_def native_call_eq [OF token_contract(1) new(2)] init_methods numeral_2_eq_2 bind_res_Ok_iff)
  obtain d g where g: "dist_ok d" "(\<Sum>b\<in>addrs. held d b) = unat ONT_TOTAL_SUPPLY" "ns_shows PS n1 g" "typed g"
    "led g = (allot ONT d (led ?f))(Supply ONT := unat ONT_TOTAL_SUPPLY)"
    using OntInit_shows [OF n(1) blank(1) n(2) token_contract(1) perm n1(1)] by blast
  have g': "ns_shows PS ns2 g" and zero: "led g (Supply ONG) = 0"
    using g(3,5) n1(2) new(5) blank(2) by (auto simp: shows_storage returned_def allot_def)
  note m = entered_shows [OF g', of ONG INIT_NAME args']
  obtain m1 h where h: "OngInit env PS ?m = Ok (BYTE_TRUE, m1)" "ns_shows PS m1 h" "typed h"
    "led h = (led g)(Supply ONG := unat ONG_TOTAL_SUPPLY, Balance ONG ONT := unat ONG_TOTAL_SUPPLY)"
    using OngInit_shows [OF m(1) g(4) m(2) token_contract(2) zero, of env] by blast
  have "ns3 = returned ns2 m1"
    using ong(2) h(1) by (auto simp: token_call_def native_call_eq [OF token_contract(2) new(6)] init_methods numeral_2_eq_2 detail_def)
  then have "ns_shows PS ns3 h"
    using h(2) by (simp add: returned_shows)
  then show ?thesis
    using h(3,4) g(5) genesis_sound [OF g(1,2) blank(2), of now] by (simp add: safe_def shows_storage)
qed

lemma call_safe:
  fixes ns ns' :: "('s, Handler) NativeService"
  assumes s: "safe PS now db" and new: "NewNativeService db sc = Ok ns" and t: "now \<le> elapsed ns" and ctx: "Contexts sc \<noteq> []"
    and c: "token c" and auth: "\<not> CheckWitness (env_ripemd160 env) ONT (callee c sc)"
    and r: "token_call env PS c m args ns = Ok (r, ns')"
  shows "safe PS (elapsed ns) (ns_CacheDB ns')"
proof -
  note n = NewNativeService_Ok [OF new]
  have L: "sound (elapsed ns) (ledger PS db)" and sh: "ns_shows PS ns (storage PS db)" "typed (storage PS db)"
    using s sound_later t n(4) by (auto simp: safe_def)
  obtain g where g: "ns_shows PS ns' g" "typed g"
    "effect (\<lambda>a. CheckWitness (env_ripemd160 env) a (callee c sc)) (elapsed ns) (ns_PreExec ns) (ledger PS db) (led g)"
    using token_call_does [OF sh L n(2) _ c r] ctx n(3) by auto
  then show ?thesis
    using effect_sound [OF g(3) L] auth by (simp add: safe_def shows_storage)
qed

lemma commit_safe:
  assumes "safe PS now db" "c_Commit db = Ok db'"
  shows "safe PS now (c_Reset G db')"
proof -
  have "c_ok PS db'" "ov_view PS (c_backend db') = c_view PS db"
    using c_Commit_view [of PS db] assms by (auto simp: safe_def)
  then have "c_ok PS (c_Reset G db')" "storage PS (c_Reset G db') = storage PS db"
    using c_Reset_view [of PS db' G] by (auto simp: storage_def fun_eq_iff)
  then show ?thesis
    using assms(1) by (simp add: safe_def)
qed

lemma reachable_safe:
  assumes "reachable env PS now db" and perm: "\<And>d. mset (map_range env d) = mset d"
  shows "safe PS now db"
  using assms(1)
proof (induction rule: reachable.induct)
  case (genesis db sc ns args ns1 sc' ns2 args' r ns3)
  then show ?case
    by (rule genesis_safe [OF perm])
next
  case (call now db sc ns c m args r ns')
  then show ?case
    by (intro call_safe) auto
next
  case (commit now db db' G)
  then show ?case
    by (intro commit_safe)
qed

end
