(* ===== verification/TokenSafety.thy ===== *)
theory TokenSafety
  imports TokenSystem
begin

text \<open>
  What the tokens promise in every reachable state: both supplies stay out in full and what is owed to the
  holders of ONT is covered; only its owner, or a spender within an allowance, lowers a balance; every read and
  every call returns; a transfer that is covered succeeds, and so does the withdrawal of released ONG.
\<close>

section \<open>Calls return\<close>

lemma decodes_states: "decodes State_Deserialization" "decodes TransferFrom_Deserialization" "decodes Transfers_Deserialization"
proof -
  show st: "decodes State_Deserialization"
    unfolding State_Deserialization_def [abs_def] by (intro decodes_bind decodes_args decodes_return)
  show "decodes TransferFrom_Deserialization"
    unfolding TransferFrom_Deserialization_def [abs_def] by (intro decodes_bind decodes_args decodes_return)
  have "decodes (Transfers_loop n acc)" for n acc
  proof (induction n arbitrary: acc)
    case 0
    then show ?case
      using decodes_return by (simp add: Transfers_loop.simps(1) [abs_def])
  next
    case (Suc n)
    then show ?case
      unfolding Transfers_loop.simps(2) [abs_def] by (intro decodes_bind st)
  qed
  then show "decodes Transfers_Deserialization"
    unfolding Transfers_Deserialization_def [abs_def] by (intro decodes_bind decodes_args)
qed

text \<open>The handlers on arbitrary arguments.\<close>

lemma input_returns:
  assumes "decodes d" "length (ns_Input ns) \<le> maxInt" "\<And>x s. d (NewZeroCopySource (ns_Input ns)) = Ok (x, s) \<Longrightarrow> wf_src s \<Longrightarrow> returns (f (x, s))"
  shows "returns (bind_res (detail msg (d (NewZeroCopySource (ns_Input ns)))) f)"
proof -
  have "wf_src (NewZeroCopySource (ns_Input ns))"
    using assms(2) by simp
  from decodesD [OF assms(1) this] assms(3) show ?thesis
    by (intro returns_bind) auto
qed

lemma returns_iff: "returns m \<longleftrightarrow> (\<exists>x. m = Ok x) \<or> (\<exists>e. m = Err e)"
  by (cases m) (simp_all add: returns_def)

lemma ong_handlers_return:
  assumes sh: "ns_shows PS ns f" "typed f" and c: "current_contract ns = Ok c" "token c" and small: "issued c (led f) < 2 ^ 64"
    and len: "length (ns_Input ns) \<le> maxInt"
  shows "returns (OngTransfer env PS ns)" "returns (OngApprove env ns)" "returns (OngTransferFrom env PS ns)"
proof -
  note d = decodes_states and s = wf_NewZeroCopySource [OF len]
  show "returns (OngTransfer env PS ns)"
  proof (cases "Transfers_Deserialization (NewZeroCopySource (ns_Input ns))")
    case (Ok x)
    then show ?thesis
      using OngTransfer_shows [OF sh c small, of "fst x" "snd x" env] by (auto simp: returns_iff split: option.splits)
  qed (use decodesD(1) [OF d(3) s] in \<open>auto simp: OngTransfer_def detail_def\<close>)
  show "returns (OngApprove env ns)"
  proof (cases "State_Deserialization (NewZeroCopySource (ns_Input ns))")
    case (Ok x)
    then show ?thesis
      using OngApprove_shows [OF sh c, of "fst x" "snd x" env] by (auto simp: returns_iff split: if_splits)
  qed (use decodesD(1) [OF d(1) s] in \<open>auto simp: OngApprove_def detail_def\<close>)
  show "returns (OngTransferFrom env PS ns)"
  proof (cases "TransferFrom_Deserialization (NewZeroCopySource (ns_Input ns))")
    case (Ok x)
    then show ?thesis
      using OngTransferFrom_shows [OF sh c small, of "fst x" "snd x" env] by (auto simp: returns_iff split: if_splits)
  qed (use decodesD(1) [OF d(2) s] in \<open>auto simp: OngTransferFrom_def detail_def\<close>)
qed

lemma ont_handlers_return:
  fixes env n
  assumes sh: "ns_shows PS ns f" "typed f" and c: "current_contract ns = Ok ONT" and L: "sound (elapsed ns) (led f)"
    and len: "length (ns_Input ns) \<le> maxInt"
  defines "call \<equiv> NativeCall token_contracts (native_run env PS (Suc n))"
  shows "returns (OntTransfer env call PS ns)" "returns (OntApprove env ns)" "returns (OntTransferFrom env call PS ns)"
proof -
  note d = decodes_states and s = wf_NewZeroCopySource [OF len]
  show "returns (OntTransfer env call PS ns)"
  proof (cases "Transfers_Deserialization (NewZeroCopySource (ns_Input ns))")
    case (Ok x)
    then show ?thesis
      using OntTransfer_shows [OF sh c L, of "fst x" "snd x" env n] by (auto simp: call_def returns_iff split: option.splits)
  qed (use decodesD(1) [OF d(3) s] in \<open>auto simp: OntTransfer_def detail_def\<close>)
  show "returns (OntApprove env ns)"
  proof (cases "State_Deserialization (NewZeroCopySource (ns_Input ns))")
    case (Ok x)
    then show ?thesis
      using OntApprove_shows [OF sh c token_contract(1), of "fst x" "snd x" env] by (auto simp: returns_iff split: if_splits)
  qed (use decodesD(1) [OF d(1) s] in \<open>auto simp: OntApprove_def detail_def\<close>)
  show "returns (OntTransferFrom env call PS ns)"
  proof (cases "TransferFrom_Deserialization (NewZeroCopySource (ns_Input ns))")
    case (Ok x)
    then show ?thesis
      using OntTransferFrom_shows [OF sh c L, of "fst x" "snd x" env n] by (auto simp: call_def returns_iff split: if_splits)
  qed (use decodesD(1) [OF d(2) s] in \<open>auto simp: OntTransferFrom_def detail_def\<close>)
qed

lemma read_returns:
  assumes "ns_shows PS ns f" "typed f" "slot_ok x" "\<not> is_offset x"
  shows "returns (GetStorageUInt64 PS (slot_key x) ns)"
  using read_slot_shows [OF assms] by auto

lemma query_handlers_return:
  assumes sh: "ns_shows PS ns f" "typed f" and c: "current_contract ns = Ok c" "token c" and len: "length (ns_Input ns) \<le> maxInt"
  shows "flag = APPROVE_FLAG \<or> flag = TRANSFER_FLAG \<Longrightarrow> returns (GetBalanceValue PS flag ns)" "returns (OntTotalSupply PS ns)" "returns (OngTotalSupply PS ns)"
proof -
  have sup: "returns (GetStorageUInt64 PS (GenTotalSupplyKey c) ns)"
    using read_returns [OF sh, of "Supply c"] c(2) by simp
  show "returns (OntTotalSupply PS ns)" "returns (OngTotalSupply PS ns)"
    using sup by (auto simp: OntTotalSupply_def OngTotalSupply_def c(1) intro!: returns_bind)
  have app: "returns (GetStorageUInt64 PS (GenApproveKey c a b) ns)" and bal: "returns (GetStorageUInt64 PS (GenBalanceKey c a) ns)"
    if "length a = 20" "length b = 20" for a b
    using read_returns [OF sh, of "Allowance c a b"] read_returns [OF sh, of "Balance c a"] c(2) that by simp_all
  show "returns (GetBalanceValue PS flag ns)" if flag: "flag = APPROVE_FLAG \<or> flag = TRANSFER_FLAG"
    unfolding GetBalanceValue_def
  proof (rule input_returns [OF decodes_args(2) len], goal_cases)
    case (1 a s)
    from flag show ?case
    proof
      assume "flag = APPROVE_FLAG"
      then show ?thesis
        using decodesD(1) [OF decodes_args(2) 1(2)] app DecodeAddress_20 [OF 1(1)] DecodeAddress_20 [of s]
        by (auto simp: c(1) bind_res_Ok_iff intro!: returns_bind)
    next
      assume "flag = TRANSFER_FLAG"
      then show ?thesis
        using bal [OF DecodeAddress_20 [OF 1(1)] DecodeAddress_20 [OF 1(1)]]
        by (auto simp: c(1) APPROVE_FLAG_def TRANSFER_FLAG_def intro!: returns_bind)
    qed
  qed
qed

lemma token_call_returns:
  fixes ns :: "('s, Handler) NativeService"
  assumes sh: "ns_shows PS ns f" "typed f" and L: "sound (elapsed ns) (led f)" and new: "ServiceMap ns = Map.empty"
    and c: "token c" and len: "length args \<le> maxInt"
  shows "returns (token_call env PS c m args ns)"
proof (cases "method_of c m")
  case (Some h)
  let ?n = "entered c m args ns"
  note n = entered_shows [OF sh(1), of c m args]
  have L': "sound (elapsed ?n) (led f)" "0 < led f (Supply c)" "issued c (led f) < 2 ^ 64" and len': "length (ns_Input ?n) \<le> maxInt"
    using L n(3,6) len c sound_small [OF L] by (auto simp: sound_def token_def)
  note q = query_handlers_return [OF n(1) sh(2) n(2) c len'] and i = Init_once [OF n(1) sh(2) n(2) c L'(2), of env]
    and g = ong_handlers_return [OF n(1) sh(2) n(2) c L'(3) len', of env]
  have "returns (native_run env PS 2 h ?n)"
  proof (cases "c = ONT")
    case True
    note t = ont_handlers_return(1,3) [OF n(1) sh(2) _ L'(1) len', of env 0] ont_handlers_return(2) [OF n(1) sh(2) _ L'(1) len', of env]
    have "h \<in> ont_handlers"
      using method_handlers(1) Some True by simp
    then show ?thesis
      unfolding ont_handlers_def
      by (elim insertE emptyE) (use q i t n(2) True in \<open>simp_all add: numeral_2_eq_2 OntName_def OntSymbol_def OntDecimals_def
        OntBalanceOf_def OntAllowance_def\<close>)
  next
    case False
    then have "h \<in> ong_handlers"
      using method_handlers(2) Some c by (simp add: token_def)
    then show ?thesis
      unfolding ong_handlers_def
      by (elim insertE emptyE) (use q i g in \<open>simp_all add: numeral_2_eq_2 OngName_def OngSymbol_def OngDecimals_def
        OngBalanceOf_def OngAllowance_def\<close>)
  qed
  then show ?thesis
    using Some by (auto simp: token_call_def native_call_eq [OF c new] intro!: returns_bind)
qed (simp add: token_call_def native_call_eq [OF c new])

section \<open>The depth of calls\<close>

text \<open>The only nested call is the one of \<open>approve\<close> in the contract of ONG, which calls nothing.\<close>

lemma approve_depth:
  "NativeCall token_contracts (native_run env PS (Suc n)) ONG (str ''approve'') = NativeCall token_contracts (native_run env PS 1) ONG (str ''approve'')"
  by (intro ext) (simp add: NativeCall_def Invoke_def registered_approve)

lemma grantOng_cong:
  assumes "call ONG (str ''approve'') = call' ONG (str ''approve'')"
  shows "grantOng call = grantOng call'"
  unfolding grantOng_def [abs_def] assms by (rule refl)

lemma Ont_cong:
  assumes "call ONG (str ''approve'') = call' ONG (str ''approve'')"
  shows "OntTransfer env call = OntTransfer env call'" "OntTransferFrom env call = OntTransferFrom env call'"
proof -
  note g = grantOng_cong [of call call', OF assms]
  have "OntTransfer_loop env call PS c sts ns = OntTransfer_loop env call' PS c sts ns" for PS c sts ns
    by (induction sts arbitrary: ns) (simp_all add: g)
  then have loop: "OntTransfer_loop env call = OntTransfer_loop env call'"
    by (intro ext)
  show "OntTransfer env call = OntTransfer env call'"
    unfolding OntTransfer_def [abs_def] loop by (rule refl)
  show "OntTransferFrom env call = OntTransferFrom env call'"
    unfolding OntTransferFrom_def [abs_def] g by (rule refl)
qed

lemma native_run_depth: "native_run env PS (Suc (Suc n)) h ns = native_run env PS 2 h ns"
proof -
  have "OntTransfer env (NativeCall token_contracts (native_run env PS (Suc n))) PS = OntTransfer env (NativeCall token_contracts (native_run env PS 1)) PS"
    "OntTransferFrom env (NativeCall token_contracts (native_run env PS (Suc n))) PS = OntTransferFrom env (NativeCall token_contracts (native_run env PS 1)) PS"
    by (rule fun_cong [OF Ont_cong(1)] fun_cong [OF Ont_cong(2)]; rule approve_depth)+
  then show ?thesis
    by (cases h) (simp_all only: native_run.simps Let_def numeral_2_eq_2 One_nat_def Handler.case)
qed

section \<open>What a call achieves\<close>

lemma ont_pay_settled:
  assumes L: "sound now L" and ft: "from \<in> addrs" "to \<in> addrs"
  shows "ont_pay now pre from to v L = Some (pay ONT from to v (settle now to (settle now from L)))"
proof -
  have off: "\<forall>a. L (Offset ONT a) \<le> now"
    using L by (simp add: sound_def)
  obtain M where M: "ont_pay now pre from to v L = Some M"
    using ont_pay_succeeds [OF L ft] by blast
  show ?thesis
  proof (cases "now = 0")
    case True
    then have "settle now a L = L" for a
      using off by (intro ext) (simp add: settle_def)
    then show ?thesis
      using True by (simp add: ont_pay_def grant_def)
  qed (use ont_pay_settles [OF M _ off] M in simp)
qed

lemma safe_service:
  fixes ns :: "('s, Handler) NativeService"
  assumes "safe PS now db" "NewNativeService db sc = Ok ns" "now \<le> elapsed ns"
  shows "ns_shows PS ns (storage PS db)" "typed (storage PS db)" "sound (elapsed ns) (ledger PS db)" "ServiceMap ns = Map.empty" "ContextRef ns = sc"
  using assms NewNativeService_Ok [OF assms(2)] sound_later by (auto simp: safe_def)

lemma ont_transfer_succeeds:
  fixes ns :: "('s, Handler) NativeService"
  assumes s: "safe PS now db" and new: "NewNativeService db sc = Ok ns" "now \<le> elapsed ns"
    and st: "State_valid st" and v: "0 < st_Value st" "unat (st_Value st) \<le> ledger PS db (Balance ONT (st_From st))"
    and auth: "CheckWitness (env_ripemd160 env) (st_From st) (callee ONT sc)"
  shows "\<exists>ns'. token_call env PS ONT TRANSFER_NAME (Transfers_enc [st]) ns = Ok (BYTE_TRUE, ns') \<and> ledger PS (ns_CacheDB ns')
    = pay ONT (st_From st) (st_To st) (unat (st_Value st)) (settle (elapsed ns) (st_To st) (settle (elapsed ns) (st_From st) (ledger PS db)))"
proof -
  let ?n = "entered ONT TRANSFER_NAME (Transfers_enc [st]) ns" and ?v = "unat (st_Value st)"
  note sv = safe_service [OF s new]
  note n = entered_shows [OF sv(1), of ONT TRANSFER_NAME "Transfers_enc [st]"]
  have L: "sound (elapsed ?n) (ledger PS db)" and ft: "st_From st \<in> addrs" "st_To st \<in> addrs" and sts: "Transfers_valid [st]"
    using sv(3) n(3) st by (simp_all add: State_valid_def state_ok_def addrs_def Transfers_valid_def)
  have cap: "?v \<le> unat ONT_TOTAL_SUPPLY" and pos: "st_Value st \<noteq> 0"
    using v balance_le_issued [OF ft(1), of "ledger PS db" ONT] sv(3) by (auto simp: sound_def)
  have "length (Transfers_enc [st]) \<le> maxInt"
    using length_arg_enc(1) [of "st_From st"] length_arg_enc(1) [of "st_To st"] length_arg_enc(2) [of 1] length_arg_enc(2) [of "st_Value st"] st
    by (simp add: Transfers_enc_def State_enc_def State_valid_def state_ok_def maxInt_def)
  then have "wf_src (NewZeroCopySource (Transfers_enc [st]))"
    by simp
  from transfers.reads [OF sts this, of "[]"] obtain rd where rd: "Transfers_Deserialization (NewZeroCopySource (ns_Input ?n)) = Ok ([st], rd)"
    using n(6) by simp
  have "ont_payments (\<lambda>a. CheckWitness (env_ripemd160 env) a (ContextRef ?n)) (elapsed ?n) (ns_PreExec ?n) [st] (ledger PS db)
      = Some (pay ONT (st_From st) (st_To st) ?v (settle (elapsed ns) (st_To st) (settle (elapsed ns) (st_From st) (ledger PS db))))"
    using ont_pay_settled [OF sv(3) ft, of _ ?v] cap pos v(2) auth n(3-5) sv(5) by simp
  with OntTransfer_shows [OF n(1) sv(2) n(2) L rd, of env 0] obtain n2 g where g: "native_run env PS 2 H_OntTransfer ?n = Ok (BYTE_TRUE, n2)"
    "ns_shows PS n2 g" "led g = pay ONT (st_From st) (st_To st) ?v (settle (elapsed ns) (st_To st) (settle (elapsed ns) (st_From st) (ledger PS db)))"
    by (auto simp: numeral_2_eq_2)
  have "method_of ONT TRANSFER_NAME = Some H_OntTransfer"
    by (simp add: method_of_def method_names)
  then show ?thesis
    using g by (auto simp: token_call_def native_call_eq [OF token_contract(1) sv(4)] detail_def shows_storage returned_def)
qed

lemma ong_claim_succeeds:
  fixes ns :: "('s, Handler) NativeService"
  assumes s: "safe PS now db" and new: "NewNativeService db sc = Ok ns" "now \<le> elapsed ns"
    and a: "a \<in> addrs" "to \<in> addrs" and v: "0 < v" "unat v \<le> ledger PS db (due a)"
    and auth: "CheckWitness (env_ripemd160 env) a (callee ONG sc)"
  shows "\<exists>ns'. token_call env PS ONG TRANSFERFROM_NAME (TransferFrom_enc \<lparr>tf_Sender = a, tf_From = ONT, tf_To = to, tf_Value = v\<rparr>) ns
      = Ok (BYTE_TRUE, ns') \<and> ledger PS (ns_CacheDB ns') = pay ONG ONT to (unat v) ((ledger PS db)(due a := ledger PS db (due a) - unat v))"
proof -
  let ?tf = "\<lparr>tf_Sender = a, tf_From = ONT, tf_To = to, tf_Value = v\<rparr>"
  let ?n = "entered ONG TRANSFERFROM_NAME (TransferFrom_enc ?tf) ns"
  note sv = safe_service [OF s new]
  note n = entered_shows [OF sv(1), of ONG TRANSFERFROM_NAME "TransferFrom_enc ?tf"]
  have "unat v \<le> claim (ledger PS db) a"
    using v(2) by (simp add: claim_def)
  then have le: "unat v \<le> unat ONG_TOTAL_SUPPLY" "unat v \<le> ledger PS db (Balance ONG ONT)"
    using sound_claim [OF sv(3) a(1)] claim_le_owed [OF a(1), of "ledger PS db"] sv(3) by (auto simp: sound_def)
  then have "v < 0x8000000000000000" and len: "length a = 20" "length to = 20" "length ONT = 20"
    using a by (simp_all add: word_less_nat_alt addrs_def)
  then have tf: "TransferFrom_valid ?tf"
    by (simp add: TransferFrom_valid_def State_valid_def state_ok_def)
  have "length (TransferFrom_enc ?tf) \<le> maxInt"
    using length_arg_enc(1) [of a] length_arg_enc(1) [of ONT] length_arg_enc(1) [of to] length_arg_enc(2) [of v] len
    by (simp add: TransferFrom_enc_def State_enc_def maxInt_def)
  then have "wf_src (NewZeroCopySource (TransferFrom_enc ?tf))"
    by simp
  from transfer_from.reads [OF tf this, of "[]"] obtain rd where rd: "TransferFrom_Deserialization (NewZeroCopySource (ns_Input ?n)) = Ok (?tf, rd)"
    using n(6) by simp
  have "unat v \<noteq> 0" "ledger PS db (due a) = ledger PS db (Allowance ONG ONT a)"
    using v(1) by (auto simp: due_def unat_eq_0)
  with OngTransferFrom_shows [OF n(1) sv(2) n(2) token_contract(2) sound_small(2) [OF sv(3)] rd, of env] le v(2) auth n(5) sv(5)
  obtain n2 g where g: "native_run env PS 2 H_OngTransferFrom ?n = Ok (BYTE_TRUE, n2)" "ns_shows PS n2 g"
    "led g = pay ONG ONT to (unat v) ((ledger PS db)(due a := ledger PS db (due a) - unat v))"
    by (auto simp: numeral_2_eq_2 due_def)
  have "method_of ONG TRANSFERFROM_NAME = Some H_OngTransferFrom"
    by (simp add: method_of_def method_names)
  then show ?thesis
    using g by (auto simp: token_call_def native_call_eq [OF token_contract(2) sv(4)] detail_def shows_storage returned_def)
qed

text \<open>The initialisations.\<close>

lemma ong_init_succeeds:
  fixes ns :: "('s, Handler) NativeService"
  assumes db: "c_ok PS db" "typed (storage PS db)" "ledger PS db (Supply ONG) = 0" and new: "NewNativeService db sc = Ok ns"
  shows "\<exists>ns'. token_call env PS ONG INIT_NAME args ns = Ok (BYTE_TRUE, ns')
    \<and> ledger PS (ns_CacheDB ns') = (ledger PS db)(Supply ONG := unat ONG_TOTAL_SUPPLY, Balance ONG ONT := unat ONG_TOTAL_SUPPLY)"
proof -
  note nw = NewNativeService_Ok [OF new]
  note n = entered_shows [OF nw(4) [OF db(1)], of ONG INIT_NAME args]
  obtain n2 g where "OngInit env PS (entered ONG INIT_NAME args ns) = Ok (BYTE_TRUE, n2)" "ns_shows PS n2 g"
    "led g = (ledger PS db)(Supply ONG := unat ONG_TOTAL_SUPPLY, Balance ONG ONT := unat ONG_TOTAL_SUPPLY)"
    using OngInit_shows [OF n(1) db(2) n(2) token_contract(2) db(3), of env] by blast
  then show ?thesis
    by (auto simp: token_call_def native_call_eq [OF token_contract(2) nw(2)] init_methods detail_def numeral_2_eq_2 shows_storage returned_def
        simp del: unat_ONG_TOTAL_SUPPLY)
qed

lemma ont_init_succeeds:
  fixes ns :: "('s, Handler) NativeService"
  assumes db: "c_ok PS db" "\<forall>x. slot_ok x \<longrightarrow> storage PS db (slot_key x) = []" and new: "NewNativeService db sc = Ok ns"
    and perm: "\<And>d. mset (map_range env d) = mset d"
    and ds: "list_all part_ok ds" "length ds < 2 ^ 63" "(\<Sum>(a, v)\<leftarrow>ds. unat v) = unat ONT_TOTAL_SUPPLY"
    and len: "length (varbytes_enc (dist_enc ds)) \<le> maxInt"
  shows "\<exists>ns'. token_call env PS ONT INIT_NAME (varbytes_enc (dist_enc ds)) ns = Ok (BYTE_TRUE, ns')
    \<and> c_ok PS (ns_CacheDB ns') \<and> typed (storage PS (ns_CacheDB ns'))
    \<and> ledger PS (ns_CacheDB ns') = (\<lambda>x. case x of Balance c a \<Rightarrow> if c = ONT then amount ds a else 0
        | Supply c \<Rightarrow> if c = ONT then unat ONT_TOTAL_SUPPLY else 0 | _ \<Rightarrow> 0)"
proof -
  let ?args = "varbytes_enc (dist_enc ds)"
  note nw = NewNativeService_Ok [OF new] and blank = blank_ledger [OF db(2)]
  note n = entered_shows [OF nw(4) [OF db(1)], of ONT INIT_NAME ?args]
  obtain n2 d g where g: "OntInit env PS (entered ONT INIT_NAME ?args ns) = Ok (BYTE_TRUE, n2)" "\<forall>a. held d a = amount ds a" "dist_ok d"
    "ns_shows PS n2 g" "typed g" "led g = (allot ONT d (ledger PS db))(Supply ONT := unat ONT_TOTAL_SUPPLY)"
    using OntInit_starts [OF n(1) blank(1) n(2) token_contract(1) blank(2) perm ds] n(6) len by auto
  have none: "a \<notin> fst ` set d \<Longrightarrow> amount ds a = 0" for a
    using spec [OF g(2), of a] map_of_eq_None_iff [of d a] by (simp add: held_def)
  have "led g x = (case x of Balance c a \<Rightarrow> if c = ONT then amount ds a else 0
      | Supply c \<Rightarrow> if c = ONT then unat ONT_TOTAL_SUPPLY else 0 | _ \<Rightarrow> 0)" for x
    unfolding g(6) using g(2) blank(2) none by (cases x) (auto simp: allot_def)
  note led_g = ext [OF this]
  show ?thesis
    using led_g g(1,4,5)
    by (auto simp: token_call_def native_call_eq [OF token_contract(1) nw(2)] init_methods detail_def numeral_2_eq_2 shows_storage returned_def
        simp del: unat_ONT_TOTAL_SUPPLY)
qed

lemma balance_of_reads:
  fixes ns :: "('s, Handler) NativeService"
  assumes s: "safe PS now db" and new: "NewNativeService db sc = Ok ns" "now \<le> elapsed ns" and c: "token c" and a: "a \<in> addrs"
  shows "\<exists>ns'. token_call env PS c BALANCEOF_NAME (varbytes_enc a) ns = Ok (BigIntToNeoBytes (int (ledger PS db (Balance c a))), ns')
    \<and> storage PS (ns_CacheDB ns') = storage PS db"
proof -
  let ?n = "entered c BALANCEOF_NAME (varbytes_enc a) ns"
  note sv = safe_service [OF s new]
  note n = entered_shows [OF sv(1), of c BALANCEOF_NAME "varbytes_enc a"]
  have x: "slot_ok (Balance c a)" "\<not> is_offset (Balance c a)" and len: "length a = 20"
    using a c by (simp_all add: addrs_def)
  obtain v db' where v: "GetStorageUInt64 PS (GenBalanceKey c a) ?n = Ok (v, ?n\<lparr>ns_CacheDB := db'\<rparr>)" "unat v = ledger PS db (Balance c a)"
    "ns_shows PS (?n\<lparr>ns_CacheDB := db'\<rparr>) (storage PS db)"
    using read_slot_shows [OF n(1) sv(2) x] by auto
  have "unat v \<le> 1000000000000000000"
    using v(2) balance_le_issued [OF a, of "ledger PS db" c] sv(3) c by (auto simp: sound_def token_def)
  then have "sint v = int (ledger PS db (Balance c a))"
    using sint_small [of v] by (simp add: word_less_nat_alt flip: v(2))
  moreover have "wf_src (NewZeroCopySource (varbytes_enc a))"
    using length_arg_enc(1) [of a] len by (intro wf_NewZeroCopySource) (simp add: maxInt_def)
  from arg_addr.reads [OF len this, of "[]"] have "GetBalanceValue PS TRANSFER_FLAG ?n = Ok (BigIntToNeoBytes (sint v), ?n\<lparr>ns_CacheDB := db'\<rparr>)"
    using v(1) n(2,6) by (simp add: GetBalanceValue_def detail_def TRANSFER_FLAG_def APPROVE_FLAG_def)
  moreover have "native_run env PS 2 h ?n = GetBalanceValue PS TRANSFER_FLAG ?n" if "h = H_OntBalanceOf \<or> h = H_OngBalanceOf" for h
    using that by (auto simp: numeral_2_eq_2 OntBalanceOf_def OngBalanceOf_def)
  moreover have "method_of c BALANCEOF_NAME = Some (if c = ONT then H_OntBalanceOf else H_OngBalanceOf)"
    using c by (auto simp: method_of_def method_names token_def)
  ultimately show ?thesis
    using v(3) by (auto simp: token_call_def native_call_eq [OF c sv(4)] detail_def shows_storage returned_def)
qed

section \<open>An example\<close>

type_synonym example_native = "((bytes \<Rightarrow> bytes) \<times> (bytes \<times> bytes) list, Handler) NativeService"

definition example_env :: native_env where
  "example_env = \<lparr>env_ripemd160 = (\<lambda>b. take 20 (b @ replicate 20 0)), EnableEventLog = True, ToBase58 = (\<lambda>a. a), map_range = (\<lambda>d. d)\<rparr>"

definition alice :: Address where
  "alice = replicate 20 7"

definition bob :: Address where
  "bob = replicate 20 9"

definition example_sc :: "u32 \<Rightarrow> SmartContract" where
  "example_sc t = \<lparr>Contexts = [\<lparr>ContractAddress = bob, ctx_Code = []\<rparr>], sc_Time = GENESIS_BLOCK_TIMESTAMP + t, sc_Height = 1,
     sc_BlockHash = [], sc_Tx = \<lparr>tx_Verify = [], SignedAddr = [alice]\<rparr>, sc_Notifications = [], Gas = 0, ExecStep = 0,
     sc_PreExec = False, internelErr = False, sc_CrossHashes = []\<rparr>"

definition example_db :: "((bytes \<Rightarrow> bytes) \<times> (bytes \<times> bytes) list) CacheDB" where
  "example_db = NewCacheDB example_leveldb (NewOverlayDB example_leveldb (\<lambda>k. [], []))"

lemma example_addrs [simp]: "alice \<in> addrs" "bob \<in> addrs" "alice \<noteq> bob" "alice \<noteq> ONT" "bob \<noteq> ONT"
proof -
  have "hd alice = 7" "hd bob = 9" "hd ONT = 0"
    by (simp_all add: alice_def bob_def native_address_def OntContractAddress_def hd_append)
  then have "hd alice \<noteq> hd bob" "hd alice \<noteq> hd ONT" "hd bob \<noteq> hd ONT"
    by simp_all
  then show "alice \<noteq> bob" "alice \<noteq> ONT" "bob \<noteq> ONT"
    by metis+
qed (simp_all add: addrs_def alice_def bob_def)

lemma example_perm: "mset (map_range example_env d) = mset d"
  by (simp add: example_env_def)

lemma example_witness:
  "CheckWitness r alice (callee c (example_sc t))" "\<not> CheckWitness r ONT (callee c (example_sc t))"
  by (simp_all add: CheckWitness_def checkAccountAddress_def checkContractAddress_def GetSignatureAddresses_def callee_def example_sc_def
      PushContext_def CallingContext_def)

lemma example_contexts [simp]: "Contexts (example_sc t) \<noteq> []"
  by (simp add: example_sc_def)

lemma example_service:
  fixes db :: "'s CacheDB"
  shows "\<exists>ns :: ('s, Handler) NativeService. NewNativeService db (example_sc t) = Ok ns \<and> (t \<le> 1000 \<longrightarrow> elapsed ns = unat t)"
proof -
  have "t \<le> 1000 \<Longrightarrow> unat (GENESIS_BLOCK_TIMESTAMP + t) = unat GENESIS_BLOCK_TIMESTAMP + unat t"
    by (simp add: unat_word_ariths GENESIS_BLOCK_TIMESTAMP_def word_le_nat_alt)
  then show ?thesis
    by (auto simp: NewNativeService_def checkContexts_def example_sc_def MAX_EXECUTE_ENGINE_def elapsed_def)
qed

lemma example_blank: "c_ok map_store example_db" "storage map_store example_db k = []"
  using map_cache_ok [of "\<lambda>k. []"] by (simp_all add: example_db_def storage_def)

lemma example_genesis:
  "\<exists>db. reachable example_env map_store 0 db \<and> ledger map_store db = (\<lambda>x. case x of Balance c a \<Rightarrow>
      if c = ONT \<and> a = alice then unat ONT_TOTAL_SUPPLY else if c = ONG \<and> a = ONT then unat ONG_TOTAL_SUPPLY else 0
    | Supply c \<Rightarrow> if c = ONT then unat ONT_TOTAL_SUPPLY else if c = ONG then unat ONG_TOTAL_SUPPLY else 0 | _ \<Rightarrow> 0)"
proof -
  let ?ds = "[(alice, ONT_TOTAL_SUPPLY)]"
  obtain ns :: "example_native" where ns: "NewNativeService example_db (example_sc 0) = Ok ns"
    using example_service [of example_db 0] by blast
  have blank: "\<forall>x. slot_ok x \<longrightarrow> storage map_store example_db (slot_key x) = []"
    by (simp add: example_blank)
  have ds: "list_all part_ok ?ds" "length ?ds < 2 ^ 63" "(\<Sum>(a, v)\<leftarrow>?ds. unat v) = unat ONT_TOTAL_SUPPLY"
    by (simp_all add: part_ok_def ONT_TOTAL_SUPPLY_def)
  have len: "length (varbytes_enc (dist_enc ?ds)) \<le> maxInt"
    using length_arg_enc(1) [of alice] length_arg_enc(1) [of "dist_enc ?ds"] length_arg_enc(2) [of 1] length_arg_enc(2) [of ONT_TOTAL_SUPPLY]
    by (simp add: dist_enc_def part_enc_def alice_def maxInt_def)
  obtain ns1 where ns1: "token_call example_env map_store ONT INIT_NAME (varbytes_enc (dist_enc ?ds)) ns = Ok (BYTE_TRUE, ns1)"
    "c_ok map_store (ns_CacheDB ns1)" "typed (storage map_store (ns_CacheDB ns1))"
    "ledger map_store (ns_CacheDB ns1) = (\<lambda>x. case x of Balance c a \<Rightarrow> if c = ONT then amount ?ds a else 0
        | Supply c \<Rightarrow> if c = ONT then unat ONT_TOTAL_SUPPLY else 0 | _ \<Rightarrow> 0)"
    using ont_init_succeeds [OF example_blank(1) blank ns example_perm ds len] by blast
  obtain ns2 :: "example_native" where ns2: "NewNativeService (ns_CacheDB ns1) (example_sc 0) = Ok ns2"
    using example_service [of "ns_CacheDB ns1" 0] by blast
  have zero: "ledger map_store (ns_CacheDB ns1) (Supply ONG) = 0"
    by (simp add: ns1(4))
  obtain ns3 where ns3: "token_call example_env map_store ONG INIT_NAME [] ns2 = Ok (BYTE_TRUE, ns3)"
    "ledger map_store (ns_CacheDB ns3)
      = (ledger map_store (ns_CacheDB ns1))(Supply ONG := unat ONG_TOTAL_SUPPLY, Balance ONG ONT := unat ONG_TOTAL_SUPPLY)"
    using ong_init_succeeds [OF ns1(2,3) zero ns2] by blast
  have "reachable example_env map_store 0 (ns_CacheDB ns3)"
    by (rule reachable.genesis [OF example_blank(1) blank ns ns1(1) ns2 ns3(1)])
  moreover have "ledger map_store (ns_CacheDB ns3) x = (case x of Balance c a \<Rightarrow>
      if c = ONT \<and> a = alice then unat ONT_TOTAL_SUPPLY else if c = ONG \<and> a = ONT then unat ONG_TOTAL_SUPPLY else 0
    | Supply c \<Rightarrow> if c = ONT then unat ONT_TOTAL_SUPPLY else if c = ONG then unat ONG_TOTAL_SUPPLY else 0 | _ \<Rightarrow> 0)" for x
    unfolding ns3(2) ns1(4) by (cases x) (auto simp: amount_def)
  ultimately show ?thesis
    by (blast intro: ext)
qed

text \<open>Alice pays Bob.\<close>

definition example_state :: State where
  "example_state = \<lparr>st_From = alice, st_To = bob, st_Value = 5\<rparr>"

lemma example_state_valid: "State_valid example_state"
  by (simp add: State_valid_def state_ok_def example_state_def alice_def bob_def)

lemma example_transfer:
  "\<exists>db ns ns'. reachable example_env map_store 0 db \<and> NewNativeService db (example_sc 1000) = Ok ns \<and> elapsed ns = 1000
    \<and> token_call example_env map_store ONT TRANSFER_NAME (Transfers_enc [example_state]) ns = Ok (BYTE_TRUE, ns')
    \<and> ledger map_store db (Balance ONT alice) = 1000000000
    \<and> ledger map_store (ns_CacheDB ns') (Balance ONT alice) = 999999995
    \<and> ledger map_store (ns_CacheDB ns') (due alice) = 1000000000 * released 0 1000
    \<and> reachable example_env map_store 1000 (ns_CacheDB ns')"
proof -
  obtain db where db: "reachable example_env map_store 0 db" "ledger map_store db = (\<lambda>x. case x of Balance c a \<Rightarrow>
      if c = ONT \<and> a = alice then unat ONT_TOTAL_SUPPLY else if c = ONG \<and> a = ONT then unat ONG_TOTAL_SUPPLY else 0
    | Supply c \<Rightarrow> if c = ONT then unat ONT_TOTAL_SUPPLY else if c = ONG then unat ONG_TOTAL_SUPPLY else 0 | _ \<Rightarrow> 0)"
    using example_genesis by blast
  obtain ns :: "example_native"
    where ns: "NewNativeService db (example_sc 1000) = Ok ns" "elapsed ns = 1000"
    using example_service [of db 1000] by auto
  have now: "0 \<le> elapsed ns"
    by simp
  note tr = ont_transfer_succeeds [OF reachable_safe [OF db(1) example_perm] ns(1) now example_state_valid, of example_env]
  obtain ns' where ns': "token_call example_env map_store ONT TRANSFER_NAME (Transfers_enc [example_state]) ns = Ok (BYTE_TRUE, ns')"
    "ledger map_store (ns_CacheDB ns') = pay ONT alice bob 5 (settle 1000 bob (settle 1000 alice (ledger map_store db)))"
    using tr example_witness(1) [of "env_ripemd160 example_env" ONT 1000] ns(2) db(2) by (auto simp: example_state_def)
  have "reachable example_env map_store (elapsed ns) (ns_CacheDB ns')"
    using example_witness(2) by (intro reachable.call [OF db(1) ns(1) now _ token_contract(1) _ ns'(1)]) (simp_all add: example_sc_def)
  moreover have "ledger map_store (ns_CacheDB ns') (Balance ONT alice) = 999999995"
    "ledger map_store (ns_CacheDB ns') (due alice) = 1000000000 * released 0 1000" "ledger map_store db (Balance ONT alice) = 1000000000"
    unfolding ns'(2) using example_addrs(3) by (simp_all add: pay_def settle_def db(2)) (simp_all add: due_def)
  ultimately show ?thesis
    using db(1) ns ns'(1) by auto
qed

section \<open>The properties\<close>

text \<open>
  C1. Both supplies stay out in full and released ONG is covered. In every state reached from the genesis
  initialisation by calls of the two contracts, with commits between them, the balances of ONT add up to its
  total supply and so do those of ONG; and the balance of ONG of the contract of ONT covers what its holders
  may still withdraw: for each holder the allowance granted so far and what the balance of ONT will earn from
  the last settlement to the deadline.
\<close>

theorem supplies_conserved:
  assumes "reachable env PS now db" "\<And>d. mset (map_range env d) = mset d"
  shows "(\<Sum>a\<in>addrs. ledger PS db (Balance ONT a)) = unat ONT_TOTAL_SUPPLY
    \<and> (\<Sum>a\<in>addrs. ledger PS db (Balance ONG a)) = unat ONG_TOTAL_SUPPLY
    \<and> (\<Sum>a\<in>addrs. ledger PS db (Allowance ONG ONT a)
        + ledger PS db (Balance ONT a) * (\<Sum>t = ledger PS db (Offset ONT a)..<deadline. generation t)) \<le> ledger PS db (Balance ONG ONT)"
  using reachable_safe [OF assms] by (simp add: safe_def sound_def issued_def owed_def claim_def due_def released_def)

theorem supplies_conserved_witness:
  "\<exists>db. reachable example_env map_store 0 db \<and> (\<Sum>a\<in>addrs. ledger map_store db (Balance ONT a)) = 1000000000"
proof -
  obtain db where "reachable example_env map_store 0 db"
    using example_genesis by blast
  then show ?thesis
    using supplies_conserved [OF _ example_perm] by fastforce
qed

text \<open>
  C2. The contracts implement the abstract machine. A call of either contract in a reachable state, with any
  method and any arguments, that does not fail has one of the effects of the relation \<open>effect\<close> on the ledger,
  for the accounts whose signature or calling contract the transaction has; it writes no storage but that of
  the ledger, and it leaves the contexts and the input of the service as they were.
\<close>

theorem token_call_refines:
  fixes ns :: "('s, Handler) NativeService"
  assumes "reachable env PS now db" "\<And>d. mset (map_range env d) = mset d" "NewNativeService db sc = Ok ns" "now \<le> elapsed ns"
    "Contexts sc \<noteq> []" "c = ONT \<or> c = ONG" "token_call env PS c m args ns = Ok (r, ns')"
  shows "effect (\<lambda>a. CheckWitness (env_ripemd160 env) a (callee c sc)) (elapsed ns) (ns_PreExec ns) (ledger PS db) (ledger PS (ns_CacheDB ns'))
    \<and> same_rest (storage PS db) (storage PS (ns_CacheDB ns'))
    \<and> Contexts (ContextRef ns') = Contexts sc \<and> ns_Input ns' = ns_Input ns"
proof -
  note sv = safe_service [OF reachable_safe [OF assms(1,2)] assms(3,4)]
  have "token c" "Contexts (ContextRef ns) \<noteq> []"
    using assms(5,6) sv(5) by (auto simp: token_def)
  from token_call_does [OF sv(1-4) this(2,1) assms(7)] show ?thesis
    using sv(5) by (auto simp: shows_storage call_keeps_def)
qed

theorem token_call_refines_witness:
  "\<exists>db ns ns'. reachable example_env map_store 0 db \<and> ns_CacheDB ns = db
    \<and> token_call example_env map_store ONT TRANSFER_NAME (Transfers_enc [example_state]) ns = Ok (BYTE_TRUE, ns')
    \<and> effect (\<lambda>a. CheckWitness (env_ripemd160 example_env) a (callee ONT (example_sc 1000))) 1000 (ns_PreExec ns)
        (ledger map_store db) (ledger map_store (ns_CacheDB ns'))"
proof -
  obtain db ns ns' where e: "reachable example_env map_store 0 db" "NewNativeService db (example_sc 1000) = Ok ns" "elapsed ns = 1000"
    "token_call example_env map_store ONT TRANSFER_NAME (Transfers_enc [example_state]) ns = Ok (BYTE_TRUE, ns')"
    using example_transfer by blast
  then show ?thesis
    using token_call_refines [OF e(1) example_perm e(2) _ _ _ e(4)] NewNativeService_Ok(1) [OF e(2)] by (auto simp: example_sc_def)
qed

text \<open>
  C3. Only its owner lowers a balance. If a call in a reachable state lowers the balance of an account, in
  either token, then the account is witnessed by the transaction, or another witnessed account had an
  allowance of it, which went down by the same amount.
\<close>

theorem spending_authorised:
  fixes ns :: "('s, Handler) NativeService"
  assumes "reachable env PS now db" "\<And>d. mset (map_range env d) = mset d" "NewNativeService db sc = Ok ns" "now \<le> elapsed ns"
    "Contexts sc \<noteq> []" "c = ONT \<or> c = ONG" "token_call env PS c m args ns = Ok (r, ns')"
    and t: "t = ONT \<or> t = ONG" and less: "ledger PS (ns_CacheDB ns') (Balance t a) < ledger PS db (Balance t a)"
  shows "CheckWitness (env_ripemd160 env) a (callee c sc)
    \<or> (\<exists>s. CheckWitness (env_ripemd160 env) s (callee c sc) \<and> ledger PS (ns_CacheDB ns') (Allowance t a s)
        + (ledger PS db (Balance t a) - ledger PS (ns_CacheDB ns') (Balance t a)) = ledger PS db (Allowance t a s))"
proof -
  note sv = safe_service [OF reachable_safe [OF assms(1,2)] assms(3,4)]
  have "token c" "Contexts (ContextRef ns) \<noteq> []" and tt: "token t"
    using assms(5,6) t sv(5) by (auto simp: token_def)
  from token_call_does [OF sv(1-4) this(2,1) assms(7)]
  have "effect (\<lambda>a. CheckWitness (env_ripemd160 env) a (callee c sc)) (elapsed ns) (ns_PreExec ns) (ledger PS db) (ledger PS (ns_CacheDB ns'))"
    using sv(5) by (auto simp: shows_storage)
  from effect_spends [OF this tt less] show ?thesis
    by blast
qed

theorem spending_authorised_witness:
  "\<exists>db ns ns'. reachable example_env map_store 0 db \<and> ns_CacheDB ns = db
    \<and> token_call example_env map_store ONT TRANSFER_NAME (Transfers_enc [example_state]) ns = Ok (BYTE_TRUE, ns')
    \<and> ledger map_store (ns_CacheDB ns') (Balance ONT alice) < ledger map_store db (Balance ONT alice)
    \<and> (CheckWitness (env_ripemd160 example_env) alice (callee ONT (example_sc 1000))
       \<or> (\<exists>s. CheckWitness (env_ripemd160 example_env) s (callee ONT (example_sc 1000))
         \<and> ledger map_store (ns_CacheDB ns') (Allowance ONT alice s) + 5 = ledger map_store db (Allowance ONT alice s)))"
proof -
  obtain db ns ns' where e: "reachable example_env map_store 0 db" "NewNativeService db (example_sc 1000) = Ok ns" "elapsed ns = 1000"
    "token_call example_env map_store ONT TRANSFER_NAME (Transfers_enc [example_state]) ns = Ok (BYTE_TRUE, ns')"
    "ledger map_store db (Balance ONT alice) = 1000000000" "ledger map_store (ns_CacheDB ns') (Balance ONT alice) = 999999995"
    using example_transfer by blast
  show ?thesis
    by (intro exI [of _ db] exI [of _ ns] exI [of _ ns'] conjI)
      (use spending_authorised [OF e(1) example_perm e(2) _ _ _ e(4), of ONT alice] NewNativeService_Ok(1) [OF e(2)] e in simp_all)
qed

text \<open>
  C13. Every call returns. In a reachable state a call of either contract, with any method name and any argument
  bytes, ends with a result or an error and never panics; and calls nest at most twice: with a greater
  bound on the depth the outcome is the same.
\<close>

theorem token_calls_return:
  fixes ns :: "('s, Handler) NativeService"
  assumes "reachable env PS now db" "\<And>d. mset (map_range env d) = mset d" "NewNativeService db sc = Ok ns" "now \<le> elapsed ns"
    "c = ONT \<or> c = ONG" "length args \<le> maxInt"
  shows "((\<exists>r ns'. token_call env PS c m args ns = Ok (r, ns')) \<or> (\<exists>e. token_call env PS c m args ns = Err e))
    \<and> NativeCall token_contracts (native_run env PS (2 + n)) c m args ns = token_call env PS c m args ns"
proof -
  note sv = safe_service [OF reachable_safe [OF assms(1,2)] assms(3,4)]
  have c: "token c"
    using assms(5) by (auto simp: token_def)
  have "native_run env PS (2 + n) = native_run env PS 2"
    using native_run_depth [of env PS n] by (intro ext) simp
  then show ?thesis
    using token_call_returns [OF sv(1-4) c assms(6), of env m] by (auto simp: returns_iff token_call_def)
qed

theorem token_calls_return_witness:
  "\<exists>db. reachable example_env map_store 0 db \<and> (\<forall>ns. NewNativeService db (example_sc 0) = Ok ns \<longrightarrow>
     ((\<exists>r ns'. token_call example_env map_store ONT TRANSFER_NAME [1, 2, 3] ns = Ok (r, ns'))
       \<or> (\<exists>e. token_call example_env map_store ONT TRANSFER_NAME [1, 2, 3] ns = Err e)))"
proof -
  obtain db where db: "reachable example_env map_store 0 db"
    using example_genesis by blast
  then show ?thesis
    by (intro exI [of _ db] conjI allI impI)
      (use token_calls_return [OF db example_perm, of "example_sc 0" _ ONT "[1, 2, 3]" TRANSFER_NAME 0] in \<open>simp_all add: maxInt_def\<close>)
qed

text \<open>
  C11. A covered transfer of ONT goes through. In a reachable state a transfer of ONT that the payer has signed
  and the payer's balance covers succeeds, whatever has been earned and granted before; it moves the amount,
  and what payer and payee have earned since their last settlement, at the rates of the seconds passed on the
  balances before the transfer, becomes allowance of ONG.
\<close>

theorem ont_transfer_live:
  fixes ns :: "('s, Handler) NativeService"
  assumes "reachable env PS now db" "\<And>d. mset (map_range env d) = mset d" "NewNativeService db sc = Ok ns" "now \<le> elapsed ns"
    and a: "length a = 20" "length b = 20" "a \<noteq> b" and v: "0 < v" "unat v \<le> ledger PS db (Balance ONT a)"
    and auth: "CheckWitness (env_ripemd160 env) a (callee ONT sc)"
  shows "\<exists>ns' L. token_call env PS ONT TRANSFER_NAME (Transfers_enc [\<lparr>st_From = a, st_To = b, st_Value = v\<rparr>]) ns = Ok (BYTE_TRUE, ns')
    \<and> L = ledger PS (ns_CacheDB ns')
    \<and> L (Balance ONT a) = ledger PS db (Balance ONT a) - unat v \<and> L (Balance ONT b) = ledger PS db (Balance ONT b) + unat v
    \<and> (\<forall>x \<in> {a, b}. L (Offset ONT x) = elapsed ns \<and> L (Allowance ONG ONT x) = ledger PS db (Allowance ONG ONT x)
        + ledger PS db (Balance ONT x) * (\<Sum>t = ledger PS db (Offset ONT x)..<elapsed ns. generation t))"
proof -
  let ?st = "\<lparr>st_From = a, st_To = b, st_Value = v\<rparr>"
  note s = reachable_safe [OF assms(1,2)]
  note sv = safe_service [OF s assms(3,4)]
  have "unat v \<le> 1000000000"
    using v(2) balance_le_issued [of a "ledger PS db" ONT] sv(3) a by (auto simp: sound_def addrs_def)
  then have "State_valid ?st"
    using a by (simp add: State_valid_def state_ok_def word_less_nat_alt)
  from ont_transfer_succeeds [OF s assms(3,4) this, of env] obtain ns'
    where ns': "token_call env PS ONT TRANSFER_NAME (Transfers_enc [?st]) ns = Ok (BYTE_TRUE, ns')"
      "ledger PS (ns_CacheDB ns') = pay ONT a b (unat v) (settle (elapsed ns) b (settle (elapsed ns) a (ledger PS db)))"
    using v auth by auto
  show ?thesis
    by (intro exI [of _ ns'] exI [of _ "ledger PS (ns_CacheDB ns')"] conjI ns'(1) refl)
      (use a(3) in \<open>simp_all add: ns'(2) pay_def settle_def released_def due_def\<close>)
qed

theorem ont_transfer_live_witness:
  "\<exists>db ns ns'. reachable example_env map_store 0 db \<and> ns_CacheDB ns = db \<and> ledger map_store db (Balance ONT alice) = 1000000000
    \<and> token_call example_env map_store ONT TRANSFER_NAME (Transfers_enc [\<lparr>st_From = alice, st_To = bob, st_Value = 5\<rparr>]) ns = Ok (BYTE_TRUE, ns')
    \<and> ledger map_store (ns_CacheDB ns') (Balance ONT alice) = 999999995"
proof -
  obtain db and ns :: example_native where e: "reachable example_env map_store 0 db" "NewNativeService db (example_sc 1000) = Ok ns"
    "elapsed ns = 1000" "ledger map_store db (Balance ONT alice) = 1000000000"
    using example_transfer by blast
  have "length alice = 20" "length bob = 20"
    by (simp_all add: alice_def bob_def)
  then obtain ns' where "token_call example_env map_store ONT TRANSFER_NAME (Transfers_enc [\<lparr>st_From = alice, st_To = bob, st_Value = 5\<rparr>]) ns = Ok (BYTE_TRUE, ns')"
    "ledger map_store (ns_CacheDB ns') (Balance ONT alice) = 999999995"
    using ont_transfer_live [OF e(1) example_perm e(2), of alice bob 5] e(3,4) example_witness(1) by auto
  then show ?thesis
    using e NewNativeService_Ok(1) [OF e(2)] by blast
qed

text \<open>
  C12. Released ONG can be withdrawn. In a reachable state the holder of an allowance of ONG on the account of the
  contract of ONT can take any part of it, at any time and to any address, with one signed call of
  \<open>transferFrom\<close>; the call succeeds, pays the amount and lowers the allowance by it.
\<close>

theorem ong_withdraw_live:
  fixes ns :: "('s, Handler) NativeService"
  assumes "reachable env PS now db" "\<And>d. mset (map_range env d) = mset d" "NewNativeService db sc = Ok ns" "now \<le> elapsed ns"
    and a: "length a = 20" "length b = 20" "b \<noteq> ONT" and v: "0 < v" "unat v \<le> ledger PS db (Allowance ONG ONT a)"
    and auth: "CheckWitness (env_ripemd160 env) a (callee ONG sc)"
  shows "\<exists>ns' L. token_call env PS ONG TRANSFERFROM_NAME (TransferFrom_enc \<lparr>tf_Sender = a, tf_From = ONT, tf_To = b, tf_Value = v\<rparr>) ns
      = Ok (BYTE_TRUE, ns') \<and> L = ledger PS (ns_CacheDB ns')
    \<and> L (Balance ONG b) = ledger PS db (Balance ONG b) + unat v \<and> L (Balance ONG ONT) = ledger PS db (Balance ONG ONT) - unat v
    \<and> L (Allowance ONG ONT a) = ledger PS db (Allowance ONG ONT a) - unat v"
proof -
  have "a \<in> addrs" "b \<in> addrs" "unat v \<le> ledger PS db (due a)"
    using a v(2) by (simp_all add: addrs_def due_def)
  from ong_claim_succeeds [OF reachable_safe [OF assms(1,2)] assms(3,4) this(1,2) v(1) this(3) auth] obtain ns'
    where ns': "token_call env PS ONG TRANSFERFROM_NAME (TransferFrom_enc \<lparr>tf_Sender = a, tf_From = ONT, tf_To = b, tf_Value = v\<rparr>) ns
        = Ok (BYTE_TRUE, ns')"
      "ledger PS (ns_CacheDB ns') = pay ONG ONT b (unat v) ((ledger PS db)(due a := ledger PS db (due a) - unat v))"
    by blast
  show ?thesis
    by (intro exI [of _ ns'] exI [of _ "ledger PS (ns_CacheDB ns')"] conjI ns'(1) refl)
      (use a(3) in \<open>simp_all add: ns'(2) pay_def due_def\<close>)
qed

theorem ong_withdraw_live_witness:
  "\<exists>db ns ns'. reachable example_env map_store 1000 db \<and> ns_CacheDB ns = db \<and> 1 \<le> ledger map_store db (Allowance ONG ONT alice)
    \<and> token_call example_env map_store ONG TRANSFERFROM_NAME
        (TransferFrom_enc \<lparr>tf_Sender = alice, tf_From = ONT, tf_To = alice, tf_Value = 1\<rparr>) ns = Ok (BYTE_TRUE, ns')
    \<and> ledger map_store (ns_CacheDB ns') (Balance ONG alice) = ledger map_store db (Balance ONG alice) + 1"
proof -
  obtain db where db: "reachable example_env map_store 1000 db" "ledger map_store db (due alice) = 1000000000 * released 0 1000"
    using example_transfer by blast
  have "released 0 1000 = 5000"
    using released_within [of 0 1000 0] by (simp add: interval_def deadline_def UNBOUND_GENERATION_AMOUNT_def)
  then have one: "1 \<le> ledger map_store db (Allowance ONG ONT alice)"
    using db(2) by (simp add: due_def)
  obtain ns :: example_native where ns: "NewNativeService db (example_sc 1000) = Ok ns" "elapsed ns = 1000"
    using example_service [of db 1000] by auto
  have len: "length alice = 20"
    by (simp add: alice_def)
  obtain ns' where "token_call example_env map_store ONG TRANSFERFROM_NAME
        (TransferFrom_enc \<lparr>tf_Sender = alice, tf_From = ONT, tf_To = alice, tf_Value = 1\<rparr>) ns = Ok (BYTE_TRUE, ns')"
    "ledger map_store (ns_CacheDB ns') (Balance ONG alice) = ledger map_store db (Balance ONG alice) + 1"
    using ong_withdraw_live [OF db(1) example_perm ns(1), of alice alice 1] len ns(2) one example_witness(1) by auto
  then show ?thesis
    using db(1) one NewNativeService_Ok(1) [OF ns(1)] by blast
qed

text \<open>
  C14. The initialisation shares the supply out as it is told, once. On an empty store \<open>init\<close> of ONT with an
  encoded list of shares that adds up to the total supply succeeds; every address holds the sum of its shares
  and nothing else is written; and a further \<open>init\<close> fails. The list that the genesis block passes is of this
  form: it gives everything to the one address of the bookkeepers.
\<close>

theorem ont_init_once:
  fixes ns :: "('s, Handler) NativeService"
  assumes "c_ok PS db" "\<forall>x. slot_ok x \<longrightarrow> storage PS db (slot_key x) = []" "NewNativeService db sc = Ok ns"
    "\<And>d. mset (map_range env d) = mset d"
    and ds: "list_all part_ok ds" "length ds < 2 ^ 63" "(\<Sum>(a, v)\<leftarrow>ds. unat v) = unat ONT_TOTAL_SUPPLY"
    and len: "length (varbytes_enc (dist_enc ds)) \<le> maxInt" and b: "length b = 20"
  shows "(\<exists>ns' ns2. token_call env PS ONT INIT_NAME (varbytes_enc (dist_enc ds)) ns = Ok (BYTE_TRUE, ns')
      \<and> ledger PS (ns_CacheDB ns') = (\<lambda>x. case x of Balance c a \<Rightarrow> if c = ONT then (\<Sum>(b, v)\<leftarrow>ds. if b = a then unat v else 0) else 0
          | Supply c \<Rightarrow> if c = ONT then unat ONT_TOTAL_SUPPLY else 0 | _ \<Rightarrow> 0)
      \<and> NewNativeService (ns_CacheDB ns') sc = Ok ns2
      \<and> token_call env PS ONT INIT_NAME args ns2 = Err ''[Invoke] Native serivce function execute error!: Init ont has been completed!'')
    \<and> newGoverningInit_args b = Ok (dist_enc [(b, ONT_TOTAL_SUPPLY)])"
proof -
  obtain ns' where ns': "token_call env PS ONT INIT_NAME (varbytes_enc (dist_enc ds)) ns = Ok (BYTE_TRUE, ns')"
    "c_ok PS (ns_CacheDB ns')" "typed (storage PS (ns_CacheDB ns'))"
    "ledger PS (ns_CacheDB ns') = (\<lambda>x. case x of Balance c a \<Rightarrow> if c = ONT then amount ds a else 0
        | Supply c \<Rightarrow> if c = ONT then unat ONT_TOTAL_SUPPLY else 0 | _ \<Rightarrow> 0)"
    using ont_init_succeeds [OF assms(1-4) ds len] by blast
  obtain ns2 :: "('s, Handler) NativeService" where ns2: "NewNativeService (ns_CacheDB ns') sc = Ok ns2"
    using assms(3) by (auto simp: NewNativeService_def split: if_splits)
  note nw = NewNativeService_Ok [OF ns2]
  note n = entered_shows [OF nw(4) [OF ns'(2)], of ONT INIT_NAME args]
  have "0 < ledger PS (ns_CacheDB ns') (Supply ONT)"
    by (simp add: ns'(4))
  from Init_once(1) [OF n(1) ns'(3) n(2) token_contract(1) this, of env]
  have "token_call env PS ONT INIT_NAME args ns2 = Err ''[Invoke] Native serivce function execute error!: Init ont has been completed!''"
    by (simp add: token_call_def native_call_eq [OF token_contract(1) nw(2)] init_methods detail_def numeral_2_eq_2 NewDetailErr_def)
  then show ?thesis
    using ns'(1) ns'(4) [unfolded amount_def [abs_def]] ns2 newGoverningInit_enc [of b] b by (auto simp: addrs_def)
qed

theorem ont_init_once_witness:
  "\<exists>ns ns'. token_call example_env map_store ONT INIT_NAME (varbytes_enc (dist_enc [(alice, 999999999), (bob, 1)])) ns = Ok (BYTE_TRUE, ns')
    \<and> ns_CacheDB ns = example_db \<and> ledger map_store (ns_CacheDB ns') (Balance ONT bob) = 1"
proof -
  let ?ds = "[(alice, 999999999), (bob, 1)] :: (Address \<times> u64) list"
  obtain ns :: example_native where ns: "NewNativeService example_db (example_sc 0) = Ok ns"
    using example_service [of example_db 0] by blast
  have ds: "list_all part_ok ?ds" "length ?ds < 2 ^ 63" "(\<Sum>(a, v)\<leftarrow>?ds. unat v) = unat ONT_TOTAL_SUPPLY"
    by (simp_all add: part_ok_def ONT_TOTAL_SUPPLY_def)
  have len: "length (varbytes_enc (dist_enc ?ds)) \<le> maxInt" "length bob = 20"
    using length_arg_enc(1) [of alice] length_arg_enc(1) [of bob] length_arg_enc(1) [of "dist_enc ?ds"] length_arg_enc(2) [of 2]
      length_arg_enc(2) [of 999999999] length_arg_enc(2) [of 1]
    by (simp_all add: dist_enc_def part_enc_def alice_def bob_def maxInt_def)
  show ?thesis
    using ont_init_once [OF example_blank(1) _ ns example_perm ds len, of "[]"] NewNativeService_Ok(1) [OF ns] example_addrs(3)
    by (fastforce simp: example_blank)
qed

text \<open>
  C15. Balances are well-formed numbers. In a reachable state \<open>balanceOf\<close> of either contract, for every address of
  twenty bytes, returns the byte form of the number stored for it, which is at most the total supply of the
  token, and changes nothing.
\<close>

theorem balances_well_formed:
  fixes ns :: "('s, Handler) NativeService"
  assumes "reachable env PS now db" "\<And>d. mset (map_range env d) = mset d" "NewNativeService db sc = Ok ns" "now \<le> elapsed ns"
    and c: "c = ONT \<or> c = ONG" and a: "length a = 20"
  shows "\<exists>v ns'. stored64 (storage PS db (GenBalanceKey c a)) = Ok v \<and> v \<le> (if c = ONT then ONT_TOTAL_SUPPLY else ONG_TOTAL_SUPPLY)
    \<and> token_call env PS c BALANCEOF_NAME (varbytes_enc a) ns = Ok (BigIntToNeoBytes (uint v), ns')
    \<and> storage PS (ns_CacheDB ns') = storage PS db"
proof -
  note s = reachable_safe [OF assms(1,2)]
  note sv = safe_service [OF s assms(3,4)]
  have aa: "a \<in> addrs" "token c" "slot_ok (Balance c a)" "\<not> is_offset (Balance c a)"
    using a c by (auto simp: addrs_def token_def)
  obtain v where v: "stored64 (storage PS db (GenBalanceKey c a)) = Ok v" "unat v = ledger PS db (Balance c a)"
    using typed_ok64 [OF sv(2) aa(3,4)] ok64D [of "storage PS db" "GenBalanceKey c a"] by auto
  have "unat v \<le> unat (if c = ONT then ONT_TOTAL_SUPPLY else ONG_TOTAL_SUPPLY)"
    using v(2) balance_le_issued [OF aa(1), of "ledger PS db" c] sv(3) c by (auto simp: sound_def)
  then have le: "v \<le> (if c = ONT then ONT_TOTAL_SUPPLY else ONG_TOTAL_SUPPLY)"
    by (simp only: word_le_nat_alt)
  have "uint v = int (ledger PS db (Balance c a))"
    by (simp only: uint_nat v(2))
  then show ?thesis
    using v(1) le balance_of_reads [OF s assms(3,4) aa(2,1), of env] by auto
qed

theorem balances_well_formed_witness:
  "\<exists>db ns ns'. reachable example_env map_store 0 db \<and> ns_CacheDB ns = db
    \<and> token_call example_env map_store ONT BALANCEOF_NAME (varbytes_enc alice) ns = Ok (BigIntToNeoBytes 1000000000, ns')"
proof -
  obtain db and ns :: example_native where e: "reachable example_env map_store 0 db" "NewNativeService db (example_sc 1000) = Ok ns"
    "elapsed ns = 1000" "ledger map_store db (Balance ONT alice) = 1000000000"
    using example_transfer by blast
  have "length alice = 20"
    by (simp add: alice_def)
  from balances_well_formed [OF e(1) example_perm e(2) _ _ this, of ONT] obtain v ns' where
    v: "stored64 (storage map_store db (GenBalanceKey ONT alice)) = Ok v"
    "token_call example_env map_store ONT BALANCEOF_NAME (varbytes_enc alice) ns = Ok (BigIntToNeoBytes (uint v), ns')"
    by auto
  have "unat v = 1000000000"
    using e(4) v(1) by (simp add: led_def num64_def alice_def)
  then have "uint v = 1000000000"
    by (simp only: uint_nat)
  then show ?thesis
    using v(2) e(1) NewNativeService_Ok(1) [OF e(2)] by metis
qed

end
