(* ===== verification/GlobalParams.thy ===== *)
theory GlobalParams
  imports Token
begin

text \<open>
  The contract of the global parameters, \<open>src/smartcontract/service/native/global_params\<close>: the parameters with their byte form
  (\<open>states.go\<close>), their storage and the notifications (\<open>utils.go\<close>), and the handlers (\<open>global_params.go\<close>). An operator prepares values
  and puts them in force with a snapshot; an administrator names the operator and hands the office over in two steps.

  Most errors end a handler and carry no state. \<open>ParamInit\<close> ignores the errors of two reads, so the reads of roles return the error
  as a value beside the state.
\<close>

section \<open>states.go\<close>

record Param =
  param_Key :: bytes
  param_Value :: bytes

type_synonym Params = "Param list"

fun SetParam :: "Param \<Rightarrow> Params \<Rightarrow> Params" where
  "SetParam val [] = [val]"
| "SetParam val (p # ps) = (if param_Key p = param_Key val then val # ps else p # SetParam val ps)"

fun GetParam_from :: "int \<Rightarrow> bytes \<Rightarrow> Params \<Rightarrow> int \<times> Param" where
  "GetParam_from index key [] = (-1, \<lparr>param_Key = [], param_Value = []\<rparr>)"
| "GetParam_from index key (p # ps) = (if param_Key p = key then (index, p) else GetParam_from (index + 1) key ps)"

definition GetParam :: "bytes \<Rightarrow> Params \<Rightarrow> int \<times> Param" where
  "GetParam key params = GetParam_from 0 key params"

fun Params_write :: "Params \<Rightarrow> wr" where
  "Params_write [] sink = Ok sink"
| "Params_write (p # ps) sink =
     bind_res (WriteString (param_Key p) sink) (\<lambda>(_, s1).
     bind_res (WriteString (param_Value p) s1) (\<lambda>(_, s2). Params_write ps s2))"

definition Params_Serialization :: "Params \<Rightarrow> wr" where
  "Params_Serialization params sink = bind_res (EncodeVarUint (of_nat (length params)) sink) (Params_write params)"

text \<open>
  The error a truncated list is reported with wraps \<open>err\<close>, which is nil there: the loop ends with a nil error and the parameters read so far.
\<close>

fun Params_loop :: "nat \<Rightarrow> Params \<Rightarrow> Params rd" where
  "Params_loop 0 params source = Ok (params, source)"
| "Params_loop (Suc n) params source =
     bind_res (NextString source) (\<lambda>((key, _, irregular, eof), s1).
       if irregular \<or> eof then
         (case NewDetailErr None ''param config, deserialize param key error!'' of None \<Rightarrow> Ok (params, s1) | Some e \<Rightarrow> Err e)
       else
         bind_res (NextString s1) (\<lambda>((val, _, irregular, eof), s2).
           if irregular \<or> eof then
             (case NewDetailErr None ''param config, deserialize param value error!'' of None \<Rightarrow> Ok (params, s2) | Some e \<Rightarrow> Err e)
           else Params_loop n (params @ [\<lparr>param_Key = key, param_Value = val\<rparr>]) s2))"

definition Params_Deserialization :: "Params rd" where
  "Params_Deserialization source =
     bind_res (detail ''param config, deserialize params length error!'' (DecodeVarUint source)) (\<lambda>(paramNum, s).
       Params_loop (unat paramNum) [] s)"

fun ParamNameList_write :: "bytes list \<Rightarrow> wr" where
  "ParamNameList_write [] sink = Ok sink"
| "ParamNameList_write (n # ns) sink = bind_res (WriteString n sink) (\<lambda>(_, s). ParamNameList_write ns s)"

definition ParamNameList_Serialization :: "bytes list \<Rightarrow> wr" where
  "ParamNameList_Serialization nameList sink = bind_res (EncodeVarUint (of_nat (length nameList)) sink) (ParamNameList_write nameList)"

fun ParamNameList_loop :: "nat \<Rightarrow> bytes list \<Rightarrow> (bytes list) rd" where
  "ParamNameList_loop 0 nameList source = Ok (nameList, source)"
| "ParamNameList_loop (Suc n) nameList source =
     bind_res (NextString source) (\<lambda>((name, _, irregular, eof), s).
       if irregular \<or> eof then
         (case NewDetailErr None ''param config, deserialize param name error!'' of None \<Rightarrow> Ok (nameList, s) | Some e \<Rightarrow> Err e)
       else ParamNameList_loop n (nameList @ [name]) s)"

definition ParamNameList_Deserialization :: "(bytes list) rd" where
  "ParamNameList_Deserialization source =
     bind_res (detail ''param config, deserialize param name list length error!'' (DecodeVarUint source)) (\<lambda>(nameNum, s).
       ParamNameList_loop (unat nameNum) [] s)"

section \<open>utils.go\<close>

definition PARAM :: bytes where "PARAM = str ''param''"
definition PARAM_TRANSFER :: bytes where "PARAM_TRANSFER = str ''transfer''"
definition ADMIN :: bytes where "ADMIN = str ''admin''"
definition OPERATOR :: bytes where "OPERATOR = str ''operator''"

definition getRoleStorageItem :: "Address \<Rightarrow> StorageItem res" where
  "getRoleStorageItem role =
     bind_res (EncodeAddress role NewZeroCopySink) (\<lambda>bf. Ok \<lparr>StateVersion = 0, item_Value = snk_Bytes bf\<rparr>)"

definition getParamStorageItem :: "Params \<Rightarrow> StorageItem res" where
  "getParamStorageItem params =
     bind_res (SerializeToBytes [Params_Serialization params]) (\<lambda>b. Ok \<lparr>StateVersion = 0, item_Value = b\<rparr>)"

definition generateParamKey :: "Address \<Rightarrow> byte \<Rightarrow> bytes" where
  "generateParamKey contract valueType = (let key = contract @ PARAM in key @ [valueType])"

definition generateAdminKey :: "Address \<Rightarrow> bool \<Rightarrow> bytes" where
  "generateAdminKey contract isTransferAdmin = (if isTransferAdmin then contract @ PARAM_TRANSFER else contract @ ADMIN)"

definition GenerateOperatorKey :: "Address \<Rightarrow> bytes" where
  "GenerateOperatorKey contract = contract @ OPERATOR"

definition getStorageParam :: "('s, 'i) PersistStore \<Rightarrow> bytes \<Rightarrow> ('s, 'h, Params) native" where
  "getStorageParam PS key native =
     bind_res (GetStorageItem PS key native) (\<lambda>(item, n1).
       case item of
         None \<Rightarrow> Ok ([], n1)
       | Some it \<Rightarrow> bind_res (Params_Deserialization (NewZeroCopySource (item_Value it))) (\<lambda>(params, _). Ok (params, n1)))"

text \<open>A call whose error is returned as a value, beside the result that comes with it.\<close>

definition attempt :: "'a \<Rightarrow> 'a res \<Rightarrow> ('a \<times> err option) res" where
  "attempt zero m = (case m of Ok x \<Rightarrow> Ok (x, None) | Err e \<Rightarrow> Ok (zero, Some e) | Panic \<Rightarrow> Panic | Diverge \<Rightarrow> Diverge)"

definition GetStorageItem_err :: "('s, 'i) PersistStore \<Rightarrow> bytes \<Rightarrow> ('s, 'h, StorageItem option \<times> err option) native" where
  "GetStorageItem_err PS key native =
     bind_res (c_Get PS key (ns_CacheDB native)) (\<lambda>((store, e), db).
       let n1 = native\<lparr>ns_CacheDB := db\<rparr> in
       case e of
         Some x \<Rightarrow> Ok ((None, NewDetailErr (Some ''storage'') ''[GetStorageItem] storage error!''), n1)
       | None \<Rightarrow>
           (case store of
              None \<Rightarrow> Ok ((None, None), n1)
            | Some b \<Rightarrow>
                bind_res (attempt None (bind_res (detail ''[GetStorageItem] instance doesn't StorageItem!''
                    (StorageItem_Deserialization (NewZeroCopySource b))) (\<lambda>(it, _). Ok (Some it)))) (\<lambda>r. Ok (r, n1))))"

definition GetStorageRole :: "('s, 'i) PersistStore \<Rightarrow> bytes \<Rightarrow> ('s, 'h, Address \<times> err option) native" where
  "GetStorageRole PS key native =
     bind_res (GetStorageItem_err PS key native) (\<lambda>((item, err), n1).
       case item of
         None \<Rightarrow> Ok ((ADDRESS_EMPTY, err), n1)
       | Some it \<Rightarrow>
           if err \<noteq> None then Ok ((ADDRESS_EMPTY, err), n1)
           else
             bind_res (attempt ADDRESS_EMPTY (bind_res (DecodeAddress (NewZeroCopySource (item_Value it))) (\<lambda>(role, _). Ok role)))
               (\<lambda>r. Ok (r, n1)))"

definition param_notify :: "native_env \<Rightarrow> Address \<Rightarrow> iface list \<Rightarrow> ('s, 'h) NativeService \<Rightarrow> ('s, 'h) NativeService" where
  "param_notify env contract states native =
     native\<lparr>ns_Notifications := ns_Notifications native @ [\<lparr>ev_ContractAddress = contract, ev_States = states\<rparr>]\<rparr>"

definition NotifyRoleChange :: "native_env \<Rightarrow> Address \<Rightarrow> bytes \<Rightarrow> Address \<Rightarrow> ('s, 'h) NativeService \<Rightarrow> ('s, 'h) NativeService" where
  "NotifyRoleChange env contract functionName newAddr native =
     (if \<not> EnableEventLog env then native
      else param_notify env contract [IString functionName, IString (ToBase58 env newAddr)] native)"

definition NotifyTransferAdmin ::
  "native_env \<Rightarrow> Address \<Rightarrow> bytes \<Rightarrow> Address \<Rightarrow> Address \<Rightarrow> ('s, 'h) NativeService \<Rightarrow> ('s, 'h) NativeService" where
  "NotifyTransferAdmin env contract functionName originAdmin newAdmin native =
     (if \<not> EnableEventLog env then native
      else param_notify env contract
        [IString functionName, IString (ToBase58 env originAdmin), IString (ToBase58 env newAdmin)] native)"

definition NotifyParamChange :: "native_env \<Rightarrow> Address \<Rightarrow> bytes \<Rightarrow> Params \<Rightarrow> ('s, 'h, unit) native" where
  "NotifyParamChange env contract functionName params native =
     (if \<not> EnableEventLog env then Ok ((), native)
      else
        let paramsString = fold (\<lambda>param acc. acc @ param_Key param @ str '','' @ param_Value param @ str '';'') params []
        in panic_unless (length paramsString \<ge> 1)
             (Ok ((), param_notify env contract
               [IString functionName, IString (take (length paramsString - 1) paramsString)] native)))"

section \<open>global_params.go\<close>

definition CURRENT_VALUE :: byte where "CURRENT_VALUE = 0x00"
definition PREPARE_VALUE :: byte where "PREPARE_VALUE = 0x01"
definition ACCEPT_ADMIN_NAME :: bytes where "ACCEPT_ADMIN_NAME = str ''acceptAdmin''"
definition TRANSFER_ADMIN_NAME :: bytes where "TRANSFER_ADMIN_NAME = str ''transferAdmin''"
definition SET_OPERATOR :: bytes where "SET_OPERATOR = str ''setOperator''"
definition SET_GLOBAL_PARAM_NAME :: bytes where "SET_GLOBAL_PARAM_NAME = str ''setGlobalParam''"
definition GET_GLOBAL_PARAM_NAME :: bytes where "GET_GLOBAL_PARAM_NAME = str ''getGlobalParam''"
definition CREATE_SNAPSHOT_NAME :: bytes where "CREATE_SNAPSHOT_NAME = str ''createSnapshot''"

definition ParamInit :: "('s, 'i) PersistStore \<Rightarrow> ('s, 'h, bytes) native" where
  "ParamInit PS native =
     bind_res (current_contract native) (\<lambda>contract.
     bind_res (GetStorageRole PS (generateAdminKey contract False) native) (\<lambda>((storageAdmin, _), n1).
     bind_res (GetStorageRole PS (generateAdminKey contract False) n1) (\<lambda>((storageOperator, _), n2).
       if storageAdmin \<noteq> ADDRESS_EMPTY \<or> storageOperator \<noteq> ADDRESS_EMPTY then
         Err ''init param, admin or operator has already existed!''
       else
         bind_res (detail ''init param, read native input failed!'' (DecodeVarBytes (NewZeroCopySource (ns_Input native)))) (\<lambda>(args, _).
         bind_res (detail ''init param, deserialize params failed!'' (Params_Deserialization (NewZeroCopySource args)))
           (\<lambda>(initParams, source).
         bind_res (put_item (generateParamKey contract CURRENT_VALUE) (getParamStorageItem initParams) n2) (\<lambda>(_, n3).
         bind_res (put_item (generateParamKey contract PREPARE_VALUE) (getParamStorageItem initParams) n3) (\<lambda>(_, n4).
         bind_res (detail ''init param, deserialize admin failed!'' (DecodeAddress source)) (\<lambda>(admin, _).
         bind_res (put_item (generateAdminKey contract False) (getRoleStorageItem admin) n4) (\<lambda>(_, n5).
           let operator = admin in
         bind_res (put_item (GenerateOperatorKey contract) (getRoleStorageItem operator) n5) (\<lambda>(_, n6).
           Ok (BYTE_TRUE, n6)))))))))))"

definition AcceptAdmin :: "native_env \<Rightarrow> ('s, 'i) PersistStore \<Rightarrow> ('s, 'h, bytes) native" where
  "AcceptAdmin env PS native =
     (case DecodeAddress (NewZeroCopySource (ns_Input native)) of
        Err e \<Rightarrow> Err ''accept admin, deserialize admin failed!'' | Panic \<Rightarrow> Panic | Diverge \<Rightarrow> Diverge
      | Ok (destinationAdmin, _) \<Rightarrow>
          if \<not> CheckWitness (env_ripemd160 env) destinationAdmin (ContextRef native) then Err ''accept admin, authentication failed!''
          else
            bind_res (current_contract native) (\<lambda>contract.
            bind_res (GetStorageRole PS (generateAdminKey contract True) native) (\<lambda>((transferAdmin, err), n1).
              if err \<noteq> None \<or> transferAdmin = ADDRESS_EMPTY \<or> transferAdmin \<noteq> destinationAdmin then
                Err ''accept admin, destination account hasn't been approved''
              else
                bind_res (delete_item (generateAdminKey contract True) n1) (\<lambda>(_, n2).
                bind_res (put_item (generateAdminKey contract False) (getRoleStorageItem destinationAdmin) n2) (\<lambda>(_, n3).
                  Ok (BYTE_TRUE, NotifyRoleChange env contract ACCEPT_ADMIN_NAME destinationAdmin n3))))))"

definition TransferAdmin :: "native_env \<Rightarrow> ('s, 'i) PersistStore \<Rightarrow> ('s, 'h, bytes) native" where
  "TransferAdmin env PS native =
     bind_res (current_contract native) (\<lambda>contract.
     bind_res (GetStorageRole PS (generateAdminKey contract False) native) (\<lambda>((admin, err), n1).
       if err \<noteq> None \<or> admin = ADDRESS_EMPTY then Err ''transfer admin, admin doesn't exist''
       else if \<not> CheckWitness (env_ripemd160 env) admin (ContextRef native) then Err ''transfer admin, authentication failed!''
       else
         (case DecodeAddress (NewZeroCopySource (ns_Input native)) of
            Err e \<Rightarrow> Err ''transfer admin, deserialize admin failed!'' | Panic \<Rightarrow> Panic | Diverge \<Rightarrow> Diverge
          | Ok (destinationAdmin, _) \<Rightarrow>
              bind_res (put_item (generateAdminKey contract True) (getRoleStorageItem destinationAdmin) n1) (\<lambda>(_, n2).
                Ok (BYTE_TRUE, NotifyTransferAdmin env contract TRANSFER_ADMIN_NAME admin destinationAdmin n2)))))"

definition SetOperator :: "native_env \<Rightarrow> ('s, 'i) PersistStore \<Rightarrow> ('s, 'h, bytes) native" where
  "SetOperator env PS native =
     bind_res (current_contract native) (\<lambda>contract.
     bind_res (GetStorageRole PS (generateAdminKey contract False) native) (\<lambda>((admin, err), n1).
       if err \<noteq> None \<or> admin = ADDRESS_EMPTY then Err ''set operator, admin doesn't exist''
       else if \<not> CheckWitness (env_ripemd160 env) admin (ContextRef native) then Err ''set operator, authentication failed!''
       else
         (case DecodeAddress (NewZeroCopySource (ns_Input native)) of
            Err e \<Rightarrow> Err ''set operator, deserialize operator failed!'' | Panic \<Rightarrow> Panic | Diverge \<Rightarrow> Diverge
          | Ok (destinationOperator, _) \<Rightarrow>
              bind_res (put_item (GenerateOperatorKey contract) (getRoleStorageItem destinationOperator) n1) (\<lambda>(_, n2).
                Ok (BYTE_TRUE, NotifyRoleChange env contract SET_OPERATOR destinationOperator n2)))))"

definition SetGlobalParam :: "native_env \<Rightarrow> ('s, 'i) PersistStore \<Rightarrow> ('s, 'h, bytes) native" where
  "SetGlobalParam env PS native =
     bind_res (current_contract native) (\<lambda>contract.
     bind_res (GetStorageRole PS (GenerateOperatorKey contract) native) (\<lambda>((operator, err), n1).
       if err \<noteq> None \<or> operator = ADDRESS_EMPTY then Err ''set param, operator doesn't exist''
       else if \<not> CheckWitness (env_ripemd160 env) operator (ContextRef native) then Err ''set param, authentication failed!''
       else
         (case Params_Deserialization (NewZeroCopySource (ns_Input native)) of
            Err e \<Rightarrow> Err ''set param, deserialize failed!'' | Panic \<Rightarrow> Panic | Diverge \<Rightarrow> Diverge
          | Ok (params, _) \<Rightarrow>
              if length params = 0 then Err ''set param, params is nil!''
              else
                bind_res (detail ''set param, read storage prepare param error!''
                    (getStorageParam PS (generateParamKey contract PREPARE_VALUE) n1)) (\<lambda>(storageParams, n2).
                  let storageParams' = fold SetParam params storageParams in
                bind_res (put_item (generateParamKey contract PREPARE_VALUE) (getParamStorageItem storageParams') n2) (\<lambda>(_, n3).
                bind_res (NotifyParamChange env contract SET_GLOBAL_PARAM_NAME params n3) (\<lambda>(_, n4). Ok (BYTE_TRUE, n4)))))))"

fun GetGlobalParam_loop :: "bytes list \<Rightarrow> Params \<Rightarrow> Params \<Rightarrow> Params" where
  "GetGlobalParam_loop [] storageParams params = params"
| "GetGlobalParam_loop (paramName # names) storageParams params =
     (let (index, val) = GetParam paramName storageParams in
      if index \<ge> 0 then GetGlobalParam_loop names storageParams (SetParam val params)
      else GetGlobalParam_loop names storageParams (SetParam \<lparr>param_Key = paramName, param_Value = []\<rparr> params))"

definition GetGlobalParam :: "('s, 'i) PersistStore \<Rightarrow> ('s, 'h, bytes) native" where
  "GetGlobalParam PS native =
     (case ParamNameList_Deserialization (NewZeroCopySource (ns_Input native)) of
        Err e \<Rightarrow> Err ''get param, deserialize failed!'' | Panic \<Rightarrow> Panic | Diverge \<Rightarrow> Diverge
      | Ok (paramNameList, _) \<Rightarrow>
          if length paramNameList = 0 then Err ''get param, required params is nil!''
          else
            bind_res (current_contract native) (\<lambda>contract.
            bind_res (detail ''get param, read storage current param error!''
                (getStorageParam PS (generateParamKey contract CURRENT_VALUE) native)) (\<lambda>(storageParams, n1).
              if length storageParams = 0 then Err ''get param, there are no params!''
              else
                bind_res (SerializeToBytes [Params_Serialization (GetGlobalParam_loop paramNameList storageParams [])])
                  (\<lambda>b. Ok (b, n1)))))"

definition CreateSnapshot :: "native_env \<Rightarrow> ('s, 'i) PersistStore \<Rightarrow> ('s, 'h, bytes) native" where
  "CreateSnapshot env PS native =
     bind_res (current_contract native) (\<lambda>contract.
     bind_res (GetStorageRole PS (GenerateOperatorKey contract) native) (\<lambda>((operator, err), n1).
       if err \<noteq> None \<or> operator = ADDRESS_EMPTY then Err ''create snapshot, operator doesn't exist''
       else if \<not> CheckWitness (env_ripemd160 env) operator (ContextRef native) then Err ''create snapshot, authentication failed!''
       else
         bind_res (detail ''create snapshot, read storage prepare param error!''
             (getStorageParam PS (generateParamKey contract PREPARE_VALUE) n1)) (\<lambda>(prepareParam, n2).
           if length prepareParam = 0 then Err ''create snapshot, prepare param doesn't exist!''
           else
             bind_res (put_item (generateParamKey contract CURRENT_VALUE) (getParamStorageItem prepareParam) n2) (\<lambda>(_, n3).
             bind_res (NotifyParamChange env contract CREATE_SNAPSHOT_NAME prepareParam n3) (\<lambda>(_, n4). Ok (BYTE_TRUE, n4))))))"

datatype ParamHandler =
  H_ParamInit | H_AcceptAdmin | H_TransferAdmin | H_SetOperator | H_SetGlobalParam | H_GetGlobalParam | H_CreateSnapshot

definition RegisterParamContract :: "('s, ParamHandler) NativeService \<Rightarrow> ('s, ParamHandler) NativeService" where
  "RegisterParamContract native = fold (\<lambda>(name, h). Register name h)
     [(INIT_NAME, H_ParamInit), (ACCEPT_ADMIN_NAME, H_AcceptAdmin), (TRANSFER_ADMIN_NAME, H_TransferAdmin),
      (SET_OPERATOR, H_SetOperator), (SET_GLOBAL_PARAM_NAME, H_SetGlobalParam), (GET_GLOBAL_PARAM_NAME, H_GetGlobalParam),
      (CREATE_SNAPSHOT_NAME, H_CreateSnapshot)] native"

definition InitGlobalParams :: "('s, ParamHandler) registry \<Rightarrow> ('s, ParamHandler) registry" where
  "InitGlobalParams Contracts = Contracts(ParamContractAddress \<mapsto> RegisterParamContract)"

fun param_run :: "native_env \<Rightarrow> ('s, 'i) PersistStore \<Rightarrow> ParamHandler \<Rightarrow> ('s, ParamHandler, bytes) native" where
  "param_run env PS H_ParamInit = ParamInit PS"
| "param_run env PS H_AcceptAdmin = AcceptAdmin env PS"
| "param_run env PS H_TransferAdmin = TransferAdmin env PS"
| "param_run env PS H_SetOperator = SetOperator env PS"
| "param_run env PS H_SetGlobalParam = SetGlobalParam env PS"
| "param_run env PS H_GetGlobalParam = GetGlobalParam PS"
| "param_run env PS H_CreateSnapshot = CreateSnapshot env PS"

text \<open>A call of the contract from outside.\<close>

definition param_call :: "native_env \<Rightarrow> ('s, 'i) PersistStore \<Rightarrow> bytes \<Rightarrow> bytes \<Rightarrow> ('s, ParamHandler, bytes) native" where
  "param_call env PS method args = NativeCall (InitGlobalParams Map.empty) (param_run env PS) ParamContractAddress method args"

end
