(* ===== verification/ParamLedger.thy ===== *)
theory ParamLedger
  imports GlobalParams
begin

text \<open>
  What the contract of the global parameters promises. Its storage stands for an abstract state: three offices and two maps from names to
  values, those prepared and those in force. Every call acts as a step of a machine on this state, or fails where the machine has no step.
\<close>

section \<open>The byte forms\<close>

definition param_enc :: "Param \<Rightarrow> bytes" where
  "param_enc p = varbytes_enc (param_Key p) @ varbytes_enc (param_Value p)"

definition Params_enc :: "Params \<Rightarrow> bytes" where
  "Params_enc ps = VarUint_arg_enc (of_nat (length ps)) @ concat (map param_enc ps)"

lemma Params_writer: "writer (Params_write ps) (concat (map param_enc ps))"
proof (induction ps)
  case Nil
  then show ?case
    using writer_return by (simp add: Params_write.simps(1) [abs_def])
next
  case (Cons p ps)
  have "Params_write (p # ps) = (\<lambda>s. bind_res (bind_res (WriteString (param_Key p) s) (\<lambda>(_, s'). Ok s'))
      (\<lambda>s. bind_res (bind_res (WriteString (param_Value p) s) (\<lambda>(_, s'). Ok s')) (Params_write ps)))"
    by (intro ext) (simp flip: bind_split)
  then show ?case
    using writer_bind [OF writer_WriteString writer_bind [OF writer_WriteString Cons.IH]] by (simp add: param_enc_def)
qed

lemma Params_loop_reads:
  assumes "wf_src s" "rest s = concat (map param_enc ps) @ r"
  shows "Params_loop (length ps) acc s = Ok (acc @ ps, advance (length (concat (map param_enc ps))) s)"
  using assms
proof (induction ps arbitrary: acc s)
  case (Cons p ps)
  then have "rest s = varbytes_enc (param_Key p) @ varbytes_enc (param_Value p) @ concat (map param_enc ps) @ r"
    by (simp add: param_enc_def [of p])
  note k = NextVarBytes_prefix [OF Cons.prems(1) this] advance_prefix [OF Cons.prems(1) this]
  note v = NextVarBytes_prefix [OF k(2,3)] advance_prefix [OF k(2,3)]
  show ?case
    using k(1) v(1) Cons.IH [OF v(2,3), of "acc @ [p]"]
    by (cases p) (simp add: NextString_def param_enc_def [of "Param.make _ _", unfolded Param.defs] advance_advance add_ac)
qed simp

lemma count_u64:
  assumes "length xs < 2 ^ 63"
  shows "unat (of_nat (length xs) :: u64) = length xs" "(of_nat (length xs) :: u64) < 0x8000000000000000"
  using assms by (simp_all add: of_nat_less_u64 word_less_nat_alt)

interpretation params: serializable Params_Serialization Params_Deserialization Params_enc "\<lambda>ps. length ps < 2 ^ 63"
proof (rule serializable.intro)
  fix ps :: Params
  assume ps: "length ps < 2 ^ 63"
  show "writer (Params_Serialization ps) (Params_enc ps)"
    using writer_bind [OF arg_uint.writes [OF count_u64(2) [OF ps]] Params_writer]
    by (simp add: Params_Serialization_def [abs_def] Params_enc_def)
  fix s r
  assume wf: "wf_src s" and s: "rest s = Params_enc ps @ r"
  then have "rest s = VarUint_arg_enc (of_nat (length ps)) @ concat (map param_enc ps) @ r"
    by (simp add: Params_enc_def)
  note b = arg_uint.reads_then [OF count_u64(2) [OF ps] wf this]
  show "Params_Deserialization s = Ok (ps, advance (length (Params_enc ps)) s)"
    using b(1) Params_loop_reads [OF b(2,3), of "[]"] count_u64(1) [OF ps]
    by (simp add: Params_Deserialization_def detail_def Params_enc_def advance_advance)
qed

text \<open>Decoding returns, and what it returns came from the bytes.\<close>

definition psize :: "Params \<Rightarrow> nat" where
  "psize ps = length (concat (map param_enc ps))"

lemma psize_simps [simp]: "psize [] = 0" "psize (p # ps) = length (param_enc p) + psize ps" "psize (ps @ qs) = psize ps + psize qs"
  by (simp_all add: psize_def)

lemma length_le_psize: "length ps \<le> psize ps"
proof (induction ps)
  case (Cons p ps)
  have "1 \<le> length (param_enc p)"
    by (simp add: param_enc_def varbytes_enc_def varuint_enc_def)
  with Cons show ?case
    by simp
qed simp

lemma NextString_cases:
  assumes "wf_src s"
  obtains b n irregular eof s' where "NextString s = Ok ((b, n, irregular, eof), s')" "wf_src s'" "length (rest s') \<le> length (rest s)"
    "\<not> irregular \<Longrightarrow> \<not> eof \<Longrightarrow> length (rest s) = length (varbytes_enc b) + length (rest s')"
proof -
  obtain b n irregular eof s' where r: "NextVarBytes s = Ok ((b, n, irregular, eof), s')" "wf_src s'"
    using rd_varbytes.safe [OF assms, unfolded reads_safely_def] by (metis prod_cases4)
  moreover have "length (rest s') \<le> length (rest s)"
    using rd_varbytes.keeps_bytes [OF assms r(1)] rd_varbytes.never_back [OF assms r(1)]
    by (simp add: length_rest word_le_nat_alt diff_le_mono2)
  moreover have "length (rest s) = length (varbytes_enc b) + length (rest s')" if "\<not> irregular" "\<not> eof"
    using NextVarBytes_inv [OF assms, of b n s'] r(1) that by simp
  ultimately show ?thesis
    using that by (simp add: NextString_def)
qed

lemma Params_loop_returns:
  "wf_src s \<Longrightarrow> \<exists>ps s'. Params_loop n acc s = Ok (ps, s') \<and> wf_src s' \<and> psize ps + length (rest s') \<le> psize acc + length (rest s)"
proof (induction n arbitrary: acc s)
  case (Suc n)
  obtain k i irr eof s1 where 1: "NextString s = Ok ((k, i, irr, eof), s1)" "wf_src s1" "length (rest s1) \<le> length (rest s)"
    "\<not> irr \<Longrightarrow> \<not> eof \<Longrightarrow> length (rest s) = length (varbytes_enc k) + length (rest s1)"
    using NextString_cases [OF Suc.prems] by metis
  obtain v j irr' eof' s2 where 2: "NextString s1 = Ok ((v, j, irr', eof'), s2)" "wf_src s2" "length (rest s2) \<le> length (rest s1)"
    "\<not> irr' \<Longrightarrow> \<not> eof' \<Longrightarrow> length (rest s1) = length (varbytes_enc v) + length (rest s2)"
    using NextString_cases [OF 1(2)] by metis
  show ?case
    using 1 2 Suc.IH [OF 2(2), of "acc @ [\<lparr>param_Key = k, param_Value = v\<rparr>]"]
    by (auto simp: NewDetailErr_def param_enc_def)
qed simp

lemma decode_returns: "decodes d \<Longrightarrow> wf_src s \<Longrightarrow> (\<exists>x s'. d s = Ok (x, s') \<and> wf_src s') \<or> (\<exists>e. d s = Err e)"
  by (cases "d s") (auto simp: decodes_def returns_def)

lemma decode_shrinks:
  assumes "wf_src s" "DecodeVarBytes s = Ok (b, s')"
  shows "length (rest s) = length (varbytes_enc b) + length (rest s')" "length b \<le> length (rest s)"
proof -
  obtain n where "NextVarBytes s = Ok ((b, n, False, False), s')"
    using assms(2) by (auto simp: DecodeVarBytes_def bind_res_Ok_iff split: if_splits prod.splits)
  then have r: "rest s = varbytes_enc b @ rest s'"
    using NextVarBytes_inv [OF assms(1)] by blast
  then show "length (rest s) = length (varbytes_enc b) + length (rest s')" "length b \<le> length (rest s)"
    by (simp_all add: varbytes_enc_def)
qed

lemma Params_Deserialization_returns:
  assumes "wf_src s"
  shows "(\<exists>ps s'. Params_Deserialization s = Ok (ps, s') \<and> wf_src s' \<and> psize ps \<le> length (rest s)) \<or> (\<exists>e. Params_Deserialization s = Err e)"
  using decode_returns [OF decodes_args(3) assms]
proof (elim disjE exE conjE)
  fix v s1
  assume v: "DecodeVarUint s = Ok (v, s1)" "wf_src s1"
  have "length (rest s1) \<le> length (rest s)"
    using decode_shrinks(1) [OF assms] v(1) by (fastforce simp: DecodeVarUint_via bind_res_Ok_iff split: if_splits)
  then show ?thesis
    using v Params_loop_returns [OF v(2), of "unat v" "[]"] by (fastforce simp: Params_Deserialization_def detail_def)
qed (simp add: Params_Deserialization_def detail_def)

lemma ParamNameList_loop_returns:
  "wf_src s \<Longrightarrow> \<exists>ns s'. ParamNameList_loop n acc s = Ok (ns, s') \<and> length (concat (map varbytes_enc ns)) \<le> length (concat (map varbytes_enc acc)) + length (rest s)"
proof (induction n arbitrary: acc s)
  case (Suc n)
  obtain k i irr eof s1 where 1: "NextString s = Ok ((k, i, irr, eof), s1)" "wf_src s1"
    "\<not> irr \<Longrightarrow> \<not> eof \<Longrightarrow> length (rest s) = length (varbytes_enc k) + length (rest s1)"
    using NextString_cases [OF Suc.prems] by metis
  show ?case
    using 1 Suc.IH [OF 1(2), of "acc @ [k]"] by (auto simp: NewDetailErr_def)
qed simp

lemma DecodeVarUint_shrinks: "wf_src s \<Longrightarrow> DecodeVarUint s = Ok (v, s') \<Longrightarrow> length (rest s') \<le> length (rest s)"
  using decode_shrinks(1) [of s] by (fastforce simp: DecodeVarUint_via bind_res_Ok_iff split: if_splits)

lemma ParamNameList_Deserialization_returns:
  assumes "wf_src s"
  shows "(\<exists>ns s'. ParamNameList_Deserialization s = Ok (ns, s') \<and> length (concat (map varbytes_enc ns)) \<le> length (rest s))
    \<or> (\<exists>e. ParamNameList_Deserialization s = Err e)"
  using decode_returns [OF decodes_args(3) assms]
proof (elim disjE exE conjE)
  fix v s1
  assume v: "DecodeVarUint s = Ok (v, s1)" "wf_src s1"
  then show ?thesis
    using DecodeVarUint_shrinks [OF assms v(1)] ParamNameList_loop_returns [OF v(2), of "unat v" "[]"]
    by (fastforce simp: ParamNameList_Deserialization_def detail_def)
qed (simp add: ParamNameList_Deserialization_def detail_def)

section \<open>Parameters in storage\<close>

definition role_item :: "Address \<Rightarrow> bytes" where
  "role_item a = StorageItem_enc \<lparr>StateVersion = 0, item_Value = varbytes_enc a\<rparr>"

definition params_item :: "Params \<Rightarrow> bytes" where
  "params_item ps = StorageItem_enc \<lparr>StateVersion = 0, item_Value = Params_enc ps\<rparr>"

text \<open>What the bytes under a key stand for; the parameters take at most \<open>n\<close> bytes.\<close>

definition holds_role :: "bytes \<Rightarrow> Address \<Rightarrow> bool" where
  "holds_role b a \<longleftrightarrow> length a = 20 \<and> (b = [] \<and> a = ADDRESS_EMPTY \<or> b = role_item a)"

definition holds_params :: "nat \<Rightarrow> bytes \<Rightarrow> Params \<Rightarrow> bool" where
  "holds_params n b ps \<longleftrightarrow> psize ps \<le> n \<and> (b = [] \<and> ps = [] \<or> b = params_item ps)"

lemma holds_simps [simp]: "length a = 20 \<Longrightarrow> holds_role (role_item a) a" "holds_role [] ADDRESS_EMPTY" "holds_params n (params_item ps) ps \<longleftrightarrow> psize ps \<le> n"
  "holds_params n [] []"
  by (auto simp: holds_role_def holds_params_def ADDRESS_EMPTY_def)

lemma GetStorageItem_shows:
  assumes "ns_shows PS ns f"
  shows "\<exists>db. ns_shows PS (ns\<lparr>ns_CacheDB := db\<rparr>) f
    \<and> (f k = [] \<longrightarrow> GetStorageItem PS k ns = Ok (None, ns\<lparr>ns_CacheDB := db\<rparr>) \<and> GetStorageItem_err PS k ns = Ok ((None, None), ns\<lparr>ns_CacheDB := db\<rparr>))
    \<and> (\<forall>val. length val + 18 \<le> sink_max \<longrightarrow> f k = StorageItem_enc \<lparr>StateVersion = 0, item_Value = val\<rparr> \<longrightarrow>
        GetStorageItem PS k ns = Ok (Some \<lparr>StateVersion = 0, item_Value = val\<rparr>, ns\<lparr>ns_CacheDB := db\<rparr>)
        \<and> GetStorageItem_err PS k ns = Ok ((Some \<lparr>StateVersion = 0, item_Value = val\<rparr>, None), ns\<lparr>ns_CacheDB := db\<rparr>))"
proof -
  obtain db where db: "c_Get PS k (ns_CacheDB ns) = Ok ((nil_if_empty (f k), None), db)" "c_ok PS db"
    "c_view PS db = c_view PS (ns_CacheDB ns)"
    using assms c_get_view [of PS "ns_CacheDB ns" ST_STORAGE k] by (auto simp: ns_shows_def c_Get_def)
  have "StorageItem_enc it \<noteq> []" for it
    by (simp add: StorageItem_enc_def)
  moreover have "ns_shows PS (ns\<lparr>ns_CacheDB := db\<rparr>) f"
    using db assms by (simp add: ns_shows_def)
  ultimately show ?thesis
    using db(1) item_reads
    by (intro exI [of _ db]) (fastforce simp: GetStorageItem_def GetStorageItem_err_def nil_if_empty_def detail_def attempt_def Let_def)
qed

lemma GetStorageRole_shows:
  assumes "ns_shows PS ns f" "holds_role (f k) a"
  shows "\<exists>db. GetStorageRole PS k ns = Ok ((a, None), ns\<lparr>ns_CacheDB := db\<rparr>) \<and> ns_shows PS (ns\<lparr>ns_CacheDB := db\<rparr>) f"
proof -
  have a: "length a = 20" and small: "length (varbytes_enc a) + 18 \<le> sink_max"
    using assms(2) length_arg_enc(1) [of a] by (simp_all add: holds_role_def sink_max_def)
  then have "wf_src (NewZeroCopySource (varbytes_enc a))"
    by (intro wf_NewZeroCopySource) (simp add: sink_max_def maxInt_def)
  then have "\<exists>s. DecodeAddress (NewZeroCopySource (varbytes_enc a)) = Ok (a, s)"
    using arg_addr.reads [OF a, of "NewZeroCopySource (varbytes_enc a)" "[]"] by simp
  then show ?thesis
    using GetStorageItem_shows [OF assms(1), of k] assms(2) small
    by (auto simp: GetStorageRole_def holds_role_def role_item_def attempt_def)
qed

lemma params_small: "psize ps + 36 \<le> sink_max \<Longrightarrow> length ps < 2 ^ 63" "psize ps + 36 \<le> sink_max \<Longrightarrow> length (Params_enc ps) + 18 \<le> sink_max"
  using length_le_psize [of ps] length_arg_enc(2) [of "of_nat (length ps)"] by (simp_all add: sink_max_def Params_enc_def psize_def)

lemma getStorageParam_shows:
  assumes "ns_shows PS ns f" "holds_params n (f k) ps" "n + 36 \<le> sink_max"
  shows "\<exists>db. getStorageParam PS k ns = Ok (ps, ns\<lparr>ns_CacheDB := db\<rparr>) \<and> ns_shows PS (ns\<lparr>ns_CacheDB := db\<rparr>) f"
proof -
  have "psize ps + 36 \<le> sink_max"
    using assms(2,3) by (simp add: holds_params_def)
  note small = params_small [OF this]
  then have "wf_src (NewZeroCopySource (Params_enc ps))"
    by (intro wf_NewZeroCopySource) (simp add: sink_max_def maxInt_def)
  then have "\<exists>s. Params_Deserialization (NewZeroCopySource (Params_enc ps)) = Ok (ps, s)"
    using params.reads [OF small(1), of "NewZeroCopySource (Params_enc ps)" "[]"] by simp
  then show ?thesis
    using GetStorageItem_shows [OF assms(1), of k] assms(2) small(2)
    by (auto simp: getStorageParam_def holds_params_def params_item_def)
qed

lemma put_role_shows:
  assumes "ns_shows PS ns f" "length a = 20"
  shows "\<exists>db. put_item k (getRoleStorageItem a) ns = Ok ((), ns\<lparr>ns_CacheDB := db\<rparr>) \<and> ns_shows PS (ns\<lparr>ns_CacheDB := db\<rparr>) (f(k := role_item a))"
proof -
  have small: "length (varbytes_enc a) + 18 \<le> sink_max"
    using assms(2) length_arg_enc(1) [of a] by (simp add: sink_max_def)
  then have "getRoleStorageItem a = Ok \<lparr>StateVersion = 0, item_Value = varbytes_enc a\<rparr>"
    using writer.to_fresh_sink [OF arg_addr.writes [OF assms(2)]] by (auto simp: getRoleStorageItem_def)
  then show ?thesis
    using put_item_shows [OF assms(1) small, of k] by (simp add: role_item_def)
qed

lemma Params_bytes: "length ps < 2 ^ 63 \<Longrightarrow> length (Params_enc ps) + 8 \<le> sink_max \<Longrightarrow> SerializeToBytes [Params_Serialization ps] = Ok (Params_enc ps)"
  using writer.to_fresh_sink [OF params.writes] by (fastforce simp: SerializeToBytes_def)

lemma put_params_shows:
  assumes "ns_shows PS ns f" "psize ps + 36 \<le> sink_max"
  shows "\<exists>db. put_item k (getParamStorageItem ps) ns = Ok ((), ns\<lparr>ns_CacheDB := db\<rparr>) \<and> ns_shows PS (ns\<lparr>ns_CacheDB := db\<rparr>) (f(k := params_item ps))"
  using put_item_shows [OF assms(1) params_small(2) [OF assms(2)], of k] Params_bytes params_small [OF assms(2)]
  by (simp add: params_item_def getParamStorageItem_def)

section \<open>Parameters as a map\<close>

definition pmap :: "Params \<Rightarrow> bytes \<rightharpoonup> bytes" where
  "pmap ps = map_of (map (\<lambda>p. (param_Key p, param_Value p)) ps)"

lemma pmap_simps [simp]: "pmap [] = Map.empty" "pmap (p # ps) = (pmap ps)(param_Key p \<mapsto> param_Value p)"
  by (simp_all add: pmap_def)

lemma pmap_empty [simp]: "pmap ps = Map.empty \<longleftrightarrow> ps = []"
  by (cases ps) simp_all

lemma pmap_SetParam [simp]: "pmap (SetParam p ps) = (pmap ps)(param_Key p \<mapsto> param_Value p)"
  by (induction ps) (auto simp: fun_upd_twist)

lemma psize_SetParam: "psize (SetParam p ps) \<le> length (param_enc p) + psize ps"
  by (induction ps) auto

definition assign :: "Params \<Rightarrow> (bytes \<rightharpoonup> bytes) \<Rightarrow> bytes \<rightharpoonup> bytes" where
  "assign ps m = fold (\<lambda>p m. m(param_Key p \<mapsto> param_Value p)) ps m"

lemma pmap_fold_SetParam: "pmap (fold SetParam qs ps) = assign qs (pmap ps)"
  unfolding assign_def by (induction qs arbitrary: ps) simp_all

lemma psize_fold_SetParam: "psize (fold SetParam qs ps) \<le> psize qs + psize ps"
proof (induction qs arbitrary: ps)
  case (Cons q qs)
  show ?case
    using Cons.IH [of "SetParam q ps"] psize_SetParam [of q ps] by simp
qed simp

lemma fold_SetParam_nonempty: "qs \<noteq> [] \<Longrightarrow> fold SetParam qs ps \<noteq> []"
proof -
  have "SetParam p ps \<noteq> []" for p ps
    by (cases ps) auto
  then have "fold SetParam qs ps = [] \<longrightarrow> qs = [] \<and> ps = []"
    by (induction qs arbitrary: ps) auto
  then show "qs \<noteq> [] \<Longrightarrow> fold SetParam qs ps \<noteq> []"
    by blast
qed

lemma GetParam_from_map:
  "case pmap ps key of None \<Rightarrow> fst (GetParam_from i key ps) = - 1
   | Some v \<Rightarrow> fst (GetParam_from i key ps) \<ge> i \<and> snd (GetParam_from i key ps) = \<lparr>param_Key = key, param_Value = v\<rparr>"
proof (induction ps arbitrary: i)
  case (Cons p ps)
  show ?case
    using Cons.IH [of "i + 1"] by (cases p) (auto split: option.splits)
qed simp

text \<open>The answer to a question for names: each once, in the order of the question, an empty value where there is none.\<close>

definition valued :: "(bytes \<rightharpoonup> bytes) \<Rightarrow> bytes \<Rightarrow> Param" where
  "valued m name = \<lparr>param_Key = name, param_Value = (case m name of None \<Rightarrow> [] | Some v \<Rightarrow> v)\<rparr>"

definition answers :: "(bytes \<rightharpoonup> bytes) \<Rightarrow> bytes list \<Rightarrow> Params" where
  "answers m names = map (valued m) (rev (remdups (rev names)))"

lemma SetParam_valued: "SetParam (valued m x) (map (valued m) xs) = map (valued m) (if x \<in> set xs then xs else xs @ [x])"
  by (induction xs) (auto simp: valued_def)

lemma GetGlobalParam_loop_answers:
  "GetGlobalParam_loop names ps (answers (pmap ps) asked) = answers (pmap ps) (asked @ names)"
proof (induction names arbitrary: asked)
  case (Cons x names)
  have "SetParam (valued (pmap ps) x) (answers (pmap ps) asked) = answers (pmap ps) (asked @ [x])"
    by (simp add: answers_def SetParam_valued)
  moreover have "GetGlobalParam_loop (x # names) ps acc = GetGlobalParam_loop names ps (SetParam (valued (pmap ps) x) acc)" for acc
    using GetParam_from_map [where i = 0 and key = x and ps = ps] by (auto simp: GetParam_def valued_def case_prod_unfold Let_def split: option.splits)
  ultimately show ?case
    using Cons.IH [of "asked @ [x]"] by simp
qed simp

text \<open>The answer is no longer than the question and what is stored.\<close>

lemma answers_values:
  "finite A \<Longrightarrow> (\<Sum>x\<in>A. length (varbytes_enc (param_Value (valued (pmap ps) x)))) \<le> card A + psize ps"
proof (induction ps)
  case (Cons p ps)
  let ?h = "\<lambda>ps x. length (varbytes_enc (param_Value (valued (pmap ps) x)))"
  have "?h (p # ps) x \<le> (if x = param_Key p then length (param_enc p) else 0) + ?h ps x" for x
    by (simp add: valued_def param_enc_def)
  then have "sum (?h (p # ps)) A \<le> (\<Sum>x\<in>A. (if x = param_Key p then length (param_enc p) else 0) + ?h ps x)"
    by (intro sum_mono) blast
  also have "\<dots> \<le> length (param_enc p) + sum (?h ps) A"
    using Cons.prems by (simp add: sum.distrib)
  finally show ?case
    using Cons.IH [OF Cons.prems] unfolding psize_simps by linarith
qed (simp add: valued_def varbytes_enc_def varuint_enc_def)

lemma psize_answers: "psize (answers (pmap ps) names) \<le> 2 * length (concat (map varbytes_enc names)) + psize ps"
proof -
  let ?N = "length (concat (map varbytes_enc names))"
  have len: "length (concat (map varbytes_enc xs)) = sum_list (map (\<lambda>x. length (varbytes_enc x)) xs)" for xs
    by (induction xs) simp_all
  have "(\<Sum>x\<in>set names. length (varbytes_enc x)) \<le> ?N"
    unfolding len by (induction names) (auto simp: sum.insert_if)
  moreover have "card (set names) \<le> ?N"
  proof -
    have "1 \<le> length (varbytes_enc x)" for x
      by (simp add: varbytes_enc_def varuint_enc_def)
    then have "length names \<le> ?N"
      using sum_list_mono [of names "\<lambda>_. 1" "\<lambda>x. length (varbytes_enc x)"] by (simp add: len sum_list_triv)
    then show ?thesis
      using card_length [of names] by linarith
  qed
  moreover have "psize (answers (pmap ps) names)
      = (\<Sum>x\<in>set names. length (varbytes_enc x) + length (varbytes_enc (param_Value (valued (pmap ps) x))))"
    by (simp add: psize_def answers_def param_enc_def valued_def length_concat rev_map [symmetric] sum_list_rev comp_def
        sum_list_distinct_conv_sum_set)
  ultimately show ?thesis
    using answers_values [of "set names" ps] by (simp add: sum.distrib)
qed

section \<open>The abstract machine\<close>

record gp =
  gp_admin :: Address
  gp_transfer :: Address
  gp_operator :: Address
  gp_prepare :: "bytes \<rightharpoonup> bytes"
  gp_current :: "bytes \<rightharpoonup> bytes"

datatype gp_request =
    R_Init Params Address | R_Accept Address | R_Transfer Address | R_Operator Address
  | R_Set Params | R_Get "bytes list" | R_Snapshot

text \<open>The request that the arguments of a call stand for.\<close>

fun request :: "ParamHandler \<Rightarrow> bytes \<Rightarrow> gp_request res" where
  "request H_ParamInit input =
     bind_res (DecodeVarBytes (NewZeroCopySource input)) (\<lambda>(args, _).
     bind_res (Params_Deserialization (NewZeroCopySource args)) (\<lambda>(ps, s).
     bind_res (DecodeAddress s) (\<lambda>(a, _). Ok (R_Init ps a))))"
| "request H_AcceptAdmin input = bind_res (DecodeAddress (NewZeroCopySource input)) (\<lambda>(a, _). Ok (R_Accept a))"
| "request H_TransferAdmin input = bind_res (DecodeAddress (NewZeroCopySource input)) (\<lambda>(a, _). Ok (R_Transfer a))"
| "request H_SetOperator input = bind_res (DecodeAddress (NewZeroCopySource input)) (\<lambda>(a, _). Ok (R_Operator a))"
| "request H_SetGlobalParam input = bind_res (Params_Deserialization (NewZeroCopySource input)) (\<lambda>(ps, _). Ok (R_Set ps))"
| "request H_GetGlobalParam input = bind_res (ParamNameList_Deserialization (NewZeroCopySource input)) (\<lambda>(ns, _). Ok (R_Get ns))"
| "request H_CreateSnapshot input = Ok R_Snapshot"

definition appointed :: "(Address \<Rightarrow> bool) \<Rightarrow> Address \<Rightarrow> bool" where
  "appointed auth a \<longleftrightarrow> a \<noteq> ADDRESS_EMPTY \<and> auth a"

fun gp_step :: "(Address \<Rightarrow> bool) \<Rightarrow> gp_request \<Rightarrow> gp \<Rightarrow> (bytes \<times> gp) option" where
  "gp_step auth (R_Init ps a) g =
     (if gp_admin g \<noteq> ADDRESS_EMPTY then None
      else Some (BYTE_TRUE, g\<lparr>gp_current := pmap ps, gp_prepare := pmap ps, gp_admin := a, gp_operator := a\<rparr>))"
| "gp_step auth (R_Accept a) g =
     (if appointed auth a \<and> a = gp_transfer g then Some (BYTE_TRUE, g\<lparr>gp_transfer := ADDRESS_EMPTY, gp_admin := a\<rparr>) else None)"
| "gp_step auth (R_Transfer a) g = (if appointed auth (gp_admin g) then Some (BYTE_TRUE, g\<lparr>gp_transfer := a\<rparr>) else None)"
| "gp_step auth (R_Operator a) g = (if appointed auth (gp_admin g) then Some (BYTE_TRUE, g\<lparr>gp_operator := a\<rparr>) else None)"
| "gp_step auth (R_Set ps) g =
     (if appointed auth (gp_operator g) \<and> ps \<noteq> [] then Some (BYTE_TRUE, g\<lparr>gp_prepare := assign ps (gp_prepare g)\<rparr>) else None)"
| "gp_step auth (R_Get names) g =
     (if names = [] \<or> gp_current g = Map.empty then None else Some (Params_enc (answers (gp_current g) names), g))"
| "gp_step auth R_Snapshot g =
     (if appointed auth (gp_operator g) \<and> gp_prepare g \<noteq> Map.empty then Some (BYTE_TRUE, g\<lparr>gp_current := gp_prepare g\<rparr>) else None)"

section \<open>The handlers implement it\<close>

definition gp_rep :: "Address \<Rightarrow> nat \<Rightarrow> (bytes \<Rightarrow> bytes) \<Rightarrow> gp \<Rightarrow> bool" where
  "gp_rep c n f g \<longleftrightarrow> holds_role (f (generateAdminKey c False)) (gp_admin g) \<and> holds_role (f (generateAdminKey c True)) (gp_transfer g)
     \<and> holds_role (f (GenerateOperatorKey c)) (gp_operator g)
     \<and> (\<exists>ps. holds_params n (f (generateParamKey c PREPARE_VALUE)) ps \<and> pmap ps = gp_prepare g)
     \<and> (\<exists>ps. holds_params n (f (generateParamKey c CURRENT_VALUE)) ps \<and> pmap ps = gp_current g)"

lemma gp_repD:
  assumes "gp_rep c n f g"
  shows "holds_role (f (generateAdminKey c False)) (gp_admin g)" "holds_role (f (generateAdminKey c True)) (gp_transfer g)"
    "holds_role (f (GenerateOperatorKey c)) (gp_operator g)"
    "\<exists>ps. holds_params n (f (generateParamKey c PREPARE_VALUE)) ps \<and> pmap ps = gp_prepare g"
    "\<exists>ps. holds_params n (f (generateParamKey c CURRENT_VALUE)) ps \<and> pmap ps = gp_current g"
  using assms unfolding gp_rep_def by blast+

definition gp_keys :: "Address \<Rightarrow> bytes list" where
  "gp_keys c = [generateAdminKey c False, generateAdminKey c True, GenerateOperatorKey c, generateParamKey c PREPARE_VALUE, generateParamKey c CURRENT_VALUE]"

lemma distinct_gp_keys: "distinct (gp_keys c)"
  by (simp add: gp_keys_def generateAdminKey_def GenerateOperatorKey_def generateParamKey_def PARAM_def PARAM_TRANSFER_def ADMIN_def
      OPERATOR_def PREPARE_VALUE_def CURRENT_VALUE_def str_def Let_def)

lemma key_neq [simp]:
  "generateAdminKey c False \<noteq> generateAdminKey c True" "generateAdminKey c False \<noteq> GenerateOperatorKey c" "generateAdminKey c False \<noteq> generateParamKey c PREPARE_VALUE" "generateAdminKey c False \<noteq> generateParamKey c CURRENT_VALUE"
  "generateAdminKey c True \<noteq> generateAdminKey c False" "generateAdminKey c True \<noteq> GenerateOperatorKey c" "generateAdminKey c True \<noteq> generateParamKey c PREPARE_VALUE" "generateAdminKey c True \<noteq> generateParamKey c CURRENT_VALUE"
  "GenerateOperatorKey c \<noteq> generateAdminKey c False" "GenerateOperatorKey c \<noteq> generateAdminKey c True" "GenerateOperatorKey c \<noteq> generateParamKey c PREPARE_VALUE" "GenerateOperatorKey c \<noteq> generateParamKey c CURRENT_VALUE"
  "generateParamKey c PREPARE_VALUE \<noteq> generateAdminKey c False" "generateParamKey c PREPARE_VALUE \<noteq> generateAdminKey c True" "generateParamKey c PREPARE_VALUE \<noteq> GenerateOperatorKey c" "generateParamKey c PREPARE_VALUE \<noteq> generateParamKey c CURRENT_VALUE"
  "generateParamKey c CURRENT_VALUE \<noteq> generateAdminKey c False" "generateParamKey c CURRENT_VALUE \<noteq> generateAdminKey c True" "generateParamKey c CURRENT_VALUE \<noteq> GenerateOperatorKey c" "generateParamKey c CURRENT_VALUE \<noteq> generateParamKey c PREPARE_VALUE"
  using distinct_gp_keys [of c] by (auto simp: gp_keys_def)

lemma holds_params_mono: "holds_params n b ps \<Longrightarrow> n \<le> m \<Longrightarrow> holds_params m b ps"
  by (auto simp: holds_params_def)

lemma gp_rep_mono: "gp_rep c n f g \<Longrightarrow> n \<le> m \<Longrightarrow> gp_rep c m f g"
  unfolding gp_rep_def using holds_params_mono by blast

lemma gp_rep_upd:
  assumes "gp_rep c n f g"
  shows "length a = 20 \<Longrightarrow> gp_rep c n (f(generateAdminKey c False := role_item a)) (g\<lparr>gp_admin := a\<rparr>)"
    "length a = 20 \<Longrightarrow> gp_rep c n (f(generateAdminKey c True := role_item a)) (g\<lparr>gp_transfer := a\<rparr>)"
    "gp_rep c n (f(generateAdminKey c True := [])) (g\<lparr>gp_transfer := ADDRESS_EMPTY\<rparr>)"
    "length a = 20 \<Longrightarrow> gp_rep c n (f(GenerateOperatorKey c := role_item a)) (g\<lparr>gp_operator := a\<rparr>)"
    "psize ps \<le> n \<Longrightarrow> gp_rep c n (f(generateParamKey c PREPARE_VALUE := params_item ps)) (g\<lparr>gp_prepare := pmap ps\<rparr>)"
    "psize ps \<le> n \<Longrightarrow> gp_rep c n (f(generateParamKey c CURRENT_VALUE := params_item ps)) (g\<lparr>gp_current := pmap ps\<rparr>)"
  using assms by (auto simp: gp_rep_def intro: exI [of _ ps])

lemma notify_role [simp]:
  "only_writes ns (NotifyRoleChange env c m a ns)" "ns_shows PS (NotifyRoleChange env c m a ns) f = ns_shows PS ns f"
  "only_writes ns (NotifyTransferAdmin env c m a b ns)" "ns_shows PS (NotifyTransferAdmin env c m a b ns) f = ns_shows PS ns f"
  by (simp_all add: NotifyRoleChange_def NotifyTransferAdmin_def param_notify_def only_writes_def ns_shows_def)

lemma notify_params:
  assumes "ps \<noteq> []"
  shows "\<exists>ns'. NotifyParamChange env c m ps ns = Ok ((), ns') \<and> only_writes ns ns' \<and> (\<forall>f. ns_shows PS ns' f = ns_shows PS ns f)"
proof -
  define shown where "shown p = param_Key p @ str '','' @ param_Value p @ str '';''" for p :: Param
  have "fold (\<lambda>p acc. acc @ shown p) ps acc = acc @ concat (map shown ps)" for acc
    by (induction ps arbitrary: acc) simp_all
  moreover have "concat (map shown ps) \<noteq> []"
    using assms by (cases ps) (simp_all add: shown_def str_def)
  ultimately have "1 \<le> length (fold (\<lambda>p acc. acc @ shown p) ps [])"
    by (simp add: Suc_le_eq)
  then show ?thesis
    unfolding NotifyParamChange_def shown_def [symmetric]
    by (simp add: Let_def param_notify_def only_writes_def ns_shows_def)
qed

text \<open>A service in which the contract runs on a storage that stands for a state, and what a handler may do to it.\<close>

definition ready :: "('s, 'i) PersistStore \<Rightarrow> ('s, 'h) NativeService \<Rightarrow> Address \<Rightarrow> nat \<Rightarrow> (bytes \<Rightarrow> bytes) \<Rightarrow> gp \<Rightarrow> bool" where
  "ready PS ns c n f g \<longleftrightarrow> ns_shows PS ns f \<and> current_contract ns = Ok c \<and> gp_rep c n f g \<and> n + 2 * length (ns_Input ns) + 36 \<le> sink_max"

definition gp_after :: "('s, 'i) PersistStore \<Rightarrow> ('s, 'h) NativeService \<Rightarrow> Address \<Rightarrow> nat \<Rightarrow> (bytes \<Rightarrow> bytes) \<Rightarrow> gp \<Rightarrow> ('s, 'h) NativeService \<Rightarrow> bool" where
  "gp_after PS ns c n f g ns' \<longleftrightarrow> only_writes ns ns' \<and> (\<exists>f'. ns_shows PS ns' f' \<and> gp_rep c (n + length (ns_Input ns)) f' g
     \<and> (\<forall>k. k \<notin> set (gp_keys c) \<longrightarrow> f' k = f k))"

definition meets :: "('s, 'i) PersistStore \<Rightarrow> ('s, 'h) NativeService \<Rightarrow> Address \<Rightarrow> nat \<Rightarrow> (bytes \<Rightarrow> bytes) \<Rightarrow> (bytes \<times> gp) option
    \<Rightarrow> (bytes \<times> ('s, 'h) NativeService) res \<Rightarrow> bool" where
  "meets PS ns c n f step r \<longleftrightarrow>
     (case step of None \<Rightarrow> \<exists>e. r = Err e
      | Some (out, g') \<Rightarrow> \<exists>ns'. r = Ok (out, ns') \<and> gp_after PS ns c n f g' ns')"

lemma readyD:
  assumes "ready PS ns c n f g"
  shows "ns_shows PS ns f" "current_contract ns = Ok c" "gp_rep c n f g" "n + 36 \<le> sink_max" "length (ns_Input ns) + 36 \<le> sink_max"
    "wf_src (NewZeroCopySource (ns_Input ns))"
  using assms by (auto simp: ready_def sink_max_def maxInt_def intro!: wf_NewZeroCopySource)

lemma gp_afterI:
  assumes "ns_shows PS ns' f'" "only_writes ns ns'" "gp_rep c (n + length (ns_Input ns)) f' g" "\<And>k. k \<notin> set (gp_keys c) \<Longrightarrow> f' k = f k"
  shows "gp_after PS ns c n f g ns'"
  using assms unfolding gp_after_def by blast

lemma TransferAdmin_meets:
  assumes r: "ready PS ns c n f g" and a: "DecodeAddress (NewZeroCopySource (ns_Input ns)) = Ok (a, s)"
  shows "meets PS ns c n f (gp_step (\<lambda>a. CheckWitness (env_ripemd160 env) a (ContextRef ns)) (R_Transfer a) g) (TransferAdmin env PS ns)"
proof -
  note D = readyD [OF r]
  obtain db where db: "GetStorageRole PS (generateAdminKey c False) ns = Ok ((gp_admin g, None), ns\<lparr>ns_CacheDB := db\<rparr>)"
    "ns_shows PS (ns\<lparr>ns_CacheDB := db\<rparr>) f"
    using GetStorageRole_shows [OF D(1) gp_repD(1) [OF D(3)]] by blast
  have a20: "length a = 20"
    using a by (rule DecodeAddress_20)
  obtain db' where db': "put_item (generateAdminKey c True) (getRoleStorageItem a) (ns\<lparr>ns_CacheDB := db\<rparr>) = Ok ((), ns\<lparr>ns_CacheDB := db'\<rparr>)"
    "ns_shows PS (ns\<lparr>ns_CacheDB := db'\<rparr>) (f(generateAdminKey c True := role_item a))"
    using put_role_shows [OF db(2) a20] by force
  have "gp_after PS ns c n f (g\<lparr>gp_transfer := a\<rparr>) (NotifyTransferAdmin env c TRANSFER_ADMIN_NAME (gp_admin g) a (ns\<lparr>ns_CacheDB := db'\<rparr>))"
    using db'(2) gp_rep_upd(2) [OF gp_rep_mono [OF D(3)] a20] only_writes_trans [OF only_writes_db notify_role(3)]
    by (intro gp_afterI [where f' = "f(generateAdminKey c True := role_item a)"]) (auto simp: gp_keys_def)
  then show ?thesis
    using D(2) db(1) db'(1) a by (auto simp: meets_def TransferAdmin_def appointed_def)
qed

lemma SetOperator_meets:
  assumes r: "ready PS ns c n f g" and a: "DecodeAddress (NewZeroCopySource (ns_Input ns)) = Ok (a, s)"
  shows "meets PS ns c n f (gp_step (\<lambda>a. CheckWitness (env_ripemd160 env) a (ContextRef ns)) (R_Operator a) g) (SetOperator env PS ns)"
proof -
  note D = readyD [OF r]
  obtain db where db: "GetStorageRole PS (generateAdminKey c False) ns = Ok ((gp_admin g, None), ns\<lparr>ns_CacheDB := db\<rparr>)"
    "ns_shows PS (ns\<lparr>ns_CacheDB := db\<rparr>) f"
    using GetStorageRole_shows [OF D(1) gp_repD(1) [OF D(3)]] by blast
  have a20: "length a = 20"
    using a by (rule DecodeAddress_20)
  obtain db' where db': "put_item (GenerateOperatorKey c) (getRoleStorageItem a) (ns\<lparr>ns_CacheDB := db\<rparr>) = Ok ((), ns\<lparr>ns_CacheDB := db'\<rparr>)"
    "ns_shows PS (ns\<lparr>ns_CacheDB := db'\<rparr>) (f(GenerateOperatorKey c := role_item a))"
    using put_role_shows [OF db(2) a20] by force
  have "gp_after PS ns c n f (g\<lparr>gp_operator := a\<rparr>) (NotifyRoleChange env c SET_OPERATOR a (ns\<lparr>ns_CacheDB := db'\<rparr>))"
    using db'(2) gp_rep_upd(4) [OF gp_rep_mono [OF D(3)] a20] only_writes_trans [OF only_writes_db notify_role(1)]
    by (intro gp_afterI [where f' = "f(GenerateOperatorKey c := role_item a)"]) (auto simp: gp_keys_def)
  then show ?thesis
    using D(2) db(1) db'(1) a by (auto simp: meets_def SetOperator_def appointed_def)
qed

lemma AcceptAdmin_meets:
  assumes r: "ready PS ns c n f g" and a: "DecodeAddress (NewZeroCopySource (ns_Input ns)) = Ok (a, s)"
  shows "meets PS ns c n f (gp_step (\<lambda>a. CheckWitness (env_ripemd160 env) a (ContextRef ns)) (R_Accept a) g) (AcceptAdmin env PS ns)"
proof -
  note D = readyD [OF r]
  obtain db where db: "GetStorageRole PS (generateAdminKey c True) ns = Ok ((gp_transfer g, None), ns\<lparr>ns_CacheDB := db\<rparr>)"
    "ns_shows PS (ns\<lparr>ns_CacheDB := db\<rparr>) f"
    using GetStorageRole_shows [OF D(1) gp_repD(2) [OF D(3)]] by blast
  have a20: "length a = 20"
    using a by (rule DecodeAddress_20)
  obtain d1 where d1: "delete_item (generateAdminKey c True) (ns\<lparr>ns_CacheDB := db\<rparr>) = Ok ((), ns\<lparr>ns_CacheDB := d1\<rparr>)"
    "ns_shows PS (ns\<lparr>ns_CacheDB := d1\<rparr>) (f(generateAdminKey c True := []))"
    using delete_item_shows [OF db(2)] by force
  let ?f = "(f(generateAdminKey c True := []))(generateAdminKey c False := role_item a)"
  obtain d2 where d2: "put_item (generateAdminKey c False) (getRoleStorageItem a) (ns\<lparr>ns_CacheDB := d1\<rparr>) = Ok ((), ns\<lparr>ns_CacheDB := d2\<rparr>)"
    "ns_shows PS (ns\<lparr>ns_CacheDB := d2\<rparr>) ?f"
    using put_role_shows [OF d1(2) a20] by force
  have "gp_after PS ns c n f (g\<lparr>gp_transfer := ADDRESS_EMPTY, gp_admin := a\<rparr>) (NotifyRoleChange env c ACCEPT_ADMIN_NAME a (ns\<lparr>ns_CacheDB := d2\<rparr>))"
    using d2(2) gp_rep_upd(1) [OF gp_rep_upd(3) [OF gp_rep_mono [OF D(3)]] a20] only_writes_trans [OF only_writes_db notify_role(1)]
    by (intro gp_afterI [where f' = ?f]) (auto simp: gp_keys_def)
  then show ?thesis
    using D(2) db(1) d1(1) d2(1) a by (auto simp: meets_def AcceptAdmin_def appointed_def)
qed

lemma CreateSnapshot_meets:
  assumes r: "ready PS ns c n f g"
  shows "meets PS ns c n f (gp_step (\<lambda>a. CheckWitness (env_ripemd160 env) a (ContextRef ns)) R_Snapshot g) (CreateSnapshot env PS ns)"
proof -
  note D = readyD [OF r]
  obtain db where db: "GetStorageRole PS (GenerateOperatorKey c) ns = Ok ((gp_operator g, None), ns\<lparr>ns_CacheDB := db\<rparr>)"
    "ns_shows PS (ns\<lparr>ns_CacheDB := db\<rparr>) f"
    using GetStorageRole_shows [OF D(1) gp_repD(3) [OF D(3)]] by blast
  obtain ps where ps: "holds_params n (f (generateParamKey c PREPARE_VALUE)) ps" "pmap ps = gp_prepare g"
    using gp_repD(4) [OF D(3)] by blast
  have small: "psize ps \<le> n"
    using ps(1) by (simp add: holds_params_def)
  obtain d1 where d1: "getStorageParam PS (generateParamKey c PREPARE_VALUE) (ns\<lparr>ns_CacheDB := db\<rparr>) = Ok (ps, ns\<lparr>ns_CacheDB := d1\<rparr>)"
    "ns_shows PS (ns\<lparr>ns_CacheDB := d1\<rparr>) f"
    using getStorageParam_shows [OF db(2) ps(1) D(4)] by force
  let ?f = "f(generateParamKey c CURRENT_VALUE := params_item ps)"
  obtain d2 where d2: "put_item (generateParamKey c CURRENT_VALUE) (getParamStorageItem ps) (ns\<lparr>ns_CacheDB := d1\<rparr>) = Ok ((), ns\<lparr>ns_CacheDB := d2\<rparr>)"
    "ns_shows PS (ns\<lparr>ns_CacheDB := d2\<rparr>) ?f"
    using put_params_shows [OF d1(2), of ps] small D(4) by force
  have nil: "ps = [] \<longleftrightarrow> gp_prepare g = Map.empty"
    using ps(2) pmap_empty [of ps] by metis
  show ?thesis
  proof (cases "ps = []")
    case False
    then obtain n4 where n4: "NotifyParamChange env c CREATE_SNAPSHOT_NAME ps (ns\<lparr>ns_CacheDB := d2\<rparr>) = Ok ((), n4)"
      "only_writes (ns\<lparr>ns_CacheDB := d2\<rparr>) n4" "ns_shows PS n4 ?f"
      using notify_params [of ps env c CREATE_SNAPSHOT_NAME "ns\<lparr>ns_CacheDB := d2\<rparr>" PS] d2(2) by blast
    have "gp_after PS ns c n f (g\<lparr>gp_current := gp_prepare g\<rparr>) n4"
      using n4(3) gp_rep_upd(6) [OF gp_rep_mono [OF D(3)], of _ ps] small ps(2) only_writes_trans [OF only_writes_db n4(2)]
      by (intro gp_afterI [where f' = ?f]) (auto simp: gp_keys_def)
    then show ?thesis
      using D(2) db(1) d1(1) d2(1) n4(1) False nil by (auto simp: meets_def CreateSnapshot_def appointed_def detail_def)
  qed (use D(2) db(1) d1(1) nil in \<open>auto simp: meets_def CreateSnapshot_def appointed_def detail_def\<close>)
qed

lemma SetGlobalParam_meets:
  assumes r: "ready PS ns c n f g" and q: "Params_Deserialization (NewZeroCopySource (ns_Input ns)) = Ok (qs, s)"
  shows "meets PS ns c n f (gp_step (\<lambda>a. CheckWitness (env_ripemd160 env) a (ContextRef ns)) (R_Set qs) g) (SetGlobalParam env PS ns)"
proof -
  note D = readyD [OF r]
  obtain db where db: "GetStorageRole PS (GenerateOperatorKey c) ns = Ok ((gp_operator g, None), ns\<lparr>ns_CacheDB := db\<rparr>)"
    "ns_shows PS (ns\<lparr>ns_CacheDB := db\<rparr>) f"
    using GetStorageRole_shows [OF D(1) gp_repD(3) [OF D(3)]] by blast
  obtain ps where ps: "holds_params n (f (generateParamKey c PREPARE_VALUE)) ps" "pmap ps = gp_prepare g"
    using gp_repD(4) [OF D(3)] by blast
  obtain d1 where d1: "getStorageParam PS (generateParamKey c PREPARE_VALUE) (ns\<lparr>ns_CacheDB := db\<rparr>) = Ok (ps, ns\<lparr>ns_CacheDB := d1\<rparr>)"
    "ns_shows PS (ns\<lparr>ns_CacheDB := d1\<rparr>) f"
    using getStorageParam_shows [OF db(2) ps(1) D(4)] by force
  define ps' where "ps' = fold SetParam qs ps"
  have small: "psize ps' \<le> n + length (ns_Input ns)"
    using psize_fold_SetParam [of qs ps] Params_Deserialization_returns [OF D(6)] q ps(1) by (auto simp: ps'_def holds_params_def)
  let ?f = "f(generateParamKey c PREPARE_VALUE := params_item ps')"
  obtain d2 where d2: "put_item (generateParamKey c PREPARE_VALUE) (getParamStorageItem ps') (ns\<lparr>ns_CacheDB := d1\<rparr>) = Ok ((), ns\<lparr>ns_CacheDB := d2\<rparr>)"
    "ns_shows PS (ns\<lparr>ns_CacheDB := d2\<rparr>) ?f"
    using put_params_shows [OF d1(2), of ps'] small r by (force simp: ready_def)
  show ?thesis
  proof (cases "qs = []")
    case False
    then obtain n4 where n4: "NotifyParamChange env c SET_GLOBAL_PARAM_NAME qs (ns\<lparr>ns_CacheDB := d2\<rparr>) = Ok ((), n4)"
      "only_writes (ns\<lparr>ns_CacheDB := d2\<rparr>) n4" "ns_shows PS n4 ?f"
      using notify_params [of qs env c SET_GLOBAL_PARAM_NAME "ns\<lparr>ns_CacheDB := d2\<rparr>" PS] d2(2) by blast
    have "pmap ps' = assign qs (gp_prepare g)"
      by (simp add: ps'_def pmap_fold_SetParam ps(2))
    then have "gp_after PS ns c n f (g\<lparr>gp_prepare := assign qs (gp_prepare g)\<rparr>) n4"
      using n4(3) gp_rep_upd(5) [OF gp_rep_mono [OF D(3)] small] only_writes_trans [OF only_writes_db n4(2)]
      by (intro gp_afterI [where f' = ?f]) (auto simp: gp_keys_def)
    then show ?thesis
      using D(2) db(1) d1(1) d2(1) n4(1) False q
      by (auto simp: meets_def SetGlobalParam_def appointed_def detail_def Let_def ps'_def [symmetric])
  qed (use D(2) db(1) d1(1) q in \<open>auto simp: meets_def SetGlobalParam_def appointed_def detail_def\<close>)
qed

lemma GetGlobalParam_meets:
  assumes r: "ready PS ns c n f g" and q: "ParamNameList_Deserialization (NewZeroCopySource (ns_Input ns)) = Ok (names, s)"
  shows "meets PS ns c n f (gp_step auth (R_Get names) g) (GetGlobalParam PS ns)"
proof -
  note D = readyD [OF r]
  obtain ps where ps: "holds_params n (f (generateParamKey c CURRENT_VALUE)) ps" "pmap ps = gp_current g"
    using gp_repD(5) [OF D(3)] by blast
  obtain d1 where d1: "getStorageParam PS (generateParamKey c CURRENT_VALUE) ns = Ok (ps, ns\<lparr>ns_CacheDB := d1\<rparr>)"
    "ns_shows PS (ns\<lparr>ns_CacheDB := d1\<rparr>) f"
    using getStorageParam_shows [OF D(1) ps(1) D(4)] by force
  let ?qs = "answers (gp_current g) names"
  have loop: "GetGlobalParam_loop names ps [] = ?qs"
    using GetGlobalParam_loop_answers [of names ps "[]"] ps(2) by (simp add: answers_def)
  have nil: "ps = [] \<longleftrightarrow> gp_current g = Map.empty"
    using ps(2) pmap_empty [of ps] by metis
  have "psize ?qs + 36 \<le> sink_max"
    using psize_answers [of ps names] ParamNameList_Deserialization_returns [OF D(6)] q ps r by (auto simp: ready_def holds_params_def)
  then have bytes: "SerializeToBytes [Params_Serialization ?qs] = Ok (Params_enc ?qs)"
    using params_small [of ?qs] by (intro Params_bytes) simp_all
  have "gp_after PS ns c n f g (ns\<lparr>ns_CacheDB := d1\<rparr>)"
    using d1(2) gp_rep_mono [OF D(3)] by (intro gp_afterI [where f' = f]) auto
  then show ?thesis
    using D(2) d1(1) q nil bytes by (auto simp: meets_def GetGlobalParam_def detail_def loop)
qed

lemma init_puts:
  assumes sh: "ns_shows PS (ns\<lparr>ns_CacheDB := d2\<rparr>) f" and small: "psize qs + 36 \<le> sink_max" and a20: "length a = 20"
  shows "\<exists>d3 d4 d5 d6. put_item k3 (getParamStorageItem qs) (ns\<lparr>ns_CacheDB := d2\<rparr>) = Ok ((), ns\<lparr>ns_CacheDB := d3\<rparr>)
    \<and> put_item k4 (getParamStorageItem qs) (ns\<lparr>ns_CacheDB := d3\<rparr>) = Ok ((), ns\<lparr>ns_CacheDB := d4\<rparr>)
    \<and> put_item k5 (getRoleStorageItem a) (ns\<lparr>ns_CacheDB := d4\<rparr>) = Ok ((), ns\<lparr>ns_CacheDB := d5\<rparr>)
    \<and> put_item k6 (getRoleStorageItem a) (ns\<lparr>ns_CacheDB := d5\<rparr>) = Ok ((), ns\<lparr>ns_CacheDB := d6\<rparr>)
    \<and> ns_shows PS (ns\<lparr>ns_CacheDB := d6\<rparr>) (f(k3 := params_item qs, k4 := params_item qs, k5 := role_item a, k6 := role_item a))"
proof -
  obtain d3 where 3: "put_item k3 (getParamStorageItem qs) (ns\<lparr>ns_CacheDB := d2\<rparr>) = Ok ((), ns\<lparr>ns_CacheDB := d3\<rparr>)"
    "ns_shows PS (ns\<lparr>ns_CacheDB := d3\<rparr>) (f(k3 := params_item qs))"
    using put_params_shows [OF sh small] by force
  obtain d4 where 4: "put_item k4 (getParamStorageItem qs) (ns\<lparr>ns_CacheDB := d3\<rparr>) = Ok ((), ns\<lparr>ns_CacheDB := d4\<rparr>)"
    "ns_shows PS (ns\<lparr>ns_CacheDB := d4\<rparr>) (f(k3 := params_item qs, k4 := params_item qs))"
    using put_params_shows [OF 3(2) small] by force
  obtain d5 where 5: "put_item k5 (getRoleStorageItem a) (ns\<lparr>ns_CacheDB := d4\<rparr>) = Ok ((), ns\<lparr>ns_CacheDB := d5\<rparr>)"
    "ns_shows PS (ns\<lparr>ns_CacheDB := d5\<rparr>) (f(k3 := params_item qs, k4 := params_item qs, k5 := role_item a))"
    using put_role_shows [OF 4(2) a20] by force
  obtain d6 where 6: "put_item k6 (getRoleStorageItem a) (ns\<lparr>ns_CacheDB := d5\<rparr>) = Ok ((), ns\<lparr>ns_CacheDB := d6\<rparr>)"
    "ns_shows PS (ns\<lparr>ns_CacheDB := d6\<rparr>) (f(k3 := params_item qs, k4 := params_item qs, k5 := role_item a, k6 := role_item a))"
    using put_role_shows [OF 5(2) a20] by force
  show ?thesis
    using 3(1) 4(1) 5(1) 6 by blast
qed

lemma ParamInit_meets:
  assumes r: "ready PS ns c n f g" and b: "DecodeVarBytes (NewZeroCopySource (ns_Input ns)) = Ok (b, s0)"
    and q: "Params_Deserialization (NewZeroCopySource b) = Ok (qs, s)" and a: "DecodeAddress s = Ok (a, s')"
  shows "meets PS ns c n f (gp_step auth (R_Init qs a) g) (ParamInit PS ns)"
proof -
  note D = readyD [OF r]
  obtain d1 where d1: "GetStorageRole PS (generateAdminKey c False) ns = Ok ((gp_admin g, None), ns\<lparr>ns_CacheDB := d1\<rparr>)"
    "ns_shows PS (ns\<lparr>ns_CacheDB := d1\<rparr>) f"
    using GetStorageRole_shows [OF D(1) gp_repD(1) [OF D(3)]] by blast
  obtain d2 where d2: "GetStorageRole PS (generateAdminKey c False) (ns\<lparr>ns_CacheDB := d1\<rparr>) = Ok ((gp_admin g, None), ns\<lparr>ns_CacheDB := d2\<rparr>)"
    "ns_shows PS (ns\<lparr>ns_CacheDB := d2\<rparr>) f"
    using GetStorageRole_shows [OF d1(2) gp_repD(1) [OF D(3)]] by force
  have bl: "length b \<le> length (ns_Input ns)"
    using decode_shrinks(2) [OF D(6) b] by simp
  then have "wf_src (NewZeroCopySource b)"
    using D(5) by (intro wf_NewZeroCopySource) (simp add: sink_max_def maxInt_def)
  then have qn: "psize qs \<le> n + length (ns_Input ns)"
    using Params_Deserialization_returns [of "NewZeroCopySource b"] q bl by auto
  then have small: "psize qs + 36 \<le> sink_max"
    using r by (simp add: ready_def)
  have a20: "length a = 20"
    using a by (rule DecodeAddress_20)
  let ?f3 = "f(generateParamKey c CURRENT_VALUE := params_item qs)" let ?f4 = "?f3(generateParamKey c PREPARE_VALUE := params_item qs)"
  let ?f5 = "?f4(generateAdminKey c False := role_item a)" let ?f6 = "?f5(GenerateOperatorKey c := role_item a)"
  obtain d3 d4 d5 d6 where
    p3: "put_item (generateParamKey c CURRENT_VALUE) (getParamStorageItem qs) (ns\<lparr>ns_CacheDB := d2\<rparr>) = Ok ((), ns\<lparr>ns_CacheDB := d3\<rparr>)"
    and p4: "put_item (generateParamKey c PREPARE_VALUE) (getParamStorageItem qs) (ns\<lparr>ns_CacheDB := d3\<rparr>) = Ok ((), ns\<lparr>ns_CacheDB := d4\<rparr>)"
    and p5: "put_item (generateAdminKey c False) (getRoleStorageItem a) (ns\<lparr>ns_CacheDB := d4\<rparr>) = Ok ((), ns\<lparr>ns_CacheDB := d5\<rparr>)"
    and p6: "put_item (GenerateOperatorKey c) (getRoleStorageItem a) (ns\<lparr>ns_CacheDB := d5\<rparr>) = Ok ((), ns\<lparr>ns_CacheDB := d6\<rparr>)"
    and sh: "ns_shows PS (ns\<lparr>ns_CacheDB := d6\<rparr>) ?f6"
    using init_puts [OF d2(2) small a20] by blast
  have "gp_rep c (n + length (ns_Input ns)) ?f6 (g\<lparr>gp_current := pmap qs, gp_prepare := pmap qs, gp_admin := a, gp_operator := a\<rparr>)"
    using gp_rep_upd(4) [OF gp_rep_upd(1) [OF gp_rep_upd(5) [OF gp_rep_upd(6) [OF gp_rep_mono [OF D(3) le_add1] qn] qn] a20] a20] by simp
  then have "gp_after PS ns c n f (g\<lparr>gp_current := pmap qs, gp_prepare := pmap qs, gp_admin := a, gp_operator := a\<rparr>) (ns\<lparr>ns_CacheDB := d6\<rparr>)"
    using sh by (intro gp_afterI [where f' = ?f6]) (auto simp: gp_keys_def)
  then show ?thesis
    using D(2) d1(1) d2(1) p3 p4 p5 p6 a b q by (auto simp: meets_def ParamInit_def detail_def Let_def)
qed

lemma request_returns:
  assumes "length input + 36 \<le> sink_max"
  shows "returns (request h input)"
proof -
  have wf: "wf_src (NewZeroCopySource b)" if "length b \<le> length input" for b
    using assms that by (intro wf_NewZeroCopySource) (simp add: sink_max_def maxInt_def)
  have init: "returns (request H_ParamInit input)"
    unfolding request.simps
  proof (intro returns_bind, goal_cases)
    case 1
    show ?case
      using decodesD(1) [OF decodes_args(1) wf] by simp
  next
    case (2 x)
    then obtain b s where b: "DecodeVarBytes (NewZeroCopySource input) = Ok (b, s)" "x = (b, s)"
      by (cases x) simp
    have "wf_src (NewZeroCopySource b)"
      using decode_shrinks(2) [OF wf b(1)] wf by simp
    from Params_Deserialization_returns [OF this] show ?case
      using decodesD(1) [OF decodes_args(2)] b(2) by (auto intro!: returns_bind)
  qed
  have "returns (Params_Deserialization (NewZeroCopySource input))" "returns (ParamNameList_Deserialization (NewZeroCopySource input))"
    "returns (DecodeAddress (NewZeroCopySource input))"
    using Params_Deserialization_returns [OF wf] ParamNameList_Deserialization_returns [OF wf] decodesD(1) [OF decodes_args(2) wf] by fastforce+
  then show ?thesis
    using init by (cases h) (auto intro!: returns_bind)
qed

lemma bind_Ok_Err [simp]: "bind_res m (\<lambda>(x, _). Ok (F x)) = Err e \<longleftrightarrow> m = Err e"
  by (cases m) auto

lemma bad_init:
  assumes r: "ready PS ns c n f g" and q: "request H_ParamInit (ns_Input ns) = Err e"
  shows "\<exists>e. ParamInit PS ns = Err e"
proof -
  note D = readyD [OF r]
  obtain d1 where d1: "GetStorageRole PS (generateAdminKey c False) ns = Ok ((gp_admin g, None), ns\<lparr>ns_CacheDB := d1\<rparr>)"
    "ns_shows PS (ns\<lparr>ns_CacheDB := d1\<rparr>) f"
    using GetStorageRole_shows [OF D(1) gp_repD(1) [OF D(3)]] by blast
  obtain d2 where d2: "GetStorageRole PS (generateAdminKey c False) (ns\<lparr>ns_CacheDB := d1\<rparr>) = Ok ((gp_admin g, None), ns\<lparr>ns_CacheDB := d2\<rparr>)"
    "ns_shows PS (ns\<lparr>ns_CacheDB := d2\<rparr>) f"
    using GetStorageRole_shows [OF d1(2) gp_repD(1) [OF D(3)]] by force
  note run = D(2) d1(1) d2(1)
  show ?thesis
  proof (cases "DecodeVarBytes (NewZeroCopySource (ns_Input ns))")
    case (Ok x)
    then obtain b s0 where b: "DecodeVarBytes (NewZeroCopySource (ns_Input ns)) = Ok (b, s0)"
      by (cases x) simp
    then have wf: "wf_src (NewZeroCopySource b)" and bl: "length b \<le> length (ns_Input ns)"
      using decode_shrinks(2) [OF D(6) b] D(5) by (auto simp: sink_max_def maxInt_def intro!: wf_NewZeroCopySource)
    from Params_Deserialization_returns [OF wf] show ?thesis
    proof (elim disjE exE conjE)
      fix qs s
      assume qs: "Params_Deserialization (NewZeroCopySource b) = Ok (qs, s)" "psize qs \<le> length (rest (NewZeroCopySource b))"
      then have small: "psize qs + 36 \<le> sink_max"
        using bl r by (simp add: ready_def)
      have "length ADDRESS_EMPTY = 20"
        by (simp add: ADDRESS_EMPTY_def)
      from init_puts [OF d2(2) small this] obtain d3 d4 where
        "put_item (generateParamKey c CURRENT_VALUE) (getParamStorageItem qs) (ns\<lparr>ns_CacheDB := d2\<rparr>) = Ok ((), ns\<lparr>ns_CacheDB := d3\<rparr>)"
        "put_item (generateParamKey c PREPARE_VALUE) (getParamStorageItem qs) (ns\<lparr>ns_CacheDB := d3\<rparr>) = Ok ((), ns\<lparr>ns_CacheDB := d4\<rparr>)"
        by blast
      moreover have "\<exists>e. DecodeAddress s = Err e"
        using q b qs(1) by auto
      ultimately show ?thesis
        using run b qs(1) by (auto simp: ParamInit_def detail_def)
    qed (use run b in \<open>auto simp: ParamInit_def detail_def\<close>)
  qed (use run q in \<open>auto simp: ParamInit_def detail_def\<close>)
qed

lemma bad_request:
  assumes r: "ready PS ns c n f g" and q: "request h (ns_Input ns) = Err e"
  shows "\<exists>e. param_run env PS h ns = Err e"
proof -
  note D = readyD [OF r]
  note reads = GetStorageRole_shows [OF D(1) gp_repD(1) [OF D(3)]] GetStorageRole_shows [OF D(1) gp_repD(3) [OF D(3)]]
  show ?thesis
    using q D(2) reads bad_init [OF r]
    by (cases h) (auto simp: AcceptAdmin_def TransferAdmin_def SetOperator_def SetGlobalParam_def GetGlobalParam_def simp del: request.simps(1))
qed

lemma param_run_meets:
  assumes r: "ready PS ns c n f g" and q: "request h (ns_Input ns) = Ok q"
  shows "meets PS ns c n f (gp_step (\<lambda>a. CheckWitness (env_ripemd160 env) a (ContextRef ns)) q g) (param_run env PS h ns)"
  using q ParamInit_meets [OF r] AcceptAdmin_meets [OF r, where env = env] TransferAdmin_meets [OF r, where env = env]
    SetOperator_meets [OF r, where env = env] SetGlobalParam_meets [OF r, where env = env] GetGlobalParam_meets [OF r]
    CreateSnapshot_meets [OF r, where env = env]
  by (cases h) (auto simp: bind_res_Ok_iff simp del: gp_step.simps)

section \<open>Calls\<close>

definition param_methods :: "bytes \<rightharpoonup> ParamHandler" where
  "param_methods = [INIT_NAME \<mapsto> H_ParamInit, ACCEPT_ADMIN_NAME \<mapsto> H_AcceptAdmin, TRANSFER_ADMIN_NAME \<mapsto> H_TransferAdmin,
     SET_OPERATOR \<mapsto> H_SetOperator, SET_GLOBAL_PARAM_NAME \<mapsto> H_SetGlobalParam, GET_GLOBAL_PARAM_NAME \<mapsto> H_GetGlobalParam,
     CREATE_SNAPSHOT_NAME \<mapsto> H_CreateSnapshot]"

lemma registered_params: "RegisterParamContract ns = ns\<lparr>ServiceMap := ServiceMap ns ++ param_methods\<rparr>"
  by (simp add: RegisterParamContract_def Register_def param_methods_def)

lemma param_method_names [simp]:
  "param_methods SET_GLOBAL_PARAM_NAME = Some H_SetGlobalParam" "param_methods GET_GLOBAL_PARAM_NAME = Some H_GetGlobalParam"
  "param_methods CREATE_SNAPSHOT_NAME = Some H_CreateSnapshot" "param_methods INIT_NAME = Some H_ParamInit"
  by (simp_all add: param_methods_def SET_GLOBAL_PARAM_NAME_def GET_GLOBAL_PARAM_NAME_def CREATE_SNAPSHOT_NAME_def INIT_NAME_def
      ACCEPT_ADMIN_NAME_def TRANSFER_ADMIN_NAME_def SET_OPERATOR_def)

text \<open>The engine while the contract runs, and what a call asks of the contract.\<close>

definition in_contract :: "SmartContract \<Rightarrow> SmartContract" where
  "in_contract sc = PushContext \<lparr>ContractAddress = ParamContractAddress, ctx_Code = []\<rparr> sc"

definition witnessed :: "native_env \<Rightarrow> ('s, 'h) NativeService \<Rightarrow> Address \<Rightarrow> bool" where
  "witnessed env ns a \<longleftrightarrow> CheckWitness (env_ripemd160 env) a (in_contract (ContextRef ns))"

definition param_request :: "bytes \<Rightarrow> bytes \<Rightarrow> gp_request option" where
  "param_request m args =
     (case param_methods m of None \<Rightarrow> None | Some h \<Rightarrow> (case request h args of Ok q \<Rightarrow> Some q | _ \<Rightarrow> None))"

definition param_effect :: "native_env \<Rightarrow> ('s, 'h) NativeService \<Rightarrow> bytes \<Rightarrow> bytes \<Rightarrow> gp \<Rightarrow> (bytes \<times> gp) option" where
  "param_effect env ns m args g = Option.bind (param_request m args) (\<lambda>q. gp_step (witnessed env ns) q g)"

text \<open>A service between calls of the contract, on a storage that stands for a state.\<close>

definition param_service :: "('s, 'i) PersistStore \<Rightarrow> ('s, ParamHandler) NativeService \<Rightarrow> nat \<Rightarrow> (bytes \<Rightarrow> bytes) \<Rightarrow> gp \<Rightarrow> bool" where
  "param_service PS ns n f g \<longleftrightarrow> ns_shows PS ns f \<and> gp_rep ParamContractAddress n f g
     \<and> ServiceMap ns \<subseteq>\<^sub>m param_methods \<and> Contexts (ContextRef ns) \<noteq> []"

definition gp_entered :: "bytes \<Rightarrow> bytes \<Rightarrow> ('s, ParamHandler) NativeService \<Rightarrow> ('s, ParamHandler) NativeService" where
  "gp_entered m args ns = ns\<lparr>InvokeParam := \<lparr>cip_Version = 0, cip_Address = ParamContractAddress, cip_Method = m, cip_Args = args\<rparr>,
     ServiceMap := param_methods, ns_Input := args, ContextRef := in_contract (ContextRef ns), ns_Notifications := [], ns_CrossHashes := []\<rparr>"

definition gp_left :: "('s, ParamHandler) NativeService \<Rightarrow> ('s, ParamHandler) NativeService \<Rightarrow> ('s, ParamHandler) NativeService" where
  "gp_left ns n2 = n2\<lparr>ContextRef := PutCrossStateHashes (ns_CrossHashes n2) (PushNotifications (ns_Notifications n2) (PopContext (ContextRef n2))),
     ns_Notifications := ns_Notifications ns, ns_Input := ns_Input ns, ns_CrossHashes := ns_CrossHashes ns\<rparr>"

lemma param_call_eq:
  assumes "ServiceMap ns \<subseteq>\<^sub>m param_methods"
  shows "param_call env PS m args ns = (case param_methods m of None \<Rightarrow> Err ''Native contract doesn't support this function.''
     | Some h \<Rightarrow> bind_res (detail ''[Invoke] Native serivce function execute error!'' (param_run env PS h (gp_entered m args ns)))
         (\<lambda>(r, n2). Ok (r, gp_left ns n2)))"
proof -
  have "ServiceMap ns ++ param_methods = param_methods"
    using assms by (auto simp: map_le_def map_add_def fun_eq_iff dom_def split: option.split)
  then show ?thesis
    by (auto simp: param_call_def NativeCall_def Invoke_def InitGlobalParams_def registered_params Let_def in_contract_def
        gp_entered_def gp_left_def split: option.split)
qed

lemma entered_ready:
  assumes "param_service PS ns n f g" "n + 2 * length args + 36 \<le> sink_max"
  shows "ready PS (gp_entered m args ns) ParamContractAddress n f g" "ns_Input (gp_entered m args ns) = args"
    "(\<lambda>a. CheckWitness (env_ripemd160 env) a (ContextRef (gp_entered m args ns))) = witnessed env ns"
proof -
  have "ns_shows PS (gp_entered m args ns) f"
    using assms(1) by (simp add: param_service_def ns_shows_def gp_entered_def)
  then show "ready PS (gp_entered m args ns) ParamContractAddress n f g"
    using assms by (simp add: ready_def param_service_def current_contract_def gp_entered_def in_contract_def)
qed (simp_all add: gp_entered_def witnessed_def fun_eq_iff)

lemma left_service:
  assumes "param_service PS ns n f g" "gp_after PS (gp_entered m args ns) ParamContractAddress n f g' n2"
  shows "\<exists>f'. param_service PS (gp_left ns n2) (n + length args) f' g' \<and> (\<forall>k. k \<notin> set (gp_keys ParamContractAddress) \<longrightarrow> f' k = f k)"
    "witnessed env (gp_left ns n2) = witnessed env ns"
proof -
  have ctx: "Contexts (ContextRef ns) \<noteq> []" "ContextRef n2 = in_contract (ContextRef ns)" "ServiceMap n2 = param_methods"
    using assms only_writesD [of "gp_entered m args ns" n2] by (auto simp: param_service_def gp_after_def gp_entered_def)
  then have pop: "PopContext (ContextRef n2) = ContextRef ns"
    by (simp add: in_contract_def)
  obtain f' where f': "ns_shows PS n2 f'" "gp_rep ParamContractAddress (n + length args) f' g'"
    "\<forall>k. k \<notin> set (gp_keys ParamContractAddress) \<longrightarrow> f' k = f k"
    using assms(2) by (auto simp: gp_after_def gp_entered_def)
  have "ns_shows PS (gp_left ns n2) f'"
    using f'(1) by (simp add: gp_left_def ns_shows_def)
  then show "\<exists>f'. param_service PS (gp_left ns n2) (n + length args) f' g' \<and> (\<forall>k. k \<notin> set (gp_keys ParamContractAddress) \<longrightarrow> f' k = f k)"
    using f'(2,3) ctx pop by (auto simp: param_service_def gp_left_def)
  have "Contexts (ContextRef (gp_left ns n2)) = Contexts (ContextRef ns)" "sc_Tx (ContextRef (gp_left ns n2)) = sc_Tx (ContextRef ns)"
    using pop by (simp_all add: gp_left_def)
  then show "witnessed env (gp_left ns n2) = witnessed env ns"
    unfolding fun_eq_iff witnessed_def in_contract_def
    by (intro allI CheckWitness_cong) (simp_all add: PushContext_def)
qed

lemma param_call_meets:
  assumes s: "param_service PS ns n f g" and len: "n + 2 * length args + 36 \<le> sink_max"
  shows "case param_effect env ns m args g of None \<Rightarrow> \<exists>e. param_call env PS m args ns = Err e
    | Some (out, g') \<Rightarrow> \<exists>ns' f'. param_call env PS m args ns = Ok (out, ns') \<and> param_service PS ns' (n + length args) f' g'
        \<and> (\<forall>k. k \<notin> set (gp_keys ParamContractAddress) \<longrightarrow> f' k = f k) \<and> witnessed env ns' = witnessed env ns"
proof -
  have sub: "ServiceMap ns \<subseteq>\<^sub>m param_methods"
    using s by (simp add: param_service_def)
  note call = param_call_eq [OF sub, of env PS m args] and r = entered_ready(1,2) [OF s len, of m] entered_ready(3) [OF s len, of env m]
  show ?thesis
  proof (cases "param_methods m")
    case None
    then show ?thesis
      by (simp add: param_effect_def param_request_def call)
  next
    case (Some h)
    show ?thesis
    proof (cases "request h args")
      case (Ok q)
      have "meets PS (gp_entered m args ns) ParamContractAddress n f (gp_step (witnessed env ns) q g) (param_run env PS h (gp_entered m args ns))"
        using param_run_meets [OF r(1), of h q env] Ok r(2) by (simp add: r(3) del: gp_step.simps)
      then show ?thesis
        using left_service [OF s, of m args] Some Ok
        by (fastforce simp: param_effect_def param_request_def meets_def detail_def call split: option.splits)
    next
      case (Err e)
      then show ?thesis
        using bad_request [OF r(1), of h e env] Some r(2) by (auto simp: param_effect_def param_request_def detail_def call)
    qed (use request_returns [of args h] len in auto)
  qed
qed

section \<open>Well-formed arguments\<close>

definition names_enc :: "bytes list \<Rightarrow> bytes" where
  "names_enc names = VarUint_arg_enc (of_nat (length names)) @ concat (map varbytes_enc names)"

lemma ParamNameList_writer: "writer (ParamNameList_write names) (concat (map varbytes_enc names))"
proof (induction names)
  case Nil
  then show ?case
    using writer_return by (simp add: ParamNameList_write.simps(1) [abs_def])
next
  case (Cons x names)
  have "ParamNameList_write (x # names) = (\<lambda>s. bind_res (bind_res (WriteString x s) (\<lambda>(_, s'). Ok s')) (ParamNameList_write names))"
    by (intro ext) (simp flip: bind_split)
  then show ?case
    using writer_bind [OF writer_WriteString Cons.IH] by simp
qed

lemma ParamNameList_loop_reads:
  assumes "wf_src s" "rest s = concat (map varbytes_enc names) @ r"
  shows "ParamNameList_loop (length names) acc s = Ok (acc @ names, advance (length (concat (map varbytes_enc names))) s)"
  using assms
proof (induction names arbitrary: acc s)
  case (Cons x names)
  then have "rest s = varbytes_enc x @ concat (map varbytes_enc names) @ r"
    by simp
  note k = NextVarBytes_prefix [OF Cons.prems(1) this] advance_prefix [OF Cons.prems(1) this]
  show ?case
    using k(1) Cons.IH [OF k(2,3), of "acc @ [x]"] by (simp add: NextString_def advance_advance add_ac)
qed simp

interpretation param_names: serializable ParamNameList_Serialization ParamNameList_Deserialization names_enc "\<lambda>ns. length ns < 2 ^ 63"
proof (rule serializable.intro)
  fix ns :: "bytes list"
  assume ns: "length ns < 2 ^ 63"
  show "writer (ParamNameList_Serialization ns) (names_enc ns)"
    using writer_bind [OF arg_uint.writes [OF count_u64(2) [OF ns]] ParamNameList_writer]
    by (simp add: ParamNameList_Serialization_def [abs_def] names_enc_def)
  fix s r
  assume wf: "wf_src s" and s: "rest s = names_enc ns @ r"
  then have "rest s = VarUint_arg_enc (of_nat (length ns)) @ concat (map varbytes_enc ns) @ r"
    by (simp add: names_enc_def)
  note b = arg_uint.reads_then [OF count_u64(2) [OF ns] wf this]
  show "ParamNameList_Deserialization s = Ok (ns, advance (length (names_enc ns)) s)"
    using b(1) ParamNameList_loop_reads [OF b(2,3), of "[]"] count_u64(1) [OF ns]
    by (simp add: ParamNameList_Deserialization_def detail_def names_enc_def advance_advance)
qed

lemma length_le_encs: "length xs \<le> length (concat (map varbytes_enc xs))"
proof (induction xs)
  case (Cons x xs)
  have "1 \<le> length (varbytes_enc x)"
    by (simp add: varbytes_enc_def varuint_enc_def)
  with Cons show ?case
    by simp
qed simp

lemma request_well_formed:
  shows "length (Params_enc ps) + 36 \<le> sink_max \<Longrightarrow> param_request SET_GLOBAL_PARAM_NAME (Params_enc ps) = Some (R_Set ps)"
    "length (names_enc names) + 36 \<le> sink_max \<Longrightarrow> param_request GET_GLOBAL_PARAM_NAME (names_enc names) = Some (R_Get names)"
    "param_request CREATE_SNAPSHOT_NAME args = Some R_Snapshot"
proof -
  have wf: "length b + 36 \<le> sink_max \<Longrightarrow> wf_src (NewZeroCopySource b)" for b
    by (intro wf_NewZeroCopySource) (simp add: sink_max_def maxInt_def)
  show "param_request SET_GLOBAL_PARAM_NAME (Params_enc ps) = Some (R_Set ps)" if l: "length (Params_enc ps) + 36 \<le> sink_max"
  proof -
    have "length ps < 2 ^ 63"
      using l length_le_psize [of ps] by (simp add: Params_enc_def psize_def sink_max_def)
    from params.reads [OF this wf [OF l], of "[]"] show ?thesis
      by (simp add: param_request_def)
  qed
  show "param_request GET_GLOBAL_PARAM_NAME (names_enc names) = Some (R_Get names)" if l: "length (names_enc names) + 36 \<le> sink_max"
  proof -
    have "length names < 2 ^ 63"
      using l length_le_encs [of names] by (simp add: names_enc_def sink_max_def)
    from param_names.reads [OF this wf [OF l], of "[]"] show ?thesis
      by (simp add: param_request_def)
  qed
qed (simp add: param_request_def)

lemma request_init:
  assumes "length (varbytes_enc (Params_enc ps @ varbytes_enc a)) + 36 \<le> sink_max" "length a = 20"
  shows "param_request INIT_NAME (varbytes_enc (Params_enc ps @ varbytes_enc a)) = Some (R_Init ps a)"
proof -
  let ?b = "Params_enc ps @ varbytes_enc a"
  have wf: "wf_src (NewZeroCopySource (varbytes_enc ?b))" "wf_src (NewZeroCopySource ?b)" and "length ps < 2 ^ 63"
    using assms(1) length_le_psize [of ps]
    by (auto simp: sink_max_def maxInt_def varbytes_enc_def Params_enc_def psize_def intro!: wf_NewZeroCopySource)
  note p = params.reads_then [OF this(3) wf(2)]
  show ?thesis
    using arg_bytes.reads [OF TrueI wf(1), of ?b "[]"] p [of "varbytes_enc a"] arg_addr.reads [OF assms(2), of _ "[]"]
    by (simp add: param_request_def)
qed

text \<open>A list that ends before the announced number of parameters is read as far as it goes.\<close>

lemma NextString_end:
  assumes "wf_src s" "rest s = []"
  shows "\<exists>b n irregular eof s'. NextString s = Ok ((b, n, irregular, eof), s') \<and> (irregular \<or> eof)"
proof -
  obtain b n irregular eof s' where r: "NextString s = Ok ((b, n, irregular, eof), s')"
    "\<not> irregular \<Longrightarrow> \<not> eof \<Longrightarrow> length (rest s) = length (varbytes_enc b) + length (rest s')"
    using NextString_cases [OF assms(1)] by metis
  moreover have "1 \<le> length (varbytes_enc b)"
    by (simp add: varbytes_enc_def varuint_enc_def)
  ultimately show ?thesis
    using assms(2) by (metis add_is_0 list.size(3) not_one_le_zero)
qed

lemma Params_loop_truncated:
  assumes "wf_src s" "rest s = concat (map param_enc ps)" "length ps \<le> n"
  shows "\<exists>s'. Params_loop n acc s = Ok (acc @ ps, s')"
  using assms
proof (induction ps arbitrary: acc s n)
  case Nil
  then show ?case
    using NextString_end [of s] by (cases n) (auto simp: NewDetailErr_def)
next
  case (Cons p ps)
  then obtain k where n: "n = Suc k" "length ps \<le> k"
    by (cases n) auto
  have s: "rest s = varbytes_enc (param_Key p) @ varbytes_enc (param_Value p) @ concat (map param_enc ps)"
    using Cons.prems(2) by (simp add: param_enc_def [of p])
  note b = NextVarBytes_prefix [OF Cons.prems(1) s] advance_prefix [OF Cons.prems(1) s]
  note v = NextVarBytes_prefix [OF b(2,3)] advance_prefix [OF b(2,3)]
  show ?case
    using b(1) v(1) Cons.IH [OF v(2,3) n(2), of "acc @ [p]"] by (cases p) (simp add: NextString_def n(1))
qed

section \<open>An example\<close>

definition gp_blank :: gp where
  "gp_blank = \<lparr>gp_admin = ADDRESS_EMPTY, gp_transfer = ADDRESS_EMPTY, gp_operator = ADDRESS_EMPTY, gp_prepare = Map.empty, gp_current = Map.empty\<rparr>"

definition gp_env :: native_env where
  "gp_env = \<lparr>env_ripemd160 = take 20, EnableEventLog = True, ToBase58 = (\<lambda>a. a), map_range = (\<lambda>d. d)\<rparr>"

definition carol :: Address where
  "carol = replicate 20 5"

definition gp_engine :: SmartContract where
  "gp_engine = \<lparr>Contexts = [\<lparr>ContractAddress = [], ctx_Code = []\<rparr>], sc_Time = 0, sc_Height = 1,
     sc_BlockHash = [], sc_Tx = \<lparr>tx_Verify = [], SignedAddr = [carol]\<rparr>, sc_Notifications = [], Gas = 0, ExecStep = 0,
     sc_PreExec = False, internelErr = False, sc_CrossHashes = []\<rparr>"

definition gp_new :: "((bytes \<Rightarrow> bytes) \<times> (bytes \<times> bytes) list, ParamHandler) NativeService" where
  "gp_new = \<lparr>ns_CacheDB = NewCacheDB example_leveldb (NewOverlayDB example_leveldb (\<lambda>_. [], [])), ServiceMap = Map.empty, ns_Notifications = [],
     InvokeParam = \<lparr>cip_Version = 0, cip_Address = ADDRESS_EMPTY, cip_Method = [], cip_Args = []\<rparr>, ns_Input = [],
     ns_Height = 1, ns_Time = 0, ns_BlockHash = [], ContextRef = gp_engine, ns_PreExec = False, ns_CrossHashes = []\<rparr>"

definition gp_init_args :: bytes where
  "gp_init_args = varbytes_enc (Params_enc [\<lparr>param_Key = [1], param_Value = [2]\<rparr>] @ varbytes_enc carol)"

definition gp_started :: gp where
  "gp_started = gp_blank\<lparr>gp_current := [[1] \<mapsto> [2]], gp_prepare := [[1] \<mapsto> [2]], gp_admin := carol, gp_operator := carol\<rparr>"

lemma gp_new_service: "param_service map_store gp_new 0 (\<lambda>_. []) gp_blank"
  using map_cache_ok [of "\<lambda>_. []"]
  by (auto simp: param_service_def gp_new_def ns_shows_def gp_rep_def gp_blank_def gp_engine_def intro: exI [of _ "[]"])

lemma length_gp_init_args: "length gp_init_args \<le> 100"
  using length_arg_enc(1) [of "Params_enc [\<lparr>param_Key = [1], param_Value = [2]\<rparr>] @ varbytes_enc carol"]
    length_arg_enc(1) [of carol] length_arg_enc(2) [of 1]
  by (simp add: gp_init_args_def Params_enc_def param_enc_def carol_def varbytes_enc_def varuint_enc_def)

lemma carol_signs: "length carol = 20" "carol \<noteq> ADDRESS_EMPTY" "appointed (witnessed gp_env gp_new) carol"
proof -
  have "hd carol \<noteq> hd ADDRESS_EMPTY"
    by (simp add: carol_def ADDRESS_EMPTY_def)
  then show "carol \<noteq> ADDRESS_EMPTY"
    by metis
  then show "appointed (witnessed gp_env gp_new) carol"
    by (simp add: appointed_def witnessed_def CheckWitness_def checkAccountAddress_def GetSignatureAddresses_def gp_new_def gp_engine_def
        in_contract_def PushContext_def)
qed (simp add: carol_def)

lemma gp_init_effect: "param_effect gp_env gp_new INIT_NAME gp_init_args gp_blank = Some (BYTE_TRUE, gp_started)"
  using request_init [of "[\<lparr>param_Key = [1], param_Value = [2]\<rparr>]" carol] length_gp_init_args carol_signs(1)
  by (simp add: param_effect_def gp_init_args_def gp_blank_def gp_started_def sink_max_def)

lemma gp_start:
  "\<exists>ns' f'. param_call gp_env map_store INIT_NAME gp_init_args gp_new = Ok (BYTE_TRUE, ns')
    \<and> param_service map_store ns' (length gp_init_args) f' gp_started \<and> appointed (witnessed gp_env ns') (gp_operator gp_started)"
  using param_call_meets [OF gp_new_service, of gp_init_args gp_env INIT_NAME] length_gp_init_args carol_signs(3)
  by (auto simp: gp_init_effect sink_max_def gp_started_def)

lemma assign_nonempty: "qs \<noteq> [] \<Longrightarrow> assign qs m \<noteq> Map.empty"
proof -
  have "m \<noteq> Map.empty \<longrightarrow> assign qs m \<noteq> Map.empty" for qs m
    unfolding assign_def by (induction qs arbitrary: m) simp_all
  then show "qs \<noteq> [] \<Longrightarrow> assign qs m \<noteq> Map.empty"
    by (cases qs) (simp_all add: assign_def)
qed

section \<open>Properties\<close>

text \<open>
  C16. The contract of the global parameters implements its specification. In a service between calls, whatever method and arguments
  are passed: where the arguments stand for a request and the abstract machine has a step for it, the call succeeds, returns what
  the machine returns and leaves a storage that stands for the state after the step, changed at the keys of the contract only; where
  the machine has no step, the call fails with an error. The machine checks the offices and keeps the parameters as maps; the
  code keeps lists in bytes.
\<close>

theorem global_params_refine:
  assumes "param_service PS ns n f g" "n + 2 * length args + 36 \<le> sink_max"
  shows "case param_effect env ns m args g of None \<Rightarrow> \<exists>e. param_call env PS m args ns = Err e
    | Some (out, g') \<Rightarrow> \<exists>ns' f'. param_call env PS m args ns = Ok (out, ns') \<and> param_service PS ns' (n + length args) f' g'
        \<and> (\<forall>k. k \<notin> set (gp_keys ParamContractAddress) \<longrightarrow> f' k = f k)"
  using param_call_meets [OF assms, of env m] by (fastforce split: option.splits)

theorem global_params_refine_witness:
  "\<exists>ns' f'. param_call gp_env map_store INIT_NAME gp_init_args gp_new = Ok (BYTE_TRUE, ns')
    \<and> param_service map_store ns' (length gp_init_args) f' gp_started"
  using global_params_refine [OF gp_new_service, of gp_init_args gp_env INIT_NAME] length_gp_init_args
  by (auto simp: gp_init_effect sink_max_def)

text \<open>
  C17. Who may change what. After a call that succeeds, the parameters in force differ only if the operator, witnessed, called
  \<open>createSnapshot\<close>, and then they are those prepared; the prepared ones differ only if the witnessed operator called
  \<open>setGlobalParam\<close>; the operator differs only if the witnessed administrator called \<open>setOperator\<close>; the administrator differs only if
  the nominee in the transfer office, witnessed, called \<open>acceptAdmin\<close>, becomes the administrator and leaves the transfer office empty;
  the transfer office differs only if the witnessed administrator called \<open>transferAdmin\<close> or the witnessed nominee cleared it by
  \<open>acceptAdmin\<close>. The exception is \<open>init\<close> as long as there is no administrator, and once there is one, there is one for ever.
\<close>

theorem global_params_guarded:
  assumes "param_service PS ns n f g" "n + 2 * length args + 36 \<le> sink_max" "param_call env PS m args ns = Ok (out, ns')"
  defines "office \<equiv> appointed (witnessed env ns)" and "first \<equiv> gp_admin g = ADDRESS_EMPTY \<and> m = INIT_NAME"
  shows "\<exists>f' g'. param_service PS ns' (n + length args) f' g'
    \<and> (gp_current g' = gp_current g \<or> m = CREATE_SNAPSHOT_NAME \<and> office (gp_operator g) \<and> gp_current g' = gp_prepare g \<or> first)
    \<and> (gp_prepare g' = gp_prepare g \<or> m = SET_GLOBAL_PARAM_NAME \<and> office (gp_operator g) \<or> first)
    \<and> (gp_operator g' = gp_operator g \<or> m = SET_OPERATOR \<and> office (gp_admin g) \<or> first)
    \<and> (gp_admin g' = gp_admin g
       \<or> m = ACCEPT_ADMIN_NAME \<and> office (gp_admin g') \<and> gp_admin g' = gp_transfer g \<and> gp_transfer g' = ADDRESS_EMPTY \<or> first)
    \<and> (gp_transfer g' = gp_transfer g \<or> m = TRANSFER_ADMIN_NAME \<and> office (gp_admin g)
       \<or> m = ACCEPT_ADMIN_NAME \<and> office (gp_transfer g) \<and> gp_transfer g' = ADDRESS_EMPTY)
    \<and> (gp_admin g \<noteq> ADDRESS_EMPTY \<longrightarrow> gp_admin g' \<noteq> ADDRESS_EMPTY)"
proof -
  obtain g' f' where s: "param_effect env ns m args g = Some (out, g')" "param_service PS ns' (n + length args) f' g'"
    using param_call_meets [OF assms(1,2), of env m] assms(3) by (auto split: option.splits)
  then obtain h q where h: "param_methods m = Some h" "request h args = Ok q" "gp_step (witnessed env ns) q g = Some (out, g')"
    by (auto simp: param_effect_def param_request_def Option.bind_eq_Some_conv split: option.splits res.splits)
  have m: "h = H_ParamInit \<Longrightarrow> m = INIT_NAME" "h = H_CreateSnapshot \<Longrightarrow> m = CREATE_SNAPSHOT_NAME" "h = H_SetGlobalParam \<Longrightarrow> m = SET_GLOBAL_PARAM_NAME"
    "h = H_SetOperator \<Longrightarrow> m = SET_OPERATOR" "h = H_AcceptAdmin \<Longrightarrow> m = ACCEPT_ADMIN_NAME" "h = H_TransferAdmin \<Longrightarrow> m = TRANSFER_ADMIN_NAME"
    using h(1) by (auto simp: param_methods_def split: if_splits)
  show ?thesis
    using s(2) h(2,3) m unfolding office_def first_def
    by (intro exI [of _ f'] exI [of _ g']) (cases h; auto simp: bind_res_Ok_iff appointed_def split: if_splits)
qed

theorem global_params_guarded_witness:
  "\<exists>ns' f' g'. param_call gp_env map_store INIT_NAME gp_init_args gp_new = Ok (BYTE_TRUE, ns')
    \<and> param_service map_store ns' (length gp_init_args) f' g' \<and> gp_transfer g' = ADDRESS_EMPTY"
proof -
  have len: "0 + 2 * length gp_init_args + 36 \<le> sink_max"
    using length_gp_init_args by (simp add: sink_max_def)
  obtain ns' where "param_call gp_env map_store INIT_NAME gp_init_args gp_new = Ok (BYTE_TRUE, ns')"
    using gp_start by blast
  then show ?thesis
    using global_params_guarded [OF gp_new_service len, of gp_env INIT_NAME BYTE_TRUE ns'] by (auto simp: gp_blank_def appointed_def)
qed

text \<open>
  C18. From setting to reading. The operator sets any parameters, makes a snapshot, and a question for any names is then answered, in the
  order of the names and each once, with the values set last, with the values prepared before for names that were not set, and
  with an empty value for names that nobody set.
\<close>

theorem set_snapshot_get:
  assumes "param_service PS ns n f g" "n + 2 * (length (Params_enc qs) + length (names_enc names)) + 36 \<le> sink_max"
    "appointed (witnessed env ns) (gp_operator g)" "qs \<noteq> []" "names \<noteq> []"
  shows "\<exists>n1 n2 n3. param_call env PS SET_GLOBAL_PARAM_NAME (Params_enc qs) ns = Ok (BYTE_TRUE, n1)
    \<and> param_call env PS CREATE_SNAPSHOT_NAME [] n1 = Ok (BYTE_TRUE, n2)
    \<and> param_call env PS GET_GLOBAL_PARAM_NAME (names_enc names) n2 = Ok (Params_enc (answers (assign qs (gp_prepare g)) names), n3)"
proof -
  let ?m = "assign qs (gp_prepare g)" and ?p = "length (Params_enc qs)"
  have m: "?m \<noteq> Map.empty"
    using assign_nonempty [OF assms(4)] .
  obtain n1 f1 where 1: "param_call env PS SET_GLOBAL_PARAM_NAME (Params_enc qs) ns = Ok (BYTE_TRUE, n1)"
    "param_service PS n1 (n + ?p) f1 (g\<lparr>gp_prepare := ?m\<rparr>)" "witnessed env n1 = witnessed env ns"
    using param_call_meets [OF assms(1), of "Params_enc qs" env SET_GLOBAL_PARAM_NAME] request_well_formed(1) [of qs] assms(2-4)
    by (auto simp: param_effect_def)
  obtain n2 f2 where 2: "param_call env PS CREATE_SNAPSHOT_NAME [] n1 = Ok (BYTE_TRUE, n2)"
    "param_service PS n2 (n + ?p) f2 (g\<lparr>gp_prepare := ?m, gp_current := ?m\<rparr>)"
    using param_call_meets [OF 1(2), of "[]" env CREATE_SNAPSHOT_NAME] request_well_formed(3) [of "[]"] assms(2,3) m 1(3)
    by (auto simp: param_effect_def)
  obtain n3 where "param_call env PS GET_GLOBAL_PARAM_NAME (names_enc names) n2 = Ok (Params_enc (answers ?m names), n3)"
    using param_call_meets [OF 2(2), of "names_enc names" env GET_GLOBAL_PARAM_NAME] request_well_formed(2) [of names] assms(2,5) m
    by (auto simp: param_effect_def)
  then show ?thesis
    using 1(1) 2(1) by blast
qed

theorem set_snapshot_get_witness:
  "\<exists>n0 n1 n2 n3. param_call gp_env map_store INIT_NAME gp_init_args gp_new = Ok (BYTE_TRUE, n0)
    \<and> param_call gp_env map_store SET_GLOBAL_PARAM_NAME (Params_enc [\<lparr>param_Key = [3], param_Value = [4]\<rparr>]) n0 = Ok (BYTE_TRUE, n1)
    \<and> param_call gp_env map_store CREATE_SNAPSHOT_NAME [] n1 = Ok (BYTE_TRUE, n2)
    \<and> param_call gp_env map_store GET_GLOBAL_PARAM_NAME (names_enc [[3], [1], [3], [9]]) n2
      = Ok (Params_enc [\<lparr>param_Key = [3], param_Value = [4]\<rparr>, \<lparr>param_Key = [1], param_Value = [2]\<rparr>, \<lparr>param_Key = [9], param_Value = []\<rparr>], n3)"
proof -
  obtain n0 f0 where n0: "param_call gp_env map_store INIT_NAME gp_init_args gp_new = Ok (BYTE_TRUE, n0)"
    "param_service map_store n0 (length gp_init_args) f0 gp_started" "appointed (witnessed gp_env n0) (gp_operator gp_started)"
    using gp_start by blast
  have "answers (assign [\<lparr>param_Key = [3], param_Value = [4]\<rparr>] (gp_prepare gp_started)) [[3], [1], [3], [9]]
    = [\<lparr>param_Key = [3], param_Value = [4]\<rparr>, \<lparr>param_Key = [1], param_Value = [2]\<rparr>, \<lparr>param_Key = [9], param_Value = []\<rparr>]"
    by (simp add: answers_def valued_def assign_def gp_started_def)
  moreover have "length gp_init_args + 2 * (length (Params_enc [\<lparr>param_Key = [3], param_Value = [4]\<rparr>]) + length (names_enc [[3], [1], [3], [9]])) + 36 \<le> sink_max"
    using length_gp_init_args length_arg_enc(2) [of 1] length_arg_enc(2) [of 4]
    by (simp add: Params_enc_def names_enc_def param_enc_def varbytes_enc_def varuint_enc_def sink_max_def)
  ultimately show ?thesis
    using n0(1) set_snapshot_get [OF n0(2) _ n0(3), of "[\<lparr>param_Key = [3], param_Value = [4]\<rparr>]" "[[3], [1], [3], [9]]"] by auto
qed

text \<open>
  C19. A truncated list is accepted. \<open>setGlobalParam\<close> with arguments that announce \<open>k\<close> parameters and hold fewer succeeds and prepares
  those that are there: the error that the decoder returns at the end of the bytes wraps the nil error of the length, and
  \<open>NewDetailErr\<close> of a nil error is nil.
\<close>

theorem truncated_params_accepted:
  assumes "param_service PS ns n f g" "appointed (witnessed env ns) (gp_operator g)" "ps \<noteq> []"
    "k < 0x8000000000000000" "length ps \<le> unat k"
  defines "args \<equiv> VarUint_arg_enc k @ concat (map param_enc ps)"
  assumes "n + 2 * length args + 36 \<le> sink_max"
  shows "\<exists>ns' f'. param_call env PS SET_GLOBAL_PARAM_NAME args ns = Ok (BYTE_TRUE, ns')
    \<and> param_service PS ns' (n + length args) f' (g\<lparr>gp_prepare := assign ps (gp_prepare g)\<rparr>)"
proof -
  have "wf_src (NewZeroCopySource args)"
    using assms(7) by (intro wf_NewZeroCopySource) (simp add: sink_max_def maxInt_def)
  note d = arg_uint.reads_then [OF assms(4) this, of "concat (map param_enc ps)"]
  obtain s where "Params_loop (unat k) [] (advance (length (VarUint_arg_enc k)) (NewZeroCopySource args)) = Ok (ps, s)"
    using Params_loop_truncated [OF d(2,3) assms(5), of "[]"] by (auto simp: args_def)
  then have "param_request SET_GLOBAL_PARAM_NAME args = Some (R_Set ps)"
    using d(1) by (simp add: param_request_def Params_Deserialization_def detail_def args_def)
  then show ?thesis
    using param_call_meets [OF assms(1,7), of env SET_GLOBAL_PARAM_NAME] assms(2,3) by (auto simp: param_effect_def)
qed

theorem truncated_params_accepted_witness:
  "\<exists>n0 n1 f1. param_call gp_env map_store INIT_NAME gp_init_args gp_new = Ok (BYTE_TRUE, n0)
    \<and> param_call gp_env map_store SET_GLOBAL_PARAM_NAME (VarUint_arg_enc 7 @ param_enc \<lparr>param_Key = [3], param_Value = [4]\<rparr>) n0 = Ok (BYTE_TRUE, n1)
    \<and> param_service map_store n1 (length gp_init_args + length (VarUint_arg_enc 7 @ param_enc \<lparr>param_Key = [3], param_Value = [4]\<rparr>)) f1
      (gp_started\<lparr>gp_prepare := [[1] \<mapsto> [2], [3] \<mapsto> [4]]\<rparr>)"
proof -
  obtain n0 f0 where n0: "param_call gp_env map_store INIT_NAME gp_init_args gp_new = Ok (BYTE_TRUE, n0)"
    "param_service map_store n0 (length gp_init_args) f0 gp_started" "appointed (witnessed gp_env n0) (gp_operator gp_started)"
    using gp_start by blast
  have "length gp_init_args + 2 * length (VarUint_arg_enc 7 @ param_enc \<lparr>param_Key = [3], param_Value = [4]\<rparr>) + 36 \<le> sink_max"
    using length_gp_init_args length_arg_enc(2) [of 7] by (simp add: param_enc_def varbytes_enc_def varuint_enc_def sink_max_def)
  then show ?thesis
    using n0(1) truncated_params_accepted [OF n0(2,3), of "[\<lparr>param_Key = [3], param_Value = [4]\<rparr>]" 7]
    by (auto simp: assign_def gp_started_def)
qed

end
