(* ===== verification/NeoInt.thy ===== *)
theory NeoInt
  imports BigIntNeo "HOL-Library.Signed_Division"
begin

text \<open>
  The integers of the NeoVM, \<open>src/vm/neovm/types/int_value.go\<close>: an \<open>int64\<close> as long as the value fits,
  a \<open>*big.Int\<close> of at most 32 bytes otherwise. The package \<open>overflow\<close>, which computes the sum,
  difference and product of two \<open>int64\<close> and says whether they fit, is a parameter. The operations
  are shown to compute the integers they stand for, and to fail exactly when the result is
  too large; the one exception is the quotient of the least \<open>int64\<close> by -1, which wraps around.
\<close>

section \<open>Definitions\<close>

type_synonym i64 = "64 word"

definition MAX_INT_SIZE :: nat where
  "MAX_INT_SIZE = 32"

definition ERR_OVER_MAX_BIGINTEGER_SIZE :: err where
  "ERR_OVER_MAX_BIGINTEGER_SIZE = ''the biginteger over max size 32bit''"

definition ERR_DIV_MOD_BY_ZERO :: err where
  "ERR_DIV_MOD_BY_ZERO = ''div or mod by zero''"

definition ERR_SHIFT_BY_NEG :: err where
  "ERR_SHIFT_BY_NEG = ''shift by negtive value''"

text \<open>The functions of the package \<open>overflow\<close> that are used.\<close>

record overflow_pkg =
  Add64 :: "i64 \<Rightarrow> i64 \<Rightarrow> i64 \<times> bool"
  Sub64 :: "i64 \<Rightarrow> i64 \<Rightarrow> i64 \<times> bool"
  Mul64 :: "i64 \<Rightarrow> i64 \<Rightarrow> i64 \<times> bool"

text \<open>An \<open>IntValue\<close> is tagged by its field \<open>isbig\<close>, which selects \<open>integer\<close> or \<open>bigint\<close>.\<close>

datatype IntValue = Small i64 | Big int

definition big_IsInt64 :: "int \<Rightarrow> bool" where
  "big_IsInt64 z \<longleftrightarrow> - (2 ^ 63) \<le> z \<and> z < 2 ^ 63"

definition big_IsUint64 :: "int \<Rightarrow> bool" where
  "big_IsUint64 z \<longleftrightarrow> 0 \<le> z \<and> z < 2 ^ 64"

definition big_Cmp :: "int \<Rightarrow> int \<Rightarrow> int" where
  "big_Cmp x y = (if x < y then -1 else if x = y then 0 else 1)"

text \<open>When the size is exceeded the Go function fills its result as well; no caller reads it then.\<close>

definition IntValFromBigInt :: "int \<Rightarrow> IntValue res" where
  "IntValFromBigInt val =
     (if length (big_Bytes val) > MAX_INT_SIZE then Err ERR_OVER_MAX_BIGINTEGER_SIZE
      else if big_IsInt64 val then Ok (Small (of_int val)) else Ok (Big val))"

definition IntValFromNeoBytes :: "bytes \<Rightarrow> IntValue res" where
  "IntValFromNeoBytes val = IntValFromBigInt (BigIntFromNeoBytes val)"

definition IntVal_ToNeoBytes :: "IntValue \<Rightarrow> bytes" where
  "IntVal_ToNeoBytes v = BigIntToNeoBytes (case v of Small i \<Rightarrow> sint i | Big b \<Rightarrow> b)"

definition IntValFromInt :: "i64 \<Rightarrow> IntValue" where
  "IntValFromInt val = Small val"

definition IsZero :: "IntValue \<Rightarrow> bool" where
  "IsZero v = (case v of Big b \<Rightarrow> sgn b = 0 | Small i \<Rightarrow> i = 0)"

definition IntVal_Sign :: "IntValue \<Rightarrow> int" where
  "IntVal_Sign v = (case v of Big b \<Rightarrow> sgn b
     | Small i \<Rightarrow> if sint i < 0 then -1 else if i = 0 then 0 else 1)"

text \<open>The shift distance of \<open>Lsh\<close> and \<open>Rsh\<close>.\<close>

definition shift_count :: "IntValue \<Rightarrow> u64 res" where
  "shift_count other = (case other of
       Small i \<Rightarrow> if sint i < 0 then Err ERR_SHIFT_BY_NEG else Ok i
     | Big b \<Rightarrow> if big_IsUint64 b = False then Err ERR_SHIFT_BY_NEG else Ok (of_int b))"

definition Rsh :: "IntValue \<Rightarrow> IntValue \<Rightarrow> IntValue res" where
  "Rsh self other =
     bind_res (shift_count other) (\<lambda>val.
       if unat val > MAX_INT_SIZE * 8 then Ok (if IntVal_Sign self < 0 then IntValFromInt (-1) else Small 0)
       else
         let left = (case self of Big b \<Rightarrow> b | Small i \<Rightarrow> sint i)
         in IntValFromBigInt (drop_bit (unat val) left))"

definition Lsh :: "IntValue \<Rightarrow> IntValue \<Rightarrow> IntValue res" where
  "Lsh self other =
     bind_res (shift_count other) (\<lambda>val.
       if unat val > MAX_INT_SIZE * 8 then Err ERR_OVER_MAX_BIGINTEGER_SIZE
       else
         let left = (case self of Big b \<Rightarrow> b | Small i \<Rightarrow> sint i)
         in IntValFromBigInt (push_bit (unat val) left))"

definition intOp :: "IntValue \<Rightarrow> IntValue \<Rightarrow> (i64 \<Rightarrow> i64 \<Rightarrow> i64 \<times> bool) \<Rightarrow> (int \<Rightarrow> int \<Rightarrow> IntValue res) \<Rightarrow> IntValue res" where
  "intOp self other littleintFunc bigintFunc =
     (let left = (case self of Small i \<Rightarrow> sint i | Big b \<Rightarrow> b);
          right = (case other of Small i \<Rightarrow> sint i | Big b \<Rightarrow> b)
      in case (self, other) of
           (Small a, Small b) \<Rightarrow>
             (case littleintFunc a b of (val, ok) \<Rightarrow> if ok then Ok (IntValFromInt val) else bigintFunc left right)
         | _ \<Rightarrow> bigintFunc left right)"

definition IntVal_Max :: "IntValue \<Rightarrow> IntValue \<Rightarrow> IntValue res" where
  "IntVal_Max self other = intOp self other (\<lambda>a b. if sint a < sint b then (b, True) else (a, True))
     (\<lambda>a b. IntValFromBigInt (if big_Cmp a b \<le> 0 then b else a))"

definition IntVal_Min :: "IntValue \<Rightarrow> IntValue \<Rightarrow> IntValue res" where
  "IntVal_Min self other = intOp self other (\<lambda>a b. if sint a < sint b then (a, True) else (b, True))
     (\<lambda>a b. IntValFromBigInt (if big_Cmp a b \<le> 0 then a else b))"

definition IntVal_Xor :: "IntValue \<Rightarrow> IntValue \<Rightarrow> IntValue res" where
  "IntVal_Xor self other = intOp self other (\<lambda>a b. (a XOR b, True)) (\<lambda>a b. IntValFromBigInt (a XOR b))"

definition IntVal_And :: "IntValue \<Rightarrow> IntValue \<Rightarrow> IntValue res" where
  "IntVal_And self other = intOp self other (\<lambda>a b. (a AND b, True)) (\<lambda>a b. IntValFromBigInt (a AND b))"

definition IntVal_Or :: "IntValue \<Rightarrow> IntValue \<Rightarrow> IntValue res" where
  "IntVal_Or self other = intOp self other (\<lambda>a b. (a OR b, True)) (\<lambda>a b. IntValFromBigInt (a OR b))"

definition IntVal_Cmp :: "IntValue \<Rightarrow> IntValue \<Rightarrow> int" where
  "IntVal_Cmp self other = (case (self, other) of
       (Small a, Small b) \<Rightarrow> if sint a < sint b then -1 else if a = b then 0 else 1
     | _ \<Rightarrow> big_Cmp (case self of Small i \<Rightarrow> sint i | Big b \<Rightarrow> b) (case other of Small i \<Rightarrow> sint i | Big b \<Rightarrow> b))"

definition IntVal_Not :: "IntValue \<Rightarrow> IntValue" where
  "IntVal_Not self = (case self of Big b \<Rightarrow> Big (NOT b) | Small i \<Rightarrow> Small (NOT i))"

definition IntVal_Abs :: "IntValue \<Rightarrow> IntValue" where
  "IntVal_Abs self = (case self of
       Big b \<Rightarrow> Big \<bar>b\<bar>
     | Small i \<Rightarrow> if sint i = - (2 ^ 63) then Big \<bar>sint i\<bar>
                else if sint i < 0 then Small (- i) else Small i)"

text \<open>
  Go's \<open>/\<close> and \<open>%\<close> on \<open>int64\<close>, and \<open>Quo\<close> and \<open>Rem\<close> of \<open>big.Int\<close>, truncate towards zero; the quotient
  of two \<open>int64\<close> is reduced to 64 bits.
\<close>

definition quot64 :: "i64 \<Rightarrow> i64 \<Rightarrow> i64" where
  "quot64 a b = of_int (sint a sdiv sint b)"

definition rem64 :: "i64 \<Rightarrow> i64 \<Rightarrow> i64" where
  "rem64 a b = of_int (sint a smod sint b)"

definition IntVal_Mod :: "IntValue \<Rightarrow> IntValue \<Rightarrow> IntValue res" where
  "IntVal_Mod self other =
     (if IsZero other then Err ERR_DIV_MOD_BY_ZERO
      else intOp self other (\<lambda>a b. (rem64 a b, True)) (\<lambda>a b. IntValFromBigInt (a smod b)))"

definition IntVal_Div :: "IntValue \<Rightarrow> IntValue \<Rightarrow> IntValue res" where
  "IntVal_Div self other =
     (if IsZero other then Err ERR_DIV_MOD_BY_ZERO
      else intOp self other (\<lambda>a b. (quot64 a b, True)) (\<lambda>a b. IntValFromBigInt (a sdiv b)))"

definition IntVal_Mul :: "overflow_pkg \<Rightarrow> IntValue \<Rightarrow> IntValue \<Rightarrow> IntValue res" where
  "IntVal_Mul ov self other = intOp self other (Mul64 ov) (\<lambda>a b. IntValFromBigInt (a * b))"

definition IntVal_Add :: "overflow_pkg \<Rightarrow> IntValue \<Rightarrow> IntValue \<Rightarrow> IntValue res" where
  "IntVal_Add ov self other = intOp self other (Add64 ov) (\<lambda>a b. IntValFromBigInt (a + b))"

definition IntVal_Sub :: "overflow_pkg \<Rightarrow> IntValue \<Rightarrow> IntValue \<Rightarrow> IntValue res" where
  "IntVal_Sub ov self other = intOp self other (Sub64 ov) (\<lambda>a b. IntValFromBigInt (a - b))"


section \<open>The integer an IntValue stands for\<close>

primrec ival :: "IntValue \<Rightarrow> int" where
  "ival (Small i) = sint i"
| "ival (Big b) = b"

text \<open>\<open>Big\<close> holds only what does not fit an \<open>int64\<close>.\<close>

definition canonical :: "IntValue \<Rightarrow> bool" where
  "canonical v \<longleftrightarrow> (case v of Small i \<Rightarrow> True | Big b \<Rightarrow> \<not> big_IsInt64 b)"

definition int_value :: "int \<Rightarrow> IntValue" where
  "int_value z = (if big_IsInt64 z then Small (of_int z) else Big z)"

definition checked :: "int \<Rightarrow> IntValue res" where
  "checked z = (if \<bar>z\<bar> < 2 ^ 256 then Ok (int_value z) else Err ERR_OVER_MAX_BIGINTEGER_SIZE)"

text \<open>What the package \<open>overflow\<close> documents: the flag says whether the result fits, and then it is exact.\<close>

definition exact64 :: "(int \<Rightarrow> int \<Rightarrow> int) \<Rightarrow> (i64 \<Rightarrow> i64 \<Rightarrow> i64 \<times> bool) \<Rightarrow> bool" where
  "exact64 g f \<longleftrightarrow> (\<forall>a b. case f a b of (r, ok) \<Rightarrow>
     ok = big_IsInt64 (g (sint a) (sint b)) \<and> (ok \<longrightarrow> sint r = g (sint a) (sint b)))"

definition overflow_ok :: "overflow_pkg \<Rightarrow> bool" where
  "overflow_ok ov \<longleftrightarrow> exact64 (+) (Add64 ov) \<and> exact64 (-) (Sub64 ov) \<and> exact64 (*) (Mul64 ov)"

lemma sint_IsInt64 [simp]: "big_IsInt64 (sint (i :: i64))"
  using sint_ge [of i] sint_lt [of i] by (simp add: big_IsInt64_def)

lemma sint_of_int [simp]: "big_IsInt64 z \<Longrightarrow> sint (of_int z :: i64) = z"
  by (simp add: big_IsInt64_def signed_of_int signed_take_bit_int_eq_self)

lemma word_of_sint: "(of_int (sint (i :: i64)) :: i64) = i"
  by simp

lemma sint_inj [simp]: "sint (a :: i64) = sint b \<longleftrightarrow> a = b" "sint (a :: i64) = 0 \<longleftrightarrow> a = 0"
  by (metis word_of_sint, metis word_of_sint signed_0)

lemma ival_int_value [simp]: "ival (int_value z) = z"
  by (simp add: int_value_def)

lemma canonical_int_value [simp]: "canonical (int_value z)"
  by (simp add: int_value_def canonical_def)

lemma canonical_Small [simp]: "canonical (Small i)"
  by (simp add: canonical_def)

lemma int_value_ival: "canonical v \<Longrightarrow> int_value (ival v) = v"
  by (cases v) (simp_all add: int_value_def canonical_def)

lemma length_nat_le_bytes_less: "length (nat_le_bytes n) \<le> k \<longleftrightarrow> n < 256 ^ k"
proof
  assume "length (nat_le_bytes n) \<le> k"
  then have "(256 :: nat) ^ length (nat_le_bytes n) \<le> 256 ^ k"
    by (rule power_increasing) simp
  then show "n < 256 ^ k"
    using le_val_bound [of "nat_le_bytes n"] by (simp only: le_val_nat_le_bytes less_le_trans)
qed (rule length_nat_le_bytes)

lemma big_Bytes_limit: "length (big_Bytes z) > MAX_INT_SIZE \<longleftrightarrow> \<not> \<bar>z\<bar> < 2 ^ 256"
proof -
  have "length (big_Bytes z) \<le> 32 \<longleftrightarrow> nat \<bar>z\<bar> < 256 ^ 32"
    by (simp only: big_Bytes_def length_rev length_nat_le_bytes_less)
  also have "\<dots> \<longleftrightarrow> \<bar>z\<bar> < 2 ^ 256"
    by (simp add: nat_less_iff)
  finally show ?thesis
    by (auto simp: MAX_INT_SIZE_def)
qed

lemma IntValFromBigInt_eq: "IntValFromBigInt z = checked z"
  by (simp add: IntValFromBigInt_def checked_def big_Bytes_limit int_value_def)

lemma checked_small: "big_IsInt64 z \<Longrightarrow> checked z = Ok (Small (of_int z))"
  by (auto simp: checked_def int_value_def big_IsInt64_def)

lemma intOp_eq:
  assumes "\<And>a b. snd (f a b) \<Longrightarrow> sint (fst (f a b)) = g (sint a) (sint b)"
  shows "intOp x y f (\<lambda>a b. checked (g a b)) = checked (g (ival x) (ival y))"
proof -
  have *: "f a b = (r, True) \<Longrightarrow> Ok (Small r) = checked (g (sint a) (sint b))" for a b r
    using checked_small [OF sint_IsInt64, of r] assms [of a b] word_of_sint [of r] by (simp del: of_int_sint)
  show ?thesis
    by (cases x; cases y) (auto simp: intOp_def IntValFromInt_def * split: prod.split)
qed

lemma exact64D: "exact64 g f \<Longrightarrow> snd (f a b) \<Longrightarrow> sint (fst (f a b)) = g (sint a) (sint b)"
  unfolding exact64_def by (metis (mono_tags, lifting) case_prod_beta)

lemma IsZero_ival: "IsZero v \<longleftrightarrow> ival v = 0"
  by (cases v) (simp_all add: IsZero_def sgn_0_0)

lemma IntVal_Sign_ival: "IntVal_Sign v = sgn (ival v)"
  by (cases v) (simp_all add: IntVal_Sign_def sgn_if)

lemma IntVal_Cmp_ival: "IntVal_Cmp x y = big_Cmp (ival x) (ival y)"
  by (cases x; cases y) (auto simp: IntVal_Cmp_def big_Cmp_def)

lemma IntVal_ToNeoBytes_ival: "IntVal_ToNeoBytes v = BigIntToNeoBytes (ival v)"
  by (cases v) (simp_all add: IntVal_ToNeoBytes_def)

section \<open>The operations\<close>

lemma ival_ops:
  "IntVal_And x y = checked (ival x AND ival y)"
  "IntVal_Or x y = checked (ival x OR ival y)"
  "IntVal_Xor x y = checked (ival x XOR ival y)"
  "IntVal_Max x y = checked (max (ival x) (ival y))"
  "IntVal_Min x y = checked (min (ival x) (ival y))"
proof -
  show "IntVal_And x y = checked (ival x AND ival y)" "IntVal_Or x y = checked (ival x OR ival y)"
    "IntVal_Xor x y = checked (ival x XOR ival y)"
    by (simp_all add: IntVal_And_def IntVal_Or_def IntVal_Xor_def IntValFromBigInt_eq intOp_eq signed_and_eq signed_or_eq signed_xor_eq)
  have mm: "(if big_Cmp a b \<le> 0 then b else a) = max a b" "(if big_Cmp a b \<le> 0 then a else b) = min a b" for a b
    by (auto simp: big_Cmp_def)
  show "IntVal_Max x y = checked (max (ival x) (ival y))" "IntVal_Min x y = checked (min (ival x) (ival y))"
    by (auto simp: IntVal_Max_def IntVal_Min_def IntValFromBigInt_eq mm intro!: intOp_eq)
qed

lemma ival_arith:
  assumes "overflow_ok ov"
  shows "IntVal_Add ov x y = checked (ival x + ival y)"
    "IntVal_Sub ov x y = checked (ival x - ival y)"
    "IntVal_Mul ov x y = checked (ival x * ival y)"
  using assms
  by (auto simp: IntVal_Add_def IntVal_Sub_def IntVal_Mul_def IntValFromBigInt_eq overflow_ok_def dest: exact64D intro!: intOp_eq)

lemma smod_abs: "\<bar>a smod b\<bar> \<le> \<bar>a\<bar>" for a b :: int
proof -
  have "0 \<le> \<bar>a\<bar> mod \<bar>b\<bar>" "\<bar>a\<bar> mod \<bar>b\<bar> \<le> \<bar>a\<bar>"
    by (cases "b = 0"; simp add: zmod_le_nonneg_dividend)+
  then show ?thesis
    by (simp add: signed_modulo_int_def abs_mult)
qed

lemma sdiv_abs: "\<bar>a sdiv b\<bar> \<le> \<bar>a\<bar>" for a b :: int
proof -
  have "0 \<le> \<bar>a\<bar> div \<bar>b\<bar>" "\<bar>a\<bar> div \<bar>b\<bar> \<le> \<bar>a\<bar>"
    using zdiv_mono2 [of "\<bar>a\<bar>" 1 "\<bar>b\<bar>"] by (cases "b = 0"; simp add: pos_imp_zdiv_nonneg_iff)+
  then show ?thesis
    by (simp add: signed_divide_int_def abs_mult)
qed

lemma smod_between: "0 \<le> a \<Longrightarrow> 0 \<le> a smod b" "a \<le> 0 \<Longrightarrow> a smod b \<le> 0" for a b :: int
proof -
  have "0 \<le> \<bar>a\<bar> mod \<bar>b\<bar>"
    by (cases "b = 0") simp_all
  then show "0 \<le> a \<Longrightarrow> 0 \<le> a smod b" "a \<le> 0 \<Longrightarrow> a smod b \<le> 0"
    by (cases a "0 :: int" rule: linorder_cases; simp add: signed_modulo_int_def)+
qed

lemma smod_IsInt64: "big_IsInt64 a \<Longrightarrow> big_IsInt64 (a smod b)"
  using smod_between [of a b] smod_abs [of a b] by (cases "0 \<le> a") (auto simp: big_IsInt64_def)

lemma sdiv_IsInt64:
  assumes "big_IsInt64 a" and "\<not> (a = - (2 ^ 63) \<and> b = -1)"
  shows "big_IsInt64 (a sdiv b)"
proof -
  have a: "- (2 ^ 63) \<le> a" "a < 2 ^ 63"
    using assms(1) by (simp_all add: big_IsInt64_def)
  consider "b = 1" | "b = -1" | "b = 0" | "2 \<le> \<bar>b\<bar>"
    by linarith
  then show ?thesis
  proof cases
    case 4
    have "\<bar>a\<bar> div \<bar>b\<bar> \<le> \<bar>a\<bar> div 2"
      using 4 by (intro zdiv_mono2) auto
    then have "\<bar>a sdiv b\<bar> < 2 ^ 63"
      using a 4 by (auto simp: signed_divide_int_def abs_mult pos_imp_zdiv_nonneg_iff)
    then show ?thesis
      by (auto simp: big_IsInt64_def)
  qed (use a assms(2) in \<open>auto simp: big_IsInt64_def signed_divide_int_def sgn_mult abs_sgn_eq mult.assoc [symmetric] sgn_mult_abs mult_sgn_abs\<close>)
qed

lemma ival_mod:
  "IntVal_Mod x y = (if ival y = 0 then Err ERR_DIV_MOD_BY_ZERO else checked (ival x smod ival y))"
  by (auto simp: IntVal_Mod_def IsZero_ival IntValFromBigInt_eq rem64_def smod_IsInt64 intro!: intOp_eq)

lemma ival_div:
  assumes "canonical x" "canonical y"
  shows "IntVal_Div x y = (if ival y = 0 then Err ERR_DIV_MOD_BY_ZERO
     else if ival x = - (2 ^ 63) \<and> ival y = -1 then Ok x else checked (ival x sdiv ival y))"
proof (cases "ival x = - (2 ^ 63) \<and> ival y = -1")
  case True
  then have "x = Small (of_int (- (2 ^ 63)))" "y = Small (-1)"
    using int_value_ival [OF assms(1)] int_value_ival [OF assms(2)] by (auto simp: int_value_def big_IsInt64_def)
  then show ?thesis
    by (simp add: IntVal_Div_def IsZero_def intOp_def IntValFromInt_def quot64_def)
next
  case False
  then have "intOp x y (\<lambda>a b. (quot64 a b, True)) (\<lambda>a b. checked (a sdiv b)) = checked (ival x sdiv ival y)"
    by (cases x; cases y) (auto simp: intOp_def quot64_def sdiv_IsInt64 checked_small IntValFromInt_def)
  then show ?thesis
    using False by (auto simp: IntVal_Div_def IsZero_ival IntValFromBigInt_eq)
qed

lemma ival_shift_count:
  "shift_count y = (if 0 \<le> ival y \<and> ival y < 2 ^ 64 then Ok (of_int (ival y)) else Err ERR_SHIFT_BY_NEG)"
proof (cases y)
  case (Small i)
  then show ?thesis
    using sint_IsInt64 [of i] by (auto simp: shift_count_def big_IsInt64_def)
qed (simp add: shift_count_def big_IsUint64_def)

lemma shift_distance: "0 \<le> z \<Longrightarrow> z < 2 ^ 64 \<Longrightarrow> unat (of_int z :: u64) = nat z"
  by (simp add: unsigned_of_int take_bit_int_eq_self)

lemma ival_cases: "(case x of Big b \<Rightarrow> b | Small i \<Rightarrow> sint i) = ival x"
  by (cases x) simp_all

lemma ival_Lsh:
  "Lsh x y = (if 0 \<le> ival y \<and> ival y < 2 ^ 64
     then if ival y \<le> 256 then checked (ival x * 2 ^ nat (ival y)) else Err ERR_OVER_MAX_BIGINTEGER_SIZE
     else Err ERR_SHIFT_BY_NEG)"
  by (auto simp: Lsh_def ival_shift_count shift_distance MAX_INT_SIZE_def ival_cases IntValFromBigInt_eq push_bit_eq_mult
      simp del: of_int_sint)

lemma ival_Rsh:
  assumes "\<bar>ival x\<bar> < 2 ^ 256"
  shows "Rsh x y = (if 0 \<le> ival y \<and> ival y < 2 ^ 64 then Ok (int_value (ival x div 2 ^ nat (ival y))) else Err ERR_SHIFT_BY_NEG)"
proof -
  have big: "ival x div 2 ^ k = (if ival x < 0 then -1 else 0)" if "256 < k" for k
  proof -
    have "\<bar>ival x\<bar> < 2 ^ k"
      using assms power_strict_increasing [of 256 k "2 :: int"] that by linarith
    moreover have "ival x div 2 ^ k = (ival x + 2 ^ k) div 2 ^ k - 1"
      by (subst div_add_self2) simp_all
    ultimately show ?thesis
      by (cases "ival x < 0") (auto simp: div_pos_pos_trivial)
  qed
  have small: "\<bar>ival x div 2 ^ k\<bar> < 2 ^ 256" for k
    using assms zdiv_mono2 [of "ival x" 1 "2 ^ k"] zdiv_mono2_neg [of "ival x" 1 "2 ^ k"]
      div_neg_pos_less0 [of "ival x" "2 ^ k"] pos_imp_zdiv_nonneg_iff [of "2 ^ k" "ival x"]
    by (cases "ival x < 0") auto
  show ?thesis
    using small by (auto simp: Rsh_def ival_shift_count shift_distance MAX_INT_SIZE_def ival_cases IntValFromBigInt_eq drop_bit_eq_div
      checked_def big IntVal_Sign_ival IntValFromInt_def int_value_def big_IsInt64_def simp del: of_int_sint)
qed

lemma ival_Not: "ival (IntVal_Not x) = - ival x - 1" "canonical x \<Longrightarrow> canonical (IntVal_Not x)"
proof -
  have "sint (NOT i :: i64) = - sint i - 1" for i
  proof -
    have "NOT i = of_int (- sint i - 1)"
      by (simp add: not_eq_complement)
    then show ?thesis
      using sint_IsInt64 [of i] by (simp only:) (rule sint_of_int, auto simp: big_IsInt64_def)
  qed
  then show "ival (IntVal_Not x) = - ival x - 1" "canonical x \<Longrightarrow> canonical (IntVal_Not x)"
    by (cases x; simp add: IntVal_Not_def not_int_def canonical_def; force simp: big_IsInt64_def)+
qed

lemma ival_Abs: "ival (IntVal_Abs x) = \<bar>ival x\<bar>" "canonical x \<Longrightarrow> canonical (IntVal_Abs x)"
proof -
  have "sint (- i :: i64) = - sint i" if "sint i \<noteq> - (2 ^ 63)" for i
  proof -
    have "sint (of_int (- sint i) :: i64) = - sint i"
      using that sint_IsInt64 [of i] by (intro sint_of_int) (auto simp: big_IsInt64_def)
    then show ?thesis by simp
  qed
  then show "ival (IntVal_Abs x) = \<bar>ival x\<bar>" "canonical x \<Longrightarrow> canonical (IntVal_Abs x)"
    by (cases x; auto simp: IntVal_Abs_def canonical_def big_IsInt64_def)+
qed

lemma ival_checked: "checked z = Ok v \<Longrightarrow> ival v = z \<and> canonical v \<and> \<bar>ival v\<bar> < 2 ^ 256"
  by (auto simp: checked_def split: if_splits)

text \<open>An implementation of the package \<open>overflow\<close>.\<close>

definition overflow_impl :: overflow_pkg where
  "overflow_impl = \<lparr>Add64 = \<lambda>a b. (a + b, big_IsInt64 (sint a + sint b)),
     Sub64 = \<lambda>a b. (a - b, big_IsInt64 (sint a - sint b)), Mul64 = \<lambda>a b. (a * b, big_IsInt64 (sint a * sint b))\<rparr>"

lemma overflow_impl_ok: "overflow_ok overflow_impl"
proof -
  have "sint (a + b) = sint a + sint b" if "big_IsInt64 (sint a + sint b)" for a b :: i64
    using sint_of_int [OF that] by simp
  moreover have "sint (a - b) = sint a - sint b" if "big_IsInt64 (sint a - sint b)" for a b :: i64
    using sint_of_int [OF that] by simp
  moreover have "sint (a * b) = sint a * sint b" if "big_IsInt64 (sint a * sint b)" for a b :: i64
    using sint_of_int [OF that] by simp
  ultimately show ?thesis
    by (simp add: overflow_ok_def exact64_def overflow_impl_def)
qed

text \<open>
  C5. The integer operations of the NeoVM are exact. An \<open>IntValue\<close> stands for an integer and holds it
  as an \<open>int64\<close> whenever it fits. \<open>Add\<close>, \<open>Sub\<close>, \<open>Mul\<close>, \<open>Mod\<close>, \<open>And\<close>, \<open>Or\<close>, \<open>Xor\<close>, \<open>Max\<close> and \<open>Min\<close> return the
  exact integer result in that form, and the error for too large integers exactly when its absolute
  value is \<open>2 ^ 256\<close> or more. \<open>Div\<close> does so as well, truncating towards zero, except that
  the least \<open>int64\<close> divided by -1 is left unchanged. Division by zero and shifts by a negative
  amount or by \<open>2 ^ 64\<close> or more are errors; \<open>Lsh\<close> multiplies by a power of two up to 256 places, \<open>Rsh\<close>
  divides by it rounding down, for every distance. \<open>Cmp\<close> compares the integers, \<open>Not\<close> and
  \<open>Abs\<close> never fail.
\<close>

theorem int_ops_exact:
  assumes "overflow_ok ov" "canonical x" "canonical y" "\<bar>ival x\<bar> < 2 ^ 256"
  shows "IntVal_Add ov x y = checked (ival x + ival y) \<and> IntVal_Sub ov x y = checked (ival x - ival y)
    \<and> IntVal_Mul ov x y = checked (ival x * ival y)
    \<and> IntVal_Div x y = (if ival y = 0 then Err ERR_DIV_MOD_BY_ZERO
        else if ival x = - (2 ^ 63) \<and> ival y = -1 then Ok x else checked (ival x sdiv ival y))
    \<and> IntVal_Mod x y = (if ival y = 0 then Err ERR_DIV_MOD_BY_ZERO else checked (ival x smod ival y))
    \<and> IntVal_And x y = checked (ival x AND ival y) \<and> IntVal_Or x y = checked (ival x OR ival y)
    \<and> IntVal_Xor x y = checked (ival x XOR ival y)
    \<and> IntVal_Max x y = checked (max (ival x) (ival y)) \<and> IntVal_Min x y = checked (min (ival x) (ival y))
    \<and> Lsh x y = (if 0 \<le> ival y \<and> ival y < 2 ^ 64
        then if ival y \<le> 256 then checked (ival x * 2 ^ nat (ival y)) else Err ERR_OVER_MAX_BIGINTEGER_SIZE
        else Err ERR_SHIFT_BY_NEG)
    \<and> Rsh x y = (if 0 \<le> ival y \<and> ival y < 2 ^ 64 then Ok (int_value (ival x div 2 ^ nat (ival y))) else Err ERR_SHIFT_BY_NEG)
    \<and> IntVal_Cmp x y = (if ival x < ival y then -1 else if ival x = ival y then 0 else 1)
    \<and> IntVal_Not x = int_value (- ival x - 1) \<and> IntVal_Abs x = int_value \<bar>ival x\<bar>"
proof -
  have "IntVal_Not x = int_value (- ival x - 1)" "IntVal_Abs x = int_value \<bar>ival x\<bar>"
    using ival_Not [of x] ival_Abs [of x] assms(2) by (metis int_value_ival)+
  then show ?thesis
    using ival_arith [OF assms(1)] ival_ops ival_mod ival_div [OF assms(2,3)] ival_Lsh ival_Rsh [OF assms(4)]
    by (simp only: IntVal_Cmp_ival big_Cmp_def simp_thms)
qed

theorem int_ops_exact_witness:
  "IntVal_Mul overflow_impl (Small (2 ^ 62)) (Small 6) = Ok (Big (6 * 2 ^ 62))
   \<and> IntVal_Div (Small (2 ^ 62)) (Small 6) = Ok (Small 768614336404564650)"
proof -
  have "canonical (Small (2 ^ 62))" "canonical (Small 6)" "\<bar>ival (Small (2 ^ 62))\<bar> < 2 ^ 256"
    by simp_all
  from int_ops_exact [OF overflow_impl_ok this] show ?thesis
    by (simp add: checked_def int_value_def big_IsInt64_def)
qed

end
