(* ===== verification/NeoValue.thy ===== *)
theory NeoValue
  imports NeoInt Loops "HOL-Library.AList"
begin

text \<open>
  The values of the NeoVM, \<open>src/vm/neovm/types\<close>: \<open>neovm_value.go\<close> (conversions and equality),
  \<open>array_value.go\<close>, \<open>struct_value.go\<close>, \<open>map_value.go\<close> and \<open>interop_value.go\<close>. A \<open>VmValue\<close> is tagged by its field
  \<open>valType\<close>; arrays, structs and maps are reached through pointers and shared, so they live in an explicit
  heap, a list of objects in which an address is an index and a new object is appended. The well-formedness
  of heaps and values is defined here, and each operation is shown to keep it, not to panic, and to
  end: copying a struct stops at its limit also when the struct contains itself, and the deep
  comparison of two structs ends on cyclic ones.
\<close>

section \<open>Constants\<close>

definition MAX_BYTEARRAY_SIZE :: nat where
  "MAX_BYTEARRAY_SIZE = 1024 * 1024"

definition MAX_ARRAY_SIZE :: nat where
  "MAX_ARRAY_SIZE = 1024"

definition MAX_CLONE_LENGTH :: nat where
  "MAX_CLONE_LENGTH = 1024"

definition MAX_STRUCT_DEPTH :: nat where
  "MAX_STRUCT_DEPTH = 10"

definition ERR_BAD_VALUE :: err where
  "ERR_BAD_VALUE = ''bad value''"

definition ERR_BAD_TYPE :: err where
  "ERR_BAD_TYPE = ''bad type''"

definition ERR_INTEGER_UNDERFLOW :: err where
  "ERR_INTEGER_UNDERFLOW = ''integer underflow''"

definition ERR_INDEX_OUT_OF_BOUND :: err where
  "ERR_INDEX_OUT_OF_BOUND = ''the index out of bound''"

definition ERR_OVER_MAX_ITEM_SIZE :: err where
  "ERR_OVER_MAX_ITEM_SIZE = ''the item over max size''"

definition ERR_OVER_MAX_ARRAY_SIZE :: err where
  "ERR_OVER_MAX_ARRAY_SIZE = ''the array over max size''"

section \<open>Values and objects\<close>

type_synonym addr = nat

text \<open>
  An interop value holds an interface, \<open>None\<close> when it is nil, otherwise a handle of an object of the host. The
  integer of a boolean is 0 or 1. A byte array is not nil: the interpreter makes every one of them with \<open>make\<close>, with a literal or as
  a slice of another, so that \<open>VBytes\<close> has no case for a nil slice. Only \<open>Deserialize\<close>, which the interpreter does not call, reads an empty byte array as a
  nil slice; nothing but the comparison of structs can tell the difference, and the model of that comparison does not.
\<close>

datatype VmValue =
    VBytes bytes | VBool bool | VInt i64 | VBigInt int
  | VInterop "nat option" | VArray addr | VStruct addr | VMap addr

text \<open>A slice, which may be nil; only the deep comparison tells a nil slice from an empty one.\<close>

datatype 'a slice = NilSlice | Slice "'a list"

fun elems :: "'a slice \<Rightarrow> 'a list" where
  "elems NilSlice = []"
| "elems (Slice xs) = xs"

text \<open>
  The Go map of a \<open>MapValue\<close> sends the byte form of a key to the key and the value: an association list
  with distinct keys, whose order has no meaning.
\<close>

type_synonym map_data = "(bytes \<times> VmValue \<times> VmValue) list"

datatype Obj = ArrayValue "VmValue slice" | StructValue "VmValue slice" | MapValue map_data

type_synonym heap = "Obj list"

text \<open>
  What the virtual machine takes from outside the sources: the package \<open>overflow\<close>, RIPEMD-160, the
  keys \<open>'k\<close> and signature objects \<open>'s\<close> of \<open>dad-go-crypto\<close> (\<open>keypair.DeserializePublicKey\<close>, \<open>signature.Deserialize\<close> and
  \<open>signature.Verify\<close> of that package, taken to return as their types say) and the methods of interop objects.
\<close>

record ('k, 's) neo_env =
  neo_overflow :: overflow_pkg
  neo_ripemd160 :: "bytes \<Rightarrow> bytes"
  DeserializePublicKey :: "bytes \<Rightarrow> err + 'k"
  sig_Deserialize :: "bytes \<Rightarrow> err + 's"
  sig_Verify :: "'k \<Rightarrow> bytes \<Rightarrow> 's \<Rightarrow> bool"
  interop_ToArray :: "nat \<Rightarrow> bytes"
  interop_DeepEqual :: "nat \<Rightarrow> nat \<Rightarrow> bool"

text \<open>Dereferencing; Go's types rule out the other cases, which are panics here.\<close>

definition array_at :: "heap \<Rightarrow> addr \<Rightarrow> VmValue slice res" where
  "array_at h a = (if a < length h then (case h ! a of ArrayValue s \<Rightarrow> Ok s | _ \<Rightarrow> Panic) else Panic)"

definition struct_at :: "heap \<Rightarrow> addr \<Rightarrow> VmValue slice res" where
  "struct_at h a = (if a < length h then (case h ! a of StructValue s \<Rightarrow> Ok s | _ \<Rightarrow> Panic) else Panic)"

definition map_at :: "heap \<Rightarrow> addr \<Rightarrow> map_data res" where
  "map_at h a = (if a < length h then (case h ! a of MapValue d \<Rightarrow> Ok d | _ \<Rightarrow> Panic) else Panic)"

section \<open>neovm_value.go\<close>

definition VmValueFromInt64 :: "i64 \<Rightarrow> VmValue" where
  "VmValueFromInt64 val = VInt val"

definition VmValueFromBytes :: "bytes \<Rightarrow> VmValue res" where
  "VmValueFromBytes val = (if length val > MAX_BYTEARRAY_SIZE then Err ERR_OVER_MAX_ITEM_SIZE else Ok (VBytes val))"

definition VmValueFromBool :: "bool \<Rightarrow> VmValue" where
  "VmValueFromBool val = VBool val"

definition VmValueFromUint64 :: "u64 \<Rightarrow> VmValue" where
  "VmValueFromUint64 val = (if unat val \<le> 2 ^ 63 - 1 then VmValueFromInt64 val else VBigInt (uint val))"

definition VmValueFromIntValue :: "IntValue \<Rightarrow> VmValue" where
  "VmValueFromIntValue val = (case val of Big b \<Rightarrow> VBigInt b | Small i \<Rightarrow> VInt i)"

definition VmValueFromBigInt :: "int \<Rightarrow> VmValue res" where
  "VmValueFromBigInt val = bind_res (IntValFromBigInt val) (\<lambda>value. Ok (VmValueFromIntValue value))"

definition VmValueFromArrayVal :: "addr \<Rightarrow> VmValue" where
  "VmValueFromArrayVal array = VArray array"

definition VmValueFromStructVal :: "addr \<Rightarrow> VmValue" where
  "VmValueFromStructVal val = VStruct val"

definition VmValueFromInteropValue :: "nat option \<Rightarrow> VmValue" where
  "VmValueFromInteropValue val = VInterop val"

definition VmValueFromMapValue :: "addr \<Rightarrow> VmValue" where
  "VmValueFromMapValue val = VMap val"

fun AsBytes :: "VmValue \<Rightarrow> bytes res" where
  "AsBytes (VBool b) = Ok [if b then 1 else 0]"
| "AsBytes (VInt i) = Ok (BigIntToNeoBytes (sint i))"
| "AsBytes (VBigInt b) = Ok (BigIntToNeoBytes b)"
| "AsBytes (VBytes bs) = Ok bs"
| "AsBytes _ = Err ERR_BAD_TYPE"

fun AsBigInt :: "VmValue \<Rightarrow> int res" where
  "AsBigInt (VInt i) = Ok (sint i)"
| "AsBigInt (VBool b) = Ok (of_bool b)"
| "AsBigInt (VBigInt b) = Ok b"
| "AsBigInt (VBytes bs) = Ok (BigIntFromNeoBytes bs)"
| "AsBigInt _ = Err ERR_BAD_TYPE"

fun AsIntValue :: "VmValue \<Rightarrow> IntValue res" where
  "AsIntValue (VInt i) = Ok (IntValFromInt i)"
| "AsIntValue (VBool b) = Ok (IntValFromInt (of_bool b))"
| "AsIntValue (VBigInt b) = IntValFromBigInt b"
| "AsIntValue (VBytes bs) = IntValFromNeoBytes bs"
| "AsIntValue _ = Err ERR_BAD_TYPE"

definition AsInt64 :: "VmValue \<Rightarrow> i64 res" where
  "AsInt64 v = bind_res (AsIntValue v) (\<lambda>val. case val of
     Big b \<Rightarrow> if big_IsInt64 b = False then Err ERR_INTEGER_UNDERFLOW else Ok (of_int b)
   | Small i \<Rightarrow> Ok i)"

fun AsBool :: "VmValue \<Rightarrow> bool res" where
  "AsBool (VInt i) = Ok (i \<noteq> 0)"
| "AsBool (VBool b) = Ok b"
| "AsBool (VBigInt b) = Ok (sgn b \<noteq> 0)"
| "AsBool (VBytes bs) = Ok (list_ex (\<lambda>b. b \<noteq> 0) bs)"
| "AsBool (VStruct _) = Ok True"
| "AsBool (VMap _) = Ok True"
| "AsBool (VArray _) = Err ERR_BAD_TYPE"
| "AsBool (VInterop i) = Ok (i \<noteq> None)"

fun AsMapValue :: "VmValue \<Rightarrow> addr res" where
  "AsMapValue (VMap a) = Ok a"
| "AsMapValue _ = Err ERR_BAD_TYPE"

fun AsStructValue :: "VmValue \<Rightarrow> addr res" where
  "AsStructValue (VStruct a) = Ok a"
| "AsStructValue _ = Err ERR_BAD_TYPE"

fun AsArrayValue :: "VmValue \<Rightarrow> addr res" where
  "AsArrayValue (VArray a) = Ok a"
| "AsArrayValue _ = Err ERR_BAD_TYPE"

fun AsInteropValue :: "VmValue \<Rightarrow> nat option res" where
  "AsInteropValue (VInterop i) = Ok i"
| "AsInteropValue _ = Err ERR_BAD_TYPE"

definition GetMapKey :: "VmValue \<Rightarrow> bytes res" where
  "GetMapKey v = bind_res (AsBytes v) (\<lambda>val. Ok val)"

section \<open>array\_value.go, struct\_value.go, map\_value.go\<close>

definition NewArrayValue :: "heap \<Rightarrow> addr \<times> heap" where
  "NewArrayValue h = (length h, h @ [ArrayValue (Slice [])])"

definition arr_Append :: "addr \<Rightarrow> VmValue \<Rightarrow> heap \<Rightarrow> heap res" where
  "arr_Append self item h =
     bind_res (array_at h self) (\<lambda>data.
       if length (elems data) \<ge> MAX_ARRAY_SIZE then Err ERR_OVER_MAX_ARRAY_SIZE
       else Ok (h[self := ArrayValue (Slice (elems data @ [item]))]))"

definition arr_Len :: "addr \<Rightarrow> heap \<Rightarrow> int res" where
  "arr_Len self h = bind_res (array_at h self) (\<lambda>data. Ok (int (length (elems data))))"

definition arr_RemoveAt :: "addr \<Rightarrow> i64 \<Rightarrow> heap \<Rightarrow> heap res" where
  "arr_RemoveAt self index h =
     bind_res (array_at h self) (\<lambda>data.
       if sint index < 0 \<or> sint index \<ge> int (length (elems data)) then Err ERR_INDEX_OUT_OF_BOUND
       else
         bind_res (slice_res (elems data) 0 (sint index)) (\<lambda>xs.
         bind_res (slice_res (elems data) (sint (index + 1)) (int (length (elems data)))) (\<lambda>ys.
           Ok (h[self := ArrayValue (Slice (xs @ ys))]))))"

definition NewStructValue :: "heap \<Rightarrow> addr \<times> heap" where
  "NewStructValue h = (length h, h @ [StructValue (Slice [])])"

definition struct_Append :: "addr \<Rightarrow> VmValue \<Rightarrow> heap \<Rightarrow> heap res" where
  "struct_Append self item h =
     bind_res (struct_at h self) (\<lambda>data.
       if length (elems data) \<ge> MAX_ARRAY_SIZE then Err ERR_OVER_MAX_ARRAY_SIZE
       else Ok (h[self := StructValue (Slice (elems data @ [item]))]))"

definition struct_Len :: "addr \<Rightarrow> heap \<Rightarrow> int res" where
  "struct_Len self h = bind_res (struct_at h self) (\<lambda>data. Ok (int (length (elems data))))"

text \<open>
  \<open>cloneStruct\<close>, with the depth of the recursion as its first argument and the loop over the elements as a second
  function. \<open>len\<close> is the counter behind the pointer \<open>length\<close>; the appended slice \<open>arr\<close> starts as nil.
\<close>

fun cloneStruct :: "nat \<Rightarrow> addr \<Rightarrow> nat \<Rightarrow> heap \<Rightarrow> (addr \<times> nat \<times> heap) res"
  and clone_items :: "nat \<Rightarrow> VmValue list \<Rightarrow> VmValue list \<Rightarrow> nat \<Rightarrow> heap \<Rightarrow> (VmValue list \<times> nat \<times> heap) res"
where
  "cloneStruct 0 s len h = Diverge"
| "cloneStruct (Suc n) s len h =
     (if len > MAX_CLONE_LENGTH then Err ''over max struct clone length''
      else
        bind_res (struct_at h s) (\<lambda>data.
        bind_res (clone_items n (elems data) [] len h) (\<lambda>(arr, len', h').
          Ok (length h', len', h' @ [StructValue (if arr = [] then NilSlice else Slice arr)]))))"
| "clone_items n [] arr len h = Ok (arr, len, h)"
| "clone_items n (v # vs) arr len h =
     (case AsStructValue v of
        Ok temp \<Rightarrow>
          bind_res (cloneStruct n temp (len + 1) h) (\<lambda>(vc, len', h').
            clone_items n vs (arr @ [VmValueFromStructVal vc]) len' h')
      | _ \<Rightarrow> clone_items n vs (arr @ [v]) (len + 1) h)"

definition struct_Clone :: "addr \<Rightarrow> heap \<Rightarrow> (addr \<times> heap) res" where
  "struct_Clone self h = bind_res (cloneStruct (MAX_CLONE_LENGTH + 2) self 0 h) (\<lambda>(s, _, h'). Ok (s, h'))"

definition NewMapValue :: "heap \<Rightarrow> addr \<times> heap" where
  "NewMapValue h = (length h, h @ [MapValue []])"

definition NewMapVmValue :: "heap \<Rightarrow> VmValue \<times> heap" where
  "NewMapVmValue h = (case NewMapValue h of (m, h') \<Rightarrow> (VMap m, h'))"

definition map_Set :: "addr \<Rightarrow> VmValue \<Rightarrow> VmValue \<Rightarrow> heap \<Rightarrow> heap res" where
  "map_Set this key value h =
     bind_res (GetMapKey key) (\<lambda>skey.
     bind_res (map_at h this) (\<lambda>data. Ok (h[this := MapValue (AList.update skey (key, value) data)])))"

definition map_Reset :: "addr \<Rightarrow> heap \<Rightarrow> heap" where
  "map_Reset this h = h[this := MapValue []]"

definition map_Remove :: "addr \<Rightarrow> VmValue \<Rightarrow> heap \<Rightarrow> heap res" where
  "map_Remove this key h =
     bind_res (GetMapKey key) (\<lambda>skey.
     bind_res (map_at h this) (\<lambda>data. Ok (h[this := MapValue (AList.delete skey data)])))"

text \<open>The value is only meaningful with the flag, so both are an option.\<close>

definition map_Get :: "addr \<Rightarrow> VmValue \<Rightarrow> heap \<Rightarrow> VmValue option res" where
  "map_Get this key h =
     bind_res (GetMapKey key) (\<lambda>skey.
     bind_res (map_at h this) (\<lambda>data. Ok (map_option snd (map_of data skey))))"

text \<open>\<open>sort.Strings\<close> orders byte strings lexicographically; the keys of a map are distinct.\<close>

definition getMapSortedKey :: "map_data \<Rightarrow> bytes list" where
  "getMapSortedKey data = sort (map fst data)"

definition GetMapSortedKey :: "addr \<Rightarrow> heap \<Rightarrow> VmValue list res" where
  "GetMapSortedKey this h =
     bind_res (map_at h this) (\<lambda>data. Ok (map (\<lambda>k. fst (the (map_of data k))) (getMapSortedKey data)))"

definition GetValues :: "addr \<Rightarrow> heap \<Rightarrow> VmValue list res" where
  "GetValues this h =
     bind_res (map_at h this) (\<lambda>data. Ok (map (\<lambda>k. snd (the (map_of data k))) (getMapSortedKey data)))"

section \<open>Equality\<close>

definition interop_Equals :: "('k, 's) neo_env \<Rightarrow> nat option \<Rightarrow> nat option \<Rightarrow> bool" where
  "interop_Equals env this other = (case (this, other) of
     (Some i, Some j) \<Rightarrow> interop_ToArray env i = interop_ToArray env j | _ \<Rightarrow> False)"

text \<open>
  \<open>reflect.DeepEqual\<close> of two pointers to structs: equal pointers are equal, others when what they point
  to is, and a pair of pointers met again during the comparison counts as equal. The pairs still to
  compare are kept in a list. A nil slice differs from an empty one; two maps need the same keys.
\<close>

fun obj_pairs :: "Obj \<Rightarrow> Obj \<Rightarrow> (VmValue \<times> VmValue) list option" where
  "obj_pairs (ArrayValue s) (ArrayValue t) =
     (if (s = NilSlice) = (t = NilSlice) \<and> length (elems s) = length (elems t) then Some (zip (elems s) (elems t)) else None)"
| "obj_pairs (StructValue s) (StructValue t) =
     (if (s = NilSlice) = (t = NilSlice) \<and> length (elems s) = length (elems t) then Some (zip (elems s) (elems t)) else None)"
| "obj_pairs (MapValue d) (MapValue e) =
     (if length d = length e \<and> list_all (\<lambda>(k, _). map_of e k \<noteq> None) d
      then Some (concat (map (\<lambda>(k, x, v). case the (map_of e k) of (y, w) \<Rightarrow> [(x, y), (v, w)]) d)) else None)"
| "obj_pairs _ _ = None"

fun deep_pointers :: "VmValue \<Rightarrow> VmValue \<Rightarrow> (addr \<times> addr) option" where
  "deep_pointers (VArray a) (VArray b) = Some (a, b)"
| "deep_pointers (VStruct a) (VStruct b) = Some (a, b)"
| "deep_pointers (VMap a) (VMap b) = Some (a, b)"
| "deep_pointers _ _ = None"

fun deep_shallow :: "('k, 's) neo_env \<Rightarrow> VmValue \<Rightarrow> VmValue \<Rightarrow> bool" where
  "deep_shallow env (VInterop (Some i)) (VInterop (Some j)) = interop_DeepEqual env i j"
| "deep_shallow env v w = (v = w)"

definition deep_step ::
  "('k, 's) neo_env \<Rightarrow> heap \<Rightarrow> (VmValue \<times> VmValue) list \<times> (addr \<times> addr) list
   \<Rightarrow> ((VmValue \<times> VmValue) list \<times> (addr \<times> addr) list + bool) res" where
  "deep_step env h = (\<lambda>(pending, visited). case pending of
     [] \<Rightarrow> Ok (Inr True)
   | (v, w) # rest \<Rightarrow>
       (case deep_pointers v w of
          Some (a, b) \<Rightarrow>
            if a = b \<or> (a, b) \<in> set visited then Ok (Inl (rest, visited))
            else if a < length h \<and> b < length h then
              (case obj_pairs (h ! a) (h ! b) of
                 None \<Rightarrow> Ok (Inr False)
               | Some ps \<Rightarrow> Ok (Inl (ps @ rest, (a, b) # visited)))
            else Panic
        | None \<Rightarrow> if deep_shallow env v w then Ok (Inl (rest, visited)) else Ok (Inr False)))"

definition DeepEqual :: "('k, 's) neo_env \<Rightarrow> heap \<Rightarrow> addr \<Rightarrow> addr \<Rightarrow> bool res" where
  "DeepEqual env h a b = loop (deep_step env h) ([(VStruct a, VStruct b)], [])"

text \<open>
  Values of two kinds are compared by their bytes when both have any; then only compound values are left,
  and they differ when their types do.
\<close>

definition Equals :: "('k, 's) neo_env \<Rightarrow> heap \<Rightarrow> VmValue \<Rightarrow> VmValue \<Rightarrow> bool res" where
  "Equals env h self other =
     (case (AsBytes self, AsBytes other) of
        (Ok v1, Ok v2) \<Rightarrow> Ok (v1 = v2)
      | _ \<Rightarrow>
        (case (self, other) of
           (VMap a, VMap b) \<Rightarrow> Ok (a = b)
         | (VStruct a, VStruct b) \<Rightarrow> DeepEqual env h a b
         | (VArray a, VArray b) \<Rightarrow> Ok (a = b)
         | (VInterop i, VInterop j) \<Rightarrow> Ok (interop_Equals env i j)
         | _ \<Rightarrow> Ok False))"

section \<open>Well-formed heaps\<close>

fun same_kind :: "Obj \<Rightarrow> Obj \<Rightarrow> bool" where
  "same_kind (ArrayValue _) (ArrayValue _) = True"
| "same_kind (StructValue _) (StructValue _) = True"
| "same_kind (MapValue _) (MapValue _) = True"
| "same_kind _ _ = False"

definition extends :: "heap \<Rightarrow> heap \<Rightarrow> bool" where
  "extends h h' \<longleftrightarrow> length h \<le> length h' \<and> (\<forall>a < length h. same_kind (h ! a) (h' ! a))"

fun wf_val :: "heap \<Rightarrow> VmValue \<Rightarrow> bool" where
  "wf_val h (VBytes bs) \<longleftrightarrow> length bs \<le> MAX_BYTEARRAY_SIZE"
| "wf_val h (VBigInt z) \<longleftrightarrow> \<not> big_IsInt64 z \<and> \<bar>z\<bar> \<le> 2 ^ 256"
| "wf_val h (VArray a) \<longleftrightarrow> a < length h \<and> same_kind (h ! a) (ArrayValue NilSlice)"
| "wf_val h (VStruct a) \<longleftrightarrow> a < length h \<and> same_kind (h ! a) (StructValue NilSlice)"
| "wf_val h (VMap a) \<longleftrightarrow> a < length h \<and> same_kind (h ! a) (MapValue [])"
| "wf_val h _ \<longleftrightarrow> True"

fun wf_obj :: "heap \<Rightarrow> Obj \<Rightarrow> bool" where
  "wf_obj h (ArrayValue s) \<longleftrightarrow> length (elems s) \<le> MAX_ARRAY_SIZE \<and> list_all (wf_val h) (elems s)"
| "wf_obj h (StructValue s) \<longleftrightarrow> length (elems s) \<le> MAX_ARRAY_SIZE \<and> list_all (wf_val h) (elems s)"
| "wf_obj h (MapValue d) \<longleftrightarrow> distinct (map fst d) \<and>
     list_all (\<lambda>(k, x, v). AsBytes x = Ok k \<and> wf_val h x \<and> wf_val h v) d"

definition wf_heap :: "heap \<Rightarrow> bool" where
  "wf_heap h \<longleftrightarrow> list_all (wf_obj h) h"

lemma same_kind_refl [simp]: "same_kind x x"
  by (cases x) simp_all

lemma same_kind_trans: "same_kind x y \<Longrightarrow> same_kind y z \<Longrightarrow> same_kind x z"
  by (cases x; cases y; cases z) simp_all

lemma same_kind_sym: "same_kind x y \<Longrightarrow> same_kind y x"
  by (cases x; cases y) simp_all

lemma extends_refl [simp]: "extends h h"
  by (simp add: extends_def)

lemma extends_trans: "extends h h' \<Longrightarrow> extends h' h'' \<Longrightarrow> extends h h''"
  unfolding extends_def by (meson order.strict_trans2 order.trans same_kind_trans)

lemma wf_val_extends: "wf_val h v \<Longrightarrow> extends h h' \<Longrightarrow> wf_val h' v"
  by (cases v) (auto simp: extends_def intro: same_kind_trans same_kind_sym)

lemma wf_vals_extends: "list_all (wf_val h) vs \<Longrightarrow> extends h h' \<Longrightarrow> list_all (wf_val h') vs"
  by (auto simp: list_all_iff intro: wf_val_extends)

lemma wf_obj_extends: "wf_obj h obj \<Longrightarrow> extends h h' \<Longrightarrow> wf_obj h' obj"
  by (cases obj) (auto simp: list_all_iff intro: wf_val_extends)

lemma extends_snoc [simp]: "extends h (h @ [obj])"
  by (auto simp: extends_def nth_append)

lemma wf_heap_snoc: "wf_heap h \<Longrightarrow> wf_obj h obj \<Longrightarrow> wf_heap (h @ [obj])"
  by (auto simp: wf_heap_def list_all_iff intro: wf_obj_extends [OF _ extends_snoc])

lemma extends_update: "same_kind (h ! a) obj \<Longrightarrow> extends h (h[a := obj])"
  by (cases "a < length h") (auto simp: extends_def nth_list_update)

lemma wf_heap_update:
  assumes "wf_heap h" "same_kind (h ! a) obj" "wf_obj h obj"
  shows "wf_heap (h[a := obj])"
proof -
  have "wf_obj h x" if "x \<in> set (h[a := obj])" for x
    using that assms set_update_subset_insert [of h a obj] by (auto simp: wf_heap_def list_all_iff)
  then show ?thesis
    using wf_obj_extends [OF _ extends_update [OF assms(2)]] by (auto simp: wf_heap_def list_all_iff)
qed

lemma wf_at:
  assumes "wf_heap h"
  shows "wf_val h (VArray a) \<Longrightarrow> \<exists>s. array_at h a = Ok s \<and> h ! a = ArrayValue s \<and> wf_obj h (ArrayValue s)"
    and "wf_val h (VStruct a) \<Longrightarrow> \<exists>s. struct_at h a = Ok s \<and> h ! a = StructValue s \<and> wf_obj h (StructValue s)"
    and "wf_val h (VMap a) \<Longrightarrow> \<exists>d. map_at h a = Ok d \<and> h ! a = MapValue d \<and> wf_obj h (MapValue d)"
proof -
  have "a < length h \<Longrightarrow> wf_obj h (h ! a)"
    using assms by (simp add: wf_heap_def list_all_length)
  then show "wf_val h (VArray a) \<Longrightarrow> \<exists>s. array_at h a = Ok s \<and> h ! a = ArrayValue s \<and> wf_obj h (ArrayValue s)"
    "wf_val h (VStruct a) \<Longrightarrow> \<exists>s. struct_at h a = Ok s \<and> h ! a = StructValue s \<and> wf_obj h (StructValue s)"
    "wf_val h (VMap a) \<Longrightarrow> \<exists>d. map_at h a = Ok d \<and> h ! a = MapValue d \<and> wf_obj h (MapValue d)"
    by (cases "h ! a"; auto simp: array_at_def struct_at_def map_at_def)+
qed

section \<open>The operations keep heaps well-formed\<close>

text \<open>An operation on the heap ends without a panic; when it succeeds the heap is well-formed and no object has changed its kind.\<close>

definition heap_safe :: "heap \<Rightarrow> heap res \<Rightarrow> bool" where
  "heap_safe h r \<longleftrightarrow> (case r of Ok h' \<Rightarrow> wf_heap h' \<and> extends h h' | Err _ \<Rightarrow> True | _ \<Rightarrow> False)"

lemma heap_safe_Err [simp]: "heap_safe h (Err e)"
  by (simp add: heap_safe_def)

lemma heap_safe_update: "wf_heap h \<Longrightarrow> same_kind (h ! a) obj \<Longrightarrow> wf_obj h obj \<Longrightarrow> heap_safe h (Ok (h[a := obj]))"
  by (simp add: heap_safe_def wf_heap_update extends_update)

lemma AsBytes_cases: "(\<exists>bs. AsBytes v = Ok bs) \<or> AsBytes v = Err ERR_BAD_TYPE"
  by (cases v) simp_all

lemma arr_Append_safe:
  assumes "wf_heap h" "wf_val h (VArray a)" "wf_val h v"
  shows "heap_safe h (arr_Append a v h)"
proof -
  obtain s where "array_at h a = Ok s" "h ! a = ArrayValue s" "wf_obj h (ArrayValue s)"
    using wf_at(1) [OF assms(1,2)] by blast
  then show ?thesis
    using assms by (auto simp: arr_Append_def intro!: heap_safe_update)
qed

lemma struct_Append_safe:
  assumes "wf_heap h" "wf_val h (VStruct a)" "wf_val h v"
  shows "heap_safe h (struct_Append a v h)"
proof -
  obtain s where "struct_at h a = Ok s" "h ! a = StructValue s" "wf_obj h (StructValue s)"
    using wf_at(2) [OF assms(1,2)] by blast
  then show ?thesis
    using assms by (auto simp: struct_Append_def intro!: heap_safe_update)
qed

lemma list_all_take_drop: "list_all P xs \<Longrightarrow> list_all P (take i xs) \<and> list_all P (drop i xs)"
  by (auto simp: list_all_iff dest: in_set_takeD in_set_dropD)

text \<open>The sum of two \<open>int64\<close> values does not wrap around when it is in range.\<close>

lemma sint_add_in: "- (2 ^ 63) \<le> sint a + sint b \<Longrightarrow> sint a + sint b < 2 ^ 63 \<Longrightarrow> sint (a + b) = sint a + sint b"
  for a b :: i64
  by (simp add: sint_word_ariths signed_take_bit_int_eq_self)

lemma arr_RemoveAt_safe:
  assumes "wf_heap h" "wf_val h (VArray a)"
  shows "heap_safe h (arr_RemoveAt a i h)"
proof -
  obtain s where "array_at h a = Ok s" "h ! a = ArrayValue s" "wf_obj h (ArrayValue s)"
    using wf_at(1) [OF assms] by blast
  moreover from this have "sint (i + 1) = sint i + 1" if "0 \<le> sint i" "sint i < int (length (elems s))"
    using that sint_add_in [of i 1] by (simp add: MAX_ARRAY_SIZE_def)
  ultimately show ?thesis
    using assms by (auto simp: arr_RemoveAt_def not_less not_le list_all_take_drop intro!: heap_safe_update)
qed

lemma list_all_update: "list_all P d \<Longrightarrow> P (k, v) \<Longrightarrow> list_all P (AList.update k v d)"
  by (induction d) auto

lemma list_all_delete: "list_all P d \<Longrightarrow> list_all P (AList.delete k d)"
  by (induction d) auto

lemma map_Set_safe:
  assumes "wf_heap h" "wf_val h (VMap a)" "wf_val h k" "wf_val h v"
  shows "heap_safe h (map_Set a k v h)"
proof -
  obtain d where d: "map_at h a = Ok d" "h ! a = MapValue d" "wf_obj h (MapValue d)"
    using wf_at(3) [OF assms(1,2)] by blast
  have "wf_obj h (MapValue (AList.update bs (k, v) d))" if "AsBytes k = Ok bs" for bs
    using d(3) assms(3,4) that by (auto simp: distinct_update list_all_update)
  then show ?thesis
    using assms(1) d AsBytes_cases [of k] by (auto simp: map_Set_def GetMapKey_def intro!: heap_safe_update)
qed

lemma map_Remove_safe:
  assumes "wf_heap h" "wf_val h (VMap a)"
  shows "heap_safe h (map_Remove a k h)"
proof -
  obtain d where d: "map_at h a = Ok d" "h ! a = MapValue d" "wf_obj h (MapValue d)"
    using wf_at(3) [OF assms(1,2)] by blast
  have "wf_obj h (MapValue (AList.delete bs d))" for bs
    using d(3) by (auto simp: distinct_delete list_all_delete)
  then show ?thesis
    using assms(1) d AsBytes_cases [of k] by (auto simp: map_Remove_def GetMapKey_def intro!: heap_safe_update)
qed

text \<open>
  Copying a struct. Every nested struct raises the counter, which the code compares with its limit on entry: so
  the recursion is at most that deep, whatever the struct contains.
\<close>

definition clone_ok :: "heap \<Rightarrow> nat \<Rightarrow> (addr \<times> nat \<times> heap) res \<Rightarrow> bool" where
  "clone_ok h len r \<longleftrightarrow> (case r of
     Ok (a, len', h') \<Rightarrow> len \<le> len' \<and> wf_heap h' \<and> extends h h' \<and> wf_val h' (VStruct a)
   | Err _ \<Rightarrow> True | _ \<Rightarrow> False)"

definition items_ok :: "heap \<Rightarrow> nat \<Rightarrow> nat \<Rightarrow> (VmValue list \<times> nat \<times> heap) res \<Rightarrow> bool" where
  "items_ok h len k r \<longleftrightarrow> (case r of
     Ok (arr, len', h') \<Rightarrow> len \<le> len' \<and> wf_heap h' \<and> extends h h' \<and> list_all (wf_val h') arr \<and> length arr = k
   | Err _ \<Rightarrow> True | _ \<Rightarrow> False)"

lemma items_ok_trans:
  "items_ok h' len' k r \<Longrightarrow> len \<le> len' \<Longrightarrow> extends h h' \<Longrightarrow> items_ok h len k r"
  by (auto simp: items_ok_def split: res.splits intro: extends_trans)

lemma clone_safe:
  "wf_heap h \<Longrightarrow> wf_val h (VStruct s) \<Longrightarrow> 1 \<le> n \<Longrightarrow> MAX_CLONE_LENGTH + 2 \<le> n + len \<Longrightarrow>
     clone_ok h len (cloneStruct n s len h)"
  "wf_heap h \<Longrightarrow> list_all (wf_val h) vs \<Longrightarrow> list_all (wf_val h) arr \<Longrightarrow> 1 \<le> n \<Longrightarrow> MAX_CLONE_LENGTH + 1 \<le> n + len \<Longrightarrow>
     items_ok h len (length arr + length vs) (clone_items n vs arr len h)"
proof (induction n s len h and n vs arr len h rule: cloneStruct_clone_items.induct)
  case (2 n s len h)
  show ?case
  proof (cases "len > MAX_CLONE_LENGTH")
    case False
    obtain sl where sl: "struct_at h s = Ok sl" "wf_obj h (StructValue sl)"
      using wf_at(2) [OF 2(2,3)] by blast
    have "items_ok h len (length (elems sl)) (clone_items n (elems sl) [] len h)"
      using 2(1) [OF False sl(1)] sl(2) 2(2,4,5) False by (auto simp: MAX_CLONE_LENGTH_def)
    then show ?thesis
      using sl False
      by (auto simp: clone_ok_def items_ok_def nth_append split: res.splits intro!: wf_heap_snoc intro: extends_trans)
  qed (simp add: clone_ok_def)
next
  case (4 n v vs arr len h)
  show ?case
  proof (cases "AsStructValue v")
    case (Ok t)
    then have "v = VStruct t"
      by (cases v) auto
    then have c: "clone_ok h (len + 1) (cloneStruct n t (len + 1) h)"
      using 4 Ok by simp
    show ?thesis
    proof (cases "cloneStruct n t (len + 1) h")
      case (Ok r)
      obtain a len' h' where r: "r = (a, len', h')"
        by (cases r) auto
      have "items_ok h' len' (length arr + length (v # vs)) (clone_items n vs (arr @ [VStruct a]) len' h')"
        using 4(2) [OF \<open>AsStructValue v = Ok t\<close> Ok, of a "(len', h')" len' h'] c 4(3-) r Ok
        by (auto simp: clone_ok_def wf_vals_extends VmValueFromStructVal_def)
      then show ?thesis
        using c Ok r \<open>v = VStruct t\<close> by (auto simp: clone_ok_def VmValueFromStructVal_def intro: items_ok_trans)
    qed (use c \<open>v = VStruct t\<close> in \<open>auto simp: clone_ok_def items_ok_def\<close>)
  next
    case (Err e)
    then show ?thesis
      using 4(3) [OF Err] 4(4-) by (auto intro: items_ok_trans)
  qed (cases v; simp)+
qed (auto simp: items_ok_def)

lemma struct_Clone_safe:
  assumes "wf_heap h" "wf_val h (VStruct s)"
  shows "(\<exists>e. struct_Clone s h = Err e)
    \<or> (\<exists>a h'. struct_Clone s h = Ok (a, h') \<and> wf_heap h' \<and> extends h h' \<and> wf_val h' (VStruct a))"
  using clone_safe(1) [OF assms, of "MAX_CLONE_LENGTH + 2" 0]
  by (auto simp: clone_ok_def struct_Clone_def split: res.splits)

text \<open>The deep comparison ends: it enters a pair of objects at most once.\<close>

fun obj_size :: "Obj \<Rightarrow> nat" where
  "obj_size (ArrayValue s) = length (elems s)"
| "obj_size (StructValue s) = length (elems s)"
| "obj_size (MapValue d) = 2 * length d"

abbreviation wf_pairs :: "heap \<Rightarrow> (VmValue \<times> VmValue) list \<Rightarrow> bool" where
  "wf_pairs h \<equiv> list_all (\<lambda>(v, w). wf_val h v \<and> wf_val h w)"

lemma wf_pairs_zip: "list_all (wf_val h) xs \<Longrightarrow> list_all (wf_val h) ys \<Longrightarrow> wf_pairs h (zip xs ys)"
  by (auto simp: list_all_iff dest: set_zip_leftD set_zip_rightD)

lemma obj_pairs_map:
  assumes "wf_obj h (MapValue d)" "wf_obj h (MapValue e)" "list_all (\<lambda>(k, _). map_of e k \<noteq> None) d"
  shows "wf_pairs h (concat (map (\<lambda>(k, x, v). case the (map_of e k) of (y, w) \<Rightarrow> [(x, y), (v, w)]) d))
    \<and> length (concat (map (\<lambda>(k, x, v). case the (map_of e k) of (y, w) \<Rightarrow> [(x, y), (v, w)]) d)) = 2 * length d"
proof -
  have "wf_val h y \<and> wf_val h w" if "map_of e k = Some (y, w)" for k y w
    using map_of_SomeD [OF that] assms(2) by (auto simp: list_all_iff)
  then show ?thesis
    using assms(1,3) by (induction d) (auto split: prod.split)
qed

lemma obj_pairs_wf:
  assumes "wf_obj h x" "wf_obj h y" "obj_pairs x y = Some ps"
  shows "wf_pairs h ps \<and> length ps \<le> obj_size x"
  using assms obj_pairs_map [of h]
  by (cases "(x, y)" rule: obj_pairs.cases) (auto simp: wf_pairs_zip simp del: wf_obj.simps(3) split: if_splits)

lemma deep_pointers_wf:
  "deep_pointers v w = Some (a, b) \<Longrightarrow> wf_val h v \<Longrightarrow> wf_val h w \<Longrightarrow> a < length h \<and> b < length h"
  by (cases "(v, w)" rule: deep_pointers.cases) auto

definition deep_inv :: "heap \<Rightarrow> (VmValue \<times> VmValue) list \<times> (addr \<times> addr) list \<Rightarrow> bool" where
  "deep_inv h = (\<lambda>(pending, visited). wf_pairs h pending \<and> distinct visited
     \<and> set visited \<subseteq> {..<length h} \<times> {..<length h})"

definition deep_measure :: "heap \<Rightarrow> (VmValue \<times> VmValue) list \<times> (addr \<times> addr) list \<Rightarrow> nat" where
  "deep_measure h = (\<lambda>(pending, visited).
     (length h * length h - length visited) * (sum_list (map obj_size h) + 1) + length pending)"

lemma deep_visit:
  assumes "deep_inv h ((v, w) # rest, visited)" "a < length h" "b < length h" "(a, b) \<notin> set visited" "length ps \<le> obj_size (h ! a)"
  shows "deep_measure h (ps @ rest, (a, b) # visited) < deep_measure h ((v, w) # rest, visited)"
proof -
  have "card (set ((a, b) # visited)) \<le> card ({..<length h} \<times> {..<length h})"
    using assms by (intro card_mono) (auto simp: deep_inv_def)
  then have le: "length visited < length h * length h"
    using assms by (simp add: deep_inv_def distinct_card)
  have "length ps \<le> sum_list (map obj_size h)"
    using assms(2,5) member_le_sum_list [of "obj_size (h ! a)" "map obj_size h"] by force
  moreover have "length h * length h - length visited = Suc (length h * length h - Suc (length visited))"
    using le by simp
  ultimately show ?thesis
    unfolding deep_measure_def by (simp del: diff_Suc_Suc)
qed

lemma deep_step_decreases:
  assumes h: "wf_heap h" and inv: "deep_inv h (pending, visited)"
  shows "(\<exists>s'. deep_step env h (pending, visited) = Ok (Inl s') \<and> deep_inv h s' \<and> deep_measure h s' < deep_measure h (pending, visited))
    \<or> (\<exists>r. deep_step env h (pending, visited) = Ok (Inr r))"
proof (cases pending)
  case (Cons p rest)
  obtain v w where p: "p = (v, w)" by (cases p)
  have obj: "i < length h \<Longrightarrow> wf_obj h (h ! i)" for i
    using h by (simp add: wf_heap_def list_all_length)
  show ?thesis
  proof (cases "deep_pointers v w")
    case (Some q)
    obtain i j where q: "q = (i, j)" by (cases q)
    have ij: "i < length h" "j < length h"
      using deep_pointers_wf [of v w i j h] inv Some p q Cons by (auto simp: deep_inv_def)
    show ?thesis
      using Some p q Cons inv ij obj_pairs_wf [OF obj [OF ij(1)] obj [OF ij(2)]] deep_visit [of h v w rest visited i j]
      by (auto simp: deep_step_def deep_inv_def deep_measure_def split: option.split)
  next
    case None
    then show ?thesis
      using p Cons inv by (auto simp: deep_step_def deep_inv_def deep_measure_def)
  qed
next
  case Nil
  then show ?thesis
    by (auto simp: deep_step_def)
qed

lemma DeepEqual_returns:
  assumes "wf_heap h" "wf_val h (VStruct a)" "wf_val h (VStruct b)"
  shows "\<exists>r. DeepEqual env h a b = Ok r"
proof -
  have "deep_inv h ([(VStruct a, VStruct b)], [])"
    using assms by (simp add: deep_inv_def)
  moreover have "(\<exists>s'. deep_step env h s = Ok (Inl s') \<and> deep_inv h s' \<and> deep_measure h s' < deep_measure h s)
      \<or> (\<exists>r. deep_step env h s = Ok (Inr r) \<and> True)" if "deep_inv h s" for s
    using deep_step_decreases [OF assms(1), of "fst s" "snd s" env] that by (simp only: prod.collapse simp_thms)
  ultimately have "\<exists>r. loop (deep_step env h) ([(VStruct a, VStruct b)], []) = Ok r \<and> True"
    by (rule loop_total [rotated])
  then show ?thesis
    by (simp add: DeepEqual_def)
qed

lemma Equals_returns: "wf_heap h \<Longrightarrow> wf_val h v \<Longrightarrow> wf_val h w \<Longrightarrow> \<exists>r. Equals env h v w = Ok r"
  using DeepEqual_returns [where env = env] by (cases v; cases w) (auto simp: Equals_def)

section \<open>Conversions\<close>

lemma AsBytes_wf:
  assumes "wf_val h v" "AsBytes v = Ok bs"
  shows "length bs \<le> MAX_BYTEARRAY_SIZE"
proof -
  have "length (BigIntToNeoBytes z) \<le> MAX_BYTEARRAY_SIZE" if "\<bar>z\<bar> \<le> 2 ^ 256" for z :: int
    using length_BigIntToNeoBytes [of z 33] that by (simp add: MAX_BYTEARRAY_SIZE_def)
  moreover have "\<bar>sint i\<bar> \<le> 2 ^ 256" for i :: i64
    using sint_IsInt64 [of i] by (auto simp: big_IsInt64_def)
  ultimately show ?thesis
    using assms by (cases v) (auto simp: MAX_BYTEARRAY_SIZE_def)
qed

lemma checked_cases: "(\<exists>v. checked z = Ok v) \<or> (\<exists>e. checked z = Err e)"
  by (simp add: checked_def)

lemma AsIntValue_cases: "(\<exists>x. AsIntValue v = Ok x) \<or> (\<exists>e. AsIntValue v = Err e)"
  using checked_cases by (cases v) (auto simp: IntValFromBigInt_eq IntValFromNeoBytes_def)

lemma AsIntValue_ival:
  assumes "AsIntValue v = Ok x"
  shows "canonical x \<and> \<bar>ival x\<bar> < 2 ^ 256 \<and> AsBigInt v = Ok (ival x)"
proof -
  have "canonical (Small i) \<and> \<bar>ival (Small i)\<bar> < 2 ^ 256" for i
    using sint_IsInt64 [of i] by (auto simp: big_IsInt64_def)
  then show ?thesis
    using assms
    by (cases v) (auto simp: IntValFromBigInt_eq IntValFromNeoBytes_def IntValFromInt_def checked_def of_bool_def split: if_splits)
qed

lemma AsInt64_cases: "(\<exists>x. AsInt64 v = Ok x) \<or> (\<exists>e. AsInt64 v = Err e)"
  using AsIntValue_cases [of v] by (auto simp: AsInt64_def split: IntValue.splits)

lemma AsBool_cases: "(\<exists>x. AsBool v = Ok x) \<or> (\<exists>e. AsBool v = Err e)"
  by (cases v) auto

lemma AsBigInt_cases: "(\<exists>x. AsBigInt v = Ok x) \<or> (\<exists>e. AsBigInt v = Err e)"
  by (cases v) simp_all

lemma wf_int_value: "canonical x \<Longrightarrow> \<bar>ival x\<bar> \<le> 2 ^ 256 \<Longrightarrow> wf_val h (VmValueFromIntValue x)"
  by (cases x) (simp_all add: VmValueFromIntValue_def canonical_def)

lemma wf_val_pointers:
  "wf_val h v \<Longrightarrow> AsArrayValue v = Ok a \<Longrightarrow> wf_val h (VArray a)"
  "wf_val h v \<Longrightarrow> AsStructValue v = Ok a \<Longrightarrow> wf_val h (VStruct a)"
  "wf_val h v \<Longrightarrow> AsMapValue v = Ok a \<Longrightarrow> wf_val h (VMap a)"
  by (cases v; simp)+

end
