(* ===== verification/NeoStack.thy ===== *)
theory NeoStack
  imports NeoValue
begin

text \<open>
  The stacks of the NeoVM, \<open>src/vm/neovm/value_stack.go\<close> and \<open>value_stack_conversion.go\<close>. As in the code the
  data is a list whose last element is the top; an \<open>int64\<close> index is given by its integer value. The operations
  are shown to keep a stack within its limit and well-formed, and to be those of an abstract stack, a list whose
  first element is the top.
\<close>

section \<open>value\_stack.go\<close>

definition ERR_OVER_STACK_LEN :: err where
  "ERR_OVER_STACK_LEN = ''the count over the stack length''"

definition ERR_OVER_LIMIT_STACK :: err where
  "ERR_OVER_LIMIT_STACK = ''the stack over max size''"

record ValueStack =
  vs_data :: "VmValue list"
  vs_limit :: int

type_synonym 'a stack_op = "ValueStack \<Rightarrow> ('a \<times> ValueStack) res"

definition NewValueStack :: "int \<Rightarrow> ValueStack" where
  "NewValueStack limit = \<lparr>vs_data = [], vs_limit = limit\<rparr>"

definition vs_Count :: "ValueStack \<Rightarrow> nat" where
  "vs_Count self = length (vs_data self)"

definition vs_Insert :: "int \<Rightarrow> VmValue \<Rightarrow> unit stack_op" where
  "vs_Insert index t self =
     (let l = int (length (vs_data self)) in
      if l \<ge> vs_limit self then Err ERR_OVER_LIMIT_STACK
      else if index > l \<or> index < 0 then Err ERR_INDEX_OUT_OF_BOUND
      else
        let i = l - index; d = vs_data self @ [t] in
        bind_res (slice_res d (i + 1) (int (length d))) (\<lambda>dst.
        bind_res (slice_res d i (int (length d))) (\<lambda>src.
        bind_res (upd_res (take (nat (i + 1)) d @ copy_slice dst src) i t) (\<lambda>d'.
          Ok ((), self\<lparr>vs_data := d'\<rparr>)))))"

definition vs_Peek :: "int \<Rightarrow> VmValue stack_op" where
  "vs_Peek index self =
     (let l = int (length (vs_data self)) in
      if index \<ge> l \<or> index < 0 then Err ERR_INDEX_OUT_OF_BOUND
      else let i = l - index in bind_res (at_res (vs_data self) (i - 1)) (\<lambda>value. Ok (value, self)))"

definition vs_Remove :: "int \<Rightarrow> VmValue stack_op" where
  "vs_Remove index self =
     (let l = int (length (vs_data self)) in
      if index \<ge> l \<or> index < 0 then Err ERR_INDEX_OUT_OF_BOUND
      else
        let i = l - index; d = vs_data self in
        bind_res (at_res d (i - 1)) (\<lambda>value.
        bind_res (slice_res d 0 (i - 1)) (\<lambda>below.
        bind_res (slice_res d i l) (\<lambda>above.
          Ok (value, self\<lparr>vs_data := below @ above\<rparr>)))))"

definition vs_Set :: "int \<Rightarrow> VmValue \<Rightarrow> unit stack_op" where
  "vs_Set index t self =
     (if index \<ge> int (length (vs_data self)) \<or> index < 0 then Err ERR_INDEX_OUT_OF_BOUND
      else bind_res (upd_res (vs_data self) index t) (\<lambda>d. Ok ((), self\<lparr>vs_data := d\<rparr>)))"

definition vs_Push :: "VmValue \<Rightarrow> unit stack_op" where
  "vs_Push t self =
     (if int (length (vs_data self)) \<ge> vs_limit self then Err ERR_OVER_STACK_LEN
      else Ok ((), self\<lparr>vs_data := vs_data self @ [t]\<rparr>))"

definition vs_PushMany :: "VmValue list \<Rightarrow> unit stack_op" where
  "vs_PushMany vals self =
     (if int (length (vs_data self) + length vals) > vs_limit self then Err ERR_OVER_STACK_LEN
      else Ok ((), self\<lparr>vs_data := vs_data self @ vals\<rparr>))"

fun arr_append_all :: "addr \<Rightarrow> VmValue list \<Rightarrow> heap \<Rightarrow> heap res" where
  "arr_append_all a [] h = Ok h"
| "arr_append_all a (v # vs) h = bind_res (arr_Append a v h) (arr_append_all a vs)"

definition vs_PushAsArray :: "VmValue list \<Rightarrow> heap \<Rightarrow> ValueStack \<Rightarrow> (ValueStack \<times> heap) res" where
  "vs_PushAsArray vals h self =
     (if int (length (vs_data self) + 1) > vs_limit self then Err ERR_OVER_STACK_LEN
      else case NewArrayValue h of (a, h1) \<Rightarrow>
        bind_res (arr_append_all a vals h1) (\<lambda>h2. Ok (self\<lparr>vs_data := vs_data self @ [VmValueFromArrayVal a]\<rparr>, h2)))"

definition vs_Pop :: "VmValue stack_op" where
  "vs_Pop self =
     (let l = int (length (vs_data self)) in
      if l = 0 then Err ERR_INDEX_OUT_OF_BOUND
      else
        bind_res (at_res (vs_data self) (l - 1)) (\<lambda>value.
        bind_res (slice_res (vs_data self) 0 (l - 1)) (\<lambda>d.
          Ok (value, self\<lparr>vs_data := d\<rparr>))))"

definition vs_PopPair :: "(VmValue \<times> VmValue) stack_op" where
  "vs_PopPair self =
     bind_res (vs_Pop self) (\<lambda>(right, s1). bind_res (vs_Pop s1) (\<lambda>(left, s2). Ok ((left, right), s2)))"

definition vs_PopTriple :: "(VmValue \<times> VmValue \<times> VmValue) stack_op" where
  "vs_PopTriple self =
     bind_res (vs_PopPair self) (\<lambda>((middle, right), s1). bind_res (vs_Pop s1) (\<lambda>(left, s2). Ok ((left, middle, right), s2)))"

definition vs_Swap :: "int \<Rightarrow> int \<Rightarrow> unit stack_op" where
  "vs_Swap i j self =
     (let l = int (length (vs_data self)) in
      if i \<ge> l \<or> i < 0 then Err ERR_INDEX_OUT_OF_BOUND
      else if j \<ge> l \<or> j < 0 then Err ERR_INDEX_OUT_OF_BOUND
      else if i = j then Ok ((), self)
      else
        let d = vs_data self in
        bind_res (at_res d (l - j - 1)) (\<lambda>y.
        bind_res (at_res d (l - i - 1)) (\<lambda>x.
        bind_res (upd_res d (l - i - 1) y) (\<lambda>d1.
        bind_res (upd_res d1 (l - j - 1) x) (\<lambda>d2.
          Ok ((), self\<lparr>vs_data := d2\<rparr>))))))"

definition vs_CopyTo :: "ValueStack \<Rightarrow> ValueStack \<Rightarrow> ValueStack res" where
  "vs_CopyTo self stack =
     (if int (length (vs_data self) + length (vs_data stack)) > vs_limit stack then Err ERR_OVER_STACK_LEN
      else Ok (stack\<lparr>vs_data := vs_data stack @ vs_data self\<rparr>))"

section \<open>value\_stack\_conversion.go\<close>

definition vs_PushBool :: "bool \<Rightarrow> unit stack_op" where
  "vs_PushBool val self = vs_Push (VmValueFromBool val) self"

definition vs_PopAsBool :: "bool stack_op" where
  "vs_PopAsBool self = bind_res (vs_Pop self) (\<lambda>(val, s). bind_res (AsBool val) (\<lambda>x. Ok (x, s)))"

definition vs_PushInt64 :: "i64 \<Rightarrow> unit stack_op" where
  "vs_PushInt64 val self = vs_Push (VmValueFromInt64 val) self"

definition vs_PushUint64 :: "u64 \<Rightarrow> unit stack_op" where
  "vs_PushUint64 val self = vs_Push (VmValueFromUint64 val) self"

definition vs_PushUint32 :: "u32 \<Rightarrow> unit stack_op" where
  "vs_PushUint32 val self = vs_Push (VmValueFromUint64 (ucast val)) self"

definition vs_PopAsInt64 :: "i64 stack_op" where
  "vs_PopAsInt64 self = bind_res (vs_Pop self) (\<lambda>(val, s). bind_res (AsInt64 val) (\<lambda>x. Ok (x, s)))"

definition vs_PopAsIntValue :: "IntValue stack_op" where
  "vs_PopAsIntValue self = bind_res (vs_Pop self) (\<lambda>(val, s). bind_res (AsIntValue val) (\<lambda>x. Ok (x, s)))"

definition vs_PushBytes :: "bytes \<Rightarrow> unit stack_op" where
  "vs_PushBytes val self = bind_res (VmValueFromBytes val) (\<lambda>v. vs_Push v self)"

definition vs_PopAsBytes :: "bytes stack_op" where
  "vs_PopAsBytes self = bind_res (vs_Pop self) (\<lambda>(val, s). bind_res (AsBytes val) (\<lambda>x. Ok (x, s)))"

definition vs_PopAsArray :: "addr stack_op" where
  "vs_PopAsArray self = bind_res (vs_Pop self) (\<lambda>(val, s). bind_res (AsArrayValue val) (\<lambda>x. Ok (x, s)))"

definition vs_PopAsMap :: "addr stack_op" where
  "vs_PopAsMap self = bind_res (vs_Pop self) (\<lambda>(val, s). bind_res (AsMapValue val) (\<lambda>x. Ok (x, s)))"

definition vs_PopAsStruct :: "addr stack_op" where
  "vs_PopAsStruct self = bind_res (vs_Pop self) (\<lambda>(val, s). bind_res (AsStructValue val) (\<lambda>x. Ok (x, s)))"

definition vs_PushAsInteropValue :: "nat option \<Rightarrow> unit stack_op" where
  "vs_PushAsInteropValue val self = vs_Push (VmValueFromInteropValue val) self"

definition vs_PopAsInteropValue :: "nat option stack_op" where
  "vs_PopAsInteropValue self = bind_res (vs_Pop self) (\<lambda>(val, s). bind_res (AsInteropValue val) (\<lambda>x. Ok (x, s)))"

definition vs_PopPairAsBytes :: "(bytes \<times> bytes) stack_op" where
  "vs_PopPairAsBytes self =
     bind_res (vs_PopAsBytes self) (\<lambda>(right, s1). bind_res (vs_PopAsBytes s1) (\<lambda>(left, s2). Ok ((left, right), s2)))"

definition vs_PopPairAsBool :: "(bool \<times> bool) stack_op" where
  "vs_PopPairAsBool self =
     bind_res (vs_PopAsBool self) (\<lambda>(right, s1). bind_res (vs_PopAsBool s1) (\<lambda>(left, s2). Ok ((left, right), s2)))"

definition vs_PopPairAsInt64 :: "(i64 \<times> i64) stack_op" where
  "vs_PopPairAsInt64 self =
     bind_res (vs_PopAsInt64 self) (\<lambda>(right, s1). bind_res (vs_PopAsInt64 s1) (\<lambda>(left, s2). Ok ((left, right), s2)))"

definition vs_PopPairAsIntVal :: "(IntValue \<times> IntValue) stack_op" where
  "vs_PopPairAsIntVal self =
     bind_res (vs_PopAsIntValue self) (\<lambda>(right, s1). bind_res (vs_PopAsIntValue s1) (\<lambda>(left, s2). Ok ((left, right), s2)))"

definition vs_PopTripleAsBytes :: "(bytes \<times> bytes \<times> bytes) stack_op" where
  "vs_PopTripleAsBytes self =
     bind_res (vs_PopAsBytes self) (\<lambda>(right, s1).
     bind_res (vs_PopAsBytes s1) (\<lambda>(middle, s2).
     bind_res (vs_PopAsBytes s2) (\<lambda>(left, s3). Ok ((left, middle, right), s3))))"

definition vs_PopTripleAsBool :: "(bool \<times> bool \<times> bool) stack_op" where
  "vs_PopTripleAsBool self =
     bind_res (vs_PopAsBool self) (\<lambda>(right, s1).
     bind_res (vs_PopAsBool s1) (\<lambda>(middle, s2).
     bind_res (vs_PopAsBool s2) (\<lambda>(left, s3). Ok ((left, middle, right), s3))))"

definition vs_PopTripleAsIntVal :: "(IntValue \<times> IntValue \<times> IntValue) stack_op" where
  "vs_PopTripleAsIntVal self =
     bind_res (vs_PopAsIntValue self) (\<lambda>(right, s1).
     bind_res (vs_PopAsIntValue s1) (\<lambda>(middle, s2).
     bind_res (vs_PopAsIntValue s2) (\<lambda>(left, s3). Ok ((left, middle, right), s3))))"

definition vs_PeekAsBytes :: "int \<Rightarrow> bytes stack_op" where
  "vs_PeekAsBytes index self = bind_res (vs_Peek index self) (\<lambda>(val, s). bind_res (AsBytes val) (\<lambda>bs. Ok (bs, s)))"

section \<open>The abstract stack\<close>

text \<open>The stack with the elements \<open>xs\<close>, the top first.\<close>

definition stk :: "VmValue list \<Rightarrow> int \<Rightarrow> ValueStack" where
  "stk xs l = \<lparr>vs_data = rev xs, vs_limit = l\<rparr>"

named_theorems stack_simps \<open>the stack operations on abstract stacks\<close>

lemma stk_cases: obtains xs l where "st = stk xs l"
  by (cases st) (metis rev_rev_ident stk_def)

lemma stk_sel [simp]: "vs_data (stk xs l) = rev xs" "vs_limit (stk xs l) = l" "vs_Count (stk xs l) = length xs"
  by (simp_all add: stk_def vs_Count_def)

lemma stk_upd [simp]: "(stk xs l)\<lparr>vs_data := ys\<rparr> = stk (rev ys) l"
  by (simp add: stk_def)

lemma stk_Pop [stack_simps]:
  "vs_Pop (stk [] l) = Err ERR_INDEX_OUT_OF_BOUND"
  "vs_Pop (stk (x # xs) l) = Ok (x, stk xs l)"
  by (simp_all add: vs_Pop_def nth_append)

lemma stk_PopPair [stack_simps]:
  "vs_PopPair (stk (r # l # xs) n) = Ok ((l, r), stk xs n)"
  "vs_PopTriple (stk (r # m # l # xs) n) = Ok ((l, m, r), stk xs n)"
  by (simp_all add: vs_PopPair_def vs_PopTriple_def stack_simps)

lemma stk_Push [stack_simps]:
  "vs_Push v (stk xs l) = (if int (length xs) < l then Ok ((), stk (v # xs) l) else Err ERR_OVER_STACK_LEN)"
  by (simp add: vs_Push_def)

lemma stk_PushMany [stack_simps]:
  "vs_PushMany vs (stk xs l) = (if int (length xs + length vs) \<le> l then Ok ((), stk (rev vs @ xs) l) else Err ERR_OVER_STACK_LEN)"
  by (simp add: vs_PushMany_def)

lemma stk_Peek [stack_simps]:
  "vs_Peek i (stk xs l) = (if 0 \<le> i \<and> i < int (length xs) then Ok (xs ! nat i, stk xs l) else Err ERR_INDEX_OUT_OF_BOUND)"
  by (auto simp: vs_Peek_def rev_nth nat_diff_distrib' intro!: arg_cong [where f = "(!) xs"])

lemma stk_Remove [stack_simps]:
  "vs_Remove i (stk xs l) = (if 0 \<le> i \<and> i < int (length xs)
     then Ok (xs ! nat i, stk (take (nat i) xs @ drop (nat i + 1) xs) l) else Err ERR_INDEX_OUT_OF_BOUND)"
proof (cases "0 \<le> i \<and> i < int (length xs)")
  case True
  then obtain k where k: "i = int k" "k < length xs"
    by (metis nonneg_int_cases of_nat_less_iff)
  then have n: "nat (int (length xs) - int k) = length xs - k" "nat (int (length xs) - int k - 1) = length xs - Suc k"
    by simp_all
  show ?thesis
    using k by (simp add: vs_Remove_def Let_def n rev_nth take_rev drop_rev Suc_diff_Suc)
qed (auto simp: vs_Remove_def)

lemma insert_slice:
  "(take (length as + 1) (as @ bs @ [t]) @ copy_slice (drop (length as + 1) (as @ bs @ [t])) (drop (length as) (as @ bs @ [t])))[length as := t]
   = as @ t # bs"
  by (cases bs) (simp_all add: copy_slice_def)

lemma stk_Insert [stack_simps]:
  "vs_Insert i t (stk xs l) = (if \<not> int (length xs) < l then Err ERR_OVER_LIMIT_STACK
     else if 0 \<le> i \<and> i \<le> int (length xs) then Ok ((), stk (take (nat i) xs @ t # drop (nat i) xs) l)
     else Err ERR_INDEX_OUT_OF_BOUND)"
proof (cases "0 \<le> i \<and> i \<le> int (length xs)")
  case True
  then obtain k where k: "i = int k" "k \<le> length xs"
    by (metis nonneg_int_cases of_nat_le_iff)
  then have n: "nat (int (length xs) - int k) = length xs - k" "nat (int (length xs) - int k + 1) = Suc (length xs - k)"
    by simp_all
  have "rev xs = rev (drop k xs) @ rev (take k xs)"
    by (simp flip: rev_append)
  then have "(take (length xs - k + 1) (rev xs @ [t])
      @ copy_slice (drop (length xs - k + 1) (rev xs @ [t])) (drop (length xs - k) (rev xs @ [t])))[length xs - k := t]
    = rev (drop k xs) @ t # rev (take k xs)"
    using insert_slice [of "rev (drop k xs)" "rev (take k xs)" t] by simp
  then show ?thesis
    using k by (simp add: vs_Insert_def Let_def n)
qed (auto simp: vs_Insert_def)

lemma stk_Swap [stack_simps]:
  "vs_Swap i j (stk xs l) = (if 0 \<le> i \<and> i < int (length xs) \<and> 0 \<le> j \<and> j < int (length xs)
     then Ok ((), stk (xs[nat i := xs ! nat j, nat j := xs ! nat i]) l) else Err ERR_INDEX_OUT_OF_BOUND)"
proof (cases "0 \<le> i \<and> i < int (length xs) \<and> 0 \<le> j \<and> j < int (length xs)")
  case True
  then obtain k m where k: "i = int k" "k < length xs" "j = int m" "m < length xs"
    by (metis nonneg_int_cases of_nat_less_iff)
  then have n: "nat (int (length xs) - int k - 1) = length xs - Suc k" "nat (int (length xs) - int m - 1) = length xs - Suc m"
    by simp_all
  show ?thesis
    using k by (auto simp: vs_Swap_def Let_def n rev_nth rev_update)
qed (auto simp: vs_Swap_def Let_def)

section \<open>Well-formed stacks\<close>

definition STACK_LIMIT :: int where
  "STACK_LIMIT = 2 * 1024"

definition wf_stack :: "heap \<Rightarrow> ValueStack \<Rightarrow> bool" where
  "wf_stack h st \<longleftrightarrow> vs_limit st = STACK_LIMIT \<and> int (length (vs_data st)) \<le> STACK_LIMIT \<and> list_all (wf_val h) (vs_data st)"

text \<open>An operation on a stack ends without a panic, and when it succeeds the stack is well-formed and the result satisfies \<open>Q\<close>.\<close>

definition stack_safe :: "heap \<Rightarrow> ('a \<Rightarrow> bool) \<Rightarrow> ('a \<times> ValueStack) res \<Rightarrow> bool" where
  "stack_safe h Q r \<longleftrightarrow> (case r of Ok (x, st) \<Rightarrow> wf_stack h st \<and> Q x | Err _ \<Rightarrow> True | _ \<Rightarrow> False)"

named_theorems stack_safe_intros \<open>the stack operations are safe\<close>

lemma stack_safe_simps [simp]:
  "stack_safe h Q (Ok (x, st)) \<longleftrightarrow> wf_stack h st \<and> Q x" "stack_safe h Q (Err e)"
  by (simp_all add: stack_safe_def)

lemma stack_safe_mono: "stack_safe h P r \<Longrightarrow> (\<And>x. P x \<Longrightarrow> Q x) \<Longrightarrow> stack_safe h Q r"
  by (auto simp: stack_safe_def split: res.splits)

lemma stack_safe_bind:
  assumes "stack_safe h P m" "\<And>x st. wf_stack h st \<Longrightarrow> P x \<Longrightarrow> stack_safe h Q (f (x, st))"
  shows "stack_safe h Q (bind_res m f)"
  using assms by (cases m) (auto simp: stack_safe_def)

lemma stack_safe_value:
  assumes "(\<exists>x. m = Ok x) \<or> (\<exists>e. m = Err e)" "\<And>x. m = Ok x \<Longrightarrow> stack_safe h Q (f x)"
  shows "stack_safe h Q (bind_res m f)"
  using assms by (cases m) auto

lemma wf_stack_stk: "wf_stack h (stk xs l) \<longleftrightarrow> l = STACK_LIMIT \<and> int (length xs) \<le> STACK_LIMIT \<and> list_all (wf_val h) xs"
  by (simp add: wf_stack_def)

lemma wf_stack_extends: "wf_stack h st \<Longrightarrow> extends h h' \<Longrightarrow> wf_stack h' st"
  by (auto simp: wf_stack_def intro: wf_vals_extends)

lemma safe_Pop [stack_safe_intros]: "wf_stack h st \<Longrightarrow> stack_safe h (wf_val h) (vs_Pop st)"
proof (cases st rule: stk_cases)
  case (1 xs l)
  moreover assume "wf_stack h st"
  ultimately show ?thesis
    by (cases xs) (simp_all add: stack_simps wf_stack_stk)
qed

lemma safe_Push [stack_safe_intros]: "wf_stack h st \<Longrightarrow> wf_val h v \<Longrightarrow> stack_safe h (\<lambda>_. True) (vs_Push v st)"
  by (cases st rule: stk_cases) (simp add: stack_simps wf_stack_stk)

lemma safe_PushMany [stack_safe_intros]: "wf_stack h st \<Longrightarrow> list_all (wf_val h) vs \<Longrightarrow> stack_safe h (\<lambda>_. True) (vs_PushMany vs st)"
  by (cases st rule: stk_cases) (simp add: stack_simps wf_stack_stk)

lemma safe_Peek [stack_safe_intros]: "wf_stack h st \<Longrightarrow> stack_safe h (wf_val h) (vs_Peek i st)"
  by (cases st rule: stk_cases) (auto simp: stack_simps wf_stack_stk list_all_length)

lemma safe_Remove [stack_safe_intros]: "wf_stack h st \<Longrightarrow> stack_safe h (wf_val h) (vs_Remove i st)"
  by (cases st rule: stk_cases)
    (auto simp: stack_simps wf_stack_stk list_all_iff dest: in_set_takeD in_set_dropD)

lemma safe_Insert [stack_safe_intros]: "wf_stack h st \<Longrightarrow> wf_val h v \<Longrightarrow> stack_safe h (\<lambda>_. True) (vs_Insert i v st)"
  by (cases st rule: stk_cases)
    (auto simp: stack_simps wf_stack_stk list_all_iff dest: in_set_takeD in_set_dropD)

lemma safe_Swap [stack_safe_intros]: "wf_stack h st \<Longrightarrow> stack_safe h (\<lambda>_. True) (vs_Swap i j st)"
proof (cases st rule: stk_cases)
  case (1 xs l)
  have "set (xs[a := xs ! b, b := xs ! a]) \<subseteq> set xs" if "a < length xs" "b < length xs" for a b
    using that by (metis set_swap order_refl)
  moreover assume "wf_stack h st"
  ultimately show ?thesis
    using 1 by (auto simp: stack_simps wf_stack_stk list_all_iff)
qed

lemma safe_PopPair [stack_safe_intros]:
  "wf_stack h st \<Longrightarrow> stack_safe h (\<lambda>(l, r). wf_val h l \<and> wf_val h r) (vs_PopPair st)"
  unfolding vs_PopPair_def
  by (intro stack_safe_bind [OF safe_Pop] | assumption | clarsimp split: prod.splits)+

lemma safe_PopTriple [stack_safe_intros]:
  "wf_stack h st \<Longrightarrow> stack_safe h (\<lambda>(l, m, r). wf_val h l \<and> wf_val h m \<and> wf_val h r) (vs_PopTriple st)"
  unfolding vs_PopTriple_def
  by (intro stack_safe_bind [OF safe_Pop] stack_safe_bind [OF safe_PopPair] | assumption | clarsimp split: prod.splits)+

text \<open>Popping with a conversion.\<close>

lemma safe_PopAs:
  assumes "wf_stack h st" "\<And>v. (\<exists>x. f v = Ok x) \<or> (\<exists>e. f v = Err e)" "\<And>v x. wf_val h v \<Longrightarrow> f v = Ok x \<Longrightarrow> Q x"
  shows "stack_safe h Q (bind_res (vs_Pop st) (\<lambda>(val, s). bind_res (f val) (\<lambda>x. Ok (x, s))))"
proof (rule stack_safe_bind [OF safe_Pop [OF assms(1)]])
  fix v s
  assume "wf_stack h s" "wf_val h v"
  then show "stack_safe h Q (case (v, s) of (val, s) \<Rightarrow> bind_res (f val) (\<lambda>x. Ok (x, s)))"
    using assms(2) [of v] assms(3) [of v] by auto
qed

lemma safe_PopAs_all [stack_safe_intros]:
  assumes "wf_stack h st"
  shows "stack_safe h (\<lambda>_. True) (vs_PopAsBool st)" "stack_safe h (\<lambda>_. True) (vs_PopAsInt64 st)"
    "stack_safe h (\<lambda>x. canonical x \<and> \<bar>ival x\<bar> < 2 ^ 256) (vs_PopAsIntValue st)"
    "stack_safe h (\<lambda>bs. length bs \<le> MAX_BYTEARRAY_SIZE) (vs_PopAsBytes st)"
    "stack_safe h (\<lambda>a. wf_val h (VArray a)) (vs_PopAsArray st)"
    "stack_safe h (\<lambda>a. wf_val h (VMap a)) (vs_PopAsMap st)"
    "stack_safe h (\<lambda>a. wf_val h (VStruct a)) (vs_PopAsStruct st)"
proof -
  note p = safe_PopAs [OF assms]
  have as: "(\<exists>x. AsArrayValue v = Ok x) \<or> (\<exists>e. AsArrayValue v = Err e)" "(\<exists>x. AsMapValue v = Ok x) \<or> (\<exists>e. AsMapValue v = Err e)"
    "(\<exists>x. AsStructValue v = Ok x) \<or> (\<exists>e. AsStructValue v = Err e)" "(\<exists>x. AsBytes v = Ok x) \<or> (\<exists>e. AsBytes v = Err e)" for v
    by (cases v; simp)+
  show "stack_safe h (\<lambda>_. True) (vs_PopAsBool st)" "stack_safe h (\<lambda>_. True) (vs_PopAsInt64 st)"
    unfolding vs_PopAsBool_def vs_PopAsInt64_def by (rule p, rule AsBool_cases AsInt64_cases, rule TrueI)+
  show "stack_safe h (\<lambda>x. canonical x \<and> \<bar>ival x\<bar> < 2 ^ 256) (vs_PopAsIntValue st)"
    unfolding vs_PopAsIntValue_def by (rule p, rule AsIntValue_cases) (use AsIntValue_ival in blast)
  show "stack_safe h (\<lambda>bs. length bs \<le> MAX_BYTEARRAY_SIZE) (vs_PopAsBytes st)"
    unfolding vs_PopAsBytes_def by (rule p, rule as) (rule AsBytes_wf)
  show "stack_safe h (\<lambda>a. wf_val h (VArray a)) (vs_PopAsArray st)" "stack_safe h (\<lambda>a. wf_val h (VMap a)) (vs_PopAsMap st)"
    "stack_safe h (\<lambda>a. wf_val h (VStruct a)) (vs_PopAsStruct st)"
    unfolding vs_PopAsArray_def vs_PopAsMap_def vs_PopAsStruct_def
    by (rule p, rule as, erule (1) wf_val_pointers)+
qed

lemma safe_pair:
  assumes "\<And>st. wf_stack h st \<Longrightarrow> stack_safe h P (m st)" "wf_stack h st"
  shows "stack_safe h (\<lambda>(l, r). P l \<and> P r)
    (bind_res (m st) (\<lambda>(right, s1). bind_res (m s1) (\<lambda>(left, s2). Ok ((left, right), s2))))"
  by (rule stack_safe_bind [OF assms(1) [OF assms(2)]], simp, rule stack_safe_bind [OF assms(1)]) auto

lemma safe_triple:
  assumes "\<And>st. wf_stack h st \<Longrightarrow> stack_safe h P (m st)" "wf_stack h st"
  shows "stack_safe h (\<lambda>_. True)
    (bind_res (m st) (\<lambda>(right, s1). bind_res (m s1) (\<lambda>(middle, s2). bind_res (m s2) (\<lambda>(left, s3). Ok ((left, middle, right), s3)))))"
  by (rule stack_safe_bind [OF assms(1) [OF assms(2)]], simp, rule stack_safe_bind [OF assms(1)], assumption, simp,
      rule stack_safe_bind [OF assms(1)]) auto

lemma safe_PopPairAs [stack_safe_intros]:
  assumes "wf_stack h st"
  shows "stack_safe h (\<lambda>(l, r). length l \<le> MAX_BYTEARRAY_SIZE \<and> length r \<le> MAX_BYTEARRAY_SIZE) (vs_PopPairAsBytes st)"
    "stack_safe h (\<lambda>(l, r). True \<and> True) (vs_PopPairAsBool st)" "stack_safe h (\<lambda>(l, r). True \<and> True) (vs_PopPairAsInt64 st)"
    "stack_safe h (\<lambda>(x, y). (canonical x \<and> \<bar>ival x\<bar> < 2 ^ 256) \<and> canonical y \<and> \<bar>ival y\<bar> < 2 ^ 256) (vs_PopPairAsIntVal st)"
    "stack_safe h (\<lambda>_. True) (vs_PopTripleAsBytes st)"
    "stack_safe h (\<lambda>_. True) (vs_PopTripleAsBool st)"
    "stack_safe h (\<lambda>_. True) (vs_PopTripleAsIntVal st)"
  unfolding vs_PopPairAsBytes_def vs_PopPairAsBool_def vs_PopPairAsInt64_def vs_PopPairAsIntVal_def vs_PopTripleAsBytes_def
    vs_PopTripleAsBool_def vs_PopTripleAsIntVal_def
  by (rule safe_pair safe_triple, erule safe_PopAs_all, rule assms)+

lemma safe_Pushes [stack_safe_intros]:
  assumes "wf_stack h st"
  shows "stack_safe h (\<lambda>_. True) (vs_PushBool b st)" "stack_safe h (\<lambda>_. True) (vs_PushInt64 i st)"
    "stack_safe h (\<lambda>_. True) (vs_PushUint64 u st)" "stack_safe h (\<lambda>_. True) (vs_PushBytes bs st)"
    "stack_safe h (\<lambda>_. True) (vs_PushAsInteropValue o' st)"
proof -
  have "\<not> big_IsInt64 (uint u) \<and> \<bar>uint u\<bar> \<le> 2 ^ 256" if "\<not> unat u \<le> 2 ^ 63 - 1"
  proof -
    have u: "uint u = int (unat u)"
      by (simp only: uint_nat)
    have "9223372036854775807 < unat u"
      using that by simp
    then have "9223372036854775808 \<le> uint u" "uint u < 18446744073709551616"
      using unat_u64_less [of u] unfolding u by presburger+
    then show ?thesis
      by (simp add: big_IsInt64_def)
  qed
  then show "stack_safe h (\<lambda>_. True) (vs_PushUint64 u st)"
    using assms by (auto simp: vs_PushUint64_def VmValueFromUint64_def VmValueFromInt64_def intro!: stack_safe_intros)
qed (use assms in \<open>auto simp: vs_PushBool_def VmValueFromBool_def vs_PushInt64_def VmValueFromInt64_def vs_PushBytes_def
      VmValueFromBytes_def vs_PushAsInteropValue_def VmValueFromInteropValue_def intro!: stack_safe_intros\<close>)

end
