(* ===== verification/NeoOpcodes.thy ===== *)
theory NeoOpcodes
  imports Prelude
begin

text \<open>The opcodes of the NeoVM, \<open>src/vm/neovm/opcode.go\<close>, and the states of \<open>src/vm/neovm/vm_state.go\<close>.\<close>

named_theorems opcode_defs \<open>the numbers of the opcodes\<close>

definition OP_PUSH0 :: u8 where
  [opcode_defs]: "OP_PUSH0 = 0x00"

definition OP_PUSHF :: u8 where
  [opcode_defs]: "OP_PUSHF = OP_PUSH0"

definition OP_PUSHBYTES1 :: u8 where
  [opcode_defs]: "OP_PUSHBYTES1 = 0x01"

definition OP_PUSHBYTES75 :: u8 where
  [opcode_defs]: "OP_PUSHBYTES75 = 0x4B"

definition OP_PUSHDATA1 :: u8 where
  [opcode_defs]: "OP_PUSHDATA1 = 0x4C"

definition OP_PUSHDATA2 :: u8 where
  [opcode_defs]: "OP_PUSHDATA2 = 0x4D"

definition OP_PUSHDATA4 :: u8 where
  [opcode_defs]: "OP_PUSHDATA4 = 0x4E"

definition OP_PUSHM1 :: u8 where
  [opcode_defs]: "OP_PUSHM1 = 0x4F"

definition OP_PUSH1 :: u8 where
  [opcode_defs]: "OP_PUSH1 = 0x51"

definition OP_PUSHT :: u8 where
  [opcode_defs]: "OP_PUSHT = OP_PUSH1"

definition OP_PUSH2 :: u8 where
  [opcode_defs]: "OP_PUSH2 = 0x52"

definition OP_PUSH3 :: u8 where
  [opcode_defs]: "OP_PUSH3 = 0x53"

definition OP_PUSH4 :: u8 where
  [opcode_defs]: "OP_PUSH4 = 0x54"

definition OP_PUSH5 :: u8 where
  [opcode_defs]: "OP_PUSH5 = 0x55"

definition OP_PUSH6 :: u8 where
  [opcode_defs]: "OP_PUSH6 = 0x56"

definition OP_PUSH7 :: u8 where
  [opcode_defs]: "OP_PUSH7 = 0x57"

definition OP_PUSH8 :: u8 where
  [opcode_defs]: "OP_PUSH8 = 0x58"

definition OP_PUSH9 :: u8 where
  [opcode_defs]: "OP_PUSH9 = 0x59"

definition OP_PUSH10 :: u8 where
  [opcode_defs]: "OP_PUSH10 = 0x5A"

definition OP_PUSH11 :: u8 where
  [opcode_defs]: "OP_PUSH11 = 0x5B"

definition OP_PUSH12 :: u8 where
  [opcode_defs]: "OP_PUSH12 = 0x5C"

definition OP_PUSH13 :: u8 where
  [opcode_defs]: "OP_PUSH13 = 0x5D"

definition OP_PUSH14 :: u8 where
  [opcode_defs]: "OP_PUSH14 = 0x5E"

definition OP_PUSH15 :: u8 where
  [opcode_defs]: "OP_PUSH15 = 0x5F"

definition OP_PUSH16 :: u8 where
  [opcode_defs]: "OP_PUSH16 = 0x60"

definition OP_NOP :: u8 where
  [opcode_defs]: "OP_NOP = 0x61"

definition OP_JMP :: u8 where
  [opcode_defs]: "OP_JMP = 0x62"

definition OP_JMPIF :: u8 where
  [opcode_defs]: "OP_JMPIF = 0x63"

definition OP_JMPIFNOT :: u8 where
  [opcode_defs]: "OP_JMPIFNOT = 0x64"

definition OP_CALL :: u8 where
  [opcode_defs]: "OP_CALL = 0x65"

definition OP_RET :: u8 where
  [opcode_defs]: "OP_RET = 0x66"

definition OP_APPCALL :: u8 where
  [opcode_defs]: "OP_APPCALL = 0x67"

definition OP_SYSCALL :: u8 where
  [opcode_defs]: "OP_SYSCALL = 0x68"

definition OP_TAILCALL :: u8 where
  [opcode_defs]: "OP_TAILCALL = 0x69"

definition OP_DUPFROMALTSTACK :: u8 where
  [opcode_defs]: "OP_DUPFROMALTSTACK = 0x6A"

definition OP_TOALTSTACK :: u8 where
  [opcode_defs]: "OP_TOALTSTACK = 0x6B"

definition OP_FROMALTSTACK :: u8 where
  [opcode_defs]: "OP_FROMALTSTACK = 0x6C"

definition OP_XDROP :: u8 where
  [opcode_defs]: "OP_XDROP = 0x6D"

definition OP_DCALL :: u8 where
  [opcode_defs]: "OP_DCALL = 0x6E"

definition OP_XSWAP :: u8 where
  [opcode_defs]: "OP_XSWAP = 0x72"

definition OP_XTUCK :: u8 where
  [opcode_defs]: "OP_XTUCK = 0x73"

definition OP_DEPTH :: u8 where
  [opcode_defs]: "OP_DEPTH = 0x74"

definition OP_DROP :: u8 where
  [opcode_defs]: "OP_DROP = 0x75"

definition OP_DUP :: u8 where
  [opcode_defs]: "OP_DUP = 0x76"

definition OP_NIP :: u8 where
  [opcode_defs]: "OP_NIP = 0x77"

definition OP_OVER :: u8 where
  [opcode_defs]: "OP_OVER = 0x78"

definition OP_PICK :: u8 where
  [opcode_defs]: "OP_PICK = 0x79"

definition OP_ROLL :: u8 where
  [opcode_defs]: "OP_ROLL = 0x7A"

definition OP_ROT :: u8 where
  [opcode_defs]: "OP_ROT = 0x7B"

definition OP_SWAP :: u8 where
  [opcode_defs]: "OP_SWAP = 0x7C"

definition OP_TUCK :: u8 where
  [opcode_defs]: "OP_TUCK = 0x7D"

definition OP_CAT :: u8 where
  [opcode_defs]: "OP_CAT = 0x7E"

definition OP_SUBSTR :: u8 where
  [opcode_defs]: "OP_SUBSTR = 0x7F"

definition OP_LEFT :: u8 where
  [opcode_defs]: "OP_LEFT = 0x80"

definition OP_RIGHT :: u8 where
  [opcode_defs]: "OP_RIGHT = 0x81"

definition OP_SIZE :: u8 where
  [opcode_defs]: "OP_SIZE = 0x82"

definition OP_INVERT :: u8 where
  [opcode_defs]: "OP_INVERT = 0x83"

definition OP_AND :: u8 where
  [opcode_defs]: "OP_AND = 0x84"

definition OP_OR :: u8 where
  [opcode_defs]: "OP_OR = 0x85"

definition OP_XOR :: u8 where
  [opcode_defs]: "OP_XOR = 0x86"

definition OP_EQUAL :: u8 where
  [opcode_defs]: "OP_EQUAL = 0x87"

definition OP_INC :: u8 where
  [opcode_defs]: "OP_INC = 0x8B"

definition OP_DEC :: u8 where
  [opcode_defs]: "OP_DEC = 0x8C"

definition OP_SIGN :: u8 where
  [opcode_defs]: "OP_SIGN = 0x8D"

definition OP_NEGATE :: u8 where
  [opcode_defs]: "OP_NEGATE = 0x8F"

definition OP_ABS :: u8 where
  [opcode_defs]: "OP_ABS = 0x90"

definition OP_NOT :: u8 where
  [opcode_defs]: "OP_NOT = 0x91"

definition OP_NZ :: u8 where
  [opcode_defs]: "OP_NZ = 0x92"

definition OP_ADD :: u8 where
  [opcode_defs]: "OP_ADD = 0x93"

definition OP_SUB :: u8 where
  [opcode_defs]: "OP_SUB = 0x94"

definition OP_MUL :: u8 where
  [opcode_defs]: "OP_MUL = 0x95"

definition OP_DIV :: u8 where
  [opcode_defs]: "OP_DIV = 0x96"

definition OP_MOD :: u8 where
  [opcode_defs]: "OP_MOD = 0x97"

definition OP_SHL :: u8 where
  [opcode_defs]: "OP_SHL = 0x98"

definition OP_SHR :: u8 where
  [opcode_defs]: "OP_SHR = 0x99"

definition OP_BOOLAND :: u8 where
  [opcode_defs]: "OP_BOOLAND = 0x9A"

definition OP_BOOLOR :: u8 where
  [opcode_defs]: "OP_BOOLOR = 0x9B"

definition OP_NUMEQUAL :: u8 where
  [opcode_defs]: "OP_NUMEQUAL = 0x9C"

definition OP_NUMNOTEQUAL :: u8 where
  [opcode_defs]: "OP_NUMNOTEQUAL = 0x9E"

definition OP_LT :: u8 where
  [opcode_defs]: "OP_LT = 0x9F"

definition OP_GT :: u8 where
  [opcode_defs]: "OP_GT = 0xA0"

definition OP_LTE :: u8 where
  [opcode_defs]: "OP_LTE = 0xA1"

definition OP_GTE :: u8 where
  [opcode_defs]: "OP_GTE = 0xA2"

definition OP_MIN :: u8 where
  [opcode_defs]: "OP_MIN = 0xA3"

definition OP_MAX :: u8 where
  [opcode_defs]: "OP_MAX = 0xA4"

definition OP_WITHIN :: u8 where
  [opcode_defs]: "OP_WITHIN = 0xA5"

definition OP_SHA1 :: u8 where
  [opcode_defs]: "OP_SHA1 = 0xA7"

definition OP_SHA256 :: u8 where
  [opcode_defs]: "OP_SHA256 = 0xA8"

definition OP_HASH160 :: u8 where
  [opcode_defs]: "OP_HASH160 = 0xA9"

definition OP_HASH256 :: u8 where
  [opcode_defs]: "OP_HASH256 = 0xAA"

definition OP_CHECKSIG :: u8 where
  [opcode_defs]: "OP_CHECKSIG = 0xAC"

definition OP_VERIFY :: u8 where
  [opcode_defs]: "OP_VERIFY = 0xAD"

definition OP_CHECKMULTISIG :: u8 where
  [opcode_defs]: "OP_CHECKMULTISIG = 0xAE"

definition OP_ARRAYSIZE :: u8 where
  [opcode_defs]: "OP_ARRAYSIZE = 0xC0"

definition OP_PACK :: u8 where
  [opcode_defs]: "OP_PACK = 0xC1"

definition OP_UNPACK :: u8 where
  [opcode_defs]: "OP_UNPACK = 0xC2"

definition OP_PICKITEM :: u8 where
  [opcode_defs]: "OP_PICKITEM = 0xC3"

definition OP_SETITEM :: u8 where
  [opcode_defs]: "OP_SETITEM = 0xC4"

definition OP_NEWARRAY :: u8 where
  [opcode_defs]: "OP_NEWARRAY = 0xC5"

definition OP_NEWSTRUCT :: u8 where
  [opcode_defs]: "OP_NEWSTRUCT = 0xC6"

definition OP_NEWMAP :: u8 where
  [opcode_defs]: "OP_NEWMAP = 0xC7"

definition OP_APPEND :: u8 where
  [opcode_defs]: "OP_APPEND = 0xC8"

definition OP_REVERSE :: u8 where
  [opcode_defs]: "OP_REVERSE = 0xC9"

definition OP_REMOVE :: u8 where
  [opcode_defs]: "OP_REMOVE = 0xCA"

definition OP_HASKEY :: u8 where
  [opcode_defs]: "OP_HASKEY = 0xCB"

definition OP_KEYS :: u8 where
  [opcode_defs]: "OP_KEYS = 0xCC"

definition OP_VALUES :: u8 where
  [opcode_defs]: "OP_VALUES = 0xCD"

definition OP_THROW :: u8 where
  [opcode_defs]: "OP_THROW = 0xF0"

definition OP_THROWIFNOT :: u8 where
  [opcode_defs]: "OP_THROWIFNOT = 0xF1"

definition NONE :: u8 where
  [opcode_defs]: "NONE = 0"

definition HALT :: u8 where
  [opcode_defs]: "HALT = 1"

definition FAULT :: u8 where
  [opcode_defs]: "FAULT = 2"

definition BREAK :: u8 where
  [opcode_defs]: "BREAK = 4"

definition INSUFFICIENT_RESOURCE :: u8 where
  [opcode_defs]: "INSUFFICIENT_RESOURCE = 16"

end
