(* ===== verification/Sha1.thy ===== *)
theory Sha1
  imports Sha256
begin

text \<open>
  The opcode \<open>SHA1\<close> of the NeoVM calls \<open>crypto/sha1\<close> of Go's standard library, given here as an
  executable definition on 32-bit words. The padding is that of SHA-256.
\<close>

type_synonym sha1_state = "u32 \<times> u32 \<times> u32 \<times> u32 \<times> u32"

definition rotl :: "nat \<Rightarrow> u32 \<Rightarrow> u32" where
  "rotl n x = rotr (32 - n) x"

fun sha1_schedule :: "nat \<Rightarrow> u32 list \<Rightarrow> u32 list" where
  "sha1_schedule 0 w = rev w"
| "sha1_schedule (Suc n) w = sha1_schedule n (rotl 1 (w ! 2 XOR w ! 7 XOR w ! 13 XOR w ! 15) # w)"

definition sha1_mix :: "nat \<Rightarrow> u32 \<Rightarrow> u32 \<Rightarrow> u32 \<Rightarrow> u32" where
  "sha1_mix t b c d = (if t < 20 then sha_ch b c d else if 40 \<le> t \<and> t < 60 then sha_maj b c d else b XOR c XOR d)"

definition sha1_K :: "nat \<Rightarrow> u32" where
  "sha1_K t = (if t < 20 then 0x5A827999 else if t < 40 then 0x6ED9EBA1 else if t < 60 then 0x8F1BBCDC else 0xCA62C1D6)"

fun sha1_round :: "nat \<times> u32 \<Rightarrow> sha1_state \<Rightarrow> sha1_state" where
  "sha1_round (t, w) (a, b, c, d, e) = (rotl 5 a + sha1_mix t b c d + e + sha1_K t + w, a, rotl 30 b, c, d)"

fun sha1_add :: "sha1_state \<Rightarrow> sha1_state \<Rightarrow> sha1_state" where
  "sha1_add (a, b, c, d, e) (a', b', c', d', e') = (a + a', b + b', c + c', d + d', e + e')"

definition sha1_block :: "bytes \<Rightarrow> sha1_state \<Rightarrow> sha1_state" where
  "sha1_block b st = sha1_add st (fold sha1_round (enumerate 0 (sha1_schedule 64 (rev (map get_be (chunks 4 b))))) st)"

fun sha1_digest :: "sha1_state \<Rightarrow> bytes" where
  "sha1_digest (a, b, c, d, e) = concat (map (put_be 4) [a, b, c, d, e])"

definition sha1 :: "bytes \<Rightarrow> bytes" where
  "sha1 m = sha1_digest (fold sha1_block (chunks 64 (sha_pad m)) (0x67452301, 0xEFCDAB89, 0x98BADCFE, 0x10325476, 0xC3D2E1F0))"

lemma length_sha1 [simp]: "length (sha1 m) = 20"
proof -
  have "length (sha1_digest st) = 20" for st
    by (cases st rule: sha1_digest.cases) (simp add: length_put_be)
  then show ?thesis
    by (simp add: sha1_def)
qed

end
