(* ===== verification/NeoExec.thy ===== *)
theory NeoExec
  imports NeoStack NeoReader NeoOpcodes Sha1
begin

text \<open>
  The interpreter of the NeoVM, \<open>src/vm/neovm/executor.go\<close>: the executor with its two stacks, its callers
  and its current context, one definition per group of opcodes of the switch in \<open>ExecuteOp\<close>, and the loop
  \<open>Execute\<close>. The heap of the arrays, structs and maps the values point to is a field of the state. An
  opcode is an operation on the executor that returns the next \<open>VMState\<close>; with an error the
  state is \<open>FAULT\<close>, the executor is abandoned, and the model keeps the error only. \<open>ExecuteOp\<close> is always called
  with the executor's own context, so that context is not a separate argument.
\<close>

section \<open>The executor\<close>

definition MAX_INVOCATION_STACK_SIZE :: nat where
  "MAX_INVOCATION_STACK_SIZE = 1024"

definition ERR_FAULT :: err where
  "ERR_FAULT = ''the exeution meet fault''"

definition ERR_NOT_SUPPORT_OPCODE :: err where
  "ERR_NOT_SUPPORT_OPCODE = ''does not support the operation code''"

definition ERR_DCALL_OFFSET_ERROR :: err where
  "ERR_DCALL_OFFSET_ERROR = ''DCALL offset is not right''"

definition ERR_MAP_NOT_EXIST :: err where
  "ERR_MAP_NOT_EXIST = ''map not contain key''"

record Executor =
  EvalStack :: ValueStack
  AltStack :: ValueStack
  ex_State :: u8
  Features :: VmFeatureFlag
  Callers :: "ExecutionContext list"
  ex_Context :: "ExecutionContext option"
  ex_heap :: heap

definition NewExecutor :: "bytes \<Rightarrow> VmFeatureFlag \<Rightarrow> Executor" where
  "NewExecutor code feature =
     \<lparr>EvalStack = NewValueStack STACK_LIMIT, AltStack = NewValueStack STACK_LIMIT, ex_State = BREAK,
      Features = feature, Callers = [], ex_Context = Some (NewExecutionContext code feature), ex_heap = []\<rparr>"

text \<open>Operations on the executor, and how those of its parts act on it.\<close>

type_synonym 'a vm = "Executor \<Rightarrow> ('a \<times> Executor) res"

definition vbind :: "'a vm \<Rightarrow> ('a \<Rightarrow> 'b vm) \<Rightarrow> 'b vm" where
  "vbind m f ex = bind_res (m ex) (\<lambda>(x, ex'). f x ex')"

definition vret :: "'a \<Rightarrow> 'a vm" where
  "vret x ex = Ok (x, ex)"

definition vfail :: "err \<Rightarrow> 'a vm" where
  "vfail e ex = Err e"

definition lift :: "'a res \<Rightarrow> 'a vm" where
  "lift r ex = bind_res r (\<lambda>x. Ok (x, ex))"

definition eval :: "'a stack_op \<Rightarrow> 'a vm" where
  "eval f ex = bind_res (f (EvalStack ex)) (\<lambda>(x, st). Ok (x, ex\<lparr>EvalStack := st\<rparr>))"

definition alt :: "'a stack_op \<Rightarrow> 'a vm" where
  "alt f ex = bind_res (f (AltStack ex)) (\<lambda>(x, st). Ok (x, ex\<lparr>AltStack := st\<rparr>))"

definition heap_read :: "(heap \<Rightarrow> 'a res) \<Rightarrow> 'a vm" where
  "heap_read f ex = bind_res (f (ex_heap ex)) (\<lambda>x. Ok (x, ex))"

definition heap_write :: "(heap \<Rightarrow> heap res) \<Rightarrow> unit vm" where
  "heap_write f ex = bind_res (f (ex_heap ex)) (\<lambda>h. Ok ((), ex\<lparr>ex_heap := h\<rparr>))"

definition heap_new :: "(heap \<Rightarrow> ('a \<times> heap) res) \<Rightarrow> 'a vm" where
  "heap_new f ex = bind_res (f (ex_heap ex)) (\<lambda>(x, h). Ok (x, ex\<lparr>ex_heap := h\<rparr>))"

text \<open>The current context; a method called on a nil context panics.\<close>

definition get_context :: "ExecutionContext vm" where
  "get_context ex = (case ex_Context ex of None \<Rightarrow> Panic | Some c \<Rightarrow> Ok (c, ex))"

definition set_context :: "ExecutionContext \<Rightarrow> unit vm" where
  "set_context c ex = Ok ((), ex\<lparr>ex_Context := Some c\<rparr>)"

definition reader :: "'a vm_read \<Rightarrow> 'a vm" where
  "reader f = vbind get_context (\<lambda>c. vbind (lift (f (OpReader c))) (\<lambda>(x, r). vbind (set_context (c\<lparr>OpReader := r\<rparr>)) (\<lambda>_. vret x)))"

definition jump :: "int \<Rightarrow> unit vm" where
  "jump offset = vbind get_context (\<lambda>c. vbind (lift (SetInstructionPointer offset c)) set_context)"

text \<open>\<open>PopContext\<close> gives a nil context on an empty call stack; its error is dropped by \<open>RET\<close>, the only caller.\<close>

definition exec_PopContext :: "ExecutionContext option vm" where
  "exec_PopContext self =
     (let total = int (length (Callers self)) in
      if total = 0 then Ok (None, self)
      else
        bind_res (at_res (Callers self) (total - 1)) (\<lambda>context.
        bind_res (slice_res (Callers self) 0 (total - 1)) (\<lambda>callers.
          Ok (Some context, self\<lparr>Callers := callers\<rparr>))))"

definition exec_PushContext :: "ExecutionContext \<Rightarrow> unit vm" where
  "exec_PushContext context self =
     (if length (Callers self) \<ge> MAX_INVOCATION_STACK_SIZE then Err ERR_OVER_STACK_LEN
      else Ok ((), self\<lparr>Callers := Callers self @ [context]\<rparr>))"

definition checkFeaturesEnabled :: "u8 \<Rightarrow> unit vm" where
  "checkFeaturesEnabled opcode self =
     (if opcode = OP_HASKEY \<or> opcode = OP_KEYS \<or> opcode = OP_DCALL \<or> opcode = OP_VALUES
      then if DisableHasKey (Features self) then Err ERR_NOT_SUPPORT_OPCODE else Ok ((), self)
      else Ok ((), self))"

section \<open>Constants and flow control\<close>

text \<open>Most cases end by pushing a value and returning \<open>NONE\<close>.\<close>

definition push_done :: "VmValue \<Rightarrow> u8 vm" where
  "push_done val = vbind (eval (vs_Push val)) (\<lambda>_. vret NONE)"

definition op_PUSHBYTES :: "u8 \<Rightarrow> u8 vm" where
  "op_PUSHBYTES opcode =
     vbind (reader (vr_ReadBytes (unat opcode))) (\<lambda>buf.
     vbind (lift (VmValueFromBytes buf)) push_done)"

definition op_PUSH0 :: "u8 vm" where
  "op_PUSH0 = push_done (VmValueFromInt64 0)"

definition op_PUSHDATA :: "u8 \<Rightarrow> u8 vm" where
  "op_PUSHDATA opcode =
     vbind (if opcode = OP_PUSHDATA1 then vbind (reader vr_ReadByte) (\<lambda>d. vret (unat d))
            else if opcode = OP_PUSHDATA2 then vbind (reader vr_ReadUint16) (\<lambda>num. vret (unat num))
            else vbind (reader vr_ReadUint32) (\<lambda>num. vret (unat num))) (\<lambda>numBytes.
     vbind (reader (vr_ReadBytes numBytes)) (\<lambda>data.
     vbind (lift (VmValueFromBytes data)) push_done))"

definition op_PUSHNUM :: "u8 \<Rightarrow> u8 vm" where
  "op_PUSHNUM opcode = (let val = ucast opcode - ucast OP_PUSH1 + 1 in push_done (VmValueFromInt64 val))"

definition op_JMP :: "u8 \<Rightarrow> u8 vm" where
  "op_JMP opcode0 =
     vbind get_context (\<lambda>context.
     vbind (if opcode0 = OP_CALL then
              let caller = ec_Clone context in
              vbind (lift (SetInstructionPointer (int (GetInstructionPointer caller + 2)) caller)) (\<lambda>caller.
              vbind (exec_PushContext caller) (\<lambda>_. vret OP_JMP))
            else vret opcode0) (\<lambda>opcode.
     vbind (reader vr_ReadInt16) (\<lambda>num.
     vbind get_context (\<lambda>context.
       let offset = int (GetInstructionPointer context) + sint num - 3 in
       if offset < 0 \<or> offset > int (length (ec_Code context)) then vfail ERR_FAULT
       else
         vbind (if opcode \<noteq> OP_JMP then
                  vbind (eval vs_PopAsBool) (\<lambda>val. vret (if opcode = OP_JMPIF then val else \<not> val))
                else vret True) (\<lambda>needJmp.
           if needJmp then vbind (jump offset) (\<lambda>_. vret NONE) else vret NONE)))))"

definition op_DCALL :: "u8 vm" where
  "op_DCALL =
     vbind get_context (\<lambda>context.
     vbind (exec_PushContext (ec_Clone context)) (\<lambda>_.
     vbind (eval vs_PopAsInt64) (\<lambda>target.
       if sint target < 0 \<or> sint target \<ge> int (length (ec_Code context)) then vfail ERR_DCALL_OFFSET_ERROR
       else vbind (jump (sint target)) (\<lambda>_. vret NONE))))"

definition op_RET :: "u8 vm" where
  "op_RET self = bind_res (exec_PopContext self) (\<lambda>(c, self'). Ok (NONE, self'\<lparr>ex_Context := c\<rparr>))"

section \<open>Stack\<close>

definition op_DUPFROMALTSTACK :: "u8 vm" where
  "op_DUPFROMALTSTACK = vbind (alt (vs_Peek 0)) push_done"

definition op_TOALTSTACK :: "u8 vm" where
  "op_TOALTSTACK = vbind (eval vs_Pop) (\<lambda>val. vbind (alt (vs_Push val)) (\<lambda>_. vret NONE))"

definition op_FROMALTSTACK :: "u8 vm" where
  "op_FROMALTSTACK = vbind (alt vs_Pop) push_done"

definition op_XDROP :: "u8 vm" where
  "op_XDROP = vbind (eval vs_PopAsInt64) (\<lambda>n. vbind (eval (vs_Remove (sint n))) (\<lambda>_. vret NONE))"

definition op_XSWAP :: "u8 vm" where
  "op_XSWAP = vbind (eval vs_PopAsInt64) (\<lambda>n. vbind (eval (vs_Swap 0 (sint n))) (\<lambda>_. vret NONE))"

definition op_XTUCK :: "u8 vm" where
  "op_XTUCK =
     vbind (eval vs_PopAsInt64) (\<lambda>n.
     vbind (eval (vs_Peek 0)) (\<lambda>val.
     vbind (eval (vs_Insert (sint n) val)) (\<lambda>_. vret NONE)))"

definition op_DEPTH :: "u8 vm" where
  "op_DEPTH self = (vbind (eval (vs_PushInt64 (of_nat (vs_Count (EvalStack self))))) (\<lambda>_. vret NONE)) self"

definition op_DROP :: "u8 vm" where
  "op_DROP = vbind (eval vs_Pop) (\<lambda>_. vret NONE)"

definition op_DUP :: "u8 vm" where
  "op_DUP = vbind (eval (vs_Peek 0)) push_done"

definition op_NIP :: "u8 vm" where
  "op_NIP = vbind (eval vs_PopPair) (\<lambda>(_, val). push_done val)"

definition op_OVER :: "u8 vm" where
  "op_OVER = vbind (eval (vs_Peek 1)) push_done"

definition op_PICK :: "u8 vm" where
  "op_PICK = vbind (eval vs_PopAsInt64) (\<lambda>n. vbind (eval (vs_Peek (sint n))) push_done)"

definition op_ROLL :: "u8 \<Rightarrow> u8 vm" where
  "op_ROLL opcode =
     vbind (if opcode = OP_ROT then vret 2 else vbind (eval vs_PopAsInt64) (\<lambda>n. vret (sint n))) (\<lambda>n.
     vbind (eval (vs_Remove n)) push_done)"

definition op_SWAP :: "u8 vm" where
  "op_SWAP = vbind (eval (vs_Swap 0 1)) (\<lambda>_. vret NONE)"

definition op_TUCK :: "u8 vm" where
  "op_TUCK = vbind (eval vs_PopPair) (\<lambda>(x1, x2). vbind (eval (vs_PushMany [x2, x1, x2])) (\<lambda>_. vret NONE))"

section \<open>Splice\<close>

definition op_CAT :: "u8 vm" where
  "op_CAT = vbind (eval vs_PopPairAsBytes) (\<lambda>(left, right). vbind (eval (vs_PushBytes (left @ right))) (\<lambda>_. vret NONE))"

definition op_SUBSTR :: "u8 vm" where
  "op_SUBSTR =
     vbind (eval vs_PopPairAsInt64) (\<lambda>(start, count).
     vbind (eval vs_PopAsBytes) (\<lambda>arr.
       let len = int (length arr) in
       if sint start < 0 \<or> sint start > len then vfail ERR_OVER_MAX_ARRAY_SIZE
       else if sint count < 0 \<or> sint count > len then vfail ERR_OVER_MAX_ARRAY_SIZE
       else
         let end' = start + count in
         if sint end' > len then vfail ERR_OVER_MAX_ARRAY_SIZE
         else
           vbind (lift (slice_res arr (sint start) (sint end'))) (\<lambda>b.
           vbind (eval (vs_PushBytes b)) (\<lambda>_. vret NONE))))"

definition op_LEFT :: "u8 vm" where
  "op_LEFT =
     vbind (eval vs_PopAsInt64) (\<lambda>count.
     vbind (eval vs_PopAsBytes) (\<lambda>arr.
       if sint count < 0 \<or> sint count > int (length arr) then vfail ERR_OVER_MAX_ARRAY_SIZE
       else
         vbind (lift (slice_res arr 0 (sint count))) (\<lambda>b.
         vbind (eval (vs_PushBytes b)) (\<lambda>_. vret NONE))))"

definition op_RIGHT :: "u8 vm" where
  "op_RIGHT =
     vbind (eval vs_PopAsInt64) (\<lambda>count.
     vbind (eval vs_PopAsBytes) (\<lambda>arr.
       let len = int (length arr) in
       if sint count < 0 \<or> sint count > len then vfail ERR_OVER_MAX_ARRAY_SIZE
       else
         vbind (lift (slice_res arr (len - sint count) len)) (\<lambda>b.
         vbind (eval (vs_PushBytes b)) (\<lambda>_. vret NONE))))"

definition op_SIZE :: "u8 vm" where
  "op_SIZE = vbind (eval vs_PopAsBytes) (\<lambda>arr. vbind (eval (vs_PushInt64 (of_nat (length arr)))) (\<lambda>_. vret NONE))"

section \<open>Bitwise logic and arithmetic\<close>

definition op_INVERT :: "u8 vm" where
  "op_INVERT = vbind (eval vs_PopAsIntValue) (\<lambda>left. let val = IntVal_Not left in push_done (VmValueFromIntValue val))"

definition op_AND :: "u8 \<Rightarrow> u8 vm" where
  "op_AND opcode =
     vbind (eval vs_PopPairAsIntVal) (\<lambda>(left, right).
     vbind (lift (if opcode = OP_AND then IntVal_And left right
                  else if opcode = OP_OR then IntVal_Or left right
                  else if opcode = OP_XOR then IntVal_Xor left right else Panic)) (\<lambda>val.
       push_done (VmValueFromIntValue val)))"

definition op_EQUAL :: "('k, 's) neo_env \<Rightarrow> u8 vm" where
  "op_EQUAL env =
     vbind (eval vs_PopPair) (\<lambda>(left, right).
     vbind (heap_read (\<lambda>h. Equals env h left right)) (\<lambda>b. vbind (eval (vs_PushBool b)) (\<lambda>_. vret NONE)))"

definition op_INC :: "('k, 's) neo_env \<Rightarrow> u8 \<Rightarrow> u8 vm" where
  "op_INC env opcode =
     vbind (eval vs_PopAsIntValue) (\<lambda>x.
     vbind (lift (if opcode = OP_INC then IntVal_Add (neo_overflow env) x (IntValFromInt 1)
                  else if opcode = OP_DEC then IntVal_Sub (neo_overflow env) x (IntValFromInt 1)
                  else if opcode = OP_SIGN then Ok (IntValFromInt (of_int (IntVal_Cmp x (IntValFromInt 0))))
                  else if opcode = OP_NEGATE then IntVal_Sub (neo_overflow env) (IntValFromInt 0) x
                  else if opcode = OP_ABS then Ok (IntVal_Abs x) else Panic)) (\<lambda>val.
       push_done (VmValueFromIntValue val)))"

definition op_NZ :: "u8 vm" where
  "op_NZ =
     vbind (eval vs_PopAsIntValue) (\<lambda>x.
       if IntVal_Cmp x (IntValFromInt 0) = 0 then vbind (eval (vs_PushBool False)) (\<lambda>_. vret NONE)
       else vbind (eval (vs_PushBool True)) (\<lambda>_. vret NONE))"

definition op_ADD :: "('k, 's) neo_env \<Rightarrow> u8 \<Rightarrow> u8 vm" where
  "op_ADD env opcode =
     vbind (eval vs_PopPairAsIntVal) (\<lambda>(left, right).
     vbind (lift (if opcode = OP_ADD then IntVal_Add (neo_overflow env) left right
                  else if opcode = OP_SUB then IntVal_Sub (neo_overflow env) left right
                  else if opcode = OP_MUL then IntVal_Mul (neo_overflow env) left right
                  else if opcode = OP_DIV then IntVal_Div left right
                  else if opcode = OP_MOD then IntVal_Mod left right
                  else if opcode = OP_MAX then IntVal_Max left right
                  else if opcode = OP_MIN then IntVal_Min left right else Panic)) (\<lambda>val.
       push_done (VmValueFromIntValue val)))"

definition op_SHL :: "u8 \<Rightarrow> u8 vm" where
  "op_SHL opcode =
     vbind (eval vs_PopAsIntValue) (\<lambda>x2.
     vbind (eval vs_PopAsIntValue) (\<lambda>x1.
     vbind (lift (if opcode = OP_SHL then Lsh x1 x2 else if opcode = OP_SHR then Rsh x1 x2 else Panic)) (\<lambda>res.
       push_done (VmValueFromIntValue res))))"

definition op_NUMEQUAL :: "u8 \<Rightarrow> u8 vm" where
  "op_NUMEQUAL opcode =
     vbind (eval vs_PopPairAsBytes) (\<lambda>(left, right).
       let l = BigIntFromNeoBytes left; r = BigIntFromNeoBytes right in
       vbind (lift (if opcode = OP_NUMEQUAL then Ok (big_Cmp l r = 0)
                    else if opcode = OP_NUMNOTEQUAL then Ok (big_Cmp l r \<noteq> 0) else Panic)) (\<lambda>val.
       vbind (eval (vs_PushBool val)) (\<lambda>_. vret NONE)))"

definition op_LT :: "u8 \<Rightarrow> u8 vm" where
  "op_LT opcode =
     vbind (eval vs_PopPair) (\<lambda>(leftVal, rightVal).
     vbind (lift (AsBigInt leftVal)) (\<lambda>left.
     vbind (lift (AsBigInt rightVal)) (\<lambda>right.
     vbind (lift (if opcode = OP_LT then Ok (big_Cmp left right < 0)
                  else if opcode = OP_GT then Ok (big_Cmp left right > 0)
                  else if opcode = OP_LTE then Ok (big_Cmp left right \<le> 0)
                  else if opcode = OP_GTE then Ok (big_Cmp left right \<ge> 0) else Panic)) (\<lambda>val.
     vbind (eval (vs_PushBool val)) (\<lambda>_. vret NONE)))))"

definition op_BOOLAND :: "u8 \<Rightarrow> u8 vm" where
  "op_BOOLAND opcode =
     vbind (eval vs_PopPairAsBool) (\<lambda>(left, right).
     vbind (lift (if opcode = OP_BOOLAND then Ok (left \<and> right)
                  else if opcode = OP_BOOLOR then Ok (left \<or> right) else Panic)) (\<lambda>val.
     vbind (eval (vs_PushBool val)) (\<lambda>_. vret NONE)))"

definition op_NOT :: "u8 vm" where
  "op_NOT = vbind (eval vs_PopAsBool) (\<lambda>x. vbind (eval (vs_PushBool (\<not> x))) (\<lambda>_. vret NONE))"

definition op_WITHIN :: "u8 vm" where
  "op_WITHIN =
     vbind (eval vs_PopTripleAsIntVal) (\<lambda>(val, left, right).
       let v1 = IntVal_Cmp val left; v2 = IntVal_Cmp val right
       in vbind (eval (vs_PushBool (v1 \<ge> 0 \<and> v2 < 0))) (\<lambda>_. vret NONE))"

section \<open>Crypto\<close>

definition op_HASH :: "('k, 's) neo_env \<Rightarrow> u8 \<Rightarrow> u8 vm" where
  "op_HASH env opcode =
     vbind (eval vs_PopAsBytes) (\<lambda>x.
       let hash = (if opcode = OP_SHA1 then sha1 x
                   else if opcode = OP_SHA256 then sha256 x
                   else if opcode = OP_HASH160 then neo_ripemd160 env (sha256 x)
                   else if opcode = OP_HASH256 then sha256 (sha256 x) else [])
       in vbind (lift (VmValueFromBytes hash)) push_done)"

text \<open>\<open>Verify\<close> of \<open>src/core/signature/signature.go\<close>.\<close>

definition signature_Verify :: "('k, 's) neo_env \<Rightarrow> 'k \<Rightarrow> bytes \<Rightarrow> bytes \<Rightarrow> unit res" where
  "signature_Verify env pubKey data signature =
     (case sig_Deserialize env signature of
        Inl e \<Rightarrow> Err (''invalid signature data: '' @ e)
      | Inr sigObj \<Rightarrow>
          if \<not> sig_Verify env pubKey data sigObj then Err ''signature verification failed'' else Ok ())"

definition op_VERIFY :: "('k, 's) neo_env \<Rightarrow> u8 vm" where
  "op_VERIFY env =
     vbind (eval vs_PopTripleAsBytes) (\<lambda>(pub, sig, data).
     vbind (lift (case DeserializePublicKey env pub of Inl e \<Rightarrow> Err e | Inr k \<Rightarrow> Ok k)) (\<lambda>key.
       let verErr = signature_Verify env key data sig
       in vbind (eval (vs_PushBool (verErr = Ok ()))) (\<lambda>_. vret NONE)))"

section \<open>Arrays, structs and maps\<close>

definition op_ARRAYSIZE :: "u8 vm" where
  "op_ARRAYSIZE =
     vbind (eval vs_Pop) (\<lambda>val.
     vbind (case AsArrayValue val of
              Ok array \<Rightarrow> heap_read (arr_Len array)
            | _ \<Rightarrow> (case AsBytes val of Ok buf \<Rightarrow> vret (int (length buf)) | _ \<Rightarrow> vfail ERR_BAD_TYPE)) (\<lambda>len.
     vbind (eval (vs_PushInt64 (of_int len))) (\<lambda>_. vret NONE)))"

fun pack_loop :: "nat \<Rightarrow> addr \<Rightarrow> unit vm" where
  "pack_loop 0 array = vret ()"
| "pack_loop (Suc n) array =
     vbind (eval vs_Pop) (\<lambda>val. vbind (heap_write (arr_Append array val)) (\<lambda>_. pack_loop n array))"

definition op_PACK :: "u8 vm" where
  "op_PACK =
     vbind (eval vs_PopAsInt64) (\<lambda>size.
       if sint size < 0 then vfail ERR_BAD_VALUE
       else
         vbind (heap_new (\<lambda>h. Ok (NewArrayValue h))) (\<lambda>array.
         vbind (pack_loop (nat (sint size)) array) (\<lambda>_.
           push_done (VmValueFromArrayVal array))))"

fun push_all :: "VmValue list \<Rightarrow> unit vm" where
  "push_all [] = vret ()"
| "push_all (v # vs) = vbind (eval (vs_Push v)) (\<lambda>_. push_all vs)"

definition op_UNPACK :: "u8 vm" where
  "op_UNPACK =
     vbind (eval vs_PopAsArray) (\<lambda>arr.
     vbind (heap_read (\<lambda>h. array_at h arr)) (\<lambda>data.
     vbind (push_all (rev (elems data))) (\<lambda>_.
     vbind (eval (vs_PushInt64 (of_nat (length (elems data))))) (\<lambda>_. vret NONE))))"

definition op_PICKITEM :: "u8 vm" where
  "op_PICKITEM =
     vbind (eval vs_PopPair) (\<lambda>(item, index).
     vbind
       (case AsArrayValue item of
          Ok array \<Rightarrow>
            vbind (lift (AsInt64 index)) (\<lambda>ind.
            vbind (heap_read (\<lambda>h. array_at h array)) (\<lambda>data.
              if sint ind < 0 \<or> sint ind \<ge> int (length (elems data)) then vfail ERR_INDEX_OUT_OF_BOUND
              else lift (at_res (elems data) (sint ind))))
        | _ \<Rightarrow>
       (case AsStructValue item of
          Ok struc \<Rightarrow>
            vbind (lift (AsInt64 index)) (\<lambda>ind.
            vbind (heap_read (\<lambda>h. struct_at h struc)) (\<lambda>data.
              if sint ind < 0 \<or> sint ind \<ge> int (length (elems data)) then vfail ERR_INDEX_OUT_OF_BOUND
              else lift (at_res (elems data) (sint ind))))
        | _ \<Rightarrow>
       (case AsMapValue item of
          Ok mapVal \<Rightarrow>
            vbind (heap_read (map_Get mapVal index)) (\<lambda>value.
              case value of None \<Rightarrow> vfail ERR_MAP_NOT_EXIST | Some v \<Rightarrow> vret v)
        | _ \<Rightarrow>
       (case AsBytes item of
          Ok buf \<Rightarrow>
            vbind (lift (AsInt64 index)) (\<lambda>ind.
              if sint ind < 0 \<or> sint ind \<ge> int (length buf) then vfail ERR_INDEX_OUT_OF_BOUND
              else vbind (lift (at_res buf (sint ind))) (\<lambda>b. vret (VmValueFromInt64 (ucast b))))
        | _ \<Rightarrow> vfail ERR_BAD_TYPE)))) push_done)"

text \<open>A struct is copied when it is stored.\<close>

definition clone_value :: "VmValue \<Rightarrow> VmValue vm" where
  "clone_value val = (case AsStructValue val of
     Ok s \<Rightarrow> vbind (heap_new (struct_Clone s)) (\<lambda>t. vret (VmValueFromStructVal t)) | _ \<Rightarrow> vret val)"

definition op_SETITEM :: "u8 vm" where
  "op_SETITEM =
     vbind (eval vs_PopTriple) (\<lambda>(item, index, val0).
     vbind (clone_value val0) (\<lambda>val.
     vbind
       (case AsArrayValue item of
          Ok array \<Rightarrow>
            vbind (lift (AsInt64 index)) (\<lambda>ind.
            vbind (heap_read (\<lambda>h. array_at h array)) (\<lambda>data.
              if sint ind < 0 \<or> sint ind \<ge> int (length (elems data)) then vfail ERR_INDEX_OUT_OF_BOUND
              else heap_write (\<lambda>h. bind_res (upd_res (elems data) (sint ind) val) (\<lambda>d. Ok (h[array := ArrayValue (Slice d)])))))
        | _ \<Rightarrow>
       (case AsStructValue item of
          Ok struc \<Rightarrow>
            vbind (lift (AsInt64 index)) (\<lambda>ind.
            vbind (heap_read (\<lambda>h. struct_at h struc)) (\<lambda>data.
              if sint ind < 0 \<or> sint ind \<ge> int (length (elems data)) then vfail ERR_INDEX_OUT_OF_BOUND
              else heap_write (\<lambda>h. bind_res (upd_res (elems data) (sint ind) val) (\<lambda>d. Ok (h[struc := StructValue (Slice d)])))))
        | _ \<Rightarrow>
       (case AsMapValue item of
          Ok mapVal \<Rightarrow> heap_write (map_Set mapVal index val)
        | _ \<Rightarrow> vfail ERR_BAD_TYPE))) (\<lambda>_. vret NONE)))"

fun append_falses :: "(VmValue \<Rightarrow> heap \<Rightarrow> heap res) \<Rightarrow> nat \<Rightarrow> unit vm" where
  "append_falses app 0 = vret ()"
| "append_falses app (Suc n) = vbind (heap_write (app (VmValueFromBool False))) (\<lambda>_. append_falses app n)"

definition op_NEWARRAY :: "u8 vm" where
  "op_NEWARRAY =
     vbind (eval vs_PopAsInt64) (\<lambda>count.
       if sint count < 0 \<or> sint count > int MAX_ARRAY_SIZE then vfail ERR_BAD_VALUE
       else
         vbind (heap_new (\<lambda>h. Ok (NewArrayValue h))) (\<lambda>array.
         vbind (append_falses (arr_Append array) (nat (sint count))) (\<lambda>_.
           push_done (VmValueFromArrayVal array))))"

definition op_NEWSTRUCT :: "u8 vm" where
  "op_NEWSTRUCT =
     vbind (eval vs_PopAsInt64) (\<lambda>count.
       if sint count < 0 \<or> sint count > int MAX_ARRAY_SIZE then vfail ERR_BAD_VALUE
       else
         vbind (heap_new (\<lambda>h. Ok (NewStructValue h))) (\<lambda>array.
         vbind (append_falses (struct_Append array) (nat (sint count))) (\<lambda>_.
           push_done (VmValueFromStructVal array))))"

definition op_NEWMAP :: "u8 vm" where
  "op_NEWMAP = vbind (heap_new (\<lambda>h. Ok (NewMapVmValue h))) push_done"

text \<open>
  The error of the second \<open>Pop\<close> is not checked. On an empty stack \<open>val\<close> is the zero \<open>VmValue\<close>, an
  empty byte array, which the switch refuses.
\<close>

definition pop_or_zero :: "VmValue vm" where
  "pop_or_zero ex = (case vs_Pop (EvalStack ex) of Ok (v, st) \<Rightarrow> Ok (v, ex\<lparr>EvalStack := st\<rparr>) | _ \<Rightarrow> Ok (VBytes [], ex))"

definition op_APPEND :: "u8 vm" where
  "op_APPEND =
     vbind (eval vs_Pop) (\<lambda>item0.
     vbind (clone_value item0) (\<lambda>item.
     vbind pop_or_zero (\<lambda>val.
       case val of
         VStruct array \<Rightarrow> vbind (heap_write (struct_Append array item)) (\<lambda>_. vret NONE)
       | VArray array \<Rightarrow> vbind (heap_write (arr_Append array item)) (\<lambda>_. vret NONE)
       | _ \<Rightarrow> vfail ''[executor] ExecuteOp APPEND error, unknown datatype'')))"

text \<open>The loop of \<open>REVERSE\<close> swaps in place from both ends.\<close>

function reverse_loop :: "int \<Rightarrow> int \<Rightarrow> VmValue list \<Rightarrow> VmValue list res" where
  "reverse_loop i j data =
     (if i < j then
        bind_res (at_res data j) (\<lambda>y.
        bind_res (at_res data i) (\<lambda>x.
        bind_res (upd_res data i y) (\<lambda>d1.
        bind_res (upd_res d1 j x) (\<lambda>d2. reverse_loop (i + 1) (j - 1) d2))))
      else Ok data)"
  by pat_completeness auto
termination by (relation "measure (\<lambda>(i, j, data). nat (j - i))") auto

declare reverse_loop.simps [simp del]

fun slice_map :: "('a list \<Rightarrow> 'a list res) \<Rightarrow> 'a slice \<Rightarrow> 'a slice res" where
  "slice_map f NilSlice = Ok NilSlice"
| "slice_map f (Slice xs) = bind_res (f xs) (\<lambda>ys. Ok (Slice ys))"

definition op_REVERSE :: "u8 vm" where
  "op_REVERSE =
     vbind (eval vs_Pop) (\<lambda>item.
     vbind
       (case AsArrayValue item of
          Ok array \<Rightarrow>
            heap_write (\<lambda>h. bind_res (array_at h array) (\<lambda>data.
              bind_res (slice_map (\<lambda>xs. reverse_loop 0 (int (length xs) - 1) xs) data) (\<lambda>d. Ok (h[array := ArrayValue d]))))
        | _ \<Rightarrow>
       (case AsStructValue item of
          Ok struc \<Rightarrow>
            heap_write (\<lambda>h. bind_res (struct_at h struc) (\<lambda>data.
              bind_res (slice_map (\<lambda>xs. reverse_loop 0 (int (length xs) - 1) xs) data) (\<lambda>d. Ok (h[struc := StructValue d]))))
        | _ \<Rightarrow> vfail ERR_BAD_TYPE)) (\<lambda>_. vret NONE))"

definition op_REMOVE :: "u8 vm" where
  "op_REMOVE =
     vbind (eval vs_PopPair) (\<lambda>(item, index).
       case item of
         VMap value \<Rightarrow> vbind (heap_write (map_Remove value index)) (\<lambda>_. vret NONE)
       | VArray value \<Rightarrow>
           vbind (lift (AsInt64 index)) (\<lambda>i. vbind (heap_write (arr_RemoveAt value i)) (\<lambda>_. vret NONE))
       | _ \<Rightarrow> vfail ''[REMOVE] not support datatype'')"

definition op_HASKEY :: "u8 vm" where
  "op_HASKEY =
     vbind (eval vs_PopPair) (\<lambda>(item, key).
     vbind (lift (AsMapValue item)) (\<lambda>mapValue.
     vbind (heap_read (map_Get mapValue key)) (\<lambda>v.
       push_done (VmValueFromBool (v \<noteq> None)))))"

definition op_KEYS :: "u8 vm" where
  "op_KEYS =
     vbind (eval vs_Pop) (\<lambda>item.
     vbind (lift (AsMapValue item)) (\<lambda>mapValue.
     vbind (heap_read (GetMapSortedKey mapValue)) (\<lambda>keys.
     vbind (heap_new (\<lambda>h. Ok (NewArrayValue h))) (\<lambda>arr.
     vbind (heap_write (arr_append_all arr keys)) (\<lambda>_.
       push_done (VmValueFromArrayVal arr))))))"

definition op_VALUES :: "u8 vm" where
  "op_VALUES =
     vbind (eval vs_Pop) (\<lambda>item.
     vbind (lift (AsMapValue item)) (\<lambda>mapVal.
     vbind (heap_read (GetValues mapVal)) (\<lambda>vals.
     vbind (heap_new (\<lambda>h. Ok (NewArrayValue h))) (\<lambda>arr.
     vbind (heap_write (arr_append_all arr vals)) (\<lambda>_.
       push_done (VmValueFromArrayVal arr))))))"

section \<open>Exceptions\<close>

definition op_THROW :: "u8 vm" where
  "op_THROW = vret FAULT"

definition op_THROWIFNOT :: "u8 vm" where
  "op_THROWIFNOT = vbind (eval vs_PopAsBool) (\<lambda>val. if \<not> val then vret FAULT else vret NONE)"

section \<open>The interpreter\<close>

definition execute_switch :: "('k, 's) neo_env \<Rightarrow> u8 \<Rightarrow> u8 vm" where
  "execute_switch env opcode =
     (if opcode = OP_PUSH0 then op_PUSH0
      else if opcode \<in> {OP_PUSHDATA1, OP_PUSHDATA2, OP_PUSHDATA4} then op_PUSHDATA opcode
      else if opcode \<in> {OP_PUSHM1, OP_PUSH1, OP_PUSH2, OP_PUSH3, OP_PUSH4, OP_PUSH5, OP_PUSH6, OP_PUSH7, OP_PUSH8, OP_PUSH9,
          OP_PUSH10, OP_PUSH11, OP_PUSH12, OP_PUSH13, OP_PUSH14, OP_PUSH15, OP_PUSH16} then op_PUSHNUM opcode
      else if opcode = OP_NOP then vret NONE
      else if opcode \<in> {OP_JMP, OP_JMPIF, OP_JMPIFNOT, OP_CALL} then op_JMP opcode
      else if opcode = OP_DCALL then op_DCALL
      else if opcode = OP_RET then op_RET
      else if opcode = OP_DUPFROMALTSTACK then op_DUPFROMALTSTACK
      else if opcode = OP_TOALTSTACK then op_TOALTSTACK
      else if opcode = OP_FROMALTSTACK then op_FROMALTSTACK
      else if opcode = OP_XDROP then op_XDROP
      else if opcode = OP_XSWAP then op_XSWAP
      else if opcode = OP_XTUCK then op_XTUCK
      else if opcode = OP_DEPTH then op_DEPTH
      else if opcode = OP_DROP then op_DROP
      else if opcode = OP_DUP then op_DUP
      else if opcode = OP_NIP then op_NIP
      else if opcode = OP_OVER then op_OVER
      else if opcode = OP_PICK then op_PICK
      else if opcode \<in> {OP_ROLL, OP_ROT} then op_ROLL opcode
      else if opcode = OP_SWAP then op_SWAP
      else if opcode = OP_TUCK then op_TUCK
      else if opcode = OP_CAT then op_CAT
      else if opcode = OP_SUBSTR then op_SUBSTR
      else if opcode = OP_LEFT then op_LEFT
      else if opcode = OP_RIGHT then op_RIGHT
      else if opcode = OP_SIZE then op_SIZE
      else if opcode = OP_INVERT then op_INVERT
      else if opcode \<in> {OP_AND, OP_OR, OP_XOR} then op_AND opcode
      else if opcode = OP_EQUAL then op_EQUAL env
      else if opcode \<in> {OP_INC, OP_DEC, OP_SIGN, OP_NEGATE, OP_ABS} then op_INC env opcode
      else if opcode = OP_NZ then op_NZ
      else if opcode \<in> {OP_ADD, OP_SUB, OP_MUL, OP_DIV, OP_MOD, OP_MAX, OP_MIN} then op_ADD env opcode
      else if opcode \<in> {OP_SHL, OP_SHR} then op_SHL opcode
      else if opcode \<in> {OP_NUMNOTEQUAL, OP_NUMEQUAL} then op_NUMEQUAL opcode
      else if opcode \<in> {OP_LT, OP_GT, OP_LTE, OP_GTE} then op_LT opcode
      else if opcode \<in> {OP_BOOLAND, OP_BOOLOR} then op_BOOLAND opcode
      else if opcode = OP_NOT then op_NOT
      else if opcode = OP_WITHIN then op_WITHIN
      else if opcode \<in> {OP_SHA1, OP_SHA256, OP_HASH160, OP_HASH256} then op_HASH env opcode
      else if opcode = OP_VERIFY then op_VERIFY env
      else if opcode = OP_ARRAYSIZE then op_ARRAYSIZE
      else if opcode = OP_PACK then op_PACK
      else if opcode = OP_UNPACK then op_UNPACK
      else if opcode = OP_PICKITEM then op_PICKITEM
      else if opcode = OP_SETITEM then op_SETITEM
      else if opcode = OP_NEWARRAY then op_NEWARRAY
      else if opcode = OP_NEWSTRUCT then op_NEWSTRUCT
      else if opcode = OP_NEWMAP then op_NEWMAP
      else if opcode = OP_APPEND then op_APPEND
      else if opcode = OP_REVERSE then op_REVERSE
      else if opcode = OP_REMOVE then op_REMOVE
      else if opcode = OP_HASKEY then op_HASKEY
      else if opcode = OP_KEYS then op_KEYS
      else if opcode = OP_VALUES then op_VALUES
      else if opcode = OP_THROW then op_THROW
      else if opcode = OP_THROWIFNOT then op_THROWIFNOT
      else vfail ERR_NOT_SUPPORT_OPCODE)"

definition ExecuteOp :: "('k, 's) neo_env \<Rightarrow> u8 \<Rightarrow> u8 vm" where
  "ExecuteOp env opcode =
     vbind (checkFeaturesEnabled opcode) (\<lambda>_.
       if opcode \<ge> OP_PUSHBYTES1 \<and> opcode \<le> OP_PUSHBYTES75 then op_PUSHBYTES opcode
       else execute_switch env opcode)"

text \<open>One round of the loop of \<open>Execute\<close>: the executor after an opcode, or the executor with which the loop is left.\<close>

definition execute_step :: "('k, 's) neo_env \<Rightarrow> Executor \<Rightarrow> (Executor + Executor) res" where
  "execute_step env self =
     (case ex_Context self of
        None \<Rightarrow> Ok (Inr self)
      | Some c \<Rightarrow>
          if ex_State self = FAULT \<or> ex_State self = HALT \<or> ex_State self = BREAK then Ok (Inr self)
          else
            (case ReadOpCode c of ((opcode, eof), c') \<Rightarrow>
               if eof then Ok (Inr self)
               else
                 bind_res (ExecuteOp env opcode (self\<lparr>ex_Context := Some c'\<rparr>)) (\<lambda>(state, self').
                   Ok (Inl (self'\<lparr>ex_State := state\<rparr>)))))"

definition Execute :: "('k, 's) neo_env \<Rightarrow> Executor \<Rightarrow> Executor res" where
  "Execute env self = loop (execute_step env) (self\<lparr>ex_State := ex_State self AND NOT BREAK\<rparr>)"

end
