(* ===== verification/NeoSafety.thy ===== *)
theory NeoSafety
  imports NeoExec
begin

text \<open>
  The safety of the NeoVM interpreter. A machine is well-formed when its stacks are within their limits and all
  values, on the stacks and in the heap, are well-formed. A small calculus of safe operations shows, opcode by
  opcode, that executing an opcode ends without a panic and leaves the machine well-formed.
\<close>

section \<open>Reading code\<close>

lemma reader_Read_cases:
  "(\<exists>b' r'. reader_Read b r = Ok (b', r') \<and> length b' = length b) \<or> reader_Read b r = Err EOF"
  by (simp add: reader_Read_def Let_def)

lemma vr_total:
  "(\<exists>x. vr_ReadByte r = Ok x) \<or> (\<exists>e. vr_ReadByte r = Err e)"
  "(\<exists>x. vr_ReadBytes n r = Ok x) \<or> (\<exists>e. vr_ReadBytes n r = Err e)"
  "(\<exists>x. vr_ReadUint16 r = Ok x) \<or> (\<exists>e. vr_ReadUint16 r = Err e)"
  "(\<exists>x. vr_ReadUint32 r = Ok x) \<or> (\<exists>e. vr_ReadUint32 r = Err e)"
  "(\<exists>x. vr_ReadInt16 r = Ok x) \<or> (\<exists>e. vr_ReadInt16 r = Err e)"
  by (auto simp: vr_ReadByte_def vr_ReadBytes_def reader_Read_def vr_ReadUint16_def vr_ReadUint32_def vr_ReadInt16_def
      vr_ReadBytesInto_def Let_def)

lemma SetInstructionPointer_total:
  "(\<exists>c'. SetInstructionPointer offset c = Ok c') \<or> (\<exists>e. SetInstructionPointer offset c = Err e)"
  by (simp add: SetInstructionPointer_def vr_Seek_def reader_Seek_def SeekStart_def)

section \<open>Well-formed machines\<close>

definition exec_ok :: "Executor \<Rightarrow> bool" where
  "exec_ok ex \<longleftrightarrow> wf_heap (ex_heap ex) \<and> wf_stack (ex_heap ex) (EvalStack ex) \<and> wf_stack (ex_heap ex) (AltStack ex)
     \<and> length (Callers ex) \<le> MAX_INVOCATION_STACK_SIZE"

text \<open>
  \<open>vsafe H Q m\<close>: run on a well-formed machine with a context, whose heap extends \<open>H\<close>, \<open>m\<close> ends without a panic, and
  when it succeeds the machine is well-formed, its heap extends the old one, and the result satisfies \<open>Q\<close>.
\<close>

definition vsafe :: "heap \<Rightarrow> (heap \<Rightarrow> 'a \<Rightarrow> bool) \<Rightarrow> 'a vm \<Rightarrow> bool" where
  "vsafe H Q m \<longleftrightarrow> (\<forall>ex. exec_ok ex \<longrightarrow> ex_Context ex \<noteq> None \<longrightarrow> extends H (ex_heap ex) \<longrightarrow>
     (case m ex of
        Ok (x, ex') \<Rightarrow> exec_ok ex' \<and> ex_Context ex' \<noteq> None \<and> extends (ex_heap ex) (ex_heap ex') \<and> Q (ex_heap ex') x
      | Err _ \<Rightarrow> True | _ \<Rightarrow> False))"

abbreviation any :: "heap \<Rightarrow> 'a \<Rightarrow> bool" where
  "any \<equiv> \<lambda>_ _. True"

named_theorems vsafe_intros \<open>safe operations of the machine\<close>

lemma vsafeI:
  assumes "\<And>ex. exec_ok ex \<Longrightarrow> ex_Context ex \<noteq> None \<Longrightarrow> extends H (ex_heap ex) \<Longrightarrow>
     (\<exists>e. m ex = Err e) \<or> (\<exists>x ex'. m ex = Ok (x, ex') \<and> exec_ok ex' \<and> ex_Context ex' \<noteq> None
        \<and> extends (ex_heap ex) (ex_heap ex') \<and> Q (ex_heap ex') x)"
  shows "vsafe H Q m"
  unfolding vsafe_def using assms by fastforce

lemma vsafeD:
  assumes "vsafe H Q m" "exec_ok ex" "ex_Context ex \<noteq> None" "extends H (ex_heap ex)"
  shows "(\<exists>e. m ex = Err e) \<or> (\<exists>x ex'. m ex = Ok (x, ex') \<and> exec_ok ex' \<and> ex_Context ex' \<noteq> None
    \<and> extends (ex_heap ex) (ex_heap ex') \<and> Q (ex_heap ex') x)"
  using assms unfolding vsafe_def by (fastforce split: res.splits)

lemma vsafe_bind:
  assumes m: "vsafe H P m" and f: "\<And>H' x. extends H H' \<Longrightarrow> P H' x \<Longrightarrow> vsafe H' Q (f x)"
  shows "vsafe H Q (vbind m f)"
proof (rule vsafeI)
  fix ex
  assume ex: "exec_ok ex" "ex_Context ex \<noteq> None" "extends H (ex_heap ex)"
  from vsafeD [OF m this] show "(\<exists>e. vbind m f ex = Err e) \<or> (\<exists>x ex'. vbind m f ex = Ok (x, ex') \<and> exec_ok ex'
      \<and> ex_Context ex' \<noteq> None \<and> extends (ex_heap ex) (ex_heap ex') \<and> Q (ex_heap ex') x)"
  proof (elim disjE exE conjE)
    fix x ex1
    assume 1: "m ex = Ok (x, ex1)" "exec_ok ex1" "ex_Context ex1 \<noteq> None" "extends (ex_heap ex) (ex_heap ex1)" "P (ex_heap ex1) x"
    have "vsafe (ex_heap ex1) Q (f x)"
      using 1 ex by (intro f) (auto intro: extends_trans)
    from vsafeD [OF this 1(2,3) extends_refl] show ?thesis
      using 1 by (auto simp: vbind_def intro: extends_trans)
  qed (simp add: vbind_def)
qed

lemma vsafe_ret [vsafe_intros]: "(\<And>H'. extends H H' \<Longrightarrow> Q H' x) \<Longrightarrow> vsafe H Q (vret x)"
  by (rule vsafeI) (simp add: vret_def)

lemma vsafe_fail [vsafe_intros]: "vsafe H Q (vfail e)"
  by (rule vsafeI) (simp add: vfail_def)

lemma vsafe_if [vsafe_intros]: "(b \<Longrightarrow> vsafe H Q m) \<Longrightarrow> (\<not> b \<Longrightarrow> vsafe H Q n) \<Longrightarrow> vsafe H Q (if b then m else n)"
  by simp

lemma vsafe_eval:
  assumes "\<And>h st. extends H h \<Longrightarrow> wf_stack h st \<Longrightarrow> stack_safe h (Q h) (f st)"
  shows "vsafe H Q (eval f)" "vsafe H Q (alt f)"
proof -
  have "(\<exists>e. f st = Err e) \<or> (\<exists>x st'. f st = Ok (x, st') \<and> wf_stack h st' \<and> Q h x)" if "extends H h" "wf_stack h st" for h st
    using assms [OF that] by (auto simp: stack_safe_def split: res.splits)
  then show "vsafe H Q (eval f)" "vsafe H Q (alt f)"
    by (intro vsafeI; fastforce simp: eval_def alt_def exec_ok_def)+
qed

lemma vsafe_lift:
  assumes "(\<exists>x. r = Ok x) \<or> (\<exists>e. r = Err e)" "\<And>H' x. r = Ok x \<Longrightarrow> extends H H' \<Longrightarrow> Q H' x"
  shows "vsafe H Q (lift r)"
  using assms by (intro vsafeI) (auto simp: lift_def)

lemma vsafe_heap_write:
  assumes "\<And>h. wf_heap h \<Longrightarrow> extends H h \<Longrightarrow> heap_safe h (f h)"
  shows "vsafe H any (heap_write f)"
proof (rule vsafeI)
  fix ex
  assume "exec_ok ex" "ex_Context ex \<noteq> None" "extends H (ex_heap ex)"
  then show "(\<exists>e. heap_write f ex = Err e) \<or> (\<exists>x ex'. heap_write f ex = Ok (x, ex') \<and> exec_ok ex' \<and> ex_Context ex' \<noteq> None
      \<and> extends (ex_heap ex) (ex_heap ex') \<and> True)"
    using assms [of "ex_heap ex"]
    by (auto simp: heap_write_def heap_safe_def exec_ok_def split: res.splits intro: wf_stack_extends)
qed

lemma vsafe_heap_read:
  assumes "\<And>h. wf_heap h \<Longrightarrow> extends H h \<Longrightarrow> (\<exists>e. f h = Err e) \<or> (\<exists>x. f h = Ok x \<and> Q h x)"
  shows "vsafe H Q (heap_read f)"
proof (rule vsafeI)
  fix ex
  assume "exec_ok ex" "ex_Context ex \<noteq> None" "extends H (ex_heap ex)"
  then show "(\<exists>e. heap_read f ex = Err e) \<or> (\<exists>x ex'. heap_read f ex = Ok (x, ex') \<and> exec_ok ex' \<and> ex_Context ex' \<noteq> None
      \<and> extends (ex_heap ex) (ex_heap ex') \<and> Q (ex_heap ex') x)"
    using assms [of "ex_heap ex"] by (auto simp: heap_read_def exec_ok_def)
qed

lemma vsafe_heap_new:
  assumes "\<And>h. wf_heap h \<Longrightarrow> extends H h \<Longrightarrow> (\<exists>e. f h = Err e) \<or> (\<exists>x h'. f h = Ok (x, h') \<and> wf_heap h' \<and> extends h h' \<and> Q h' x)"
  shows "vsafe H Q (heap_new f)"
proof (rule vsafeI)
  fix ex
  assume "exec_ok ex" "ex_Context ex \<noteq> None" "extends H (ex_heap ex)"
  then show "(\<exists>e. heap_new f ex = Err e) \<or> (\<exists>x ex'. heap_new f ex = Ok (x, ex') \<and> exec_ok ex' \<and> ex_Context ex' \<noteq> None
      \<and> extends (ex_heap ex) (ex_heap ex') \<and> Q (ex_heap ex') x)"
    using assms [of "ex_heap ex"]
    by (auto simp: heap_new_def exec_ok_def intro: wf_stack_extends)
qed

lemma vsafe_get_context [vsafe_intros]: "vsafe H any get_context"
  by (rule vsafeI) (auto simp: get_context_def)

lemma vsafe_set_context [vsafe_intros]: "vsafe H any (set_context c)"
  by (rule vsafeI) (auto simp: set_context_def exec_ok_def)

lemma vsafe_PushContext [vsafe_intros]: "vsafe H any (exec_PushContext c)"
  by (rule vsafeI) (auto simp: exec_PushContext_def exec_ok_def)

lemma vsafe_features [vsafe_intros]: "vsafe H any (checkFeaturesEnabled opcode)"
  by (rule vsafeI) (auto simp: checkFeaturesEnabled_def)

lemma vsafe_reader:
  assumes "\<And>r. (\<exists>x. f r = Ok x) \<or> (\<exists>e. f r = Err e)"
  shows "vsafe H any (reader f)"
  unfolding reader_def
  by (intro vsafe_bind [OF vsafe_get_context] vsafe_bind [OF vsafe_lift, OF assms TrueI])
    (auto intro!: vsafe_bind [OF vsafe_set_context] vsafe_ret)

lemma vsafe_readers [vsafe_intros]:
  "vsafe H any (reader vr_ReadByte)" "vsafe H any (reader (vr_ReadBytes n))" "vsafe H any (reader vr_ReadUint16)"
  "vsafe H any (reader vr_ReadUint32)" "vsafe H any (reader vr_ReadInt16)"
  by (rule vsafe_reader, rule vr_total)+

lemma vsafe_jump [vsafe_intros]: "vsafe H any (jump offset)"
  unfolding jump_def
  by (intro vsafe_bind [OF vsafe_get_context] vsafe_bind [OF vsafe_lift, OF SetInstructionPointer_total TrueI] vsafe_set_context)

lemma vsafe_pops [vsafe_intros]:
  "vsafe H wf_val (eval vs_Pop)" "vsafe H wf_val (alt vs_Pop)"
  "vsafe H wf_val (eval (vs_Peek i))" "vsafe H wf_val (alt (vs_Peek i))" "vsafe H wf_val (eval (vs_Remove i))"
  "vsafe H (\<lambda>h (l, r). wf_val h l \<and> wf_val h r) (eval vs_PopPair)"
  "vsafe H (\<lambda>h (l, m, r). wf_val h l \<and> wf_val h m \<and> wf_val h r) (eval vs_PopTriple)"
  "vsafe H any (eval vs_PopAsBool)" "vsafe H any (eval vs_PopAsInt64)"
  "vsafe H (\<lambda>_ x. canonical x \<and> \<bar>ival x\<bar> < 2 ^ 256) (eval vs_PopAsIntValue)"
  "vsafe H (\<lambda>_ bs. length bs \<le> MAX_BYTEARRAY_SIZE) (eval vs_PopAsBytes)"
  "vsafe H (\<lambda>h a. wf_val h (VArray a)) (eval vs_PopAsArray)"
  by (rule vsafe_eval, erule stack_safe_intros)+

lemma vsafe_pop_pairs [vsafe_intros]:
  "vsafe H any (eval vs_PopPairAsBytes)" "vsafe H any (eval vs_PopPairAsBool)" "vsafe H any (eval vs_PopPairAsInt64)"
  "vsafe H (\<lambda>_ (x, y). (canonical x \<and> \<bar>ival x\<bar> < 2 ^ 256) \<and> canonical y \<and> \<bar>ival y\<bar> < 2 ^ 256) (eval vs_PopPairAsIntVal)"
  "vsafe H any (eval vs_PopTripleAsBytes)" "vsafe H any (eval vs_PopTripleAsIntVal)"
  by (rule vsafe_eval; rule stack_safe_mono, erule stack_safe_intros, simp)+

lemma vsafe_pushes [vsafe_intros]:
  "wf_val H v \<Longrightarrow> vsafe H any (eval (vs_Push v))" "wf_val H v \<Longrightarrow> vsafe H any (alt (vs_Push v))"
  "wf_val H v \<Longrightarrow> vsafe H any (eval (vs_Insert i v))"
  "list_all (wf_val H) vs \<Longrightarrow> vsafe H any (eval (vs_PushMany vs))"
  "vsafe H any (eval (vs_Swap i j))"
  "vsafe H any (eval (vs_PushBool b))" "vsafe H any (eval (vs_PushInt64 n))" "vsafe H any (eval (vs_PushBytes bs))"
  by (rule vsafe_eval; auto intro!: stack_safe_intros intro: wf_val_extends wf_vals_extends)+

lemma vsafe_done [vsafe_intros]: "vsafe H any (vret NONE)"
  by (rule vsafe_ret) simp

lemma vsafe_push_done [vsafe_intros]: "wf_val H v \<Longrightarrow> vsafe H any (push_done v)"
  unfolding push_done_def by (intro vsafe_bind [OF vsafe_pushes(1)] vsafe_done)

lemma vsafe_from_bytes [vsafe_intros]: "vsafe H wf_val (lift (VmValueFromBytes bs))"
  by (rule vsafe_lift) (auto simp: VmValueFromBytes_def split: if_splits)

lemma wf_made [simp]:
  "wf_val H (VmValueFromInt64 i)" "wf_val H (VmValueFromBool b)"
  by (simp_all add: VmValueFromInt64_def VmValueFromBool_def)

lemma vsafe_conversions [vsafe_intros]:
  "vsafe H any (lift (AsInt64 v))" "vsafe H any (lift (AsBigInt v))"
  "wf_val H v \<Longrightarrow> vsafe H (\<lambda>h a. wf_val h (VMap a)) (lift (AsMapValue v))"
proof -
  show "vsafe H any (lift (AsInt64 v))" "vsafe H any (lift (AsBigInt v))"
    by (rule vsafe_lift, rule AsInt64_cases AsBigInt_cases, rule TrueI)+
  show "vsafe H (\<lambda>h a. wf_val h (VMap a)) (lift (AsMapValue v))" if "wf_val H v"
  proof (rule vsafe_lift)
    show "(\<exists>x. AsMapValue v = Ok x) \<or> (\<exists>e. AsMapValue v = Err e)"
      by (cases v) simp_all
    show "wf_val H' (VMap a)" if "AsMapValue v = Ok a" "extends H H'" for H' a
      using wf_val_pointers(3) [OF \<open>wf_val H v\<close> that(1)] that(2) by (rule wf_val_extends)
  qed
qed

text \<open>Rules for an operation followed by others.\<close>

lemmas vsafe_then = vsafe_pops [THEN vsafe_bind] vsafe_pop_pairs [THEN vsafe_bind] vsafe_pushes [THEN vsafe_bind]
  vsafe_from_bytes [THEN vsafe_bind] vsafe_readers [THEN vsafe_bind] vsafe_get_context [THEN vsafe_bind]
  vsafe_PushContext [THEN vsafe_bind] vsafe_jump [THEN vsafe_bind] vsafe_conversions [THEN vsafe_bind]
  vsafe_features [THEN vsafe_bind]

section \<open>The opcodes\<close>

lemma safe_push_ops [vsafe_intros]:
  "vsafe H any (op_PUSHBYTES opcode)" "vsafe H any op_PUSH0" "vsafe H any (op_PUSHDATA opcode)" "vsafe H any (op_PUSHNUM opcode)"
  unfolding op_PUSHBYTES_def op_PUSH0_def op_PUSHDATA_def op_PUSHNUM_def Let_def
  by (intro vsafe_then vsafe_intros vsafe_bind [where P = any] | simp)+

lemma safe_flow_ops [vsafe_intros]: "vsafe H any (op_JMP opcode)" "vsafe H any op_DCALL"
  unfolding op_JMP_def op_DCALL_def Let_def
  by (intro vsafe_then vsafe_intros vsafe_bind [OF vsafe_lift [OF SetInstructionPointer_total TrueI]] vsafe_bind [where P = any] | simp)+

lemma safe_stack_ops [vsafe_intros]:
  "vsafe H any op_DUPFROMALTSTACK" "vsafe H any op_TOALTSTACK" "vsafe H any op_FROMALTSTACK" "vsafe H any op_XDROP"
  "vsafe H any op_XSWAP" "vsafe H any op_XTUCK" "vsafe H any op_DROP" "vsafe H any op_DUP" "vsafe H any op_NIP" "vsafe H any op_OVER"
  "vsafe H any op_PICK" "vsafe H any (op_ROLL opcode)" "vsafe H any op_SWAP" "vsafe H any op_TUCK"
  unfolding op_DUPFROMALTSTACK_def op_TOALTSTACK_def op_FROMALTSTACK_def op_XDROP_def op_XSWAP_def op_XTUCK_def op_DROP_def
    op_DUP_def op_NIP_def op_OVER_def op_PICK_def op_ROLL_def op_SWAP_def op_TUCK_def
  by (intro vsafe_then vsafe_intros vsafe_bind [where P = any] | clarsimp)+

lemma safe_DEPTH [vsafe_intros]: "vsafe H any op_DEPTH"
proof (rule vsafeI)
  fix ex
  assume "exec_ok ex" "ex_Context ex \<noteq> None" "extends H (ex_heap ex)"
  moreover have "vsafe H any (vbind (eval (vs_PushInt64 (of_nat (vs_Count (EvalStack ex))))) (\<lambda>_. vret NONE))"
    by (intro vsafe_then vsafe_intros)
  ultimately show "(\<exists>e. op_DEPTH ex = Err e) \<or> (\<exists>x ex'. op_DEPTH ex = Ok (x, ex') \<and> exec_ok ex' \<and> ex_Context ex' \<noteq> None
      \<and> extends (ex_heap ex) (ex_heap ex') \<and> True)"
    using vsafeD unfolding op_DEPTH_def by blast
qed

text \<open>Index and slice expressions within their bounds.\<close>

lemma vsafe_slice: "0 \<le> lo \<Longrightarrow> lo \<le> hi \<Longrightarrow> hi \<le> int (length xs) \<Longrightarrow> vsafe H any (lift (slice_res xs lo hi))"
  by (simp add: vsafe_lift)

lemma list_all_nth: "list_all P xs \<Longrightarrow> i < length xs \<Longrightarrow> P (xs ! i)"
  by (simp add: list_all_length)

lemma vsafe_at:
  "0 \<le> i \<Longrightarrow> i < int (length xs) \<Longrightarrow> vsafe H any (lift (at_res xs i))"
  "list_all (wf_val H) vs \<Longrightarrow> 0 \<le> i \<Longrightarrow> i < int (length vs) \<Longrightarrow> vsafe H wf_val (lift (at_res vs i))"
  by (simp_all add: vsafe_lift)
    (rule vsafe_lift, auto intro!: list_all_nth [of "wf_val _"] intro: wf_vals_extends)

lemma safe_splice_ops [vsafe_intros]:
  "vsafe H any op_CAT" "vsafe H any op_SUBSTR" "vsafe H any op_LEFT" "vsafe H any op_RIGHT" "vsafe H any op_SIZE"
proof -
  show "vsafe H any op_CAT" "vsafe H any op_SIZE"
    unfolding op_CAT_def op_SIZE_def by (intro vsafe_then vsafe_intros | clarsimp)+
  show "vsafe H any op_LEFT" "vsafe H any op_RIGHT"
    unfolding op_LEFT_def op_RIGHT_def Let_def
    by (intro vsafe_then vsafe_if vsafe_fail vsafe_bind [OF vsafe_slice] vsafe_done; simp)+
  show "vsafe H any op_SUBSTR"
    unfolding op_SUBSTR_def Let_def
    apply (intro vsafe_then, clarify, intro vsafe_then vsafe_if vsafe_fail vsafe_bind [OF vsafe_slice] vsafe_done)
    subgoal for H1 start count H2 arr
      by simp
    subgoal for H1 start count H2 arr
      using sint_add_in [of start count] by (simp add: MAX_BYTEARRAY_SIZE_def)
    by simp
qed

text \<open>The integer operations; a sum, difference or product is checked against the limit after the package \<open>overflow\<close>.\<close>

definition int_ok :: "IntValue \<Rightarrow> bool" where
  "int_ok x \<longleftrightarrow> canonical x \<and> \<bar>ival x\<bar> \<le> 2 ^ 256"

lemma int_okI: "canonical x \<Longrightarrow> \<bar>ival x\<bar> < 2 ^ 256 \<Longrightarrow> int_ok x"
  by (simp add: int_ok_def)

lemma int_ok_Small [simp]: "int_ok (Small i)" "int_ok (IntValFromInt i)"
  using sint_IsInt64 [of i] by (auto simp: int_ok_def IntValFromInt_def big_IsInt64_def)

definition int_res :: "IntValue res \<Rightarrow> bool" where
  "int_res r \<longleftrightarrow> (\<exists>e. r = Err e) \<or> (\<exists>x. r = Ok x \<and> int_ok x)"

lemma int_res_simps [simp]: "int_res (Err e)" "int_res (Ok x) \<longleftrightarrow> int_ok x"
  by (simp_all add: int_res_def)

lemma int_res_checked [simp]: "int_res (checked z)"
  using ival_checked [of z] by (auto simp: checked_def int_ok_def)

lemma int_res_intOp: "(\<And>a b. int_res (g a b)) \<Longrightarrow> int_res (intOp x y f g)"
  by (cases x; cases y) (auto simp: intOp_def split: prod.split)

lemma int_res_ops [simp]:
  "int_res (IntVal_And x y)" "int_res (IntVal_Or x y)" "int_res (IntVal_Xor x y)" "int_res (IntVal_Max x y)" "int_res (IntVal_Min x y)"
  "int_res (IntVal_Add ov x y)" "int_res (IntVal_Sub ov x y)" "int_res (IntVal_Mul ov x y)" "int_res (IntVal_Div x y)" "int_res (IntVal_Mod x y)"
  by (simp_all add: IntVal_And_def IntVal_Or_def IntVal_Xor_def IntVal_Max_def IntVal_Min_def IntVal_Add_def IntVal_Sub_def IntVal_Mul_def
    IntVal_Div_def IntVal_Mod_def IntValFromBigInt_eq int_res_intOp)

lemma int_res_shifts [simp]: "int_res (Lsh x y)" "int_res (Rsh x y)"
  by (cases "shift_count y"; simp add: Lsh_def Rsh_def IntValFromBigInt_eq Let_def;
      simp add: shift_count_def split: IntValue.splits if_splits)+

lemma int_ok_unary [simp]:
  "canonical x \<Longrightarrow> \<bar>ival x\<bar> < 2 ^ 256 \<Longrightarrow> int_ok (IntVal_Not x)"
  "canonical x \<Longrightarrow> \<bar>ival x\<bar> < 2 ^ 256 \<Longrightarrow> int_ok (IntVal_Abs x)"
  using ival_Not [of x] ival_Abs [of x] by (simp_all add: int_ok_def)

lemma vsafe_lift_int: "int_res r \<Longrightarrow> vsafe H (\<lambda>_ x. int_ok x) (lift r)"
  by (intro vsafe_lift) (auto simp: int_res_def)

lemma vsafe_push_int [vsafe_intros]: "int_ok x \<Longrightarrow> vsafe H any (push_done (VmValueFromIntValue x))"
  by (intro vsafe_push_done wf_int_value) (simp_all add: int_ok_def)

lemma vsafe_int_result: "int_res r \<Longrightarrow> vsafe H any (vbind (lift r) (\<lambda>val. push_done (VmValueFromIntValue val)))"
  by (intro vsafe_bind [OF vsafe_lift_int] vsafe_push_int)

lemma safe_int_ops [vsafe_intros]:
  "opcode \<in> {OP_AND, OP_OR, OP_XOR} \<Longrightarrow> vsafe H any (op_AND opcode)"
  "opcode \<in> {OP_INC, OP_DEC, OP_SIGN, OP_NEGATE, OP_ABS} \<Longrightarrow> vsafe H any (op_INC env opcode)"
  "opcode \<in> {OP_ADD, OP_SUB, OP_MUL, OP_DIV, OP_MOD, OP_MAX, OP_MIN} \<Longrightarrow> vsafe H any (op_ADD env opcode)"
  "opcode \<in> {OP_SHL, OP_SHR} \<Longrightarrow> vsafe H any (op_SHL opcode)"
  "vsafe H any op_INVERT"
proof -
  show "vsafe H any op_INVERT"
    unfolding op_INVERT_def Let_def
    by (intro vsafe_then vsafe_push_int) simp
  show "opcode \<in> {OP_INC, OP_DEC, OP_SIGN, OP_NEGATE, OP_ABS} \<Longrightarrow> vsafe H any (op_INC env opcode)"
    unfolding op_INC_def by (intro vsafe_then vsafe_int_result) auto
  show "opcode \<in> {OP_SHL, OP_SHR} \<Longrightarrow> vsafe H any (op_SHL opcode)"
    unfolding op_SHL_def by (intro vsafe_then vsafe_int_result) auto
qed (unfold op_AND_def op_ADD_def, (rule vsafe_then, clarify, rule vsafe_int_result, auto)+)

text \<open>A total computation that is lifted.\<close>

lemma vsafe_lift_any: "(\<exists>x. r = Ok x) \<or> (\<exists>e. r = Err e) \<Longrightarrow> vsafe H any (lift r)"
  by (rule vsafe_lift) auto

lemma vsafe_push_bool [vsafe_intros]: "vsafe H any (vbind (eval (vs_PushBool b)) (\<lambda>_. vret NONE))"
  by (intro vsafe_then vsafe_done)

lemma safe_logic_ops [vsafe_intros]:
  "opcode \<in> {OP_NUMNOTEQUAL, OP_NUMEQUAL} \<Longrightarrow> vsafe H any (op_NUMEQUAL opcode)"
  "opcode \<in> {OP_LT, OP_GT, OP_LTE, OP_GTE} \<Longrightarrow> vsafe H any (op_LT opcode)"
  "opcode \<in> {OP_BOOLAND, OP_BOOLOR} \<Longrightarrow> vsafe H any (op_BOOLAND opcode)"
  unfolding op_NUMEQUAL_def op_LT_def op_BOOLAND_def Let_def
  by (rule vsafe_then, clarify, (intro vsafe_then)?, rule vsafe_bind [OF vsafe_lift_any], force, rule vsafe_push_bool)+

lemma safe_bool_ops [vsafe_intros]:
  "vsafe H any op_NZ" "vsafe H any op_NOT" "vsafe H any op_WITHIN" "vsafe H any (op_HASH env opcode)" "vsafe H any (op_VERIFY env)"
  unfolding op_NZ_def op_NOT_def op_WITHIN_def op_HASH_def op_VERIFY_def Let_def
  by (intro vsafe_then vsafe_intros vsafe_bind [OF vsafe_lift_any] | clarify | simp split: sum.split)+

lemma vsafe_Equals [vsafe_intros]:
  "wf_val H v \<Longrightarrow> wf_val H w \<Longrightarrow> vsafe H any (heap_read (\<lambda>h. Equals env h v w))"
  using Equals_returns [where env = env] by (intro vsafe_heap_read) (blast intro: wf_val_extends)

lemma safe_EQUAL [vsafe_intros]: "vsafe H any (op_EQUAL env)"
  unfolding op_EQUAL_def
  by (rule vsafe_then, clarify, rule vsafe_bind [OF vsafe_Equals], assumption+, rule vsafe_push_bool)

text \<open>Reading and allocating objects.\<close>

lemma vsafe_array_at [vsafe_intros]:
  "wf_val H (VArray a) \<Longrightarrow> vsafe H (\<lambda>h s. wf_obj h (ArrayValue s)) (heap_read (\<lambda>h. array_at h a))"
  "wf_val H (VStruct a) \<Longrightarrow> vsafe H (\<lambda>h s. wf_obj h (StructValue s)) (heap_read (\<lambda>h. struct_at h a))"
  by (rule vsafe_heap_read; drule (1) wf_val_extends; drule (1) wf_at; blast)+

lemma vsafe_arr_Len [vsafe_intros]: "wf_val H (VArray a) \<Longrightarrow> vsafe H any (heap_read (arr_Len a))"
  by (rule vsafe_heap_read; drule (1) wf_val_extends; drule (1) wf_at) (auto simp: arr_Len_def)

lemma vsafe_map_Get [vsafe_intros]:
  "wf_val H (VMap a) \<Longrightarrow> vsafe H (\<lambda>h r. \<forall>v. r = Some v \<longrightarrow> wf_val h v) (heap_read (map_Get a k))"
proof (rule vsafe_heap_read)
  fix h
  assume "wf_val H (VMap a)" "wf_heap h" "extends H h"
  then obtain d where d: "map_at h a = Ok d" "wf_obj h (MapValue d)"
    by (meson wf_at(3) wf_val_extends)
  have "wf_val h v" if "map_of d key = Some (x, v)" for key x v
    using map_of_SomeD [OF that] d(2) by (auto simp: list_all_iff)
  then show "(\<exists>e. map_Get a k h = Err e) \<or> (\<exists>x. map_Get a k h = Ok x \<and> (\<forall>v. x = Some v \<longrightarrow> wf_val h v))"
    using d(1) AsBytes_cases [of k] by (auto simp: map_Get_def GetMapKey_def)
qed

lemma vsafe_map_lists [vsafe_intros]:
  "wf_val H (VMap a) \<Longrightarrow> vsafe H (\<lambda>h vs. list_all (wf_val h) vs) (heap_read (GetMapSortedKey a))"
  "wf_val H (VMap a) \<Longrightarrow> vsafe H (\<lambda>h vs. list_all (wf_val h) vs) (heap_read (GetValues a))"
proof -
  assume a: "wf_val H (VMap a)"
  have *: "\<exists>d. map_at h a = Ok d \<and> (\<forall>k \<in> set (getMapSortedKey d). wf_val h (fst (the (map_of d k))) \<and> wf_val h (snd (the (map_of d k))))"
    if h: "wf_heap h" "extends H h" for h
  proof -
    obtain d where d: "map_at h a = Ok d" "wf_obj h (MapValue d)"
      using wf_at(3) [OF h(1) wf_val_extends [OF a h(2)]] by blast
    have "wf_val h (fst (the (map_of d k))) \<and> wf_val h (snd (the (map_of d k)))" if k: "k \<in> set (getMapSortedKey d)" for k
    proof -
      obtain p where p: "map_of d k = Some p"
        using k by (cases "map_of d k") (auto simp: getMapSortedKey_def map_of_eq_None_iff)
      then show ?thesis
        using map_of_SomeD [OF p] d(2) by (force simp: list_all_iff)
    qed
    then show ?thesis
      using d(1) by blast
  qed
  show "vsafe H (\<lambda>h vs. list_all (wf_val h) vs) (heap_read (GetMapSortedKey a))"
    "vsafe H (\<lambda>h vs. list_all (wf_val h) vs) (heap_read (GetValues a))"
    by (rule vsafe_heap_read, drule (1) *, force simp: GetMapSortedKey_def GetValues_def list_all_iff)+
qed

lemma vsafe_alloc [vsafe_intros]:
  "vsafe H (\<lambda>h a. wf_val h (VArray a)) (heap_new (\<lambda>h. Ok (NewArrayValue h)))"
  "vsafe H (\<lambda>h a. wf_val h (VStruct a)) (heap_new (\<lambda>h. Ok (NewStructValue h)))"
  "vsafe H wf_val (heap_new (\<lambda>h. Ok (NewMapVmValue h)))"
  by (rule vsafe_heap_new; simp add: NewArrayValue_def NewStructValue_def NewMapVmValue_def NewMapValue_def wf_heap_snoc)+

declare wf_val.simps(3-5) [simp del]

text \<open>What is well-formed stays so when the heap grows.\<close>

lemmas still_wf = wf_val_extends wf_vals_extends extends_trans

lemma vsafe_clone_value [vsafe_intros]: "wf_val H v \<Longrightarrow> vsafe H wf_val (clone_value v)"
proof (cases v)
  case (VStruct s)
  assume "wf_val H v"
  then have "vsafe H (\<lambda>h a. wf_val h (VStruct a)) (heap_new (struct_Clone s))"
    unfolding VStruct by (intro vsafe_heap_new) (rule struct_Clone_safe, assumption, erule (1) wf_val_extends)
  then show ?thesis
    unfolding VStruct clone_value_def AsStructValue.simps res.case
    by (rule vsafe_bind) (rule vsafe_ret, unfold VmValueFromStructVal_def, erule (1) wf_val_extends)
qed (auto simp: clone_value_def intro!: vsafe_ret intro: wf_val_extends)

lemma vsafe_writes [vsafe_intros]:
  "wf_val H (VArray a) \<Longrightarrow> wf_val H v \<Longrightarrow> vsafe H any (heap_write (arr_Append a v))"
  "wf_val H (VStruct a) \<Longrightarrow> wf_val H v \<Longrightarrow> vsafe H any (heap_write (struct_Append a v))"
  "wf_val H (VArray a) \<Longrightarrow> vsafe H any (heap_write (arr_RemoveAt a i))"
  "wf_val H (VMap a) \<Longrightarrow> wf_val H k \<Longrightarrow> wf_val H v \<Longrightarrow> vsafe H any (heap_write (map_Set a k v))"
  "wf_val H (VMap a) \<Longrightarrow> vsafe H any (heap_write (map_Remove a k))"
  by (rule vsafe_heap_write; intro arr_Append_safe struct_Append_safe arr_RemoveAt_safe map_Set_safe map_Remove_safe;
      (assumption | erule (1) wf_val_extends))+

lemmas vsafe_then' = vsafe_array_at [THEN vsafe_bind] vsafe_arr_Len [THEN vsafe_bind] vsafe_map_Get [THEN vsafe_bind]
  vsafe_map_lists [THEN vsafe_bind] vsafe_alloc [THEN vsafe_bind] vsafe_clone_value [THEN vsafe_bind] vsafe_writes [THEN vsafe_bind]

lemma safe_array_ops [vsafe_intros]: "vsafe H any op_ARRAYSIZE" "vsafe H any op_UNPACK" "vsafe H any op_NEWMAP" "vsafe H any op_HASKEY"
proof -
  have size: "vsafe H any (case AsArrayValue val of Ok array \<Rightarrow> heap_read (arr_Len array)
      | _ \<Rightarrow> (case AsBytes val of Ok buf \<Rightarrow> vret (int (length buf)) | _ \<Rightarrow> vfail ERR_BAD_TYPE))" if "wf_val H val" for H val
    using that by (cases val) (auto intro: vsafe_intros)
  show "vsafe H any op_ARRAYSIZE"
    unfolding op_ARRAYSIZE_def by (intro vsafe_then vsafe_done vsafe_bind [OF size])
  have all: "list_all (wf_val H) vs \<Longrightarrow> vsafe H any (push_all vs)" for H vs
    by (induction vs arbitrary: H)
      (auto intro!: vsafe_then vsafe_ret intro: wf_vals_extends)
  show "vsafe H any op_UNPACK"
    unfolding op_UNPACK_def
    by (intro vsafe_then vsafe_then' vsafe_done vsafe_bind [OF all] | simp)+
  show "vsafe H any op_NEWMAP"
    unfolding op_NEWMAP_def by (intro vsafe_then' vsafe_push_done)
  show "vsafe H any op_HASKEY"
    unfolding op_HASKEY_def by (intro vsafe_then, clarify) (intro vsafe_then vsafe_then' vsafe_push_done, assumption+, simp)
qed

lemma vsafe_append_all [vsafe_intros]:
  assumes "wf_val H (VArray a)" "list_all (wf_val H) vs"
  shows "vsafe H any (heap_write (arr_append_all a vs))"
proof (rule vsafe_heap_write)
  fix h
  assume "wf_heap h" "extends H h"
  then show "heap_safe h (arr_append_all a vs h)"
    using assms
  proof (induction vs arbitrary: h)
    case (Cons v vs)
    have 1: "heap_safe h (arr_Append a v h)"
      using Cons.prems by (intro arr_Append_safe) (auto intro: wf_val_extends)
    show ?case
    proof (cases "arr_Append a v h")
      case (Ok h')
      then have "heap_safe h' (arr_append_all a vs h')"
        using Cons 1 by (auto simp: heap_safe_def intro: extends_trans)
      then show ?thesis
        using Ok 1 by (auto simp: heap_safe_def split: res.splits intro: extends_trans)
    qed (use 1 in \<open>auto simp: heap_safe_def\<close>)
  qed (simp add: heap_safe_def)
qed

lemma safe_map_ops [vsafe_intros]: "vsafe H any op_KEYS" "vsafe H any op_VALUES"
  unfolding op_KEYS_def op_VALUES_def VmValueFromArrayVal_def
  by (intro vsafe_then vsafe_then' vsafe_bind [OF vsafe_append_all] vsafe_push_done; (assumption | meson still_wf))+

lemma vsafe_pack_loop: "wf_val H (VArray a) \<Longrightarrow> vsafe H any (pack_loop n a)"
proof (induction n arbitrary: H)
  case (Suc n)
  then show ?case
    unfolding pack_loop.simps by (intro vsafe_then vsafe_then' Suc.IH) (assumption | meson still_wf)+
qed (auto intro: vsafe_ret)

lemma vsafe_append_falses:
  assumes "\<And>H'. extends H H' \<Longrightarrow> vsafe H' any (heap_write (app (VmValueFromBool False)))"
  shows "vsafe H any (append_falses app n)"
  using assms
proof (induction n arbitrary: H)
  case (Suc n)
  have "vsafe H any (heap_write (app (VmValueFromBool False)))"
    by (rule Suc.prems) simp
  then show ?case
    unfolding append_falses.simps
    by (rule vsafe_bind) (rule Suc.IH, rule Suc.prems, erule (1) extends_trans)
qed (auto intro: vsafe_ret)

lemma safe_new_ops [vsafe_intros]: "vsafe H any op_PACK" "vsafe H any op_NEWARRAY" "vsafe H any op_NEWSTRUCT"
proof -
  show "vsafe H any op_PACK"
    unfolding op_PACK_def VmValueFromArrayVal_def
    by (intro vsafe_then vsafe_then' vsafe_if vsafe_fail vsafe_bind [OF vsafe_pack_loop] vsafe_push_done) (assumption | meson still_wf)+
  show "vsafe H any op_NEWARRAY"
    unfolding op_NEWARRAY_def VmValueFromArrayVal_def
    by (intro vsafe_then vsafe_then' vsafe_if vsafe_fail vsafe_bind [OF vsafe_append_falses] vsafe_push_done vsafe_writes wf_made)
      (assumption | meson still_wf)+
  show "vsafe H any op_NEWSTRUCT"
    unfolding op_NEWSTRUCT_def VmValueFromStructVal_def
    by (intro vsafe_then vsafe_then' vsafe_if vsafe_fail vsafe_bind [OF vsafe_append_falses] vsafe_push_done vsafe_writes wf_made)
      (assumption | meson still_wf)+
qed

text \<open>Reading and replacing elements.\<close>

lemma list_all_list_update: "list_all P xs \<Longrightarrow> P v \<Longrightarrow> list_all P (xs[i := v])"
  using set_update_subset_insert [of xs i v] by (auto simp: list_all_iff)

lemma vsafe_pick:
  "wf_val H (VArray a) \<Longrightarrow> vsafe H wf_val
     (vbind (lift (AsInt64 index)) (\<lambda>ind. vbind (heap_read (\<lambda>h. array_at h a)) (\<lambda>data.
        if sint ind < 0 \<or> sint ind \<ge> int (length (elems data)) then vfail e else lift (at_res (elems data) (sint ind)))))"
  "wf_val H (VStruct a) \<Longrightarrow> vsafe H wf_val
     (vbind (lift (AsInt64 index)) (\<lambda>ind. vbind (heap_read (\<lambda>h. struct_at h a)) (\<lambda>data.
        if sint ind < 0 \<or> sint ind \<ge> int (length (elems data)) then vfail e else lift (at_res (elems data) (sint ind)))))"
  by (intro vsafe_then vsafe_then' vsafe_if vsafe_fail vsafe_at(2), erule (1) wf_val_extends, auto)+

lemma safe_PICKITEM [vsafe_intros]: "vsafe H any op_PICKITEM"
proof -
  have "vsafe H wf_val
     (vbind (heap_read (map_Get a index)) (\<lambda>value. case value of None \<Rightarrow> vfail ERR_MAP_NOT_EXIST | Some v \<Rightarrow> vret v))"
    if "wf_val H (VMap a)" for H a index
    by (rule vsafe_bind [OF vsafe_map_Get [OF that]]) (auto split: option.split intro!: vsafe_fail vsafe_ret intro: wf_val_extends)
  moreover have "vsafe H wf_val
     (vbind (lift (AsInt64 index)) (\<lambda>ind. if sint ind < 0 \<or> sint ind \<ge> int (length buf) then vfail ERR_INDEX_OUT_OF_BOUND
        else vbind (lift (at_res buf (sint ind))) (\<lambda>b. vret (VmValueFromInt64 (ucast b)))))" for H index and buf :: bytes
    by (intro vsafe_then vsafe_if vsafe_fail vsafe_bind [OF vsafe_at(1)] vsafe_ret wf_made) auto
  ultimately show ?thesis
    unfolding op_PICKITEM_def
    apply (intro vsafe_then, clarify, intro vsafe_bind [where P = wf_val] vsafe_push_done)
    subgoal for H' item index
      by (cases item) (simp_all add: vsafe_pick vsafe_fail,
          (intro conjI impI vsafe_then vsafe_if vsafe_fail vsafe_bind [OF vsafe_at(1)] vsafe_ret wf_made; simp))
    by assumption
qed

lemma vsafe_store:
  "wf_val H (VArray a) \<Longrightarrow> wf_obj H (ArrayValue s) \<Longrightarrow> vsafe H any (heap_write (\<lambda>h. Ok (h[a := ArrayValue s])))"
  "wf_val H (VStruct a) \<Longrightarrow> wf_obj H (StructValue s) \<Longrightarrow> vsafe H any (heap_write (\<lambda>h. Ok (h[a := StructValue s])))"
  by (rule vsafe_heap_write, rule heap_safe_update, assumption, metis wf_at same_kind.simps wf_val_extends, erule (1) wf_obj_extends)+

lemma wf_obj_update:
  "wf_obj h (ArrayValue s) \<Longrightarrow> wf_val h v \<Longrightarrow> wf_obj h (ArrayValue (Slice ((elems s)[i := v])))"
  "wf_obj h (StructValue s) \<Longrightarrow> wf_val h v \<Longrightarrow> wf_obj h (StructValue (Slice ((elems s)[i := v])))"
  by (simp_all add: list_all_list_update)

lemma vsafe_store_at:
  "wf_val H (VArray a) \<Longrightarrow> wf_obj H (ArrayValue s) \<Longrightarrow> wf_val H v \<Longrightarrow> 0 \<le> i \<Longrightarrow> i < int (length (elems s))
   \<Longrightarrow> vsafe H any (heap_write (\<lambda>h. bind_res (upd_res (elems s) i v) (\<lambda>d. Ok (h[a := ArrayValue (Slice d)]))))"
  "wf_val H (VStruct a) \<Longrightarrow> wf_obj H (StructValue s) \<Longrightarrow> wf_val H v \<Longrightarrow> 0 \<le> i \<Longrightarrow> i < int (length (elems s))
   \<Longrightarrow> vsafe H any (heap_write (\<lambda>h. bind_res (upd_res (elems s) i v) (\<lambda>d. Ok (h[a := StructValue (Slice d)]))))"
  by (simp_all add: vsafe_store wf_obj_update del: wf_obj.simps)

lemma vsafe_set:
  "wf_val H (VArray a) \<Longrightarrow> wf_val H v \<Longrightarrow> vsafe H any
     (vbind (lift (AsInt64 index)) (\<lambda>ind. vbind (heap_read (\<lambda>h. array_at h a)) (\<lambda>data.
        if sint ind < 0 \<or> sint ind \<ge> int (length (elems data)) then vfail e
        else heap_write (\<lambda>h. bind_res (upd_res (elems data) (sint ind) v) (\<lambda>d. Ok (h[a := ArrayValue (Slice d)]))))))"
  "wf_val H (VStruct a) \<Longrightarrow> wf_val H v \<Longrightarrow> vsafe H any
     (vbind (lift (AsInt64 index)) (\<lambda>ind. vbind (heap_read (\<lambda>h. struct_at h a)) (\<lambda>data.
        if sint ind < 0 \<or> sint ind \<ge> int (length (elems data)) then vfail e
        else heap_write (\<lambda>h. bind_res (upd_res (elems data) (sint ind) v) (\<lambda>d. Ok (h[a := StructValue (Slice d)]))))))"
  by (intro vsafe_then vsafe_then' vsafe_if vsafe_fail vsafe_store_at; (assumption | linarith | meson still_wf))+

lemma safe_SETITEM [vsafe_intros]: "vsafe H any op_SETITEM"
  unfolding op_SETITEM_def
  apply (intro vsafe_then, clarify, intro vsafe_then' vsafe_bind [where P = any] vsafe_done, assumption)
  subgoal for H1 item index val0 H2 val
    using wf_val_extends [of H1 item H2] wf_val_extends [of H1 index H2]
    by (cases item) (simp_all add: vsafe_set vsafe_writes vsafe_fail)
  done

lemma vsafe_pop_or_zero: "vsafe H wf_val pop_or_zero"
proof (rule vsafeI)
  fix ex
  assume ex: "exec_ok ex" "ex_Context ex \<noteq> None" "extends H (ex_heap ex)"
  from vsafeD [OF vsafe_pops(1) this] show "(\<exists>e. pop_or_zero ex = Err e) \<or> (\<exists>x ex'. pop_or_zero ex = Ok (x, ex') \<and> exec_ok ex'
      \<and> ex_Context ex' \<noteq> None \<and> extends (ex_heap ex) (ex_heap ex') \<and> wf_val (ex_heap ex') x)"
    using ex by (auto simp: pop_or_zero_def eval_def bind_res_def split: res.splits)
qed

lemma safe_APPEND [vsafe_intros]: "vsafe H any op_APPEND"
  unfolding op_APPEND_def
  apply (intro vsafe_then vsafe_then' vsafe_bind [OF vsafe_pop_or_zero], assumption)
  subgoal for H1 item0 H2 item H3 val
    using wf_val_extends [of H2 item H3]
    by (cases val) (simp_all add: vsafe_fail, (rule vsafe_bind, erule (1) vsafe_writes, rule vsafe_done)+)
  done

lemma reverse_loop_middle:
  "reverse_loop (int (length pre)) (int (length pre) + int (length mid) - 1) (pre @ mid @ post) = Ok (pre @ rev mid @ post)"
proof (induction "length mid" arbitrary: pre mid post rule: less_induct)
  case less
  show ?case
  proof (cases "length mid \<le> 1")
    case True
    then have "rev mid = mid"
      by (cases mid) auto
    then show ?thesis
      using True by (subst reverse_loop.simps) simp
  next
    case False
    then obtain x m y where mid: "mid = x # m @ [y]"
      by (cases mid; cases "tl mid" rule: rev_cases) auto
    define a where "a = length pre"
    define data where "data = pre @ mid @ post"
    have "nat (int a + int (length mid) - 1) = a + Suc (length m)" "data ! a = x" "data ! (a + Suc (length m)) = y"
      "a + Suc (length m) < length data"
      by (simp_all add: mid data_def a_def nth_append)
    moreover have "data[a := y, a + Suc (length m) := x] = (pre @ [y]) @ m @ ([x] @ post)"
      by (simp add: mid data_def a_def list_update_append)
    ultimately have "reverse_loop (int a) (int a + int (length mid) - 1) data
        = reverse_loop (int a + 1) (int a + int (length m)) ((pre @ [y]) @ m @ ([x] @ post))"
      by (subst reverse_loop.simps) (simp add: mid)
    with less [of m "pre @ [y]" "[x] @ post"] show ?thesis
      by (simp add: mid data_def a_def algebra_simps)
  qed
qed

lemma reverse_loop_rev: "reverse_loop 0 (int (length data) - 1) data = Ok (rev data)"
  using reverse_loop_middle [of "[]" data "[]"] by simp

lemma safe_REVERSE [vsafe_intros]: "vsafe H any op_REVERSE"
proof -
  have "wf_obj h (ArrayValue s) \<Longrightarrow> \<exists>d. slice_map (\<lambda>xs. Ok (rev xs)) s = Ok d \<and> wf_obj h (ArrayValue d)"
    "wf_obj h (StructValue s) \<Longrightarrow> \<exists>d. slice_map (\<lambda>xs. Ok (rev xs)) s = Ok d \<and> wf_obj h (StructValue d)" for h s
    by (cases s; simp)+
  then have "wf_val H (VArray a) \<Longrightarrow>
       vsafe H any (heap_write (\<lambda>h. bind_res (array_at h a) (\<lambda>data.
         bind_res (slice_map (\<lambda>xs. Ok (rev xs)) data) (\<lambda>d. Ok (h[a := ArrayValue d])))))"
    "wf_val H (VStruct a) \<Longrightarrow>
       vsafe H any (heap_write (\<lambda>h. bind_res (struct_at h a) (\<lambda>data.
         bind_res (slice_map (\<lambda>xs. Ok (rev xs)) data) (\<lambda>d. Ok (h[a := StructValue d])))))" for H a
    by - (rule vsafe_heap_write, drule (1) wf_val_extends, frule (1) wf_at, fastforce intro!: heap_safe_update simp del: wf_obj.simps)+
  then show ?thesis
    unfolding op_REVERSE_def reverse_loop_rev
    apply (intro vsafe_then vsafe_bind [where P = any] vsafe_done)
    subgoal for H' item
      by (cases item) (simp_all add: vsafe_fail)
    done
qed

lemma safe_REMOVE [vsafe_intros]: "vsafe H any op_REMOVE"
  unfolding op_REMOVE_def
  apply (intro vsafe_then, clarify)
  subgoal for H' item index
    by (cases item) (auto intro!: vsafe_then vsafe_then' vsafe_done vsafe_fail elim: wf_val_extends)
  done

lemma safe_throw_ops [vsafe_intros]: "vsafe H any op_THROW" "vsafe H any op_THROWIFNOT"
  unfolding op_THROW_def op_THROWIFNOT_def by (intro vsafe_then vsafe_if vsafe_ret TrueI)+

section \<open>The interpreter\<close>

lemma safe_switch: "opcode \<noteq> OP_RET \<Longrightarrow> vsafe H any (execute_switch env opcode)"
  unfolding execute_switch_def by (intro vsafe_if vsafe_intros; (assumption | erule notE, assumption))

lemma safe_ExecuteOp: "opcode \<noteq> OP_RET \<Longrightarrow> vsafe H any (ExecuteOp env opcode)"
  unfolding ExecuteOp_def by (intro vsafe_then vsafe_if safe_push_ops safe_switch)

end
