(* ===== verification/NeoRun.thy ===== *)
theory NeoRun
  imports NeoSafety
begin

text \<open>
  Runs of the NeoVM interpreter, \<open>Execute\<close> of \<open>src/vm/neovm/executor.go\<close>: the machines that are reached from a new
  executor, with what holds of all of them, and the effect of the opcodes that rearrange the stack.
\<close>

section \<open>Reachable machines\<close>

inductive vm_reachable :: "('k, 's) neo_env \<Rightarrow> bytes \<Rightarrow> VmFeatureFlag \<Rightarrow> Executor \<Rightarrow> bool"
  for env :: "('k, 's) neo_env" and code :: bytes and feature :: VmFeatureFlag where
  start: "vm_reachable env code feature ((NewExecutor code feature)\<lparr>ex_State := BREAK AND NOT BREAK\<rparr>)"
| step: "vm_reachable env code feature ex \<Longrightarrow> execute_step env ex = Ok (Inl ex') \<Longrightarrow> vm_reachable env code feature ex'"

inductive_cases vm_reachable_cases: "vm_reachable env code feature ex"

lemma exec_ok_updates [simp]:
  "exec_ok (ex\<lparr>ex_State := s\<rparr>) = exec_ok ex" "exec_ok (ex\<lparr>ex_Context := c\<rparr>) = exec_ok ex"
  by (simp_all add: exec_ok_def)

lemma exec_ok_NewExecutor [simp]: "exec_ok (NewExecutor code feature)"
  by (simp add: exec_ok_def NewExecutor_def wf_heap_def wf_stack_def NewValueStack_def STACK_LIMIT_def)

lemma RET_returns: "exec_ok ex \<Longrightarrow> \<exists>ex'. op_RET ex = Ok (NONE, ex') \<and> exec_ok ex'"
  by (auto simp: op_RET_def exec_PopContext_def exec_ok_def Let_def)

lemma execute_RET: "ExecuteOp env OP_RET = op_RET"
  by (rule ext) (simp add: ExecuteOp_def checkFeaturesEnabled_def vbind_def execute_switch_def opcode_defs)

text \<open>Every opcode, run on a well-formed machine.\<close>

lemma ExecuteOp_returns:
  assumes "exec_ok ex" "ex_Context ex \<noteq> None"
  shows "(\<exists>e. ExecuteOp env opcode ex = Err e) \<or> (\<exists>s ex'. ExecuteOp env opcode ex = Ok (s, ex') \<and> exec_ok ex')"
proof (cases "opcode = OP_RET")
  case True
  then show ?thesis
    using RET_returns [OF assms(1)] by (auto simp: execute_RET)
next
  case False
  then show ?thesis
    using vsafeD [OF safe_ExecuteOp assms extends_refl] by blast
qed

lemma execute_step_returns:
  assumes "exec_ok ex"
  shows "(\<exists>e. execute_step env ex = Err e) \<or> execute_step env ex = Ok (Inr ex)
    \<or> (\<exists>ex'. execute_step env ex = Ok (Inl ex') \<and> exec_ok ex')"
proof (cases "ex_Context ex")
  case (Some c)
  obtain opcode eof c' where "ReadOpCode c = ((opcode, eof), c')"
    by (metis surj_pair)
  then show ?thesis
    using assms ExecuteOp_returns [of "ex\<lparr>ex_Context := Some c'\<rparr>" env opcode] by (auto simp: execute_step_def Some)
qed (simp add: execute_step_def)

lemma vm_reachable_ok: "vm_reachable env code feature ex \<Longrightarrow> exec_ok ex"
proof (induction rule: vm_reachable.induct)
  case (step ex ex')
  then show ?case
    using execute_step_returns [OF step.IH, where env = env] by auto
qed simp

text \<open>The rule for a loop of which only safety is known.\<close>

lemma loop_safe:
  assumes "\<And>s. I s \<Longrightarrow> (\<exists>e. f s = Err e) \<or> (\<exists>r. f s = Ok (Inr r) \<and> Q r) \<or> (\<exists>s'. f s = Ok (Inl s') \<and> I s')"
    and "I s"
  shows "(\<exists>e. loop f s = Err e) \<or> (\<exists>r. loop f s = Ok r \<and> Q r) \<or> loop f s = Diverge"
proof -
  have "(\<exists>e. r = Err e) \<or> (\<exists>x. r = Ok x \<and> Q x)" if r: "loop_opt f s = Some r" for r
  proof -
    have "f = f \<longrightarrow> I s \<longrightarrow> (\<exists>e. r = Err e) \<or> (\<exists>x. r = Ok x \<and> Q x)"
    proof (rule loop_opt.raw_induct [OF _ r, where P = "\<lambda>g s r. g = f \<longrightarrow> I s \<longrightarrow> (\<exists>e. r = Err e) \<or> (\<exists>x. r = Ok x \<and> Q x)"], intro impI)
      fix lp g t y
      assume IH: "\<And>g t y. lp g t = Some y \<Longrightarrow> g = f \<longrightarrow> I t \<longrightarrow> (\<exists>e. y = Err e) \<or> (\<exists>x. y = Ok x \<and> Q x)"
        and y: "(case g t of Ok x \<Rightarrow> (case x of Inl t' \<Rightarrow> lp g t' | Inr r \<Rightarrow> Some (Ok r))
            | Err e \<Rightarrow> Some (Err e) | Panic \<Rightarrow> Some Panic | Diverge \<Rightarrow> Some Diverge) = Some y"
        and "g = f" "I t"
      from assms(1) [OF \<open>I t\<close>] show "(\<exists>e. y = Err e) \<or> (\<exists>x. y = Ok x \<and> Q x)"
        using y IH [of f _ y] unfolding \<open>g = f\<close> by (elim disjE exE conjE) auto
    qed
    then show ?thesis
      using assms(2) by blast
  qed
  then show ?thesis
    by (cases "loop_opt f s") (auto simp: loop_def)
qed

text \<open>
  C4. Safety of the NeoVM. Whatever the bytecode, in every machine that the loop of \<open>Execute\<close> reaches from a new
  executor the two stacks hold at most 2048 values and the call stack at most 1024 contexts, every array and struct has
  at most 1024 elements, every byte array at most 1 MiB and every integer at most 256 bits, and every array, struct or
  map a value refers to exists and is of that kind. The next round returns an error, leaves the loop or gives another
  such machine; in particular no opcode panics, and none runs forever (the comparison and copying of cyclic values
  included). So \<open>Execute\<close> ends with an error or a well-formed machine, unless the bytecode itself loops.
\<close>

theorem vm_execution_safe:
  fixes env :: "('k, 's) neo_env"
  assumes "vm_reachable env code feature ex"
  shows "exec_ok ex \<and>
    ((\<exists>e. execute_step env ex = Err e) \<or> execute_step env ex = Ok (Inr ex) \<or> (\<exists>ex'. execute_step env ex = Ok (Inl ex') \<and> exec_ok ex')) \<and>
    ((\<exists>e. Execute env (NewExecutor code feature) = Err e) \<or> (\<exists>r. Execute env (NewExecutor code feature) = Ok r \<and> exec_ok r)
      \<or> Execute env (NewExecutor code feature) = Diverge)"
proof (intro conjI)
  show ok: "exec_ok ex"
    by (rule vm_reachable_ok [OF assms])
  show "(\<exists>e. execute_step env ex = Err e) \<or> execute_step env ex = Ok (Inr ex) \<or> (\<exists>ex'. execute_step env ex = Ok (Inl ex') \<and> exec_ok ex')"
    by (rule execute_step_returns [OF ok])
  show "(\<exists>e. Execute env (NewExecutor code feature) = Err e) \<or> (\<exists>r. Execute env (NewExecutor code feature) = Ok r \<and> exec_ok r)
      \<or> Execute env (NewExecutor code feature) = Diverge"
    unfolding Execute_def
  proof (rule loop_safe [where I = exec_ok])
    show "(\<exists>e. execute_step env s = Err e) \<or> (\<exists>r. execute_step env s = Ok (Inr r) \<and> exec_ok r)
        \<or> (\<exists>s'. execute_step env s = Ok (Inl s') \<and> exec_ok s')" if "exec_ok s" for s
      using execute_step_returns [OF that, where env = env] that by blast
  qed simp
qed

text \<open>An environment for examples, without keys and interop values.\<close>

definition plain_env :: "(unit, unit) neo_env" where
  "plain_env = \<lparr>neo_overflow = overflow_impl, neo_ripemd160 = (\<lambda>_. []), DeserializePublicKey = (\<lambda>_. Inl ERR_BAD_TYPE),
     sig_Deserialize = (\<lambda>_. Inl ERR_BAD_TYPE), sig_Verify = (\<lambda>_ _ _. False), interop_ToArray = (\<lambda>_. []), interop_DeepEqual = (=)\<rparr>"

definition plain_flags :: VmFeatureFlag where
  "plain_flags = \<lparr>DisableHasKey = False, AllowReaderEOF = False\<rparr>"

lemma PUSH2_step:
  "execute_step plain_env ((NewExecutor [0x52] plain_flags)\<lparr>ex_State := BREAK AND NOT BREAK\<rparr>)
   = Ok (Inl ((NewExecutor [0x52] plain_flags)\<lparr>EvalStack := stk [VInt 2] STACK_LIMIT, ex_State := NONE,
       ex_Context := Some \<lparr>ec_Code = [0x52], OpReader = \<lparr>rd_s = [0x52], rd_i = 1, AllowEOF = False\<rparr>,
         InstructionPointer = 0, vmFlags = plain_flags\<rparr>\<rparr>))"
  by code_simp

theorem vm_execution_safe_witness:
  "\<exists>ex. vm_reachable plain_env [0x52] plain_flags ex \<and> exec_ok ex \<and> EvalStack ex = stk [VInt 2] STACK_LIMIT"
proof -
  note r = vm_reachable.step [OF vm_reachable.start PUSH2_step]
  from vm_execution_safe [OF r] show ?thesis
    using r by (intro exI conjI) (assumption, erule conjunct1, simp)
qed

section \<open>Opcodes that rearrange the stack\<close>

text \<open>What they mean, on the stack as a list with its top first; \<open>None\<close> when the stack is too short.\<close>

fun stack_spec :: "u8 \<Rightarrow> VmValue list \<Rightarrow> VmValue list option" where
  "stack_spec opcode xs =
     (if opcode = OP_DROP then (case xs of a # r \<Rightarrow> Some r | _ \<Rightarrow> None)
      else if opcode = OP_DUP then (case xs of a # r \<Rightarrow> Some (a # a # r) | _ \<Rightarrow> None)
      else if opcode = OP_NIP then (case xs of a # b # r \<Rightarrow> Some (a # r) | _ \<Rightarrow> None)
      else if opcode = OP_OVER then (case xs of a # b # r \<Rightarrow> Some (b # a # b # r) | _ \<Rightarrow> None)
      else if opcode = OP_SWAP then (case xs of a # b # r \<Rightarrow> Some (b # a # r) | _ \<Rightarrow> None)
      else if opcode = OP_TUCK then (case xs of a # b # r \<Rightarrow> Some (a # b # a # r) | _ \<Rightarrow> None)
      else if opcode = OP_ROT then (case xs of a # b # c # r \<Rightarrow> Some (c # a # b # r) | _ \<Rightarrow> None)
      else None)"

declare stack_spec.simps [simp del]

lemma stack_spec_ops:
  "stack_spec OP_DROP xs = (case xs of a # r \<Rightarrow> Some r | _ \<Rightarrow> None)"
  "stack_spec OP_DUP xs = (case xs of a # r \<Rightarrow> Some (a # a # r) | _ \<Rightarrow> None)"
  "stack_spec OP_NIP xs = (case xs of a # b # r \<Rightarrow> Some (a # r) | _ \<Rightarrow> None)"
  "stack_spec OP_OVER xs = (case xs of a # b # r \<Rightarrow> Some (b # a # b # r) | _ \<Rightarrow> None)"
  "stack_spec OP_SWAP xs = (case xs of a # b # r \<Rightarrow> Some (b # a # r) | _ \<Rightarrow> None)"
  "stack_spec OP_TUCK xs = (case xs of a # b # r \<Rightarrow> Some (a # b # a # r) | _ \<Rightarrow> None)"
  "stack_spec OP_ROT xs = (case xs of a # b # c # r \<Rightarrow> Some (c # a # b # r) | _ \<Rightarrow> None)"
  by (simp_all add: stack_spec.simps opcode_defs)

text \<open>
  The opcodes that take an index \<open>n\<close> from the top of the stack, on the rest of it; \<open>None\<close> when \<open>n\<close> is negative or the
  rest is too short.
\<close>

definition index_spec :: "u8 \<Rightarrow> int \<Rightarrow> VmValue list \<Rightarrow> VmValue list option" where
  "index_spec opcode n xs =
     (let i = nat n in
      if opcode = OP_XTUCK then
        (if 0 \<le> n \<and> i \<le> length xs \<and> xs \<noteq> [] then Some (take i xs @ xs ! 0 # drop i xs) else None)
      else if 0 \<le> n \<and> i < length xs then
        (if opcode = OP_XDROP then Some (take i xs @ drop (i + 1) xs)
         else if opcode = OP_XSWAP then Some (xs[0 := xs ! i, i := xs ! 0])
         else if opcode = OP_PICK then Some (xs ! i # xs)
         else if opcode = OP_ROLL then Some (xs ! i # take i xs @ drop (i + 1) xs)
         else None)
      else None)"

lemma index_spec_ops:
  "index_spec OP_XTUCK n xs = (if 0 \<le> n \<and> nat n \<le> length xs \<and> xs \<noteq> [] then Some (take (nat n) xs @ xs ! 0 # drop (nat n) xs) else None)"
  "index_spec OP_XDROP n xs = (if 0 \<le> n \<and> nat n < length xs then Some (take (nat n) xs @ drop (nat n + 1) xs) else None)"
  "index_spec OP_XSWAP n xs = (if 0 \<le> n \<and> nat n < length xs then Some (xs[0 := xs ! nat n, nat n := xs ! 0]) else None)"
  "index_spec OP_PICK n xs = (if 0 \<le> n \<and> nat n < length xs then Some (xs ! nat n # xs) else None)"
  "index_spec OP_ROLL n xs = (if 0 \<le> n \<and> nat n < length xs then Some (xs ! nat n # take (nat n) xs @ drop (nat n + 1) xs) else None)"
  by (simp_all add: index_spec_def Let_def opcode_defs)

lemma stk_PopPair_short:
  "vs_PopPair (stk [] n) = Err ERR_INDEX_OUT_OF_BOUND" "vs_PopPair (stk [x] n) = Err ERR_INDEX_OUT_OF_BOUND"
  by (simp_all add: vs_PopPair_def stk_Pop)

lemma dispatch_stack_ops:
  "ExecuteOp env OP_DROP = op_DROP" "ExecuteOp env OP_DUP = op_DUP" "ExecuteOp env OP_NIP = op_NIP"
  "ExecuteOp env OP_OVER = op_OVER" "ExecuteOp env OP_SWAP = op_SWAP" "ExecuteOp env OP_TUCK = op_TUCK"
  "ExecuteOp env OP_ROT = op_ROLL OP_ROT" "ExecuteOp env OP_XDROP = op_XDROP" "ExecuteOp env OP_XSWAP = op_XSWAP"
  "ExecuteOp env OP_XTUCK = op_XTUCK" "ExecuteOp env OP_PICK = op_PICK" "ExecuteOp env OP_ROLL = op_ROLL OP_ROLL"
  "ExecuteOp env OP_DEPTH = op_DEPTH" "ExecuteOp env OP_TOALTSTACK = op_TOALTSTACK"
  "ExecuteOp env OP_FROMALTSTACK = op_FROMALTSTACK" "ExecuteOp env OP_DUPFROMALTSTACK = op_DUPFROMALTSTACK"
  by (rule ext, simp add: ExecuteOp_def checkFeaturesEnabled_def vbind_def execute_switch_def opcode_defs)+

lemmas stack_op_defs = op_DROP_def op_DUP_def op_NIP_def op_OVER_def op_SWAP_def op_TUCK_def op_ROLL_def push_done_def
  op_XDROP_def op_XSWAP_def op_XTUCK_def op_PICK_def op_DEPTH_def op_TOALTSTACK_def op_FROMALTSTACK_def op_DUPFROMALTSTACK_def
  vbind_def vret_def eval_def alt_def

lemma fixed_stack_ops:
  assumes "EvalStack ex = stk xs l" "int (length xs) \<le> l"
    and "opcode \<in> {OP_DROP, OP_DUP, OP_NIP, OP_OVER, OP_SWAP, OP_TUCK, OP_ROT}"
  shows "ExecuteOp env opcode ex =
    (case stack_spec opcode xs of
       None \<Rightarrow> Err ERR_INDEX_OUT_OF_BOUND
     | Some ys \<Rightarrow> if int (length ys) \<le> l then Ok (NONE, ex\<lparr>EvalStack := stk ys l\<rparr>) else Err ERR_OVER_STACK_LEN)"
proof -
  consider "xs = []" | a where "xs = [a]" | a b where "xs = [a, b]" | a b c r where "xs = a # b # c # r"
    by (cases xs; cases "tl xs"; cases "tl (tl xs)") auto
  then show ?thesis
    using assms by cases (auto simp: dispatch_stack_ops stack_op_defs stack_spec_ops stack_simps stk_PopPair_short)
qed

lemma indexed_stack_ops:
  assumes "EvalStack ex = stk xs l" "int (length xs) \<le> l" "opcode \<in> {OP_XDROP, OP_XSWAP, OP_XTUCK, OP_PICK, OP_ROLL}"
  shows "ExecuteOp env opcode ex =
    (case xs of
       [] \<Rightarrow> Err ERR_INDEX_OUT_OF_BOUND
     | v # r \<Rightarrow> bind_res (AsInt64 v) (\<lambda>n. case index_spec opcode (sint n) r of
         None \<Rightarrow> Err ERR_INDEX_OUT_OF_BOUND | Some ys \<Rightarrow> Ok (NONE, ex\<lparr>EvalStack := stk ys l\<rparr>)))"
proof -
  have rot: "OP_ROLL \<noteq> OP_ROT"
    by (simp add: opcode_defs)
  note ops = dispatch_stack_ops stack_op_defs index_spec_ops stack_simps vs_PopAsInt64_def nat_le_iff nat_less_iff
  show ?thesis
  proof (cases xs)
    case Nil
    then show ?thesis
      using assms rot by (auto simp: ops)
  next
    case (Cons v r)
    then show ?thesis
      using assms rot by (cases "AsInt64 v") (auto simp: ops)
  qed
qed

lemma depth_stack_op:
  assumes "EvalStack ex = stk xs l"
  shows "ExecuteOp env OP_DEPTH ex =
    (if int (length xs) < l then Ok (NONE, ex\<lparr>EvalStack := stk (VmValueFromInt64 (of_nat (length xs)) # xs) l\<rparr>)
     else Err ERR_OVER_STACK_LEN)"
  using assms by (simp add: dispatch_stack_ops stack_op_defs stack_simps vs_PushInt64_def)

lemma alt_stack_ops:
  assumes "EvalStack ex = stk xs l" "AltStack ex = stk ys m"
  shows "ExecuteOp env OP_TOALTSTACK ex =
      (case xs of [] \<Rightarrow> Err ERR_INDEX_OUT_OF_BOUND
       | v # r \<Rightarrow> if int (length ys) < m then Ok (NONE, ex\<lparr>EvalStack := stk r l, AltStack := stk (v # ys) m\<rparr>)
                  else Err ERR_OVER_STACK_LEN)"
    and "ExecuteOp env OP_FROMALTSTACK ex =
      (case ys of [] \<Rightarrow> Err ERR_INDEX_OUT_OF_BOUND
       | v # r \<Rightarrow> if int (length xs) < l then Ok (NONE, ex\<lparr>EvalStack := stk (v # xs) l, AltStack := stk r m\<rparr>)
                  else Err ERR_OVER_STACK_LEN)"
    and "ExecuteOp env OP_DUPFROMALTSTACK ex =
      (case ys of [] \<Rightarrow> Err ERR_INDEX_OUT_OF_BOUND
       | v # r \<Rightarrow> if int (length xs) < l then Ok (NONE, ex\<lparr>EvalStack := stk (v # xs) l\<rparr>) else Err ERR_OVER_STACK_LEN)"
  using assms by (auto simp: dispatch_stack_ops stack_op_defs stack_simps split: list.split)

text \<open>
  C9. The sixteen stack opcodes, run by \<open>ExecuteOp\<close> on the slices the two stacks are stored in, do exactly what their
  specification on lists says, and change nothing else of the machine. \<open>DROP\<close>, \<open>DUP\<close>, \<open>NIP\<close>, \<open>OVER\<close>, \<open>SWAP\<close>, \<open>TUCK\<close> and
  \<open>ROT\<close> fail with \<open>ERR_INDEX_OUT_OF_BOUND\<close> when the stack has too few values, and with \<open>ERR_OVER_STACK_LEN\<close> when the
  result would exceed the limit. \<open>XDROP\<close>, \<open>XSWAP\<close>, \<open>XTUCK\<close>, \<open>PICK\<close> and \<open>ROLL\<close> pop an index, failing as its conversion to
  an integer fails, and then drop, swap with the top, insert a copy of the top at, copy or move to the top the value at
  that index, failing with \<open>ERR_INDEX_OUT_OF_BOUND\<close> when there is none. \<open>DEPTH\<close> pushes the number of values.
  \<open>TOALTSTACK\<close>, \<open>FROMALTSTACK\<close> and \<open>DUPFROMALTSTACK\<close> move or copy the top of one stack to the other.
\<close>

theorem stack_opcodes_refine:
  assumes "EvalStack ex = stk xs l" "int (length xs) \<le> l"
  shows "(opcode \<in> {OP_DROP, OP_DUP, OP_NIP, OP_OVER, OP_SWAP, OP_TUCK, OP_ROT} \<longrightarrow>
      ExecuteOp env opcode ex =
        (case stack_spec opcode xs of
           None \<Rightarrow> Err ERR_INDEX_OUT_OF_BOUND
         | Some ys \<Rightarrow> if int (length ys) \<le> l then Ok (NONE, ex\<lparr>EvalStack := stk ys l\<rparr>) else Err ERR_OVER_STACK_LEN))
    \<and> (opcode \<in> {OP_XDROP, OP_XSWAP, OP_XTUCK, OP_PICK, OP_ROLL} \<longrightarrow>
      ExecuteOp env opcode ex =
        (case xs of
           [] \<Rightarrow> Err ERR_INDEX_OUT_OF_BOUND
         | v # r \<Rightarrow> bind_res (AsInt64 v) (\<lambda>n. case index_spec opcode (sint n) r of
             None \<Rightarrow> Err ERR_INDEX_OUT_OF_BOUND | Some ys \<Rightarrow> Ok (NONE, ex\<lparr>EvalStack := stk ys l\<rparr>))))
    \<and> ExecuteOp env OP_DEPTH ex =
        (if int (length xs) < l then Ok (NONE, ex\<lparr>EvalStack := stk (VmValueFromInt64 (of_nat (length xs)) # xs) l\<rparr>)
         else Err ERR_OVER_STACK_LEN)
    \<and> (AltStack ex = stk ys m \<longrightarrow>
        ExecuteOp env OP_TOALTSTACK ex =
          (case xs of [] \<Rightarrow> Err ERR_INDEX_OUT_OF_BOUND
           | v # r \<Rightarrow> if int (length ys) < m then Ok (NONE, ex\<lparr>EvalStack := stk r l, AltStack := stk (v # ys) m\<rparr>)
                      else Err ERR_OVER_STACK_LEN)
      \<and> ExecuteOp env OP_FROMALTSTACK ex =
          (case ys of [] \<Rightarrow> Err ERR_INDEX_OUT_OF_BOUND
           | v # r \<Rightarrow> if int (length xs) < l then Ok (NONE, ex\<lparr>EvalStack := stk (v # xs) l, AltStack := stk r m\<rparr>)
                      else Err ERR_OVER_STACK_LEN)
      \<and> ExecuteOp env OP_DUPFROMALTSTACK ex =
          (case ys of [] \<Rightarrow> Err ERR_INDEX_OUT_OF_BOUND
           | v # r \<Rightarrow> if int (length xs) < l then Ok (NONE, ex\<lparr>EvalStack := stk (v # xs) l\<rparr>) else Err ERR_OVER_STACK_LEN))"
  using fixed_stack_ops [OF assms, of opcode env] indexed_stack_ops [OF assms, of opcode env] depth_stack_op [OF assms(1), of env]
    alt_stack_ops [OF assms(1), of ys m env] by blast

theorem stack_opcodes_refine_witness:
  "ExecuteOp plain_env OP_TUCK ((NewExecutor [] plain_flags)\<lparr>EvalStack := stk [VInt 1, VInt 2] STACK_LIMIT\<rparr>)
     = Ok (NONE, (NewExecutor [] plain_flags)\<lparr>EvalStack := stk [VInt 1, VInt 2, VInt 1] STACK_LIMIT\<rparr>)
   \<and> ExecuteOp plain_env OP_ROLL ((NewExecutor [] plain_flags)\<lparr>EvalStack := stk [VInt 1, VInt 7, VInt 8, VInt 9] STACK_LIMIT\<rparr>)
     = Ok (NONE, (NewExecutor [] plain_flags)\<lparr>EvalStack := stk [VInt 8, VInt 7, VInt 9] STACK_LIMIT\<rparr>)
   \<and> ExecuteOp plain_env OP_TOALTSTACK ((NewExecutor [] plain_flags)\<lparr>EvalStack := stk [VInt 1, VInt 2] STACK_LIMIT\<rparr>)
     = Ok (NONE, (NewExecutor [] plain_flags)\<lparr>EvalStack := stk [VInt 2] STACK_LIMIT, AltStack := stk [VInt 1] STACK_LIMIT\<rparr>)"
proof -
  define ex where "ex = (\<lambda>xs. (NewExecutor [] plain_flags)\<lparr>EvalStack := stk xs STACK_LIMIT\<rparr>)"
  have st: "EvalStack (ex xs) = stk xs STACK_LIMIT" "AltStack (ex xs) = stk [] STACK_LIMIT" for xs
    by (simp_all add: ex_def NewExecutor_def NewValueStack_def stk_def)
  note refine = stack_opcodes_refine [where env = plain_env and ys = "[]" and m = STACK_LIMIT, OF st(1)]
  have small: "int (length [VInt 1, VInt 2]) \<le> STACK_LIMIT" "int (length [VInt 1, VInt 7, VInt 8, VInt 9]) \<le> STACK_LIMIT"
    by (simp_all add: STACK_LIMIT_def)
  have one: "AsInt64 (VInt 1) = Ok 1"
    by code_simp
  show ?thesis
    using refine [where opcode = OP_TUCK, OF small(1), THEN conjunct1, THEN mp]
      refine [where opcode = OP_ROLL, OF small(2), THEN conjunct2, THEN conjunct1, THEN mp]
      refine [OF small(1), THEN conjunct2, THEN conjunct2, THEN conjunct2, THEN mp, OF st(2), THEN conjunct1]
    by (simp add: ex_def one stack_spec_ops index_spec_ops STACK_LIMIT_def)
qed

end
