(* ===== verification/NeoBuilder.thy ===== *)
theory NeoBuilder
  imports NeoRun
begin

text \<open>
  The builder of NeoVM scripts, \<open>src/vm/neovm/params_builder.go\<close>, with which clients encode the arguments of a call. Its
  buffer is a byte string, to which the operations append. A script made of pushes, run on the interpreter, leaves exactly the arguments
  on the stack: each push is a round of the loop of \<open>Execute\<close> that consumes its bytes.
\<close>

type_synonym ParamsBuilder = bytes

definition Emit :: "u8 \<Rightarrow> ParamsBuilder \<Rightarrow> ParamsBuilder" where
  "Emit op p = p @ [op]"

definition EmitPushBool :: "bool \<Rightarrow> ParamsBuilder \<Rightarrow> ParamsBuilder" where
  "EmitPushBool data p = (if data then Emit OP_PUSHT p else Emit OP_PUSHF p)"

definition EmitPushByteArray :: "bytes \<Rightarrow> ParamsBuilder \<Rightarrow> ParamsBuilder" where
  "EmitPushByteArray data p =
     (let l = length data
      in (if l < unat OP_PUSHBYTES75 then p @ [of_nat l]
          else if l < 0x100 then Emit OP_PUSHDATA1 p @ [of_nat l]
          else if l < 0x10000 then Emit OP_PUSHDATA2 p @ put_le 2 (of_nat l :: u16)
          else Emit OP_PUSHDATA4 p @ put_le 4 (of_nat l :: u32)) @ data)"

definition EmitPushInteger :: "int \<Rightarrow> ParamsBuilder \<Rightarrow> ParamsBuilder" where
  "EmitPushInteger data p =
     (if data = -1 then Emit OP_PUSHM1 p
      else if sgn data = 0 then Emit OP_PUSH0 p
      else if data > 0 \<and> data < 16 then Emit (of_int (uint OP_PUSH1 - 1 + data)) p
      else EmitPushByteArray (BigIntToNeoBytes data) p)"

definition EmitPushCall :: "bytes \<Rightarrow> ParamsBuilder \<Rightarrow> ParamsBuilder" where
  "EmitPushCall address p = Emit OP_APPCALL p @ address"

section \<open>Running a script of pushes\<close>

datatype param = PBool bool | PInt int | PBytes bytes

fun emit_param :: "param \<Rightarrow> ParamsBuilder \<Rightarrow> ParamsBuilder" where
  "emit_param (PBool b) p = EmitPushBool b p"
| "emit_param (PInt z) p = EmitPushInteger z p"
| "emit_param (PBytes d) p = EmitPushByteArray d p"

text \<open>The values that a program reads from the stack as the argument.\<close>

fun pushed :: "param \<Rightarrow> VmValue \<Rightarrow> bool" where
  "pushed (PBool b) v \<longleftrightarrow> AsBool v = Ok b"
| "pushed (PInt z) v \<longleftrightarrow> AsIntValue v = Ok (int_value z)"
| "pushed (PBytes d) v \<longleftrightarrow> AsBytes v = Ok d"

fun param_ok :: "param \<Rightarrow> bool" where
  "param_ok (PBool b) \<longleftrightarrow> True"
| "param_ok (PInt z) \<longleftrightarrow> \<bar>z\<bar> < 2 ^ 256"
| "param_ok (PBytes d) \<longleftrightarrow> length d \<le> MAX_BYTEARRAY_SIZE"

definition read_at :: "bytes \<Rightarrow> bytes \<Rightarrow> bool \<Rightarrow> VmReader" where
  "read_at pre r e = \<lparr>rd_s = pre @ r, rd_i = length pre, AllowEOF = e\<rparr>"

text \<open>The machine in the middle of a script.\<close>

definition machine :: "bytes \<Rightarrow> bytes \<Rightarrow> VmFeatureFlag \<Rightarrow> VmValue list \<Rightarrow> Executor" where
  "machine pre r flag xs = (NewExecutor (pre @ r) flag)\<lparr>EvalStack := stk xs STACK_LIMIT, ex_State := NONE,
     ex_Context := Some ((NewExecutionContext (pre @ r) flag)\<lparr>OpReader := read_at pre r (AllowReaderEOF flag)\<rparr>)\<rparr>"

lemma read_at_Read:
  "data \<noteq> [] \<Longrightarrow> reader_Read (replicate (length data) 0) (read_at pre (data @ r) e) = Ok (data, read_at (pre @ data) r e)"
  by (simp add: reader_Read_def read_at_def copy_slice_def)

lemma read_at_ReadBytes:
  "data \<noteq> [] \<Longrightarrow> length data \<le> MAX_BYTEARRAY_SIZE \<Longrightarrow>
   vr_ReadBytes (length data) (read_at pre (data @ r) e) = Ok (data, read_at (pre @ data) r e)"
  using read_at_Read [of data pre r e]
  by (simp add: vr_ReadBytes_def reader_Len_def Let_def MAX_BYTEARRAY_SIZE_def) (simp add: read_at_def)

lemma read_at_ReadByte: "vr_ReadByte (read_at pre (b # r) e) = Ok (b, read_at (pre @ [b]) r e)"
  by (simp add: vr_ReadByte_def read_at_def nth_append)

lemma read_at_ReadUint:
  "vr_ReadUint16 (read_at pre (put_le 2 w @ r) e) = Ok (w, read_at (pre @ put_le 2 w) r e)"
  "vr_ReadUint32 (read_at pre (put_le 4 x @ r) e) = Ok (x, read_at (pre @ put_le 4 x) r e)"
proof -
  have "put_le 2 w \<noteq> []" "put_le 4 x \<noteq> []"
    using length_put_le [of 2 w] length_put_le [of 4 x] by force+
  then show "vr_ReadUint16 (read_at pre (put_le 2 w @ r) e) = Ok (w, read_at (pre @ put_le 2 w) r e)"
    "vr_ReadUint32 (read_at pre (put_le 4 x @ r) e) = Ok (x, read_at (pre @ put_le 4 x) r e)"
    using read_at_Read [of "put_le 2 w" pre r e] read_at_Read [of "put_le 4 x" pre r e]
    by (simp_all add: vr_ReadUint16_def vr_ReadUint32_def vr_ReadBytesInto_def)
qed

text \<open>Reading code in the middle of an opcode.\<close>

lemma reader_machine:
  assumes "f (read_at pre c e) = Ok (x, read_at pre' c' e)" "e = AllowReaderEOF flag" "pre @ c = pre' @ c'"
  shows "reader f (machine pre c flag xs) = Ok (x, machine pre' c' flag xs)"
  using assms
  by (simp add: reader_def machine_def vbind_def get_context_def set_context_def lift_def vret_def NewExecutor_def)

lemma push_machine:
  "int (length xs) < STACK_LIMIT \<Longrightarrow> push_done v (machine pre c flag xs) = Ok (NONE, machine pre c flag (v # xs))"
  by (simp add: push_done_def machine_def vbind_def eval_def vret_def stack_simps)

lemma step_machine:
  assumes "ExecuteOp env op (machine (pre @ [op]) c flag xs) = Ok (NONE, machine pre' c' flag ys)"
  shows "execute_step env (machine pre (op # c) flag xs) = Ok (Inl (machine pre' c' flag ys))"
proof -
  have "ReadOpCode ((NewExecutionContext (pre @ op # c) flag)\<lparr>OpReader := read_at pre (op # c) (AllowReaderEOF flag)\<rparr>)
      = ((op, False), (NewExecutionContext (pre @ op # c) flag)\<lparr>OpReader := read_at (pre @ [op]) c (AllowReaderEOF flag)\<rparr>)"
    by (simp add: ReadOpCode_def read_at_ReadByte)
  moreover have "(machine pre (op # c) flag xs)\<lparr>ex_Context := Some ((NewExecutionContext (pre @ op # c) flag)\<lparr>OpReader := read_at (pre @ [op]) c (AllowReaderEOF flag)\<rparr>)\<rparr>
      = machine (pre @ [op]) c flag xs"
    by (simp add: machine_def)
  moreover have "ex_Context (machine pre (op # c) flag xs) = Some ((NewExecutionContext (pre @ op # c) flag)\<lparr>OpReader := read_at pre (op # c) (AllowReaderEOF flag)\<rparr>)"
    "ex_State (machine pre (op # c) flag xs) = NONE" "(machine pre' c' flag ys)\<lparr>ex_State := NONE\<rparr> = machine pre' c' flag ys"
    by (simp_all add: machine_def)
  ultimately show ?thesis
    using assms by (simp add: execute_step_def opcode_defs)
qed

lemma features_machine [simp]:
  "opcode \<notin> {OP_HASKEY, OP_KEYS, OP_DCALL, OP_VALUES} \<Longrightarrow> vbind (checkFeaturesEnabled opcode) f ex = f () ex"
  by (simp add: checkFeaturesEnabled_def vbind_def)

lemma bytes_machine:
  assumes "d \<noteq> []" "length d \<le> MAX_BYTEARRAY_SIZE" "int (length xs) < STACK_LIMIT"
  shows "vbind (reader (vr_ReadBytes (length d))) (\<lambda>buf. vbind (lift (VmValueFromBytes buf)) push_done) (machine pre (d @ c) flag xs)
    = Ok (NONE, machine (pre @ d) c flag (VBytes d # xs))"
proof -
  have "reader (vr_ReadBytes (length d)) (machine pre (d @ c) flag xs) = Ok (d, machine (pre @ d) c flag xs)"
    by (rule reader_machine [where e = "AllowReaderEOF flag"], rule read_at_ReadBytes [OF assms(1,2)]) simp_all
  then show ?thesis
    using assms(2) push_machine [OF assms(3)] by (simp add: vbind_def lift_def VmValueFromBytes_def)
qed

text \<open>The value an argument becomes on the stack.\<close>

fun arg_value :: "param \<Rightarrow> VmValue" where
  "arg_value (PBool b) = VInt (of_bool b)"
| "arg_value (PInt z) = (if -1 \<le> z \<and> z < 16 then VInt (of_int z) else VBytes (BigIntToNeoBytes z))"
| "arg_value (PBytes d) = (if d = [] then VInt 0 else VBytes d)"

lemma ToNeoBytes_Nil: "BigIntToNeoBytes z = [] \<longleftrightarrow> z = 0"
  using twos_val_ToNeoBytes [of z] by (auto simp: twos_val_def) (simp add: BigIntToNeoBytes_def big_Bytes_def)

lemma pushed_arg_value: "param_ok p \<Longrightarrow> pushed p (arg_value p)"
proof (cases p)
  case (PInt z)
  assume "param_ok p"
  then have "IntValFromNeoBytes (BigIntToNeoBytes z) = Ok (int_value z)"
    using PInt by (simp add: IntValFromNeoBytes_def IntValFromBigInt_eq checked_def BigIntFromNeoBytes_twos twos_val_ToNeoBytes)
  moreover have "-1 \<le> z \<Longrightarrow> z < 16 \<Longrightarrow> int_value z = Small (of_int z)"
    by (simp add: int_value_def big_IsInt64_def)
  ultimately show ?thesis
    using PInt by (simp add: IntValFromInt_def)
qed (simp_all add: ToNeoBytes_Nil)

lemma switch_push:
  assumes "op \<in> {OP_PUSHM1, OP_PUSH1, OP_PUSH2, OP_PUSH3, OP_PUSH4, OP_PUSH5, OP_PUSH6, OP_PUSH7, OP_PUSH8, OP_PUSH9,
    OP_PUSH10, OP_PUSH11, OP_PUSH12, OP_PUSH13, OP_PUSH14, OP_PUSH15, OP_PUSH16}"
  shows "execute_switch env op = op_PUSHNUM op"
proof -
  have "op \<noteq> OP_PUSH0" "op \<notin> {OP_PUSHDATA1, OP_PUSHDATA2, OP_PUSHDATA4}"
    using assms by (auto simp: opcode_defs)
  then show ?thesis
    using assms unfolding execute_switch_def by (simp only: if_False if_True)
qed

lemma machine_ExecuteOp:
  assumes "op \<notin> {OP_HASKEY, OP_KEYS, OP_DCALL, OP_VALUES}" "\<not> (op \<ge> OP_PUSHBYTES1 \<and> op \<le> OP_PUSHBYTES75)"
  shows "ExecuteOp env op ex = execute_switch env op ex"
  using assms(2) unfolding ExecuteOp_def features_machine [OF assms(1)] by (simp only: if_False)

lemma num_step:
  assumes xs: "int (length xs) < STACK_LIMIT" and "-1 \<le> z" "z < 16"
    and op: "op = (if z = 0 then OP_PUSH0 else of_int (80 + z))"
  shows "execute_step env (machine pre (op # c) flag xs) = Ok (Inl (machine (pre @ [op]) c flag (VInt (of_int z) # xs)))"
proof (rule step_machine)
  have "z \<in> {-1, 0, 1, 2, 3, 4, 5, 6, 7, 8, 9, 10, 11, 12, 13, 14, 15}"
    using assms(2,3) by (simp only: insert_iff empty_iff) presburger
  then have "execute_switch env op = push_done (VInt (of_int z))
      \<and> op \<notin> {OP_HASKEY, OP_KEYS, OP_DCALL, OP_VALUES} \<and> \<not> (op \<ge> OP_PUSHBYTES1 \<and> op \<le> OP_PUSHBYTES75)"
    unfolding insert_iff empty_iff op
    by (elim disjE) (simp_all add: switch_push op_PUSHNUM_def op_PUSH0_def VmValueFromInt64_def opcode_defs execute_switch_def [of _ 0])
  then show "ExecuteOp env op (machine (pre @ [op]) c flag xs) = Ok (NONE, machine (pre @ [op]) c flag (VInt (of_int z) # xs))"
    using push_machine [OF xs] machine_ExecuteOp [of op env] by simp
qed

lemma switch_data:
  assumes "op \<in> {OP_PUSHDATA1, OP_PUSHDATA2, OP_PUSHDATA4}"
  shows "execute_switch env op = op_PUSHDATA op"
proof -
  have "op \<noteq> OP_PUSH0"
    using assms by (auto simp: opcode_defs)
  then show ?thesis
    using assms unfolding execute_switch_def by (simp only: if_False if_True)
qed

lemma data_step:
  assumes r: "op = OP_PUSHDATA1 \<and> h = [of_nat (length d)] \<and> length d < 0x100
    \<or> op = OP_PUSHDATA2 \<and> h = put_le 2 (of_nat (length d) :: u16) \<and> length d < 0x10000
    \<or> op = OP_PUSHDATA4 \<and> h = put_le 4 (of_nat (length d) :: u32)"
    and d: "d \<noteq> []" "length d \<le> MAX_BYTEARRAY_SIZE" and xs: "int (length xs) < STACK_LIMIT"
  shows "execute_step env (machine pre (op # h @ d @ c) flag xs) = Ok (Inl (machine (pre @ op # h @ d) c flag (VBytes d # xs)))"
proof -
  have small: "length d < 2 ^ 32"
    using d(2) by (simp add: MAX_BYTEARRAY_SIZE_def)
  let ?m = "machine (pre @ [op]) (h @ d @ c) flag xs" and ?m' = "machine ((pre @ [op]) @ h) (d @ c) flag xs"
  have 1: "op = OP_PUSHDATA1 \<Longrightarrow> h = [of_nat (length d)] \<Longrightarrow> reader vr_ReadByte ?m = Ok (of_nat (length d), ?m')"
    using read_at_ReadByte by (intro reader_machine [where e = "AllowReaderEOF flag"]) simp_all
  have 2: "h = put_le 2 (of_nat (length d) :: u16) \<Longrightarrow> reader vr_ReadUint16 ?m = Ok (of_nat (length d), ?m')"
    using read_at_ReadUint(1) by (intro reader_machine [where e = "AllowReaderEOF flag"]) simp_all
  have 3: "h = put_le 4 (of_nat (length d) :: u32) \<Longrightarrow> reader vr_ReadUint32 ?m = Ok (of_nat (length d), ?m')"
    using read_at_ReadUint(2) by (intro reader_machine [where e = "AllowReaderEOF flag"]) simp_all
  have "op_PUSHDATA op ?m
      = vbind (reader (vr_ReadBytes (length d))) (\<lambda>buf. vbind (lift (VmValueFromBytes buf)) push_done) ?m'"
    using r
  proof (elim disjE conjE)
    assume "op = OP_PUSHDATA1" "h = [of_nat (length d)]" "length d < 0x100"
    then show ?thesis
      using 1 by (simp add: op_PUSHDATA_def vbind_def [of "vbind _ _"] vbind_def [of "reader vr_ReadByte"] vret_def unat_of_nat)
  next
    assume "op = OP_PUSHDATA2" "h = put_le 2 (of_nat (length d) :: u16)" "length d < 0x10000"
    then show ?thesis
      using 2 by (simp add: op_PUSHDATA_def opcode_defs vbind_def [of "vbind _ _"] vbind_def [of "reader vr_ReadUint16"] vret_def unat_of_nat)
  next
    assume "op = OP_PUSHDATA4" "h = put_le 4 (of_nat (length d) :: u32)"
    then show ?thesis
      using 3 small by (simp add: op_PUSHDATA_def opcode_defs vbind_def [of "vbind _ _"] vbind_def [of "reader vr_ReadUint32"] vret_def unat_of_nat)
  qed
  moreover have "ExecuteOp env op ?m = op_PUSHDATA op ?m"
    using r machine_ExecuteOp [of op env] switch_data [of op env] by (auto simp: opcode_defs)
  ultimately have "ExecuteOp env op ?m = Ok (NONE, machine (((pre @ [op]) @ h) @ d) c flag (VBytes d # xs))"
    using bytes_machine [OF d xs] by simp
  from step_machine [OF this] show ?thesis
    by simp
qed

lemma small_bytes_step:
  assumes "d \<noteq> []" "length d < 75" and xs: "int (length xs) < STACK_LIMIT"
  shows "execute_step env (machine pre (of_nat (length d) # d @ c) flag xs)
    = Ok (Inl (machine (pre @ of_nat (length d) # d) c flag (VBytes d # xs)))"
proof -
  define op where "op = (of_nat (length d) :: u8)"
  have op: "unat op = length d" and d: "length d \<le> MAX_BYTEARRAY_SIZE" and "0 < length d"
    using assms(1,2) by (simp_all add: op_def unat_of_nat MAX_BYTEARRAY_SIZE_def)
  then have "OP_PUSHBYTES1 \<le> op" "op \<le> OP_PUSHBYTES75" "op \<notin> {OP_HASKEY, OP_KEYS, OP_DCALL, OP_VALUES}"
    using assms(2) by (auto simp: word_le_nat_alt opcode_defs Suc_le_eq)
  then have "ExecuteOp env op (machine (pre @ [op]) (d @ c) flag xs) = Ok (NONE, machine ((pre @ [op]) @ d) c flag (VBytes d # xs))"
    using bytes_machine [OF assms(1) d xs] by (simp add: ExecuteOp_def op_PUSHBYTES_def op)
  from step_machine [OF this] show ?thesis
    by (simp add: op_def)
qed

text \<open>The code of one argument puts its value on the stack.\<close>

lemma push_bytes_step:
  assumes "length d \<le> MAX_BYTEARRAY_SIZE" "int (length xs) < STACK_LIMIT"
  shows "execute_step env (machine pre (EmitPushByteArray d [] @ c) flag xs)
    = Ok (Inl (machine (pre @ EmitPushByteArray d []) c flag (arg_value (PBytes d) # xs)))"
proof -
  consider "d = []" | "d \<noteq> []" "length d < 75" | "75 \<le> length d" "length d < 0x100"
    | "0x100 \<le> length d" "length d < 0x10000" | "0x10000 \<le> length d"
    by (cases d) force+
  then show ?thesis
  proof cases
    case 1
    with num_step [OF assms(2), where env = env and z = 0 and op = 0] show ?thesis
      by (simp add: EmitPushByteArray_def opcode_defs)
  next
    case 2
    with small_bytes_step [OF _ _ assms(2), where env = env] show ?thesis
      by (simp add: EmitPushByteArray_def opcode_defs)
  next
    case 3
    then have "d \<noteq> []" by auto
    with 3 data_step [OF _ _ assms, where env = env and op = OP_PUSHDATA1 and h = "[of_nat (length d)]"] show ?thesis
      by (simp add: EmitPushByteArray_def Emit_def opcode_defs)
  next
    case 4
    then have "d \<noteq> []" by auto
    with 4 data_step [OF _ _ assms, where env = env and op = OP_PUSHDATA2 and h = "put_le 2 (of_nat (length d) :: u16)"] show ?thesis
      by (simp add: EmitPushByteArray_def Emit_def opcode_defs)
  next
    case 5
    then have "d \<noteq> []" by auto
    with 5 data_step [OF _ _ assms, where env = env and op = OP_PUSHDATA4 and h = "put_le 4 (of_nat (length d) :: u32)"] show ?thesis
      by (simp add: EmitPushByteArray_def Emit_def opcode_defs)
  qed
qed

lemma push_int_step:
  assumes "\<bar>z\<bar> < 2 ^ 256" "int (length xs) < STACK_LIMIT"
  shows "execute_step env (machine pre (EmitPushInteger z [] @ c) flag xs)
    = Ok (Inl (machine (pre @ EmitPushInteger z []) c flag (arg_value (PInt z) # xs)))"
proof (cases "-1 \<le> z \<and> z < 16")
  case True
  then have "z = -1 \<or> z = 0 \<or> 0 < z"
    by linarith
  with True num_step [OF assms(2), where env = env and z = z, OF _ _ refl] show ?thesis
    by (auto simp: EmitPushInteger_def Emit_def opcode_defs)
next
  case False
  have "length (BigIntToNeoBytes z) \<le> Suc 32"
    using assms(1) by (intro length_BigIntToNeoBytes) simp
  then have "length (BigIntToNeoBytes z) \<le> MAX_BYTEARRAY_SIZE"
    by (simp add: MAX_BYTEARRAY_SIZE_def)
  from push_bytes_step [OF this assms(2), of env] False show ?thesis
    by (auto simp: EmitPushInteger_def ToNeoBytes_Nil sgn_if)
qed

lemma push_param_step:
  assumes "param_ok p" "int (length xs) < STACK_LIMIT"
  shows "execute_step env (machine pre (emit_param p [] @ c) flag xs)
    = Ok (Inl (machine (pre @ emit_param p []) c flag (arg_value p # xs)))"
proof (cases p)
  case (PBool b)
  with num_step [OF assms(2), where env = env and z = "of_bool b", OF _ _ refl] show ?thesis
    by (cases b) (simp_all add: EmitPushBool_def Emit_def opcode_defs)
next
  case (PInt z)
  with assms push_int_step [of z xs env] show ?thesis
    by simp
next
  case (PBytes d)
  with assms push_bytes_step [of d xs env] show ?thesis
    by simp
qed

lemma end_step: "execute_step env (machine pre [] flag xs) = Ok (Inr (machine pre [] flag xs))"
  by (simp add: execute_step_def machine_def ReadOpCode_def read_at_def vr_ReadByte_def opcode_defs)

definition emit_params :: "param list \<Rightarrow> ParamsBuilder" where
  "emit_params ps = fold emit_param ps []"

lemma emit_param_append: "emit_param p q = q @ emit_param p []"
  by (cases p) (simp_all add: EmitPushBool_def EmitPushInteger_def EmitPushByteArray_def Emit_def Let_def)

lemma fold_emit_param: "fold emit_param ps q = q @ concat (map (\<lambda>p. emit_param p []) ps)"
proof (induction ps arbitrary: q)
  case (Cons p ps)
  then show ?case
    using emit_param_append [of p q] by simp
qed simp

lemma run_params:
  assumes "list_all param_ok ps" "int (length xs + length ps) \<le> STACK_LIMIT"
  shows "loop (execute_step env) (machine pre (concat (map (\<lambda>p. emit_param p []) ps)) flag xs)
    = Ok (machine (pre @ concat (map (\<lambda>p. emit_param p []) ps)) [] flag (map arg_value (rev ps) @ xs))"
  using assms
proof (induction ps arbitrary: pre xs)
  case Nil
  then show ?case
    by (simp add: loop_leave end_step)
next
  case (Cons p ps)
  then show ?case
    using Cons.IH [of "arg_value p # xs" "pre @ emit_param p []"]
    by (simp add: loop_continue [where f = "execute_step env", OF push_param_step])
qed

section \<open>Properties\<close>

text \<open>
  C10. A script of arguments means what it was built from. Whatever booleans, integers below 256 bits and byte strings within the limit
  a client emits, up to the size of the stack, the interpreter runs the script to its end without an error, and the stack then holds
  one value for each argument, the last on top, which is read back as that argument: the short forms of small integers and short strings
  and each of the three length prefixes included.
\<close>

theorem params_on_stack:
  assumes "list_all param_ok ps" "int (length ps) \<le> STACK_LIMIT"
  shows "\<exists>ex vs. Execute env (NewExecutor (emit_params ps) flag) = Ok ex
    \<and> EvalStack ex = stk vs STACK_LIMIT \<and> list_all2 pushed (rev ps) vs \<and> ex_State ex = NONE"
proof -
  let ?vs = "map arg_value (rev ps)" and ?c = "emit_params ps"
  have "(NewExecutor ?c flag)\<lparr>ex_State := ex_State (NewExecutor ?c flag) AND NOT BREAK\<rparr> = machine [] ?c flag []"
    by (simp add: machine_def NewExecutor_def NewExecutionContext_def read_at_def NewVmReader_def NewValueStack_def stk_def opcode_defs)
  then have "Execute env (NewExecutor ?c flag) = Ok (machine ?c [] flag ?vs)"
    using run_params [of ps "[]" env "[]" flag] assms
    by (simp add: Execute_def emit_params_def fold_emit_param)
  moreover have "list_all2 pushed (rev ps) ?vs"
    using assms(1) by (simp add: list_all2_conv_all_nth) (metis list_all_length nth_mem list_all_iff length_rev set_rev pushed_arg_value)
  ultimately show ?thesis
    by (auto simp: machine_def)
qed

theorem params_on_stack_witness:
  "\<exists>ex vs. Execute plain_env (NewExecutor (emit_params [PBool True, PInt 1000, PBytes [1, 2]]) plain_flags) = Ok ex
    \<and> EvalStack ex = stk vs STACK_LIMIT \<and> list_all2 pushed [PBytes [1, 2], PInt 1000, PBool True] vs \<and> ex_State ex = NONE"
  using params_on_stack [of "[PBool True, PInt 1000, PBytes [1, 2]]" plain_env plain_flags]
  by (simp add: STACK_LIMIT_def MAX_BYTEARRAY_SIZE_def)

end
