(* ===== verification/NeoSerialize.thy ===== *)
theory NeoSerialize
  imports NeoValue Codec
begin

text \<open>
  The byte form of NeoVM values, \<open>Serialize\<close>, \<open>Deserialize\<close> and the check for circular references of
  \<open>src/vm/neovm/types/neovm_value.go\<close>. What a value stands for, when it is not circular, is a tree; the byte form is a
  function of the tree, and reading it back gives a value that stands for the same tree. The check for circular references looks at the
  first element only, so serialization does not end on some circular values.
\<close>

section \<open>Tags and limits\<close>

definition bytearrayType :: byte where
  "bytearrayType = 0x00"

definition boolType :: byte where
  "boolType = 0x01"

definition integerType :: byte where
  "integerType = 0x02"

definition arrayType :: byte where
  "arrayType = 0x80"

definition structType :: byte where
  "structType = 0x81"

definition mapType :: byte where
  "mapType = 0x82"

definition MAX_COUNT :: nat where
  "MAX_COUNT = 1024"

lemmas type_defs = bytearrayType_def boolType_def integerType_def arrayType_def structType_def mapType_def

section \<open>Reading\<close>

text \<open>
  The first argument of \<open>deserialize\<close> is the number of levels left, \<open>MAX_COUNT + 1 - depth\<close>. The loops run
  \<open>int(l)\<close> times, for a number \<open>l\<close> of 64 bits; a number that is negative as an \<open>int\<close> means no rounds. A new array has no
  elements here and a nil slice there; the two are told apart by \<open>reflect.DeepEqual\<close> only.
\<close>

type_synonym 'a vreader = "ZeroCopySource \<Rightarrow> heap \<Rightarrow> ('a \<times> ZeroCopySource \<times> heap) res"

definition read_len :: "ZeroCopySource \<Rightarrow> (nat \<times> ZeroCopySource) res" where
  "read_len source =
     bind_res (NextVarUint source) (\<lambda>((l, _, irregular, eof), s1).
       if eof then Err ErrUnexpectedEOF else if irregular then Err ErrIrregularData else Ok (nat (sint l), s1))"

definition read_data :: "ZeroCopySource \<Rightarrow> (bytes \<times> ZeroCopySource) res" where
  "read_data source =
     bind_res (NextVarBytes source) (\<lambda>((data, _, irregular, eof), s1).
       if eof then Err ErrUnexpectedEOF else if irregular then Err ErrIrregularData else Ok (data, s1))"

fun read_elements :: "VmValue vreader \<Rightarrow> (VmValue \<Rightarrow> heap \<Rightarrow> heap res) \<Rightarrow> nat \<Rightarrow> unit vreader" where
  "read_elements rd app 0 s h = Ok ((), s, h)"
| "read_elements rd app (Suc n) s h =
     bind_res (rd s h) (\<lambda>(v, s1, h1).
     bind_res (app v h1) (\<lambda>h2. read_elements rd app n s1 h2))"

fun read_entries :: "VmValue vreader \<Rightarrow> addr \<Rightarrow> nat \<Rightarrow> unit vreader" where
  "read_entries rd m 0 s h = Ok ((), s, h)"
| "read_entries rd m (Suc n) s h =
     bind_res (rd s h) (\<lambda>(keyValue, s1, h1).
     bind_res (rd s1 h1) (\<lambda>(v, s2, h2).
     bind_res (map_Set m keyValue v h2) (\<lambda>h3. read_entries rd m n s2 h3)))"

text \<open>\<open>new(ArrayValue)\<close>, an array whose slice is nil until the first element is appended.\<close>

definition new_ArrayValue :: "heap \<Rightarrow> addr \<times> heap" where
  "new_ArrayValue h = (length h, h @ [ArrayValue NilSlice])"

fun deserialize :: "nat \<Rightarrow> VmValue vreader" where
  "deserialize 0 source h = Err ''vmvalue depth over the uplimit''"
| "deserialize (Suc left) source h =
     bind_res (NextByte source) (\<lambda>((t, eof), s1).
       if eof then Err ErrUnexpectedEOF
       else if t = boolType then
         bind_res (NextBool s1) (\<lambda>((b, irregular, eof), s2).
           if eof then Err ErrUnexpectedEOF else if irregular then Err ErrIrregularData
           else Ok (VmValueFromBool b, s2, h))
       else if t = bytearrayType then
         bind_res (read_data s1) (\<lambda>(data, s2).
         bind_res (VmValueFromBytes data) (\<lambda>value. Ok (value, s2, h)))
       else if t = integerType then
         bind_res (read_data s1) (\<lambda>(data, s2).
         bind_res (VmValueFromBigInt (BigIntFromNeoBytes data)) (\<lambda>value. Ok (value, s2, h)))
       else if t = arrayType then
         bind_res (read_len s1) (\<lambda>(l, s2).
           case new_ArrayValue h of (arr, h1) \<Rightarrow>
           bind_res (read_elements (deserialize left) (arr_Append arr) l s2 h1) (\<lambda>(_, s3, h2).
             Ok (VmValueFromArrayVal arr, s3, h2)))
       else if t = mapType then
         bind_res (read_len s1) (\<lambda>(l, s2).
           case NewMapValue h of (mapValue, h1) \<Rightarrow>
           bind_res (read_entries (deserialize left) mapValue l s2 h1) (\<lambda>(_, s3, h2).
             Ok (VmValueFromMapValue mapValue, s3, h2)))
       else if t = structType then
         bind_res (read_len s1) (\<lambda>(l, s2).
           case NewStructValue h of (structValue, h1) \<Rightarrow>
           bind_res (read_elements (deserialize left) (struct_Append structValue) l s2 h1) (\<lambda>(_, s3, h2).
             Ok (VmValueFromStructVal structValue, s3, h2)))
       else Err ERR_BAD_TYPE)"

definition Deserialize :: "VmValue vreader" where
  "Deserialize source h = deserialize (MAX_COUNT + 1) source h"

section \<open>The check for circular references\<close>

text \<open>
  The first argument is the number of levels left, \<open>MAX_STRUCT_DEPTH + 1 - depth\<close>. An object is known by the
  pointer to its data, which it does not share with another object. The loops over the elements return in their first round; which entry of
  a map comes first is up to Go, here to the argument \<open>rng\<close>. A map is ranged over once at most, since it is then in \<open>visited\<close>, so every choice
  Go can make during one check is such a function of the object.
\<close>

fun circularRefAndDepthDetection :: "(addr \<Rightarrow> map_data \<Rightarrow> map_data) \<Rightarrow> heap \<Rightarrow> nat \<Rightarrow> addr list \<Rightarrow> VmValue \<Rightarrow> bool res" where
  "circularRefAndDepthDetection rng h 0 visited self = Ok True"
| "circularRefAndDepthDetection rng h (Suc left) visited self =
     (case self of
        VArray a \<Rightarrow> bind_res (array_at h a) (\<lambda>data. case elems data of
            [] \<Rightarrow> Ok False
          | v # _ \<Rightarrow> if a \<in> set visited then Ok True else circularRefAndDepthDetection rng h left (a # visited) v)
      | VStruct a \<Rightarrow> bind_res (struct_at h a) (\<lambda>data. case elems data of
            [] \<Rightarrow> Ok False
          | v # _ \<Rightarrow> if a \<in> set visited then Ok True else circularRefAndDepthDetection rng h left (a # visited) v)
      | VMap a \<Rightarrow> bind_res (map_at h a) (\<lambda>data.
          if a \<in> set visited then Ok True
          else case rng a data of
            [] \<Rightarrow> Ok False
          | (_, _, v) # _ \<Rightarrow> circularRefAndDepthDetection rng h left (a # visited) v)
      | _ \<Rightarrow> Ok False)"

definition CircularRefAndDepthDetection :: "(addr \<Rightarrow> map_data \<Rightarrow> map_data) \<Rightarrow> heap \<Rightarrow> VmValue \<Rightarrow> bool res" where
  "CircularRefAndDepthDetection rng h self = circularRefAndDepthDetection rng h (MAX_STRUCT_DEPTH + 1) [] self"

section \<open>Writing\<close>

fun write_all :: "('a \<Rightarrow> wr) \<Rightarrow> 'a list \<Rightarrow> wr" where
  "write_all w [] sink = Ok sink"
| "write_all w (x # xs) sink = bind_res (w x sink) (write_all w xs)"

text \<open>The switch over the type, with the recursive call as an argument, and the check of the size after it.\<close>

fun write_value :: "(VmValue \<Rightarrow> wr) \<Rightarrow> heap \<Rightarrow> VmValue \<Rightarrow> wr" where
  "write_value ser h (VBool boo) sink = bind_res (WriteByte boolType sink) (WriteBool boo)"
| "write_value ser h (VBytes bs) sink =
     bind_res (WriteByte bytearrayType sink) (\<lambda>s. bind_res (WriteVarBytes bs s) (\<lambda>(_, s'). Ok s'))"
| "write_value ser h (VBigInt z) sink =
     bind_res (WriteByte integerType sink) (\<lambda>s. bind_res (WriteVarBytes (BigIntToNeoBytes z) s) (\<lambda>(_, s'). Ok s'))"
| "write_value ser h (VInt i) sink =
     bind_res (WriteByte integerType sink) (\<lambda>s. bind_res (WriteVarBytes (BigIntToNeoBytes (sint i)) s) (\<lambda>(_, s'). Ok s'))"
| "write_value ser h (VArray a) sink =
     bind_res (array_at h a) (\<lambda>data.
     bind_res (WriteByte arrayType sink) (\<lambda>s.
     bind_res (WriteVarUint (of_nat (length (elems data))) s) (\<lambda>(_, s'). write_all ser (elems data) s')))"
| "write_value ser h (VMap a) sink =
     bind_res (map_at h a) (\<lambda>data.
     bind_res (WriteByte mapType sink) (\<lambda>s.
     bind_res (WriteVarUint (of_nat (length data)) s) (\<lambda>(_, s').
       write_all (\<lambda>key s. bind_res (ser (fst (the (map_of data key))) s) (ser (snd (the (map_of data key)))))
         (getMapSortedKey data) s')))"
| "write_value ser h (VStruct a) sink =
     bind_res (struct_at h a) (\<lambda>data.
     bind_res (WriteByte structType sink) (\<lambda>s.
     bind_res (WriteVarUint (of_nat (length (elems data))) s) (\<lambda>(_, s'). write_all ser (elems data) s')))"
| "write_value ser h (VInterop _) sink = Err ''not support type: interopType''"

definition check_size :: wr where
  "check_size sink =
     (if snk_Size sink > of_nat MAX_BYTEARRAY_SIZE then Err ''runtime serialize: can not serialize length over the uplimit''
      else Ok sink)"

text \<open>
  The recursion of \<open>Serialize\<close> follows the pointers of the heap and has no bound of its own; the first argument bounds its
  depth, and the outcome is \<open>Diverge\<close> when that is not enough. Each recursive call runs the check again. The order in which Go visits
  a map may differ from one check to the next; it is a function \<open>rng\<close> of the bytes written so far, which differ from check to check, and of the map.
\<close>

fun Serialize :: "(bytes \<Rightarrow> addr \<Rightarrow> map_data \<Rightarrow> map_data) \<Rightarrow> nat \<Rightarrow> heap \<Rightarrow> VmValue \<Rightarrow> wr" where
  "Serialize rng 0 h self sink = Diverge"
| "Serialize rng (Suc n) h self sink =
     bind_res (CircularRefAndDepthDetection (rng (snk_buf sink)) h self) (\<lambda>b.
       if b then Err ''runtime serialize: can not serialize circular reference data''
       else bind_res (write_value (Serialize rng n h) h self sink) check_size)"

section \<open>Values as trees\<close>

text \<open>The entries of a map are a list of keys and values in turns, in the order of the keys.\<close>

datatype vtree = TBytes bytes | TBool bool | TInt int | TArray "vtree list" | TStruct "vtree list" | TMap "vtree list"

definition map_items :: "map_data \<Rightarrow> VmValue list" where
  "map_items d = concat (map (\<lambda>k. [fst (the (map_of d k)), snd (the (map_of d k))]) (getMapSortedKey d))"

inductive denotes :: "heap \<Rightarrow> VmValue \<Rightarrow> vtree \<Rightarrow> bool" for h :: heap where
  bytes: "denotes h (VBytes b) (TBytes b)"
| bool: "denotes h (VBool b) (TBool b)"
| int: "denotes h (VInt i) (TInt (sint i))"
| bigint: "denotes h (VBigInt z) (TInt z)"
| array: "array_at h a = Ok s \<Longrightarrow> list_all2 (denotes h) (elems s) ts \<Longrightarrow> denotes h (VArray a) (TArray ts)"
| struct: "struct_at h a = Ok s \<Longrightarrow> list_all2 (denotes h) (elems s) ts \<Longrightarrow> denotes h (VStruct a) (TStruct ts)"
| map: "map_at h a = Ok d \<Longrightarrow> list_all2 (denotes h) (map_items d) ts \<Longrightarrow> denotes h (VMap a) (TMap ts)"

text \<open>The byte form.\<close>

fun tree_bytes :: "vtree \<Rightarrow> bytes" where
  "tree_bytes (TBytes b) = bytearrayType # varbytes_enc b"
| "tree_bytes (TBool b) = [boolType, if b then 1 else 0]"
| "tree_bytes (TInt z) = integerType # varbytes_enc (BigIntToNeoBytes z)"
| "tree_bytes (TArray ts) = arrayType # varuint_enc (of_nat (length ts)) @ concat (map tree_bytes ts)"
| "tree_bytes (TStruct ts) = structType # varuint_enc (of_nat (length ts)) @ concat (map tree_bytes ts)"
| "tree_bytes (TMap ts) = mapType # varuint_enc (of_nat (length ts div 2)) @ concat (map tree_bytes ts)"

section \<open>Writing appends the byte form\<close>

lemma write_byte: "sink_ok s \<Longrightarrow> length (snk_buf s) + 9 \<le> sink_max \<Longrightarrow>
    \<exists>s'. WriteByte c s = Ok s' \<and> snk_buf s' = snk_buf s @ [c] \<and> sink_ok s'"
  using writer.appends [OF writer_WriteUint(1), of s c] by (simp add: WriteByte_def)

text \<open>
  \<open>wrote s bs r\<close>: the outcome of writing \<open>bs\<close> to \<open>s\<close>, or an error. The sinks that occur are within \<open>sink_fits n\<close>: below
  them \<open>n\<close> levels of headers can be written.
\<close>

definition sink_fits :: "nat \<Rightarrow> ZeroCopySink \<Rightarrow> bool" where
  "sink_fits n s \<longleftrightarrow> sink_ok s \<and> length (snk_buf s) + 20 * n \<le> 2 ^ 48"

definition wrote :: "ZeroCopySink \<Rightarrow> (bytes \<Rightarrow> bool) \<Rightarrow> ZeroCopySink res \<Rightarrow> bool" where
  "wrote s B r \<longleftrightarrow> (case r of
     Ok s' \<Rightarrow> sink_ok s' \<and> length (snk_buf s') \<le> MAX_BYTEARRAY_SIZE \<and> (\<exists>bs. B bs \<and> snk_buf s' = snk_buf s @ bs)
   | Err _ \<Rightarrow> True | Panic \<Rightarrow> False | Diverge \<Rightarrow> True)"

lemma sink_fits_less: "sink_fits (Suc n) s \<Longrightarrow> length bs \<le> 20 \<Longrightarrow> snk_buf s' = snk_buf s @ bs \<Longrightarrow> sink_ok s' \<Longrightarrow> sink_fits n s'"
  by (simp add: sink_fits_def)

lemma write_header:
  assumes "sink_fits (Suc n) s"
  obtains s1 k s2 where "WriteByte t s = Ok s1" "WriteVarUint l s1 = Ok (k, s2)" "snk_buf s2 = snk_buf s @ t # varuint_enc l"
    "sink_fits n s2" "length (snk_buf s) + 2 \<le> length (snk_buf s2)"
proof -
  have s: "sink_ok s" "length (snk_buf s) + 100 \<le> sink_max"
    using assms by (simp_all add: sink_fits_def sink_max_def)
  obtain s1 where s1: "WriteByte t s = Ok s1" "snk_buf s1 = snk_buf s @ [t]" "sink_ok s1"
    using write_byte [of s t] s by auto
  then obtain s2 where s2: "WriteVarUint l s1 = Ok (getVarUintSize l, s2)" "snk_buf s2 = snk_buf s1 @ varuint_enc l" "sink_ok s2"
    using WriteVarUint_appends [of s1 l] s by auto
  have "1 \<le> length (varuint_enc l)" "length (varuint_enc l) \<le> 9"
    by (simp_all add: varuint_enc_def)
  then show thesis
    using s1 s2 sink_fits_less [OF assms, of "t # varuint_enc l" s2] by (intro that [of s1 "getVarUintSize l" s2]) simp_all
qed

lemma write_leaf:
  assumes "sink_fits (Suc n) s" "length bs \<le> MAX_BYTEARRAY_SIZE"
  obtains s1 k s2 where "WriteByte t s = Ok s1" "WriteVarBytes bs s1 = Ok (k, s2)" "snk_buf s2 = snk_buf s @ t # varbytes_enc bs" "sink_ok s2"
proof -
  have s: "sink_ok s" "length (snk_buf s) \<le> 2 ^ 48"
    using assms by (simp_all add: sink_fits_def)
  obtain s1 where s1: "WriteByte t s = Ok s1" "snk_buf s1 = snk_buf s @ [t]" "sink_ok s1"
    using write_byte [of s t] s by (auto simp: sink_max_def)
  have "length (varbytes_enc bs) \<le> 9 + 2 ^ 20"
    using assms(2) by (simp add: varbytes_enc_def varuint_enc_def MAX_BYTEARRAY_SIZE_def)
  then obtain k s2 where "WriteVarBytes bs s1 = Ok (k, s2)" "snk_buf s2 = snk_buf s1 @ varbytes_enc bs" "sink_ok s2"
    using WriteVarBytes_appends [of s1 bs] s s1 by (auto simp: sink_max_def)
  then show thesis
    using s1 by (intro that) simp_all
qed

text \<open>The check of the size at the end.\<close>

lemma check_size_iff:
  "length (snk_buf s) \<le> 2 ^ 60 \<Longrightarrow> check_size s =
     (if length (snk_buf s) > MAX_BYTEARRAY_SIZE then Err ''runtime serialize: can not serialize length over the uplimit'' else Ok s)"
  by (simp add: check_size_def snk_Size_def word_less_nat_alt of_nat_less_u64 MAX_BYTEARRAY_SIZE_def unat_of_nat)

lemma wrote_checked:
  "sink_ok s' \<Longrightarrow> snk_buf s' = snk_buf s @ bs \<Longrightarrow> B bs \<Longrightarrow> length (snk_buf s') \<le> 2 ^ 60 \<Longrightarrow> wrote s B (check_size s')"
  by (auto simp: wrote_def check_size_iff)

lemma write_all_wrote:
  assumes "n \<le> 2 ^ 40"
    and "\<And>x s. x \<in> set xs \<Longrightarrow> sink_fits n s \<Longrightarrow> wrote s (\<lambda>bs. \<exists>t. denotes h x t \<and> bs = tree_bytes t) (w x s)"
    and "sink_fits n s"
  shows "case write_all w xs s of
      Ok s' \<Rightarrow> sink_fits n s' \<and> (\<exists>ts. list_all2 (denotes h) xs ts \<and> snk_buf s' = snk_buf s @ concat (map tree_bytes ts))
    | Err _ \<Rightarrow> True | Panic \<Rightarrow> False | Diverge \<Rightarrow> True"
  using assms(2,3)
proof (induction xs arbitrary: s)
  case (Cons x xs)
  have x: "wrote s (\<lambda>bs. \<exists>t. denotes h x t \<and> bs = tree_bytes t) (w x s)"
    using Cons.prems by simp
  show ?case
  proof (cases "w x s")
    case (Ok s1)
    obtain t where t: "denotes h x t" "snk_buf s1 = snk_buf s @ tree_bytes t"
      and "sink_ok s1" "length (snk_buf s1) \<le> MAX_BYTEARRAY_SIZE"
      using x Ok by (auto simp: wrote_def)
    then have "sink_fits n s1"
      using assms(1) by (simp add: sink_fits_def MAX_BYTEARRAY_SIZE_def)
    from Cons.IH [OF Cons.prems(1) this] show ?thesis
    proof (cases "write_all w xs s1")
      case (Ok s2)
      with Cons.IH [OF Cons.prems(1) \<open>sink_fits n s1\<close>] obtain ts where "sink_fits n s2" "list_all2 (denotes h) xs ts"
        "snk_buf s2 = snk_buf s1 @ concat (map tree_bytes ts)"
        by auto
      then show ?thesis
        using \<open>w x s = Ok s1\<close> Ok t by (auto intro!: exI [of _ "t # ts"])
    qed (use Ok in auto)
  qed (use x in \<open>auto simp: wrote_def\<close>)
qed auto

lemma write_entries:
  "write_all (\<lambda>key s. bind_res (w (fst (the (map_of d key))) s) (w (snd (the (map_of d key))))) (getMapSortedKey d) s
   = write_all w (map_items d) s"
proof -
  have "write_all (\<lambda>key s. bind_res (w (f key) s) (w (g key))) ks = write_all w (concat (map (\<lambda>k. [f k, g k]) ks))"
    for f g and ks :: "bytes list"
  proof (induction ks)
    case (Cons k ks)
    then show ?case
      by (intro ext) (simp add: bind_res_assoc write_all.simps(2) [abs_def])
  qed auto
  from this [of "\<lambda>k. fst (the (map_of d k))" "\<lambda>k. snd (the (map_of d k))"] show ?thesis
    by (simp add: map_items_def)
qed

lemma length_map_items [simp]: "length (map_items d) = 2 * length d"
proof -
  have "length (concat (map (\<lambda>k. [f k, g k]) ks)) = 2 * length ks" for ks :: "bytes list" and f g :: "bytes \<Rightarrow> VmValue"
    by (induction ks) auto
  then show ?thesis
    by (simp add: map_items_def getMapSortedKey_def)
qed

lemma wf_map_items: "wf_obj h (MapValue d) \<Longrightarrow> list_all (wf_val h) (map_items d)"
proof -
  assume d: "wf_obj h (MapValue d)"
  have "wf_val h (fst (the (map_of d k))) \<and> wf_val h (snd (the (map_of d k)))" if k: "k \<in> set (getMapSortedKey d)" for k
  proof -
    obtain p where p: "map_of d k = Some p"
      using k by (cases "map_of d k") (auto simp: getMapSortedKey_def map_of_eq_None_iff)
    then show ?thesis
      using map_of_SomeD [OF p] d by (force simp: list_all_iff)
  qed
  then show ?thesis
    by (auto simp: map_items_def list_all_iff)
qed

lemma circular_total:
  assumes "wf_heap h" "\<And>a d. set (rng a d) \<subseteq> set d"
  shows "wf_val h v \<Longrightarrow> \<exists>b. circularRefAndDepthDetection rng h left visited v = Ok b"
proof (induction left arbitrary: visited v)
  case (Suc left)
  have el: "\<exists>b. (case elems s of [] \<Rightarrow> Ok False | v # _ \<Rightarrow>
      if a \<in> set visited then Ok True else circularRefAndDepthDetection rng h left (a # visited) v) = Ok b"
    if "list_all (wf_val h) (elems s)" for s and a :: nat
    using that Suc.IH by (auto split: list.split)
  show ?case
  proof (cases v)
    case (VArray a)
    then show ?thesis
      using wf_at(1) [OF assms(1), of a] Suc.prems el by fastforce
  next
    case (VStruct a)
    then show ?thesis
      using wf_at(2) [OF assms(1), of a] Suc.prems el by fastforce
  next
    case (VMap a)
    then obtain d where d: "map_at h a = Ok d" "wf_obj h (MapValue d)"
      using wf_at(3) [OF assms(1), of a] Suc.prems by blast
    have wf: "wf_val h v" if "(k, x, v) \<in> set (rng a d)" for k x v
      using that assms(2) [of a d] d(2) by (auto simp: list_all_iff)
    have "\<exists>b. circularRefAndDepthDetection rng h left (a # visited) v = Ok b" if "rng a d = (k, x, v) # r" for k x v r
      by (rule Suc.IH, rule wf [of k x]) (simp add: that)
    then show ?thesis
      using VMap d by (auto split: list.split)
  qed auto
qed auto

lemma wrote_leaf:
  assumes "sink_fits (Suc n) s" "length p \<le> MAX_BYTEARRAY_SIZE" "B (ty # varbytes_enc p)"
  shows "wrote s B (bind_res (bind_res (WriteByte ty s) (\<lambda>s. bind_res (WriteVarBytes p s) (\<lambda>(_, s'). Ok s'))) check_size)"
proof -
  obtain s1 k s2 where w: "WriteByte ty s = Ok s1" "WriteVarBytes p s1 = Ok (k, s2)" "snk_buf s2 = snk_buf s @ ty # varbytes_enc p" "sink_ok s2"
    using write_leaf [OF assms(1,2)] by blast
  have "length (snk_buf s2) \<le> 2 ^ 60"
    using w(3) assms(1,2) by (simp add: sink_fits_def varbytes_enc_def varuint_enc_def MAX_BYTEARRAY_SIZE_def)
  then have "wrote s B (check_size s2)"
    using w assms(3) by (intro wrote_checked [where bs = "ty # varbytes_enc p"]) auto
  then show ?thesis
    by (simp add: w)
qed

lemma wrote_bool:
  assumes "sink_fits (Suc n) s" "B [boolType, if x then 1 else 0]"
  shows "wrote s B (bind_res (bind_res (WriteByte boolType s) (WriteBool x)) check_size)"
proof -
  have s: "sink_ok s" "length (snk_buf s) \<le> 2 ^ 48"
    using assms(1) by (simp_all add: sink_fits_def)
  obtain s1 where s1: "WriteByte boolType s = Ok s1" "snk_buf s1 = snk_buf s @ [boolType]" "sink_ok s1"
    using write_byte [of s boolType] s by (auto simp: sink_max_def)
  obtain s2 where s2: "WriteBool x s1 = Ok s2" "snk_buf s2 = snk_buf s1 @ [if x then 1 else 0]" "sink_ok s2"
    using write_byte [of s1 1] write_byte [of s1 0] s s1 by (cases x) (auto simp: WriteBool_def sink_max_def)
  then have "wrote s B (check_size s2)"
    using assms(2) s s1 by (intro wrote_checked [where bs = "[boolType, if x then 1 else 0]"]) auto
  then show ?thesis
    by (simp add: s1 s2)
qed

lemma wrote_node:
  assumes s: "sink_fits (Suc n) s" and n: "n \<le> 2 ^ 40"
    and ser: "\<And>x s. x \<in> set xs \<Longrightarrow> sink_fits n s \<Longrightarrow> wrote s (\<lambda>bs. \<exists>t. denotes h x t \<and> bs = tree_bytes t) (ser x s)"
    and B: "\<And>ts. list_all2 (denotes h) xs ts \<Longrightarrow> B (ty # varuint_enc l @ concat (map tree_bytes ts))"
  shows "wrote s B (bind_res (bind_res (WriteByte ty s) (\<lambda>s. bind_res (WriteVarUint l s) (\<lambda>(_, s'). write_all ser xs s'))) check_size)"
proof -
  obtain s1 k s2 where w: "WriteByte ty s = Ok s1" "WriteVarUint l s1 = Ok (k, s2)" "snk_buf s2 = snk_buf s @ ty # varuint_enc l"
    "sink_fits n s2"
    using write_header [OF s] by blast
  note all = write_all_wrote [OF n ser w(4), of xs]
  show ?thesis
  proof (cases "write_all ser xs s2")
    case (Ok s3)
    with all obtain ts where
      "sink_fits n s3" "list_all2 (denotes h) xs ts" "snk_buf s3 = snk_buf s2 @ concat (map tree_bytes ts)"
      by auto
    then have "wrote s B (check_size s3)"
      using w(3) B [of ts] by (intro wrote_checked [where bs = "ty # varuint_enc l @ concat (map tree_bytes ts)"]) (auto simp: sink_fits_def)
    then show ?thesis
      by (simp add: w Ok)
  qed (use w all in \<open>auto simp: wrote_def\<close>)
qed

text \<open>When serialization succeeds the value stands for a tree, whose byte form has been appended.\<close>

lemma Serialize_wrote:
  assumes "wf_heap h" "\<And>b a d. set (rng b a d) \<subseteq> set d"
  shows "n \<le> 2 ^ 40 \<Longrightarrow> wf_val h v \<Longrightarrow> sink_fits n s \<Longrightarrow>
    wrote s (\<lambda>bs. \<exists>t. denotes h v t \<and> bs = tree_bytes t) (Serialize rng n h v s)"
proof (induction n arbitrary: v s)
  case (Suc n)
  let ?B = "\<lambda>bs. \<exists>t. denotes h v t \<and> bs = tree_bytes t"
  obtain b where b: "CircularRefAndDepthDetection (rng (snk_buf s)) h v = Ok b"
    unfolding CircularRefAndDepthDetection_def using circular_total [OF assms(1) _ Suc.prems(2)] assms(2) by blast
  have IH: "wrote s (\<lambda>bs. \<exists>t. denotes h x t \<and> bs = tree_bytes t) (Serialize rng n h x s)"
    if "list_all (wf_val h) xs" "x \<in> set xs" "sink_fits n s" for x s xs
    using Suc.IH [of x s] Suc.prems(1) that by (simp add: list_all_iff)
  have leaf: "wrote s ?B (bind_res (bind_res (WriteByte ty s) (\<lambda>s. bind_res (WriteVarBytes p s) (\<lambda>(_, s'). Ok s'))) check_size)"
    if "AsBytes v = Ok p" "?B (ty # varbytes_enc p)" for ty p
    by (rule wrote_leaf [where B = ?B, OF Suc.prems(3) AsBytes_wf [OF Suc.prems(2) that(1)] that(2)])
  have "wrote s ?B (bind_res (write_value (Serialize rng n h) h v s) check_size)"
  proof (cases v)
    case (VBytes x)
    then show ?thesis
      using leaf [of x bytearrayType] denotes.bytes [of h x] by force
  next
    case (VBool x)
    then show ?thesis
      using wrote_bool [OF Suc.prems(3), where B = ?B] denotes.bool [of h x] by force
  next
    case (VInt i)
    then show ?thesis
      using leaf [of "BigIntToNeoBytes (sint i)" integerType] denotes.int [of h i] by force
  next
    case (VBigInt z)
    then show ?thesis
      using leaf [of "BigIntToNeoBytes z" integerType] denotes.bigint [of h z] by force
  next
    case (VInterop x)
    then show ?thesis
      by (simp add: wrote_def)
  next
    case (VArray a)
    then obtain d where d: "array_at h a = Ok d" "list_all (wf_val h) (elems d)"
      using wf_at(1) [OF assms(1), of a] Suc.prems(2) by auto
    have "wrote s ?B (bind_res (bind_res (WriteByte arrayType s) (\<lambda>s. bind_res (WriteVarUint (of_nat (length (elems d))) s)
        (\<lambda>(_, s'). write_all (Serialize rng n h) (elems d) s'))) check_size)"
      by (rule wrote_node [where B = ?B, OF Suc.prems(3) _ IH [OF d(2)]])
        (use Suc.prems(1) VArray d(1) denotes.array in \<open>auto simp: list_all2_lengthD intro!: exI [of _ "TArray _"]\<close>)
    then show ?thesis
      by (simp add: VArray d)
  next
    case (VStruct a)
    then obtain d where d: "struct_at h a = Ok d" "list_all (wf_val h) (elems d)"
      using wf_at(2) [OF assms(1), of a] Suc.prems(2) by auto
    have "wrote s ?B (bind_res (bind_res (WriteByte structType s) (\<lambda>s. bind_res (WriteVarUint (of_nat (length (elems d))) s)
        (\<lambda>(_, s'). write_all (Serialize rng n h) (elems d) s'))) check_size)"
      by (rule wrote_node [where B = ?B, OF Suc.prems(3) _ IH [OF d(2)]])
        (use Suc.prems(1) VStruct d(1) denotes.struct in \<open>auto simp: list_all2_lengthD intro!: exI [of _ "TStruct _"]\<close>)
    then show ?thesis
      by (simp add: VStruct d)
  next
    case (VMap a)
    then obtain d where d: "map_at h a = Ok d" "list_all (wf_val h) (map_items d)"
      using wf_at(3) [OF assms(1), of a] Suc.prems(2) wf_map_items [of h] by auto
    have len: "length ts div 2 = length d" if "list_all2 (denotes h) (map_items d) ts" for ts
      using list_all2_lengthD [OF that] by simp
    have "wrote s ?B (bind_res (bind_res (WriteByte mapType s) (\<lambda>s. bind_res (WriteVarUint (of_nat (length d)) s)
        (\<lambda>(_, s'). write_all (Serialize rng n h) (map_items d) s'))) check_size)"
      by (rule wrote_node [where B = ?B, OF Suc.prems(3) _ IH [OF d(2)]])
        (use Suc.prems(1) VMap d(1) denotes.map in \<open>auto simp: len intro!: exI [of _ "TMap _"]\<close>)
    then show ?thesis
      by (simp add: VMap d) (unfold write_entries [of "Serialize rng n h"], assumption)
  qed
  then show ?case
    by (simp add: b wrote_def)
qed (simp add: wrote_def)

section \<open>Serialization ends\<close>

text \<open>
  Although only first elements are checked, the recursion ends also on circular values: a chain of first elements is at most
  \<open>MAX_STRUCT_DEPTH\<close> long, each level writes a header, and the size is checked as soon as any value is complete.
\<close>

lemma write_leaf_returns:
  assumes "wf_val h v" "AsBytes v = Ok p" "sink_fits (Suc n) s"
  shows "\<exists>s'. write_value ser h v s = Ok s' \<and> length (snk_buf s) \<le> length (snk_buf s') \<and> length (snk_buf s') \<le> 2 ^ 60"
proof -
  have len: "length p \<le> MAX_BYTEARRAY_SIZE" "length (snk_buf s) \<le> 2 ^ 48" "sink_ok s"
    using AsBytes_wf [OF assms(1,2)] assms(3) by (simp_all add: sink_fits_def)
  have data: "\<exists>s'. bind_res (WriteByte t s) (\<lambda>s. bind_res (WriteVarBytes p s) (\<lambda>(_, s'). Ok s')) = Ok s'
      \<and> length (snk_buf s) \<le> length (snk_buf s') \<and> length (snk_buf s') \<le> 2 ^ 60" for t
  proof -
    obtain s1 k s2 where "WriteByte t s = Ok s1" "WriteVarBytes p s1 = Ok (k, s2)" "snk_buf s2 = snk_buf s @ t # varbytes_enc p"
      using write_leaf [OF assms(3) len(1), of t] by metis
    then show ?thesis
      using len by (simp add: varbytes_enc_def varuint_enc_def MAX_BYTEARRAY_SIZE_def)
  qed
  have bool: "\<exists>s'. bind_res (WriteByte boolType s) (WriteBool x) = Ok s'
      \<and> length (snk_buf s) \<le> length (snk_buf s') \<and> length (snk_buf s') \<le> 2 ^ 60" for x
  proof -
    obtain s1 where s1: "WriteByte boolType s = Ok s1" "snk_buf s1 = snk_buf s @ [boolType]" "sink_ok s1"
      using write_byte [of s boolType] len by (auto simp: sink_max_def)
    then show ?thesis
      using write_byte [of s1 1] write_byte [of s1 0] len by (cases x) (auto simp: WriteBool_def sink_max_def)
  qed
  show ?thesis
    using data bool assms(2) by (cases v) auto
qed

lemma Serialize_grows:
  assumes "wf_heap h" "\<And>b a d. set (rng b a d) \<subseteq> set d" "n \<le> 2 ^ 40" "wf_val h v" "sink_fits n s" "Serialize rng n h v s = Ok s'"
  shows "sink_fits n s'" "length (snk_buf s) \<le> length (snk_buf s')" "length (snk_buf s') \<le> MAX_BYTEARRAY_SIZE"
proof -
  have "wrote s (\<lambda>bs. \<exists>t. denotes h v t \<and> bs = tree_bytes t) (Ok s')"
    using Serialize_wrote [where rng = rng, OF assms(1,2,3,4,5)] assms(6) by simp
  then show "sink_fits n s'" "length (snk_buf s) \<le> length (snk_buf s')" "length (snk_buf s') \<le> MAX_BYTEARRAY_SIZE"
    using assms(3) by (auto simp: wrote_def sink_fits_def MAX_BYTEARRAY_SIZE_def)
qed

lemma write_all_returns:
  assumes "\<And>x s'. x \<in> set xs \<Longrightarrow> sink_fits n s' \<Longrightarrow> length (snk_buf s) \<le> length (snk_buf s') \<Longrightarrow>
      w x s' \<noteq> Diverge \<and> (\<forall>s''. w x s' = Ok s'' \<longrightarrow> sink_fits n s'' \<and> length (snk_buf s') \<le> length (snk_buf s''))"
    and "sink_fits n s"
  shows "write_all w xs s \<noteq> Diverge"
  using assms
proof (induction xs arbitrary: s)
  case (Cons x xs)
  show ?case
  proof (cases "w x s")
    case (Ok s1)
    then have s1: "sink_fits n s1" "length (snk_buf s) \<le> length (snk_buf s1)"
      using Cons.prems(1) [of x s] Cons.prems(2) by simp_all
    have "write_all w xs s1 \<noteq> Diverge"
      by (rule Cons.IH) (use Cons.prems(1) s1 in \<open>auto intro: order_trans\<close>)
    then show ?thesis
      by (simp add: Ok)
  qed (use Cons.prems(1) [of x s] Cons.prems(2) in simp_all)
qed simp

text \<open>The values that are written below a value, in their order.\<close>

definition kids :: "heap \<Rightarrow> VmValue \<Rightarrow> VmValue list" where
  "kids h v = (case v of
     VArray a \<Rightarrow> (case array_at h a of Ok d \<Rightarrow> elems d | _ \<Rightarrow> [])
   | VStruct a \<Rightarrow> (case struct_at h a of Ok d \<Rightarrow> elems d | _ \<Rightarrow> [])
   | VMap a \<Rightarrow> (case map_at h a of Ok d \<Rightarrow> map_items d | _ \<Rightarrow> [])
   | _ \<Rightarrow> [])"

lemma wf_kids:
  assumes "wf_heap h" "wf_val h v"
  shows "list_all (wf_val h) (kids h v)"
proof (cases v)
  case (VArray a)
  then show ?thesis
    using wf_at(1) [OF assms(1), of a] assms(2) by (auto simp: kids_def)
next
  case (VStruct a)
  then show ?thesis
    using wf_at(2) [OF assms(1), of a] assms(2) by (auto simp: kids_def)
next
  case (VMap a)
  then obtain d where "map_at h a = Ok d" "wf_obj h (MapValue d)"
    using wf_at(3) [OF assms(1), of a] assms(2) by blast
  then show ?thesis
    using wf_map_items [of h d] VMap by (simp add: kids_def)
qed (simp_all add: kids_def)

lemma write_value_returns:
  assumes "wf_heap h" "wf_val h v" "sink_fits (Suc n) s"
    and "\<And>s'. sink_fits n s' \<Longrightarrow> length (snk_buf s) + 2 \<le> length (snk_buf s') \<Longrightarrow> write_all ser (kids h v) s' \<noteq> Diverge"
  shows "write_value ser h v s \<noteq> Diverge"
proof -
  have node: "bind_res (WriteByte ty s) (\<lambda>s. bind_res (WriteVarUint l s) (\<lambda>(_, s'). write_all ser (kids h v) s')) \<noteq> Diverge" for ty l
  proof -
    obtain s1 k s2 where "WriteByte ty s = Ok s1" "WriteVarUint l s1 = Ok (k, s2)" "sink_fits n s2" "length (snk_buf s) + 2 \<le> length (snk_buf s2)"
      using write_header [OF assms(3)] by blast
    then show ?thesis
      using assms(4) by simp
  qed
  show ?thesis
  proof (cases "\<exists>p. AsBytes v = Ok p")
    case True
    then obtain p where "AsBytes v = Ok p"
      by blast
    from write_leaf_returns [OF assms(2) this assms(3), of ser] show ?thesis
      by auto
  next
    case False
    then show ?thesis
    proof (cases v)
      case (VArray a)
      then show ?thesis
        using wf_at(1) [OF assms(1), of a] assms(2) node by (auto simp: kids_def)
    next
      case (VStruct a)
      then show ?thesis
        using wf_at(2) [OF assms(1), of a] assms(2) node by (auto simp: kids_def)
    next
      case (VMap a)
      then obtain d where d: "map_at h a = Ok d"
        using wf_at(3) [OF assms(1), of a] assms(2) by blast
      from node [of mapType "of_nat (length d)"] show ?thesis
        by (simp add: VMap d kids_def) (unfold write_entries [of ser], assumption)
    qed auto
  qed
qed

lemma kids_first:
  assumes "wf_heap h" "\<And>a d. set (rng a d) = set d" "wf_val h v" "kids h v = x # r"
    and "circularRefAndDepthDetection rng h (Suc left) visited v = Ok False"
  shows "\<exists>visited'. circularRefAndDepthDetection rng h left visited' x = Ok False"
proof (cases v)
  case (VArray a)
  then show ?thesis
    using assms wf_at(1) [OF assms(1), of a] by (auto simp: kids_def split: if_splits list.splits)
next
  case (VStruct a)
  then show ?thesis
    using assms wf_at(2) [OF assms(1), of a] by (auto simp: kids_def split: if_splits list.splits)
next
  case (VMap a)
  then obtain d where d: "map_at h a = Ok d" "wf_obj h (MapValue d)"
    using wf_at(3) [OF assms(1), of a] assms(3) by blast
  then have items: "map_items d = x # r"
    using assms(4) VMap by (simp add: kids_def)
  then obtain k where k: "k \<in> set (getMapSortedKey d)" "x = fst (the (map_of d k))"
    by (cases "getMapSortedKey d") (auto simp: map_items_def)
  then obtain p where "map_of d k = Some p"
    by (cases "map_of d k") (auto simp: getMapSortedKey_def map_of_eq_None_iff)
  then have "AsBytes x = Ok k"
    using map_of_SomeD [of d k p] d(2) k(2) by (force simp: list_all_iff)
  moreover have "rng a d \<noteq> []"
    using items assms(2) [of a d] by (auto simp: map_items_def getMapSortedKey_def)
  then have "left \<noteq> 0"
    using assms(5) VMap d(1) by (cases left) (auto split: if_splits list.splits)
  ultimately show ?thesis
    by (cases left; cases x) auto
qed (use assms(4) in \<open>simp_all add: kids_def\<close>)

lemma Serialize_over:
  assumes "wf_heap h" "\<And>b a d. set (rng b a d) = set d" "\<And>a d. set (q a d) = set d"
  shows "left \<le> n \<Longrightarrow> n \<le> 2 ^ 40 \<Longrightarrow> wf_val h v \<Longrightarrow> sink_fits n s \<Longrightarrow> MAX_BYTEARRAY_SIZE < length (snk_buf s) \<Longrightarrow>
    circularRefAndDepthDetection q h left visited v = Ok False \<Longrightarrow> Serialize rng n h v s \<noteq> Diverge"
proof (induction left arbitrary: n v visited s)
  case (Suc left)
  then obtain m where m: "n = Suc m" "left \<le> m"
    by (cases n) auto
  obtain b where b: "CircularRefAndDepthDetection (rng (snk_buf s)) h v = Ok b"
    unfolding CircularRefAndDepthDetection_def using circular_total [OF assms(1) _ Suc.prems(3)] assms(2) by blast
  have "write_value (Serialize rng m h) h v s \<noteq> Diverge"
  proof (rule write_value_returns [OF assms(1) Suc.prems(3)])
    show "sink_fits (Suc m) s"
      using Suc.prems(4) m by simp
    fix s'
    assume s': "sink_fits m s'" "length (snk_buf s) + 2 \<le> length (snk_buf s')"
    show "write_all (Serialize rng m h) (kids h v) s' \<noteq> Diverge"
    proof (cases "kids h v")
      case (Cons x r)
      then have x: "wf_val h x"
        using wf_kids [OF assms(1) Suc.prems(3)] by simp
      obtain vis where "circularRefAndDepthDetection q h left vis x = Ok False"
        using kids_first [OF assms(1,3) Suc.prems(3) Cons Suc.prems(6)] by blast
      then have "Serialize rng m h x s' \<noteq> Diverge"
        using Suc.prems(2,5) m x s' by (intro Suc.IH) auto
      moreover have "Serialize rng m h x s' \<noteq> Ok s''" for s''
        using Serialize_grows [OF assms(1) _ _ x s'(1), of rng s''] assms(2) Suc.prems(2,5) m s'(2) by auto
      ultimately show ?thesis
        by (cases "Serialize rng m h x s'") (auto simp: Cons)
    qed simp
  qed
  then show ?case
    using b m by (cases "write_value (Serialize rng m h) h v s") (auto simp: check_size_def)
qed simp

definition serialize_depth :: nat where
  "serialize_depth = MAX_BYTEARRAY_SIZE + 13"

lemma Serialize_returns:
  assumes "wf_heap h" "\<And>b a d. set (rng b a d) = set d"
  shows "n \<le> 2 ^ 40 \<Longrightarrow> wf_val h v \<Longrightarrow> sink_fits n s \<Longrightarrow>
    12 \<le> n \<Longrightarrow> length (snk_buf s) \<le> MAX_BYTEARRAY_SIZE \<longrightarrow> serialize_depth \<le> n + length (snk_buf s) \<Longrightarrow> Serialize rng n h v s \<noteq> Diverge"
proof (induction n arbitrary: v s)
  case (Suc n)
  obtain b where b: "CircularRefAndDepthDetection (rng (snk_buf s)) h v = Ok b"
    unfolding CircularRefAndDepthDetection_def using circular_total [OF assms(1) _ Suc.prems(2)] assms(2) by blast
  show ?case
  proof (cases "b \<or> MAX_BYTEARRAY_SIZE < length (snk_buf s)")
    case True
    then show ?thesis
      using b Suc.prems Serialize_over [where rng = rng and q = "rng (snk_buf s)" and left = "MAX_STRUCT_DEPTH + 1" and n = "Suc n" and v = v and s = s, OF assms(1,2,2)]
      by (cases b) (auto simp: CircularRefAndDepthDetection_def MAX_STRUCT_DEPTH_def)
  next
    case False
    have "write_value (Serialize rng n h) h v s \<noteq> Diverge"
    proof (rule write_value_returns [OF assms(1) Suc.prems(2,3)])
      fix s'
      assume s': "sink_fits n s'" "length (snk_buf s) + 2 \<le> length (snk_buf s')"
      show "write_all (Serialize rng n h) (kids h v) s' \<noteq> Diverge"
      proof (rule write_all_returns [OF _ s'(1)])
        fix x u
        assume x: "x \<in> set (kids h v)" and u: "sink_fits n u" "length (snk_buf s') \<le> length (snk_buf u)"
        have wf: "wf_val h x"
          using wf_kids [OF assms(1) Suc.prems(2)] x by (simp add: list_all_iff)
        have "Serialize rng n h x u \<noteq> Diverge"
          using Suc.prems(1,4,5) False s'(2) u wf by (intro Suc.IH) (auto simp: serialize_depth_def)
        then show "Serialize rng n h x u \<noteq> Diverge \<and>
            (\<forall>s''. Serialize rng n h x u = Ok s'' \<longrightarrow> sink_fits n s'' \<and> length (snk_buf u) \<le> length (snk_buf s''))"
          using Serialize_grows [OF assms(1) _ _ wf u(1), of rng] assms(2) Suc.prems(1) by auto
      qed
    qed
    then show ?thesis
      using b False by (cases "write_value (Serialize rng n h) h v s") (auto simp: check_size_def)
  qed
qed simp

text \<open>A greater depth does not change an outcome.\<close>

lemma write_all_mono:
  assumes "\<And>x s. f x s \<noteq> Diverge \<Longrightarrow> g x s = f x s"
  shows "write_all f xs s \<noteq> Diverge \<Longrightarrow> write_all g xs s = write_all f xs s"
proof (induction xs arbitrary: s)
  case (Cons x xs)
  then show ?case
    using assms [of x s] by (cases "f x s") auto
qed simp

lemma bind_res_mono:
  assumes "bind_res m f \<noteq> Diverge" "\<And>x. m = Ok x \<Longrightarrow> f x \<noteq> Diverge \<Longrightarrow> g x = f x"
  shows "bind_res m g = bind_res m f"
  using assms by (cases m) auto

lemma write_value_mono:
  assumes ser: "\<And>x s. f x s \<noteq> Diverge \<Longrightarrow> g x s = f x s" and "write_value f h v s \<noteq> Diverge"
  shows "write_value g h v s = write_value f h v s"
proof -
  have pair: "bind_res (g x s) (g y) = bind_res (f x s) (f y)" if "bind_res (f x s) (f y) \<noteq> Diverge" for x y s
    using that ser [of x s] ser [of y] by (cases "f x s") auto
  show ?thesis
  proof (cases v)
    case (VMap a)
    then show ?thesis
      using assms(2) unfolding VMap write_value.simps
      by (intro bind_res_mono) (auto intro!: write_all_mono pair)
  next
    case (VArray a)
    then show ?thesis
      using assms(2) unfolding VArray write_value.simps
      by (intro bind_res_mono) (auto intro!: write_all_mono ser)
  next
    case (VStruct a)
    then show ?thesis
      using assms(2) unfolding VStruct write_value.simps
      by (intro bind_res_mono) (auto intro!: write_all_mono ser)
  qed simp_all
qed

lemma Serialize_mono:
  "Serialize rng n h v s \<noteq> Diverge \<Longrightarrow> n \<le> m \<Longrightarrow> Serialize rng m h v s = Serialize rng n h v s"
proof (induction n arbitrary: m v s)
  case (Suc n)
  then obtain k where m: "m = Suc k" "n \<le> k"
    by (cases m) auto
  have ser: "Serialize rng n h x s \<noteq> Diverge \<Longrightarrow> Serialize rng k h x s = Serialize rng n h x s" for x s
    using Suc.IH m(2) by blast
  show ?case
    unfolding m Serialize.simps
  proof (rule bind_res_mono)
    show "bind_res (CircularRefAndDepthDetection (rng (snk_buf s)) h v) (\<lambda>b. if b then Err ''runtime serialize: can not serialize circular reference data''
        else bind_res (write_value (Serialize rng n h) h v s) check_size) \<noteq> Diverge"
      using Suc.prems(1) by simp
    fix b
    assume "(if b then Err ''runtime serialize: can not serialize circular reference data''
        else bind_res (write_value (Serialize rng n h) h v s) check_size) \<noteq> Diverge"
    then show "(if b then Err ''runtime serialize: can not serialize circular reference data''
        else bind_res (write_value (Serialize rng k h) h v s) check_size) =
      (if b then Err ''runtime serialize: can not serialize circular reference data''
        else bind_res (write_value (Serialize rng n h) h v s) check_size)"
      using write_value_mono [OF ser, where h = h and v = v and s = s] by (cases "write_value (Serialize rng n h) h v s") auto
  qed
qed simp

text \<open>
  C6. \<open>Serialize\<close> returns on every well-formed value, circular ones included, without a panic, although its check for circular references
  looks only at first elements: recursion to depth \<open>serialize_depth\<close> is enough, and a greater bound on the depth makes no difference. It
  succeeds only on values that stand for a finite tree; the bytes it writes are the byte form of that tree, at most 1 MiB.
\<close>

theorem serialize_returns:
  assumes "wf_heap h" "wf_val h v" "\<forall>b a d. set (rng b a d) = set d" "serialize_depth \<le> n"
  shows "Serialize rng n h v EmptySink = Serialize rng serialize_depth h v EmptySink \<and>
    ((\<exists>e. Serialize rng n h v EmptySink = Err e) \<or>
     (\<exists>s t. Serialize rng n h v EmptySink = Ok s \<and> denotes h v t \<and> snk_Bytes s = tree_bytes t \<and> length (snk_Bytes s) \<le> MAX_BYTEARRAY_SIZE))"
proof -
  have fits: "sink_fits serialize_depth EmptySink" "serialize_depth \<le> 2 ^ 40" "12 \<le> serialize_depth"
    by (simp_all add: sink_fits_def serialize_depth_def MAX_BYTEARRAY_SIZE_def)
  have ret: "Serialize rng serialize_depth h v EmptySink \<noteq> Diverge"
    by (rule Serialize_returns) (use assms fits in auto)
  have "wrote EmptySink (\<lambda>bs. \<exists>t. denotes h v t \<and> bs = tree_bytes t) (Serialize rng serialize_depth h v EmptySink)"
    by (rule Serialize_wrote) (use assms fits in auto)
  then show ?thesis
    using Serialize_mono [OF ret assms(4)] ret
    by (cases "Serialize rng serialize_depth h v EmptySink") (auto simp: wrote_def snk_Bytes_def)
qed

text \<open>An array whose second element is the array itself passes the check and is refused only for its length.\<close>

theorem serialize_returns_witness:
  "CircularRefAndDepthDetection (\<lambda>_ d. d) [ArrayValue (Slice [VBool False, VArray 0])] (VArray 0) = Ok False \<and>
   (\<exists>e. Serialize (\<lambda>_ _ d. d) serialize_depth [ArrayValue (Slice [VBool False, VArray 0])] (VArray 0) EmptySink = Err e)"
proof -
  let ?h = "[ArrayValue (Slice [VBool False, VArray 0])]"
  have wf: "wf_heap ?h" "wf_val ?h (VArray 0)"
    by (simp_all add: wf_heap_def MAX_ARRAY_SIZE_def)
  have "n \<le> size t" if "denotes ?h (VArray 0) t" for t n
    using that
  proof (induction n arbitrary: t)
    case (Suc n)
    from Suc.prems show ?case
    proof (cases rule: denotes.cases)
      case (array s ts)
      then obtain t1 t2 where "ts = [t1, t2]" "denotes ?h (VArray 0) t2"
        by (auto simp: array_at_def list_all2_Cons1)
      with Suc.IH [of t2] array show ?thesis
        by auto
    qed
  qed simp
  then have "\<not> denotes ?h (VArray 0) t" for t
    by (meson Suc_n_not_le_n)
  moreover have "CircularRefAndDepthDetection (\<lambda>_ d. d) ?h (VArray 0) = Ok False"
    by (simp add: CircularRefAndDepthDetection_def array_at_def MAX_STRUCT_DEPTH_def numeral_eq_Suc)
  ultimately show ?thesis
    using serialize_returns [OF wf, of "\<lambda>_ _ d. d" serialize_depth] by blast
qed

end
