(* ===== verification/NeoDeserialize.thy ===== *)
theory NeoDeserialize
  imports NeoSerialize
begin

text \<open>
  Reading NeoVM values back, \<open>Deserialize\<close> of \<open>src/vm/neovm/types/neovm_value.go\<close>: it is safe on arbitrary bytes, and it inverts \<open>Serialize\<close>,
  which succeeds on every value that is not too deep or too large.
\<close>

section \<open>Reading arbitrary bytes\<close>

text \<open>\<open>rsafe Q r\<close>: the outcome of a reader on a heap is an error, or a well-formed heap that extends the old one.\<close>

definition rsafe :: "heap \<Rightarrow> (heap \<Rightarrow> 'a \<Rightarrow> bool) \<Rightarrow> ('a \<times> ZeroCopySource \<times> heap) res \<Rightarrow> bool" where
  "rsafe h Q r \<longleftrightarrow> (case r of Ok (v, s, h') \<Rightarrow> wf_src s \<and> wf_heap h' \<and> extends h h' \<and> Q h' v | Err _ \<Rightarrow> True | _ \<Rightarrow> False)"

lemma rsafe_bind:
  assumes "rsafe h P m" "\<And>v s h'. wf_src s \<Longrightarrow> wf_heap h' \<Longrightarrow> extends h h' \<Longrightarrow> P h' v \<Longrightarrow> rsafe h' Q (f (v, s, h'))"
  shows "rsafe h Q (bind_res m f)"
proof (cases m)
  case (Ok x)
  obtain v s h' where x: "x = (v, s, h')"
    by (cases x)
  then have "rsafe h' Q (f x)" "extends h h'"
    using assms Ok by (auto simp: rsafe_def)
  then show ?thesis
    using Ok by (auto simp: rsafe_def split: res.splits intro: extends_trans)
qed (use assms(1) in \<open>simp_all add: rsafe_def\<close>)

lemma rsafe_source:
  assumes "reader rd" "wf_src s" "\<And>v s'. wf_src s' \<Longrightarrow> rsafe h Q (f (v, s'))"
  shows "rsafe h Q (bind_res (rd s) f)"
  using reader.safe [OF assms(1,2), unfolded reads_safely_def] assms(3) by auto

lemma rsafe_heap:
  assumes "heap_safe h r" "\<And>h'. wf_heap h' \<Longrightarrow> extends h h' \<Longrightarrow> rsafe h' Q (f h')"
  shows "rsafe h Q (bind_res r f)"
  using assms(1)
proof (cases r)
  case (Ok h')
  then have "wf_heap h'" "extends h h'"
    using assms(1) by (simp_all add: heap_safe_def)
  then show ?thesis
    using assms(2) [of h'] Ok by (auto simp: rsafe_def split: res.splits intro: extends_trans)
qed (simp_all add: heap_safe_def rsafe_def)

lemma read_elements_safe:
  assumes rd: "\<And>s h. wf_src s \<Longrightarrow> wf_heap h \<Longrightarrow> rsafe h wf_val (rd s h)"
    and app: "\<And>h' v. wf_heap h' \<Longrightarrow> extends h h' \<Longrightarrow> wf_val h' v \<Longrightarrow> heap_safe h' (app v h')"
  shows "wf_src s \<Longrightarrow> wf_heap h' \<Longrightarrow> extends h h' \<Longrightarrow> rsafe h' (\<lambda>_ _. True) (read_elements rd app n s h')"
proof (induction n arbitrary: s h')
  case (Suc n)
  show ?case
    unfolding read_elements.simps
    by (intro rsafe_bind [OF rd] Suc.prems, clarify, intro rsafe_heap app Suc.IH)
      (assumption | meson extends_trans [OF Suc.prems(3)] extends_trans)+
qed (simp add: rsafe_def)

lemma read_entries_safe:
  assumes rd: "\<And>s h. wf_src s \<Longrightarrow> wf_heap h \<Longrightarrow> rsafe h wf_val (rd s h)"
  shows "wf_src s \<Longrightarrow> wf_heap h \<Longrightarrow> wf_val h (VMap m) \<Longrightarrow> rsafe h (\<lambda>_ _. True) (read_entries rd m n s h)"
proof (induction n arbitrary: s h)
  case (Suc n)
  show ?case
    unfolding read_entries.simps
  proof (intro rsafe_bind [OF rd] Suc.prems, clarify, intro rsafe_bind [OF rd], assumption+, clarify)
    fix k s1 h1 v s2 h2
    assume h: "wf_heap h1" "extends h h1" "wf_val h1 k" "wf_src s2" "wf_heap h2" "extends h1 h2" "wf_val h2 v"
    have "wf_val h2 (VMap m)" "wf_val h2 k"
      using Suc.prems(3) h by (meson wf_val_extends)+
    then show "rsafe h2 (\<lambda>_ _. True) (bind_res (map_Set m k v h2) (\<lambda>h3. read_entries rd m n s2 h3))"
      using h by (intro rsafe_heap map_Set_safe Suc.IH) (assumption | erule (1) wf_val_extends)+
  qed
qed (simp add: rsafe_def)

lemma rsafe_lens:
  assumes "wf_src s" "\<And>v s'. wf_src s' \<Longrightarrow> rsafe h Q (f (v, s'))"
  shows "rsafe h Q (bind_res (read_len s) f)"
  unfolding read_len_def bind_res_assoc
  by (rule rsafe_source [OF reader_NextVarUint assms(1)]) (auto simp: rsafe_def intro!: assms(2) [unfolded rsafe_def])

lemma rsafe_datas:
  assumes "wf_src s" "\<And>v s'. wf_src s' \<Longrightarrow> rsafe h Q (f (v, s'))"
  shows "rsafe h Q (bind_res (read_data s) f)"
  unfolding read_data_def bind_res_assoc
  by (rule rsafe_source [OF reader_NextVarBytes assms(1)]) (auto simp: rsafe_def intro!: assms(2) [unfolded rsafe_def])

lemma wf_VBool [simp]: "wf_val h (VmValueFromBool b)"
  by (simp add: VmValueFromBool_def)

lemma rsafe_if: "rsafe h Q r \<Longrightarrow> rsafe h Q r' \<Longrightarrow> rsafe h Q (if b then r else r')"
  by simp

lemma rsafe_Err: "rsafe h Q (Err e)"
  by (simp add: rsafe_def)

lemma rsafe_ok: "wf_src s \<Longrightarrow> wf_heap h \<Longrightarrow> (\<And>v. r = Ok v \<Longrightarrow> wf_val h v) \<Longrightarrow> (\<exists>v. r = Ok v) \<or> (\<exists>e. r = Err e) \<Longrightarrow>
    rsafe h wf_val (bind_res r (\<lambda>v. Ok (v, s, h)))"
  by (auto simp: rsafe_def)

lemma rsafe_object:
  assumes "wf_heap (h @ [obj])" "wf_val (h @ [obj]) v" "rsafe (h @ [obj]) (\<lambda>_ _. True) r"
  shows "rsafe h wf_val (bind_res r (\<lambda>(_, s, h'). Ok (v, s, h')))"
proof (cases r)
  case (Ok x)
  then show ?thesis
    using assms(3) wf_val_extends [OF assms(2)] extends_trans [OF extends_snoc, of h obj] by (cases x) (auto simp: rsafe_def)
qed (use assms(3) in \<open>simp_all add: rsafe_def\<close>)

lemma deserialize_rsafe: "wf_src s \<Longrightarrow> wf_heap h \<Longrightarrow> rsafe h wf_val (deserialize left s h)"
proof (induction left arbitrary: s h)
  case (Suc left)
  have bytes: "rsafe h wf_val (bind_res (VmValueFromBytes d) (\<lambda>v. Ok (v, s', h)))" if "wf_src s'" for d s'
    using that Suc.prems(2) by (intro rsafe_ok) (auto simp: VmValueFromBytes_def split: if_splits)
  have ints: "rsafe h wf_val (bind_res (VmValueFromBigInt z) (\<lambda>v. Ok (v, s', h)))" if "wf_src s'" for z s'
    using that Suc.prems(2)
    by (intro rsafe_ok) (auto simp: VmValueFromBigInt_def IntValFromBigInt_eq checked_def intro!: wf_int_value split: if_splits)
  have arrays: "rsafe h wf_val (case new_ArrayValue h of (a, h1) \<Rightarrow>
      bind_res (read_elements (deserialize left) (arr_Append a) n s' h1) (\<lambda>(_, s3, h2). Ok (VmValueFromArrayVal a, s3, h2)))"
    if "wf_src s'" for n s'
  proof -
    have h1: "wf_heap (h @ [ArrayValue NilSlice])" "wf_val (h @ [ArrayValue NilSlice]) (VArray (length h))"
      using Suc.prems(2) by (simp_all add: wf_heap_snoc)
    show ?thesis
      unfolding new_ArrayValue_def VmValueFromArrayVal_def prod.case
      by (rule rsafe_object [OF h1], rule read_elements_safe [OF Suc.IH])
        (use h1 that in \<open>auto intro!: arr_Append_safe intro: wf_val_extends simp del: wf_val.simps\<close>)
  qed
  have structs: "rsafe h wf_val (case NewStructValue h of (a, h1) \<Rightarrow>
      bind_res (read_elements (deserialize left) (struct_Append a) n s' h1) (\<lambda>(_, s3, h2). Ok (VmValueFromStructVal a, s3, h2)))"
    if "wf_src s'" for n s'
  proof -
    have h1: "wf_heap (h @ [StructValue (Slice [])])" "wf_val (h @ [StructValue (Slice [])]) (VStruct (length h))"
      using Suc.prems(2) by (simp_all add: wf_heap_snoc)
    show ?thesis
      unfolding NewStructValue_def VmValueFromStructVal_def prod.case
      by (rule rsafe_object [OF h1], rule read_elements_safe [OF Suc.IH])
        (use h1 that in \<open>auto intro!: struct_Append_safe intro: wf_val_extends simp del: wf_val.simps\<close>)
  qed
  have maps: "rsafe h wf_val (case NewMapValue h of (a, h1) \<Rightarrow>
      bind_res (read_entries (deserialize left) a n s' h1) (\<lambda>(_, s3, h2). Ok (VmValueFromMapValue a, s3, h2)))"
    if "wf_src s'" for n s'
  proof -
    have h1: "wf_heap (h @ [MapValue []])" "wf_val (h @ [MapValue []]) (VMap (length h))"
      using Suc.prems(2) by (simp_all add: wf_heap_snoc)
    show ?thesis
      unfolding NewMapValue_def VmValueFromMapValue_def prod.case
      by (rule rsafe_object [OF h1], rule read_entries_safe [OF Suc.IH that h1])
  qed
  have bools: "rsafe h wf_val (bind_res (NextBool s') (\<lambda>((b, irregular, eof), s2).
           if eof then Err ErrUnexpectedEOF else if irregular then Err ErrIrregularData
           else Ok (VmValueFromBool b, s2, h)))" if "wf_src s'" for s'
    by (rule rsafe_source [OF reader_NextBool that]) (auto simp: rsafe_def Suc.prems(2))
  show ?case
    unfolding deserialize.simps
  proof (rule rsafe_source [OF reader_NextByte Suc.prems(1)], clarify)
    fix t eof s1
    assume "wf_src s1"
    then show "rsafe h wf_val
       (if eof then Err ErrUnexpectedEOF
       else if t = boolType then
         bind_res (NextBool s1) (\<lambda>((b, irregular, eof), s2).
           if eof then Err ErrUnexpectedEOF else if irregular then Err ErrIrregularData else Ok (VmValueFromBool b, s2, h))
       else if t = bytearrayType then
         bind_res (read_data s1) (\<lambda>(data, s2). bind_res (VmValueFromBytes data) (\<lambda>value. Ok (value, s2, h)))
       else if t = integerType then
         bind_res (read_data s1) (\<lambda>(data, s2). bind_res (VmValueFromBigInt (BigIntFromNeoBytes data)) (\<lambda>value. Ok (value, s2, h)))
       else if t = arrayType then
         bind_res (read_len s1) (\<lambda>(l, s2). case new_ArrayValue h of (arr, h1) \<Rightarrow>
           bind_res (read_elements (deserialize left) (arr_Append arr) l s2 h1) (\<lambda>(_, s3, h2). Ok (VmValueFromArrayVal arr, s3, h2)))
       else if t = mapType then
         bind_res (read_len s1) (\<lambda>(l, s2). case NewMapValue h of (mapValue, h1) \<Rightarrow>
           bind_res (read_entries (deserialize left) mapValue l s2 h1) (\<lambda>(_, s3, h2). Ok (VmValueFromMapValue mapValue, s3, h2)))
       else if t = structType then
         bind_res (read_len s1) (\<lambda>(l, s2). case NewStructValue h of (structValue, h1) \<Rightarrow>
           bind_res (read_elements (deserialize left) (struct_Append structValue) l s2 h1) (\<lambda>(_, s3, h2). Ok (VmValueFromStructVal structValue, s3, h2)))
       else Err ERR_BAD_TYPE)"
      by (intro rsafe_if rsafe_Err bools rsafe_lens rsafe_datas, unfold prod.case)
        (assumption | erule bytes | erule ints | erule arrays | erule maps | erule structs)+
  qed
qed (simp add: rsafe_def)

section \<open>Reading the byte form of a tree\<close>

text \<open>Trees within the limits of the machine. The keys of a map are leaves, in the order of their bytes.\<close>

fun leaf_bytes :: "vtree \<Rightarrow> bytes option" where
  "leaf_bytes (TBytes b) = Some b"
| "leaf_bytes (TBool b) = Some [if b then 1 else 0]"
| "leaf_bytes (TInt z) = Some (BigIntToNeoBytes z)"
| "leaf_bytes _ = None"

fun pairs :: "'a list \<Rightarrow> ('a \<times> 'a) list" where
  "pairs (x # y # r) = (x, y) # pairs r"
| "pairs _ = []"

definition flat :: "('a \<times> 'a) list \<Rightarrow> 'a list" where
  "flat ps = concat (map (\<lambda>(x, y). [x, y]) ps)"

lemma flat_simps [simp]: "flat [] = []" "flat ((x, y) # ps) = x # y # flat ps" "flat (ps @ qs) = flat ps @ flat qs"
  by (simp_all add: flat_def)

lemma pairs_flat [simp]: "pairs (flat ps) = ps"
  by (induction ps) auto

lemma length_flat [simp]: "length (flat ps) = 2 * length ps"
  by (induction ps) auto

lemma flat_pairs: "even (length ts) \<Longrightarrow> flat (pairs ts) = ts"
  by (induction ts rule: pairs.induct) auto

fun tree_ok :: "vtree \<Rightarrow> bool" where
  "tree_ok (TBytes b) \<longleftrightarrow> length b \<le> MAX_BYTEARRAY_SIZE"
| "tree_ok (TBool b) \<longleftrightarrow> True"
| "tree_ok (TInt z) \<longleftrightarrow> \<bar>z\<bar> < 2 ^ 256"
| "tree_ok (TArray ts) \<longleftrightarrow> length ts \<le> MAX_ARRAY_SIZE \<and> (\<forall>t \<in> set ts. tree_ok t)"
| "tree_ok (TStruct ts) \<longleftrightarrow> length ts \<le> MAX_ARRAY_SIZE \<and> (\<forall>t \<in> set ts. tree_ok t)"
| "tree_ok (TMap ts) \<longleftrightarrow> even (length ts) \<and> (\<forall>p \<in> set (pairs ts). leaf_bytes (fst p) \<noteq> None)
     \<and> sorted_wrt (<) (map (\<lambda>p. the (leaf_bytes (fst p))) (pairs ts)) \<and> (\<forall>t \<in> set ts. tree_ok t)"

text \<open>\<open>levels n t\<close>: the tree has at most \<open>n\<close> levels.\<close>

fun levels :: "nat \<Rightarrow> vtree \<Rightarrow> bool" where
  "levels 0 t \<longleftrightarrow> False"
| "levels (Suc n) (TArray ts) \<longleftrightarrow> (\<forall>t \<in> set ts. levels n t)"
| "levels (Suc n) (TStruct ts) \<longleftrightarrow> (\<forall>t \<in> set ts. levels n t)"
| "levels (Suc n) (TMap ts) \<longleftrightarrow> (\<forall>t \<in> set ts. levels n t)"
| "levels (Suc n) _ \<longleftrightarrow> True"

text \<open>\<open>agrees n H g\<close>: the heap \<open>g\<close> has the objects of \<open>H\<close> from the address \<open>n\<close> on.\<close>

definition agrees :: "nat \<Rightarrow> heap \<Rightarrow> heap \<Rightarrow> bool" where
  "agrees n H g \<longleftrightarrow> length H \<le> length g \<and> (\<forall>i. n \<le> i \<and> i < length H \<longrightarrow> g ! i = H ! i)"

definition read_tree :: "heap \<Rightarrow> VmValue \<Rightarrow> heap \<Rightarrow> vtree \<Rightarrow> bool" where
  "read_tree h v H t \<longleftrightarrow> (\<forall>g. agrees (length h) H g \<longrightarrow> denotes g v t)"

lemma agrees_append: "agrees n (H @ E) g \<Longrightarrow> agrees n H g"
  by (auto simp: agrees_def nth_append)

lemma agrees_le: "agrees n H g \<Longrightarrow> n \<le> m \<Longrightarrow> agrees m H g"
  by (auto simp: agrees_def)

lemma denotes_leaf: "denotes g v t \<Longrightarrow> leaf_bytes t = Some b \<Longrightarrow> AsBytes v = Ok b"
  by (cases rule: denotes.cases) auto

lemma tree_bytes_nonempty: "tree_bytes t \<noteq> []"
  by (cases t) auto

lemma length_trees: "length ts \<le> length (concat (map tree_bytes ts))"
proof (induction ts)
  case (Cons t ts)
  then show ?case
    using tree_bytes_nonempty [of t] by (cases "tree_bytes t") auto
qed simp

text \<open>
  \<open>kept h E v t\<close>: while an object at the address \<open>length h\<close> is being filled, \<open>v\<close> stands for \<open>t\<close>, whatever the object holds.
\<close>

definition kept :: "heap \<Rightarrow> heap \<Rightarrow> VmValue \<Rightarrow> vtree \<Rightarrow> bool" where
  "kept h E v t \<longleftrightarrow> (\<forall>g. agrees (Suc (length h)) (h @ MapValue [] # E) g \<longrightarrow> denotes g v t)"

lemma agrees_tail:
  "agrees (Suc (length h)) (h @ x # E) g \<longleftrightarrow> Suc (length h) + length E \<le> length g \<and> (\<forall>j < length E. g ! (Suc (length h) + j) = E ! j)"
proof -
  have "(h @ x # E) ! (Suc (length h) + j) = E ! j" for j
    by (simp add: nth_append)
  moreover have "\<exists>j. i = Suc (length h) + j" if "Suc (length h) \<le> i" for i
    using that le_Suc_ex by blast
  ultimately show ?thesis
    unfolding agrees_def by (auto, metis add_Suc nat_add_left_cancel_less)
qed

lemma agrees_hole: "agrees (Suc (length h)) (h @ x # E) g \<longleftrightarrow> agrees (Suc (length h)) (h @ y # E) g"
  by (simp add: agrees_tail)

lemma kept_mono: "kept h E v t \<Longrightarrow> kept h (E @ E') v t"
  using agrees_append [of "Suc (length h)" "h @ MapValue [] # E" E'] by (simp add: kept_def)

lemma kept_all_mono: "list_all2 (kept h E) vs ts \<Longrightarrow> list_all2 (kept h (E @ E')) vs ts"
  by (erule list_all2_mono) (rule kept_mono)

lemma kept_new: "read_tree (h @ x # E) v ((h @ x # E) @ E') t \<Longrightarrow> kept h (E @ E') v t"
proof -
  assume v: "read_tree (h @ x # E) v ((h @ x # E) @ E') t"
  have "agrees (length (h @ x # E)) ((h @ x # E) @ E') g" if "agrees (Suc (length h)) (h @ MapValue [] # E @ E') g" for g
    by (rule agrees_le [of "Suc (length h)"]) (use that agrees_hole [of h "MapValue []" "E @ E'" g x] in simp_all)
  then show ?thesis
    using v by (simp add: kept_def read_tree_def)
qed

lemma kept_denotes:
  assumes "list_all2 (kept h E) vs ts" "agrees (length h) (h @ x # E) g"
  shows "list_all2 (denotes g) vs ts" "length h < length g" "g ! length h = x"
proof -
  have "agrees (Suc (length h)) (h @ MapValue [] # E) g"
    using agrees_le [OF assms(2), of "Suc (length h)"] agrees_hole [of h x E g "MapValue []"] by simp
  then show "list_all2 (denotes g) vs ts"
    using assms(1) by (auto elim!: list_all2_mono simp: kept_def)
  show "length h < length g" "g ! length h = x"
    using assms(2) by (auto simp: agrees_def dest: spec [of _ "length h"])
qed

lemma read_elements_tree:
  assumes app: "\<And>vs E v. length vs < MAX_ARRAY_SIZE \<Longrightarrow> app v (h @ mk vs # E) = Ok (h @ mk (vs @ [v]) # E)"
  shows "(\<And>t s H r. t \<in> set ts \<Longrightarrow> wf_src s \<Longrightarrow> rest s = tree_bytes t @ r \<Longrightarrow>
        \<exists>v E. rd s H = Ok (v, advance (length (tree_bytes t)) s, H @ E) \<and> read_tree H v (H @ E) t) \<Longrightarrow>
      wf_src s \<Longrightarrow> rest s = concat (map tree_bytes ts) @ r \<Longrightarrow> length vs + length ts \<le> MAX_ARRAY_SIZE \<Longrightarrow>
      list_all2 (kept h E) vs us \<Longrightarrow>
      \<exists>vs' E'. read_elements rd app (length ts) s (h @ mk vs # E)
          = Ok ((), advance (length (concat (map tree_bytes ts))) s, h @ mk vs' # E')
        \<and> list_all2 (kept h E') vs' (us @ ts)"
proof (induction ts arbitrary: s vs us E)
  case (Cons t ts)
  have rs: "rest s = tree_bytes t @ concat (map tree_bytes ts) @ r"
    using Cons.prems(3) by simp
  then obtain v E1 where v: "rd s (h @ mk vs # E) = Ok (v, advance (length (tree_bytes t)) s, (h @ mk vs # E) @ E1)"
    "read_tree (h @ mk vs # E) v ((h @ mk vs # E) @ E1) t"
    using Cons.prems(1) [of t s _ "h @ mk vs # E"] Cons.prems(2) by auto
  have s1: "wf_src (advance (length (tree_bytes t)) s)" "rest (advance (length (tree_bytes t)) s) = concat (map tree_bytes ts) @ r"
    using advance_prefix [OF Cons.prems(2) rs] by simp_all
  have kept: "list_all2 (kept h (E @ E1)) (vs @ [v]) (us @ [t])"
    using kept_all_mono [OF Cons.prems(5)] kept_new [OF v(2)] by (simp add: list_all2_appendI)
  have "length vs < MAX_ARRAY_SIZE"
    using Cons.prems(4) by simp
  note app' = app [OF this, of v "E @ E1"]
  have "\<exists>vs' E'. read_elements rd app (length ts) (advance (length (tree_bytes t)) s) (h @ mk (vs @ [v]) # E @ E1)
      = Ok ((), advance (length (concat (map tree_bytes ts))) (advance (length (tree_bytes t)) s), h @ mk vs' # E')
      \<and> list_all2 (kept h E') vs' ((us @ [t]) @ ts)"
    by (rule Cons.IH [OF Cons.prems(1)]) (use s1 kept Cons.prems(4) in auto)
  then show ?case
    using v(1) app' by (auto simp: advance_advance)
qed auto

lemma update_new: "k \<notin> fst ` set d \<Longrightarrow> AList.update k v d = d @ [(k, v)]"
  by (induction d) auto

definition items :: "map_data \<Rightarrow> VmValue list" where
  "items d = concat (map (\<lambda>(k, x, y). [x, y]) d)"

lemma items_snoc: "items (d @ [(k, x, y)]) = items d @ [x, y]"
  by (simp add: items_def)

lemma map_items_sorted:
  assumes "sorted_wrt (<) (map fst d)"
  shows "map_items d = items d"
proof -
  have "distinct (map fst d)" "sort (map fst d) = map fst d"
    using assms by (auto simp: strict_sorted_iff sorted_sort_id)
  then have "map_items d = concat (map (\<lambda>k. [fst (the (map_of d k)), snd (the (map_of d k))]) (map fst d))"
    by (simp add: map_items_def getMapSortedKey_def)
  also have "\<dots> = concat (map (\<lambda>e. [fst (snd e), snd (snd e)]) d)"
    using \<open>distinct (map fst d)\<close> by (auto simp: map_of_eq_Some_iff intro!: arg_cong [of _ _ concat] split: prod.split)
  finally show ?thesis
    by (simp add: items_def case_prod_unfold)
qed

lemma map_Set_new:
  assumes "AsBytes x = Ok k" "k \<notin> fst ` set d"
  shows "map_Set (length h) x y (h @ MapValue d # E) = Ok (h @ MapValue (d @ [(k, x, y)]) # E)"
  using assms by (simp add: map_Set_def GetMapKey_def map_at_def update_new)

lemma kept_leaf: "kept h E v t \<Longrightarrow> leaf_bytes t = Some b \<Longrightarrow> AsBytes v = Ok b"
  using denotes_leaf [of "h @ MapValue [] # E" v t b] by (simp add: kept_def agrees_def)

lemma read_entries_tree:
  "(\<And>t s H r. t \<in> set (flat ps) \<Longrightarrow> wf_src s \<Longrightarrow> rest s = tree_bytes t @ r \<Longrightarrow>
        \<exists>v E. rd s H = Ok (v, advance (length (tree_bytes t)) s, H @ E) \<and> read_tree H v (H @ E) t) \<Longrightarrow>
      wf_src s \<Longrightarrow> rest s = concat (map tree_bytes (flat ps)) @ r \<Longrightarrow>
      \<forall>p \<in> set ps. leaf_bytes (fst p) \<noteq> None \<Longrightarrow>
      sorted_wrt (<) (map fst d @ map (\<lambda>p. the (leaf_bytes (fst p))) ps) \<Longrightarrow>
      list_all2 (kept h E) (items d) us \<Longrightarrow>
      \<exists>d' E'. read_entries rd (length h) (length ps) s (h @ MapValue d # E)
          = Ok ((), advance (length (concat (map tree_bytes (flat ps)))) s, h @ MapValue d' # E')
        \<and> sorted_wrt (<) (map fst d') \<and> list_all2 (kept h E') (items d') (us @ flat ps)"
proof (induction ps arbitrary: s d us E)
  case (Cons p ps)
  obtain a b where p: "p = (a, b)"
    by (cases p)
  then obtain k where k: "leaf_bytes a = Some k"
    using Cons.prems(4) by auto
  let ?H = "h @ MapValue d # E"
  have ra: "rest s = tree_bytes a @ tree_bytes b @ concat (map tree_bytes (flat ps)) @ r"
    using Cons.prems(3) p by simp
  obtain x E1 where x: "rd s ?H = Ok (x, advance (length (tree_bytes a)) s, ?H @ E1)" "read_tree ?H x (?H @ E1) a"
    using Cons.prems(1) [of a s _ ?H] Cons.prems(2) ra p by auto
  let ?s1 = "advance (length (tree_bytes a)) s"
  have s1: "wf_src ?s1" "rest ?s1 = tree_bytes b @ concat (map tree_bytes (flat ps)) @ r"
    using advance_prefix [OF Cons.prems(2) ra] by simp_all
  obtain y E2 where y: "rd ?s1 (?H @ E1) = Ok (y, advance (length (tree_bytes b)) ?s1, (?H @ E1) @ E2)" "read_tree (?H @ E1) y ((?H @ E1) @ E2) b"
    using Cons.prems(1) [of b ?s1 _ "?H @ E1"] s1 p by auto
  have s2: "wf_src (advance (length (tree_bytes b)) ?s1)" "rest (advance (length (tree_bytes b)) ?s1) = concat (map tree_bytes (flat ps)) @ r"
    using advance_prefix [OF s1] by simp_all
  have kx: "kept h (E @ E1) x a"
    by (rule kept_new [OF x(2)])
  have ky: "kept h ((E @ E1) @ E2) y b"
    using kept_new [of h "MapValue d" "E @ E1" y E2 b] y(2) by simp
  have kept: "list_all2 (kept h (E @ E1 @ E2)) (items (d @ [(k, x, y)])) (us @ [a, b])"
    using kept_all_mono [OF Cons.prems(6), of "E1 @ E2"] kept_mono [OF kx, of E2] ky by (simp add: items_snoc list_all2_appendI)
  have "k \<notin> fst ` set d"
    using Cons.prems(5) p k by (auto simp: sorted_wrt_append)
  note set = map_Set_new [OF kept_leaf [OF kx k] this, of h y "E @ E1 @ E2"]
  have "\<exists>d' E'. read_entries rd (length h) (length ps) (advance (length (tree_bytes b)) ?s1) (h @ MapValue (d @ [(k, x, y)]) # E @ E1 @ E2)
        = Ok ((), advance (length (concat (map tree_bytes (flat ps)))) (advance (length (tree_bytes b)) ?s1), h @ MapValue d' # E')
      \<and> sorted_wrt (<) (map fst d') \<and> list_all2 (kept h E') (items d') ((us @ [a, b]) @ flat ps)"
    by (rule Cons.IH) (use Cons.prems(1,4,5) p k s2 kept in auto)
  then show ?case
    using x(1) y(1) set p by (auto simp: advance_advance add.assoc)
qed auto

lemma read_len_prefix:
  assumes "wf_src s" "rest s = varuint_enc (of_nat n) @ r" "n < 2 ^ 63"
  shows "read_len s = Ok (n, advance (length (varuint_enc (of_nat n))) s)"
proof -
  have "sint (of_nat n :: u64) = int n"
    using assms(3) by (simp add: signed_of_nat signed_take_bit_int_eq_self)
  then show ?thesis
    using NextVarUint_prefix [OF assms(1,2)] by (simp add: read_len_def)
qed

lemma read_data_prefix:
  assumes "wf_src s" "rest s = varbytes_enc b @ r"
  shows "read_data s = Ok (b, advance (length (varbytes_enc b)) s)"
  using NextVarBytes_prefix [OF assms] by (simp add: read_data_def)

lemma deserialize_tag:
  assumes "wf_src s" "rest s = t # r"
  shows "NextByte s = Ok ((t, False), advance 1 s)" "wf_src (advance 1 s)" "rest (advance 1 s) = r"
  using NextByte_within [OF assms] advance_prefix [of s "[t]" r] assms by simp_all

text \<open>The slice after appending to a nil one.\<close>

definition appended :: "'a list \<Rightarrow> 'a slice" where
  "appended xs = (if xs = [] then NilSlice else Slice xs)"

lemma elems_appended [simp]: "elems (appended xs) = xs"
  by (simp add: appended_def)

lemma append_array: "length vs < MAX_ARRAY_SIZE \<Longrightarrow>
    arr_Append (length h) v (h @ ArrayValue (appended vs) # E) = Ok (h @ ArrayValue (appended (vs @ [v])) # E)"
  by (simp add: arr_Append_def array_at_def) (simp add: appended_def)

lemma append_struct: "length vs < MAX_ARRAY_SIZE \<Longrightarrow>
    struct_Append (length h) v (h @ StructValue (Slice vs) # E) = Ok (h @ StructValue (Slice (vs @ [v])) # E)"
  by (simp add: struct_Append_def struct_at_def)

definition reads_trees :: "VmValue vreader \<Rightarrow> vtree set \<Rightarrow> bool" where
  "reads_trees rd T \<longleftrightarrow> (\<forall>t \<in> T. \<forall>s H r. wf_src s \<longrightarrow> rest s = tree_bytes t @ r \<longrightarrow>
     (\<exists>v E. rd s H = Ok (v, advance (length (tree_bytes t)) s, H @ E) \<and> read_tree H v (H @ E) t))"

lemma read_elements_all:
  assumes "\<And>vs E v. length vs < MAX_ARRAY_SIZE \<Longrightarrow> app v (h @ mk vs # E) = Ok (h @ mk (vs @ [v]) # E)"
    and "reads_trees rd (set ts)"
    and "wf_src s" "rest s = concat (map tree_bytes ts) @ r" "length ts \<le> MAX_ARRAY_SIZE"
  shows "\<exists>vs E. read_elements rd app (length ts) s (h @ [mk []])
      = Ok ((), advance (length (concat (map tree_bytes ts))) s, h @ mk vs # E) \<and> list_all2 (kept h E) vs ts"
proof -
  have "\<exists>vs' E'. read_elements rd app (length ts) s (h @ mk [] # [])
      = Ok ((), advance (length (concat (map tree_bytes ts))) s, h @ mk vs' # E') \<and> list_all2 (kept h E') vs' ([] @ ts)"
    using assms(2) unfolding reads_trees_def by (intro read_elements_tree assms) (blast, simp_all add: assms)
  then show ?thesis
    by simp
qed

lemma read_entries_all:
  assumes "reads_trees rd (set (flat ps))" "wf_src s" "rest s = concat (map tree_bytes (flat ps)) @ r"
    and "\<forall>p \<in> set ps. leaf_bytes (fst p) \<noteq> None" "sorted_wrt (<) (map (\<lambda>p. the (leaf_bytes (fst p))) ps)"
  shows "\<exists>d E. read_entries rd (length h) (length ps) s (h @ [MapValue []])
      = Ok ((), advance (length (concat (map tree_bytes (flat ps)))) s, h @ MapValue d # E)
      \<and> sorted_wrt (<) (map fst d) \<and> list_all2 (kept h E) (items d) (flat ps)"
proof -
  have "\<exists>d' E'. read_entries rd (length h) (length ps) s (h @ MapValue [] # [])
      = Ok ((), advance (length (concat (map tree_bytes (flat ps)))) s, h @ MapValue d' # E')
      \<and> sorted_wrt (<) (map fst d') \<and> list_all2 (kept h E') (items d') ([] @ flat ps)"
    using assms(1) unfolding reads_trees_def by (intro read_entries_tree) (blast, simp_all add: assms items_def)
  then show ?thesis
    by simp
qed

lemma read_tree_array: "list_all2 (kept h E) vs ts \<Longrightarrow> read_tree h (VArray (length h)) (h @ ArrayValue (appended vs) # E) (TArray ts)"
proof -
  assume vs: "list_all2 (kept h E) vs ts"
  show ?thesis
    unfolding read_tree_def using kept_denotes [OF vs] by (auto intro!: denotes.array [where s = "appended vs"] simp: array_at_def)
qed

lemma read_tree_struct: "list_all2 (kept h E) vs ts \<Longrightarrow> read_tree h (VStruct (length h)) (h @ StructValue (Slice vs) # E) (TStruct ts)"
proof -
  assume vs: "list_all2 (kept h E) vs ts"
  show ?thesis
    unfolding read_tree_def using kept_denotes [OF vs] by (auto intro!: denotes.struct [where s = "Slice vs"] simp: struct_at_def)
qed

lemma read_tree_map:
  "list_all2 (kept h E) (items d) ts \<Longrightarrow> sorted_wrt (<) (map fst d) \<Longrightarrow> read_tree h (VMap (length h)) (h @ MapValue d # E) (TMap ts)"
proof -
  assume vs: "list_all2 (kept h E) (items d) ts" and "sorted_wrt (<) (map fst d)"
  then show ?thesis
    unfolding read_tree_def using kept_denotes [OF vs] by (auto intro!: denotes.map [where d = d] simp: map_at_def map_items_sorted)
qed

lemma deserialize_tree:
  "levels left t \<Longrightarrow> tree_ok t \<Longrightarrow> wf_src s \<Longrightarrow> rest s = tree_bytes t @ r \<Longrightarrow>
   \<exists>v E. deserialize left s h = Ok (v, advance (length (tree_bytes t)) s, h @ E) \<and> read_tree h v (h @ E) t"
proof (induction left arbitrary: t s r h)
  case (Suc left)
  note tag = deserialize_tag [OF Suc.prems(3)]
  have node: "rest (advance (length (varuint_enc l)) (advance 1 s)) = concat (map tree_bytes ts) @ r"
    "wf_src (advance (length (varuint_enc l)) (advance 1 s))" "length ts < 2 ^ 63" "rest (advance 1 s) = varuint_enc l @ concat (map tree_bytes ts) @ r"
    if "rest s = ty # varuint_enc l @ concat (map tree_bytes ts) @ r" for ty l ts
  proof -
    show s1: "rest (advance 1 s) = varuint_enc l @ concat (map tree_bytes ts) @ r"
      using tag [OF that] by simp
    show "rest (advance (length (varuint_enc l)) (advance 1 s)) = concat (map tree_bytes ts) @ r"
      "wf_src (advance (length (varuint_enc l)) (advance 1 s))"
      using advance_prefix [OF tag(2) [OF that] s1] by simp_all
    have "length ts \<le> length (rest s)"
      using length_trees [of ts] that by simp
    then show "length ts < 2 ^ 63"
      using Suc.prems(3) by (simp add: wf_src_def length_rest maxInt_def) linarith
  qed
  show ?case
  proof (cases t)
    case (TBytes b)
    then have s: "rest s = bytearrayType # varbytes_enc b @ r"
      using Suc.prems(4) by simp
    have "VmValueFromBytes b = Ok (VBytes b)"
      using Suc.prems(2) TBytes by (simp add: VmValueFromBytes_def)
    then show ?thesis
      using tag [OF s] read_data_prefix [OF tag(2,3) [OF s]] TBytes
      by (auto simp: advance_advance read_tree_def denotes.bytes type_defs intro!: exI [of _ "[]"])
  next
    case (TBool b)
    then have s: "rest s = boolType # (if b then 1 else 0) # r"
      using Suc.prems(4) by simp
    show ?thesis
      using tag [OF s] deserialize_tag [OF tag(2,3) [OF s]] TBool
      by (auto simp: NextBool_def advance_advance read_tree_def denotes.bool VmValueFromBool_def intro!: exI [of _ "[]"])
  next
    case (TInt z)
    then have s: "rest s = integerType # varbytes_enc (BigIntToNeoBytes z) @ r"
      using Suc.prems(4) by simp
    have "BigIntFromNeoBytes (BigIntToNeoBytes z) = z"
      by (simp add: BigIntFromNeoBytes_twos twos_val_ToNeoBytes)
    moreover have "\<exists>v. VmValueFromBigInt z = Ok v \<and> (\<forall>g. denotes g v (TInt z))"
      using Suc.prems(2) TInt denotes.int [of _ "of_int z"] denotes.bigint [of _ z]
      by (cases "big_IsInt64 z") (simp_all add: VmValueFromBigInt_def IntValFromBigInt_eq checked_def int_value_def VmValueFromIntValue_def)
    ultimately show ?thesis
      using tag [OF s] read_data_prefix [OF tag(2,3) [OF s]] TInt
      by (auto simp: advance_advance read_tree_def type_defs intro!: exI [of _ "[]"])
  next
    case (TArray ts)
    then have s: "rest s = arrayType # varuint_enc (of_nat (length ts)) @ concat (map tree_bytes ts) @ r"
      using Suc.prems(4) by simp
    note n = node [OF s]
    have rd: "reads_trees (deserialize left) (set ts)"
      unfolding reads_trees_def using Suc.IH Suc.prems(1,2) TArray by simp
    have len: "length ts \<le> MAX_ARRAY_SIZE"
      using Suc.prems(2) TArray by simp
    obtain vs E where e: "read_elements (deserialize left) (arr_Append (length h)) (length ts)
        (advance (length (varuint_enc (of_nat (length ts)))) (advance 1 s)) (h @ [ArrayValue (appended [])])
        = Ok ((), advance (length (concat (map tree_bytes ts))) (advance (length (varuint_enc (of_nat (length ts)))) (advance 1 s)),
            h @ ArrayValue (appended vs) # E)" "list_all2 (kept h E) vs ts"
      using read_elements_all [where mk = "\<lambda>vs. ArrayValue (appended vs)", OF append_array rd n(2,1)] len by blast
    show ?thesis
      using tag [OF s] read_len_prefix [OF tag(2) [OF s] n(4,3)] e(1) read_tree_array [OF e(2)] TArray
      by (auto simp: type_defs new_ArrayValue_def VmValueFromArrayVal_def advance_advance appended_def
          intro!: exI [of _ "ArrayValue (appended vs) # E"])
  next
    case (TStruct ts)
    then have s: "rest s = structType # varuint_enc (of_nat (length ts)) @ concat (map tree_bytes ts) @ r"
      using Suc.prems(4) by simp
    note n = node [OF s]
    have rd: "reads_trees (deserialize left) (set ts)"
      unfolding reads_trees_def using Suc.IH Suc.prems(1,2) TStruct by simp
    have len: "length ts \<le> MAX_ARRAY_SIZE"
      using Suc.prems(2) TStruct by simp
    obtain vs E where e: "read_elements (deserialize left) (struct_Append (length h)) (length ts)
        (advance (length (varuint_enc (of_nat (length ts)))) (advance 1 s)) (h @ [StructValue (Slice [])])
        = Ok ((), advance (length (concat (map tree_bytes ts))) (advance (length (varuint_enc (of_nat (length ts)))) (advance 1 s)),
            h @ StructValue (Slice vs) # E)" "list_all2 (kept h E) vs ts"
      using read_elements_all [OF append_struct [of _ h] rd n(2,1)] len by blast
    show ?thesis
      using tag [OF s] read_len_prefix [OF tag(2) [OF s] n(4,3)] e(1) read_tree_struct [OF e(2)] TStruct
      by (auto simp: type_defs NewStructValue_def VmValueFromStructVal_def advance_advance intro!: exI [of _ "StructValue (Slice vs) # E"])
  next
    case (TMap ts)
    define ps where "ps = pairs ts"
    have flat: "ts = flat ps"
      using Suc.prems(2) TMap by (simp add: ps_def flat_pairs)
    have ts: "ts = flat ps" "length ts div 2 = length ps"
      by (simp_all add: flat)
    then have s: "rest s = mapType # varuint_enc (of_nat (length ps)) @ concat (map tree_bytes ts) @ r"
      using Suc.prems(4) TMap by simp
    note n = node [OF s]
    have len: "length ps < 2 ^ 63"
      using n(3) ts by simp
    have rd: "reads_trees (deserialize left) (set (flat ps))"
      unfolding reads_trees_def using Suc.IH Suc.prems(1,2) TMap ts(1) by simp
    have "\<forall>p \<in> set ps. leaf_bytes (fst p) \<noteq> None" "sorted_wrt (<) (map (\<lambda>p. the (leaf_bytes (fst p))) ps)"
      using Suc.prems(2) TMap by (simp_all add: ps_def)
    from read_entries_all [OF rd n(2) _ this, of r h] obtain d E where e: "read_entries (deserialize left) (length h) (length ps)
        (advance (length (varuint_enc (of_nat (length ps)))) (advance 1 s)) (h @ [MapValue []])
        = Ok ((), advance (length (concat (map tree_bytes ts))) (advance (length (varuint_enc (of_nat (length ps)))) (advance 1 s)),
            h @ MapValue d # E)" "sorted_wrt (<) (map fst d)" "list_all2 (kept h E) (items d) ts"
      using n(1) ts(1) by auto
    show ?thesis
      using tag [OF s] read_len_prefix [OF tag(2) [OF s] n(4) len] e(1) read_tree_map [OF e(3,2)] TMap ts(2)
      by (auto simp: type_defs NewMapValue_def VmValueFromMapValue_def advance_advance intro!: exI [of _ "MapValue d # E"])
  qed
qed simp

section \<open>The round trip\<close>

text \<open>\<open>ints_small t\<close>: the integers are below \<open>2 ^ 256\<close>. The machine enforces that except for the result of \<open>INVERT\<close>.\<close>

fun ints_small :: "vtree \<Rightarrow> bool" where
  "ints_small (TInt z) \<longleftrightarrow> \<bar>z\<bar> < 2 ^ 256"
| "ints_small (TArray ts) \<longleftrightarrow> (\<forall>t \<in> set ts. ints_small t)"
| "ints_small (TStruct ts) \<longleftrightarrow> (\<forall>t \<in> set ts. ints_small t)"
| "ints_small (TMap ts) \<longleftrightarrow> (\<forall>t \<in> set ts. ints_small t)"
| "ints_small _ \<longleftrightarrow> True"

lemma leaf_bytes_denotes: "denotes h v t \<Longrightarrow> AsBytes v = Ok b \<Longrightarrow> leaf_bytes t = Some b"
  by (cases rule: denotes.cases) auto

lemma flat_denotes:
  assumes "list_all2 (denotes h) (concat (map (\<lambda>k. [f k, g k]) ks)) ts" "\<forall>k \<in> set ks. AsBytes (f k) = Ok k"
  shows "even (length ts)" "\<forall>p \<in> set (pairs ts). leaf_bytes (fst p) \<noteq> None" "map (\<lambda>p. the (leaf_bytes (fst p))) (pairs ts) = ks"
proof -
  have "even (length ts) \<and> (\<forall>p \<in> set (pairs ts). leaf_bytes (fst p) \<noteq> None) \<and> map (\<lambda>p. the (leaf_bytes (fst p))) (pairs ts) = ks"
    using assms
  proof (induction ks arbitrary: ts)
    case (Cons k ks)
    then obtain a b r where "ts = a # b # r" "denotes h (f k) a" "list_all2 (denotes h) (concat (map (\<lambda>k. [f k, g k]) ks)) r"
      by (auto simp: list_all2_Cons1)
    then show ?case
      using Cons.IH [of r] Cons.prems(2) leaf_bytes_denotes [of h "f k" a k] by auto
  qed simp
  then show "even (length ts)" "\<forall>p \<in> set (pairs ts). leaf_bytes (fst p) \<noteq> None" "map (\<lambda>p. the (leaf_bytes (fst p))) (pairs ts) = ks"
    by simp_all
qed

lemma denotes_all_unique:
  "list_all2 (\<lambda>x t. denotes h x t \<and> (\<forall>u. denotes h x u \<longrightarrow> t = u)) xs ts \<Longrightarrow> list_all2 (denotes h) xs us \<Longrightarrow> ts = us"
  by (induction arbitrary: us rule: list_all2_induct) (auto simp: list_all2_Cons1)

lemma denotes_unique: "denotes h v t \<Longrightarrow> denotes h v u \<Longrightarrow> t = u"
proof (induction arbitrary: u rule: denotes.induct)
  case (array a s ts)
  from array.prems show ?case
    using array.hyps denotes_all_unique [OF array.IH] by (cases rule: denotes.cases) auto
next
  case (struct a s ts)
  from struct.prems show ?case
    using struct.hyps denotes_all_unique [OF struct.IH] by (cases rule: denotes.cases) auto
next
  case (map a d ts)
  from map.prems show ?case
    using map.hyps denotes_all_unique [OF map.IH] by (cases rule: denotes.cases) auto
qed (erule denotes.cases; simp)+

lemma wf_denotes_all:
  "list_all2 (\<lambda>x t. denotes h x t \<and> (wf_val h x \<longrightarrow> ints_small t \<longrightarrow> tree_ok t)) xs ts \<Longrightarrow> list_all (wf_val h) xs \<Longrightarrow>
   \<forall>t \<in> set ts. ints_small t \<Longrightarrow> \<forall>t \<in> set ts. tree_ok t"
  by (induction rule: list_all2_induct) auto

lemma wf_denotes_ok:
  assumes "wf_heap h"
  shows "denotes h v t \<Longrightarrow> wf_val h v \<Longrightarrow> ints_small t \<Longrightarrow> tree_ok t"
proof (induction rule: denotes.induct)
  case (array a s ts)
  then have "length (elems s) \<le> MAX_ARRAY_SIZE" "list_all (wf_val h) (elems s)"
    using wf_at(1) [OF assms, of a] by auto
  moreover have "\<forall>t \<in> set ts. ints_small t"
    using array.prems by simp
  ultimately show ?case
    using wf_denotes_all [OF array.IH] list_all2_lengthD [OF array.IH] by simp
next
  case (struct a s ts)
  then have "length (elems s) \<le> MAX_ARRAY_SIZE" "list_all (wf_val h) (elems s)"
    using wf_at(2) [OF assms, of a] by auto
  moreover have "\<forall>t \<in> set ts. ints_small t"
    using struct.prems by simp
  ultimately show ?case
    using wf_denotes_all [OF struct.IH] list_all2_lengthD [OF struct.IH] by simp
next
  case (map a d ts)
  then have d: "wf_obj h (MapValue d)"
    using wf_at(3) [OF assms, of a] by auto
  have wf: "list_all (wf_val h) (map_items d)"
    by (rule wf_map_items [OF d])
  have small: "\<forall>t \<in> set ts. ints_small t"
    using map.prems by simp
  have "\<forall>t \<in> set ts. tree_ok t"
    by (rule wf_denotes_all [OF map.IH wf small])
  moreover have "AsBytes (fst (the (map_of d k))) = Ok k" if k: "k \<in> set (getMapSortedKey d)" for k
  proof -
    obtain p where p: "map_of d k = Some p"
      using k by (cases "map_of d k") (auto simp: getMapSortedKey_def map_of_eq_None_iff)
    then show ?thesis
      using map_of_SomeD [OF p] d by (force simp: list_all_iff)
  qed
  moreover have "list_all2 (denotes h) (map_items d) ts"
    using map.IH by (rule list_all2_mono) simp
  moreover have "sorted_wrt (<) (getMapSortedKey d)"
    using d by (simp add: getMapSortedKey_def strict_sorted_iff)
  ultimately show ?case
    using flat_denotes [of h "\<lambda>k. fst (the (map_of d k))" "\<lambda>k. snd (the (map_of d k))" "getMapSortedKey d" ts]
    by (simp add: map_items_def)
qed simp_all

text \<open>
  C8. \<open>Deserialize\<close> is safe on arbitrary bytes: it returns an error or a well-formed value in a well-formed heap, in which no object
  has changed its kind; it never panics and its recursion is bounded.
\<close>

theorem deserialize_safe:
  assumes "wf_heap g" "length bs \<le> maxInt"
  shows "(\<exists>e. Deserialize (NewZeroCopySource bs) g = Err e) \<or>
    (\<exists>w s g'. Deserialize (NewZeroCopySource bs) g = Ok (w, s, g') \<and> wf_heap g' \<and> extends g g' \<and> wf_val g' w)"
proof -
  have "rsafe g wf_val (deserialize (MAX_COUNT + 1) (NewZeroCopySource bs) g)"
    by (rule deserialize_rsafe) (use assms in simp_all)
  then show ?thesis
    by (auto simp: Deserialize_def rsafe_def split: res.splits)
qed

theorem deserialize_safe_witness:
  "(\<exists>e. Deserialize (NewZeroCopySource [0x81, 2, 0x82]) [] = Err e) \<or>
    (\<exists>w s g'. Deserialize (NewZeroCopySource [0x81, 2, 0x82]) [] = Ok (w, s, g') \<and> wf_heap g' \<and> extends [] g' \<and> wf_val g' w)"
  by (rule deserialize_safe) (simp_all add: wf_heap_def maxInt_def)

section \<open>Values that are serialized\<close>

fun address :: "VmValue \<Rightarrow> addr option" where
  "address (VArray a) = Some a"
| "address (VStruct a) = Some a"
| "address (VMap a) = Some a"
| "address _ = None"

lemma denotes_address:
  assumes "denotes h v t" "denotes h w u" "address v = Some a" "address w = Some a"
  shows "v = w"
  using assms(1)
proof (cases rule: denotes.cases)
  case (array b s ts)
  from assms(2) show ?thesis
    using array assms(3,4) by (cases rule: denotes.cases) (auto simp: array_at_def struct_at_def map_at_def split: if_splits Obj.splits)
next
  case (struct b s ts)
  from assms(2) show ?thesis
    using struct assms(3,4) by (cases rule: denotes.cases) (auto simp: array_at_def struct_at_def map_at_def split: if_splits Obj.splits)
next
  case (map b d ts)
  from assms(2) show ?thesis
    using map assms(3,4) by (cases rule: denotes.cases) (auto simp: array_at_def struct_at_def map_at_def split: if_splits Obj.splits)
qed (use assms(3) in auto)

text \<open>\<open>above h t visited\<close>: the objects on the path stand for greater trees.\<close>

definition above :: "heap \<Rightarrow> vtree \<Rightarrow> addr list \<Rightarrow> bool" where
  "above h t visited \<longleftrightarrow> (\<forall>a \<in> set visited. \<exists>w u. address w = Some a \<and> denotes h w u \<and> size t < size u)"

lemma above_not_in:
  assumes "above h t visited" "denotes h v t" "address v = Some a"
  shows "a \<notin> set visited"
proof
  assume "a \<in> set visited"
  then obtain w u where w: "address w = Some a" "denotes h w u" "size t < size u"
    using assms(1) by (auto simp: above_def)
  then have "v = w"
    using denotes_address [OF assms(2) w(2) assms(3) w(1)] by simp
  then show False
    using denotes_unique [OF assms(2)] w by simp
qed

lemma above_Cons: "above h t visited \<Longrightarrow> denotes h v t \<Longrightarrow> address v = Some a \<Longrightarrow> size u < size t \<Longrightarrow> above h u (a # visited)"
  unfolding above_def by (auto, meson less_trans)

lemma size_child: "u \<in> set ts \<Longrightarrow> size u < size (TArray ts)" "u \<in> set ts \<Longrightarrow> size u < size (TStruct ts)" "u \<in> set ts \<Longrightarrow> size u < size (TMap ts)"
  by (induction ts) auto

lemma list_all2_witness: "list_all2 P xs ys \<Longrightarrow> x \<in> set xs \<Longrightarrow> \<exists>y \<in> set ys. P x y"
  by (induction rule: list_all2_induct) auto

lemma circular_false:
  assumes "wf_heap h" "\<And>a d. set (rng a d) = set d"
  shows "denotes h v t \<Longrightarrow> wf_val h v \<Longrightarrow> levels left t \<Longrightarrow> above h t visited \<Longrightarrow> circularRefAndDepthDetection rng h left visited v = Ok False"
proof (induction left arbitrary: v t visited)
  case (Suc left)
  note above = above_not_in [OF Suc.prems(4,1)] above_Cons [OF Suc.prems(4,1)]
  from Suc.prems(1) show ?case
  proof (cases rule: denotes.cases)
    case (array a s ts)
    show ?thesis
    proof (cases "elems s")
      case (Cons x xs)
      then obtain u us where u: "ts = u # us" "denotes h x u"
        using array(4) by (auto simp: list_all2_Cons1)
      moreover have "wf_val h x"
        using wf_at(1) [OF assms(1), of a] array(1,3) Suc.prems(2) Cons by auto
      ultimately have "circularRefAndDepthDetection rng h left (a # visited) x = Ok False"
        using Suc.prems(3) array(1,2) above(2) [of a u] size_child(1) [of u ts] by (intro Suc.IH) auto
      then show ?thesis
        using above(1) array Cons by simp
    qed (use array in simp)
  next
    case (struct a s ts)
    show ?thesis
    proof (cases "elems s")
      case (Cons x xs)
      then obtain u us where u: "ts = u # us" "denotes h x u"
        using struct(4) by (auto simp: list_all2_Cons1)
      moreover have "wf_val h x"
        using wf_at(2) [OF assms(1), of a] struct(1,3) Suc.prems(2) Cons by auto
      ultimately have "circularRefAndDepthDetection rng h left (a # visited) x = Ok False"
        using Suc.prems(3) struct(1,2) above(2) [of a u] size_child(2) [of u ts] by (intro Suc.IH) auto
      then show ?thesis
        using above(1) struct Cons by simp
    qed (use struct in simp)
  next
    case (map a d ts)
    show ?thesis
    proof (cases "rng a d")
      case (Cons e es)
      obtain k x y where e: "e = (k, x, y)"
        by (cases e)
      have d: "wf_obj h (MapValue d)"
        using wf_at(3) [OF assms(1), of a] map(1,3) Suc.prems(2) by auto
      have "(k, x, y) \<in> set d"
        using assms(2) [of a d] Cons e by (metis list.set_intros(1))
      then have "y \<in> set (map_items d)" "wf_val h y"
        using d by (auto simp: map_items_def getMapSortedKey_def list_all_iff image_iff intro!: bexI [of _ "(k, x, y)"])
      moreover obtain u where "u \<in> set ts" "denotes h y u"
        using list_all2_witness [OF map(4) \<open>y \<in> set (map_items d)\<close>] by blast
      ultimately have "circularRefAndDepthDetection rng h left (a # visited) y = Ok False"
        using Suc.prems(3) map(1,2) above(2) [of a u] size_child(3) [of u ts] by (intro Suc.IH) auto
      then show ?thesis
        using above(1) map Cons e by simp
    qed (use map above(1) in simp)
  qed simp_all
qed simp

lemma write_all_complete:
  assumes "list_all2 (\<lambda>x t. \<forall>s. sink_fits n s \<longrightarrow> length (snk_buf s) + length (tree_bytes t) \<le> MAX_BYTEARRAY_SIZE \<longrightarrow>
      (\<exists>s'. w x s = Ok s' \<and> snk_buf s' = snk_buf s @ tree_bytes t \<and> sink_ok s')) xs ts"
    and "n \<le> 2 ^ 40"
  shows "sink_fits n s \<Longrightarrow> length (snk_buf s) + length (concat (map tree_bytes ts)) \<le> MAX_BYTEARRAY_SIZE \<Longrightarrow>
    \<exists>s'. write_all w xs s = Ok s' \<and> snk_buf s' = snk_buf s @ concat (map tree_bytes ts) \<and> sink_ok s'"
  using assms(1)
proof (induction arbitrary: s rule: list_all2_induct)
  case Nil
  then show ?case
    by (simp add: sink_fits_def)
next
  case (Cons x xs t ts)
  then obtain s1 where s1: "w x s = Ok s1" "snk_buf s1 = snk_buf s @ tree_bytes t" "sink_ok s1"
    by auto
  then have "sink_fits n s1"
    using Cons.prems(2) assms(2) by (simp add: sink_fits_def MAX_BYTEARRAY_SIZE_def)
  then show ?case
    using Cons.IH [of s1] Cons.prems(2) s1 by auto
qed

lemma write_node_complete:
  assumes "sink_fits (Suc n) s" "n \<le> 2 ^ 40"
    and "list_all2 (\<lambda>x t. \<forall>s. sink_fits n s \<longrightarrow> length (snk_buf s) + length (tree_bytes t) \<le> MAX_BYTEARRAY_SIZE \<longrightarrow>
      (\<exists>s'. ser x s = Ok s' \<and> snk_buf s' = snk_buf s @ tree_bytes t \<and> sink_ok s')) xs ts"
    and "length (snk_buf s) + length (ty # varuint_enc l @ concat (map tree_bytes ts)) \<le> MAX_BYTEARRAY_SIZE"
  shows "\<exists>s'. bind_res (bind_res (WriteByte ty s) (\<lambda>s. bind_res (WriteVarUint l s) (\<lambda>(_, s'). write_all ser xs s'))) check_size = Ok s'
    \<and> snk_buf s' = snk_buf s @ ty # varuint_enc l @ concat (map tree_bytes ts) \<and> sink_ok s'"
proof -
  obtain s1 k s2 where w: "WriteByte ty s = Ok s1" "WriteVarUint l s1 = Ok (k, s2)" "snk_buf s2 = snk_buf s @ ty # varuint_enc l" "sink_fits n s2"
    using write_header [OF assms(1)] by blast
  obtain s3 where "write_all ser xs s2 = Ok s3" "snk_buf s3 = snk_buf s2 @ concat (map tree_bytes ts)" "sink_ok s3"
    using write_all_complete [OF assms(3,2) w(4)] assms(4) w(3) by auto
  then show ?thesis
    using w assms(4) by (auto simp: check_size_iff MAX_BYTEARRAY_SIZE_def)
qed

lemma write_leaf_complete:
  assumes "sink_fits (Suc n) s" "length (snk_buf s) + length (ty # varbytes_enc p) \<le> MAX_BYTEARRAY_SIZE"
  shows "\<exists>s'. bind_res (bind_res (WriteByte ty s) (\<lambda>s. bind_res (WriteVarBytes p s) (\<lambda>(_, s'). Ok s'))) check_size = Ok s'
    \<and> snk_buf s' = snk_buf s @ ty # varbytes_enc p \<and> sink_ok s'"
proof -
  have "length p \<le> MAX_BYTEARRAY_SIZE"
    using assms(2) by (simp add: varbytes_enc_def)
  then obtain s1 k s2 where "WriteByte ty s = Ok s1" "WriteVarBytes p s1 = Ok (k, s2)" "snk_buf s2 = snk_buf s @ ty # varbytes_enc p" "sink_ok s2"
    using write_leaf [OF assms(1)] by blast
  then show ?thesis
    using assms(2) by (auto simp: check_size_iff MAX_BYTEARRAY_SIZE_def)
qed

lemma levels_mono: "levels m t \<Longrightarrow> m \<le> k \<Longrightarrow> levels k t"
proof (induction m t arbitrary: k rule: levels.induct)
  case (1 t)
  then show ?case
    by simp
qed (case_tac k; auto)+

lemma Serialize_complete:
  assumes "wf_heap h" "\<And>b a d. set (rng b a d) = set d"
  shows "levels m t \<Longrightarrow> m \<le> MAX_STRUCT_DEPTH + 1 \<Longrightarrow> m \<le> n \<Longrightarrow> n \<le> 2 ^ 40 \<Longrightarrow> denotes h v t \<Longrightarrow> wf_val h v \<Longrightarrow>
    sink_fits n s \<Longrightarrow> length (snk_buf s) + length (tree_bytes t) \<le> MAX_BYTEARRAY_SIZE \<Longrightarrow>
    \<exists>s'. Serialize rng n h v s = Ok s' \<and> snk_buf s' = snk_buf s @ tree_bytes t \<and> sink_ok s'"
proof (induction m arbitrary: n v t s)
  case (Suc m)
  obtain k where k: "n = Suc k" "m \<le> k" "k \<le> 2 ^ 40"
    using Suc.prems(3,4) by (cases n) auto
  have fits: "sink_fits (Suc k) s"
    using Suc.prems(7) k by simp
  have circ: "CircularRefAndDepthDetection (rng (snk_buf s)) h v = Ok False"
    unfolding CircularRefAndDepthDetection_def
    by (rule circular_false [OF assms(1,2) Suc.prems(5,6) levels_mono [OF Suc.prems(1,2)]]) (simp add: above_def)
  have all: "list_all2 (\<lambda>x t. \<forall>s. sink_fits k s \<longrightarrow> length (snk_buf s) + length (tree_bytes t) \<le> MAX_BYTEARRAY_SIZE \<longrightarrow>
      (\<exists>s'. Serialize rng k h x s = Ok s' \<and> snk_buf s' = snk_buf s @ tree_bytes t \<and> sink_ok s')) xs ts"
    if "list_all2 (denotes h) xs ts" "\<forall>t \<in> set ts. levels m t" "list_all (wf_val h) xs" for xs ts
    using that
  proof (induction rule: list_all2_induct)
    case (Cons x xs t ts)
    then show ?case
      using Suc.IH [of t k x] Suc.prems(2) k by auto
  qed simp
  have "\<exists>s'. bind_res (write_value (Serialize rng k h) h v s) check_size = Ok s' \<and> snk_buf s' = snk_buf s @ tree_bytes t \<and> sink_ok s'"
    using Suc.prems(5)
  proof (cases rule: denotes.cases)
    case (bytes b)
    then show ?thesis
      using write_leaf_complete [OF fits, of bytearrayType b] Suc.prems(8) by simp
  next
    case (int i)
    then show ?thesis
      using write_leaf_complete [OF fits, of integerType "BigIntToNeoBytes (sint i)"] Suc.prems(8) by simp
  next
    case (bigint z)
    then show ?thesis
      using write_leaf_complete [OF fits, of integerType "BigIntToNeoBytes z"] Suc.prems(8) by simp
  next
    case (bool b)
    have s: "sink_ok s" "length (snk_buf s) + 100 \<le> sink_max"
      using fits by (simp_all add: sink_fits_def sink_max_def)
    obtain s1 where s1: "WriteByte boolType s = Ok s1" "snk_buf s1 = snk_buf s @ [boolType]" "sink_ok s1"
      using write_byte [of s boolType] s by auto
    then obtain s2 where "WriteBool b s1 = Ok s2" "snk_buf s2 = snk_buf s1 @ [if b then 1 else 0]" "sink_ok s2"
      using write_byte [of s1 1] write_byte [of s1 0] s by (cases b) (auto simp: WriteBool_def)
    then show ?thesis
      using bool s1 Suc.prems(8) by (auto simp: check_size_iff MAX_BYTEARRAY_SIZE_def)
  next
    case (array a d ts)
    have "list_all (wf_val h) (elems d)"
      using wf_at(1) [OF assms(1), of a] array(1,3) Suc.prems(6) by auto
    then show ?thesis
      using write_node_complete [OF fits k(3) all, of "elems d" ts arrayType "of_nat (length ts)"] array Suc.prems(1,8) list_all2_lengthD [OF array(4)]
      by simp
  next
    case (struct a d ts)
    have "list_all (wf_val h) (elems d)"
      using wf_at(2) [OF assms(1), of a] struct(1,3) Suc.prems(6) by auto
    then show ?thesis
      using write_node_complete [OF fits k(3) all, of "elems d" ts structType "of_nat (length ts)"] struct Suc.prems(1,8) list_all2_lengthD [OF struct(4)]
      by simp
  next
    case (map a d ts)
    have "list_all (wf_val h) (map_items d)"
      using wf_at(3) [OF assms(1), of a] map(1,3) Suc.prems(6) by (auto intro!: wf_map_items)
    moreover have "length ts div 2 = length d"
      using list_all2_lengthD [OF map(4)] by simp
    ultimately have "\<exists>s'. bind_res (bind_res (WriteByte mapType s) (\<lambda>s. bind_res (WriteVarUint (of_nat (length d)) s)
        (\<lambda>(_, s'). write_all (Serialize rng k h) (map_items d) s'))) check_size = Ok s'
      \<and> snk_buf s' = snk_buf s @ mapType # varuint_enc (of_nat (length d)) @ concat (map tree_bytes ts) \<and> sink_ok s'"
      by (intro write_node_complete [OF fits k(3) all]) (use map Suc.prems(1,8) in auto)
    then show ?thesis
      using \<open>length ts div 2 = length d\<close> by (simp add: map) (unfold write_entries [of "Serialize rng k h"], assumption)
  qed
  then show ?case
    using circ k by simp
qed simp

text \<open>
  C7. The byte form of NeoVM values round trips. A value that stands for a tree of at most 11 levels whose byte form is at most 1 MiB is
  serialized. Whenever serialization succeeds, the bytes are the byte form of the tree, and \<open>Deserialize\<close>, into any heap, takes them all
  and gives a value that stands for the same tree, provided the tree has at most 1025 levels and no integer of \<open>2 ^ 256\<close>.
\<close>

theorem value_roundtrip:
  assumes "wf_heap h" "wf_val h v" "\<forall>b a d. set (rng b a d) = set d"
    and "denotes h v t" "levels (MAX_COUNT + 1) t" "ints_small t"
  shows "(levels (MAX_STRUCT_DEPTH + 1) t \<and> length (tree_bytes t) \<le> MAX_BYTEARRAY_SIZE \<longrightarrow>
      (\<exists>sink. Serialize rng serialize_depth h v EmptySink = Ok sink)) \<and>
    (\<forall>sink. Serialize rng serialize_depth h v EmptySink = Ok sink \<longrightarrow> snk_Bytes sink = tree_bytes t \<and>
      (\<exists>w s g'. Deserialize (NewZeroCopySource (snk_Bytes sink)) g = Ok (w, s, g') \<and> rest s = [] \<and> denotes g' w t))"
proof (intro conjI impI allI)
  have fits: "sink_fits serialize_depth EmptySink" "serialize_depth \<le> 2 ^ 40" "MAX_STRUCT_DEPTH + 1 \<le> serialize_depth"
    by (simp_all add: sink_fits_def serialize_depth_def MAX_BYTEARRAY_SIZE_def MAX_STRUCT_DEPTH_def)
  assume "levels (MAX_STRUCT_DEPTH + 1) t \<and> length (tree_bytes t) \<le> MAX_BYTEARRAY_SIZE"
  then show "\<exists>sink. Serialize rng serialize_depth h v EmptySink = Ok sink"
    using Serialize_complete [OF assms(1) _ _ order_refl fits(3,2) assms(4,2) fits(1), of rng] assms(3) by auto
next
  have fits: "sink_fits serialize_depth EmptySink" "serialize_depth \<le> 2 ^ 40"
    by (simp_all add: sink_fits_def serialize_depth_def MAX_BYTEARRAY_SIZE_def)
  fix sink
  assume sink: "Serialize rng serialize_depth h v EmptySink = Ok sink"
  have "wrote EmptySink (\<lambda>bs. \<exists>t. denotes h v t \<and> bs = tree_bytes t) (Ok sink)"
    using Serialize_wrote [OF assms(1) _ fits(2) assms(2) fits(1), of rng] assms(3) sink by auto
  then have bytes: "snk_Bytes sink = tree_bytes t" "length (tree_bytes t) \<le> MAX_BYTEARRAY_SIZE"
    using denotes_unique [OF assms(4)] by (auto simp: wrote_def snk_Bytes_def)
  let ?s = "NewZeroCopySource (tree_bytes t)"
  have s: "wf_src ?s" "rest ?s = tree_bytes t @ []"
    using bytes(2) by (simp_all add: maxInt_def MAX_BYTEARRAY_SIZE_def)
  obtain w E where w: "deserialize (MAX_COUNT + 1) ?s g = Ok (w, advance (length (tree_bytes t)) ?s, g @ E)" "read_tree g w (g @ E) t"
    using deserialize_tree [OF assms(5) wf_denotes_ok [OF assms(1,4,2,6)] s, of g] by blast
  have "denotes (g @ E) w t"
    using w(2) by (simp add: read_tree_def agrees_def)
  then show "\<exists>w s g'. Deserialize (NewZeroCopySource (snk_Bytes sink)) g = Ok (w, s, g') \<and> rest s = [] \<and> denotes g' w t"
    using w(1) advance_prefix(2) [OF s] by (simp add: Deserialize_def bytes)
  show "snk_Bytes sink = tree_bytes t"
    by (rule bytes(1))
qed

theorem value_roundtrip_witness:
  "\<exists>sink w s g'. Serialize (\<lambda>_ _ d. d) serialize_depth [ArrayValue (Slice [VBool True, VBytes [7]])] (VArray 0) EmptySink = Ok sink \<and>
     Deserialize (NewZeroCopySource (snk_Bytes sink)) [] = Ok (w, s, g') \<and> rest s = [] \<and> denotes g' w (TArray [TBool True, TBytes [7]])"
proof -
  let ?h = "[ArrayValue (Slice [VBool True, VBytes [7]])]"
  let ?t = "TArray [TBool True, TBytes [7]]"
  have wf: "wf_heap ?h" "wf_val ?h (VArray 0)" "\<forall>b a d. set ((\<lambda>(_ :: bytes) (_ :: addr) (d :: map_data). d) b a d) = set d"
    by (simp_all add: wf_heap_def MAX_ARRAY_SIZE_def MAX_BYTEARRAY_SIZE_def)
  have d: "denotes ?h (VArray 0) ?t"
    by (auto intro!: denotes.array denotes.bool denotes.bytes simp: array_at_def)
  have "levels (Suc (Suc 0)) ?t"
    by simp
  then have l: "levels (MAX_COUNT + 1) ?t" "levels (MAX_STRUCT_DEPTH + 1) ?t" "ints_small ?t"
    by (simp_all add: levels_mono MAX_COUNT_def MAX_STRUCT_DEPTH_def del: levels.simps)
  have len: "length (tree_bytes ?t) \<le> MAX_BYTEARRAY_SIZE"
    by (simp add: varbytes_enc_def varuint_enc_def MAX_BYTEARRAY_SIZE_def)
  from value_roundtrip [OF wf d l(1,3), of "[]"] l(2) len show ?thesis
    by blast
qed

end
