(* ===== verification/Spec2Isabelle.thy ===== *)
theory Spec2Isabelle
  imports MerkleProof MerklePath CacheDB TokenSafety ParamLedger NeoBuilder NeoDeserialize
begin

text \<open>
  A verification development for dad-go, a node of the Ontology block chain written in Go (\<open>src/\<close>). It models the part of
  the node that computes the state of the chain: the byte codecs, the Merkle trees over blocks, the layered key/value
  store, the native contracts of the two tokens ONT and ONG, and the NeoVM, the machine that runs contracts.

  \<^bold>\<open>How the parts interact.\<close> A contract call runs in a context of \<open>smart_contract.go\<close> and reads and writes storage items
  through \<open>CacheDB\<close>, which belongs to one transaction and lies over \<open>OverlayDB\<close>, which belongs to one block and lies over
  the persistent store; each layer keeps its changes in a \<open>MemDB\<close>. Arguments and stored values go through \<open>ZeroCopySource\<close>
  and \<open>ZeroCopySink\<close>. The contract of ONT calls the contract of ONG through the native service to grant what a transfer
  releases. The block cache hashes its changes, and block hashes enter the Merkle tree. Bytecode contracts run on the NeoVM,
  whose integers use the same byte format as the arguments of the native contracts.

  \<^bold>\<open>Conventions.\<close> A Go call returns \<open>'a res\<close>: \<open>Ok\<close>, \<open>Err\<close> with the text of the error, \<open>Panic\<close> (an index out of range, a
  nil dereference, an explicit panic), or \<open>Diverge\<close>. Machine integers are words and wrap around; \<open>int\<close> of Go is 64 bits, and
  is an integer of HOL only for lengths and offsets of slices, which fit. In the byte source and in the NeoVM (stacks, contexts, arrays and strings), index and
  slice expressions are \<open>at_res\<close>, \<open>upd_res\<close> and \<open>slice_res\<close> of \<open>Prelude\<close>, which panic out of range, so that safety there rests on the guards of
  the code; a slice bound between length and capacity, which Go allows, counts as a panic. Slices that are only read are lists; where capacity,
  aliasing or the difference between a nil and an empty slice matters it is in the model. Error texts that the code formats
  with numbers are kept as their fixed prefix. Code outside \<open>src/\<close> is a parameter: RIPEMD-160, the key and signature library
  (on which \<open>signature.go\<close> builds \<open>Verify\<close>),
  the overflow library, LevelDB, and the order in which Go visits a map, which may be another at each visit. SHA-256 and SHA-1 of the standard
  library are written out. Logging is left out.

  \<^bold>\<open>Shared theories.\<close> \<open>Prelude\<close>: the types of outcomes, bytes and words, with their lemmas. \<open>Loops\<close>: \<open>loop\<close>, which iterates
  a body and is \<open>Diverge\<close> when that never ends, with the rule \<open>loop_total\<close> that proves from a measure that it returns.
  \<open>Sha256\<close>, \<open>Sha1\<close>: the two hash functions.

  \<^bold>\<open>Codecs\<close> (\<open>src/common\<close>). \<open>ByteSource\<close> is \<open>zero_copy_source.go\<close> and \<open>safeMath.go\<close>: no reader panics or leaves the buffer, whatever the
  bytes, and \<open>NextVarUint\<close> accepts only the shortest form. \<open>ByteSink\<close> is \<open>zero_copy_sink.go\<close> with its
  capacity and growth: every write appends. \<open>BigIntNeo\<close> (\<open>bigint.go\<close>), \<open>Codec\<close> (addresses, hashes,
  storage items, \<open>compact_uint.go\<close>, \<open>fixed64.go\<close>), \<open>Serialization\<close> (the stream codec, which writes the bytes the sink writes) and \<open>DeployCode\<close> (which accepts exactly what is within
  the limits) have round trips; \<open>Codec\<close> has
  the locale \<open>serializable\<close> of a written value that is read back, which the codecs interpret.

  \<^bold>\<open>Merkle trees\<close> (\<open>src/merkle\<close>). \<open>MerkleBits\<close> is \<open>util.go\<close>. \<open>MerkleRef\<close> is the hasher and the recursive definitions of the
  tree hash and of proofs, the specification. \<open>MerkleTree\<close>, \<open>CompactTree\<close>: the compact tree and its hash stores compute that
  hash, survive a restart, and predict the next root. \<open>MerkleProof\<close>: the inclusion and consistency proofs the tree gives are accepted
  by the verifier, and a proof that is accepted for another leaf yields a collision of the hash. \<open>MerklePath\<close>: the same for the paths of
  cross-chain proofs, and the root of a block's transactions. A collision is an explicit pair of inputs; nothing is assumed
  of SHA-256.

  \<^bold>\<open>Stores\<close> (\<open>src/core/store/overlaydb\<close>, \<open>src/smartcontract/storage\<close>). \<open>MemDB\<close> models the skip list on its two arrays, with the random heights as a stream,
  and shows that it is a sorted map; searches return because each step moves on in the list. \<open>MemIter\<close> and \<open>JoinIter\<close>: the iterators yield
  what a range of the map, or of two layers, contains. \<open>OverlayDB\<close>, \<open>CacheDB\<close>: reads, writes, commit and reset refine operations on a map, and the change hash
  depends on the changes only, not on their order. Locales state what a layer needs of the layer below (a map, an iterator), and are interpreted
  on the layers of the model.

  \<^bold>\<open>Tokens\<close> (\<open>src/smartcontract\<close>). \<open>SmartContract\<close>: contexts, witnesses, gas, and the native service, whose
  handlers are names that the model runs. \<open>NativeUtils\<close>, \<open>TokenStates\<close>, \<open>Token\<close>, \<open>Ont\<close>, \<open>Ong\<close>: the handlers of both contracts with their
  arguments, storage keys, errors and events. A nested call is run with a bound on its depth; only
  the handlers of ONT call another contract, and what they call does not, so the depth 2 is enough (\<open>native_run_depth\<close>). \<open>UnbindOng\<close>: the release schedule. \<open>OntLedger\<close>, \<open>TokenSystem\<close>, \<open>TokenGenesis\<close>,
  \<open>TokenSafety\<close>: the abstract ledger, the refinement of every call to an effect on it, the states reachable from genesis, and what
  holds in all of them: both supplies are conserved, ONG suffices for all that is owed, balances fall only with authority, and covered transfers and
  withdrawals succeed.

  \<^bold>\<open>Global parameters\<close> (\<open>src/smartcontract/service/native/global_params\<close>). \<open>GlobalParams\<close>: the handlers of the contract, its parameters, storage and
  events. \<open>ParamLedger\<close>: the storage stands for three offices and two maps, every call is a step of a machine on them or an error, only the
  officers change anything, and a value that was set and put in force is read back. The one bound is that the argument bytes of all calls
  stay below \<open>sink_max\<close>, the size up to which a sink grows without a panic.

  \<^bold>\<open>NeoVM\<close> (\<open>src/vm/neovm\<close>). \<open>NeoInt\<close>: integers that are \<open>int64\<close> or big, with exact results. \<open>NeoValue\<close>: values; arrays, structs and maps are
  objects of a heap, and a value holds an address, because the code shares and mutates them. Copying a struct stops by its count of
  \<open>MAX_CLONE_LENGTH\<close>, so the depth \<open>MAX_CLONE_LENGTH + 2\<close> of the model is enough (\<open>clone_safe\<close>). Equality of structs is \<open>reflect.DeepEqual\<close>, a loop
  over pairs that ends since it visits no pair of addresses twice. \<open>NeoStack\<close>, \<open>NeoReader\<close>, \<open>NeoOpcodes\<close>: stacks, code and opcode
  numbers. \<open>NeoExec\<close>: one definition for each case of the switch of \<open>ExecuteOp\<close>, and \<open>Execute\<close>. \<open>NeoSafety\<close>: a calculus
  of operations that keep a well-formed machine and do not panic, applied to every opcode. \<open>NeoRun\<close>: reachable machines,
  and the refinement of the sixteen stack opcodes to lists. \<open>NeoBuilder\<close>: the builder of scripts with which a client encodes arguments, and that the
  interpreter puts exactly these arguments on the stack. \<open>NeoSerialize\<close>, \<open>NeoDeserialize\<close>: the byte form of values. Values that are not circular stand
  for trees, and the byte form round trips. \<open>Serialize\<close> follows pointers without a bound of its own; the model gives it a depth, and the
  depth \<open>serialize_depth\<close>, the limit on the output plus 13, is enough on every heap (\<open>serialize_returns\<close>), since each level writes a header
  and the size is checked after each complete value. \<open>Deserialize\<close> has the limit \<open>MAX_COUNT\<close> on its depth, which the model counts down.

  \<^bold>\<open>Not modelled.\<close> Of the NeoVM: conversion of values to native arguments and to text, and the system calls of
  \<open>src/smartcontract/service/neovm\<close>. The text forms of addresses, hashes and numbers. Mutexes, since one operation runs at a time. The WasmVM; the other native
  contracts (governance, ONT ID, auth, cross chain), which rest on public keys and on the consensus; blocks and transactions,
  whose codecs carry such keys; the ledger store on LevelDB; consensus, transaction pool, network, HTTP, event bus, wallet and command
  line, which are concurrent protocols or input and output.
\<close>

end
